(* ===== verification/Prelude.thy ===== *)
theory Prelude
  imports Main "HOL-Library.Word" "HOL-Library.Monad_Syntax"
begin

text \<open>
  Shared ground of the development: the C scalar types as words, arrays with checked
  access, the interface of a first-in first-out queue that both ring buffers of the
  program (\<^verbatim>\<open>ztask_mq.c\<close> and \<^verbatim>\<open>lua-netpack.c\<close>) are proved to implement, and the
  generic lemmas on lists, options and words the component theories use.

  A C function that can abort (a failing \<^verbatim>\<open>assert\<close>, a read through \<^verbatim>\<open>NULL\<close>, an access
  outside its array) returns an \<open>option\<close>; \<open>None\<close> is the abort.
\<close>

unbundle bit_operations_syntax

section \<open>C scalar types\<close>

type_synonym byte = "8 word"
type_synonym u32 = "32 word"
type_synonym u64 = "64 word"
type_synonym cint = "32 word"
type_synonym ptr = "nat option"

named_theorems ring_simps \<open>facts on indices of a ring buffer\<close>
named_theorems state_simps \<open>component state updates unfolded\<close>

lemma unat_drop_bit: "unat (drop_bit n w) = unat w div 2 ^ n" for w :: u32
proof -
  have "unat (drop_bit n w) = drop_bit n (unat w)"
    using unsigned_less [where ?'b = 32 and ?'a = nat and w = w]
    by (simp add: unsigned_drop_bit_eq take_bit_nat_eq_self)
  then show ?thesis by (simp only: drop_bit_eq_div)
qed

lemma sint_nonneg:
  fixes w :: cint
  assumes "0 \<le> sint w"
  shows "unat w < 2 ^ 31" "sint w = int (unat w)"
proof -
  have "sint w < 2 ^ 31" using sint_less [of w] by simp
  then have "uint w = sint w" using assms by (simp add: uint_sint take_bit_int_eq_self)
  then show "sint w = int (unat w)" by simp
  then have "int (unat w) < int (2 ^ 31)" using \<open>sint w < 2 ^ 31\<close> by (simp del: of_nat_unat)
  then show "unat w < 2 ^ 31" by (simp only: of_nat_less_iff)
qed

section \<open>Options used as aborting computations\<close>

lemma bind_Some_iff [simp]:
  "(Option.bind m f = Some y) \<longleftrightarrow> (\<exists>x. m = Some x \<and> f x = Some y)"
  by (cases m) auto

lemma option_eqI: "(\<And>x. a = Some x \<longleftrightarrow> b = Some x) \<Longrightarrow> a = b"
  by (cases a; cases b) auto

definition assert_c :: "bool \<Rightarrow> unit option" where
  "assert_c b = (if b then Some () else None)"

lemma assert_c_simps [simp]:
  "assert_c True = Some ()"
  "assert_c False = None"
  "(assert_c b = Some u) \<longleftrightarrow> b"
  by (auto simp: assert_c_def)

section \<open>Arrays with checked access\<close>

definition array_get :: "'a list \<Rightarrow> nat \<Rightarrow> 'a option" where
  "array_get xs i = (if i < length xs then Some (xs ! i) else None)"

definition array_set :: "'a list \<Rightarrow> nat \<Rightarrow> 'a \<Rightarrow> 'a list option" where
  "array_set xs i x = (if i < length xs then Some (xs[i := x]) else None)"

lemma array_get_Some [simp]: "array_get xs i = Some x \<longleftrightarrow> i < length xs \<and> xs ! i = x"
  by (auto simp: array_get_def)

lemma array_set_Some [simp]: "array_set xs i x = Some ys \<longleftrightarrow> i < length xs \<and> ys = xs[i := x]"
  by (auto simp: array_set_def)

lemma array_get_in_range [simp]: "i < length xs \<Longrightarrow> array_get xs i = Some (xs ! i)"
  by (simp add: array_get_def)

lemma array_set_in_range [simp]: "i < length xs \<Longrightarrow> array_set xs i x = Some (xs[i := x])"
  by (simp add: array_set_def)

lemma set_fill_cell:
  assumes "i < length xs" "xs ! i = None"
  shows "Some c \<in> set (xs[i := Some d]) \<longleftrightarrow> c = d \<or> Some c \<in> set xs"
proof -
  have "xs = take i xs @ None # drop (Suc i) xs" using id_take_nth_drop [OF assms(1)] assms(2) by simp
  then have "Some c \<in> set xs \<longleftrightarrow> Some c \<in> set (take i xs) \<union> set (drop (Suc i) xs)"
    by (metis Un_iff insert_iff list.simps(15) option.distinct(1) set_append)
  then show ?thesis using assms(1) by (auto simp: upd_conv_take_nth_drop)
qed

section \<open>Ring indices\<close>

lemma ring_index_less [ring_simps]:
  "(h::nat) < c \<Longrightarrow> i < c \<Longrightarrow> (h + i) mod c = (if h + i < c then h + i else h + i - c)"
  by (simp add: mod_if)

lemma ring_index_inj [ring_simps]:
  assumes "(h::nat) < c" "i < c" "j < c"
  shows "(h + i) mod c = (h + j) mod c \<longleftrightarrow> i = j"
  using assms by (auto simp: ring_index_less)

text \<open>The cells of a ring of capacity \<open>c\<close> from index \<open>h\<close>, \<open>n\<close> of them.\<close>

definition ring_cells :: "'a list \<Rightarrow> nat \<Rightarrow> nat \<Rightarrow> 'a list" where
  "ring_cells xs h n = map (\<lambda>i. xs ! ((h + i) mod length xs)) [0..<n]"

lemma length_ring_cells [simp]: "length (ring_cells xs h n) = n"
  by (simp add: ring_cells_def)

lemma ring_cells_0 [simp]: "ring_cells xs h 0 = []"
  by (simp add: ring_cells_def)

lemma ring_cells_push:
  assumes "h < length xs" "n < length xs"
  shows "ring_cells (xs[(h + n) mod length xs := x]) h (Suc n) = ring_cells xs h n @ [x]"
proof -
  let ?c = "length xs"
  have "xs[(h + n) mod ?c := x] ! ((h + i) mod ?c) = xs ! ((h + i) mod ?c)" if "i < n" for i
    using that assms by (subst nth_list_update_neq) (auto simp: ring_simps)
  moreover have "(h + n) mod ?c < ?c" using assms by (intro mod_less_divisor) auto
  ultimately show ?thesis by (simp add: ring_cells_def)
qed

lemma ring_cells_pop:
  assumes "h < length xs" "n < length xs"
  shows "ring_cells xs h (Suc n) = xs ! h # ring_cells xs (if Suc h < length xs then Suc h else 0) n"
proof (rule nth_equalityI)
  fix i assume i: "i < length (ring_cells xs h (Suc n))"
  show "ring_cells xs h (Suc n) ! i
      = (xs ! h # ring_cells xs (if Suc h < length xs then Suc h else 0) n) ! i"
  proof (cases i)
    case 0
    with assms show ?thesis by (simp add: ring_cells_def del: upt_Suc)
  next
    case (Suc j)
    have wrap: "(h + i) mod length xs = j mod length xs" if "\<not> Suc h < length xs"
    proof -
      have "h + i = j + length xs" using that assms Suc by simp
      then show ?thesis by simp
    qed
    from Suc i wrap show ?thesis by (auto simp: ring_cells_def simp del: upt_Suc)
  qed
qed simp

lemma ring_cells_append:
  "h + n \<le> length xs \<Longrightarrow> ring_cells (xs @ ys) h n = ring_cells xs h n"
  by (auto simp: ring_cells_def nth_append)

lemma ring_cells_whole: "n \<le> length xs \<Longrightarrow> ring_cells xs 0 n = take n xs"
  by (auto simp: ring_cells_def intro: nth_equalityI)

text \<open>The cells from the head \<open>h\<close> up to the tail \<open>t\<close>, where the next cell is stored.\<close>

definition ring_len :: "nat \<Rightarrow> nat \<Rightarrow> nat \<Rightarrow> nat" where
  "ring_len h t c = (if h \<le> t then t - h else t + c - h)"

definition ring_list :: "'a list \<Rightarrow> nat \<Rightarrow> nat \<Rightarrow> 'a list" where
  "ring_list xs h t = ring_cells xs h (ring_len h t (length xs))"

lemma ring_list_push:
  assumes "h < length xs" "t < length xs"
  defines "t' \<equiv> if length xs \<le> t + 1 then t + 1 - length xs else t + 1"
  shows "h \<noteq> t' \<Longrightarrow> ring_list (xs[t := x]) h t' = ring_list xs h t @ [x]"
    "h = t' \<Longrightarrow> ring_cells (xs[t := x]) h (length xs) = ring_list xs h t @ [x]"
proof -
  let ?n = "ring_len h t (length xs)"
  have t: "(h + ?n) mod length xs = t" "?n < length xs" using assms(1,2) by (auto simp: ring_len_def)
  have push: "ring_cells (xs[t := x]) h (Suc ?n) = ring_list xs h t @ [x]"
    using ring_cells_push [OF assms(1) t(2), of x] by (simp add: ring_list_def t(1))
  show "ring_list (xs[t := x]) h t' = ring_list xs h t @ [x]" if "h \<noteq> t'"
  proof -
    have "ring_len h t' (length xs) = Suc ?n" using that assms by (auto simp: ring_len_def)
    then show ?thesis using push by (simp add: ring_list_def)
  qed
  show "ring_cells (xs[t := x]) h (length xs) = ring_list xs h t @ [x]" if "h = t'"
  proof -
    have "Suc ?n = length xs" using that assms by (auto simp: ring_len_def split: if_splits)
    then show ?thesis using push by simp
  qed
qed

lemma ring_list_pop:
  assumes "h < length xs" "t < length xs" "h \<noteq> t"
  shows "ring_list xs h t = xs ! h # ring_list xs (if length xs \<le> h + 1 then 0 else h + 1) t"
proof -
  let ?h = "if length xs \<le> h + 1 then 0 else h + 1"
  have l: "ring_len h t (length xs) = Suc (ring_len ?h t (length xs))" "ring_len ?h t (length xs) < length xs"
    using assms by (auto simp: ring_len_def)
  have "(if Suc h < length xs then Suc h else 0) = ?h" by auto
  then show ?thesis using ring_cells_pop [OF assms(1) l(2)] unfolding ring_list_def l(1) by simp
qed

lemma ring_list_empty: "ring_list xs h h = []"
  by (simp add: ring_list_def ring_len_def)

lemma fold_keep [simp]: "fold (\<lambda>x y. y) xs y = y"
  by (induction xs) simp_all

section \<open>Counting\<close>

lemma filter_count_update:
  assumes "i < length xs"
  shows "length (filter P (xs[i := y])) + (if P (xs ! i) then 1 else 0)
       = length (filter P xs) + (if P y then (1::nat) else 0)"
proof -
  have e: "xs = take i xs @ xs ! i # drop (Suc i) xs" using assms by (rule id_take_nth_drop)
  from arg_cong [OF e, of "\<lambda>l. length (filter P l)"] show ?thesis
    using assms by (simp add: upd_conv_take_nth_drop)
qed

lemma filter_count_ge_2:
  assumes "i < length xs" "j < length xs" "i \<noteq> j" "P (xs ! i)" "P (xs ! j)"
  shows "2 \<le> length (filter P xs)"
proof -
  have "{i, j} \<subseteq> {k. k < length xs \<and> P (xs ! k)}" using assms by auto
  then have "card {i, j} \<le> card {k. k < length xs \<and> P (xs ! k)}" by (intro card_mono) auto
  then show ?thesis using assms(3) by (simp add: length_filter_conv_card)
qed

lemma filter_count_pos:
  "i < length xs \<Longrightarrow> P (xs ! i) \<Longrightarrow> 1 \<le> length (filter P xs)"
  by (metis One_nat_def Suc_leI filter_empty_conv length_greater_0_conv nth_mem)

end
