(* ===== verification/Fifo.thy ===== *)
theory Fifo
  imports Prelude
begin

text \<open>
  The contract of a first-in first-out queue whose operations may abort. The providers
  are the message queue of \<^verbatim>\<open>ztask_mq.c\<close> (theory Mq) and the packet queue of
  \<^verbatim>\<open>lua-netpack.c\<close> (theory Netpack). What a client can rely on after any sequence of
  operations is proved here once.
\<close>

section \<open>Sequences of queue operations\<close>

datatype 'm fifo_op = Enq 'm | Deq

fun fifo_run ::
  "('m \<Rightarrow> 'q \<Rightarrow> 'q option) \<Rightarrow> ('q \<Rightarrow> ('m option \<times> 'q) option) \<Rightarrow> 'm fifo_op list \<Rightarrow> 'q
    \<Rightarrow> ('m list \<times> 'q) option" where
  "fifo_run enq deq [] q = Some ([], q)"
| "fifo_run enq deq (Enq m # ops) q =
     do { q' \<leftarrow> enq m q; fifo_run enq deq ops q' }"
| "fifo_run enq deq (Deq # ops) q =
     do { (r, q') \<leftarrow> deq q;
          (out, q'') \<leftarrow> fifo_run enq deq ops q';
          Some (case r of None \<Rightarrow> out | Some m \<Rightarrow> m # out, q'') }"

fun fifo_inputs :: "'m fifo_op list \<Rightarrow> 'm list" where
  "fifo_inputs [] = []"
| "fifo_inputs (Enq m # ops) = m # fifo_inputs ops"
| "fifo_inputs (Deq # ops) = fifo_inputs ops"

text \<open>\<open>fits ms\<close>: a queue that holds \<open>ms\<close> can take one more. Whether this is so before each \<open>Enq\<close>:\<close>

fun fifo_within :: "('m list \<Rightarrow> bool) \<Rightarrow> 'm list \<Rightarrow> 'm fifo_op list \<Rightarrow> bool" where
  "fifo_within fits ms [] = True"
| "fifo_within fits ms (Enq m # ops) = (fits ms \<and> fifo_within fits (ms @ [m]) ops)"
| "fifo_within fits ms (Deq # ops) = fifo_within fits (tl ms) ops"

section \<open>The contract\<close>

locale fifo =
  fixes inv :: "'q \<Rightarrow> bool"
    and contents :: "'q \<Rightarrow> 'm list"
    and fits :: "'m list \<Rightarrow> bool"
    and enq :: "'m \<Rightarrow> 'q \<Rightarrow> 'q option"
    and deq :: "'q \<Rightarrow> ('m option \<times> 'q) option"
  assumes enq_ok: "inv q \<Longrightarrow> fits (contents q) \<Longrightarrow> \<exists>q'. enq m q = Some q' \<and> inv q' \<and> contents q' = contents q @ [m]"
    and deq_ok: "inv q \<Longrightarrow> \<exists>q'. deq q =
        Some (case contents q of [] \<Rightarrow> None | m # _ \<Rightarrow> Some m, q') \<and>
        inv q' \<and> contents q' = tl (contents q)"
begin

lemma run_conserves:
  "inv q \<Longrightarrow> fifo_within fits (contents q) ops \<Longrightarrow> \<exists>out q'. fifo_run enq deq ops q = Some (out, q') \<and> inv q' \<and>
     out @ contents q' = contents q @ fifo_inputs ops"
proof (induction ops arbitrary: q)
  case Nil
  then show ?case by simp
next
  case (Cons x ops)
  show ?case
  proof (cases x)
    case (Enq m)
    obtain q1 where "enq m q = Some q1" "inv q1" "contents q1 = contents q @ [m]"
      using enq_ok [OF Cons.prems(1)] Cons.prems(2) Enq by auto
    with Cons.IH [of q1] Cons.prems(2) Enq show ?thesis by auto
  next
    case Deq
    obtain q1 where d: "deq q = Some (case contents q of [] \<Rightarrow> None | m # _ \<Rightarrow> Some m, q1)"
      and q1: "inv q1" "contents q1 = tl (contents q)"
      using deq_ok [OF Cons.prems(1)] by blast
    obtain out q2 where r: "fifo_run enq deq ops q1 = Some (out, q2)" "inv q2"
      "out @ contents q2 = contents q1 @ fifo_inputs ops"
      using Cons.IH [OF q1(1)] q1(2) Cons.prems(2) Deq by auto
    with d q1 Deq show ?thesis by (cases "contents q") auto
  qed
qed

lemma drain_all:
  assumes "inv q" "contents q = ms"
  shows "\<exists>q'. fifo_run enq deq (replicate (length ms) Deq) q = Some (ms, q') \<and> inv q' \<and>
           contents q' = []"
  using assms
proof (induction ms arbitrary: q)
  case Nil
  then show ?case by simp
next
  case (Cons m ms)
  obtain q1 where "deq q = Some (Some m, q1)" "inv q1" "contents q1 = ms"
    using deq_ok [OF Cons.prems(1)] Cons.prems(2) by auto
  with Cons.IH show ?case by fastforce
qed

end

section \<open>Queues with a limit\<close>

primrec push_all :: "('m \<Rightarrow> 'q \<Rightarrow> 'q option) \<Rightarrow> 'm list \<Rightarrow> 'q \<Rightarrow> 'q option" where
  "push_all enq [] q = Some q"
| "push_all enq (m # ms) q = do { q1 \<leftarrow> enq m q; push_all enq ms q1 }"

text \<open>The rings of the program double their arrays, whose size is an \<^verbatim>\<open>int\<close>.\<close>

locale bounded_fifo = fifo inv contents "\<lambda>ms. length ms < limit" enq deq
  for inv :: "'q \<Rightarrow> bool" and contents :: "'q \<Rightarrow> 'm list" and limit :: nat
    and enq :: "'m \<Rightarrow> 'q \<Rightarrow> 'q option" and deq :: "'q \<Rightarrow> ('m option \<times> 'q) option"
begin

lemma push_all_ok:
  "inv q \<Longrightarrow> length (contents q) + length ms \<le> limit \<Longrightarrow>
   \<exists>q'. push_all enq ms q = Some q' \<and> inv q' \<and> contents q' = contents q @ ms"
proof (induction ms arbitrary: q)
  case (Cons m ms)
  obtain q1 where q1: "enq m q = Some q1" "inv q1" "contents q1 = contents q @ [m]"
    using enq_ok [OF Cons.prems(1), of m] Cons.prems(2) by auto
  with Cons.IH [of q1] Cons.prems(2) show ?case by simp
qed simp

lemma deq_cases:
  assumes "inv q"
  obtains (empty) q' where "contents q = []" "deq q = Some (None, q')" "inv q'" "contents q' = []"
  | (first) m ms q' where "contents q = m # ms" "deq q = Some (Some m, q')" "inv q'" "contents q' = ms"
  using deq_ok [OF assms] by (cases "contents q") auto

end

end
