(* ===== verification/Mq.thy ===== *)
theory Mq
  imports Fifo
begin

text \<open>
  The message queues of \<^verbatim>\<open>src/ztask/ztask_mq.c\<close>. Each service owns one
  \<^verbatim>\<open>struct message_queue\<close>, a ring buffer that doubles when it is full; the queues that
  have work are linked through their \<^verbatim>\<open>next\<close> field into the global queue \<^verbatim>\<open>Q\<close>, from
  which the worker threads take them. Queue objects live in a store \<open>mq_mem\<close> (the C
  heap restricted to them), addressed by \<open>qref\<close>. Every operation of the file runs
  under the spin lock of the queue, so each is one atomic step here.

  The operations on \<open>mq_state\<close> are polymorphic in the record's extension: the node of
  theory Server extends it, and the drop callback of \<^verbatim>\<open>ztask_mq_release\<close> acts on the
  whole node.
\<close>

section \<open>Data\<close>

record ztask_message =
  msg_source :: u32
  msg_session :: cint
  msg_data :: ptr
  msg_sz :: u64

type_synonym qref = nat

text \<open>
  The array cells are \<open>None\<close> while \<^verbatim>\<open>malloc\<close>'s memory has not been written. The two C
  flags \<^verbatim>\<open>release\<close> and \<^verbatim>\<open>in_global\<close> only take the values 0 and 1.
\<close>

record message_queue =
  mq_handle :: u32
  cap :: nat
  head :: nat
  tail :: nat
  release :: bool
  in_global :: bool
  overload :: int
  overload_threshold :: int
  queue :: "ztask_message option list"
  qnext :: "qref option"

record mq_state =
  mq_mem :: "qref \<Rightarrow> message_queue option"
  mq_brk :: qref
  gq_head :: "qref option"
  gq_tail :: "qref option"

definition DEFAULT_QUEUE_SIZE :: nat where
  "DEFAULT_QUEUE_SIZE = 64"

definition MQ_OVERLOAD :: int where
  "MQ_OVERLOAD = 1024"

definition mq_put :: "qref \<Rightarrow> message_queue \<Rightarrow> 'w mq_state_scheme \<Rightarrow> 'w mq_state_scheme" where
  "mq_put q mq s = s\<lparr>mq_mem := (mq_mem s)(q \<mapsto> mq)\<rparr>"

section \<open>The global queue\<close>

definition ztask_globalmq_push :: "qref \<Rightarrow> 'w mq_state_scheme \<Rightarrow> 'w mq_state_scheme option" where
  "ztask_globalmq_push q s =
     do { mq \<leftarrow> mq_mem s q;
          assert_c (qnext mq = None);
          case gq_tail s of
            Some t \<Rightarrow> do { tq \<leftarrow> mq_mem s t;
                          Some ((mq_put t (tq\<lparr>qnext := Some q\<rparr>) s)\<lparr>gq_tail := Some q\<rparr>) }
          | None \<Rightarrow> Some (s\<lparr>gq_head := Some q, gq_tail := Some q\<rparr>) }"

definition ztask_globalmq_pop :: "'w mq_state_scheme \<Rightarrow> (qref option \<times> 'w mq_state_scheme) option" where
  "ztask_globalmq_pop s =
     (case gq_head s of
        None \<Rightarrow> Some (None, s)
      | Some m \<Rightarrow>
          do { mq \<leftarrow> mq_mem s m;
               let s1 = s\<lparr>gq_head := qnext mq\<rparr>;
               s2 \<leftarrow> (if qnext mq = None
                      then do { assert_c (gq_tail s1 = Some m); Some (s1\<lparr>gq_tail := None\<rparr>) }
                      else Some s1);
               Some (Some m, mq_put m (mq\<lparr>qnext := None\<rparr>) s2) })"

section \<open>One message queue\<close>

definition mq_new :: "u32 \<Rightarrow> message_queue" where
  "mq_new handle =
     \<lparr>mq_handle = handle, cap = DEFAULT_QUEUE_SIZE, head = 0, tail = 0, release = False,
      in_global = True, overload = 0, overload_threshold = MQ_OVERLOAD,
      queue = replicate DEFAULT_QUEUE_SIZE None, qnext = None\<rparr>"

definition ztask_mq_create :: "u32 \<Rightarrow> 'w mq_state_scheme \<Rightarrow> qref \<times> 'w mq_state_scheme" where
  "ztask_mq_create handle s =
     (let q = mq_brk s in (q, (mq_put q (mq_new handle) s)\<lparr>mq_brk := Suc q\<rparr>))"

definition mq_release_object :: "qref \<Rightarrow> 'w mq_state_scheme \<Rightarrow> 'w mq_state_scheme option" where
  "mq_release_object q s =
     do { mq \<leftarrow> mq_mem s q;
          assert_c (qnext mq = None);
          Some (s\<lparr>mq_mem := (mq_mem s)(q := None)\<rparr>) }"

definition ztask_mq_handle :: "message_queue \<Rightarrow> u32" where
  "ztask_mq_handle q = mq_handle q"

definition ztask_mq_length :: "message_queue \<Rightarrow> nat" where
  "ztask_mq_length q = (if head q \<le> tail q then tail q - head q else tail q + cap q - head q)"

definition ztask_mq_overload :: "message_queue \<Rightarrow> int \<times> message_queue" where
  "ztask_mq_overload q = (if overload q \<noteq> 0 then (overload q, q\<lparr>overload := 0\<rparr>) else (0, q))"

text \<open>The loop that doubles the threshold, an \<^verbatim>\<open>int\<close>; \<open>None\<close> is an overflow or a loop that does not end.\<close>

partial_function (option) overload_loop :: "int \<Rightarrow> message_queue \<Rightarrow> message_queue option" where
  "overload_loop len q =
     (if len > overload_threshold q
      then if 2 ^ 31 \<le> overload_threshold q * 2 then None
           else overload_loop len (q\<lparr>overload := len, overload_threshold := overload_threshold q * 2\<rparr>)
      else Some q)"

definition ztask_mq_pop :: "message_queue \<Rightarrow> (ztask_message option \<times> message_queue) option" where
  "ztask_mq_pop q =
     (if head q \<noteq> tail q
      then do { cell \<leftarrow> array_get (queue q) (head q);
                message \<leftarrow> cell;
                let h = head q + 1;
                let q1 = q\<lparr>head := (if h \<ge> cap q then 0 else h)\<rparr>;
                let len = int (tail q1) - int (head q1);
                let len = (if len < 0 then len + int (cap q) else len);
                q2 \<leftarrow> overload_loop len q1;
                Some (Some message, q2) }
      else Some (None, q\<lparr>overload_threshold := MQ_OVERLOAD, in_global := False\<rparr>))"

text \<open>\<open>None\<close> when the new size is not an \<^verbatim>\<open>int\<close>.\<close>

definition doubled_queue :: "message_queue \<Rightarrow> message_queue" where
  "doubled_queue q =
     q\<lparr>queue := map (\<lambda>i. queue q ! ((head q + i) mod cap q)) [0..<cap q] @ replicate (cap q) None,
       head := 0, tail := cap q, cap := cap q * 2\<rparr>"

definition expand_queue :: "message_queue \<Rightarrow> message_queue option" where
  "expand_queue q = (if 2 ^ 31 \<le> cap q * 2 then None else Some (doubled_queue q))"

text \<open>The part of \<^verbatim>\<open>ztask_mq_push\<close> that writes the ring, before the global queue is told.\<close>

definition mq_store :: "ztask_message \<Rightarrow> message_queue \<Rightarrow> message_queue option" where
  "mq_store message q =
     do { qa \<leftarrow> array_set (queue q) (tail q) (Some message);
          let t = tail q + 1;
          let q1 = q\<lparr>queue := qa, tail := (if t \<ge> cap q then 0 else t)\<rparr>;
          if head q1 = tail q1 then expand_queue q1 else Some q1 }"

definition ztask_mq_push :: "qref \<Rightarrow> ztask_message \<Rightarrow> 'w mq_state_scheme \<Rightarrow> 'w mq_state_scheme option" where
  "ztask_mq_push q message s =
     do { mq \<leftarrow> mq_mem s q;
          mq1 \<leftarrow> mq_store message mq;
          if \<not> in_global mq1
          then ztask_globalmq_push q (mq_put q (mq1\<lparr>in_global := True\<rparr>) s)
          else Some (mq_put q mq1 s) }"

definition ztask_mq_init :: "mq_state" where
  "ztask_mq_init = \<lparr>mq_mem = (\<lambda>_. None), mq_brk = 1, gq_head = None, gq_tail = None\<rparr>"

section \<open>Releasing a queue\<close>

definition ztask_mq_mark_release :: "qref \<Rightarrow> 'w mq_state_scheme \<Rightarrow> 'w mq_state_scheme option" where
  "ztask_mq_mark_release q s =
     do { mq \<leftarrow> mq_mem s q;
          assert_c (\<not> release mq);
          let s1 = mq_put q (mq\<lparr>release := True\<rparr>) s;
          if \<not> in_global mq then ztask_globalmq_push q s1 else Some s1 }"

partial_function (option) drop_loop ::
  "(ztask_message \<Rightarrow> 'w mq_state_scheme \<Rightarrow> 'w mq_state_scheme option) \<Rightarrow> qref
    \<Rightarrow> 'w mq_state_scheme \<Rightarrow> 'w mq_state_scheme option" where
  "drop_loop drop_func q s =
     do { mq \<leftarrow> mq_mem s q;
          (r, mq') \<leftarrow> ztask_mq_pop mq;
          let s1 = mq_put q mq' s;
          (case r of
             None \<Rightarrow> Some s1
           | Some msg \<Rightarrow> do { s2 \<leftarrow> drop_func msg s1; drop_loop drop_func q s2 }) }"

definition drop_queue ::
  "(ztask_message \<Rightarrow> 'w mq_state_scheme \<Rightarrow> 'w mq_state_scheme option) \<Rightarrow> qref
    \<Rightarrow> 'w mq_state_scheme \<Rightarrow> 'w mq_state_scheme option" where
  "drop_queue drop_func q s = do { s1 \<leftarrow> drop_loop drop_func q s; mq_release_object q s1 }"

definition ztask_mq_release ::
  "(ztask_message \<Rightarrow> 'w mq_state_scheme \<Rightarrow> 'w mq_state_scheme option) \<Rightarrow> qref
    \<Rightarrow> 'w mq_state_scheme \<Rightarrow> 'w mq_state_scheme option" where
  "ztask_mq_release drop_func q s =
     do { mq \<leftarrow> mq_mem s q;
          if release mq then drop_queue drop_func q s else ztask_globalmq_push q s }"

section \<open>Well-formed queues and their contents\<close>

text \<open>The capacity is at most \<open>2 ^ 30\<close>, so that no index and no length overflows.\<close>

definition mq_ok :: "message_queue \<Rightarrow> bool" where
  "mq_ok q \<longleftrightarrow> (\<exists>k \<le> 24. cap q = 64 * 2 ^ k) \<and> length (queue q) = cap q \<and> head q < cap q \<and> tail q < cap q \<and>
     0 < overload_threshold q \<and>
     list_all (\<lambda>c. c \<noteq> None) (ring_cells (queue q) (head q) (ztask_mq_length q))"

definition mq_contents :: "message_queue \<Rightarrow> ztask_message list" where
  "mq_contents q = map the (ring_cells (queue q) (head q) (ztask_mq_length q))"

lemma mq_length_contents [simp]: "length (mq_contents q) = ztask_mq_length q"
  by (simp add: mq_contents_def)

lemma mq_length_bound: "mq_ok q \<Longrightarrow> ztask_mq_length q < cap q"
  by (auto simp: mq_ok_def ztask_mq_length_def)

lemma mq_cap:
  assumes "mq_ok q"
  shows "0 < cap q" "cap q \<le> 2 ^ 30"
proof -
  obtain k where k: "k \<le> 24" "cap q = 64 * 2 ^ k" using assms by (auto simp: mq_ok_def)
  then have "(2 :: nat) ^ k \<le> 2 ^ 24" by (intro power_increasing) auto
  then show "0 < cap q" "cap q \<le> 2 ^ 30" using k(2) by simp_all
qed

lemma mq_length_limit: "mq_ok q \<Longrightarrow> ztask_mq_length q < 2 ^ 30"
  using mq_length_bound [of q] mq_cap(2) [of q] by linarith

lemma mq_tail_index: "mq_ok q \<Longrightarrow> (head q + ztask_mq_length q) mod cap q = tail q"
  by (auto simp: mq_ok_def ztask_mq_length_def mod_if)

lemma mq_empty_iff: "mq_ok q \<Longrightarrow> (ztask_mq_length q = 0) = (head q = tail q)"
  by (auto simp: mq_ok_def ztask_mq_length_def)

lemma list_all_SomeE:
  "list_all (\<lambda>c. c \<noteq> None) xs \<Longrightarrow> \<exists>ys. xs = map Some ys"
  by (rule exI [of _ "map the xs"]) (induction xs, auto)

subsection \<open>The threshold loop\<close>

lemma overload_loop_returns:
  assumes "0 < overload_threshold q" "len < 2 ^ 30"
  shows "\<exists>ov th. overload_loop len q = Some (q\<lparr>overload := ov, overload_threshold := th\<rparr>) \<and>
    len \<le> th \<and> overload_threshold q \<le> th \<and>
    (len \<le> overload_threshold q \<longrightarrow> ov = overload q \<and> th = overload_threshold q) \<and>
    (overload_threshold q < len \<longrightarrow> ov = len \<and> th < 2 * len)"
  using assms
proof (induction "nat (len - overload_threshold q)" arbitrary: q rule: less_induct)
  case less
  show ?case
  proof (cases "len > overload_threshold q")
    case False
    then have "overload_loop len q = Some (q\<lparr>overload := overload q,
        overload_threshold := overload_threshold q\<rparr>)"
      by (simp add: overload_loop.simps)
    then show ?thesis
      by - (rule exI [of _ "overload q"], rule exI [of _ "overload_threshold q"], use False in simp)
  next
    case True
    let ?q = "q\<lparr>overload := len, overload_threshold := overload_threshold q * 2\<rparr>"
    have "nat (len - overload_threshold ?q) < nat (len - overload_threshold q)"
      using True less.prems by simp
    moreover have "0 < overload_threshold ?q" using less.prems by simp
    moreover have "len < 2 ^ 30" by (rule less.prems(2))
    ultimately have "\<exists>ov th. overload_loop len ?q = Some (?q\<lparr>overload := ov, overload_threshold := th\<rparr>) \<and>
        len \<le> th \<and> overload_threshold ?q \<le> th \<and>
        (len \<le> overload_threshold ?q \<longrightarrow> ov = overload ?q \<and> th = overload_threshold ?q) \<and>
        (overload_threshold ?q < len \<longrightarrow> ov = len \<and> th < 2 * len)"
      by (rule less.hyps)
    then obtain ov th where IH: "overload_loop len ?q =
          Some (?q\<lparr>overload := ov, overload_threshold := th\<rparr>)"
      and ih: "len \<le> th" "overload_threshold ?q \<le> th"
        "len \<le> overload_threshold ?q \<longrightarrow> ov = overload ?q \<and> th = overload_threshold ?q"
        "overload_threshold ?q < len \<longrightarrow> ov = len \<and> th < 2 * len"
      by (elim exE conjE) (rule that)
    have th: "len \<le> th" "overload_threshold q * 2 \<le> th"
        "len \<le> overload_threshold q * 2 \<longrightarrow> ov = len \<and> th = overload_threshold q * 2"
        "overload_threshold q * 2 < len \<longrightarrow> ov = len \<and> th < 2 * len"
      using ih by simp_all
    from True IH less.prems have "overload_loop len q = Some (q\<lparr>overload := ov, overload_threshold := th\<rparr>)"
      by (simp add: overload_loop.simps [of len q])
    then show ?thesis
      by - (rule exI [of _ ov], rule exI [of _ th], use th True less.prems in auto)
  qed
qed

subsection \<open>Push and pop on the ring\<close>

lemma mq_contents_threshold [simp]:
  "mq_contents (q\<lparr>overload := a, overload_threshold := b\<rparr>) = mq_contents q"
  "mq_contents (q\<lparr>overload_threshold := b\<rparr>) = mq_contents q"
  "mq_contents (q\<lparr>in_global := c\<rparr>) = mq_contents q"
  "mq_contents (q\<lparr>release := c\<rparr>) = mq_contents q"
  "mq_contents (q\<lparr>qnext := n\<rparr>) = mq_contents q"
  "mq_contents (q\<lparr>overload := a\<rparr>) = mq_contents q"
  by (simp_all add: mq_contents_def ztask_mq_length_def)

lemma mq_ok_flags [simp]:
  "mq_ok (q\<lparr>in_global := c\<rparr>) = mq_ok q"
  "mq_ok (q\<lparr>release := c\<rparr>) = mq_ok q"
  "mq_ok (q\<lparr>qnext := n\<rparr>) = mq_ok q"
  "mq_ok (q\<lparr>overload := a\<rparr>) = mq_ok q"
  by (simp_all add: mq_ok_def ztask_mq_length_def)

lemma mq_new_ok: "mq_ok (mq_new h)" "mq_contents (mq_new h) = []"
  by (simp_all add: mq_ok_def mq_new_def mq_contents_def ztask_mq_length_def
      DEFAULT_QUEUE_SIZE_def MQ_OVERLOAD_def)

text \<open>Where the ring has room, storing a message appends it.\<close>

definition mq_advance :: "ztask_message \<Rightarrow> message_queue \<Rightarrow> message_queue" where
  "mq_advance m q = q\<lparr>queue := (queue q)[tail q := Some m],
     tail := (if tail q + 1 \<ge> cap q then 0 else tail q + 1)\<rparr>"

lemma mq_advance_cells:
  assumes "mq_ok q"
  shows "ring_cells (queue (mq_advance m q)) (head q) (Suc (ztask_mq_length q))
       = ring_cells (queue q) (head q) (ztask_mq_length q) @ [Some m]"
proof -
  have "head q < length (queue q)" "ztask_mq_length q < length (queue q)"
    using assms mq_length_bound [OF assms] by (auto simp: mq_ok_def)
  from ring_cells_push [OF this, of "Some m"] show ?thesis
    using mq_tail_index [OF assms] assms by (simp add: mq_advance_def mq_ok_def)
qed

lemma mq_advance_room:
  assumes "mq_ok q" "head q \<noteq> tail (mq_advance m q)"
  shows "ztask_mq_length (mq_advance m q) = Suc (ztask_mq_length q)"
  using assms by (auto simp: mq_ok_def ztask_mq_length_def mq_advance_def split: if_splits)

lemma mq_advance_full:
  assumes "mq_ok q" "head q = tail (mq_advance m q)"
  shows "Suc (ztask_mq_length q) = cap q"
  using assms by (auto simp: mq_ok_def ztask_mq_length_def mq_advance_def split: if_splits)

lemma doubled_queue_cells:
  assumes "length (queue q) = cap q"
  shows "ring_cells (queue (doubled_queue q)) 0 (cap q) = ring_cells (queue q) (head q) (cap q)"
  using assms by (simp add: doubled_queue_def ring_cells_append) 
    (simp add: ring_cells_whole, simp add: ring_cells_def)

lemma mq_store_eq:
  assumes "mq_ok q"
  shows "mq_store m q = (let q1 = mq_advance m q in
           if head q = tail q1 then expand_queue q1 else Some q1)"
  using assms by (simp add: mq_store_def mq_advance_def mq_ok_def Let_def)

text \<open>A ring of capacity \<open>2 ^ 30\<close> cannot be doubled; the message that fills it is one too many.\<close>

definition MQ_LIMIT :: nat where
  "MQ_LIMIT = 2 ^ 30 - 1"

lemma mq_full_expands:
  assumes "mq_ok q" "length (mq_contents q) < MQ_LIMIT" "head q = tail (mq_advance m q)"
  shows "expand_queue (mq_advance m q) = Some (doubled_queue (mq_advance m q))"
    "\<exists>k \<le> 24. cap (doubled_queue (mq_advance m q)) = 64 * 2 ^ k"
proof -
  obtain k where k: "k \<le> 24" "cap q = 64 * 2 ^ k" using assms(1) by (auto simp: mq_ok_def)
  have lt: "cap q < 2 ^ 30"
    using mq_advance_full [OF assms(1,3)] assms(2) by (simp add: MQ_LIMIT_def)
  then show "expand_queue (mq_advance m q) = Some (doubled_queue (mq_advance m q))"
    by (simp add: expand_queue_def mq_advance_def)
  have "k \<noteq> 24" using lt k by auto
  then show "\<exists>k \<le> 24. cap (doubled_queue (mq_advance m q)) = 64 * 2 ^ k"
    by (intro exI [of _ "Suc k"]) (use k in \<open>simp add: doubled_queue_def mq_advance_def\<close>)
qed

lemma mq_store_ok:
  assumes "mq_ok q" "length (mq_contents q) < MQ_LIMIT"
  shows "\<exists>q'. mq_store m q = Some q' \<and> mq_ok q' \<and> mq_contents q' = mq_contents q @ [m] \<and>
    in_global q' = in_global q \<and> release q' = release q \<and> qnext q' = qnext q \<and>
    mq_handle q' = mq_handle q \<and> overload q' = overload q \<and> overload_threshold q' = overload_threshold q"
proof (cases "head q = tail (mq_advance m q)")
  case False
  let ?q = "mq_advance m q"
  have st: "mq_store m q = Some ?q" using False assms by (simp add: mq_store_eq Let_def)
  have len: "ztask_mq_length ?q = Suc (ztask_mq_length q)"
    using mq_advance_room assms False by blast
  have h: "head ?q = head q" by (simp add: mq_advance_def)
  have "mq_ok ?q" using assms(1) mq_advance_cells [OF assms(1), of m] len h
    by (auto simp: mq_ok_def) (auto simp: mq_advance_def)
  moreover have "mq_contents ?q = mq_contents q @ [m]"
    using mq_advance_cells [OF assms(1), of m] len h by (simp add: mq_contents_def)
  ultimately show ?thesis using st by (simp add: mq_advance_def)
next
  case True
  let ?q = "mq_advance m q" and ?e = "doubled_queue (mq_advance m q)"
  have st: "mq_store m q = Some ?e"
    using True assms mq_full_expands(1) [OF assms True] by (simp add: mq_store_eq Let_def)
  have cap: "\<exists>k \<le> 24. cap ?e = 64 * 2 ^ k" by (rule mq_full_expands(2) [OF assms True])
  have full: "Suc (ztask_mq_length q) = cap q" using mq_advance_full assms True by blast
  have q: "length (queue ?q) = cap ?q" "cap ?q = cap q" "head ?q = head q"
    using assms by (auto simp: mq_advance_def mq_ok_def)
  have len: "ztask_mq_length ?e = cap q"
    using q by (simp add: doubled_queue_def ztask_mq_length_def)
  have cells: "ring_cells (queue ?e) (head ?e) (cap q)
      = ring_cells (queue q) (head q) (ztask_mq_length q) @ [Some m]"
    using doubled_queue_cells [OF q(1)] mq_advance_cells [OF assms(1), of m] q full
    by (simp add: doubled_queue_def)
  have "length (queue ?e) = cap ?e" "head ?e < cap ?e" "tail ?e < cap ?e" "0 < overload_threshold ?e"
    using q assms(1) mq_cap(1) [OF assms(1)] by (simp_all add: doubled_queue_def) (simp add: mq_advance_def mq_ok_def)
  moreover have "list_all (\<lambda>c. c \<noteq> None) (ring_cells (queue ?e) (head ?e) (ztask_mq_length ?e))"
    using assms(1) cells len by (simp add: mq_ok_def)
  ultimately have "mq_ok ?e" using cap unfolding mq_ok_def by blast
  moreover have "mq_contents ?e = mq_contents q @ [m]"
    using cells len by (simp add: mq_contents_def)
  ultimately show ?thesis using st by (simp add: doubled_queue_def mq_advance_def)
qed

text \<open>Conversely, a message that was stored had room.\<close>

lemma mq_store_room:
  assumes "mq_ok q" "mq_store m q = Some q'"
  shows "length (mq_contents q) < MQ_LIMIT"
proof (rule ccontr)
  assume "\<not> length (mq_contents q) < MQ_LIMIT"
  then have len: "2 ^ 30 - 1 \<le> ztask_mq_length q" by (simp add: MQ_LIMIT_def)
  have lt: "ztask_mq_length q < cap q" "cap q \<le> 2 ^ 30"
    using mq_length_bound [OF assms(1)] mq_cap(2) [OF assms(1)] by blast+
  have cap: "cap q = Suc (ztask_mq_length q)" "cap q = 2 ^ 30" using len lt by simp_all
  have idx: "head q + cap q = Suc (head q + ztask_mq_length q)" by (simp only: cap(1) add_Suc_right)
  have "(tail q + 1) mod cap q = Suc ((head q + ztask_mq_length q) mod cap q) mod cap q"
    by (simp only: mq_tail_index [OF assms(1)] Suc_eq_plus1)
  also have "\<dots> = Suc (head q + ztask_mq_length q) mod cap q" by (rule mod_Suc_eq)
  also have "\<dots> = (head q + cap q) mod cap q" by (simp only: idx)
  also have "\<dots> = head q" using assms(1) by (simp add: mq_ok_def)
  finally have "(tail q + 1) mod cap q = head q" .
  moreover have "(tail q + 1) mod cap q = tail (mq_advance m q)"
    using assms(1) by (auto simp: mq_ok_def mq_advance_def mod_if)
  ultimately have "head q = tail (mq_advance m q)" by simp
  then show False
    using assms cap(2) by (simp add: mq_store_eq Let_def expand_queue_def mq_advance_def)
qed

lemma ztask_mq_pop_empty:
  assumes "mq_ok q" "mq_contents q = []"
  shows "ztask_mq_pop q = Some (None, q\<lparr>overload_threshold := MQ_OVERLOAD, in_global := False\<rparr>)"
proof -
  have "head q = tail q"
    using mq_empty_iff [OF assms(1)] mq_length_contents [of q] assms(2) by simp
  then show ?thesis by (simp add: ztask_mq_pop_def)
qed

lemma ztask_mq_pop_step:
  assumes "head q \<noteq> tail q" "head q < length (queue q)" "queue q ! head q = Some m"
    and "h = (if head q + 1 \<ge> cap q then 0 else head q + 1)"
    and "(let l = int (tail q) - int h in if l < 0 then l + int (cap q) else l) = n"
  shows "ztask_mq_pop q = do { q2 \<leftarrow> overload_loop n (q\<lparr>head := h\<rparr>); Some (Some m, q2) }"
  unfolding assms(5) [symmetric] assms(4) using assms(1-3) by (simp add: ztask_mq_pop_def Let_def)

lemma ztask_mq_pop_cons:
  assumes ok: "mq_ok q" and c: "mq_contents q = m # ms"
  shows "\<exists>ov th. ztask_mq_pop q =
      Some (Some m, q\<lparr>head := (if head q + 1 \<ge> cap q then 0 else head q + 1),
                      overload := ov, overload_threshold := th\<rparr>) \<and>
    mq_ok (q\<lparr>head := (if head q + 1 \<ge> cap q then 0 else head q + 1),
             overload := ov, overload_threshold := th\<rparr>) \<and>
    mq_contents (q\<lparr>head := (if head q + 1 \<ge> cap q then 0 else head q + 1)\<rparr>) = ms \<and>
    int (length ms) \<le> th \<and>
    (int (length ms) \<le> overload_threshold q \<longrightarrow> ov = overload q \<and> th = overload_threshold q) \<and>
    (overload_threshold q < int (length ms) \<longrightarrow> ov = int (length ms) \<and> th < 2 * int (length ms))"
proof -
  let ?h = "if head q + 1 \<ge> cap q then 0 else head q + 1"
  let ?q1 = "q\<lparr>head := ?h\<rparr>"
  have ne: "head q \<noteq> tail q" using c mq_empty_iff [OF ok] by (auto simp: mq_contents_def)
  then have len: "ztask_mq_length q = Suc (ztask_mq_length ?q1)"
    using ok by (auto simp: mq_ok_def ztask_mq_length_def)
  have sz: "head q < length (queue q)" "ztask_mq_length ?q1 < length (queue q)"
    using ok mq_length_bound [OF ok] len by (auto simp: mq_ok_def)
  have hh: "?h = (if Suc (head q) < length (queue q) then Suc (head q) else 0)"
    using ok by (auto simp: mq_ok_def)
  have cells: "ring_cells (queue q) (head q) (ztask_mq_length q)
      = queue q ! head q # ring_cells (queue q) ?h (ztask_mq_length ?q1)"
    using ring_cells_pop [OF sz] by (simp only: len hh)
  have cell: "queue q ! head q = Some m" and rest: "mq_contents ?q1 = ms"
    using ok c unfolding mq_ok_def mq_contents_def cells by (auto simp: cells)
  have int_len: "(let l = int (tail q) - int ?h in if l < 0 then l + int (cap q) else l)
      = int (length ms)"
    using ok rest [symmetric] by (auto simp: Let_def mq_ok_def ztask_mq_length_def)
  have pop: "ztask_mq_pop q = do { q2 \<leftarrow> overload_loop (int (length ms)) ?q1; Some (Some m, q2) }"
    by (rule ztask_mq_pop_step [OF ne sz(1) cell refl]) (simp only: int_len)
  have "0 < overload_threshold ?q1" using ok by (simp add: mq_ok_def)
  moreover have "int (length ms) < 2 ^ 30"
    using mq_length_limit [OF ok] mq_length_contents [of q] c by simp
  ultimately obtain ov th where
    l: "overload_loop (int (length ms)) ?q1 = Some (?q1\<lparr>overload := ov, overload_threshold := th\<rparr>)"
    "int (length ms) \<le> th" "overload_threshold q \<le> th"
    "int (length ms) \<le> overload_threshold q \<longrightarrow> ov = overload q \<and> th = overload_threshold q"
    "overload_threshold q < int (length ms) \<longrightarrow> ov = int (length ms) \<and> th < 2 * int (length ms)"
    using overload_loop_returns [of ?q1 "int (length ms)"] by auto
  have ok': "mq_ok (q\<lparr>head := ?h, overload := ov, overload_threshold := th\<rparr>)"
    using ok cells l(3) by (auto simp: mq_ok_def ztask_mq_length_def)
  show ?thesis
    by (rule exI [of _ ov], rule exI [of _ th]) (use pop l ok' rest in simp)
qed

lemma ztask_mq_pop_ok:
  assumes "mq_ok q"
  shows "\<exists>q'. ztask_mq_pop q = Some (case mq_contents q of [] \<Rightarrow> None | m # _ \<Rightarrow> Some m, q') \<and>
    mq_ok q' \<and> mq_contents q' = tl (mq_contents q)"
proof (cases "mq_contents q")
  case Nil
  have "mq_ok (q\<lparr>overload_threshold := MQ_OVERLOAD, in_global := False\<rparr>)"
    using assms Nil by (auto simp: mq_ok_def ztask_mq_length_def MQ_OVERLOAD_def)
  with Nil ztask_mq_pop_empty [OF assms Nil] show ?thesis by simp
next
  case (Cons m ms)
  from ztask_mq_pop_cons [OF assms Cons] show ?thesis using Cons by fastforce
qed

interpretation mq: bounded_fifo mq_ok mq_contents MQ_LIMIT mq_store ztask_mq_pop
  by unfold_locales (use mq_store_ok in blast, use ztask_mq_pop_ok in blast)

section \<open>The global queue as a list\<close>

primrec gq_path :: "(qref \<Rightarrow> message_queue option) \<Rightarrow> qref option \<Rightarrow> qref list \<Rightarrow> bool" where
  "gq_path m p [] = (p = None)"
| "gq_path m p (q # qs) =
     (p = Some q \<and> (case m q of None \<Rightarrow> False | Some mq \<Rightarrow> gq_path m (qnext mq) qs))"

text \<open>
  \<open>gq_ok s qs\<close>: the chain from \<^verbatim>\<open>Q->head\<close> visits exactly the distinct queues \<open>qs\<close>,
  \<^verbatim>\<open>Q->tail\<close> is the last of them, and a queue outside the chain has no successor.
\<close>

definition gq_ok :: "'w mq_state_scheme \<Rightarrow> qref list \<Rightarrow> bool" where
  "gq_ok s qs \<longleftrightarrow> gq_path (mq_mem s) (gq_head s) qs \<and> distinct qs \<and>
     gq_tail s = (if qs = [] then None else Some (last qs)) \<and>
     (\<forall>q mq. mq_mem s q = Some mq \<longrightarrow> q \<notin> set qs \<longrightarrow> qnext mq = None)"

text \<open>What a client of a queue sees of it: everything but the link.\<close>

definition mq_view :: "'w mq_state_scheme \<Rightarrow> qref \<Rightarrow> message_queue option" where
  "mq_view s q = map_option (\<lambda>mq. mq\<lparr>qnext := None\<rparr>) (mq_mem s q)"

lemma mq_view_Some:
  "mq_view s q = Some v \<longleftrightarrow> (\<exists>mq. mq_mem s q = Some mq \<and> v = mq\<lparr>qnext := None\<rparr>)"
  by (auto simp: mq_view_def)

lemma mq_put_simps [simp]:
  "mq_mem (mq_put q mq s) = (mq_mem s)(q \<mapsto> mq)"
  "gq_head (mq_put q mq s) = gq_head s"
  "gq_tail (mq_put q mq s) = gq_tail s"
  "mq_brk (mq_put q mq s) = mq_brk s"
  "mq_state.more (mq_put q mq s) = mq_state.more s"
  by (simp_all add: mq_put_def)

lemma gq_path_frame:
  "(\<And>q. q \<in> set qs \<Longrightarrow> map_option qnext (m' q) = map_option qnext (m q)) \<Longrightarrow>
   gq_path m' p qs = gq_path m p qs"
proof (induction qs arbitrary: p)
  case Nil
  then show ?case by simp
next
  case (Cons q qs)
  have "map_option qnext (m' q) = map_option qnext (m q)" using Cons.prems by simp
  then show ?case using Cons by (cases "m q"; cases "m' q") auto
qed

lemma gq_path_mem: "gq_path m p qs \<Longrightarrow> q \<in> set qs \<Longrightarrow> \<exists>mq. m q = Some mq"
  by (induction qs arbitrary: p) (auto split: option.splits)

lemma gq_path_snoc:
  assumes "gq_path m p qs" "distinct qs" "qs \<noteq> []" "q \<notin> set qs"
    and "m (last qs) = Some tq" "m q = Some mq" "qnext mq = None"
  shows "gq_path (m(last qs \<mapsto> tq\<lparr>qnext := Some q\<rparr>)) p (qs @ [q])"
  using assms
proof (induction qs arbitrary: p)
  case Nil
  then show ?case by simp
next
  case (Cons r rs)
  then show ?case by (cases rs) (auto split: option.splits if_splits)
qed

lemma gq_ok_mem: "gq_ok s qs \<Longrightarrow> q \<in> set qs \<Longrightarrow> \<exists>mq. mq_mem s q = Some mq"
  by (auto simp: gq_ok_def dest: gq_path_mem)

lemma gq_ok_put:
  assumes "gq_ok s qs" "mq_mem s q = Some mq" "qnext mq' = qnext mq"
  shows "gq_ok (mq_put q mq' s) qs"
proof -
  have "gq_path (mq_mem (mq_put q mq' s)) (gq_head s) qs = gq_path (mq_mem s) (gq_head s) qs"
    by (rule gq_path_frame) (use assms in simp)
  then show ?thesis using assms unfolding gq_ok_def by simp
qed

lemma globalmq_push_ok:
  assumes ok: "gq_ok s qs" and q: "mq_mem s q = Some mq" "q \<notin> set qs"
  shows "\<exists>s'. ztask_globalmq_push q s = Some s' \<and> gq_ok s' (qs @ [q]) \<and> mq_view s' = mq_view s \<and>
    mq_brk s' = mq_brk s \<and> mq_state.more s' = mq_state.more s"
proof (cases "qs = []")
  case True
  with ok q show ?thesis
    by (auto simp: ztask_globalmq_push_def gq_ok_def mq_view_def fun_eq_iff)
next
  case False
  have n: "qnext mq = None" and t: "gq_tail s = Some (last qs)"
    using ok q False by (auto simp: gq_ok_def)
  obtain tq where tq: "mq_mem s (last qs) = Some tq"
    using gq_ok_mem [OF ok, of "last qs"] False by auto
  let ?s = "(mq_put (last qs) (tq\<lparr>qnext := Some q\<rparr>) s)\<lparr>gq_tail := Some q\<rparr>"
  have "ztask_globalmq_push q s = Some ?s"
    using q n t tq by (simp add: ztask_globalmq_push_def)
  moreover have "gq_ok ?s (qs @ [q])"
    using ok q False tq n gq_path_snoc [of "mq_mem s" "gq_head s" qs q tq mq]
    by (auto simp: gq_ok_def)
  moreover have "mq_view ?s = mq_view s" using tq by (auto simp: mq_view_def fun_eq_iff)
  ultimately show ?thesis by simp
qed

lemma globalmq_pop_empty: "gq_ok s [] \<Longrightarrow> ztask_globalmq_pop s = Some (None, s)"
  by (simp add: gq_ok_def ztask_globalmq_pop_def)

lemma globalmq_pop_cons:
  assumes ok: "gq_ok s (q # qs)"
  shows "\<exists>s'. ztask_globalmq_pop s = Some (Some q, s') \<and> gq_ok s' qs \<and> mq_view s' = mq_view s \<and>
    mq_brk s' = mq_brk s \<and> mq_state.more s' = mq_state.more s"
proof -
  obtain mq where mq: "mq_mem s q = Some mq" "gq_path (mq_mem s) (qnext mq) qs"
    using ok by (auto simp: gq_ok_def split: option.splits)
  have nil: "(qnext mq = None) = (qs = [])"
    using mq(2) by (cases qs) auto
  have hd: "gq_head s = Some q" and tl: "gq_tail s = Some (last (q # qs))"
    and nq: "q \<notin> set qs" and dist: "distinct qs"
    using ok by (auto simp: gq_ok_def)
  let ?s1 = "s\<lparr>gq_head := qnext mq, gq_tail := (if qs = [] then None else gq_tail s)\<rparr>"
  let ?s = "mq_put q (mq\<lparr>qnext := None\<rparr>) ?s1"
  have pop: "ztask_globalmq_pop s = Some (Some q, ?s)"
    using hd tl mq nil by (cases "qs = []") (auto simp: ztask_globalmq_pop_def)
  have path: "gq_path ((mq_mem s)(q \<mapsto> mq\<lparr>qnext := None\<rparr>)) (qnext mq) qs"
  proof -
    have "gq_path ((mq_mem s)(q \<mapsto> mq\<lparr>qnext := None\<rparr>)) (qnext mq) qs
        = gq_path (mq_mem s) (qnext mq) qs"
      by (rule gq_path_frame) (use nq in auto)
    with mq(2) show ?thesis by simp
  qed
  have rest: "\<forall>r rq. mq_mem ?s r = Some rq \<longrightarrow> r \<notin> set qs \<longrightarrow> qnext rq = None"
    using ok by (auto simp: gq_ok_def)
  have "gq_ok ?s qs"
    unfolding gq_ok_def by (intro conjI rest dist) (use path tl in auto)
  moreover have "mq_view ?s = mq_view s"
    using mq(1) by (auto simp: mq_view_def fun_eq_iff)
  ultimately show ?thesis using pop by simp
qed

lemma globalmq_pop_ok:
  assumes "gq_ok s qs"
  shows "\<exists>s'. ztask_globalmq_pop s = Some (case qs of [] \<Rightarrow> None | q # _ \<Rightarrow> Some q, s') \<and>
    gq_ok s' (tl qs) \<and> mq_view s' = mq_view s"
  using assms by (cases qs) (auto dest: globalmq_pop_empty globalmq_pop_cons)

text \<open>No queue operation touches the extension of the record.\<close>

lemma globalmq_push_more:
  "ztask_globalmq_push q s = Some t \<Longrightarrow> mq_state.more t = mq_state.more s"
  by (auto simp: ztask_globalmq_push_def mq_put_def split: option.splits)

lemma globalmq_pop_more:
  "ztask_globalmq_pop s = Some (r, t) \<Longrightarrow> mq_state.more t = mq_state.more s"
  by (auto simp: ztask_globalmq_pop_def mq_put_def Let_def split: option.splits if_splits)

lemma mq_mark_release_more:
  "ztask_mq_mark_release q s = Some t \<Longrightarrow> mq_state.more t = mq_state.more s"
  by (auto simp: ztask_mq_mark_release_def mq_put_def Let_def split: if_splits
      dest!: globalmq_push_more)

section \<open>Pushing into a queue of the store\<close>

lemma mq_view_put [simp]: "mq_view (mq_put q mq s) = (mq_view s)(q \<mapsto> mq\<lparr>qnext := None\<rparr>)"
  by (auto simp: mq_view_def fun_eq_iff)

lemma ztask_mq_push_ok:
  assumes ok: "gq_ok s qs" and q: "mq_mem s q = Some mq" "mq_ok mq"
    and sched: "in_global mq \<or> q \<notin> set qs" and room: "length (mq_contents mq) < MQ_LIMIT"
  shows "\<exists>s' mq'. ztask_mq_push q m s = Some s' \<and>
    gq_ok s' (if in_global mq then qs else qs @ [q]) \<and>
    mq_view s' = (mq_view s)(q \<mapsto> mq') \<and> mq_ok mq' \<and> mq_contents mq' = mq_contents mq @ [m] \<and>
    in_global mq' \<and> release mq' = release mq \<and> mq_handle mq' = mq_handle mq \<and>
    mq_brk s' = mq_brk s \<and> mq_state.more s' = mq_state.more s \<and>
    overload mq' = overload mq \<and> overload_threshold mq' = overload_threshold mq"
proof -
  obtain mq1 where st: "mq_store m mq = Some mq1" "mq_ok mq1" "mq_contents mq1 = mq_contents mq @ [m]"
    "in_global mq1 = in_global mq" "release mq1 = release mq" "qnext mq1 = qnext mq"
    "mq_handle mq1 = mq_handle mq" "overload mq1 = overload mq" "overload_threshold mq1 = overload_threshold mq"
    using mq_store_ok [OF q(2) room] by blast
  show ?thesis
  proof (cases "in_global mq")
    case True
    then have "ztask_mq_push q m s = Some (mq_put q mq1 s)"
      using q st by (simp add: ztask_mq_push_def)
    moreover have "gq_ok (mq_put q mq1 s) qs" using gq_ok_put [OF ok q(1)] st by simp
    ultimately show ?thesis using True st by (auto intro!: exI [of _ "mq1\<lparr>qnext := None\<rparr>"])
  next
    case False
    let ?s = "mq_put q (mq1\<lparr>in_global := True\<rparr>) s"
    have "gq_ok ?s qs" using gq_ok_put [OF ok q(1)] st by simp
    from globalmq_push_ok [OF this, of q "mq1\<lparr>in_global := True\<rparr>"] obtain s' where
      "ztask_globalmq_push q ?s = Some s'" "gq_ok s' (qs @ [q])" "mq_view s' = mq_view ?s"
      "mq_brk s' = mq_brk s" "mq_state.more s' = mq_state.more s"
      using sched False by auto
    then show ?thesis using False q st
      by (auto simp: ztask_mq_push_def intro!: exI [of _ "mq1\<lparr>in_global := True, qnext := None\<rparr>"])
  qed
qed

lemma ztask_mq_push_room:
  assumes "mq_mem s q = Some mq" "mq_ok mq" "ztask_mq_push q m s = Some t"
  shows "length (mq_contents mq) < MQ_LIMIT"
  using assms mq_store_room [of mq m] by (auto simp: ztask_mq_push_def split: option.splits)

lemma ztask_mq_mark_release_ok:
  assumes ok: "gq_ok s qs" and q: "mq_mem s q = Some mq" "\<not> release mq"
    and sched: "in_global mq \<or> q \<notin> set qs"
  shows "\<exists>s'. ztask_mq_mark_release q s = Some s' \<and>
    gq_ok s' (if in_global mq then qs else qs @ [q]) \<and>
    mq_view s' = (mq_view s)(q \<mapsto> mq\<lparr>release := True, qnext := None\<rparr>) \<and>
    mq_brk s' = mq_brk s \<and> mq_state.more s' = mq_state.more s"
proof -
  let ?s = "mq_put q (mq\<lparr>release := True\<rparr>) s"
  have s1: "gq_ok ?s qs" using gq_ok_put [OF ok q(1)] by simp
  show ?thesis
  proof (cases "in_global mq")
    case True
    then show ?thesis using s1 q by (auto simp: ztask_mq_mark_release_def)
  next
    case False
    then show ?thesis using globalmq_push_ok [OF s1, of q] sched q
      by (auto simp: ztask_mq_mark_release_def)
  qed
qed

section \<open>Dropping a released queue\<close>

text \<open>
  The drop callback may change anything but the queue being dropped; \<open>I ms\<close> is what it
  needs of the rest of the state while the messages \<open>ms\<close> are still to be dropped, and
  \<open>obs\<close> any observation of the state that the callback changes through \<open>log\<close> alone.
\<close>

locale drop_client =
  fixes drop_func :: "ztask_message \<Rightarrow> 'w mq_state_scheme \<Rightarrow> 'w mq_state_scheme option"
    and q :: qref
    and I :: "ztask_message list \<Rightarrow> 'w mq_state_scheme \<Rightarrow> bool"
    and obs :: "'w mq_state_scheme \<Rightarrow> 'o"
    and log :: "ztask_message \<Rightarrow> 'o \<Rightarrow> 'o"
  assumes drop_step: "I (m # ms) s \<Longrightarrow> \<exists>s'. drop_func m s = Some s' \<and> I ms s' \<and>
        mq_mem s' q = mq_mem s q \<and> obs s' = log m (obs s)"
    and put_frame: "I ms s \<Longrightarrow> mq_mem s q = Some mq \<Longrightarrow> qnext mq' = qnext mq \<Longrightarrow>
        I ms (mq_put q mq' s) \<and> obs (mq_put q mq' s) = obs s"
begin

lemma drop_loop_delivers:
  assumes "I (mq_contents mq) s" "mq_mem s q = Some mq" "mq_ok mq" "qnext mq = None"
  shows "\<exists>s' mq'. drop_loop drop_func q s = Some s' \<and> I [] s' \<and> obs s' = fold log (mq_contents mq) (obs s) \<and>
    mq_mem s' q = Some mq' \<and> mq_contents mq' = [] \<and> qnext mq' = None"
  using assms
proof (induction "mq_contents mq" arbitrary: s mq)
  case Nil
  let ?mq = "mq\<lparr>overload_threshold := MQ_OVERLOAD, in_global := False\<rparr>"
  have "drop_loop drop_func q s = Some (mq_put q ?mq s)"
    using Nil ztask_mq_pop_empty [of mq] by (simp add: drop_loop.simps [of _ _ s])
  moreover have "I [] (mq_put q ?mq s)" "obs (mq_put q ?mq s) = obs s"
    using put_frame [of "[]" s mq ?mq] Nil by simp_all
  ultimately show ?case using Nil by simp
next
  case (Cons m ms)
  obtain mq1 where pop: "ztask_mq_pop mq = Some (Some m, mq1)" "mq_ok mq1" "mq_contents mq1 = ms"
    "qnext mq1 = None"
    using ztask_mq_pop_cons [OF Cons.prems(3) Cons.hyps(2) [symmetric]] Cons.prems(4) by fastforce
  let ?s1 = "mq_put q mq1 s"
  have I1: "I (m # ms) ?s1" "obs ?s1 = obs s"
    using put_frame [of "m # ms" s mq mq1] Cons.prems Cons.hyps(2) pop(4) by simp_all
  then obtain s2 where s2: "drop_func m ?s1 = Some s2" "I ms s2" "mq_mem s2 q = Some mq1" "obs s2 = log m (obs s)"
    using drop_step [OF I1(1)] by auto
  have "drop_loop drop_func q s = drop_loop drop_func q s2"
    using Cons.prems pop s2(1) by (simp add: drop_loop.simps [of _ _ s])
  then show ?case using Cons.hyps(1) [of mq1 s2] s2 pop Cons.hyps(2) [symmetric] by auto
qed

lemma drop_queue_delivers:
  assumes "I (mq_contents mq) s" "mq_mem s q = Some mq" "mq_ok mq" "qnext mq = None"
  shows "\<exists>s'. drop_queue drop_func q s = Some s' \<and> mq_mem s' q = None \<and>
    (\<exists>t. drop_loop drop_func q s = Some t \<and> s' = t\<lparr>mq_mem := (mq_mem t)(q := None)\<rparr> \<and> I [] t \<and>
      obs t = fold log (mq_contents mq) (obs s))"
  using drop_loop_delivers [OF assms] by (auto simp: drop_queue_def mq_release_object_def)

end

section \<open>Properties\<close>

text \<open>
  (C6) First in, first out, nothing lost: whatever sequence of pushes and pops a fresh
  message queue goes through, as long as at most \<open>2 ^ 30 - 1\<close> messages wait at a time (the
  capacity is an \<^verbatim>\<open>int\<close> that the ring doubles), no operation aborts (no read of an
  unwritten cell, no access outside the array, no overflow of the capacity or of the
  threshold, no endless threshold loop), and the messages popped so far followed by the
  messages still in the ring are exactly the messages pushed, in order, across any number
  of wrap-arounds and doublings of the ring.
\<close>

theorem mq_fifo_order:
  assumes "fifo_within (\<lambda>ms. length ms < MQ_LIMIT) [] ops"
  shows "\<exists>out q. fifo_run mq_store ztask_mq_pop ops (mq_new h) = Some (out, q) \<and> mq_ok q \<and>
     out @ mq_contents q = fifo_inputs ops"
  using mq.run_conserves [OF mq_new_ok(1), of h ops] assms by (simp add: mq_new_ok)

definition sample_mq :: message_queue where
  "sample_mq = (mq_new 7)\<lparr>in_global := False\<rparr>"

definition sample_mq_state :: mq_state where
  "sample_mq_state = ztask_mq_init\<lparr>mq_mem := (\<lambda>_. None)(1 \<mapsto> sample_mq), mq_brk := 2\<rparr>"

definition sample_msg :: ztask_message where
  "sample_msg = \<lparr>msg_source = 5, msg_session = 1, msg_data = None, msg_sz = 0\<rparr>"

theorem mq_fifo_order_witness:
  "\<exists>out q. fifo_run mq_store ztask_mq_pop [Enq sample_msg, Deq, Deq, Enq sample_msg] (mq_new 7) = Some (out, q) \<and>
     mq_ok q \<and> out @ mq_contents q = [sample_msg, sample_msg]"
  using mq_fifo_order [of "[Enq sample_msg, Deq, Deq, Enq sample_msg]" 7] by (simp add: MQ_LIMIT_def)

text \<open>
  The overload bookkeeping of a pop that delivers a message: the threshold ends at
  least as large as the remaining length and less than twice that length when it had to
  grow, so for queues shorter than \<open>2 ^ 30\<close> no \<^verbatim>\<open>int\<close> of the loop can overflow, and the
  recorded overload is the remaining length exactly when the threshold was passed.
\<close>

theorem mq_pop_overload_bounds:
  assumes "mq_ok q" "mq_contents q = m # ms" "length ms < 2 ^ 30" "overload_threshold q < 2 ^ 31"
  shows "\<exists>q'. ztask_mq_pop q = Some (Some m, q') \<and> mq_contents q' = ms \<and>
    int (length ms) \<le> overload_threshold q' \<and> overload_threshold q' < 2 ^ 31 \<and>
    overload q' = (if overload_threshold q < int (length ms) then int (length ms) else overload q)"
proof -
  let ?h = "if head q + 1 \<ge> cap q then 0 else head q + 1"
  obtain ov th where p: "ztask_mq_pop q =
      Some (Some m, q\<lparr>head := ?h, overload := ov, overload_threshold := th\<rparr>)"
    and c: "mq_contents (q\<lparr>head := ?h\<rparr>) = ms" and th: "int (length ms) \<le> th"
      "int (length ms) \<le> overload_threshold q \<longrightarrow> ov = overload q \<and> th = overload_threshold q"
      "overload_threshold q < int (length ms) \<longrightarrow> ov = int (length ms) \<and> th < 2 * int (length ms)"
    using ztask_mq_pop_cons [OF assms(1,2)] by blast
  let ?q = "q\<lparr>head := ?h, overload := ov, overload_threshold := th\<rparr>"
  have "th < 2 ^ 31 \<and> (ov = (if overload_threshold q < int (length ms) then int (length ms) else overload q))"
    using th assms(3,4) by (cases "overload_threshold q < int (length ms)") auto
  then show ?thesis using p c th(1) by (intro exI [of _ ?q]) simp
qed

definition sample_mq2 :: message_queue where
  "sample_mq2 = the (mq_store sample_msg (the (mq_store sample_msg (mq_new 7))))"

theorem mq_pop_overload_bounds_witness:
  "\<exists>q'. ztask_mq_pop sample_mq2 = Some (Some sample_msg, q') \<and> mq_contents q' = [sample_msg] \<and>
    int (length [sample_msg]) \<le> overload_threshold q' \<and> overload_threshold q' < 2 ^ 31 \<and>
    overload q' = 0"
proof -
  obtain q1 where q1: "mq_store sample_msg (mq_new 7) = Some q1" "mq_ok q1" "mq_contents q1 = [sample_msg]"
    using mq_store_ok [OF mq_new_ok(1), of 7 sample_msg] mq_new_ok(2) by (auto simp: MQ_LIMIT_def)
  obtain q2 where q2: "mq_store sample_msg q1 = Some q2" "mq_ok q2"
    "mq_contents q2 = [sample_msg, sample_msg]"
    using mq_store_ok [OF q1(2), of sample_msg] q1(3) by (auto simp: MQ_LIMIT_def)
  have e: "sample_mq2 = q2" using q1 q2 by (simp add: sample_mq2_def)
  have "overload_threshold sample_mq2 = 1024" "overload sample_mq2 = 0"
    by (simp_all add: sample_mq2_def mq_store_def mq_new_def DEFAULT_QUEUE_SIZE_def MQ_OVERLOAD_def
        doubled_queue_def)
  with mq_pop_overload_bounds [of sample_mq2 sample_msg "[sample_msg]"] q2 show ?thesis
    by (simp add: e)
qed

end
