(* ===== verification/Sched.thy ===== *)
theory Sched
  imports Mq
begin

text \<open>
  The worker threads of \<^verbatim>\<open>ztask_context_message_dispatch\<close> (\<^verbatim>\<open>ztask_server.c\<close>) running
  concurrently with senders, launches and retirements. Every critical section of the
  C code (a queue operation, an atomic reference count change, a handle table lookup)
  is one step, and the steps of different threads interleave freely. A service is
  identified with its message queue; \<open>cref\<close> is the field \<^verbatim>\<open>ref\<close> of its context, of which
  \<open>eref\<close> are held by threads outside the dispatch loop (a sender between
  \<^verbatim>\<open>ztask_handle_grab\<close> and \<^verbatim>\<open>ztask_context_release\<close>, the launching thread, a retiring
  thread), and \<open>registered\<close> says that the handle table still refers to the context.

  \<^verbatim>\<open>ztask_context_new\<close> registers the context before it creates the queue. In between
  other threads find the context in the table while its field \<^verbatim>\<open>queue\<close> is not assigned;
  such contexts are the entries of \<open>queueless\<close>: whether the table still has the context, and
  the references to it beside those of the table and of the launching thread. A thread
  that pushes to it then follows a pointer that \<^verbatim>\<open>ztask_malloc\<close> left undefined; there is no
  step for that, and no statement below is about a context without a queue.

  That a context and its queue belong together, the \<^verbatim>\<open>assert(q == ctx->queue)\<close> of the
  dispatch loop, is built into the state: looking up the handle of a queue finds its own
  context or none. It rests on a handle not being given out again while the queue of a
  retired service of that handle is still in the global queue (handles have 24 bits and
  are handed out in a circle).
\<close>

section \<open>State and steps\<close>

text \<open>
  Where a worker stands: without a queue; with a queue it has not looked up yet; with a
  queue whose handle is gone; dispatching the messages of a queue; between popping the
  next queue and pushing its own back; about to release the context of the first queue
  and go on with the second.
\<close>

datatype worker = Idle | Has qref | Orphan qref | Running qref | Swap qref qref | Leaving qref "qref option"

record sched = mq_state +
  workers :: "worker list"
  registered :: "qref \<Rightarrow> bool"
  cref :: "qref \<Rightarrow> nat"
  eref :: "qref \<Rightarrow> nat"
  starting :: "qref list"
  queueless :: "(bool \<times> nat) list"

definition set_worker :: "nat \<Rightarrow> worker \<Rightarrow> sched \<Rightarrow> sched" where
  "set_worker i w s = s\<lparr>workers := (workers s)[i := w]\<rparr>"

definition next_worker :: "qref option \<Rightarrow> worker" where
  "next_worker r = (case r of None \<Rightarrow> Idle | Some q \<Rightarrow> Has q)"

text \<open>\<^verbatim>\<open>ztask_context_release\<close>: the last reference deletes the context, which marks its queue.\<close>

definition release_ref :: "qref \<Rightarrow> sched \<Rightarrow> sched option" where
  "release_ref q s =
     (let s1 = s\<lparr>cref := (cref s)(q := cref s q - 1)\<rparr>
      in if cref s1 q = 0 then ztask_mq_mark_release q s1 else Some s1)"

text \<open>The references a worker holds on the context of \<open>r\<close>.\<close>

fun refers :: "qref \<Rightarrow> worker \<Rightarrow> bool" where
  "refers r (Running q) = (r = q)"
| "refers r (Swap q n) = (r = q)"
| "refers r (Leaving q n) = (r = q)"
| "refers r _ = False"

subsection \<open>What a worker does\<close>

text \<open>\<^verbatim>\<open>ztask_mq_pop\<close> in the dispatch loop: a message is dispatched, an empty queue is left.\<close>

definition take_message :: "nat \<Rightarrow> qref \<Rightarrow> sched \<Rightarrow> sched option" where
  "take_message i q s =
     do { mq \<leftarrow> mq_mem s q;
          (r, mq') \<leftarrow> ztask_mq_pop mq;
          Some (case r of
                  None \<Rightarrow> set_worker i (Leaving q None) (mq_put q mq' s)
                | Some m \<Rightarrow> mq_put q mq' s) }"

text \<open>After the loop: the next queue of the global queue, if there is one, is swapped for \<open>q\<close>.\<close>

definition end_batch :: "nat \<Rightarrow> qref \<Rightarrow> sched \<Rightarrow> sched option" where
  "end_batch i q s =
     do { (r, s1) \<leftarrow> ztask_globalmq_pop s;
          Some (set_worker i (case r of None \<Rightarrow> Leaving q (Some q) | Some nq \<Rightarrow> Swap q nq) s1) }"

text \<open>
  The actions of worker \<open>i\<close> at its place, \<open>None\<close> where an assertion fails or memory is
  gone. The worker may end its batch after any number of messages, which covers every
  weight and every length of the queue.
\<close>

definition worker_acts :: "nat \<Rightarrow> sched \<Rightarrow> sched option list" where
  "worker_acts i s =
     (case workers s ! i of
        Idle \<Rightarrow> [do { (r, s1) \<leftarrow> ztask_globalmq_pop s; Some (set_worker i (next_worker r) s1) }]
      | Has q \<Rightarrow> [Some (if registered s q
                        then set_worker i (Running q) (s\<lparr>cref := (cref s)(q := cref s q + 1)\<rparr>)
                        else set_worker i (Orphan q) s)]
      | Orphan q \<Rightarrow> [ztask_mq_release (\<lambda>m. Some) q (set_worker i Idle s)]
      | Running q \<Rightarrow> [take_message i q s, end_batch i q s]
      | Swap q nq \<Rightarrow> [ztask_globalmq_push q (set_worker i (Leaving q (Some nq)) s)]
      | Leaving q r \<Rightarrow> [release_ref q (set_worker i (next_worker r) s)])"

subsection \<open>All threads\<close>

inductive sched_step :: "sched \<Rightarrow> sched \<Rightarrow> bool" where
  register: "sched_step s (s\<lparr>queueless := (True, 0) # queueless s\<rparr>)"
| opening_grab: "j < length (queueless s) \<Longrightarrow> queueless s ! j = (True, e) \<Longrightarrow>
     sched_step s (s\<lparr>queueless := (queueless s)[j := (True, e + 1)]\<rparr>)"
| opening_unref: "j < length (queueless s) \<Longrightarrow> queueless s ! j = (b, e) \<Longrightarrow> 0 < e \<Longrightarrow>
     sched_step s (s\<lparr>queueless := (queueless s)[j := (b, e - 1)]\<rparr>)"
| opening_retire: "j < length (queueless s) \<Longrightarrow> queueless s ! j = (True, e) \<Longrightarrow>
     sched_step s (s\<lparr>queueless := (queueless s)[j := (False, e + 1)]\<rparr>)"
| create: "j < length (queueless s) \<Longrightarrow> queueless s ! j = (b, e) \<Longrightarrow> ztask_mq_create h s = (q, s1) \<Longrightarrow>
     sched_step s (s1\<lparr>queueless := take j (queueless s) @ drop (Suc j) (queueless s),
                     registered := (registered s1)(q := b),
                     cref := (cref s1)(q := 1 + e + (if b then 1 else 0)),
                     eref := (eref s1)(q := 1 + e), starting := q # starting s1\<rparr>)"
| launched: "q \<in> set (starting s) \<Longrightarrow>
     ztask_globalmq_push q (s\<lparr>starting := remove1 q (starting s)\<rparr>) = Some s1 \<Longrightarrow> sched_step s s1"
| launch_failed: "q \<in> set (starting s) \<Longrightarrow>
     ztask_mq_release (\<lambda>m. Some) q (s\<lparr>starting := remove1 q (starting s)\<rparr>) = Some s1 \<Longrightarrow>
     sched_step s s1"
| grab: "registered s q \<Longrightarrow>
     sched_step s (s\<lparr>cref := (cref s)(q := cref s q + 1), eref := (eref s)(q := eref s q + 1)\<rparr>)"
| send: "0 < eref s q \<or> (\<exists>w \<in> set (workers s). refers q w) \<Longrightarrow> ztask_mq_push q m s = Some s1 \<Longrightarrow>
     sched_step s s1"
| unref: "0 < eref s q \<Longrightarrow>
     release_ref q (s\<lparr>eref := (eref s)(q := eref s q - 1)\<rparr>) = Some s1 \<Longrightarrow> sched_step s s1"
| retire: "registered s q \<Longrightarrow>
     sched_step s (s\<lparr>registered := (registered s)(q := False),
                     eref := (eref s)(q := eref s q + 1)\<rparr>)"
| work: "i < length (workers s) \<Longrightarrow> Some t \<in> set (worker_acts i s) \<Longrightarrow> sched_step s t"

definition sched_init :: "nat \<Rightarrow> sched" where
  "sched_init n = \<lparr>mq_mem = (\<lambda>_. None), mq_brk = 1, gq_head = None, gq_tail = None,
     workers = replicate n Idle, registered = (\<lambda>_. False), cref = (\<lambda>_. 0), eref = (\<lambda>_. 0),
     starting = [], queueless = []\<rparr>"

inductive sched_reachable :: "nat \<Rightarrow> sched \<Rightarrow> bool" for n where
  init: "sched_reachable n (sched_init n)"
| step: "sched_reachable n s \<Longrightarrow> sched_step s t \<Longrightarrow> sched_reachable n t"

section \<open>The invariant\<close>

fun owns :: "qref \<Rightarrow> worker \<Rightarrow> bool" where
  "owns r Idle = False"
| "owns r (Has q) = (r = q)"
| "owns r (Orphan q) = (r = q)"
| "owns r (Running q) = (r = q)"
| "owns r (Swap q n) = (r = q \<or> r = n)"
| "owns r (Leaving q n) = (n = Some r)"

definition owners :: "sched \<Rightarrow> qref list \<Rightarrow> qref \<Rightarrow> nat" where
  "owners s qs r = count_list qs r + count_list (starting s) r + length (filter (owns r) (workers s))"

definition references :: "sched \<Rightarrow> qref \<Rightarrow> nat" where
  "references s r = eref s r + length (filter (refers r) (workers s)) + (if registered s r then 1 else 0)"

definition queue_ok :: "sched \<Rightarrow> qref list \<Rightarrow> qref \<Rightarrow> bool" where
  "queue_ok s qs r \<longleftrightarrow> cref s r = references s r \<and>
     (case mq_view s r of
        None \<Rightarrow> owners s qs r = 0 \<and> cref s r = 0
      | Some mq \<Rightarrow> r < mq_brk s \<and> mq_ok mq \<and> release mq = (cref s r = 0) \<and>
          owners s qs r = (if in_global mq \<or> release mq then 1 else 0) \<and>
          (\<not> in_global mq \<longrightarrow> mq_contents mq = []))"

text \<open>A worker about to swap has two different queues in hand.\<close>

definition swap_ok :: "sched \<Rightarrow> bool" where
  "swap_ok s = list_all (\<lambda>w. case w of Swap q n \<Rightarrow> q \<noteq> n | _ \<Rightarrow> True) (workers s)"

definition sched_inv :: "sched \<Rightarrow> qref list \<Rightarrow> bool" where
  "sched_inv s qs \<longleftrightarrow> gq_ok s qs \<and> (\<forall>r. queue_ok s qs r) \<and> swap_ok s"

section \<open>Every step keeps the invariant\<close>

lemma more_frame:
  fixes s s' :: sched
  assumes "mq_state.more s' = mq_state.more s"
  shows "workers s' = workers s" "registered s' = registered s" "cref s' = cref s"
    "eref s' = eref s" "starting s' = starting s"
  using assms by (cases s; cases s'; simp)+

lemma set_worker_simps [simp]:
  "mq_mem (set_worker i w s) = mq_mem s" "gq_head (set_worker i w s) = gq_head s"
  "gq_tail (set_worker i w s) = gq_tail s" "mq_brk (set_worker i w s) = mq_brk s"
  "workers (set_worker i w s) = (workers s)[i := w]" "registered (set_worker i w s) = registered s"
  "cref (set_worker i w s) = cref s" "eref (set_worker i w s) = eref s"
  "starting (set_worker i w s) = starting s" "queueless (set_worker i w s) = queueless s" "mq_view (set_worker i w s) = mq_view s"
  by (auto simp: set_worker_def mq_view_def fun_eq_iff)

lemma mq_put_sched [simp]:
  "workers (mq_put q mq s) = workers s" "registered (mq_put q mq s) = registered s"
  "cref (mq_put q mq s) = cref s" "eref (mq_put q mq s) = eref s"
  "starting (mq_put q mq s) = starting s"
  by (simp_all add: mq_put_def)

lemma gq_ok_cong:
  "mq_mem t = mq_mem s \<Longrightarrow> gq_head t = gq_head s \<Longrightarrow> gq_tail t = gq_tail s \<Longrightarrow> gq_ok t qs = gq_ok s qs"
  by (simp add: gq_ok_def)

lemma gq_ok_set_worker [simp]: "gq_ok (set_worker i w s) qs = gq_ok s qs"
  by (rule gq_ok_cong) simp_all

lemma owners_set_worker:
  assumes "i < length (workers s)"
  shows "owners (set_worker i w s) qs r + (if owns r (workers s ! i) then 1 else 0)
       = owners s qs r + (if owns r w then 1 else 0)"
  using filter_count_update [OF assms, of "owns r" w] by (simp add: owners_def)

lemma references_set_worker:
  assumes "i < length (workers s)"
  shows "references (set_worker i w s) r + (if refers r (workers s ! i) then 1 else 0)
       = references s r + (if refers r w then 1 else 0)"
  using filter_count_update [OF assms, of "refers r" w] by (simp add: references_def)

lemma owners_cong: "workers t = workers s \<Longrightarrow> starting t = starting s \<Longrightarrow> owners t qs r = owners s qs r"
  by (simp add: owners_def)

lemma owners_snoc [simp]: "owners s (qs @ [q]) r = owners s qs r + (if r = q then 1 else 0)"
  by (simp add: owners_def)

lemma owners_Cons [simp]: "owners s (q # qs) r = owners s qs r + (if r = q then 1 else 0)"
  by (simp add: owners_def)

lemma references_cong:
  "workers t = workers s \<Longrightarrow> eref t = eref s \<Longrightarrow> registered t = registered s \<Longrightarrow>
   references t r = references s r"
  by (simp add: references_def)

lemma owner_pos: "i < length (workers s) \<Longrightarrow> owns r (workers s ! i) \<Longrightarrow> 1 \<le> owners s qs r"
  using filter_count_pos [of i "workers s" "owns r"] by (simp add: owners_def)

lemma reference_pos: "i < length (workers s) \<Longrightarrow> refers r (workers s ! i) \<Longrightarrow> 1 \<le> references s r"
  using filter_count_pos [of i "workers s" "refers r"] by (simp add: references_def)

lemma worker_reference: "w \<in> set (workers s) \<Longrightarrow> refers q w \<Longrightarrow> 1 \<le> references s q"
  using reference_pos [of _ s q] by (auto simp: in_set_conv_nth)

lemma in_list_pos: "q \<in> set xs \<Longrightarrow> 1 \<le> count_list xs q"
  using count_list_0_iff [of xs q] by linarith

lemma swap_ok_set_worker:
  "swap_ok s \<Longrightarrow> (\<forall>q. w \<noteq> Swap q q) \<Longrightarrow> swap_ok (set_worker i w s)"
  unfolding swap_ok_def list_all_length
  by (cases "i < length (workers s)") (auto simp: nth_list_update split: worker.splits)

lemma swap_ok_cong: "workers t = workers s \<Longrightarrow> swap_ok t = swap_ok s"
  by (simp add: swap_ok_def)

text \<open>What the invariant says of a queue somebody holds, or whose context is referenced.\<close>

lemma inv_owned:
  assumes "sched_inv s qs" "1 \<le> owners s qs q"
  obtains mq where "mq_mem s q = Some mq" "mq_ok mq" "owners s qs q = 1" "in_global mq \<or> release mq"
    "release mq = (cref s q = 0)" "q < mq_brk s" "\<not> in_global mq \<longrightarrow> mq_contents mq = []"
proof -
  have q: "queue_ok s qs q" using assms(1) by (simp add: sched_inv_def)
  with assms(2) obtain v where "mq_view s q = Some v"
    by (auto simp: queue_ok_def split: option.splits)
  then obtain mq where mq: "mq_mem s q = Some mq" "v = mq\<lparr>qnext := None\<rparr>"
    by (auto simp: mq_view_Some)
  show thesis
    by (rule that [of mq]) (use mq q assms(2) in \<open>auto simp: queue_ok_def mq_view_def split: if_splits\<close>)
qed

lemma inv_referenced:
  assumes "sched_inv s qs" "1 \<le> references s q"
  obtains mq where "mq_mem s q = Some mq" "mq_ok mq" "\<not> release mq" "q < mq_brk s"
    "owners s qs q = (if in_global mq then 1 else 0)" "\<not> in_global mq \<longrightarrow> mq_contents mq = []"
proof -
  have q: "queue_ok s qs q" using assms(1) by (simp add: sched_inv_def)
  with assms(2) obtain v where "mq_view s q = Some v"
    by (auto simp: queue_ok_def split: option.splits)
  then obtain mq where mq: "mq_mem s q = Some mq" "v = mq\<lparr>qnext := None\<rparr>"
    by (auto simp: mq_view_Some)
  show thesis
    by (rule that [of mq]) (use mq q assms(2) in \<open>auto simp: queue_ok_def mq_view_def\<close>)
qed

lemma unowned_not_listed: "owners s qs q = 0 \<Longrightarrow> q \<notin> set qs"
  using in_list_pos [of q qs] by (auto simp: owners_def)

lemma count_list_remove1:
  "q \<in> set xs \<Longrightarrow> count_list (remove1 q xs) r + (if r = q then 1 else 0) = count_list xs r"
  by (induction xs) auto

text \<open>A step that changes at most one queue's accounts.\<close>

lemma sched_inv_update:
  assumes "sched_inv s qs" "gq_ok t qs'" "swap_ok t" "mq_brk s \<le> mq_brk t"
    and "\<And>r. r \<noteq> q \<Longrightarrow> cref t r = cref s r \<and> references t r = references s r \<and>
           mq_view t r = mq_view s r \<and> owners t qs' r = owners s qs r"
    and "queue_ok t qs' q"
  shows "sched_inv t qs'"
proof -
  have "queue_ok t qs' r" for r
  proof (cases "r = q")
    case False
    then show ?thesis using assms(1,4) assms(5) [OF False]
      by (auto simp: sched_inv_def queue_ok_def dest!: spec [of _ r] split: option.splits)
  qed (use assms(6) in simp)
  then show ?thesis using assms(2,3) by (simp add: sched_inv_def)
qed

lemma sched_inv_same:
  assumes "sched_inv s qs" "gq_ok t qs'" "swap_ok t" "mq_brk s \<le> mq_brk t"
    and "\<And>r. cref t r = cref s r \<and> references t r = references s r \<and>
           mq_view t r = mq_view s r \<and> owners t qs' r = owners s qs r"
  shows "sched_inv t qs'"
proof -
  have "queue_ok t qs' r" for r
    using assms(1,4) assms(5) [of r]
    by (auto simp: sched_inv_def queue_ok_def dest!: spec [of _ r] split: option.splits)
  then show ?thesis using assms(2,3) by (simp add: sched_inv_def)
qed

lemma queue_ok_at: "sched_inv s qs \<Longrightarrow> queue_ok s qs r"
  by (simp add: sched_inv_def)

lemma inv_gq: "sched_inv s qs \<Longrightarrow> gq_ok s qs"
  by (simp add: sched_inv_def)

lemma inv_swap: "sched_inv s qs \<Longrightarrow> swap_ok s"
  by (simp add: sched_inv_def)

interpretation silent_drop: drop_client "\<lambda>m. Some" q "\<lambda>ms s. True"
    "\<lambda>s. s\<lparr>mq_mem := (mq_mem s)(q := None)\<rparr>" "\<lambda>m o'. o'" for q
  by unfold_locales (auto simp: mq_put_def)

lemma silent_release:
  assumes "gq_ok s qs" "mq_mem s q = Some mq" "mq_ok mq" "q \<notin> set qs" "release mq"
  shows "\<exists>t. ztask_mq_release (\<lambda>m. Some) q s = Some t \<and> gq_ok t qs \<and>
    mq_view t = (mq_view s)(q := None) \<and> mq_brk t = mq_brk s \<and>
    mq_state.more t = mq_state.more s"
proof -
  let ?t = "s\<lparr>mq_mem := (mq_mem s)(q := None)\<rparr>"
  have "qnext mq = None" using assms by (auto simp: gq_ok_def)
  from silent_drop.drop_queue_delivers [OF TrueI assms(2,3) this]
  obtain u where u: "drop_queue (\<lambda>m. Some) q s = Some (u\<lparr>mq_mem := (mq_mem u)(q := None)\<rparr>)"
    "u\<lparr>mq_mem := (mq_mem u)(q := None)\<rparr> = fold (\<lambda>m o'. o') (mq_contents mq) ?t"
    by blast
  have "ztask_mq_release (\<lambda>m. Some) q s = Some ?t"
    using u assms(2,5) by (simp add: ztask_mq_release_def)
  moreover have "gq_path (mq_mem ?t) (gq_head s) qs = gq_path (mq_mem s) (gq_head s) qs"
    by (rule gq_path_frame) (use assms(4) in auto)
  then have "gq_ok ?t qs" using assms(1) unfolding gq_ok_def by auto
  moreover have "mq_view ?t = (mq_view s)(q := None)" by (auto simp: mq_view_def fun_eq_iff)
  ultimately show ?thesis by simp
qed

subsection \<open>Launching a service\<close>

lemma inv_create:
  assumes inv: "sched_inv s qs" and c: "ztask_mq_create h s = (q, s1)"
  shows "sched_inv (s1\<lparr>queueless := os, registered := (registered s1)(q := b),
      cref := (cref s1)(q := 1 + e + (if b then 1 else 0)),
      eref := (eref s1)(q := 1 + e), starting := q # starting s1\<rparr>) qs" (is "sched_inv ?t qs")
proof -
  have q: "q = mq_brk s" "s1 = (mq_put q (mq_new h) s)\<lparr>mq_brk := Suc q\<rparr>"
    using c by (auto simp: ztask_mq_create_def Let_def)
  have "mq_view s q = None"
    using queue_ok_at [OF inv, of q] q by (auto simp: queue_ok_def split: option.splits)
  then have fresh: "mq_mem s q = None" "owners s qs q = 0" "references s q = 0" "cref s q = 0"
    using queue_ok_at [OF inv, of q] by (auto simp: queue_ok_def mq_view_def)
  have nq: "q \<notin> set qs" using fresh by (simp add: unowned_not_listed)
  have "gq_path ((mq_mem s)(q \<mapsto> mq_new h)) (gq_head s) qs = gq_path (mq_mem s) (gq_head s) qs"
    by (rule gq_path_frame) (use nq in auto)
  then have g: "gq_ok ?t qs"
    using inv_gq [OF inv] q fresh by (auto simp: gq_ok_def mq_new_def)
  have sw: "swap_ok ?t" using inv_swap [OF inv] q by (simp add: swap_ok_def)
  have "queue_ok ?t qs q"
    using fresh q mq_new_ok [of h]
    by (auto simp: queue_ok_def owners_def references_def mq_view_def mq_new_def)
  from sched_inv_update [OF inv g sw _ _ this] show ?thesis
    using q by (auto simp: owners_def references_def mq_view_def)
qed

lemma inv_opening:
  assumes "sched_inv s qs"
  shows "sched_inv (s\<lparr>queueless := os\<rparr>) qs" (is "sched_inv ?t qs")
proof (rule sched_inv_same [OF assms])
  show "gq_ok ?t qs" "swap_ok ?t" "mq_brk s \<le> mq_brk ?t"
    using inv_gq [OF assms] inv_swap [OF assms] by (simp_all add: gq_ok_def swap_ok_def)
qed (simp add: references_def owners_def mq_view_def)

lemma owners_start_removed:
  assumes "q \<in> set (starting s)"
  shows "owners (s\<lparr>starting := remove1 q (starting s)\<rparr>) qs r + (if r = q then 1 else 0)
       = owners s qs r"
  using count_list_remove1 [OF assms, of r] by (simp add: owners_def)

text \<open>
  Putting back a queue one has in hand: \<open>s0\<close> is the state in which the holder has let go
  of \<open>q\<close>, which is the only account that changed.
\<close>

lemma inv_hand_over:
  assumes inv: "sched_inv s qs" and own: "1 \<le> owners s qs q"
    and s0: "mq_mem s0 = mq_mem s" "gq_head s0 = gq_head s" "gq_tail s0 = gq_tail s"
      "mq_brk s0 = mq_brk s" "cref s0 = cref s" "swap_ok s0"
    and acc: "\<And>r. owners s0 qs r + (if r = q then 1 else 0) = owners s qs r"
      "\<And>r. references s0 r = references s r"
    and step: "ztask_globalmq_push q s0 = Some t"
  shows "sched_inv t (qs @ [q])"
proof -
  obtain mq where mq: "mq_mem s q = Some mq" "owners s qs q = 1"
    using inv_owned [OF inv own] by metis
  have g0: "gq_ok s0 qs" using inv_gq [OF inv] gq_ok_cong s0 by metis
  have v0: "mq_view s0 = mq_view s" using s0 by (simp add: mq_view_def fun_eq_iff)
  have nq: "q \<notin> set qs" using acc(1) [of q] mq(2) unowned_not_listed [of s0 qs q] by simp
  obtain u where u: "ztask_globalmq_push q s0 = Some u" "gq_ok u (qs @ [q])" "mq_view u = mq_view s0"
    "mq_brk u = mq_brk s0" "mq_state.more u = mq_state.more s0"
    using globalmq_push_ok [OF g0 _ nq, of mq] mq(1) s0 by auto
  then have t: "t = u" using step by simp
  note m = more_frame [OF u(5)]
  have same: "owners t (qs @ [q]) r = owners s qs r" "references t r = references s r"
    "cref t r = cref s r" "mq_view t r = mq_view s r" for r
    using acc [of r] owners_cong [OF m(1) m(5), of qs r] references_cong [OF m(1) m(4) m(2), of r]
      m s0 v0 u by (auto simp: t)
  have sw: "swap_ok t" using s0 swap_ok_cong [OF m(1)] by (simp add: t)
  have g: "gq_ok t (qs @ [q])" and b: "mq_brk s \<le> mq_brk t" using u s0 by (simp_all add: t)
  show ?thesis by (rule sched_inv_same [OF inv g sw b]) (use same in blast)
qed

text \<open>Releasing a queue one has in hand after its handle was retired.\<close>

lemma inv_release_queue:
  assumes inv: "sched_inv s qs" and own: "1 \<le> owners s qs q"
    and s0: "mq_mem s0 = mq_mem s" "gq_head s0 = gq_head s" "gq_tail s0 = gq_tail s"
      "mq_brk s0 = mq_brk s" "cref s0 = cref s" "swap_ok s0"
    and acc: "\<And>r. owners s0 qs r + (if r = q then 1 else 0) = owners s qs r"
      "\<And>r. references s0 r = references s r"
    and step: "ztask_mq_release (\<lambda>m. Some) q s0 = Some t"
  shows "\<exists>qs'. sched_inv t qs'"
proof -
  obtain mq where mq: "mq_mem s q = Some mq" "mq_ok mq" "owners s qs q = 1"
    "release mq = (cref s q = 0)"
    using inv_owned [OF inv own] by metis
  have g0: "gq_ok s0 qs" using inv_gq [OF inv] gq_ok_cong s0 by metis
  have v0: "mq_view s0 = mq_view s" using s0 by (simp add: mq_view_def fun_eq_iff)
  have nq: "q \<notin> set qs" using acc(1) [of q] mq(3) unowned_not_listed [of s0 qs q] by simp
  show ?thesis
  proof (cases "release mq")
    case False
    then have "ztask_globalmq_push q s0 = Some t"
      using step mq(1) s0(1) by (simp add: ztask_mq_release_def)
    from inv_hand_over [OF inv own s0 acc this] show ?thesis by blast
  next
    case True
    obtain u where u: "ztask_mq_release (\<lambda>m. Some) q s0 = Some u" "gq_ok u qs"
      "mq_view u = (mq_view s0)(q := None)" "mq_brk u = mq_brk s0"
      "mq_state.more u = mq_state.more s0"
      using silent_release [OF g0 _ mq(2) nq True] mq(1) s0 by auto
    then have t: "t = u" using step by simp
    note m = more_frame [OF u(5)]
    have same: "owners t qs r + (if r = q then 1 else 0) = owners s qs r"
      "references t r = references s r" "cref t r = cref s r"
      "mq_view t r = (if r = q then None else mq_view s r)" for r
      using acc [of r] owners_cong [OF m(1) m(5), of qs r] references_cong [OF m(1) m(4) m(2), of r]
        m s0 v0 u by (auto simp: t)
    have "queue_ok t qs q"
      using queue_ok_at [OF inv, of q] same [of q] mq True by (auto simp: queue_ok_def)
    moreover have "swap_ok t" using s0 swap_ok_cong [OF m(1)] by (simp add: t)
    moreover have "cref t r = cref s r \<and> references t r = references s r \<and>
        mq_view t r = mq_view s r \<and> owners t qs r = owners s qs r" if "r \<noteq> q" for r
      using same [of r] that by simp
    moreover have "gq_ok t qs" "mq_brk s \<le> mq_brk t" using u s0 by (simp_all add: t)
    ultimately have "sched_inv t qs" using sched_inv_update [OF inv] by blast
    then show ?thesis ..
  qed
qed

subsection \<open>References\<close>

lemma inv_grab:
  assumes inv: "sched_inv s qs" and reg: "registered s q"
  shows "sched_inv (s\<lparr>cref := (cref s)(q := cref s q + 1), eref := (eref s)(q := eref s q + 1)\<rparr>) qs"
    (is "sched_inv ?t qs")
proof -
  have "1 \<le> references s q" using reg by (simp add: references_def)
  then have "queue_ok ?t qs q"
    using queue_ok_at [OF inv, of q]
    by (auto simp: queue_ok_def references_def owners_def mq_view_def split: option.splits)
  moreover have "gq_ok ?t qs" "swap_ok ?t"
    using inv_gq [OF inv] inv_swap [OF inv] by (simp_all add: gq_ok_def swap_ok_def)
  ultimately show ?thesis
    using sched_inv_update [OF inv, of ?t qs q]
    by (auto simp: references_def owners_def mq_view_def)
qed

lemma inv_retire:
  assumes inv: "sched_inv s qs" and reg: "registered s q"
  shows "sched_inv (s\<lparr>registered := (registered s)(q := False), eref := (eref s)(q := eref s q + 1)\<rparr>) qs"
    (is "sched_inv ?t qs")
proof (rule sched_inv_same [OF inv])
  show "gq_ok ?t qs" "swap_ok ?t" "mq_brk s \<le> mq_brk ?t"
    using inv_gq [OF inv] inv_swap [OF inv] by (simp_all add: gq_ok_def swap_ok_def)
qed (use reg in \<open>auto simp: references_def owners_def mq_view_def\<close>)

lemma inv_release_ref:
  assumes inv: "sched_inv s qs" and ref: "1 \<le> references s q"
    and s0: "mq_mem s0 = mq_mem s" "gq_head s0 = gq_head s" "gq_tail s0 = gq_tail s"
      "mq_brk s0 = mq_brk s" "cref s0 = cref s" "swap_ok s0"
    and acc: "\<And>r. owners s0 qs r = owners s qs r"
      "\<And>r. references s0 r + (if r = q then 1 else 0) = references s r"
    and step: "release_ref q s0 = Some t"
  shows "\<exists>qs'. sched_inv t qs'"
proof -
  let ?s1 = "s0\<lparr>cref := (cref s0)(q := cref s0 q - 1)\<rparr>"
  obtain mq where mq: "mq_mem s q = Some mq" "mq_ok mq" "\<not> release mq" "q < mq_brk s"
    "owners s qs q = (if in_global mq then 1 else 0)" "\<not> in_global mq \<longrightarrow> mq_contents mq = []"
    using inv_referenced [OF inv ref] by metis
  have cr: "cref s q = references s q" using queue_ok_at [OF inv, of q] by (simp add: queue_ok_def)
  have g1: "gq_ok ?s1 qs" using inv_gq [OF inv] gq_ok_cong [of ?s1 s] s0 by simp
  have v1: "mq_view ?s1 = mq_view s" using s0 by (simp add: mq_view_def fun_eq_iff)
  have acc1: "owners ?s1 qs r = owners s qs r" "references ?s1 r = references s0 r"
    "r \<noteq> q \<Longrightarrow> cref ?s1 r = cref s r" "cref ?s1 q = references s q - 1" for r
    using acc(1) [of r] s0 cr by (simp_all add: owners_def references_def)
  show ?thesis
  proof (cases "cref ?s1 q = 0")
    case False
    then have t: "t = ?s1" using step by (simp add: release_ref_def Let_def)
    have q': "queue_ok ?s1 qs q"
      using queue_ok_at [OF inv, of q] mq acc1 acc(1) [of q] acc(2) [of q] v1 False s0 cr
      by (auto simp: queue_ok_def mq_view_def)
    have "sched_inv ?s1 qs"
    proof (rule sched_inv_update [OF inv g1 _ _ _ q'])
      show "swap_ok ?s1" using s0 by (simp add: swap_ok_def)
      show "mq_brk s \<le> mq_brk ?s1" using s0 by simp
      show "cref ?s1 r = cref s r \<and> references ?s1 r = references s r \<and>
          mq_view ?s1 r = mq_view s r \<and> owners ?s1 qs r = owners s qs r" if "r \<noteq> q" for r
        using that acc1(1,2) [of r] acc1(3) [OF that] acc(2) [of r] v1 by simp
    qed
    then show ?thesis using t by blast
  next
    case True
    have nq: "in_global mq \<or> q \<notin> set qs" using mq(5) unowned_not_listed [of s qs q] by auto
    let ?qs = "if in_global mq then qs else qs @ [q]"
    have m1: "mq_mem ?s1 q = Some mq" using mq s0 by simp
    obtain u where u: "ztask_mq_mark_release q ?s1 = Some u" "gq_ok u ?qs"
      "mq_view u = (mq_view ?s1)(q \<mapsto> mq\<lparr>release := True, qnext := None\<rparr>)"
      "mq_brk u = mq_brk ?s1" "mq_state.more u = mq_state.more ?s1"
      using ztask_mq_mark_release_ok [OF g1 m1 mq(3) nq] by blast
    have t: "t = u" using step True u(1) by (simp add: release_ref_def Let_def)
    note m = more_frame [OF u(5)]
    have ow: "owners t ?qs r = owners s qs r + (if r = q \<and> \<not> in_global mq then 1 else 0)" for r
      using owners_cong [OF m(1) m(5), of qs r] acc1(1) [of r] by (cases "r = q") (simp_all add: t)
    have rf: "references t r = references s0 r" for r
      using references_cong [OF m(1) m(4) m(2), of r] acc1(2) [of r] by (simp add: t)
    have q': "queue_ok t ?qs q"
      unfolding queue_ok_def ow rf using mq u v1 s0 True acc(2) [of q] cr acc1(4) m(3)
      by (auto simp: t)
    have "sched_inv t ?qs"
    proof (rule sched_inv_update [OF inv _ _ _ _ q'])
      show "gq_ok t ?qs" using u t by simp
      show "swap_ok t" using swap_ok_cong [OF m(1)] s0 by (simp add: t swap_ok_def)
      show "mq_brk s \<le> mq_brk t" using u s0 by (simp add: t)
      show "cref t r = cref s r \<and> references t r = references s r \<and>
          mq_view t r = mq_view s r \<and> owners t ?qs r = owners s qs r" if "r \<noteq> q" for r
        using that acc1(3) [OF that] acc(2) [of r] ow [of r] rf [of r] m(3) u v1 by (simp add: t)
    qed
    then show ?thesis ..
  qed
qed

subsection \<open>Messages\<close>

lemma inv_send:
  assumes inv: "sched_inv s qs" and ref: "1 \<le> references s q" and step: "ztask_mq_push q m s = Some t"
  shows "\<exists>qs'. sched_inv t qs'"
proof -
  obtain mq where mq: "mq_mem s q = Some mq" "mq_ok mq" "\<not> release mq" "q < mq_brk s"
    "owners s qs q = (if in_global mq then 1 else 0)" "\<not> in_global mq \<longrightarrow> mq_contents mq = []"
    using inv_referenced [OF inv ref] by metis
  have nq: "in_global mq \<or> q \<notin> set qs" using mq(5) unowned_not_listed [of s qs q] by auto
  have room: "length (mq_contents mq) < MQ_LIMIT" by (rule ztask_mq_push_room [OF mq(1,2) step])
  let ?qs = "if in_global mq then qs else qs @ [q]"
  obtain u mq' where u: "ztask_mq_push q m s = Some u" "gq_ok u ?qs" "mq_view u = (mq_view s)(q \<mapsto> mq')"
    "mq_ok mq'" "in_global mq'" "release mq' = release mq" "mq_brk u = mq_brk s"
    "mq_state.more u = mq_state.more s"
    using ztask_mq_push_ok [OF inv_gq [OF inv] mq(1,2) nq room] by blast
  then have t: "t = u" using step by simp
  note fr = more_frame [OF u(8)]
  have ow: "owners t ?qs r = owners s qs r + (if r = q \<and> \<not> in_global mq then 1 else 0)" for r
    using owners_cong [OF fr(1) fr(5), of qs r] by (cases "r = q") (simp_all add: t)
  have rf: "references t r = references s r" for r
    using references_cong [OF fr(1) fr(4) fr(2), of r] by (simp add: t)
  have "cref s q \<noteq> 0" using queue_ok_at [OF inv, of q] ref by (auto simp: queue_ok_def)
  then have q': "queue_ok t ?qs q"
    unfolding queue_ok_def ow rf using queue_ok_at [OF inv, of q] mq u fr
    by (auto simp: t queue_ok_def)
  have "sched_inv t ?qs"
  proof (rule sched_inv_update [OF inv _ _ _ _ q'])
    show "gq_ok t ?qs" "mq_brk s \<le> mq_brk t" using u t by simp_all
    show "swap_ok t" using swap_ok_cong [OF fr(1)] inv_swap [OF inv] by (simp add: t)
    show "cref t r = cref s r \<and> references t r = references s r \<and>
        mq_view t r = mq_view s r \<and> owners t ?qs r = owners s qs r" if "r \<noteq> q" for r
      using that ow [of r] rf [of r] fr u by (simp add: t)
  qed
  then show ?thesis ..
qed

text \<open>Popping: the queue stays with the worker, or has become empty and is let go.\<close>

lemma inv_dispatch:
  assumes inv: "sched_inv s qs" and i: "i < length (workers s)" "workers s ! i = Running q"
    and mq: "mq_mem s q = Some mq" and pop: "ztask_mq_pop mq = Some (Some m, mq')"
  shows "sched_inv (mq_put q mq' s) qs"
proof -
  have ref: "1 \<le> references s q" "1 \<le> owners s qs q"
    using reference_pos [OF i(1)] owner_pos [OF i(1)] i(2) by auto
  have ok: "mq_ok mq" "\<not> release mq" "q < mq_brk s" "in_global mq" "owners s qs q = 1"
    using inv_referenced [OF inv ref(1)] mq ref(2) by (metis Suc_n_not_le_n One_nat_def option.sel)+
  obtain m' ms where c: "mq_contents mq = m' # ms"
    using ztask_mq_pop_empty [OF ok(1)] pop by (cases "mq_contents mq") auto
  have mq': "mq_ok mq'" "in_global mq'" "\<not> release mq'" "qnext mq' = qnext mq"
    using ztask_mq_pop_cons [OF ok(1) c] pop ok by auto
  have g: "gq_ok (mq_put q mq' s) qs" using gq_ok_put [OF inv_gq [OF inv] mq] mq' by simp
  have q': "queue_ok (mq_put q mq' s) qs q"
    using queue_ok_at [OF inv, of q] ok mq mq' ref
    by (auto simp: queue_ok_def references_def owners_def mq_view_def)
  show ?thesis
    by (rule sched_inv_update [OF inv g _ _ _ q'])
       (use inv_swap [OF inv] in \<open>auto simp: swap_ok_def references_def owners_def\<close>)
qed

lemma inv_drained:
  assumes inv: "sched_inv s qs" and i: "i < length (workers s)" "workers s ! i = Running q"
    and mq: "mq_mem s q = Some mq" and pop: "ztask_mq_pop mq = Some (None, mq')"
  shows "sched_inv (set_worker i (Leaving q None) (mq_put q mq' s)) qs" (is "sched_inv ?t qs")
proof -
  have ref: "1 \<le> references s q" "1 \<le> owners s qs q"
    using reference_pos [OF i(1)] owner_pos [OF i(1)] i(2) by auto
  have ok: "mq_ok mq" "\<not> release mq" "q < mq_brk s" "in_global mq" "owners s qs q = 1"
    using inv_referenced [OF inv ref(1)] mq ref(2) by (metis Suc_n_not_le_n One_nat_def option.sel)+
  have c: "mq_contents mq = []"
    using ztask_mq_pop_cons [OF ok(1)] pop by (cases "mq_contents mq") fastforce+
  have mq': "mq' = mq\<lparr>overload_threshold := MQ_OVERLOAD, in_global := False\<rparr>"
    using ztask_mq_pop_empty [OF ok(1) c] pop by simp
  have mq'_ok: "mq_ok mq'" using ztask_mq_pop_ok [OF ok(1)] pop by auto
  have g: "gq_ok ?t qs" using gq_ok_put [OF inv_gq [OF inv] mq] mq' by simp
  have i': "i < length (workers (mq_put q mq' s))" using i by simp
  have ow: "owners ?t qs r + (if r = q then 1 else 0) = owners s qs r" for r
    using owners_set_worker [OF i', of "Leaving q None" qs r] i by (simp add: owners_def)
  have rf: "references ?t r = references s r" for r
    using references_set_worker [OF i', of "Leaving q None" r] i by (simp add: references_def)
  have "queue_ok ?t qs q"
    unfolding queue_ok_def rf using queue_ok_at [OF inv, of q] ow [of q] ok mq' mq'_ok c ref
    by (auto simp: queue_ok_def)
  moreover have "cref ?t r = cref s r \<and> references ?t r = references s r \<and>
      mq_view ?t r = mq_view s r \<and> owners ?t qs r = owners s qs r" if "r \<noteq> q" for r
    using that ow [of r] rf [of r] by simp
  moreover have "swap_ok ?t" "mq_brk s \<le> mq_brk ?t"
    using swap_ok_set_worker [of "mq_put q mq' s" "Leaving q None" i] inv_swap [OF inv]
    by (simp_all add: swap_ok_cong [of "mq_put q mq' s" s])
  ultimately show ?thesis using sched_inv_update [OF inv g] by blast
qed

subsection \<open>The worker loop\<close>

text \<open>A worker that takes the head of the global queue into its hand.\<close>

lemma inv_take:
  assumes inv: "sched_inv s qs" and i: "i < length (workers s)"
    and pop: "ztask_globalmq_pop s = Some (r, s1)"
    and w: "\<And>q. refers q w = refers q (workers s ! i)" "\<And>q. w \<noteq> Swap q q"
      "\<And>q. (if owns q w then 1 else 0) = (if owns q (workers s ! i) then 1 else 0) +
           (if r = Some q then 1 else (0::nat))"
  shows "\<exists>qs'. sched_inv (set_worker i w s1) qs'"
proof -
  have g: "gq_ok s qs" by (rule inv_gq [OF inv])
  obtain qs' where s1: "gq_ok s1 qs'" "mq_view s1 = mq_view s" "mq_brk s1 = mq_brk s"
    "mq_state.more s1 = mq_state.more s"
    "\<And>q. count_list qs q = count_list qs' q + (if r = Some q then 1 else 0)"
    using globalmq_pop_empty [of s] globalmq_pop_cons [of s] g pop by (cases qs) force+
  note fr = more_frame [OF s1(4)]
  have i1: "i < length (workers s1)" using i fr by simp
  have ow: "owners (set_worker i w s1) qs' q = owners s qs q" for q
    using owners_set_worker [OF i1, of w qs' q] fr(1,5) s1(5) [of q] w(3) [of q]
    by (auto simp: owners_def)
  have rf: "references (set_worker i w s1) q = references s q" for q
    using references_set_worker [OF i1, of w q] references_cong [OF fr(1,4,2), of q] w(1) [of q] fr(1)
    by simp
  have "swap_ok (set_worker i w s1)"
    using swap_ok_set_worker swap_ok_cong [OF fr(1)] inv_swap [OF inv] w(2) by blast
  then have "sched_inv (set_worker i w s1) qs'"
    using ow rf fr s1 by (intro sched_inv_same [OF inv]) auto
  then show ?thesis ..
qed

text \<open>A worker that changes its program counter only.\<close>

lemma inv_lookup:
  assumes inv: "sched_inv s qs" and i: "i < length (workers s)" "workers s ! i = Has q"
    and reg: "registered s q"
  shows "sched_inv (set_worker i (Running q) (s\<lparr>cref := (cref s)(q := cref s q + 1)\<rparr>)) qs"
    (is "sched_inv ?t qs")
proof -
  let ?s = "s\<lparr>cref := (cref s)(q := cref s q + 1)\<rparr>"
  have i': "i < length (workers ?s)" using i by simp
  have ow: "owners ?t qs r = owners s qs r" for r
    using owners_set_worker [OF i', of "Running q" qs r] i by (simp add: owners_def)
  have rf: "references ?t r = references s r + (if r = q then 1 else 0)" for r
    using references_set_worker [OF i', of "Running q" r] i by (simp add: references_def)
  have ref: "1 \<le> references s q" using reg by (simp add: references_def)
  have q': "queue_ok ?t qs q"
    unfolding queue_ok_def ow rf using queue_ok_at [OF inv, of q] ref
    by (auto simp: queue_ok_def mq_view_def split: option.splits)
  have g: "gq_ok ?t qs" using inv_gq [OF inv] by (simp add: gq_ok_def)
  have sw: "swap_ok ?t"
    using swap_ok_set_worker [of ?s "Running q" i] inv_swap [OF inv] swap_ok_cong [of ?s s] by simp
  show ?thesis
    by (rule sched_inv_update [OF inv g sw _ _ q']) (use ow rf in \<open>auto simp: mq_view_def\<close>)
qed

lemma inv_missed:
  assumes inv: "sched_inv s qs" and i: "i < length (workers s)" "workers s ! i = Has q"
  shows "sched_inv (set_worker i (Orphan q) s) qs"
proof (rule sched_inv_same [OF inv])
  show "swap_ok (set_worker i (Orphan q) s)" by (rule swap_ok_set_worker [OF inv_swap [OF inv]]) simp
  show "cref (set_worker i (Orphan q) s) r = cref s r \<and>
      references (set_worker i (Orphan q) s) r = references s r \<and>
      mq_view (set_worker i (Orphan q) s) r = mq_view s r \<and>
      owners (set_worker i (Orphan q) s) qs r = owners s qs r" for r
    using owners_set_worker [OF i(1), of "Orphan q" qs r] references_set_worker [OF i(1), of "Orphan q" r] i(2)
    by simp
qed (use inv_gq [OF inv] in simp_all)

lemma owns_next_worker [simp]: "owns q (next_worker r) = (r = Some q)"
  by (cases r) (auto simp: next_worker_def)

lemma refers_next_worker [simp]: "\<not> refers q (next_worker r)"
  by (cases r) (auto simp: next_worker_def)

lemma next_worker_Swap [simp]: "next_worker r \<noteq> Swap q n"
  by (cases r) (auto simp: next_worker_def)

section \<open>No action of a worker aborts\<close>

text \<open>
  The assertions of \<^verbatim>\<open>ztask_mq.c\<close> (a queue pushed to the global queue is not linked yet,
  the popped last queue is the tail, a queue is marked once) hold whenever the protocol
  reaches them: each operation of the protocol returns.
\<close>

lemma take_enabled:
  assumes "sched_inv s qs"
  shows "\<exists>r s1. ztask_globalmq_pop s = Some (r, s1)"
  using globalmq_pop_ok [OF inv_gq [OF assms]] by blast

lemma hand_over_enabled:
  assumes inv: "sched_inv s qs" and own: "1 \<le> owners s qs q"
    and s0: "mq_mem s0 = mq_mem s" "gq_head s0 = gq_head s" "gq_tail s0 = gq_tail s"
    and acc: "owners s0 qs q + 1 = owners s qs q"
  shows "\<exists>t. ztask_globalmq_push q s0 = Some t" "\<exists>t. ztask_mq_release (\<lambda>m. Some) q s0 = Some t"
proof -
  obtain mq where mq: "mq_mem s q = Some mq" "mq_ok mq" "owners s qs q = 1"
    using inv_owned [OF inv own] by metis
  have g0: "gq_ok s0 qs" using inv_gq [OF inv] gq_ok_cong s0 by metis
  have nq: "q \<notin> set qs" using acc mq(3) unowned_not_listed [of s0 qs q] by simp
  have mq0: "mq_mem s0 q = Some mq" using mq s0 by simp
  show 1: "\<exists>t. ztask_globalmq_push q s0 = Some t" using globalmq_push_ok [OF g0 mq0 nq] by blast
  show "\<exists>t. ztask_mq_release (\<lambda>m. Some) q s0 = Some t"
    using silent_release [OF g0 mq0 mq(2) nq] 1 mq0
    by (cases "release mq") (auto simp: ztask_mq_release_def)
qed

lemma release_ref_enabled:
  assumes inv: "sched_inv s qs" and ref: "1 \<le> references s q"
    and s0: "mq_mem s0 = mq_mem s" "gq_head s0 = gq_head s" "gq_tail s0 = gq_tail s"
  shows "\<exists>t. release_ref q s0 = Some t"
proof -
  let ?s1 = "s0\<lparr>cref := (cref s0)(q := cref s0 q - 1)\<rparr>"
  obtain mq where mq: "mq_mem s q = Some mq" "\<not> release mq"
    "owners s qs q = (if in_global mq then 1 else 0)"
    using inv_referenced [OF inv ref] by metis
  have g1: "gq_ok ?s1 qs" using inv_gq [OF inv] gq_ok_cong [of ?s1 s] s0 by simp
  have nq: "in_global mq \<or> q \<notin> set qs" using mq(3) unowned_not_listed [of s qs q] by auto
  have m1: "mq_mem ?s1 q = Some mq" using mq s0 by simp
  obtain u where "ztask_mq_mark_release q ?s1 = Some u"
    using ztask_mq_mark_release_ok [OF g1 m1 mq(2) nq] by blast
  then show ?thesis by (auto simp: release_ref_def Let_def)
qed

lemma release_ref_workers: "release_ref q s = Some t \<Longrightarrow> workers t = workers s"
  using more_frame(1) [of t "s\<lparr>cref := (cref s)(q := cref s q - 1)\<rparr>"]
  by (auto simp: release_ref_def Let_def split: if_splits dest: mq_mark_release_more)

lemma release_queue_workers:
  assumes "ztask_mq_release (\<lambda>m. Some) q s0 = Some t" "sched_inv s qs" "1 \<le> owners s qs q"
    "mq_mem s0 = mq_mem s" "gq_head s0 = gq_head s" "gq_tail s0 = gq_tail s" "owners s0 qs q + 1 = owners s qs q"
  shows "workers t = workers s0"
proof -
  obtain mq where mq: "mq_mem s q = Some mq" "mq_ok mq" "owners s qs q = 1"
    using inv_owned [OF assms(2,3)] by metis
  have g0: "gq_ok s0 qs" using inv_gq [OF assms(2)] gq_ok_cong assms(4-6) by metis
  have nq: "q \<notin> set qs" using assms(7) mq(3) unowned_not_listed [of s0 qs q] by simp
  show ?thesis
  proof (cases "release mq")
    case True
    then show ?thesis
      using silent_release [OF g0 _ mq(2) nq True] mq(1) assms(1,4) more_frame(1) [of t s0] by auto
  next
    case False
    then have "ztask_globalmq_push q s0 = Some t" using assms(1,4) mq(1) by (simp add: ztask_mq_release_def)
    then show ?thesis by (rule more_frame(1) [OF globalmq_push_more])
  qed
qed

text \<open>What is shown of each action: it returns, keeps the invariant, and moves no other worker.\<close>

definition act_ok :: "nat \<Rightarrow> sched \<Rightarrow> sched option \<Rightarrow> bool" where
  "act_ok i s a \<longleftrightarrow> (\<exists>t. a = Some t \<and> (\<exists>qs'. sched_inv t qs') \<and> (\<exists>w. workers t = (workers s)[i := w]))"

lemma act_okI: "a = Some t \<Longrightarrow> sched_inv t qs' \<Longrightarrow> workers t = (workers s)[i := w] \<Longrightarrow> act_ok i s a"
  by (auto simp: act_ok_def)

lemma fetch_act:
  assumes inv: "sched_inv s qs" and i: "i < length (workers s)" "workers s ! i = Idle"
  shows "act_ok i s (do { (r, s1) \<leftarrow> ztask_globalmq_pop s; Some (set_worker i (next_worker r) s1) })"
proof -
  obtain r s1 where p: "ztask_globalmq_pop s = Some (r, s1)" using take_enabled [OF inv] by blast
  obtain qs' where "sched_inv (set_worker i (next_worker r) s1) qs'"
    using inv_take [OF inv i(1) p, of "next_worker r"] i(2) by (auto split: if_splits)
  then show ?thesis
    by (rule act_okI [rotated]) (use p more_frame(1) [OF globalmq_pop_more [OF p]] in simp_all)
qed

lemma orphan_act:
  assumes inv: "sched_inv s qs" and i: "i < length (workers s)" "workers s ! i = Orphan q"
  shows "act_ok i s (ztask_mq_release (\<lambda>m. Some) q (set_worker i Idle s))"
proof -
  let ?s0 = "set_worker i Idle s"
  have own: "1 \<le> owners s qs q" using owner_pos [OF i(1)] i(2) by simp
  have sw: "swap_ok ?s0" by (rule swap_ok_set_worker [OF inv_swap [OF inv]]) simp
  have ow: "owners ?s0 qs r + (if r = q then 1 else 0) = owners s qs r" for r
    using owners_set_worker [OF i(1), of Idle qs r] i(2) by (auto split: if_splits)
  have rf: "references ?s0 r = references s r" for r
    using references_set_worker [OF i(1), of Idle r] i(2) by simp
  have ow1: "owners ?s0 qs q + 1 = owners s qs q" using ow [of q] by simp
  obtain t where t: "ztask_mq_release (\<lambda>m. Some) q ?s0 = Some t"
    using hand_over_enabled(2) [OF inv own, of ?s0] ow1 by auto
  obtain qs' where "sched_inv t qs'"
    using inv_release_queue [OF inv own _ _ _ _ _ sw ow rf t] by auto
  then show ?thesis
    by (rule act_okI [rotated]) (use t release_queue_workers [OF t inv own _ _ _ ow1] in simp_all)
qed

lemma take_message_act:
  assumes inv: "sched_inv s qs" and i: "i < length (workers s)" "workers s ! i = Running q"
  shows "act_ok i s (take_message i q s)"
proof -
  obtain mq where mq: "mq_mem s q = Some mq" "mq_ok mq"
    using inv_referenced [OF inv reference_pos [OF i(1)]] i(2) by force
  obtain r mq' where p: "ztask_mq_pop mq = Some (r, mq')" using ztask_mq_pop_ok [OF mq(2)] by blast
  show ?thesis
  proof (cases r)
    case None
    have "sched_inv (set_worker i (Leaving q None) (mq_put q mq' s)) qs"
      by (rule inv_drained [OF inv i mq(1)]) (use p None in simp)
    then show ?thesis by (rule act_okI [rotated]) (use p None mq(1) in \<open>simp_all add: take_message_def\<close>)
  next
    case (Some m)
    have "sched_inv (mq_put q mq' s) qs" by (rule inv_dispatch [OF inv i mq(1)]) (use p Some in simp)
    moreover have "workers (mq_put q mq' s) = (workers s)[i := workers s ! i]" by simp
    ultimately show ?thesis
      by (rule act_okI [rotated]) (use p Some mq(1) in \<open>simp add: take_message_def\<close>)
  qed
qed

lemma popped_is_other:
  assumes inv: "sched_inv s qs" and i: "i < length (workers s)" "owns q (workers s ! i)"
    and pop: "ztask_globalmq_pop s = Some (Some nq, s1)"
  shows "q \<noteq> nq"
proof
  assume "q = nq"
  then have "q \<in> set qs"
    using globalmq_pop_ok [OF inv_gq [OF inv]] pop by (auto split: list.splits)
  then have two: "2 \<le> owners s qs q"
    using filter_count_pos [OF i(1), of "owns q"] i(2) in_list_pos [of q qs] by (simp add: owners_def)
  then have "1 \<le> owners s qs q" by simp
  from inv_owned [OF inv this] two show False by (metis Suc_1 Suc_n_not_le_n One_nat_def)
qed

lemma end_batch_act:
  assumes inv: "sched_inv s qs" and i: "i < length (workers s)" "workers s ! i = Running q"
  shows "act_ok i s (end_batch i q s)"
proof -
  obtain r s1 where p: "ztask_globalmq_pop s = Some (r, s1)" using take_enabled [OF inv] by blast
  let ?w = "case r of None \<Rightarrow> Leaving q (Some q) | Some nq \<Rightarrow> Swap q nq"
  have "\<exists>qs'. sched_inv (set_worker i ?w s1) qs'"
  proof (cases r)
    case None
    then show ?thesis using inv_take [OF inv i(1) p, of ?w] i(2) by simp
  next
    case (Some nq)
    have "q \<noteq> nq" by (rule popped_is_other [OF inv i(1)]) (use i(2) p Some in simp_all)
    then show ?thesis using inv_take [OF inv i(1) p, of ?w] i(2) Some by (auto split: if_splits)
  qed
  then obtain qs' where "sched_inv (set_worker i ?w s1) qs'" ..
  then show ?thesis
    by (rule act_okI [rotated])
       (use p more_frame(1) [OF globalmq_pop_more [OF p]] in \<open>simp_all add: end_batch_def\<close>)
qed

lemma swap_act:
  assumes inv: "sched_inv s qs" and i: "i < length (workers s)" "workers s ! i = Swap q nq"
  shows "act_ok i s (ztask_globalmq_push q (set_worker i (Leaving q (Some nq)) s))"
proof -
  let ?s0 = "set_worker i (Leaving q (Some nq)) s"
  have own: "1 \<le> owners s qs q" using owner_pos [OF i(1)] i(2) by simp
  have ne: "q \<noteq> nq" using inv_swap [OF inv] i by (force simp: swap_ok_def list_all_length)
  have sw: "swap_ok ?s0" by (rule swap_ok_set_worker [OF inv_swap [OF inv]]) simp
  have ow: "owners ?s0 qs r + (if r = q then 1 else 0) = owners s qs r" for r
    using owners_set_worker [OF i(1), of "Leaving q (Some nq)" qs r] i(2) ne by (auto split: if_splits)
  have rf: "references ?s0 r = references s r" for r
    using references_set_worker [OF i(1), of "Leaving q (Some nq)" r] i(2) by simp
  obtain t where t: "ztask_globalmq_push q ?s0 = Some t"
    using hand_over_enabled(1) [OF inv own, of ?s0] ow [of q] by auto
  have "sched_inv t (qs @ [q])" by (rule inv_hand_over [OF inv own _ _ _ _ _ sw ow rf t]) simp_all
  then show ?thesis by (rule act_okI [rotated]) (use t more_frame(1) [OF globalmq_push_more [OF t]] in simp_all)
qed

lemma leave_act:
  assumes inv: "sched_inv s qs" and i: "i < length (workers s)" "workers s ! i = Leaving q r"
  shows "act_ok i s (release_ref q (set_worker i (next_worker r) s))"
proof -
  let ?s0 = "set_worker i (next_worker r) s"
  have ref: "1 \<le> references s q" using reference_pos [OF i(1)] i(2) by simp
  have sw: "swap_ok ?s0" by (rule swap_ok_set_worker [OF inv_swap [OF inv]]) simp
  have ow: "owners ?s0 qs p = owners s qs p" for p
    using owners_set_worker [OF i(1), of "next_worker r" qs p] i(2) by (auto split: if_splits)
  have rf: "references ?s0 p + (if p = q then 1 else 0) = references s p" for p
    using references_set_worker [OF i(1), of "next_worker r" p] i(2) by (auto split: if_splits)
  obtain t where t: "release_ref q ?s0 = Some t"
    using release_ref_enabled [OF inv ref, of ?s0] by auto
  obtain qs' where "sched_inv t qs'" using inv_release_ref [OF inv ref _ _ _ _ _ sw ow rf t] by auto
  then show ?thesis by (rule act_okI [rotated]) (use t release_ref_workers [OF t] in simp_all)
qed

lemma worker_acts_ok:
  assumes inv: "sched_inv s qs" and i: "i < length (workers s)" and a: "a \<in> set (worker_acts i s)"
  shows "act_ok i s a"
proof (cases "workers s ! i")
  case Idle
  then show ?thesis using fetch_act [OF inv i Idle] a by (simp add: worker_acts_def)
next
  case (Has q)
  show ?thesis
  proof (cases "registered s q")
    case True
    with Has have e: "a = Some (set_worker i (Running q) (s\<lparr>cref := (cref s)(q := cref s q + 1)\<rparr>))"
      using a by (simp add: worker_acts_def)
    show ?thesis by (rule act_okI [OF e inv_lookup [OF inv i Has True]]) simp
  next
    case False
    with Has have e: "a = Some (set_worker i (Orphan q) s)" using a by (simp add: worker_acts_def)
    show ?thesis by (rule act_okI [OF e inv_missed [OF inv i Has]]) simp
  qed
next
  case (Orphan q)
  then show ?thesis using orphan_act [OF inv i Orphan] a by (simp add: worker_acts_def)
next
  case (Running q)
  then show ?thesis using take_message_act [OF inv i Running] end_batch_act [OF inv i Running] a
    by (auto simp: worker_acts_def)
next
  case (Swap q nq)
  then show ?thesis using swap_act [OF inv i Swap] a by (simp add: worker_acts_def)
next
  case (Leaving q r)
  then show ?thesis using leave_act [OF inv i Leaving] a by (simp add: worker_acts_def)
qed

section \<open>Reachable states\<close>

lemma sched_step_inv:
  assumes "sched_step s t" "sched_inv s qs"
  shows "\<exists>qs'. sched_inv t qs'"
  using assms
proof (cases rule: sched_step.cases)
  case register
  then show ?thesis using inv_opening [OF assms(2)] by blast
next
  case (opening_grab j e)
  then show ?thesis using inv_opening [OF assms(2)] by blast
next
  case (opening_unref j b e)
  then show ?thesis using inv_opening [OF assms(2)] by blast
next
  case (opening_retire j e)
  then show ?thesis using inv_opening [OF assms(2)] by blast
next
  case (create j b e h q s1)
  then show ?thesis using inv_create [OF assms(2) create(4)] by blast
next
  case (launched q)
  let ?s0 = "s\<lparr>starting := remove1 q (starting s)\<rparr>"
  have own: "1 \<le> owners s qs q" using in_list_pos [OF launched(1)] by (simp add: owners_def)
  show ?thesis
    by (rule exI, rule inv_hand_over [OF assms(2) own _ _ _ _ _ _ _ _ launched(2)])
       (use owners_start_removed [OF launched(1)] inv_swap [OF assms(2)]
        in \<open>auto simp: swap_ok_def references_def\<close>)
next
  case (launch_failed q)
  have own: "1 \<le> owners s qs q" using in_list_pos [OF launch_failed(1)] by (simp add: owners_def)
  show ?thesis
    by (rule inv_release_queue [OF assms(2) own _ _ _ _ _ _ _ _ launch_failed(2)])
       (use owners_start_removed [OF launch_failed(1)] inv_swap [OF assms(2)]
        in \<open>auto simp: swap_ok_def references_def\<close>)
next
  case (grab q)
  then show ?thesis using inv_grab [OF assms(2)] by blast
next
  case (send q m)
  then show ?thesis using inv_send [OF assms(2) _ send(2)] worker_reference [of _ s q] by (auto simp: references_def)
next
  case (unref q)
  have ref: "1 \<le> references s q" using unref(1) by (simp add: references_def)
  show ?thesis
    by (rule inv_release_ref [OF assms(2) ref _ _ _ _ _ _ _ _ unref(2)])
       (use unref(1) inv_swap [OF assms(2)] in \<open>auto simp: swap_ok_def references_def owners_def\<close>)
next
  case (retire q)
  then show ?thesis using inv_retire [OF assms(2)] by blast
next
  case (work i)
  then show ?thesis using worker_acts_ok [OF assms(2) work(1,2)] by (auto simp: act_ok_def)
qed

lemma sched_init_inv: "sched_inv (sched_init n) []"
  by (auto simp: sched_inv_def sched_init_def gq_ok_def queue_ok_def swap_ok_def mq_view_def
      owners_def references_def list_all_length)

lemma reachable_inv: "sched_reachable n s \<Longrightarrow> \<exists>qs. sched_inv s qs"
proof (induction rule: sched_reachable.induct)
  case init
  then show ?case using sched_init_inv by blast
next
  case (step s t)
  then show ?case using sched_step_inv by blast
qed

section \<open>Properties\<close>

text \<open>
  (C2) Exclusive dispatch: in every reachable state of any number of workers, senders,
  launches and retirements, two workers never hold the same message queue, so the
  messages of one service are never dispatched by two threads at the same time.
\<close>

theorem exclusive_dispatch:
  assumes "sched_reachable n s" "i < length (workers s)" "j < length (workers s)" "i \<noteq> j"
    "workers s ! i = Running q"
  shows "\<not> owns q (workers s ! j)"
proof
  assume "owns q (workers s ! j)"
  with assms(2-5) have "2 \<le> length (filter (owns q) (workers s))"
    by (intro filter_count_ge_2 [of i _ j]) simp_all
  moreover obtain qs where inv: "sched_inv s qs" using reachable_inv [OF assms(1)] by blast
  ultimately have two: "2 \<le> owners s qs q" by (simp add: owners_def)
  then have "1 \<le> owners s qs q" by simp
  from inv_owned [OF inv this] two show False by (metis Suc_1 Suc_n_not_le_n One_nat_def)
qed

text \<open>
  (C3) No lost wake-up: a message queue that holds a message is always in the global
  queue, in the hand of a worker, or still being started by the thread that launches
  its service. A message pushed into a service's queue is never forgotten.
\<close>

theorem no_lost_wakeup:
  assumes "sched_reachable n s" "mq_mem s q = Some mq" "mq_contents mq \<noteq> []"
  shows "\<exists>qs. gq_ok s qs \<and> (q \<in> set qs \<or> q \<in> set (starting s) \<or> (\<exists>w \<in> set (workers s). owns q w))"
proof -
  obtain qs where inv: "sched_inv s qs" using reachable_inv [OF assms(1)] by blast
  have "queue_ok s qs q" by (rule queue_ok_at [OF inv])
  then have "owners s qs q = 1"
    using assms(2,3) by (auto simp: queue_ok_def mq_view_def split: if_splits)
  then have "count_list qs q \<noteq> 0 \<or> count_list (starting s) q \<noteq> 0 \<or>
      filter (owns q) (workers s) \<noteq> []"
    by (auto simp: owners_def)
  then have "q \<in> set qs \<or> q \<in> set (starting s) \<or> (\<exists>w \<in> set (workers s). owns q w)"
    by (auto simp: count_list_0_iff filter_empty_conv)
  then show ?thesis using inv_gq [OF inv] by blast
qed

text \<open>
  (C4) Workers do not get stuck on an assertion: in every reachable state, at every place
  of the dispatch loop, each action that a worker can take there returns: no assertion of
  the queue operations fails, no freed queue is touched; and the action moves no worker
  but this one.
\<close>

theorem worker_never_aborts:
  assumes "sched_reachable n s" "i < length (workers s)"
  shows "worker_acts i s \<noteq> [] \<and>
    (\<forall>a \<in> set (worker_acts i s). \<exists>t w. a = Some t \<and> workers t = (workers s)[i := w])"
proof (intro conjI ballI)
  show "worker_acts i s \<noteq> []" by (simp add: worker_acts_def split: worker.split)
  obtain qs where inv: "sched_inv s qs" using reachable_inv [OF assms(1)] by blast
  fix a
  assume "a \<in> set (worker_acts i s)"
  from worker_acts_ok [OF inv assms(2) this]
  show "\<exists>t w. a = Some t \<and> workers t = (workers s)[i := w]" by (auto simp: act_ok_def)
qed

text \<open>
  (C5) No use after free: once the queue of a service has been created, and while the
  handle table or any thread refers to the service, its message queue exists and is not
  marked for release, so that a push to it succeeds as long as fewer than
  \<open>2 ^ 30 - 1\<close> messages wait in it.
\<close>

theorem referenced_queue_alive:
  assumes "sched_reachable n s"
    "registered s q \<or> 0 < eref s q \<or> (\<exists>w \<in> set (workers s). refers q w)"
  shows "\<exists>mq. mq_mem s q = Some mq \<and> mq_ok mq \<and> \<not> release mq \<and>
    (length (mq_contents mq) < MQ_LIMIT \<longrightarrow> (\<forall>m. \<exists>t. ztask_mq_push q m s = Some t))"
proof -
  obtain qs where inv: "sched_inv s qs" using reachable_inv [OF assms(1)] by blast
  have "1 \<le> references s q"
    using assms(2) worker_reference [of _ s q] by (auto simp: references_def)
  then obtain mq where mq: "mq_mem s q = Some mq" "mq_ok mq" "\<not> release mq"
    "owners s qs q = (if in_global mq then 1 else 0)"
    using inv_referenced [OF inv] by metis
  have "in_global mq \<or> q \<notin> set qs" using mq(4) unowned_not_listed [of s qs q] by auto
  with ztask_mq_push_ok [OF inv_gq [OF inv] mq(1,2)] mq show ?thesis by blast
qed

subsection \<open>A concrete run\<close>

text \<open>Two workers; a service is launched and started, and worker 0 dispatches it.\<close>

definition run_launched :: sched where
  "run_launched = (sched_init 2)\<lparr>mq_mem := (\<lambda>_. None)(1 \<mapsto> mq_new 9), mq_brk := 2,
     registered := (\<lambda>_. False)(1 := True), cref := (\<lambda>_. 0)(1 := 2), eref := (\<lambda>_. 0)(1 := 1),
     starting := [1]\<rparr>"

definition run_started :: sched where
  "run_started = run_launched\<lparr>starting := [], gq_head := Some 1, gq_tail := Some 1\<rparr>"

definition run_fetched :: sched where
  "run_fetched = run_launched\<lparr>starting := [], workers := [Has 1, Idle]\<rparr>"

definition run_dispatching :: sched where
  "run_dispatching = run_fetched\<lparr>workers := [Running 1, Idle], cref := (\<lambda>_. 0)(1 := 3)\<rparr>"

lemmas run_defs = run_launched_def run_started_def run_fetched_def run_dispatching_def sched_init_def

lemma run_launched_reachable: "sched_reachable 2 run_launched"
proof -
  let ?s = "(sched_init 2)\<lparr>queueless := [(True, 0)]\<rparr>"
  have "sched_step (sched_init 2) ?s"
    using sched_step.register [of "sched_init 2"] by (simp add: sched_init_def)
  then have r: "sched_reachable 2 ?s" by (rule sched_reachable.step [OF sched_reachable.init])
  have "ztask_mq_create 9 ?s = (1, ?s\<lparr>mq_mem := (\<lambda>_. None)(1 \<mapsto> mq_new 9), mq_brk := 2\<rparr>)"
    by (simp add: ztask_mq_create_def sched_init_def mq_put_def Let_def numeral_2_eq_2)
  from sched_step.create [OF _ _ this, of 0 True 0] have "sched_step ?s run_launched"
    by (simp add: run_launched_def sched_init_def numeral_2_eq_2)
  with r show ?thesis by (rule sched_reachable.step)
qed

lemma run_started_reachable: "sched_reachable 2 run_started"
proof (rule sched_reachable.step [OF run_launched_reachable])
  show "sched_step run_launched run_started"
    by (rule sched_step.launched [of 1]) (simp_all add: run_defs ztask_globalmq_push_def mq_new_def)
qed

lemma run_fetched_reachable: "sched_reachable 2 run_fetched"
proof (rule sched_reachable.step [OF run_started_reachable])
  have pop: "ztask_globalmq_pop run_started = Some (Some 1, run_launched\<lparr>starting := []\<rparr>)"
    by (simp add: run_defs ztask_globalmq_pop_def mq_new_def mq_put_def)
  have "Some (set_worker 0 (next_worker (Some 1)) (run_launched\<lparr>starting := []\<rparr>)) \<in> set (worker_acts 0 run_started)"
    unfolding worker_acts_def pop by (simp add: run_defs numeral_2_eq_2)
  from sched_step.work [OF _ this]
  show "sched_step run_started run_fetched"
    by (simp add: set_worker_def next_worker_def run_defs numeral_2_eq_2)
qed

lemma run_dispatching_reachable: "sched_reachable 2 run_dispatching"
proof (rule sched_reachable.step [OF run_fetched_reachable])
  have "Some (set_worker 0 (Running 1)
      (run_fetched\<lparr>cref := (cref run_fetched)(1 := cref run_fetched 1 + 1)\<rparr>)) \<in> set (worker_acts 0 run_fetched)"
    by (simp add: worker_acts_def run_defs)
  from sched_step.work [OF _ this] show "sched_step run_fetched run_dispatching"
    by (simp add: set_worker_def run_defs)
qed

theorem exclusive_dispatch_witness:
  "sched_reachable 2 run_dispatching \<and> workers run_dispatching ! 0 = Running 1 \<and>
   \<not> owns 1 (workers run_dispatching ! 1)"
  using exclusive_dispatch [OF run_dispatching_reachable, of 0 1 1] run_dispatching_reachable
  by (simp add: run_dispatching_def)

definition run_sent :: sched where
  "run_sent = the (ztask_mq_push 1 sample_msg run_dispatching)"

lemma run_sent_facts:
  "sched_reachable 2 run_sent \<and> (\<exists>mq. mq_mem run_sent 1 = Some mq \<and> mq_contents mq = [sample_msg])"
proof -
  have new: "length (mq_contents (mq_new 9)) < MQ_LIMIT" "in_global (mq_new 9)"
    by (simp add: mq_new_ok(2) MQ_LIMIT_def del: mq_length_contents) (simp add: mq_new_def)
  obtain mq where mq: "mq_store sample_msg (mq_new 9) = Some mq" "mq_contents mq = [sample_msg]"
    "in_global mq"
    using mq_store_ok [OF mq_new_ok(1) new(1), of sample_msg] new(2) mq_new_ok(2) [of 9] by auto
  have p: "ztask_mq_push 1 sample_msg run_dispatching = Some (mq_put 1 mq run_dispatching)"
    using mq by (simp add: ztask_mq_push_def run_defs)
  have rs: "run_sent = mq_put 1 mq run_dispatching" by (simp only: run_sent_def p option.sel)
  have "0 < eref run_dispatching 1 \<or> (\<exists>w \<in> set (workers run_dispatching). refers 1 w)"
    by (simp add: run_defs)
  from sched_step.send [OF this p] have "sched_step run_dispatching run_sent" by (simp only: rs)
  then show ?thesis
    using sched_reachable.step [OF run_dispatching_reachable] mq(2) by (auto simp: rs)
qed

theorem no_lost_wakeup_witness:
  "\<exists>qs. gq_ok run_sent qs \<and>
    (1 \<in> set qs \<or> 1 \<in> set (starting run_sent) \<or> (\<exists>w \<in> set (workers run_sent). owns 1 w))"
proof -
  obtain mq where "mq_mem run_sent 1 = Some mq" "mq_contents mq = [sample_msg]"
    using run_sent_facts by blast
  with no_lost_wakeup [of 2 run_sent 1 mq] run_sent_facts show ?thesis by simp
qed

theorem worker_never_aborts_witness:
  "\<exists>t t' w w'. worker_acts 0 run_dispatching = [Some t, Some t'] \<and>
     workers t = [Running 1, Idle][0 := w] \<and> workers t' = [Running 1, Idle][0 := w']"
proof -
  have acts: "worker_acts 0 run_dispatching = [take_message 0 1 run_dispatching, end_batch 0 1 run_dispatching]"
    and at: "0 < length (workers run_dispatching)" "workers run_dispatching = [Running 1, Idle]"
    by (simp_all add: worker_acts_def run_dispatching_def)
  note all = conjunct2 [OF worker_never_aborts [OF run_dispatching_reachable at(1)]]
  obtain t w where t: "take_message 0 1 run_dispatching = Some t" "workers t = [Running 1, Idle][0 := w]"
    using bspec [OF all, of "take_message 0 1 run_dispatching"] unfolding acts at(2) by auto
  obtain t' w' where t': "end_batch 0 1 run_dispatching = Some t'" "workers t' = [Running 1, Idle][0 := w']"
    using bspec [OF all, of "end_batch 0 1 run_dispatching"] unfolding acts at(2) by auto
  show ?thesis unfolding acts t(1) t'(1) using t(2) t'(2) by blast
qed

theorem referenced_queue_alive_witness:
  "\<exists>mq t. mq_mem run_dispatching 1 = Some mq \<and> mq_ok mq \<and> \<not> release mq \<and> ztask_mq_push 1 sample_msg run_dispatching = Some t"
proof -
  have mq: "mq_mem run_dispatching 1 = Some (mq_new 9)" by (simp add: run_defs)
  have "length (mq_contents (mq_new 9)) < MQ_LIMIT" by (simp add: mq_new_ok(2) MQ_LIMIT_def del: mq_length_contents)
  moreover have "registered run_dispatching 1" by (simp add: run_defs)
  ultimately show ?thesis using referenced_queue_alive [OF run_dispatching_reachable, of 1] mq by auto
qed


end
