(* ===== verification/CString.thy ===== *)
theory CString
  imports Prelude
begin

text \<open>
  The parts of the C library the program uses on strings: \<^verbatim>\<open>strcmp\<close>, \<^verbatim>\<open>strtoul\<close> in base
  16, \<^verbatim>\<open>strtol\<close> in base 10 and the conversions \<^verbatim>\<open>%x\<close>, \<^verbatim>\<open>%08x\<close>, \<^verbatim>\<open>%d\<close> and \<^verbatim>\<open>%u\<close> of
  \<^verbatim>\<open>printf\<close>. A C string is the list of its characters before the terminating zero.
\<close>

section \<open>Comparison\<close>

fun strcmp :: "string \<Rightarrow> string \<Rightarrow> int" where
  "strcmp [] [] = 0"
| "strcmp [] (b # bs) = -1"
| "strcmp (a # as) [] = 1"
| "strcmp (a # as) (b # bs) =
     (if a = b then strcmp as bs else of_char a - of_char b)"

text \<open>What a binary search needs of its comparison.\<close>

locale comparison =
  fixes cmp :: "'k \<Rightarrow> 'k \<Rightarrow> int"
  assumes cmp_eq: "cmp a b = 0 \<longleftrightarrow> a = b"
    and cmp_sym: "cmp a b < 0 \<longleftrightarrow> 0 < cmp b a"
    and cmp_trans: "cmp a b < 0 \<Longrightarrow> cmp b c < 0 \<Longrightarrow> cmp a c < 0"
begin

abbreviation ordered :: "'k list \<Rightarrow> bool" where
  "ordered \<equiv> sorted_wrt (\<lambda>a b. cmp a b < 0)"

lemma cmp_irrefl: "\<not> cmp a a < 0"
  using cmp_eq [of a a] by simp

lemma ordered_distinct: "ordered xs \<Longrightarrow> distinct xs"
  by (induction xs) (auto simp: cmp_irrefl)

lemma ordered_nth: "ordered xs \<Longrightarrow> i < j \<Longrightarrow> j < length xs \<Longrightarrow> cmp (xs ! i) (xs ! j) < 0"
  by (rule sorted_wrt_nth_less)

lemma below_mid:
  assumes "ordered xs" "m < length xs" "cmp (xs ! m) k < 0" "i \<le> m"
  shows "cmp (xs ! i) k < 0"
  using ordered_nth [OF assms(1), of i m] assms cmp_trans by (cases "i = m") auto

lemma above_mid:
  assumes "ordered xs" "m < length xs" "0 < cmp (xs ! m) k" "m \<le> i" "i < length xs"
  shows "0 < cmp (xs ! i) k"
proof (cases "i = m")
  case False
  then have "cmp (xs ! m) (xs ! i) < 0" using ordered_nth assms by simp
  then have "cmp k (xs ! i) < 0" using cmp_trans [of k "xs ! m" "xs ! i"] assms(3) cmp_sym by blast
  then show ?thesis using cmp_sym by blast
qed (use assms in simp)

lemma ordered_insert:
  assumes "ordered (xs @ ys)" "\<forall>x \<in> set xs. cmp x k < 0" "\<forall>y \<in> set ys. 0 < cmp y k"
  shows "ordered (xs @ k # ys)"
  using assms by (auto simp: sorted_wrt_append cmp_sym)

end

lemma of_char_int_eq: "(of_char a :: int) = of_char b \<longleftrightarrow> a = b"
  by simp

lemma strcmp_eq_0: "strcmp a b = 0 \<longleftrightarrow> a = b"
  by (induction a b rule: strcmp.induct) auto

lemma strcmp_sym: "strcmp a b < 0 \<longleftrightarrow> 0 < strcmp b a"
  by (induction a b rule: strcmp.induct) auto

lemma strcmp_trans: "strcmp a b < 0 \<Longrightarrow> strcmp b c < 0 \<Longrightarrow> strcmp a c < 0"
proof (induction a b arbitrary: c rule: strcmp.induct)
  case (2 b bs)
  then show ?case by (cases c) auto
next
  case (4 a as b bs)
  then show ?case by (cases c) (auto split: if_splits)
qed auto

interpretation strcmp: comparison strcmp
  by unfold_locales (fact strcmp_eq_0, fact strcmp_sym, fact strcmp_trans)

section \<open>Reading numbers\<close>

definition code_of :: "char \<Rightarrow> nat" where
  "code_of c = of_char c"

definition isspace_c :: "char \<Rightarrow> bool" where
  "isspace_c c = (code_of c = 32 \<or> (9 \<le> code_of c \<and> code_of c \<le> 13))"

definition digit_value :: "char \<Rightarrow> nat option" where
  "digit_value c =
     (let n = code_of c in
      if 48 \<le> n \<and> n \<le> 57 then Some (n - 48)
      else if 97 \<le> n \<and> n \<le> 122 then Some (n - 87)
      else if 65 \<le> n \<and> n \<le> 90 then Some (n - 55)
      else None)"

fun read_digits :: "nat \<Rightarrow> nat \<Rightarrow> string \<Rightarrow> nat" where
  "read_digits base acc [] = acc"
| "read_digits base acc (c # cs) =
     (case digit_value c of
        None \<Rightarrow> acc
      | Some d \<Rightarrow> if d < base then read_digits base (acc * base + d) cs else acc)"

text \<open>White space, sign, prefix and digits; base 0 takes the base from the prefix.\<close>

definition has_hex_prefix :: "string \<Rightarrow> bool" where
  "has_hex_prefix s = (case s of
     z # x # d # _ \<Rightarrow> z = CHR ''0'' \<and> (x = CHR ''x'' \<or> x = CHR ''X'') \<and>
        (case digit_value d of None \<Rightarrow> False | Some v \<Rightarrow> v < 16)
   | _ \<Rightarrow> False)"

definition read_unsigned :: "nat \<Rightarrow> string \<Rightarrow> nat" where
  "read_unsigned base s =
     (if (base = 0 \<or> base = 16) \<and> has_hex_prefix s then read_digits 16 0 (drop 2 s)
      else if base = 0 then read_digits (case s of c # _ \<Rightarrow> if c = CHR ''0'' then 8 else 10 | [] \<Rightarrow> 10) 0 s
      else read_digits base 0 s)"

definition read_signed :: "nat \<Rightarrow> string \<Rightarrow> bool \<times> nat" where
  "read_signed base s =
     (case dropWhile isspace_c s of
        [] \<Rightarrow> (False, 0)
      | c # cs \<Rightarrow> if c = CHR ''-'' then (True, read_unsigned base cs)
                  else if c = CHR ''+'' then (False, read_unsigned base cs)
                  else (False, read_unsigned base (c # cs)))"

text \<open>\<^verbatim>\<open>unsigned long\<close> and \<^verbatim>\<open>long\<close> have 64 bits; a value out of range is clamped.\<close>

definition strtoul :: "nat \<Rightarrow> string \<Rightarrow> u64" where
  "strtoul base s =
     (let (neg, n) = read_signed base s;
          v = (if n < 2 ^ 64 then of_nat n else -1 :: u64)
      in if neg \<and> n < 2 ^ 64 then - v else v)"

definition strtol :: "nat \<Rightarrow> string \<Rightarrow> int" where
  "strtol base s =
     (let (neg, n) = read_signed base s; v = (if neg then - int n else int n)
      in max (- (2 ^ 63)) (min (2 ^ 63 - 1) v))"

section \<open>Printing numbers\<close>

definition digit_char :: "nat \<Rightarrow> char" where
  "digit_char d = (if d < 10 then char_of (48 + d) else char_of (87 + d))"

fun print_digits :: "nat \<Rightarrow> nat \<Rightarrow> string" where
  "print_digits base n =
     (if n < base \<or> base < 2 then [digit_char n]
      else print_digits base (n div base) @ [digit_char (n mod base)])"

declare print_digits.simps [simp del]

definition fmt_x :: "u32 \<Rightarrow> string" where
  "fmt_x w = print_digits 16 (unat w)"

definition fmt_08x :: "u32 \<Rightarrow> string" where
  "fmt_08x w = (let d = fmt_x w in replicate (8 - length d) (CHR ''0'') @ d)"

definition fmt_u :: "u32 \<Rightarrow> string" where
  "fmt_u w = print_digits 10 (unat w)"

definition fmt_d :: "int \<Rightarrow> string" where
  "fmt_d i = (if i < 0 then CHR ''-'' # print_digits 10 (nat (- i)) else print_digits 10 (nat i))"

section \<open>Reading back what was printed\<close>

lemma code_of_char_of [simp]: "code_of (char_of n) = n mod 256"
  by (simp add: code_of_def)

lemma digit_value_digit_char: "d < 16 \<Longrightarrow> digit_value (digit_char d) = Some d"
  by (auto simp: digit_value_def digit_char_def Let_def)

lemma read_digits_append:
  assumes "\<And>c. c \<in> set xs \<Longrightarrow> \<exists>d < base. digit_value c = Some d"
  shows "read_digits base acc (xs @ ys) = read_digits base (read_digits base acc xs) ys"
  using assms
proof (induction xs arbitrary: acc)
  case (Cons x xs)
  then obtain d where "d < base" "digit_value x = Some d" by auto
  with Cons show ?case by simp
qed simp

lemma print_digits_valid:
  assumes "2 \<le> base" "base \<le> 16" "c \<in> set (print_digits base n)"
  shows "\<exists>d < base. digit_value c = Some d"
  using assms
proof (induction base n rule: print_digits.induct)
  case (1 base n)
  show ?case
  proof (cases "n < base")
    case True
    then show ?thesis
      using "1.prems" digit_value_digit_char [of n] by (auto simp: print_digits.simps [of base n])
  next
    case False
    then have "c \<in> set (print_digits base (n div base)) \<or> c = digit_char (n mod base)"
      using "1.prems" by (auto simp: print_digits.simps [of base n])
    moreover have "n mod base < base" "n mod base < 16"
      using "1.prems" mod_less_divisor [of base n] by linarith+
    ultimately show ?thesis
      using "1.IH" "1.prems" False digit_value_digit_char [of "n mod base"] by auto
  qed
qed

lemma read_print_digits:
  assumes "2 \<le> base" "base \<le> 16"
  shows "read_digits base 0 (print_digits base n) = n"
  using assms
proof (induction base n rule: print_digits.induct)
  case (1 base n)
  show ?case
  proof (cases "n < base")
    case True
    then show ?thesis
      using "1.prems" digit_value_digit_char [of n] by (simp add: print_digits.simps [of base n])
  next
    case False
    have "read_digits base 0 (print_digits base (n div base) @ [digit_char (n mod base)])
        = read_digits base (n div base) [digit_char (n mod base)]"
      using read_digits_append [OF print_digits_valid [OF "1.prems"]] "1.IH" "1.prems" False by simp
    also have "\<dots> = n"
    proof -
      have "n mod base < base" using "1.prems" by simp
      moreover have "n mod base < 16" using "1.prems" calculation by linarith
      ultimately show ?thesis using digit_value_digit_char [of "n mod base"] by simp
    qed
    finally show ?thesis using False "1.prems" by (simp add: print_digits.simps [of base n])
  qed
qed

lemma print_digits_nonempty [simp]: "print_digits base n \<noteq> []"
  by (subst print_digits.simps) simp

lemma read_zeros: "0 < base \<Longrightarrow> read_digits base 0 (replicate k (CHR ''0'') @ s) = read_digits base 0 s"
  by (induction k) (auto simp: digit_value_def code_of_def)

lemma digit_not_special:
  assumes "digit_value c = Some d" "d < 16"
  shows "\<not> isspace_c c" "c \<noteq> CHR ''-''" "c \<noteq> CHR ''+''" "c \<noteq> CHR ''x''" "c \<noteq> CHR ''X''"
  using assms by (auto simp: digit_value_def isspace_c_def code_of_def Let_def split: if_splits)

text \<open>A string of hexadecimal digits is read to its end in base 16.\<close>

lemma strtoul_hex_digits:
  assumes d: "\<And>c. c \<in> set s \<Longrightarrow> \<exists>d < 16. digit_value c = Some d" and ne: "s \<noteq> []"
    and n: "read_digits 16 0 s = n" "n < 2 ^ 64"
  shows "strtoul 16 s = of_nat n"
proof -
  obtain c cs where s: "s = c # cs" using ne by (cases s) auto
  obtain dv where dv: "dv < 16" "digit_value c = Some dv" using d s by auto
  have sp: "dropWhile isspace_c s = s" using digit_not_special(1) [OF dv(2,1)] s by simp
  have "\<not> has_hex_prefix s"
    using d digit_not_special(4,5)
    by (fastforce simp: has_hex_prefix_def split: list.splits)
  then have "read_signed 16 s = (False, n)"
    using digit_not_special(2,3) [OF dv(2,1)] s sp n(1) by (simp add: read_signed_def read_unsigned_def)
  then show ?thesis using n(2) by (simp add: strtoul_def)
qed

lemma strtoul_fmt_x: "strtoul 16 (fmt_x w) = ucast w"
proof -
  have "unat w < 2 ^ 32" using unsigned_less [where ?'b = 32 and ?'a = nat and w = w] by simp
  then have "strtoul 16 (fmt_x w) = of_nat (unat w)"
    by (intro strtoul_hex_digits)
       (auto simp: fmt_x_def read_print_digits intro: print_digits_valid [of 16])
  then show ?thesis by (simp add: unsigned_of_nat)
qed

end
