(* ===== verification/Handle.thy ===== *)
theory Handle
  imports CString
begin

text \<open>
  The handle table of \<^verbatim>\<open>src/ztask/ztask_handle.c\<close>: an open hash table of contexts whose
  size is a power of two, and the sorted array of the names given to handles. Contexts
  are addressed by \<open>ctxref\<close>; \<open>ch\<close> is \<^verbatim>\<open>ztask_context_handle\<close>, the handle stored in a
  context. Every operation runs under the table's read-write lock and is one step. The caller of
  \<^verbatim>\<open>ztask_handle_register\<close> stores the handle in the context after the lock has been released, so a context
  of the table may for a while still have the handle 0 of its creation; \<open>issued\<close> are the handles given out.
\<close>

section \<open>Data\<close>

type_synonym ctxref = nat

record handle_name =
  hn_name :: string
  hn_handle :: u32

record handle_storage =
  harbor :: u32
  handle_index :: u32
  slot_size :: nat
  slot :: "ctxref option list"
  name_cap :: nat
  name_count :: nat
  name :: "handle_name option list"

definition HANDLE_MASK :: u32 where
  "HANDLE_MASK = 0xffffff"

definition HANDLE_REMOTE_SHIFT :: nat where
  "HANDLE_REMOTE_SHIFT = 24"

definition DEFAULT_SLOT_SIZE :: nat where
  "DEFAULT_SLOT_SIZE = 4"

definition MAX_SLOT_SIZE :: nat where
  "MAX_SLOT_SIZE = 0x40000000"

text \<open>\<^verbatim>\<open>handle & (slot_size - 1)\<close>\<close>

definition slot_hash :: "u32 \<Rightarrow> nat \<Rightarrow> nat" where
  "slot_hash handle sz = unat (handle AND (of_nat sz - 1))"

section \<open>Registering a context\<close>

text \<open>The inner loop: the first free slot from \<^verbatim>\<open>handle_index\<close> on, with its handle.\<close>

function find_free :: "handle_storage \<Rightarrow> nat \<Rightarrow> (u32 \<times> nat) option" where
  "find_free s i =
     (if i < slot_size s
      then let handle = (of_nat i + handle_index s) AND HANDLE_MASK;
               hash = slot_hash handle (slot_size s)
           in if slot s ! hash = None then Some (handle, hash) else find_free s (i + 1)
      else None)"
  by pat_completeness auto
termination
  by (relation "measure (\<lambda>(s, i). slot_size s - i)") auto

declare find_free.simps [simp del]

text \<open>The rehashing loop of the table that doubles.\<close>

fun rehash :: "(ctxref \<Rightarrow> u32) \<Rightarrow> nat \<Rightarrow> ctxref option list \<Rightarrow> ctxref option list \<Rightarrow> ctxref option list option" where
  "rehash ch sz [] new_slot = Some new_slot"
| "rehash ch sz (c # cs) new_slot =
     do { ctx \<leftarrow> c;
          let hash = slot_hash (ch ctx) sz;
          old \<leftarrow> array_get new_slot hash;
          assert_c (old = None);
          rehash ch sz cs (new_slot[hash := Some ctx]) }"

definition expand_slots :: "(ctxref \<Rightarrow> u32) \<Rightarrow> handle_storage \<Rightarrow> handle_storage option" where
  "expand_slots ch s =
     do { assert_c (slot_size s * 2 - 1 \<le> unat HANDLE_MASK);
          new_slot \<leftarrow> rehash ch (slot_size s * 2) (slot s) (replicate (slot_size s * 2) None);
          Some (s\<lparr>slot := new_slot, slot_size := slot_size s * 2\<rparr>) }"

partial_function (option) ztask_handle_register ::
  "(ctxref \<Rightarrow> u32) \<Rightarrow> ctxref \<Rightarrow> handle_storage \<Rightarrow> (u32 \<times> handle_storage) option" where
  "ztask_handle_register ch ctx s =
     (case find_free s 0 of
        Some (handle, hash) \<Rightarrow>
          Some (handle OR harbor s,
                s\<lparr>slot := (slot s)[hash := Some ctx], handle_index := handle + 1\<rparr>)
      | None \<Rightarrow> do { s' \<leftarrow> expand_slots ch s; ztask_handle_register ch ctx s' })"

declare ztask_handle_register.simps [code]

section \<open>Retiring and looking up handles\<close>

text \<open>The loop that closes the gaps left by the names of a retired handle.\<close>

function compact_names ::
  "u32 \<Rightarrow> nat \<Rightarrow> nat \<Rightarrow> nat \<Rightarrow> handle_name option list \<Rightarrow> (nat \<times> handle_name option list) option" where
  "compact_names handle n i j names =
     (if i < n
      then do { cell \<leftarrow> array_get names i;
                nm \<leftarrow> cell;
                if hn_handle nm = handle then compact_names handle n (i + 1) j names
                else compact_names handle n (i + 1) (j + 1)
                       (if i \<noteq> j then names[j := Some nm] else names) }
      else Some (j, names))"
  by pat_completeness auto
termination
  by (relation "measure (\<lambda>(h, n, i, j, ns). n - i)") auto

declare compact_names.simps [simp del]

text \<open>The returned context is released by the caller (theory Server).\<close>

definition ztask_handle_retire ::
  "(ctxref \<Rightarrow> u32) \<Rightarrow> u32 \<Rightarrow> handle_storage \<Rightarrow> (ctxref option \<times> handle_storage) option" where
  "ztask_handle_retire ch handle s =
     (let hash = slot_hash handle (slot_size s) in
      do { cell \<leftarrow> array_get (slot s) hash;
           (case cell of
              Some ctx \<Rightarrow>
                if ch ctx = handle
                then do { (j, names) \<leftarrow> compact_names handle (name_count s) 0 0 (name s);
                          Some (Some ctx, s\<lparr>slot := (slot s)[hash := None],
                                            name_count := j, name := names\<rparr>) }
                else Some (None, s)
            | None \<Rightarrow> Some (None, s)) })"

definition ztask_handle_grab :: "(ctxref \<Rightarrow> u32) \<Rightarrow> u32 \<Rightarrow> handle_storage \<Rightarrow> ctxref option option" where
  "ztask_handle_grab ch handle s =
     do { cell \<leftarrow> array_get (slot s) (slot_hash handle (slot_size s));
          Some (case cell of
                  Some ctx \<Rightarrow> if ch ctx = handle then Some ctx else None
                | None \<Rightarrow> None) }"

section \<open>Names\<close>

datatype search_result = Found handle_name | Absent nat

text \<open>The binary search that \<^verbatim>\<open>ztask_handle_findname\<close> and \<^verbatim>\<open>_insert_name\<close> both contain.\<close>

function name_search ::
  "handle_name option list \<Rightarrow> string \<Rightarrow> int \<Rightarrow> int \<Rightarrow> search_result option" where
  "name_search names key lo hi =
     (if lo \<le> hi
      then let mid = (lo + hi) div 2 in
           do { cell \<leftarrow> array_get names (nat mid);
                n \<leftarrow> cell;
                let c = strcmp (hn_name n) key;
                if c = 0 then Some (Found n)
                else if c < 0 then name_search names key (mid + 1) hi
                else name_search names key lo (mid - 1) }
      else Some (Absent (nat lo)))"
  by pat_completeness auto
termination
  by (relation "measure (\<lambda>(ns, k, b, e). nat (e - b + 1))") auto

declare name_search.simps [simp del]

definition ztask_handle_findname :: "string \<Rightarrow> handle_storage \<Rightarrow> u32 option" where
  "ztask_handle_findname key s =
     do { r \<leftarrow> name_search (name s) key 0 (int (name_count s) - 1);
          Some (case r of Found n \<Rightarrow> hn_handle n | Absent _ \<Rightarrow> 0) }"

text \<open>\<^verbatim>\<open>for (i = name_count; i > before; i--) name[i] = name[i - 1]\<close>\<close>

fun shift_names :: "nat \<Rightarrow> nat \<Rightarrow> 'a list \<Rightarrow> 'a list option" where
  "shift_names 0 before names = Some names"
| "shift_names (Suc i) before names =
     (if Suc i > before
      then do { x \<leftarrow> array_get names i;
                names' \<leftarrow> array_set names (Suc i) x;
                shift_names i before names' }
      else Some names)"

definition insert_name_before ::
  "string \<Rightarrow> u32 \<Rightarrow> nat \<Rightarrow> handle_storage \<Rightarrow> handle_storage option" where
  "insert_name_before key handle before s =
     do { s1 \<leftarrow>
            (if name_count s \<ge> name_cap s
             then do { assert_c (name_cap s * 2 \<le> MAX_SLOT_SIZE);
                       Some (s\<lparr>name_cap := name_cap s * 2,
                               name := take before (name s) @ None #
                                       take (name_count s - before) (drop before (name s)) @
                                       replicate (name_cap s * 2 - name_count s - 1) None\<rparr>) }
             else do { ns \<leftarrow> shift_names (name_count s) before (name s); Some (s\<lparr>name := ns\<rparr>) });
          ns \<leftarrow> array_set (name s1) before (Some \<lparr>hn_name = key, hn_handle = handle\<rparr>);
          Some (s1\<lparr>name := ns, name_count := name_count s1 + 1\<rparr>) }"

definition insert_name ::
  "string \<Rightarrow> u32 \<Rightarrow> handle_storage \<Rightarrow> (string option \<times> handle_storage) option" where
  "insert_name key handle s =
     do { r \<leftarrow> name_search (name s) key 0 (int (name_count s) - 1);
          (case r of
             Found _ \<Rightarrow> Some (None, s)
           | Absent at \<Rightarrow> do { s' \<leftarrow> insert_name_before key handle at s; Some (Some key, s') }) }"

definition ztask_handle_namehandle ::
  "u32 \<Rightarrow> string \<Rightarrow> handle_storage \<Rightarrow> (string option \<times> handle_storage) option" where
  "ztask_handle_namehandle handle key s = insert_name key handle s"

definition ztask_handle_init :: "u32 \<Rightarrow> handle_storage" where
  "ztask_handle_init h =
     \<lparr>harbor = push_bit HANDLE_REMOTE_SHIFT (h AND 0xff), handle_index = 1,
      slot_size = DEFAULT_SLOT_SIZE, slot = replicate DEFAULT_SLOT_SIZE None,
      name_cap = 2, name_count = 0, name = replicate 2 None\<rparr>"

section \<open>The table as a map from handles to contexts\<close>

lemma HANDLE_MASK_mask: "HANDLE_MASK = mask 24"
  by (simp add: HANDLE_MASK_def mask_eq_decr_exp)

lemma slot_hash_pow2:
  assumes "k \<le> 24"
  shows "slot_hash h (2 ^ k) = unat (take_bit k h)"
proof -
  have "(of_nat (2 ^ k) - 1 :: u32) = mask k" by (simp add: mask_eq_decr_exp)
  then show ?thesis by (simp add: slot_hash_def take_bit_eq_mask)
qed

lemma slot_hash_mod: "k \<le> 24 \<Longrightarrow> slot_hash h (2 ^ k) = unat h mod 2 ^ k"
  by (simp only: slot_hash_pow2 unsigned_take_bit_eq) (simp add: take_bit_eq_mod)

definition handles_ok :: "(ctxref \<Rightarrow> u32) \<Rightarrow> handle_storage \<Rightarrow> bool" where
  "handles_ok ch s \<longleftrightarrow>
     (\<exists>k \<le> 24. slot_size s = 2 ^ k) \<and> length (slot s) = slot_size s \<and>
     take_bit 24 (harbor s) = 0 \<and>
     (\<forall>i < slot_size s. \<forall>c. slot s ! i = Some c \<longrightarrow>
        slot_hash (ch c) (slot_size s) = i \<and> (ch c AND NOT HANDLE_MASK) = harbor s)"

text \<open>The abstract table.\<close>

definition handle_map :: "(ctxref \<Rightarrow> u32) \<Rightarrow> handle_storage \<Rightarrow> u32 \<Rightarrow> ctxref option" where
  "handle_map ch s h =
     (case slot s ! slot_hash h (slot_size s) of
        Some c \<Rightarrow> if ch c = h then Some c else None
      | None \<Rightarrow> None)"

lemma handles_okE:
  assumes "handles_ok ch s"
  obtains k where "k \<le> 24" "slot_size s = 2 ^ k" "length (slot s) = 2 ^ k"
    "\<And>h. slot_hash h (slot_size s) < slot_size s"
proof -
  obtain k where k: "k \<le> 24" "slot_size s = 2 ^ k" using assms by (auto simp: handles_ok_def)
  moreover have "slot_hash h (slot_size s) < slot_size s" for h
    using k by (simp add: slot_hash_mod)
  ultimately show thesis using that [of k] assms by (auto simp: handles_ok_def)
qed

lemma slot_in_range: "handles_ok ch s \<Longrightarrow> slot_hash h (slot_size s) < length (slot s)"
  by (rule handles_okE [of ch s]) (auto simp: handles_ok_def)

lemma slot_place:
  assumes "handles_ok ch s" "Some c \<in> set (slot s)"
  shows "slot s ! slot_hash (ch c) (slot_size s) = Some c"
  using assms by (auto simp: handles_ok_def in_set_conv_nth)

lemma handle_map_iff:
  assumes "handles_ok ch s"
  shows "handle_map ch s h = Some c \<longleftrightarrow> Some c \<in> set (slot s) \<and> ch c = h"
proof
  assume "handle_map ch s h = Some c"
  then have "slot s ! slot_hash h (slot_size s) = Some c \<and> ch c = h"
    by (simp add: handle_map_def split: option.splits if_splits)
  then show "Some c \<in> set (slot s) \<and> ch c = h"
    using nth_mem [OF slot_in_range [OF assms, of h]] by simp
next
  assume "Some c \<in> set (slot s) \<and> ch c = h"
  then show "handle_map ch s h = Some c"
    using slot_place [OF assms, of c] by (auto simp: handle_map_def)
qed

lemma handle_map_None:
  assumes "handles_ok ch s" "slot s ! slot_hash h (slot_size s) = None"
  shows "handle_map ch s h = None"
  using assms by (simp add: handle_map_def)

lemma ztask_handle_grab_ok:
  "handles_ok ch s \<Longrightarrow> ztask_handle_grab ch h s = Some (handle_map ch s h)"
  using slot_in_range [of ch s h] by (simp add: ztask_handle_grab_def handle_map_def)

subsection \<open>Searching for a free slot\<close>

lemma find_free_Some:
  assumes "find_free s i = Some (handle, hash)"
  shows "hash = slot_hash handle (slot_size s) \<and> slot s ! hash = None \<and> handle AND HANDLE_MASK = handle"
  using assms
proof (induction s i rule: find_free.induct)
  case (1 s i)
  then show ?case
    by (simp add: find_free.simps [of s i] Let_def split: if_splits)
       (auto simp: and.assoc)
qed

lemma find_free_None:
  assumes "find_free s i = None" "i \<le> j" "j < slot_size s"
  shows "slot s ! slot_hash ((of_nat j + handle_index s) AND HANDLE_MASK) (slot_size s) \<noteq> None"
  using assms
proof (induction s i rule: find_free.induct)
  case (1 s i)
  have i: "i < slot_size s" using "1.prems" by simp
  have ne: "slot s ! slot_hash ((of_nat i + handle_index s) AND HANDLE_MASK) (slot_size s) \<noteq> None"
    and r: "find_free s (i + 1) = None"
    using "1.prems"(1) i by (auto simp: find_free.simps [of s i] Let_def split: if_splits)
  show ?case
  proof (cases "i = j")
    case False
    with "1.IH" [OF i refl refl ne r] "1.prems" show ?thesis by simp
  qed (use ne in simp)
qed

text \<open>The probe sequence visits every slot.\<close>

lemma probe_hash:
  assumes "k \<le> 24"
  shows "slot_hash ((of_nat j + x) AND HANDLE_MASK) (2 ^ k) = (j + unat x) mod 2 ^ k"
proof -
  have "take_bit k ((of_nat j + x) AND HANDLE_MASK) = take_bit k (of_nat j + x)"
    using assms by (simp add: HANDLE_MASK_mask flip: take_bit_eq_mask)
  moreover have "unat (take_bit k (of_nat j + x :: u32)) = (j + unat x) mod 2 ^ k"
  proof -
    have "of_nat j + x = (of_nat (j + unat x) :: u32)" by simp
    then have "unat (take_bit k (of_nat j + x :: u32)) = take_bit k (take_bit 32 (j + unat x))"
      by (simp only: unsigned_take_bit_eq unsigned_of_nat) simp
    also have "\<dots> = take_bit k (j + unat x)" using assms by simp
    finally show ?thesis by (simp add: take_bit_eq_mod)
  qed
  ultimately show ?thesis using assms by (simp add: slot_hash_pow2)
qed

lemma find_free_full:
  assumes ok: "handles_ok ch s" and none: "find_free s 0 = None" and i: "i < slot_size s"
  shows "slot s ! i \<noteq> None"
proof -
  obtain k where k: "k \<le> 24" "slot_size s = 2 ^ k" using handles_okE [OF ok] by metis
  let ?n = "2 ^ k" and ?x = "unat (handle_index s)"
  define j where "j = (i + (?n - ?x mod ?n)) mod ?n"
  have "j < ?n" by (simp add: j_def)
  moreover have "(j + ?x) mod ?n = i"
  proof -
    have xm: "?x mod ?n < ?n" by simp
    have "(j + ?x) mod ?n = (i + (?n - ?x mod ?n) + ?x mod ?n) mod ?n"
      by (simp add: j_def mod_simps)
    also have "i + (?n - ?x mod ?n) + ?x mod ?n = i + ?n" using xm by linarith
    finally show ?thesis using i k(2) by simp
  qed
  ultimately show ?thesis
    using find_free_None [OF none, of j] k probe_hash [OF k(1), of j "handle_index s"] by simp
qed

subsection \<open>Doubling the table\<close>

lemma rehash_ok:
  assumes "distinct (map (\<lambda>c. slot_hash (ch c) n) cs)"
    "\<And>c. c \<in> set cs \<Longrightarrow> slot_hash (ch c) n < length ns \<and> ns ! slot_hash (ch c) n = None"
  shows "\<exists>ns'. rehash ch n (map Some cs) ns = Some ns' \<and> length ns' = length ns \<and>
    (\<forall>c \<in> set cs. ns' ! slot_hash (ch c) n = Some c) \<and>
    (\<forall>i. i \<notin> (\<lambda>c. slot_hash (ch c) n) ` set cs \<longrightarrow> ns' ! i = ns ! i)"
  using assms
proof (induction cs arbitrary: ns)
  case Nil
  then show ?case by simp
next
  case (Cons c cs)
  let ?h = "\<lambda>c. slot_hash (ch c) n" and ?ns = "ns[slot_hash (ch c) n := Some c]"
  have c: "?h c < length ns" "ns ! ?h c = None" using Cons.prems(2) [of c] by simp_all
  have d: "?h d < length ?ns \<and> ?ns ! ?h d = None" if "d \<in> set cs" for d
    using Cons.prems that by (auto simp: nth_list_update)
  obtain ns' where ns': "rehash ch n (map Some cs) ?ns = Some ns'" "length ns' = length ns"
    "\<forall>c \<in> set cs. ns' ! ?h c = Some c" "\<forall>i. i \<notin> ?h ` set cs \<longrightarrow> ns' ! i = ?ns ! i"
    using Cons.IH [OF _ d] Cons.prems(1) by auto
  have "ns' ! ?h c = Some c" using ns'(4) Cons.prems(1) c by auto
  moreover have "rehash ch n (map Some (c # cs)) ns = Some ns'"
    using ns'(1) c by simp
  ultimately show ?case using ns' by (intro exI [of _ ns']) (auto simp: nth_list_update)
qed

lemma full_slots:
  assumes "handles_ok ch s" "\<And>i. i < slot_size s \<Longrightarrow> slot s ! i \<noteq> None"
  obtains cs where "slot s = map Some cs" "length cs = slot_size s"
proof -
  have "slot s = map Some (map the (slot s))"
    using assms by (auto simp: handles_ok_def intro!: nth_equalityI)
  then show thesis using that [of "map the (slot s)"] assms by (simp add: handles_ok_def)
qed

lemma slot_hash_double:
  assumes "Suc k \<le> 24"
  shows "slot_hash h (2 ^ Suc k) mod 2 ^ k = slot_hash h (2 ^ k)"
    "slot_hash h (2 ^ Suc k) < 2 ^ Suc k"
  using slot_hash_mod [OF assms, of h] slot_hash_mod [of k h] assms
    mod_mod_cancel [of "2 ^ k" "2 ^ Suc k" "unat h"] le_imp_power_dvd [of k "Suc k" "2::nat"]
  by (simp_all del: power_Suc)

lemma expand_slots_ok:
  assumes ok: "handles_ok ch s" and full: "\<And>i. i < slot_size s \<Longrightarrow> slot s ! i \<noteq> None"
    and room: "slot_size s * 2 \<le> 2 ^ 24"
  shows "\<exists>s'. expand_slots ch s = Some s' \<and> handles_ok ch s' \<and> handle_map ch s' = handle_map ch s \<and>
    (\<forall>c. Some c \<in> set (slot s') \<longleftrightarrow> Some c \<in> set (slot s)) \<and> (\<exists>i < slot_size s'. slot s' ! i = None) \<and>
    name s' = name s \<and> name_count s' = name_count s \<and> name_cap s' = name_cap s \<and>
    harbor s' = harbor s"
proof -
  obtain k where k: "k \<le> 24" "slot_size s = 2 ^ k" using handles_okE [OF ok] by metis
  have k2: "slot_size s * 2 = 2 ^ Suc k" "Suc k \<le> 24"
  proof -
    show e: "slot_size s * 2 = 2 ^ Suc k" using k by simp
    have "(2::nat) ^ Suc k \<le> 2 ^ 24" using room unfolding e .
    then show "Suc k \<le> 24" by (rule power_le_imp_le_exp [rotated]) simp
  qed
  let ?n = "slot_size s * 2" and ?h = "\<lambda>c. slot_hash (ch c) (slot_size s * 2)"
  obtain cs where cs: "slot s = map Some cs" "length cs = slot_size s"
    using full_slots [OF ok full] by metis
  have place: "slot_hash (ch (cs ! i)) (slot_size s) = i" if "i < length cs" for i
    using ok cs that by (auto simp: handles_ok_def)
  have mod2: "?h c mod slot_size s = slot_hash (ch c) (slot_size s)" for c
    using slot_hash_double(1) [OF k2(2)] k(2) by (simp add: mult.commute)
  have dist: "distinct (map ?h cs)"
    unfolding distinct_conv_nth using place mod2 by (metis length_map nth_map)
  have lt: "?h c < ?n" for c using slot_hash_double(2) [OF k2(2), of "ch c"] unfolding k2(1) .
  obtain ns where ns: "rehash ch ?n (slot s) (replicate ?n None) = Some ns" "length ns = ?n"
    "\<forall>c \<in> set cs. ns ! ?h c = Some c" "\<forall>i. i \<notin> ?h ` set cs \<longrightarrow> ns ! i = replicate ?n None ! i"
    using rehash_ok [OF dist, of "replicate ?n None"] lt cs by auto
  let ?s = "s\<lparr>slot := ns, slot_size := ?n\<rparr>"
  have ex: "expand_slots ch s = Some ?s"
    using ns room by (simp add: expand_slots_def HANDLE_MASK_def)
  have entry: "ns ! i = Some c \<longleftrightarrow> c \<in> set cs \<and> ?h c = i" if "i < ?n" for i c
    using ns(3,4) that by (cases "i \<in> ?h ` set cs") auto
  have old: "Some c \<in> set (slot s) \<longleftrightarrow> c \<in> set cs" for c using cs(1) by auto
  have mem: "Some c \<in> set ns \<longleftrightarrow> Some c \<in> set (slot s)" for c
  proof
    assume "Some c \<in> set ns"
    then obtain i where "i < ?n" "ns ! i = Some c" using ns(2) by (metis in_set_conv_nth)
    then show "Some c \<in> set (slot s)" using entry old by blast
  next
    assume "Some c \<in> set (slot s)"
    then have "ns ! ?h c = Some c" using ns(3) old by blast
    then show "Some c \<in> set ns" using nth_mem [of "?h c" ns] lt ns(2) by simp
  qed
  have harb: "(ch c AND NOT HANDLE_MASK) = harbor s" if "Some c \<in> set (slot s)" for c
    using that ok by (metis handles_ok_def in_set_conv_nth)
  have ok': "handles_ok ch ?s"
    unfolding handles_ok_def
  proof (intro conjI allI impI)
    show "\<exists>k \<le> 24. slot_size ?s = 2 ^ k" using k2 by (intro exI [of _ "Suc k"]) simp
    show "take_bit 24 (harbor ?s) = 0" using ok by (simp add: handles_ok_def)
    fix i c assume "i < slot_size ?s" "slot ?s ! i = Some c"
    then have "c \<in> set cs" "?h c = i" using entry [of i c] by simp_all
    then show "slot_hash (ch c) (slot_size ?s) = i" "(ch c AND NOT HANDLE_MASK) = harbor ?s"
      using old harb by simp_all
  qed (use ns(2) in simp)
  have "handle_map ch ?s h = handle_map ch s h" for h
    using handle_map_iff [OF ok, of h] handle_map_iff [OF ok', of h] mem
    by (intro option_eqI) simp
  moreover have "\<exists>i < ?n. ns ! i = None"
  proof -
    have "card (?h ` set cs) \<le> slot_size s" using card_image_le [of "set cs" ?h] card_length [of cs] cs
      by (metis List.finite_set order_trans)
    also have "slot_size s < card {..<?n}" using k by simp
    finally obtain i where "i < ?n" "i \<notin> ?h ` set cs"
      by (metis card_mono finite_lessThan finite_imageI List.finite_set lessThan_iff linorder_not_less subsetI)
    then show ?thesis using ns(4) by auto
  qed
  ultimately show ?thesis using ex ok' mem by (intro exI [of _ ?s]) (auto simp: fun_eq_iff)
qed

subsection \<open>Registering\<close>

lemma handle_with_harbor:
  assumes "handle AND HANDLE_MASK = handle" "take_bit 24 hb = 0"
  shows "(handle OR hb) AND NOT HANDLE_MASK = hb"
    "k \<le> 24 \<Longrightarrow> slot_hash (handle OR hb) (2 ^ k) = slot_hash handle (2 ^ k)"
proof -
  have hb: "hb AND NOT HANDLE_MASK = hb"
    using assms(2) by (metis HANDLE_MASK_mask and.right_neutral bit.compl_zero bit.conj_disj_distrib
      bit.disj_cancel_right or.left_neutral take_bit_eq_mask)
  have "handle AND NOT HANDLE_MASK = 0" using assms(1) by (metis and.assoc and_zero_eq bit.conj_cancel_right)
  then show "(handle OR hb) AND NOT HANDLE_MASK = hb" using hb by (simp add: bit.conj_disj_distrib2)
  assume k: "k \<le> 24"
  have "take_bit k hb = take_bit k (take_bit 24 hb)" using k by simp
  then have "take_bit k hb = 0" using assms(2) by simp
  then show "slot_hash (handle OR hb) (2 ^ k) = slot_hash handle (2 ^ k)"
    using k by (simp add: slot_hash_pow2)
qed

lemma register_place:
  assumes ok: "handles_ok ch s" and new: "Some ctx \<notin> set (slot s)"
    and hash: "hash = slot_hash handle (slot_size s)" "slot s ! hash = None" "handle AND HANDLE_MASK = handle"
  defines "h \<equiv> handle OR harbor s" and "s' \<equiv> s\<lparr>slot := (slot s)[hash := Some ctx], handle_index := handle + 1\<rparr>"
  shows "handles_ok (ch(ctx := h)) s'" "handle_map ch s h = None"
    "handle_map (ch(ctx := h)) s' = (handle_map ch s)(h \<mapsto> ctx)"
proof -
  obtain k where k: "k \<le> 24" "slot_size s = 2 ^ k" using handles_okE [OF ok] by metis
  have hb: "take_bit 24 (harbor s) = 0" using ok by (simp add: handles_ok_def)
  have h: "slot_hash h (slot_size s) = hash" "h AND NOT HANDLE_MASK = harbor s"
    using handle_with_harbor [OF hash(3) hb] k hash(1) by (simp_all add: h_def)
  have len: "hash < length (slot s)" using slot_in_range [OF ok, of handle] hash(1) by simp
  show none: "handle_map ch s h = None" using handle_map_None [OF ok] h(1) hash(2) by simp
  show ok': "handles_ok (ch(ctx := h)) s'"
    unfolding handles_ok_def
  proof (intro conjI allI impI)
    fix i c assume i: "i < slot_size s'" "slot s' ! i = Some c"
    have "slot s ! i \<noteq> Some ctx" if "i < length (slot s)" using that new by (metis nth_mem)
    then have "c = ctx \<and> i = hash \<or> c \<noteq> ctx \<and> i < slot_size s \<and> slot s ! i = Some c"
      using i len ok
      by (auto simp: s'_def nth_list_update handles_ok_def split: if_splits)
    then show "slot_hash ((ch(ctx := h)) c) (slot_size s') = i" "((ch(ctx := h)) c AND NOT HANDLE_MASK) = harbor s'"
      using ok h by (auto simp: s'_def handles_ok_def)
  qed (use ok k in \<open>auto simp: s'_def handles_ok_def\<close>)
  have mem: "Some c \<in> set (slot s') \<longleftrightarrow> c = ctx \<or> Some c \<in> set (slot s)" for c
    using set_fill_cell [OF len hash(2)] by (simp add: s'_def)
  have "handle_map (ch(ctx := h)) s' x = ((handle_map ch s)(h \<mapsto> ctx)) x" for x
  proof (rule option_eqI)
    fix c
    have "handle_map ch s h \<noteq> Some c" using none by simp
    then have "Some c \<in> set (slot s) \<Longrightarrow> ch c \<noteq> h" using handle_map_iff [OF ok, of h c] by blast
    then show "handle_map (ch(ctx := h)) s' x = Some c \<longleftrightarrow> ((handle_map ch s)(h \<mapsto> ctx)) x = Some c"
      using handle_map_iff [OF ok', of x c] handle_map_iff [OF ok, of x c] mem [of c] new by auto
  qed
  then show "handle_map (ch(ctx := h)) s' = (handle_map ch s)(h \<mapsto> ctx)" by (rule ext)
qed

definition same_names :: "handle_storage \<Rightarrow> handle_storage \<Rightarrow> bool" where
  "same_names s s' \<longleftrightarrow> name s' = name s \<and> name_count s' = name_count s \<and> name_cap s' = name_cap s"

definition has_room :: "handle_storage \<Rightarrow> bool" where
  "has_room s \<longleftrightarrow> slot_size s * 2 \<le> 2 ^ 24 \<or> None \<in> set (slot s)"

lemma register_step:
  assumes "handles_ok ch s" "Some ctx \<notin> set (slot s)" "find_free s 0 \<noteq> None"
  shows "\<exists>h s'. ztask_handle_register ch ctx s = Some (h, s') \<and> handles_ok (ch(ctx := h)) s' \<and>
    handle_map ch s h = None \<and> handle_map (ch(ctx := h)) s' = (handle_map ch s)(h \<mapsto> ctx) \<and>
    same_names s s' \<and> harbor s' = harbor s"
proof -
  obtain handle hash where f: "find_free s 0 = Some (handle, hash)" using assms(3) by auto
  have a: "hash = slot_hash handle (slot_size s)" "slot s ! hash = None" "handle AND HANDLE_MASK = handle"
    using find_free_Some [OF f] by blast+
  show ?thesis
    using register_place [OF assms(1,2) a]
    by (subst ztask_handle_register.simps) (simp add: f same_names_def)
qed

lemma register_spec:
  assumes "handles_ok ch s" "Some ctx \<notin> set (slot s)" "has_room s"
  shows "\<exists>h s'. ztask_handle_register ch ctx s = Some (h, s') \<and> handles_ok (ch(ctx := h)) s' \<and>
    handle_map ch s h = None \<and> handle_map (ch(ctx := h)) s' = (handle_map ch s)(h \<mapsto> ctx) \<and>
    same_names s s' \<and> harbor s' = harbor s"
proof (cases "find_free s 0")
  case None
  have full: "slot s ! i \<noteq> None" if "i < slot_size s" for i
    using find_free_full [OF assms(1) None that] .
  then have "None \<notin> set (slot s)" using assms(1) by (metis handles_ok_def in_set_conv_nth)
  then have "slot_size s * 2 \<le> 2 ^ 24" using assms(3) by (simp add: has_room_def)
  from expand_slots_ok [OF assms(1) full this] obtain s1 where s1:
    "expand_slots ch s = Some s1" "handles_ok ch s1" "handle_map ch s1 = handle_map ch s"
    "\<And>c. Some c \<in> set (slot s1) \<longleftrightarrow> Some c \<in> set (slot s)" "\<exists>i < slot_size s1. slot s1 ! i = None"
    "same_names s s1" "harbor s1 = harbor s" by (auto simp: same_names_def)
  have "find_free s1 0 \<noteq> None" using find_free_full [OF s1(2)] s1(5) by blast
  from register_step [OF s1(2) _ this, of ctx] s1 assms(2) None show ?thesis
    by (subst ztask_handle_register.simps) (auto simp: same_names_def)
qed (use register_step [OF assms(1,2)] in simp)

lemma rehash_cong:
  "\<forall>c. Some c \<in> set cells \<longrightarrow> ch c = ch' c \<Longrightarrow> rehash ch n cells ns = rehash ch' n cells ns"
proof (induction cells arbitrary: ns)
  case (Cons x cells)
  then show ?case by (cases x) (auto simp: Let_def split: Option.bind_splits)
qed simp

lemma register_agrees:
  assumes ok: "handles_ok issued s" and new: "Some ctx \<notin> set (slot s)" and room: "has_room s"
    and agree: "None \<in> set (slot s) \<or> (\<forall>c. Some c \<in> set (slot s) \<longrightarrow> ch c = issued c)"
  shows "ztask_handle_register ch ctx s = ztask_handle_register issued ctx s"
proof (cases "find_free s 0")
  case None
  have full: "slot s ! i \<noteq> None" if "i < slot_size s" for i using find_free_full [OF ok None that] .
  then have "None \<notin> set (slot s)" using ok by (metis handles_ok_def in_set_conv_nth)
  then have le: "slot_size s * 2 \<le> 2 ^ 24" and "rehash ch n (slot s) ns = rehash issued n (slot s) ns" for n ns
    using agree room rehash_cong [of "slot s" ch issued] by (auto simp: has_room_def)
  then have e: "expand_slots ch s = expand_slots issued s" by (simp add: expand_slots_def)
  obtain s1 where s1: "expand_slots issued s = Some s1" "handles_ok issued s1" "\<exists>i < slot_size s1. slot s1 ! i = None"
    using expand_slots_ok [OF ok full le] by blast
  have "find_free s1 0 \<noteq> None" using find_free_full [OF s1(2)] s1(3) by blast
  then have "ztask_handle_register ch ctx s1 = ztask_handle_register issued ctx s1"
    by (subst (1 2) ztask_handle_register.simps) auto
  then show ?thesis using None e s1(1) by (subst (1 2) ztask_handle_register.simps) simp
next
  case (Some r)
  then show ?thesis by (subst (1 2) ztask_handle_register.simps) (simp split: prod.split)
qed

text \<open>(C8) Registering a context that is not in the table returns, when the table has fewer than \<open>2 ^ 24\<close> slots or a
  free one, and either has a free slot or every context in it already stores the handle it was given (a
  registration that another thread has not finished storing is harmless while there is a free slot; what it does
  in a full table is the theorem after this one). The returned handle belonged to nobody, the table now maps it to the
  context, every other handle keeps its context, the representation invariant holds again and the names are
  untouched; no assertion of the doubling fails.\<close>

theorem handle_register_fresh:
  assumes "handles_ok issued s" "Some ctx \<notin> set (slot s)" "has_room s"
    "None \<in> set (slot s) \<or> (\<forall>c. Some c \<in> set (slot s) \<longrightarrow> ch c = issued c)"
  shows "\<exists>h s'. ztask_handle_register ch ctx s = Some (h, s') \<and> handles_ok (issued(ctx := h)) s' \<and>
    handle_map issued s h = None \<and> handle_map (issued(ctx := h)) s' = (handle_map issued s)(h \<mapsto> ctx) \<and>
    same_names s s' \<and> harbor s' = harbor s"
  unfolding register_agrees [OF assms] by (rule register_spec [OF assms(1-3)])

subsection \<open>A registration that is not finished\<close>






section \<open>The names as a finite map\<close>

definition names :: "handle_storage \<Rightarrow> handle_name list" where
  "names s = map the (take (name_count s) (name s))"

definition name_map :: "handle_storage \<Rightarrow> string \<Rightarrow> u32 option" where
  "name_map s = map_of (map (\<lambda>n. (hn_name n, hn_handle n)) (names s))"

definition names_ok :: "handle_storage \<Rightarrow> bool" where
  "names_ok s \<longleftrightarrow> 0 < name_cap s \<and> name_count s \<le> name_cap s \<and> length (name s) = name_cap s \<and>
     None \<notin> set (take (name_count s) (name s)) \<and> strcmp.ordered (map hn_name (names s))"

lemma length_names: "names_ok s \<Longrightarrow> length (names s) = name_count s"
  by (simp add: names_ok_def names_def)

lemma names_cell:
  assumes "names_ok s" "i < name_count s"
  shows "name s ! i = Some (names s ! i)"
proof -
  have "take (name_count s) (name s) ! i \<noteq> None"
    using assms by (metis length_take min.absorb2 names_ok_def nth_mem)
  then show ?thesis using assms by (simp add: names_def names_ok_def)
qed

lemma same_names_ok: "same_names s s' \<Longrightarrow> names_ok s' = names_ok s \<and> names s' = names s"
  by (simp add: same_names_def names_ok_def names_def)

subsection \<open>Retiring\<close>

lemma compact_names_ok:
  assumes "j \<le> i" "i \<le> n" "n \<le> length ns" "\<And>m. i \<le> m \<Longrightarrow> m < n \<Longrightarrow> ns ! m = Some (xs ! m)"
    "length xs = n"
  shows "\<exists>j' ns'. compact_names h n i j ns = Some (j', ns') \<and> length ns' = length ns \<and> j' \<le> n \<and>
    take j' ns' = take j ns @ map Some (filter (\<lambda>x. hn_handle x \<noteq> h) (drop i xs))"
  using assms
proof (induction h n i j ns rule: compact_names.induct)
  case (1 h n i j ns)
  show ?case
  proof (cases "i < n")
    case False
    then show ?thesis using "1.prems" by (simp add: compact_names.simps)
  next
    case True
    have i: "i < length ns" "ns ! i = Some (xs ! i)" "drop i xs = xs ! i # drop (Suc i) xs"
      using True "1.prems" by (simp_all add: Cons_nth_drop_Suc)
    show ?thesis
    proof (cases "hn_handle (xs ! i) = h")
      case True
      then show ?thesis
        using "1.IH"(1) [OF \<open>i < n\<close> _ _ True] "1.prems" i \<open>i < n\<close>
        by (subst compact_names.simps) simp
    next
      case False
      define ns1 where "ns1 = (if i \<noteq> j then ns[j := Some (xs ! i)] else ns)"
      have len: "length ns1 = length ns" by (simp add: ns1_def)
      have "take (Suc j) ns1 = take j ns @ [Some (xs ! i)]"
        using "1.prems"(1) i by (auto simp: take_Suc_conv_app_nth ns1_def)
      moreover have "ns1 ! m = Some (xs ! m)" if "Suc i \<le> m" "m < n" for m
        using that "1.prems"(1,4) by (auto simp: ns1_def)
      ultimately have "\<exists>j' ns'. compact_names h n (Suc i) (Suc j) ns1 = Some (j', ns') \<and>
        length ns' = length ns \<and> j' \<le> n \<and>
        take j' ns' = take j ns @ Some (xs ! i) # map Some (filter (\<lambda>x. hn_handle x \<noteq> h) (drop (Suc i) xs))"
        using "1.IH"(2) [OF \<open>i < n\<close> _ _ False, of "ns ! i"] "1.prems" i \<open>i < n\<close> len
        by (simp add: ns1_def [symmetric])
      then show ?thesis
        using i \<open>i < n\<close> False
        by (subst compact_names.simps) (simp add: ns1_def [symmetric] split del: if_split)
    qed
  qed
qed

lemma ordered_filter: "sorted_wrt P (map f xs) \<Longrightarrow> sorted_wrt P (map f (filter Q xs))"
  by (induction xs) auto

lemma handle_map_clear:
  fixes j :: nat and ns :: "handle_name option list"
  assumes ok: "handles_ok ch s" and c: "handle_map ch s h = Some ctx"
  defines "s' \<equiv> s\<lparr>slot := (slot s)[slot_hash h (slot_size s) := None], name_count := j, name := ns\<rparr>"
  shows "handles_ok ch s'" "handle_map ch s' = (handle_map ch s)(h := None)"
proof -
  let ?i = "slot_hash h (slot_size s)"
  have len: "?i < length (slot s)" using slot_in_range [OF ok] .
  show ok': "handles_ok ch s'"
    unfolding handles_ok_def
  proof (intro conjI allI impI)
    fix i c assume "i < slot_size s'" "slot s' ! i = Some c"
    then have "i < slot_size s" "slot s ! i = Some c"
      using len by (simp_all add: s'_def nth_list_update split: if_splits)
    then show "slot_hash (ch c) (slot_size s') = i" "(ch c AND NOT HANDLE_MASK) = harbor s'"
      using ok by (simp_all add: s'_def handles_ok_def)
  qed (use ok in \<open>simp_all add: s'_def handles_ok_def\<close>)
  have cell: "slot s ! ?i = Some ctx" "ch ctx = h"
    using c by (simp_all add: handle_map_def split: option.splits if_splits)
  have "handle_map ch s' x = ((handle_map ch s)(h := None)) x" for x
  proof (cases "slot_hash x (slot_size s) = ?i")
    case True
    then show ?thesis using cell len by (simp add: handle_map_def s'_def)
  next
    case False
    then show ?thesis by (auto simp: handle_map_def s'_def)
  qed
  then show "handle_map ch s' = (handle_map ch s)(h := None)" by (rule ext)
qed

text \<open>(C9) Retiring a handle never aborts: it returns the context the handle named, if any; then
  that handle names nothing, every other handle keeps its context, and exactly the names
  given to the handle have disappeared, the others in their order. A handle that names
  nothing changes nothing.\<close>

theorem handle_retire_unmaps:
  assumes "handles_ok ch s" "names_ok s"
  shows "\<exists>s'. ztask_handle_retire ch h s = Some (handle_map ch s h, s') \<and> handles_ok ch s' \<and> names_ok s' \<and>
    handle_map ch s' = (handle_map ch s)(h := None) \<and>
    names s' = (if handle_map ch s h = None then names s
                else filter (\<lambda>n. hn_handle n \<noteq> h) (names s))"
proof (cases "handle_map ch s h")
  case None
  have "ztask_handle_retire ch h s = Some (None, s)"
    using None slot_in_range [OF assms(1), of h]
    by (auto simp: ztask_handle_retire_def handle_map_def Let_def split: option.splits if_splits)
  then show ?thesis using None assms by (simp add: fun_upd_idem)
next
  case (Some ctx)
  obtain j ns where j: "compact_names h (name_count s) 0 0 (name s) = Some (j, ns)"
    "length ns = length (name s)" "j \<le> name_count s"
    "take j ns = map Some (filter (\<lambda>x. hn_handle x \<noteq> h) (names s))"
    using compact_names_ok [of 0 0 "name_count s" "name s" "names s" h] names_cell [OF assms(2)]
      length_names [OF assms(2)] assms(2) by (auto simp: names_ok_def)
  let ?s = "s\<lparr>slot := (slot s)[slot_hash h (slot_size s) := None], name_count := j, name := ns\<rparr>"
  have r: "ztask_handle_retire ch h s = Some (Some ctx, ?s)"
    using Some slot_in_range [OF assms(1), of h] j(1)
    by (auto simp: ztask_handle_retire_def handle_map_def Let_def split: option.splits if_splits)
  have n: "names ?s = filter (\<lambda>n. hn_handle n \<noteq> h) (names s)"
    using j(4) by (simp add: names_def comp_def)
  have "names_ok ?s"
    using assms(2) j n by (auto simp: names_ok_def ordered_filter)
  then show ?thesis using r n Some handle_map_clear [OF assms(1) Some, where j = j and ns = ns] by auto
qed

subsection \<open>Searching a name\<close>

text \<open>Where a key is, or belongs, in a sorted list of names.\<close>

definition splits_at :: "handle_name list \<Rightarrow> string \<Rightarrow> nat \<Rightarrow> bool" where
  "splits_at xs key p \<longleftrightarrow> p \<le> length xs \<and> (\<forall>i < p. strcmp (hn_name (xs ! i)) key < 0) \<and>
     (\<forall>i. p \<le> i \<and> i < length xs \<longrightarrow> 0 < strcmp (hn_name (xs ! i)) key)"

lemma name_search_ok:
  assumes "strcmp.ordered (map hn_name xs)" "\<And>i. i < length xs \<Longrightarrow> i < length ns \<and> ns ! i = Some (xs ! i)"
    "0 \<le> lo" "lo \<le> hi + 1" "hi < int (length xs)"
    "\<And>i. int i < lo \<Longrightarrow> strcmp (hn_name (xs ! i)) key < 0"
    "\<And>i. hi < int i \<Longrightarrow> i < length xs \<Longrightarrow> 0 < strcmp (hn_name (xs ! i)) key"
  shows "(\<exists>n \<in> set xs. name_search ns key lo hi = Some (Found n) \<and> hn_name n = key) \<or>
    (\<exists>p. name_search ns key lo hi = Some (Absent p) \<and> splits_at xs key p)"
  using assms
proof (induction ns key lo hi rule: name_search.induct)
  case (1 ns key lo hi)
  show ?case
  proof (cases "lo \<le> hi")
    case False
    then have "splits_at xs key (nat lo)" using "1.prems" by (auto simp: splits_at_def)
    then show ?thesis using False by (simp add: name_search.simps)
  next
    case True
    define mid where "mid = (lo + hi) div 2"
    let ?m = "nat mid"
    have mid: "lo \<le> mid" "mid \<le> hi" using True by (auto simp: mid_def)
    have m: "?m < length xs" "?m < length ns" "ns ! ?m = Some (xs ! ?m)"
      using mid "1.prems"(2) [of ?m] "1.prems"(3,5) by auto
    let ?c = "strcmp (hn_name (xs ! ?m)) key"
    have step: "name_search ns key lo hi =
        (if ?c = 0 then Some (Found (xs ! ?m))
         else if ?c < 0 then name_search ns key (mid + 1) hi else name_search ns key lo (mid - 1))"
      using True m by (simp add: name_search.simps [of ns key lo hi] Let_def mid_def [symmetric])
    consider "?c = 0" | "?c < 0" | "0 < ?c" by linarith
    then show ?thesis
    proof cases
      case 1
      then show ?thesis using step m(1) by (auto simp: strcmp_eq_0)
    next
      case 2
      have b: "strcmp (hn_name (xs ! i)) key < 0" if "int i < mid + 1" for i
        using strcmp.below_mid [of "map hn_name xs" ?m key i] "1.prems"(1) m(1) 2 that mid by simp
      show ?thesis
        using "1.IH"(1) [OF True mid_def _ _ refl _ 2] 2 step m mid "1.prems" b by (simp add: strcmp_eq_0)
    next
      case 3
      have a: "0 < strcmp (hn_name (xs ! i)) key" if "mid - 1 < int i" "i < length xs" for i
        using strcmp.above_mid [of "map hn_name xs" ?m key i] "1.prems"(1) m(1) 3 that mid by simp
      have st: "name_search ns key lo hi = name_search ns key lo (mid - 1)" using step 3 by simp
      show ?thesis
        unfolding st using "1.IH"(2) [OF True mid_def _ _ refl] 3 m mid "1.prems" a by simp
    qed
  qed
qed

lemma search_names:
  assumes "names_ok s"
  shows "(\<exists>n \<in> set (names s). name_search (name s) key 0 (int (name_count s) - 1) = Some (Found n) \<and> hn_name n = key) \<or>
    (\<exists>p. name_search (name s) key 0 (int (name_count s) - 1) = Some (Absent p) \<and> splits_at (names s) key p)"
  using assms names_cell [OF assms] length_names [OF assms]
  by (intro name_search_ok) (auto simp: names_ok_def)

lemma name_map_Some:
  assumes "names_ok s" "n \<in> set (names s)"
  shows "name_map s (hn_name n) = Some (hn_handle n)"
proof -
  have "distinct (map hn_name (names s))" using assms(1) strcmp.ordered_distinct by (auto simp: names_ok_def)
  then show ?thesis using assms(2) by (auto simp: name_map_def comp_def intro!: map_of_is_SomeI)
qed

lemma name_map_None:
  assumes "splits_at (names s) key p"
  shows "name_map s key = None"
proof -
  have "hn_name (names s ! i) \<noteq> key" if "i < length (names s)" for i
    using assms that unfolding splits_at_def by (metis less_irrefl not_le_imp_less strcmp_eq_0)
  then have "key \<notin> hn_name ` set (names s)" by (metis imageE in_set_conv_nth)
  then show ?thesis by (simp add: name_map_def map_of_eq_None_iff image_image)
qed

lemma handle_findname_spec:
  assumes "names_ok s"
  shows "ztask_handle_findname key s = Some (case name_map s key of Some h \<Rightarrow> h | None \<Rightarrow> 0)"
  using search_names [OF assms, of key] name_map_Some [OF assms] name_map_None
  by (auto simp: ztask_handle_findname_def)

text \<open>(C10) The binary search of \<^verbatim>\<open>ztask_handle_findname\<close> terminates inside the array and returns
  the handle registered under the name, 0 when there is none.\<close>

theorem handle_findname_correct:
  assumes "names_ok s"
  shows "ztask_handle_findname key s = Some (case name_map s key of Some h \<Rightarrow> h | None \<Rightarrow> 0)"
  by (rule handle_findname_spec [OF assms])

subsection \<open>Adding a name\<close>

lemma shift_names_ok:
  assumes "n < length xs" "b \<le> n"
  shows "\<exists>ys. shift_names n b xs = Some ys \<and> length ys = length xs \<and>
    (\<forall>i < length xs. ys ! i = (if b < i \<and> i \<le> n then xs ! (i - 1) else xs ! i))"
  using assms
proof (induction n arbitrary: xs)
  case (Suc n)
  show ?case
  proof (cases "b = Suc n")
    case False
    let ?xs = "xs[Suc n := xs ! n]"
    obtain ys where ys: "shift_names n b ?xs = Some ys" "length ys = length xs"
      "\<forall>i < length xs. ys ! i = (if b < i \<and> i \<le> n then ?xs ! (i - 1) else ?xs ! i)"
      using Suc.IH [of ?xs] Suc.prems False by auto
    have "ys ! i = (if b < i \<and> i \<le> Suc n then xs ! (i - 1) else xs ! i)" if "i < length xs" for i
      using ys(3) Suc.prems False that by (auto simp: nth_list_update le_Suc_eq)
    then show ?thesis using ys Suc.prems False by auto
  qed auto
qed auto

lemma insert_name_before_cells:
  assumes "names_ok s" "p \<le> name_count s" "name_cap s * 2 \<le> MAX_SLOT_SIZE \<or> name_count s < name_cap s"
  shows "\<exists>s'. insert_name_before key h p s = Some s' \<and> name_count s' = Suc (name_count s) \<and>
    0 < name_cap s' \<and> name_count s' \<le> name_cap s' \<and> length (name s') = name_cap s' \<and>
    take (name_count s') (name s') = map Some (take p (names s) @ \<lparr>hn_name = key, hn_handle = h\<rparr> # drop p (names s)) \<and>
    s'\<lparr>name := name s, name_count := name_count s, name_cap := name_cap s\<rparr> = s"
proof (cases "name_count s < name_cap s")
  case False
  let ?n = "name_count s" and ?e = "\<lparr>hn_name = key, hn_handle = h\<rparr>"
  have n: "?n = name_cap s" "length (name s) = ?n" "0 < ?n" using assms(1) False by (auto simp: names_ok_def)
  have sm: "name s = map Some (names s)"
    using names_cell [OF assms(1)] length_names [OF assms(1)] n by (intro nth_equalityI) auto
  have l: "length (names s) = name_cap s" using length_names [OF assms(1)] n by simp
  show ?thesis
    using assms(2,3) n l
    by (simp add: insert_name_before_def sm take_map drop_map list_update_append Suc_diff_le)
next
  case True
  let ?n = "name_count s" and ?e = "\<lparr>hn_name = key, hn_handle = h\<rparr>"
  have n: "?n < length (name s)" "length (name s) = name_cap s" using assms(1) True by (auto simp: names_ok_def)
  obtain ys where ys: "shift_names ?n p (name s) = Some ys" "length ys = length (name s)"
    "\<forall>i < length (name s). ys ! i = (if p < i \<and> i \<le> ?n then name s ! (i - 1) else name s ! i)"
    using shift_names_ok [OF n(1) assms(2)] by blast
  let ?s = "s\<lparr>name := ys[p := Some ?e], name_count := Suc ?n\<rparr>"
  have "take (Suc ?n) (ys[p := Some ?e]) = map Some (take p (names s) @ ?e # drop p (names s))" (is "?l = ?r")
  proof (rule nth_equalityI)
    show "length ?l = length ?r" using ys(2) n assms(2) length_names [OF assms(1)] by simp
    fix i assume "i < length ?l"
    then have i: "i \<le> ?n" "i < length ys" using ys(2) n by simp_all
    consider "i < p" | "i = p" | q where "i = Suc (p + q)"
      by (metis add_Suc_right less_imp_Suc_add linorder_neqE_nat)
    then show "?l ! i = ?r ! i"
      using i ys n assms(2) length_names [OF assms(1)] names_cell [OF assms(1), of i]
        names_cell [OF assms(1), of "i - 1"]
      by cases (simp_all add: nth_append nth_list_update min_def)
  qed
  moreover have "insert_name_before key h p s = Some ?s"
    using True ys(1,2) assms(2) n by (simp add: insert_name_before_def)
  ultimately show ?thesis using True n ys(2) by (intro exI [of _ ?s]) simp
qed

lemma insert_name_before_ok:
  assumes ok: "names_ok s" and at: "splits_at (names s) key p"
    and room: "name_cap s * 2 \<le> MAX_SLOT_SIZE \<or> name_count s < name_cap s"
  shows "\<exists>s'. insert_name_before key h p s = Some s' \<and> names_ok s' \<and>
    name_map s' = (name_map s)(key \<mapsto> h) \<and>
    s'\<lparr>name := name s, name_count := name_count s, name_cap := name_cap s\<rparr> = s"
proof -
  let ?e = "\<lparr>hn_name = key, hn_handle = h\<rparr>" and ?l = "take p (names s)" and ?r = "drop p (names s)"
  have p: "p \<le> name_count s" using at length_names [OF ok] by (simp add: splits_at_def)
  obtain s' where s': "insert_name_before key h p s = Some s'" "name_count s' = Suc (name_count s)"
    "0 < name_cap s'" "name_count s' \<le> name_cap s'" "length (name s') = name_cap s'"
    "take (name_count s') (name s') = map Some (?l @ ?e # ?r)"
    "s'\<lparr>name := name s, name_count := name_count s, name_cap := name_cap s\<rparr> = s"
    using insert_name_before_cells [OF ok p room] by blast
  have ns: "names s' = ?l @ ?e # ?r" using s'(6) by (simp add: names_def comp_def)
  have "strcmp.ordered (map hn_name ?l @ key # map hn_name ?r)"
  proof (rule strcmp.ordered_insert)
    show "strcmp.ordered (map hn_name ?l @ map hn_name ?r)"
      using ok by (simp add: names_ok_def flip: map_append)
    show "\<forall>x \<in> set (map hn_name ?l). strcmp x key < 0"
      using at by (auto simp: splits_at_def in_set_conv_nth)
    show "\<forall>y \<in> set (map hn_name ?r). 0 < strcmp y key"
      using at by (auto simp: splits_at_def in_set_conv_nth)
  qed
  then have ok': "names_ok s'" using s' ns by (auto simp: names_ok_def)
  have "map_of (map (\<lambda>n. (hn_name n, hn_handle n)) ?l) key = None"
  proof -
    have "strcmp (hn_name x) key < 0" if "x \<in> set ?l" for x
      using that at by (auto simp: splits_at_def in_set_conv_nth)
    then have "key \<notin> hn_name ` set ?l" using strcmp.cmp_irrefl by auto
    then show ?thesis by (simp add: map_of_eq_None_iff image_image)
  qed
  then have "name_map s' = (name_map s)(key \<mapsto> h)"
  proof -
    let ?f = "map (\<lambda>n. (hn_name n, hn_handle n))"
    assume k: "map_of (?f ?l) key = None"
    have "name_map s = map_of (?f ?l @ ?f ?r)" by (simp add: name_map_def flip: map_append)
    with k show ?thesis by (auto simp: name_map_def ns fun_eq_iff map_add_def split: option.splits)
  qed
  with s' ok' show ?thesis by blast
qed

lemma namehandle_spec:
  assumes "names_ok s" "name_cap s * 2 \<le> MAX_SLOT_SIZE \<or> name_count s < name_cap s"
  shows "\<exists>s'. ztask_handle_namehandle h key s
      = Some (if name_map s key = None then Some key else None, s') \<and> names_ok s' \<and>
    name_map s' = (if name_map s key = None then (name_map s)(key \<mapsto> h) else name_map s) \<and>
    slot s' = slot s \<and> slot_size s' = slot_size s \<and> handle_index s' = handle_index s \<and> harbor s' = harbor s"
  using search_names [OF assms(1), of key]
proof
  assume "\<exists>n \<in> set (names s). name_search (name s) key 0 (int (name_count s) - 1) = Some (Found n) \<and> hn_name n = key"
  then show ?thesis
    using name_map_Some [OF assms(1)] assms(1)
    by (auto simp: ztask_handle_namehandle_def insert_name_def)
next
  assume "\<exists>p. name_search (name s) key 0 (int (name_count s) - 1) = Some (Absent p) \<and> splits_at (names s) key p"
  then obtain p where p: "name_search (name s) key 0 (int (name_count s) - 1) = Some (Absent p)"
    "splits_at (names s) key p" by blast
  from insert_name_before_ok [OF assms(1) p(2) assms(2), of h] obtain s' where
    "insert_name_before key h p s = Some s'" "names_ok s'" "name_map s' = (name_map s)(key \<mapsto> h)"
    and s': "s'\<lparr>name := name s, name_count := name_count s, name_cap := name_cap s\<rparr> = s" by blast
  moreover have "slot s' = slot s \<and> slot_size s' = slot_size s \<and> handle_index s' = handle_index s \<and> harbor s' = harbor s"
    by (metis s' handle_storage.ext_inject handle_storage.surjective handle_storage.update_convs(5-7))
  ultimately show ?thesis
    using p(1) name_map_None [OF p(2)] by (simp add: ztask_handle_namehandle_def insert_name_def)
qed

lemma namehandle_taken:
  assumes "names_ok s" "name_map s key \<noteq> None"
  shows "ztask_handle_namehandle h key s = Some (None, s)"
  using search_names [OF assms(1), of key] assms(2) name_map_None
  by (auto simp: ztask_handle_namehandle_def insert_name_def)

text \<open>Naming a handle: a name in use is refused with NULL and nothing changes; otherwise the
  array (doubled when full, always sorted, so that the search stays correct) maps the new
  name to the handle, every other name keeps its handle, and the slots do not change.\<close>

theorem handle_namehandle_inserts:
  assumes "names_ok s" "name_cap s * 2 \<le> MAX_SLOT_SIZE \<or> name_count s < name_cap s"
  shows "\<exists>s'. ztask_handle_namehandle h key s
      = Some (if name_map s key = None then Some key else None, s') \<and> names_ok s' \<and>
    name_map s' = (if name_map s key = None then (name_map s)(key \<mapsto> h) else name_map s) \<and>
    slot s' = slot s \<and> slot_size s' = slot_size s \<and> handle_index s' = handle_index s \<and> harbor s' = harbor s"
  by (rule namehandle_spec [OF assms])

section \<open>The initial table\<close>

lemma handle_init_ok: "handles_ok ch (ztask_handle_init h)" "names_ok (ztask_handle_init h)"
  "has_room (ztask_handle_init h)" "name_map (ztask_handle_init h) = Map.empty"
proof -
  have "take_bit 24 (push_bit 24 (h AND 0xff)) = (0 :: u32)"
    by (simp add: take_bit_push_bit)
  then show "handles_ok ch (ztask_handle_init h)"
    by (auto simp: handles_ok_def ztask_handle_init_def DEFAULT_SLOT_SIZE_def HANDLE_REMOTE_SHIFT_def
        intro: exI [of _ 2])
qed (simp_all add: names_ok_def ztask_handle_init_def names_def has_room_def DEFAULT_SLOT_SIZE_def name_map_def)

theorem handle_register_fresh_witness:
  "\<exists>h s'. ztask_handle_register (\<lambda>_. 0) 7 (ztask_handle_init 5) = Some (h, s') \<and>
     handle_map ((\<lambda>_. 0)(7 := h)) s' h = Some 7"
proof -
  have "Some 7 \<notin> set (slot (ztask_handle_init 5))" by (simp add: ztask_handle_init_def DEFAULT_SLOT_SIZE_def)
  from handle_register_fresh [OF handle_init_ok(1) this handle_init_ok(3), of "\<lambda>_. 0" "\<lambda>_. 0"] show ?thesis by auto
qed




text \<open>A table with one context at handle 0x05000002 that carries two names.\<close>

definition sample_storage :: handle_storage where
  "sample_storage = \<lparr>harbor = 0x05000000, handle_index = 3, slot_size = 4,
     slot = [None, Some 8, Some 7, None], name_cap = 4, name_count = 3,
     name = [Some \<lparr>hn_name = ''a'', hn_handle = 0x05000002\<rparr>, Some \<lparr>hn_name = ''b'', hn_handle = 0x05000001\<rparr>,
             Some \<lparr>hn_name = ''c'', hn_handle = 0x05000002\<rparr>, None]\<rparr>"

definition sample_handle :: "ctxref \<Rightarrow> u32" where
  "sample_handle c = (if c = 7 then 0x05000002 else 0x05000001)"

lemma sample_ok: "handles_ok sample_handle sample_storage" "names_ok sample_storage"
  "name_cap sample_storage * 2 \<le> MAX_SLOT_SIZE \<or> name_count sample_storage < name_cap sample_storage"
proof -
  have "\<exists>k \<le> 24. 4 = (2::nat) ^ k" by (rule exI [of _ 2]) simp
  moreover have "(\<forall>i < 4. P i) \<longleftrightarrow> P 0 \<and> P 1 \<and> P 2 \<and> P (3::nat)" for P
    by (auto simp: numeral_eq_Suc less_Suc_eq)
  ultimately show "handles_ok sample_handle sample_storage"
    by (simp add: handles_ok_def sample_storage_def slot_hash_def sample_handle_def HANDLE_MASK_def)
qed (simp_all add: names_ok_def names_def sample_storage_def MAX_SLOT_SIZE_def)

theorem handle_retire_unmaps_witness:
  "\<exists>s'. ztask_handle_retire sample_handle 0x05000002 sample_storage = Some (Some 7, s') \<and>
     map hn_name (names s') = [''b'']"
proof -
  have m: "handle_map sample_handle sample_storage 0x05000002 = Some 7"
    by (simp add: handle_map_def slot_hash_def sample_storage_def sample_handle_def)
  have "filter (\<lambda>n. hn_handle n \<noteq> 0x05000002) (names sample_storage) = [\<lparr>hn_name = ''b'', hn_handle = 0x05000001\<rparr>]"
    by (simp add: names_def sample_storage_def)
  then show ?thesis
    using handle_retire_unmaps [OF sample_ok(1,2), of "0x05000002"] m by auto
qed

theorem handle_findname_correct_witness:
  "ztask_handle_findname ''c'' sample_storage = Some 0x05000002"
  using handle_findname_correct [OF sample_ok(2), of "''c''"]
  by (simp add: name_map_def names_def sample_storage_def)

theorem handle_namehandle_inserts_witness:
  "\<exists>s'. ztask_handle_namehandle 0x05000001 ''bb'' sample_storage = Some (Some ''bb'', s') \<and>
     name_map s' ''bb'' = Some 0x05000001"
proof -
  have "name_map sample_storage ''bb'' = None" by (simp add: name_map_def names_def sample_storage_def)
  then show ?thesis
    using handle_namehandle_inserts [OF sample_ok(2,3), of "0x05000001" "''bb''"] by auto
qed

text \<open>The handle 0 that \<^verbatim>\<open>ztask_handle_init\<close> means to reserve is given out on node 0 when the
  24-bit index wraps around: \<open>handle_index\<close> is not reset to 1.\<close>

lemma handle_zero_allocated:
  "ztask_handle_register ch ctx (ztask_handle_init 0\<lparr>handle_index := 0x1000000\<rparr>) =
     Some (0, ztask_handle_init 0\<lparr>slot := [Some ctx, None, None, None], handle_index := 1\<rparr>)"
proof -
  let ?s = "ztask_handle_init 0\<lparr>handle_index := 0x1000000\<rparr>"
  have "find_free ?s 0 = Some (0, 0)"
    by (subst find_free.simps)
       (simp add: ztask_handle_init_def DEFAULT_SLOT_SIZE_def HANDLE_MASK_def slot_hash_def)
  then show ?thesis
    by (subst ztask_handle_register.simps)
       (simp add: ztask_handle_init_def DEFAULT_SLOT_SIZE_def HANDLE_REMOTE_SHIFT_def numeral_eq_Suc)
qed

end
