(* ===== verification/Timer.thy ===== *)
theory Timer
  imports Mq
begin

text \<open>
  The timing wheel of \<^verbatim>\<open>src/ztask/ztask_timer.c\<close>: 256 lists for the expiry times that
  share the upper 24 bits of the clock, and four levels of 64 lists for the others. A
  \<^verbatim>\<open>struct link_list\<close> is the list of its nodes in link order (\<^verbatim>\<open>link\<close> appends at the tail,
  \<^verbatim>\<open>link_clear\<close> detaches the whole chain). The spin lock is kept as a flag, because
  \<^verbatim>\<open>ztask_timeout_del\<close> unlocks it without holding it. The messages that timers cause go
  through \<open>push\<close>, which stands for \<^verbatim>\<open>ztask_context_push\<close> of theory Server and acts on a
  state of its own; 0 is success.

  The model is sequential: one call runs to its end before the next one starts. The code
  gives up the lock while it dispatches a list and while \<^verbatim>\<open>ztask_timeout_del\<close> searches, and
  another thread may then add or remove timers; what is proved is about calls that no other
  thread interrupts.
\<close>

section \<open>Data\<close>

definition TIME_NEAR_SHIFT :: nat where "TIME_NEAR_SHIFT = 8"
definition TIME_NEAR :: nat where "TIME_NEAR = 256"
definition TIME_LEVEL_SHIFT :: nat where "TIME_LEVEL_SHIFT = 6"
definition TIME_LEVEL :: nat where "TIME_LEVEL = 64"
definition TIME_NEAR_MASK :: u32 where "TIME_NEAR_MASK = 255"
definition TIME_LEVEL_MASK :: u32 where "TIME_LEVEL_MASK = 63"

record timer_event =
  te_handle :: u32
  te_session :: cint

record timer_node =
  expire :: u32
  event :: timer_event

record timer =
  near :: "timer_node list list"
  tlevel :: "timer_node list list list"
  lock :: bool
  time :: u32
  starttime :: u32
  current :: u64
  current_point :: u64

definition spin_lock :: "timer \<Rightarrow> timer option" where
  "spin_lock T = do { assert_c (\<not> lock T); Some (T\<lparr>lock := True\<rparr>) }"

definition spin_unlock :: "timer \<Rightarrow> timer" where
  "spin_unlock T = T\<lparr>lock := False\<rparr>"

type_synonym 's pusher = "u32 \<Rightarrow> ztask_message \<Rightarrow> 's \<Rightarrow> (int \<times> 's) option"

section \<open>Adding nodes\<close>

text \<open>The level of a node that is not in \<open>near\<close>: the loop of \<^verbatim>\<open>add_node\<close>.\<close>

function level_search :: "u32 \<Rightarrow> u32 \<Rightarrow> nat \<Rightarrow> u32 \<Rightarrow> nat" where
  "level_search tm current_time i msk =
     (if i < 3 \<and> tm OR (msk - 1) \<noteq> current_time OR (msk - 1)
      then level_search tm current_time (i + 1) (push_bit TIME_LEVEL_SHIFT msk)
      else i)"
  by pat_completeness auto
termination
  by (relation "measure (\<lambda>(a, b, i, m). 3 - i)") auto

declare level_search.simps [simp del]

definition link_near :: "nat \<Rightarrow> timer_node \<Rightarrow> timer \<Rightarrow> timer" where
  "link_near k n T = T\<lparr>near := (near T)[k := near T ! k @ [n]]\<rparr>"

definition link_level :: "nat \<Rightarrow> nat \<Rightarrow> timer_node \<Rightarrow> timer \<Rightarrow> timer" where
  "link_level i k n T = T\<lparr>tlevel := (tlevel T)[i := (tlevel T ! i)[k := tlevel T ! i ! k @ [n]]]\<rparr>"

definition add_node :: "timer_node \<Rightarrow> timer \<Rightarrow> timer" where
  "add_node node T =
     (let tm = expire node; current_time = time T in
      if tm OR TIME_NEAR_MASK = current_time OR TIME_NEAR_MASK
      then link_near (unat (tm AND TIME_NEAR_MASK)) node T
      else let i = level_search tm current_time 0 (push_bit TIME_LEVEL_SHIFT (of_nat TIME_NEAR))
           in link_level i (unat (drop_bit (TIME_NEAR_SHIFT + i * TIME_LEVEL_SHIFT) tm AND TIME_LEVEL_MASK)) node T)"

text \<open>\<open>tm\<close> is the C \<^verbatim>\<open>int\<close> argument, converted to \<^verbatim>\<open>uint32_t\<close> by the addition.\<close>

definition timer_add :: "timer_event \<Rightarrow> cint \<Rightarrow> timer \<Rightarrow> timer option" where
  "timer_add arg tm T =
     do { T1 \<leftarrow> spin_lock T;
          Some (spin_unlock (add_node \<lparr>expire = tm + time T1, event = arg\<rparr> T1)) }"

section \<open>Advancing the clock\<close>

definition link_clear_level :: "nat \<Rightarrow> nat \<Rightarrow> timer \<Rightarrow> (timer_node list \<times> timer) option" where
  "link_clear_level level idx T =
     do { row \<leftarrow> array_get (tlevel T) level;
          ns \<leftarrow> array_get row idx;
          Some (ns, T\<lparr>tlevel := (tlevel T)[level := row[idx := []]]\<rparr>) }"

definition move_list :: "nat \<Rightarrow> nat \<Rightarrow> timer \<Rightarrow> timer option" where
  "move_list level idx T =
     do { (ns, T1) \<leftarrow> link_clear_level level idx T;
          Some (fold add_node ns T1) }"

partial_function (option) shift_loop :: "u32 \<Rightarrow> u32 \<Rightarrow> u32 \<Rightarrow> nat \<Rightarrow> timer \<Rightarrow> timer option" where
  "shift_loop ct msk tm i T =
     (if ct AND (msk - 1) = 0
      then let idx = tm AND TIME_LEVEL_MASK in
           if idx \<noteq> 0 then move_list i (unat idx) T
           else shift_loop ct (push_bit TIME_LEVEL_SHIFT msk) (drop_bit TIME_LEVEL_SHIFT tm) (i + 1) T
      else Some T)"

definition timer_shift :: "timer \<Rightarrow> timer option" where
  "timer_shift T =
     (let ct = time T + 1; T1 = T\<lparr>time := ct\<rparr> in
      if ct = 0 then move_list 3 0 T1
      else shift_loop ct (of_nat TIME_NEAR) (drop_bit TIME_NEAR_SHIFT ct) 0 T1)"

definition PTYPE_RESPONSE :: u64 where "PTYPE_RESPONSE = 1"
definition MESSAGE_TYPE_SHIFT :: nat where "MESSAGE_TYPE_SHIFT = 56"

definition timer_message :: "cint \<Rightarrow> ztask_message" where
  "timer_message session =
     \<lparr>msg_source = 0, msg_session = session, msg_data = None,
      msg_sz = push_bit MESSAGE_TYPE_SHIFT PTYPE_RESPONSE\<rparr>"

primrec dispatch_list :: "'s pusher \<Rightarrow> timer_node list \<Rightarrow> 's \<Rightarrow> 's option" where
  "dispatch_list push [] s = Some s"
| "dispatch_list push (n # ns) s =
     do { (_, s1) \<leftarrow> push (te_handle (event n)) (timer_message (te_session (event n))) s;
          dispatch_list push ns s1 }"

text \<open>The loop of \<^verbatim>\<open>timer_execute\<close>, which gives up the lock while it dispatches.\<close>

partial_function (option) execute_loop :: "'s pusher \<Rightarrow> nat \<Rightarrow> timer \<Rightarrow> 's \<Rightarrow> (timer \<times> 's) option" where
  "execute_loop push idx T s =
     do { ns \<leftarrow> array_get (near T) idx;
          if ns \<noteq> []
          then do { s1 \<leftarrow> dispatch_list push ns s;
                    T1 \<leftarrow> spin_lock (spin_unlock (T\<lparr>near := (near T)[idx := []]\<rparr>));
                    execute_loop push idx T1 s1 }
          else Some (T, s) }"

definition timer_execute :: "'s pusher \<Rightarrow> timer \<Rightarrow> 's \<Rightarrow> (timer \<times> 's) option" where
  "timer_execute push T s = execute_loop push (unat (time T AND TIME_NEAR_MASK)) T s"

definition timer_update :: "'s pusher \<Rightarrow> timer \<Rightarrow> 's \<Rightarrow> (timer \<times> 's) option" where
  "timer_update push T s =
     do { T1 \<leftarrow> spin_lock T;
          (T2, s2) \<leftarrow> timer_execute push T1 s;
          T3 \<leftarrow> timer_shift T2;
          (T4, s4) \<leftarrow> timer_execute push T3 s2;
          Some (spin_unlock T4, s4) }"

definition timer_create_timer :: timer where
  "timer_create_timer =
     \<lparr>near = replicate TIME_NEAR [], tlevel = replicate 4 (replicate TIME_LEVEL []), lock = False,
      time = 0, starttime = 0, current = 0, current_point = 0\<rparr>"

section \<open>The interface of the timer\<close>

text \<open>\<open>tm\<close> is in milliseconds, a wheel tick has ten of them.\<close>

definition ztask_timeout ::
  "'s pusher \<Rightarrow> u32 \<Rightarrow> cint \<Rightarrow> cint \<Rightarrow> timer \<Rightarrow> 's \<Rightarrow> (cint \<times> timer \<times> 's) option" where
  "ztask_timeout push handle tm session T s =
     (if sint tm \<le> 0
      then do { (r, s1) \<leftarrow> push handle (timer_message session) s;
                Some (if r \<noteq> 0 then -1 else session, T, s1) }
      else do { T1 \<leftarrow> timer_add \<lparr>te_handle = handle, te_session = session\<rparr> (tm div 10) T;
                Some (session, T1, s) })"

text \<open>The search for the event in one list, with the unlinking of its node.\<close>

fun unlink_event :: "u32 \<Rightarrow> cint \<Rightarrow> timer_node list \<Rightarrow> timer_node list option" where
  "unlink_event handle session [] = None"
| "unlink_event handle session (n # ns) =
     (if te_session (event n) = session \<and> te_handle (event n) = handle then Some ns
      else do { ns' \<leftarrow> unlink_event handle session ns; Some (n # ns') })"

text \<open>\<^verbatim>\<open>while (list.head.next) { SPIN_UNLOCK; search; SPIN_LOCK }\<close>: the result says whether the
  event was found, the list that is left and the lock; \<open>None\<close> is a loop that only another
  thread can end.\<close>

partial_function (option) del_loop ::
  "u32 \<Rightarrow> cint \<Rightarrow> timer_node list \<Rightarrow> bool \<Rightarrow> (bool \<times> timer_node list \<times> bool) option" where
  "del_loop handle session ns lk =
     (if ns = [] then Some (False, ns, lk)
      else case unlink_event handle session ns of
             Some ns' \<Rightarrow> Some (True, ns', False)
           | None \<Rightarrow> del_loop handle session ns True)"

fun del_lists ::
  "u32 \<Rightarrow> cint \<Rightarrow> timer_node list list \<Rightarrow> bool \<Rightarrow> (bool \<times> timer_node list list \<times> bool) option" where
  "del_lists handle session [] lk = Some (False, [], lk)"
| "del_lists handle session (l # ls) lk =
     do { (found, l', lk1) \<leftarrow> del_loop handle session l lk;
          if found then Some (True, l' # ls, lk1)
          else do { (found2, ls', lk2) \<leftarrow> del_lists handle session ls lk1;
                    Some (found2, l' # ls', lk2) } }"

fun del_levels ::
  "u32 \<Rightarrow> cint \<Rightarrow> timer_node list list list \<Rightarrow> bool \<Rightarrow> (bool \<times> timer_node list list list \<times> bool) option" where
  "del_levels handle session [] lk = Some (False, [], lk)"
| "del_levels handle session (r # rs) lk =
     do { (found, r', lk1) \<leftarrow> del_lists handle session r lk;
          if found then Some (True, r' # rs, lk1)
          else do { (found2, rs', lk2) \<leftarrow> del_levels handle session rs lk1;
                    Some (found2, r' # rs', lk2) } }"

definition ztask_timeout_del :: "u32 \<Rightarrow> cint \<Rightarrow> timer \<Rightarrow> timer option" where
  "ztask_timeout_del handle session TI =
     do { (found, near', lk) \<leftarrow> del_lists handle session (near TI) (lock TI);
          if found then Some (TI\<lparr>near := near', lock := lk\<rparr>)
          else do { (_, t', lk2) \<leftarrow> del_levels handle session (tlevel TI) lk;
                    Some (TI\<lparr>near := near', tlevel := t', lock := lk2\<rparr>) } }"

text \<open>\<open>cp\<close> is what \<^verbatim>\<open>gettime\<close> reads from the clock; the first result tells whether the
  "time diff error" is reported.\<close>

primrec update_n :: "'s pusher \<Rightarrow> nat \<Rightarrow> timer \<Rightarrow> 's \<Rightarrow> (timer \<times> 's) option" where
  "update_n push 0 T s = Some (T, s)"
| "update_n push (Suc n) T s =
     do { (T1, s1) \<leftarrow> timer_update push T s; update_n push n T1 s1 }"

definition ztask_updatetime :: "'s pusher \<Rightarrow> u64 \<Rightarrow> timer \<Rightarrow> 's \<Rightarrow> (bool \<times> timer \<times> 's) option" where
  "ztask_updatetime push cp TI s =
     (if cp < current_point TI then Some (True, TI\<lparr>current_point := cp\<rparr>, s)
      else if cp \<noteq> current_point TI
      then let diff = ucast (cp - current_point TI) :: u32 in
           do { (T1, s1) \<leftarrow> update_n push (unat diff)
                  (TI\<lparr>current_point := cp, current := current TI + ucast diff\<rparr>) s;
                Some (False, T1, s1) }
      else Some (False, TI, s))"

definition ztask_starttime :: "timer \<Rightarrow> u32" where
  "ztask_starttime TI = starttime TI"

definition ztask_now :: "timer \<Rightarrow> u64" where
  "ztask_now TI = current TI"

text \<open>\<open>sec\<close> and \<open>cs\<close> are the readings of \<^verbatim>\<open>systime\<close>, \<open>cp\<close> that of \<^verbatim>\<open>gettime\<close>.\<close>

definition ztask_timer_init :: "u32 \<Rightarrow> u32 \<Rightarrow> u64 \<Rightarrow> timer" where
  "ztask_timer_init sec cs cp =
     timer_create_timer\<lparr>starttime := sec, current := ucast cs, current_point := cp\<rparr>"

section \<open>Where a node belongs\<close>

datatype place = Near nat | Level nat nat

text \<open>The place of a node that expires at \<open>e\<close> when the clock shows \<open>c\<close>, in arithmetic.\<close>

definition place_of :: "u32 \<Rightarrow> u32 \<Rightarrow> place" where
  "place_of c e =
     (if unat e div 0x100 = unat c div 0x100 then Near (unat e mod 0x100)
      else if unat e div 0x4000 = unat c div 0x4000 then Level 0 (unat e div 0x100 mod 0x40)
      else if unat e div 0x100000 = unat c div 0x100000 then Level 1 (unat e div 0x4000 mod 0x40)
      else if unat e div 0x4000000 = unat c div 0x4000000 then Level 2 (unat e div 0x100000 mod 0x40)
      else Level 3 (unat e div 0x4000000 mod 0x40))"

fun cell :: "timer \<Rightarrow> place \<Rightarrow> timer_node list" where
  "cell T (Near k) = near T ! k"
| "cell T (Level i k) = tlevel T ! i ! k"

fun valid_place :: "place \<Rightarrow> bool" where
  "valid_place (Near k) = (k < 256)"
| "valid_place (Level i k) = (i < 4 \<and> k < 64)"

definition wheel_shape :: "timer \<Rightarrow> bool" where
  "wheel_shape T \<longleftrightarrow> length (near T) = 256 \<and> length (tlevel T) = 4 \<and> (\<forall>i < 4. length (tlevel T ! i) = 64)"

lemma valid_place_of [simp]: "valid_place (place_of c e)"
  by (simp add: place_of_def)

lemma or_mask_eq_iff:
  "(a OR mask n = b OR mask n) \<longleftrightarrow> unat a div 2 ^ n = unat b div 2 ^ n" for a b :: u32
proof -
  have "(a OR mask n = b OR mask n) \<longleftrightarrow> drop_bit n a = drop_bit n b"
  proof
    assume e: "a OR mask n = b OR mask n"
    show "drop_bit n a = drop_bit n b"
    proof (rule bit_eqI)
      fix k
      have "bit (a OR mask n) (n + k) = bit (b OR mask n) (n + k)" by (simp only: e)
      then show "bit (drop_bit n a) k = bit (drop_bit n b) k"
        by (simp add: bit_or_iff bit_mask_iff bit_drop_bit_eq)
    qed
  next
    assume e: "drop_bit n a = drop_bit n b"
    show "a OR mask n = b OR mask n"
    proof (rule bit_eqI)
      fix k
      have "bit (drop_bit n a) (k - n) = bit (drop_bit n b) (k - n)" by (simp only: e)
      then show "bit (a OR mask n) k = bit (b OR mask n) k"
        by (cases "k < n") (auto simp: bit_or_iff bit_mask_iff bit_drop_bit_eq not_less dest: bit_imp_le_length)
    qed
  qed
  also have "\<dots> \<longleftrightarrow> unat a div 2 ^ n = unat b div 2 ^ n"
    by (simp add: word_unat_eq_iff unat_drop_bit)
  finally show ?thesis .
qed

lemma or_masks:
  "(a OR 0xFF = b OR 0xFF) \<longleftrightarrow> unat a div 0x100 = unat b div 0x100"
  "(a OR 0x3FFF = b OR 0x3FFF) \<longleftrightarrow> unat a div 0x4000 = unat b div 0x4000"
  "(a OR 0xFFFFF = b OR 0xFFFFF) \<longleftrightarrow> unat a div 0x100000 = unat b div 0x100000"
  "(a OR 0x3FFFFFF = b OR 0x3FFFFFF) \<longleftrightarrow> unat a div 0x4000000 = unat b div 0x4000000" for a b :: u32
  using or_mask_eq_iff [of a 8 b] or_mask_eq_iff [of a 14 b] or_mask_eq_iff [of a 20 b] or_mask_eq_iff [of a 26 b]
  by (simp_all add: mask_eq_decr_exp)

lemma unat_and_mask: "unat (w AND mask n) = unat w mod 2 ^ n" for w :: u32
  by (simp only: take_bit_eq_mask [symmetric] unsigned_take_bit_eq) (simp add: take_bit_eq_mod)

lemma and_masks:
  "unat (w AND 0xFF) = unat w mod 0x100" "unat (w AND 0x3F) = unat w mod 0x40"
  "unat (w AND 0x3FFF) = unat w mod 0x4000" "unat (w AND 0xFFFFF) = unat w mod 0x100000"
  "unat (w AND 0x3FFFFFF) = unat w mod 0x4000000" for w :: u32
  using unat_and_mask [of w 8] unat_and_mask [of w 6] unat_and_mask [of w 14] unat_and_mask [of w 20]
    unat_and_mask [of w 26]
  by (simp_all add: mask_eq_decr_exp)

lemma level_search_arith:
  "level_search e c 0 0x4000 =
     (if unat e div 0x4000 = unat c div 0x4000 then 0
      else if unat e div 0x100000 = unat c div 0x100000 then 1
      else if unat e div 0x4000000 = unat c div 0x4000000 then 2 else 3)"
  by (simp add: level_search.simps TIME_LEVEL_SHIFT_def push_bit_eq_mult or_masks)

lemmas time_consts = TIME_NEAR_SHIFT_def TIME_NEAR_def TIME_LEVEL_SHIFT_def TIME_LEVEL_def
  TIME_NEAR_MASK_def TIME_LEVEL_MASK_def

fun link_at :: "place \<Rightarrow> timer_node \<Rightarrow> timer \<Rightarrow> timer" where
  "link_at (Near k) = link_near k"
| "link_at (Level i k) = link_level i k"

lemma add_node_place: "add_node n T = link_at (place_of (time T) (expire n)) n T"
proof -
  let ?e = "expire n" and ?c = "time T"
  let ?i = "level_search ?e ?c 0 0x4000"
  have add: "add_node n T = (if unat ?e div 0x100 = unat ?c div 0x100 then link_near (unat ?e mod 0x100) n T
      else link_level ?i (unat ?e div 2 ^ (8 + ?i * 6) mod 0x40) n T)"
    by (simp only: add_node_def Let_def time_consts or_masks and_masks unat_drop_bit)
       (simp add: push_bit_eq_mult)
  have pw: "(2::nat) ^ (8 + 0 * 6) = 0x100" "(2::nat) ^ (8 + 1 * 6) = 0x4000"
    "(2::nat) ^ (8 + 2 * 6) = 0x100000" "(2::nat) ^ (8 + 3 * 6) = 0x4000000" by simp_all
  consider "unat ?e div 0x100 = unat ?c div 0x100"
    | "unat ?e div 0x100 \<noteq> unat ?c div 0x100" "?i = 0" "unat ?e div 0x4000 = unat ?c div 0x4000"
    | "unat ?e div 0x100 \<noteq> unat ?c div 0x100" "?i = 1" "unat ?e div 0x4000 \<noteq> unat ?c div 0x4000"
        "unat ?e div 0x100000 = unat ?c div 0x100000"
    | "unat ?e div 0x100 \<noteq> unat ?c div 0x100" "?i = 2" "unat ?e div 0x4000 \<noteq> unat ?c div 0x4000"
        "unat ?e div 0x100000 \<noteq> unat ?c div 0x100000" "unat ?e div 0x4000000 = unat ?c div 0x4000000"
    | "unat ?e div 0x100 \<noteq> unat ?c div 0x100" "?i = 3" "unat ?e div 0x4000 \<noteq> unat ?c div 0x4000"
        "unat ?e div 0x100000 \<noteq> unat ?c div 0x100000" "unat ?e div 0x4000000 \<noteq> unat ?c div 0x4000000"
    using level_search_arith [of ?e ?c] by metis
  then show ?thesis
    by cases (simp_all only: add pw place_of_def if_True if_False simp_thms link_at.simps)
qed

lemma cell_link_at:
  "wheel_shape T \<Longrightarrow> valid_place p \<Longrightarrow> valid_place q \<Longrightarrow>
   cell (link_at p n T) q = cell T q @ (if p = q then [n] else [])"
proof (cases p)
  case (Near k)
  assume "wheel_shape T" "valid_place p" "valid_place q"
  with Near show ?thesis by (cases q) (simp_all add: link_near_def wheel_shape_def nth_list_update)
next
  case (Level i k)
  assume a: "wheel_shape T" "valid_place p" "valid_place q"
  then have "i < length (tlevel T)" "k < length (tlevel T ! i)" using Level by (simp_all add: wheel_shape_def)
  with Level show ?thesis by (cases q) (auto simp: link_level_def nth_list_update)
qed

lemma link_at_frame:
  "wheel_shape (link_at p n T) = wheel_shape T" "time (link_at p n T) = time T"
  "lock (link_at p n T) = lock T"
proof -
  have "length ((tlevel T)[i := (tlevel T ! i)[k := x]] ! j) = length (tlevel T ! j)" for i j k x
    by (cases "i = j"; cases "j < length (tlevel T)") (simp_all add: list_update_beyond)
  then show "wheel_shape (link_at p n T) = wheel_shape T"
    by (cases p) (simp_all add: link_near_def link_level_def wheel_shape_def)
qed (cases p; simp add: link_near_def link_level_def)+

lemma fold_add_node:
  assumes "wheel_shape T"
  shows "wheel_shape (fold add_node ns T) \<and> time (fold add_node ns T) = time T \<and>
    lock (fold add_node ns T) = lock T \<and>
    (\<forall>p. valid_place p \<longrightarrow> cell (fold add_node ns T) p
       = cell T p @ filter (\<lambda>n. place_of (time T) (expire n) = p) ns)"
  using assms
proof (induction ns arbitrary: T)
  case (Cons n ns)
  show ?case
    using Cons.IH [of "add_node n T"] Cons.prems
    by (simp add: add_node_place link_at_frame cell_link_at)
qed simp

section \<open>The abstract timer\<close>

text \<open>Every node is where \<^verbatim>\<open>add_node\<close> would put it now, and expires less than \<open>2 ^ 31\<close> ticks
  from now, also across the wrap-around of the clock.\<close>

definition wheel_ok :: "timer \<Rightarrow> bool" where
  "wheel_ok T \<longleftrightarrow> wheel_shape T \<and>
     (\<forall>p n. valid_place p \<and> n \<in> set (cell T p) \<longrightarrow>
        place_of (time T) (expire n) = p \<and> unat (expire n - time T) < 2 ^ 31)"

text \<open>The nodes that expire at time \<open>e\<close>, in the order they were added.\<close>

definition due :: "timer \<Rightarrow> u32 \<Rightarrow> timer_node list" where
  "due T e = filter (\<lambda>n. expire n = e) (cell T (place_of (time T) e))"

lemma wheel_okD:
  "wheel_ok T \<Longrightarrow> wheel_shape T"
  "wheel_ok T \<Longrightarrow> valid_place p \<Longrightarrow> n \<in> set (cell T p) \<Longrightarrow> place_of (time T) (expire n) = p"
  "wheel_ok T \<Longrightarrow> valid_place p \<Longrightarrow> n \<in> set (cell T p) \<Longrightarrow> unat (expire n - time T) < 2 ^ 31"
  unfolding wheel_ok_def by blast+

lemma wheel_okI:
  assumes "wheel_shape T"
    "\<And>p n. valid_place p \<Longrightarrow> n \<in> set (cell T p) \<Longrightarrow> place_of (time T) (expire n) = p \<and> unat (expire n - time T) < 2 ^ 31"
  shows "wheel_ok T"
  using assms unfolding wheel_ok_def by blast

lemma due_at:
  assumes "wheel_ok T" "valid_place p"
  shows "filter (\<lambda>n. expire n = e) (cell T p) = (if place_of (time T) e = p then due T e else [])"
  using wheel_okD(2) [OF assms] by (auto simp: due_def filter_empty_conv)

lemma due_far: "wheel_ok T \<Longrightarrow> \<not> unat (e - time T) < 2 ^ 31 \<Longrightarrow> due T e = []"
  using wheel_okD(3) [of T "place_of (time T) e"] by (auto simp: due_def filter_empty_conv)

text \<open>The list of the current time holds exactly the nodes that expire now.\<close>

lemma place_now [simp]: "place_of c c = Near (unat c mod 256)"
  by (simp add: place_of_def)

lemma place_near_now:
  assumes "place_of c e = Near (unat c mod 256)"
  shows "e = c"
proof -
  have "unat e div 256 = unat c div 256" "unat e mod 256 = unat c mod 256"
    using assms by (simp_all add: place_of_def split: if_splits)
  then show ?thesis by (metis div_mult_mod_eq word_unat_eq_iff)
qed

lemma cell_now: "wheel_ok T \<Longrightarrow> cell T (Near (unat (time T) mod 256)) = due T (time T)"
  using wheel_okD(2) [of T "Near (unat (time T) mod 256)"] place_near_now [of "time T"]
  by (auto simp: due_def intro!: filter_True [symmetric] simp del: cell.simps)

lemma dispatch_list_append:
  "dispatch_list push (xs @ ys) s = do { s1 \<leftarrow> dispatch_list push xs s; dispatch_list push ys s1 }"
proof (induction xs arbitrary: s)
  case (Cons n ns)
  then show ?case
    by (cases "push (te_handle (event n)) (timer_message (te_session (event n))) s") (auto split: prod.splits)
qed simp

text \<open>Without other threads the loop runs at most once: nothing is added to the emptied list.\<close>

lemma execute_loop_once:
  "execute_loop push idx T s =
     do { ns \<leftarrow> array_get (near T) idx;
          if ns \<noteq> []
          then do { s1 \<leftarrow> dispatch_list push ns s;
                    T1 \<leftarrow> spin_lock (spin_unlock (T\<lparr>near := (near T)[idx := []]\<rparr>));
                    Some (T1, s1) }
          else Some (T, s) }"
proof -
  have "execute_loop push idx (T\<lparr>near := (near T)[idx := []], lock := True\<rparr>) s1 =
      Some (T\<lparr>near := (near T)[idx := []], lock := True\<rparr>, s1)" if "idx < length (near T)" for s1
    using that by (simp add: execute_loop.simps [of push idx "T\<lparr>near := _, lock := _\<rparr>"])
  then show ?thesis
    by (cases "idx < length (near T)")
       (simp_all add: execute_loop.simps [of push idx T] array_get_def spin_lock_def spin_unlock_def cong: if_cong)
qed

lemma timer_execute_ok:
  assumes ok: "wheel_ok T" and lk: "lock T"
  defines "T' \<equiv> T\<lparr>near := (near T)[unat (time T) mod 256 := []]\<rparr>"
  shows "timer_execute push T s = do { s1 \<leftarrow> dispatch_list push (due T (time T)) s; Some (T', s1) }"
    "wheel_ok T'" "\<And>e. due T' e = (if e = time T then [] else due T e)"
proof -
  let ?k = "unat (time T) mod 256"
  have len: "?k < length (near T)" using wheel_okD(1) [OF ok] by (simp add: wheel_shape_def)
  have now: "near T ! ?k = due T (time T)" using cell_now [OF ok] by simp
  have "near T ! ?k = [] \<Longrightarrow> T' = T" using len by (simp add: T'_def list_update_same_conv)
  moreover have "T\<lparr>near := ns, lock := True\<rparr> = T\<lparr>near := ns\<rparr>" for ns using lk by simp
  ultimately show "timer_execute push T s = do { s1 \<leftarrow> dispatch_list push (due T (time T)) s; Some (T', s1) }"
    using len by (simp add: timer_execute_def execute_loop_once Let_def time_consts and_masks now [symmetric]
        spin_lock_def spin_unlock_def T'_def)
  have cell: "cell T' p = (if p = Near ?k then [] else cell T p)" for p
    using len by (cases p) (auto simp: T'_def)
  have tm: "time T' = time T" by (simp add: T'_def)
  show "wheel_ok T'"
  proof (rule wheel_okI)
    show "wheel_shape T'" using wheel_okD(1) [OF ok] by (simp add: T'_def wheel_shape_def)
    fix p n assume "valid_place p" "n \<in> set (cell T' p)"
    then show "place_of (time T') (expire n) = p \<and> unat (expire n - time T') < 2 ^ 31"
      using wheel_okD(2,3) [OF ok, of p n] by (simp add: cell tm split: if_splits)
  qed
  show "due T' e = (if e = time T then [] else due T e)" for e
    using place_near_now [of "time T" e] by (auto simp: due_def cell tm)
qed

lemma timer_execute_correct:
  assumes "wheel_ok T" "lock T"
  shows "\<exists>T'. wheel_ok T' \<and> lock T' \<and> time T' = time T \<and> (\<forall>e. due T' e = (if e = time T then [] else due T e)) \<and>
    (\<forall>push s. timer_execute push T s = do { s1 \<leftarrow> dispatch_list push (due T (time T)) s; Some (T', s1) })"
  by (rule exI [of _ "T\<lparr>near := (near T)[unat (time T) mod 256 := []]\<rparr>"])
     (simp add: timer_execute_ok [OF assms] assms(2))

section \<open>Shifting the wheel\<close>

text \<open>The list that a tick to the time \<open>c\<close> empties and distributes again.\<close>

definition moved_place :: "u32 \<Rightarrow> place option" where
  "moved_place c =
     (if unat c mod 0x100 \<noteq> 0 then None
      else if unat c div 0x100 mod 0x40 \<noteq> 0 then Some (Level 0 (unat c div 0x100 mod 0x40))
      else if unat c div 0x4000 mod 0x40 \<noteq> 0 then Some (Level 1 (unat c div 0x4000 mod 0x40))
      else if unat c div 0x100000 mod 0x40 \<noteq> 0 then Some (Level 2 (unat c div 0x100000 mod 0x40))
      else Some (Level 3 (unat c div 0x4000000 mod 0x40)))"

fun move_place :: "place option \<Rightarrow> timer \<Rightarrow> timer option" where
  "move_place (Some (Level i k)) T = move_list i k T"
| "move_place _ T = Some T"

lemma word_zero_iff: "w = 0 \<longleftrightarrow> unat w = 0" for w :: u32
  by (simp add: word_unat_eq_iff)

lemma mod_steps:
  "(n::nat) mod 0x4000 = n mod 0x100 + 0x100 * (n div 0x100 mod 0x40)"
  "n mod 0x100000 = n mod 0x4000 + 0x4000 * (n div 0x4000 mod 0x40)"
  "n mod 0x4000000 = n mod 0x100000 + 0x100000 * (n div 0x100000 mod 0x40)"
  using mod_mult2_eq [of n "0x100" "0x40"] mod_mult2_eq [of n "0x4000" "0x40"] mod_mult2_eq [of n "0x100000" "0x40"]
  by simp_all

lemma shift_loop_moves:
  assumes "c \<noteq> 0"
  shows "shift_loop c 0x100 (drop_bit 8 c) 0 T = move_place (moved_place c) T"
proof -
  let ?n = "unat c"
  let ?a = "?n mod 0x100" and ?b = "?n div 0x100 mod 0x40" and ?d = "?n div 0x4000 mod 0x40"
    and ?e = "?n div 0x100000 mod 0x40" and ?f = "?n div 0x4000000 mod 0x40"
  have n: "?n \<noteq> 0" "?n < 2 ^ 32"
    using assms unsigned_less [where ?'b = 32 and ?'a = nat and w = c] by (simp_all add: word_zero_iff)
  have f: "?f \<noteq> 0" if "?a = 0" "?b = 0" "?d = 0" "?e = 0"
  proof -
    have "?n mod 0x4000000 = 0" using mod_steps [of ?n] that by simp
    moreover have "?n div 0x4000000 < 0x40" using n(2) by simp
    moreover have "?n div 0x4000000 \<noteq> 0" using n(1) calculation by (metis div_mult_mod_eq add_0_right mult_0)
    ultimately show ?thesis by simp
  qed
  have loop: "shift_loop c m w i T =
      (if unat (c AND (m - 1)) = 0
       then if unat (w AND 0x3F) \<noteq> 0 then move_list i (unat (w AND 0x3F)) T
            else shift_loop c (push_bit 6 m) (drop_bit 6 w) (i + 1) T
       else Some T)" for m w i
    by (subst shift_loop.simps) (simp only: word_zero_iff time_consts Let_def)
  have l0: "shift_loop c 0x100 (drop_bit 8 c) 0 T = (if ?a = 0 then if ?b \<noteq> 0 then move_list 0 ?b T
      else shift_loop c 0x4000 (drop_bit 14 c) 1 T else Some T)"
    using loop [of "0x100" "drop_bit 8 c" 0] by (simp add: and_masks unat_drop_bit push_bit_eq_mult)
  have l1: "shift_loop c 0x4000 (drop_bit 14 c) 1 T = (if ?n mod 0x4000 = 0 then if ?d \<noteq> 0 then move_list 1 ?d T
      else shift_loop c 0x100000 (drop_bit 20 c) 2 T else Some T)"
    using loop [of "0x4000" "drop_bit 14 c" 1] by (simp add: and_masks unat_drop_bit push_bit_eq_mult numeral_2_eq_2 [symmetric])
  have l2: "shift_loop c 0x100000 (drop_bit 20 c) 2 T = (if ?n mod 0x100000 = 0 then if ?e \<noteq> 0 then move_list 2 ?e T
      else shift_loop c 0x4000000 (drop_bit 26 c) 3 T else Some T)"
    using loop [of "0x100000" "drop_bit 20 c" 2] by (simp add: and_masks unat_drop_bit push_bit_eq_mult)
  have l3: "shift_loop c 0x4000000 (drop_bit 26 c) 3 T = (if ?n mod 0x4000000 = 0 then if ?f \<noteq> 0 then move_list 3 ?f T
      else shift_loop c (push_bit 6 0x4000000) (drop_bit 32 c) 4 T else Some T)"
    using loop [of "0x4000000" "drop_bit 26 c" 3] by (simp add: and_masks unat_drop_bit)
  show ?thesis
    using f unfolding l0 l1 l2 l3 moved_place_def mod_steps [of ?n] by simp
qed

lemma timer_shift_moves:
  "timer_shift T = move_place (moved_place (time T + 1)) (T\<lparr>time := time T + 1\<rparr>)"
  using shift_loop_moves [of "time T + 1"]
  by (cases "time T + 1 = 0") (simp_all add: timer_shift_def Let_def time_consts moved_place_def)

text \<open>A node that is neither due nor more than \<open>2 ^ 31\<close> ticks away keeps its place in a tick, unless
  it is in the list that the tick distributes.\<close>

definition ahead :: "u32 \<Rightarrow> u32 \<Rightarrow> bool" where
  "ahead c e \<longleftrightarrow> e \<noteq> c \<and> unat (e - c) < 2 ^ 31"

lemma ahead_cases:
  assumes "ahead c e"
  shows "unat c < unat e \<or> unat e + 2 ^ 31 < unat c"
proof (rule ccontr)
  assume n: "\<not> ?thesis"
  have ne: "unat e \<noteq> unat c" using assms by (auto simp: ahead_def word_unat_eq_iff)
  then have lt: "unat e < unat c" using n by linarith
  have "unat (e - c) = 2 ^ 32 - (unat c - unat e)"
    using unat_sub_if_size [of e c] lt by (simp add: word_size)
  moreover have "unat (e - c) < 2 ^ 31" using assms by (simp add: ahead_def)
  ultimately show False using n lt by auto
qed

lemma tick_block:
  assumes "ahead c e" "B dvd 2 ^ 26" "0 < B"
  shows "unat (c + 1) mod B \<noteq> 0 \<Longrightarrow> unat (c + 1) div B = unat c div B"
    "unat (c + 1) mod B = 0 \<Longrightarrow> (unat e div B = unat c div B) = False"
proof -
  have c: "unat c < 2 ^ 32" using unsigned_less [where ?'b = 32 and ?'a = nat and w = c] by simp
  obtain q where q: "2 ^ 26 = B * q" using assms(2) by (rule dvdE)
  have B: "B \<le> 2 ^ 26" by (rule dvd_imp_le [OF assms(2)]) simp
  have last: "unat e div B \<noteq> unat c div B" if z: "(unat c + 1) mod B = 0"
  proof
    assume eq: "unat e div B = unat c div B"
    have "unat c mod B = B - 1"
      using z assms(3) by (cases "Suc (unat c mod B) = B") (simp_all add: mod_Suc)
    then have "unat c = unat c div B * B + (B - 1)" by (metis div_mult_mod_eq)
    moreover have "unat e = unat c div B * B + unat e mod B" by (metis div_mult_mod_eq eq)
    moreover have "unat e mod B < B" using assms(3) by simp
    moreover obtain z x where "z = unat c div B * B" "x = unat e mod B" by blast
    ultimately have "unat e \<le> unat c" "unat c < unat e + B" using assms(3) by linarith+
    then show False using ahead_cases [OF assms(1)] B by auto
  qed
  show "(unat e div B = unat c div B) = False" if "unat (c + 1) mod B = 0"
  proof (cases "c + 1 = 0")
    case True
    then have "c = - 1" by (simp add: eq_neg_iff_add_eq_0)
    then have "unat c + 1 = 2 ^ 32" by (simp add: unsigned_minus_1_eq_mask mask_eq_exp_minus_1)
    moreover have "(2 ^ 32 :: nat) = B * (q * 2 ^ 6)" using q by (simp add: mult.assoc [symmetric])
    then have "(2 ^ 32 :: nat) mod B = 0" by (simp only: mod_mult_self1_is_0)
    ultimately show ?thesis using last by (simp only:)
  next
    case False
    then show ?thesis using last that unatSuc [of c] by (simp add: add.commute)
  qed
  show "unat (c + 1) div B = unat c div B" if "unat (c + 1) mod B \<noteq> 0"
  proof -
    have "c + 1 \<noteq> 0" using that by auto
    then have "unat (c + 1) = Suc (unat c)" using unatSuc [of c] by (simp add: add.commute)
    then show ?thesis using that by (simp add: div_Suc)
  qed
qed

lemma div_chain:
  "(n::nat) div 0x4000 = n div 0x100 div 0x40" "n div 0x100000 = n div 0x4000 div 0x40"
  "n div 0x4000000 = n div 0x100000 div 0x40"
  by (simp_all add: div_mult2_eq [symmetric])

text \<open>The case distinction of \<^const>\<open>place_of\<close> on its four tests, and the effect of a tick on them.\<close>

lemma place_tick_cases:
  assumes pc: "place_of c e = (if q0 then Near x else if q1 then Level 0 k0 else if q2 then Level 1 k1
      else if q3 then Level 2 k2 else Level 3 k3)"
    and pn: "place_of (c + 1) e = (if r0 then Near x else if r1 then Level 0 k0 else if r2 then Level 1 k1
      else if r3 then Level 2 k2 else Level 3 k3)"
    and mv: "moved_place (c + 1) = (if \<not> z0 then None else if \<not> z1 then Some (Level 0 l0)
      else if \<not> z2 then Some (Level 1 l1) else if \<not> z3 then Some (Level 2 l2) else Some (Level 3 l3))"
    and z: "z1 \<Longrightarrow> z0" "z2 \<Longrightarrow> z1" "z3 \<Longrightarrow> z2"
    and same: "\<not> z0 \<Longrightarrow> q0 = r0" "\<not> z1 \<Longrightarrow> q1 = r1" "\<not> z2 \<Longrightarrow> q2 = r2" "\<not> z3 \<Longrightarrow> q3 = r3"
    and passed: "z0 \<Longrightarrow> \<not> q0" "z1 \<Longrightarrow> \<not> q1" "z2 \<Longrightarrow> \<not> q2" "z3 \<Longrightarrow> \<not> q3"
    and r: "r0 \<Longrightarrow> r1" "r1 \<Longrightarrow> r2" "r2 \<Longrightarrow> r3"
    and k: "r0 \<Longrightarrow> k0 = l0" "r1 \<Longrightarrow> k1 = l1" "r2 \<Longrightarrow> k2 = l2" "r3 \<Longrightarrow> k3 = l3"
  shows "moved_place (c + 1) = Some (place_of c e) \<or> place_of (c + 1) e = place_of c e"
  unfolding pc pn mv
  by (cases z0; cases z1; cases z2; cases z3; cases r0; cases r1; cases r2; cases r3)
     (use z same passed r k in simp_all)

lemma place_tick:
  assumes "ahead c e"
  shows "moved_place (c + 1) = Some (place_of c e) \<or> place_of (c + 1) e = place_of c e"
proof -
  let ?n = "unat (c + 1)" and ?m = "unat c" and ?E = "unat e"
  have dv: "(0x100::nat) dvd 2 ^ 26" "(0x4000::nat) dvd 2 ^ 26" "(0x100000::nat) dvd 2 ^ 26" "(0x4000000::nat) dvd 2 ^ 26"
    by simp_all
  note b1 = tick_block [OF assms dv(1) zero_less_numeral] and b2 = tick_block [OF assms dv(2) zero_less_numeral]
    and b3 = tick_block [OF assms dv(3) zero_less_numeral] and b4 = tick_block [OF assms dv(4) zero_less_numeral]
  have z: "?n mod 0x4000 = 0 \<longleftrightarrow> ?n mod 0x100 = 0 \<and> ?n div 0x100 mod 0x40 = 0"
    "?n mod 0x100000 = 0 \<longleftrightarrow> ?n mod 0x4000 = 0 \<and> ?n div 0x4000 mod 0x40 = 0"
    "?n mod 0x4000000 = 0 \<longleftrightarrow> ?n mod 0x100000 = 0 \<and> ?n div 0x100000 mod 0x40 = 0"
    using mod_steps [of ?n] by simp_all
  have mv: "moved_place (c + 1) =
    (if \<not> ?n mod 0x100 = 0 then None else if \<not> ?n mod 0x4000 = 0 then Some (Level 0 (?n div 0x100 mod 0x40))
     else if \<not> ?n mod 0x100000 = 0 then Some (Level 1 (?n div 0x4000 mod 0x40))
     else if \<not> ?n mod 0x4000000 = 0 then Some (Level 2 (?n div 0x100000 mod 0x40))
     else Some (Level 3 (?n div 0x4000000 mod 0x40)))"
    unfolding moved_place_def z by presburger
  show ?thesis
  proof (rule place_tick_cases [OF place_of_def place_of_def mv])
    show "?E div 0x100 = ?n div 0x100 \<Longrightarrow> ?E div 0x4000 = ?n div 0x4000"
      "?E div 0x4000 = ?n div 0x4000 \<Longrightarrow> ?E div 0x100000 = ?n div 0x100000"
      "?E div 0x100000 = ?n div 0x100000 \<Longrightarrow> ?E div 0x4000000 = ?n div 0x4000000"
      using div_chain [of ?E] div_chain [of ?n] by metis+
    show "?n mod 0x4000 = 0 \<Longrightarrow> ?n mod 0x100 = 0" "?n mod 0x100000 = 0 \<Longrightarrow> ?n mod 0x4000 = 0"
      "?n mod 0x4000000 = 0 \<Longrightarrow> ?n mod 0x100000 = 0"
      by (simp_all only: z)
  qed (simp_all only: b1 b2 b3 b4 not_False_eq_True)
qed

definition clear_place :: "place option \<Rightarrow> timer \<Rightarrow> timer" where
  "clear_place src T = (case src of Some (Level i k) \<Rightarrow> T\<lparr>tlevel := (tlevel T)[i := (tlevel T ! i)[k := []]]\<rparr> | _ \<Rightarrow> T)"

lemma moved_place_level: "moved_place c = Some p \<Longrightarrow> \<exists>i k. p = Level i k \<and> i < 4 \<and> k < 64"
  by (auto simp: moved_place_def split: if_splits)

lemma move_place_ok:
  assumes sh: "wheel_shape T" and src: "src = moved_place c"
  shows "\<exists>T'. move_place src T = Some T' \<and> wheel_shape T' \<and> time T' = time T \<and> lock T' = lock T \<and>
    (\<forall>p. valid_place p \<longrightarrow> cell T' p =
       (if src = Some p then [] else cell T p) @
       filter (\<lambda>n. place_of (time T) (expire n) = p) (case src of Some q \<Rightarrow> cell T q | None \<Rightarrow> []))"
proof (cases src)
  case None
  then show ?thesis using sh by simp
next
  case (Some q)
  obtain i k where q: "q = Level i k" "i < 4" "k < 64" using moved_place_level Some src by metis
  let ?T = "T\<lparr>tlevel := (tlevel T)[i := (tlevel T ! i)[k := []]]\<rparr>"
  have len: "i < length (tlevel T)" "k < length (tlevel T ! i)" using sh q by (simp_all add: wheel_shape_def)
  have sh': "wheel_shape ?T" using sh q by (simp add: wheel_shape_def nth_list_update)
  have mv: "move_place src T = Some (fold add_node (cell T q) ?T)"
    using Some q len by (simp add: move_list_def link_clear_level_def)
  have cell: "cell ?T p = (if q = p then [] else cell T p)" for p
    using len q by (cases p) (auto simp: nth_list_update)
  show ?thesis using mv fold_add_node [OF sh', of "cell T q"] Some by (simp add: cell)
qed

lemma ahead_step: "ahead c e \<Longrightarrow> unat (e - (c + 1)) < 2 ^ 31"
proof -
  assume a: "ahead c e"
  have "e - c \<noteq> 0" using a by (simp add: ahead_def)
  then have "unat (e - c - 1) < unat (e - c)" by (simp add: unat_minus_one unat_gt_0)
  then show ?thesis using a by (simp add: ahead_def diff_diff_eq)
qed

lemma cell_time: "cell (T\<lparr>time := x\<rparr>) p = cell T p"
  by (cases p) simp_all

lemma cell_lock: "cell (T\<lparr>lock := x\<rparr>) p = cell T p"
  by (cases p) simp_all

lemma timer_shift_ok:
  assumes ok: "wheel_ok T" and now: "due T (time T) = []"
  shows "\<exists>T'. timer_shift T = Some T' \<and> wheel_ok T' \<and> time T' = time T + 1 \<and> lock T' = lock T \<and>
    (\<forall>e. due T' e = due T e)"
proof -
  let ?c = "time T" and ?src = "moved_place (time T + 1)"
  let ?T = "T\<lparr>time := ?c + 1\<rparr>"
  have "wheel_shape ?T" using wheel_okD(1) [OF ok] by (simp add: wheel_shape_def)
  from move_place_ok [OF this refl, of "?c + 1", unfolded cell_time, folded timer_shift_moves]
  obtain T' where T': "timer_shift T = Some T'"
    "wheel_shape T'" "time T' = ?c + 1" "lock T' = lock T"
    and cell: "\<And>p. valid_place p \<Longrightarrow> cell T' p = (if ?src = Some p then [] else cell T p) @
       filter (\<lambda>n. place_of (?c + 1) (expire n) = p) (case ?src of Some q \<Rightarrow> cell T q | None \<Rightarrow> [])"
    by force
  have ahead: "ahead ?c (expire n)" if "valid_place p" "n \<in> set (cell T p)" for p n
  proof -
    have "n \<notin> set (due T ?c)" using now by simp
    then have "expire n \<noteq> ?c" using that wheel_okD(2) [OF ok that] by (auto simp: due_def)
    then show ?thesis using wheel_okD(3) [OF ok that] by (simp add: ahead_def)
  qed
  have vsrc: "valid_place q" if "?src = Some q" for q using moved_place_level [OF that] by auto
  have "wheel_ok T'"
  proof (rule wheel_okI [OF T'(2)])
    fix p n assume p: "valid_place p" and n: "n \<in> set (cell T' p)"
    consider "?src \<noteq> Some p" "n \<in> set (cell T p)" | q where "?src = Some q" "n \<in> set (cell T q)" "place_of (?c + 1) (expire n) = p"
      using n cell [OF p] by (auto split: if_splits option.splits)
    then show "place_of (time T') (expire n) = p \<and> unat (expire n - time T') < 2 ^ 31"
    proof cases
      case 1
      then show ?thesis
        using place_tick [OF ahead [OF p 1(2)]] wheel_okD(2) [OF ok p 1(2)] ahead_step [OF ahead [OF p 1(2)]] T'(3) by auto
    next
      case 2
      then show ?thesis using ahead_step [OF ahead [OF vsrc [OF 2(1)] 2(2)]] T'(3) by simp
    qed
  qed
  moreover have "due T' e = due T e" for e
  proof -
    let ?p = "place_of (?c + 1) e"
    have keep: "due T' e = (if ?src = Some ?p then [] else if place_of ?c e = ?p then due T e else []) @
        (if ?src = Some (place_of ?c e) then due T e else [])"
    proof -
      have "due T' e = (if ?src = Some ?p then [] else filter (\<lambda>n. expire n = e) (cell T ?p)) @
          filter (\<lambda>n. expire n = e) (case ?src of Some q \<Rightarrow> cell T q | None \<Rightarrow> [])"
        unfolding due_def T'(3) cell [OF valid_place_of]
        by (auto intro: filter_cong)
      also have "filter (\<lambda>n. expire n = e) (cell T ?p) = (if place_of ?c e = ?p then due T e else [])"
        by (rule due_at [OF ok valid_place_of])
      also have "filter (\<lambda>n. expire n = e) (case ?src of Some q \<Rightarrow> cell T q | None \<Rightarrow> []) =
          (if ?src = Some (place_of ?c e) then due T e else [])"
        using due_at [OF ok vsrc] by (auto split: option.splits)
      finally show ?thesis .
    qed
    show ?thesis
    proof (cases "ahead ?c e")
      case True
      then show ?thesis using keep place_tick [OF True] by auto
    next
      case False
      then have "due T e = []" using now due_far [OF ok] by (auto simp: ahead_def)
      then show ?thesis using keep by simp
    qed
  qed
  ultimately show ?thesis using T' by blast
qed

section \<open>Correctness of the timer\<close>

lemma timer_update_correct_aux:
  assumes "wheel_ok T" "\<not> lock T"
  shows "\<exists>T'. wheel_ok T' \<and> \<not> lock T' \<and> time T' = time T + 1 \<and>
    (\<forall>e. due T' e = (if e = time T \<or> e = time T + 1 then [] else due T e)) \<and>
    (\<forall>push (s::'s). timer_update push T s =
       do { s' \<leftarrow> dispatch_list push (due T (time T) @ due T (time T + 1)) s; Some (T', s') })"
proof -
  let ?c = "time T" and ?T1 = "T\<lparr>lock := True\<rparr>"
  have ok1: "wheel_ok ?T1" "lock ?T1" "time ?T1 = ?c" "\<And>e. due ?T1 e = due T e"
    using assms by (auto simp: wheel_ok_def wheel_shape_def cell_lock due_def)
  from timer_execute_correct [OF ok1(1,2)] obtain T2 where
    T2: "wheel_ok T2" "lock T2" "time T2 = ?c" "\<forall>e. due T2 e = (if e = ?c then [] else due T e)"
    "\<forall>push (s::'s). timer_execute push ?T1 s = do { s1 \<leftarrow> dispatch_list push (due T ?c) s; Some (T2, s1) }"
    unfolding ok1(3,4) by blast
  have "due T2 (time T2) = []" using T2(3,4) by simp
  from timer_shift_ok [OF T2(1) this] obtain T3 where
    T3: "timer_shift T2 = Some T3" "wheel_ok T3" "time T3 = ?c + 1" "lock T3" "\<forall>e. due T3 e = due T2 e"
    using T2(2,3) by auto
  from timer_execute_correct [OF T3(2,4)] obtain T4 where
    T4: "wheel_ok T4" "lock T4" "time T4 = ?c + 1" "\<forall>e. due T4 e = (if e = ?c + 1 then [] else due T3 e)"
    "\<forall>push (s::'s). timer_execute push T3 s = do { s1 \<leftarrow> dispatch_list push (due T3 (?c + 1)) s; Some (T4, s1) }"
    unfolding T3(3) by blast
  have d: "due T3 (?c + 1) = due T (?c + 1)" using T3(5) T2(4) by simp
  let ?T' = "T4\<lparr>lock := False\<rparr>"
  have "wheel_ok ?T'" "\<forall>e. due ?T' e = due T4 e"
    using T4(1) by (auto simp: wheel_ok_def wheel_shape_def cell_lock due_def)
  moreover have "timer_update push T s =
       do { s' \<leftarrow> dispatch_list push (due T ?c @ due T (?c + 1)) s; Some (?T', s') }" for push and s :: 's
    unfolding timer_update_def spin_lock_def spin_unlock_def dispatch_list_append
    using assms(2) T2(5) T3(1) T4(5) d by (simp add: bind_assoc)
  moreover have "\<forall>e. due T4 e = (if e = ?c \<or> e = ?c + 1 then [] else due T e)"
    using T4(4) T3(5) T2(4) by simp
  ultimately show ?thesis using T4(3) by (intro exI [of _ ?T']) simp
qed

text \<open>One update delivers the messages of exactly the nodes that expire now or in one tick, in
  that order and, among equal expiry times, in the order the timers were set; every other
  node stays pending, the clock advances by one (32-bit wrap-around included) and the
  wheel is well formed again.\<close>

theorem timer_update_correct:
  assumes "wheel_ok T" "\<not> lock T"
  shows "\<exists>T'. wheel_ok T' \<and> \<not> lock T' \<and> time T' = time T + 1 \<and>
    (\<forall>e. due T' e = (if e = time T \<or> e = time T + 1 then [] else due T e)) \<and>
    (\<forall>push (s::'s). timer_update push T s =
       do { s' \<leftarrow> dispatch_list push (due T (time T) @ due T (time T + 1)) s; Some (T', s') })"
  by (rule timer_update_correct_aux [OF assms])

lemma add_node_ok:
  assumes ok: "wheel_ok T" and n: "unat (expire n - time T) < 2 ^ 31"
  shows "wheel_ok (add_node n T)" "due (add_node n T) e = due T e @ (if e = expire n then [n] else [])"
    "time (add_node n T) = time T" "lock (add_node n T) = lock T"
proof -
  let ?p = "place_of (time T) (expire n)"
  note sh = wheel_okD(1) [OF ok]
  have cell: "cell (add_node n T) q = cell T q @ (if ?p = q then [n] else [])" if "valid_place q" for q
    using cell_link_at [OF sh valid_place_of that] by (simp add: add_node_place)
  show tm: "time (add_node n T) = time T" "lock (add_node n T) = lock T"
    by (simp_all add: add_node_place link_at_frame)
  show "wheel_ok (add_node n T)"
  proof (rule wheel_okI)
    show "wheel_shape (add_node n T)" using sh by (simp add: add_node_place link_at_frame)
    fix p m assume p: "valid_place p" and m: "m \<in> set (cell (add_node n T) p)"
    from m cell [OF p] have "m \<in> set (cell T p) \<or> m = n \<and> ?p = p" by (auto split: if_splits)
    then show "place_of (time (add_node n T)) (expire m) = p \<and> unat (expire m - time (add_node n T)) < 2 ^ 31"
      using wheel_okD(2,3) [OF ok p] n tm by auto
  qed
  show "due (add_node n T) e = due T e @ (if e = expire n then [n] else [])"
    by (auto simp: due_def tm cell)
qed

text \<open>(C26) Setting a timer: a positive time adds one node behind the pending ones with the same
  expiry time, \<open>tm / 10\<close> ticks from now; nothing else changes and the wheel stays well
  formed. A time that is not positive sends the response at once, and -1 is returned when
  the receiver does not exist.\<close>

theorem ztask_timeout_correct:
  assumes "wheel_ok T" "\<not> lock T"
  shows "if 0 < sint tm
    then \<exists>T'. wheel_ok T' \<and> \<not> lock T' \<and> time T' = time T \<and>
      ztask_timeout push handle tm session T s = Some (session, T', s) \<and>
      (\<forall>e. due T' e = due T e @ (if e = tm div 10 + time T
          then [\<lparr>expire = e, event = \<lparr>te_handle = handle, te_session = session\<rparr>\<rparr>] else []))
    else ztask_timeout push handle tm session T s =
      do { (r, s') \<leftarrow> push handle (timer_message session) s;
           Some (if r \<noteq> 0 then -1 else session, T, s') }"
proof (cases "0 < sint tm")
  case True
  let ?n = "\<lparr>expire = tm div 10 + time T, event = \<lparr>te_handle = handle, te_session = session\<rparr>\<rparr>"
  let ?T = "T\<lparr>lock := True\<rparr>" and ?T' = "(add_node ?n (T\<lparr>lock := True\<rparr>))\<lparr>lock := False\<rparr>"
  have ok: "wheel_ok ?T" "due ?T e = due T e" for e
    using assms by (auto simp: wheel_ok_def wheel_shape_def cell_lock due_def)
  have "unat tm < 2 ^ 31"
    using True sint_nonneg(1) [of tm] by simp
  then have "unat (tm div 10) < 2 ^ 31" by (simp add: unat_div)
  then have n: "unat (expire ?n - time ?T) < 2 ^ 31" by simp
  note a = add_node_ok [OF ok(1) n]
  have "wheel_ok ?T'" "due ?T' e = due (add_node ?n ?T) e" for e
    using a(1) by (auto simp: wheel_ok_def wheel_shape_def cell_lock due_def)
  then show ?thesis
    using True a ok(2) assms(2)
    by (auto simp: ztask_timeout_def timer_add_def spin_lock_def spin_unlock_def intro!: exI [of _ ?T'])
next
  case False
  then show ?thesis by (simp add: ztask_timeout_def)
qed

text \<open>The timers that expire within \<open>n\<close> ticks of time \<open>c\<close>, in the order they fire.\<close>

definition firing :: "timer \<Rightarrow> u32 \<Rightarrow> nat \<Rightarrow> timer_node list" where
  "firing T c n = concat (map (\<lambda>i. due T (c + of_nat i)) [0..<Suc n])"

lemma firing_step:
  assumes n: "n < 2 ^ 31" and due: "\<forall>e. due T1 e = (if e = c \<or> e = c + 1 then [] else due T e)"
  shows "firing T c (Suc (Suc n)) = due T c @ due T (c + 1) @ firing T1 (c + 1) (Suc n)"
proof -
  have "due T1 (c + 1 + of_nat i) = due T (c + of_nat (Suc i))" if "0 < i" "i < Suc (Suc n)" for i
  proof -
    have "(of_nat i :: u32) \<noteq> 0" "(of_nat (Suc i) :: u32) \<noteq> 0"
      using that n by (auto simp: word_of_nat_eq_0_iff simp del: of_nat_Suc dest!: dvd_imp_le)
    then have "c + 1 + of_nat i \<noteq> c + 1" "c + 1 + of_nat i \<noteq> c" by (simp_all add: add.assoc)
    then show ?thesis using due by (simp add: add.assoc)
  qed
  then have m: "map (\<lambda>i. due T1 (c + 1 + of_nat i)) [1..<Suc (Suc n)] = map (\<lambda>i. due T (c + of_nat (Suc i))) [1..<Suc (Suc n)]"
    by (intro map_cong) (simp_all del: upt_Suc of_nat_Suc)
  have u: "[0..<Suc (Suc n)] = 0 # [1..<Suc (Suc n)]" "[0..<Suc (Suc (Suc n))] = 0 # 1 # map Suc [1..<Suc (Suc n)]"
    unfolding map_Suc_upt by (simp_all add: upt_conv_Cons del: upt_Suc)
  have "due T1 (c + 1) = []" using due by simp
  then show ?thesis
    unfolding firing_def u list.map map_map comp_def concat.simps m by simp
qed

lemma within_step: "unat (e - c) \<le> Suc n \<longleftrightarrow> e = c \<or> unat (e - (c + 1)) \<le> n" for e c :: u32
proof (cases "e = c")
  case False
  then have "e - c \<noteq> 0" by simp
  then have "unat (e - c - 1) = unat (e - c) - 1" "0 < unat (e - c)" by (simp_all add: unat_minus_one unat_gt_0)
  moreover have "e - (c + 1) = e - c - 1" by simp
  ultimately show ?thesis using False by (simp only:) auto
qed simp

lemma update_n_correct:
  assumes "wheel_ok T" "\<not> lock T" "n < 2 ^ 31"
  shows "\<exists>T'. wheel_ok T' \<and> \<not> lock T' \<and> time T' = time T + of_nat (Suc n) \<and>
    (\<forall>e. due T' e = (if unat (e - time T) \<le> Suc n then [] else due T e)) \<and>
    (\<forall>push (s::'s). update_n push (Suc n) T s =
       do { s' \<leftarrow> dispatch_list push (firing T (time T) (Suc n)) s; Some (T', s') })"
  using assms
proof (induction n arbitrary: T)
  case 0
  from timer_update_correct_aux [OF "0.prems"(1,2)] obtain T' where T': "wheel_ok T'" "\<not> lock T'" "time T' = time T + 1"
    "\<forall>e. due T' e = (if e = time T \<or> e = time T + 1 then [] else due T e)"
    "\<forall>push (s::'s). timer_update push T s =
       do { s' \<leftarrow> dispatch_list push (due T (time T) @ due T (time T + 1)) s; Some (T', s') }" by blast
  have "due T' e = (if unat (e - time T) \<le> Suc 0 then [] else due T e)" for e
    using T'(4) within_step [of e "time T" 0] word_zero_iff [of "e - (time T + 1)"] by auto
  then show ?case using T' by (intro exI [of _ T']) (simp add: firing_def bind_assoc)
next
  case (Suc n)
  let ?c = "time T"
  from timer_update_correct_aux [OF Suc.prems(1,2)] obtain T1 where T1: "wheel_ok T1" "\<not> lock T1" "time T1 = ?c + 1"
    "\<forall>e. due T1 e = (if e = ?c \<or> e = ?c + 1 then [] else due T e)"
    "\<forall>push (s::'s). timer_update push T s =
       do { s' \<leftarrow> dispatch_list push (due T ?c @ due T (?c + 1)) s; Some (T1, s') }" by blast
  have n: "n < 2 ^ 31" using Suc.prems by simp
  from Suc.IH [OF T1(1,2) n] obtain T' where T': "wheel_ok T'" "\<not> lock T'" "time T' = ?c + 1 + of_nat (Suc n)"
    "\<forall>e. due T' e = (if unat (e - (?c + 1)) \<le> Suc n then [] else due T1 e)"
    "\<forall>push (s::'s). update_n push (Suc n) T1 s =
       do { s' \<leftarrow> dispatch_list push (firing T1 (?c + 1) (Suc n)) s; Some (T', s') }" unfolding T1(3) by blast
  have "due T' e = (if unat (e - ?c) \<le> Suc (Suc n) then [] else due T e)" for e
    using T'(4) T1(4) within_step [of e ?c "Suc n"] by auto
  moreover have "update_n push (Suc (Suc n)) T s =
       do { s' \<leftarrow> dispatch_list push (firing T ?c (Suc (Suc n))) s; Some (T', s') }" for push and s :: 's
    unfolding firing_step [OF n T1(4)]
    using T1(5) T'(5) by (simp only: update_n.simps(2) [of push "Suc n"]) (simp add: dispatch_list_append bind_assoc)
  ultimately show ?case using T' by (intro exI [of _ T']) (simp add: add.assoc)
qed

text \<open>The wheel does not touch the wall clock.\<close>

definition clocks :: "timer \<Rightarrow> u64 \<times> u64 \<times> u32" where
  "clocks T = (current T, current_point T, starttime T)"

lemma clocks_add_node: "clocks (add_node n T) = clocks T"
  unfolding add_node_place
  by (cases "place_of (time T) (expire n)") (simp_all add: link_near_def link_level_def clocks_def)

lemma clocks_fold: "clocks (fold add_node ns T) = clocks T"
  by (induction ns arbitrary: T) (simp_all add: clocks_add_node)

lemma clocks_level: "clocks (T\<lparr>tlevel := x\<rparr>) = clocks T"
  by (simp add: clocks_def)

lemma clocks_move: "move_place p T = Some T' \<Longrightarrow> clocks T' = clocks T"
  by (induction p T rule: move_place.induct)
     (auto simp: move_list_def link_clear_level_def clocks_fold clocks_level)

lemma clocks_execute: "timer_execute push T s = Some (T', s') \<Longrightarrow> clocks T' = clocks T"
  by (auto simp: timer_execute_def execute_loop_once spin_lock_def spin_unlock_def clocks_def split: if_splits)

lemma clocks_update: "timer_update push T s = Some (T', s') \<Longrightarrow> clocks T' = clocks T"
  by (auto simp: timer_update_def spin_lock_def spin_unlock_def timer_shift_moves
      dest!: clocks_execute clocks_move) (auto simp: clocks_def)

lemma clocks_update_n: "update_n push n T s = Some (T', s') \<Longrightarrow> clocks T' = clocks T"
  by (induction n arbitrary: T s) (auto dest: clocks_update)

lemma wheel_clock_fields:
  fixes T :: timer and a b :: u64
  defines "T0 \<equiv> T\<lparr>current_point := a, current := b\<rparr>"
  shows "wheel_ok T0 = wheel_ok T" "due T0 e = due T e" "firing T0 c n = firing T c n" "lock T0 = lock T" "time T0 = time T"
proof -
  have cell: "cell T0 p = cell T p" for p by (cases p) (simp_all add: T0_def)
  show "wheel_ok T0 = wheel_ok T" "lock T0 = lock T" "time T0 = time T"
    by (simp_all add: wheel_ok_def wheel_shape_def cell) (simp_all add: T0_def)
  have d: "due T0 e = due T e" for e by (simp add: due_def cell) (simp add: T0_def)
  then show "due T0 e = due T e" "firing T0 c n = firing T c n" by (simp_all add: firing_def)
qed

text \<open>(C7) When the monotonic clock has advanced by \<open>n\<close> hundredths of a second,
  \<^verbatim>\<open>ztask_updatetime\<close> moves the wheel by \<open>n\<close> ticks and fires every timer that expires up to
  then, each exactly once, by expiry time and, for equal times, in the order of setting.\<close>

theorem ztask_updatetime_fires:
  assumes "wheel_ok T" "\<not> lock T" "current_point T < cp" "unat (cp - current_point T) < 2 ^ 31"
  shows "\<exists>T'. wheel_ok T' \<and> \<not> lock T' \<and> time T' = time T + ucast (cp - current_point T) \<and>
    current T' = current T + (cp - current_point T) \<and> current_point T' = cp \<and>
    (\<forall>e. due T' e = (if unat (e - time T) \<le> unat (cp - current_point T) then [] else due T e)) \<and>
    (\<forall>push (s::'s). ztask_updatetime push cp T s =
       do { s' \<leftarrow> dispatch_list push (firing T (time T) (unat (cp - current_point T))) s;
            Some (False, T', s') })"
proof -
  let ?d = "cp - current_point T"
  let ?T = "T\<lparr>current_point := cp, current := current T + ?d\<rparr>"
  have d: "unat (ucast ?d :: u32) = unat ?d" "ucast (ucast ?d :: u32) = ?d"
    using assms(4) by (simp_all add: unsigned_ucast_eq unsigned_take_bit_eq take_bit_nat_eq_self word_unat_eq_iff)
  obtain n where n: "unat ?d = Suc n" using assms(3) by (cases "unat ?d") (auto simp: unat_eq_0)
  have n31: "n < 2 ^ 31" using n assms(4) by simp
  note f = wheel_clock_fields [where T = T and a = cp and b = "current T + ?d"]
  have ok: "wheel_ok ?T" "\<not> lock ?T" using f assms by simp_all
  from update_n_correct [OF ok n31, unfolded f] obtain T' where T': "wheel_ok T'" "\<not> lock T'"
    "time T' = time T + of_nat (Suc n)"
    "\<forall>e. due T' e = (if unat (e - time T) \<le> Suc n then [] else due T e)"
    and run: "\<forall>push (s::'s). update_n push (Suc n) ?T s =
       do { s' \<leftarrow> dispatch_list push (firing T (time T) (Suc n)) s; Some (T', s') }" by blast
  have silent: "dispatch_list (\<lambda>_ _ s. Some (0, s)) ns s = Some s" for ns and s :: 's by (induction ns) auto
  have "clocks T' = clocks ?T"
    by (rule clocks_update_n [of "\<lambda>_ _ s. Some (0, s)" "Suc n" ?T "undefined :: 's" T' undefined])
       (simp only: run silent bind.bind_lunit)
  then have c: "current T' = current T + ?d" "current_point T' = cp" by (simp_all add: clocks_def)
  have tm: "of_nat (Suc n) = (ucast ?d :: u32)" unfolding n [symmetric] by simp
  have "ztask_updatetime push cp T s =
       do { s' \<leftarrow> dispatch_list push (firing T (time T) (unat ?d)) s; Some (False, T', s') }" for push and s :: 's
    using less_not_sym [OF assms(3)] less_imp_neq [OF assms(3), symmetric] run
    unfolding ztask_updatetime_def Let_def d n
    by (simp del: update_n.simps add: bind_assoc)
  then show ?thesis using T' c unfolding n tm by blast
qed

section \<open>Cancelling a timer\<close>

lemma del_loop_returns:
  "del_loop handle session ns lk = Some r \<Longrightarrow> ns = [] \<or> unlink_event handle session ns \<noteq> None"
proof (rule del_loop.raw_induct [where P = "\<lambda>h ss ns lk r. ns = [] \<or> unlink_event h ss ns \<noteq> None"])
  fix dl h ss ns lk y
  assume "\<And>h ss ns lk y. dl h ss ns lk = Some y \<Longrightarrow> ns = [] \<or> unlink_event h ss ns \<noteq> None"
    and "(if ns = [] then Some (False, ns, lk)
      else case unlink_event h ss ns of Some ns' \<Rightarrow> Some (True, ns', False) | None \<Rightarrow> dl h ss ns True) = Some y"
  then show "ns = [] \<or> unlink_event h ss ns \<noteq> None" by (metis option.case(1))
qed

lemma del_loop_cases:
  "del_loop handle session ns lk =
     (if ns = [] then Some (False, [], lk)
      else case unlink_event handle session ns of Some ns' \<Rightarrow> Some (True, ns', False) | None \<Rightarrow> None)"
proof (cases "ns = [] \<or> unlink_event handle session ns \<noteq> None")
  case True
  then show ?thesis by (subst del_loop.simps) (auto split: option.splits)
next
  case False
  then have "del_loop handle session ns lk = None" using del_loop_returns by (metis option.exhaust)
  then show ?thesis using False by simp
qed

lemma del_lists_stuck:
  assumes "ls = replicate k [] @ ns # rest" "ns \<noteq> []" "unlink_event handle session ns = None"
  shows "del_lists handle session ls lk = None"
  using assms by (induction k arbitrary: ls) (simp_all add: del_loop_cases)

lemma del_lists_empty: "del_lists handle session (replicate k []) lk = Some (False, replicate k [], lk)"
  by (induction k) (simp_all add: del_loop_cases)

lemma del_lists_found:
  assumes "ns \<noteq> []" "unlink_event handle session ns = Some ns'"
  shows "del_lists handle session (replicate k [] @ ns # rest) lk = Some (True, replicate k [] @ ns' # rest, False)"
  using assms by (induction k) (simp_all add: del_loop_cases)

lemma unlink_event_None: "unlink_event h ss ns = None \<longleftrightarrow> (\<forall>n \<in> set ns. event n \<noteq> \<lparr>te_handle = h, te_session = ss\<rparr>)"
proof (induction ns)
  case (Cons n ns)
  show ?case using Cons by (cases "event n") (auto split: bind_splits)
qed simp

text \<open>Cancelling a timer that is in the first list that is not empty unlinks exactly its node.\<close>

lemma ztask_timeout_del_found:
  assumes "near T = replicate k [] @ ns # rest" "ns \<noteq> []" "unlink_event handle session ns = Some ns'"
  shows "ztask_timeout_del handle session T = Some (T\<lparr>near := replicate k [] @ ns' # rest, lock := False\<rparr>)"
  using assms(1) del_lists_found [OF assms(2,3), of k rest "lock T"] by (simp add: ztask_timeout_del_def)

text \<open>
  When that list holds other timers only, the search repeats itself, with the lock
  taken and given up each time, as long as no other thread changes the list. Only the
  timer thread, when it dispatches or redistributes the list, can end it.
\<close>

lemma ztask_timeout_del_spins:
  assumes "near T = replicate k [] @ ns # rest" "ns \<noteq> []"
    "\<forall>n \<in> set ns. event n \<noteq> \<lparr>te_handle = handle, te_session = session\<rparr>"
  shows "ztask_timeout_del handle session T = None"
  using del_lists_stuck [OF assms(1,2)] assms(3) by (simp add: ztask_timeout_del_def unlink_event_None)

section \<open>Witnesses\<close>

definition sample_push :: "u32 \<Rightarrow> ztask_message \<Rightarrow> (u32 \<times> cint) list \<Rightarrow> (int \<times> (u32 \<times> cint) list) option" where
  "sample_push h m s = Some (0, s @ [(h, msg_session m)])"

lemma timer_create_ok: "wheel_ok (timer_create_timer\<lparr>time := c\<rparr>)" "\<not> lock (timer_create_timer\<lparr>time := c\<rparr>)"
proof -
  have "cell (timer_create_timer\<lparr>time := c\<rparr>) p = []" if "valid_place p" for p
    using that by (cases p) (simp_all add: timer_create_timer_def time_consts)
  then show "wheel_ok (timer_create_timer\<lparr>time := c\<rparr>)"
    by (intro wheel_okI) (simp_all add: wheel_shape_def timer_create_timer_def time_consts)
qed (simp add: timer_create_timer_def)

text \<open>A wheel just before the clock wraps around, with a node in the level that the wrap distributes.\<close>

definition sample_node :: timer_node where
  "sample_node = \<lparr>expire = 0, event = \<lparr>te_handle = 3, te_session = 9\<rparr>\<rparr>"

definition sample_wheel :: timer where
  "sample_wheel = add_node sample_node (timer_create_timer\<lparr>time := (- 1)\<rparr>)"

lemma sample_wheel_ok: "wheel_ok sample_wheel" "\<not> lock sample_wheel" "time sample_wheel = (- 1)"
  "due sample_wheel (- 1) = []" "due sample_wheel 0 = [sample_node]" "due sample_wheel 1 = []"
proof -
  let ?T = "timer_create_timer\<lparr>time := (- 1)\<rparr>"
  have n: "unat (expire sample_node - time ?T) < 2 ^ 31" by (simp add: sample_node_def)
  note a = add_node_ok [OF timer_create_ok(1) n, folded sample_wheel_def]
  have "due ?T (- 1) = []" "due ?T 0 = []" "due ?T 1 = []"
    by (simp_all add: due_def place_of_def timer_create_timer_def time_consts unsigned_minus_1_eq_mask mask_eq_exp_minus_1)
  then show "wheel_ok sample_wheel" "\<not> lock sample_wheel" "time sample_wheel = (- 1)"
    "due sample_wheel (- 1) = []" "due sample_wheel 0 = [sample_node]" "due sample_wheel 1 = []"
    using a by (simp_all add: sample_node_def timer_create_timer_def)
qed

theorem timer_update_correct_witness:
  "\<exists>T'. timer_update sample_push sample_wheel [] = Some (T', [(3, 9)]) \<and> time T' = 0"
  using timer_update_correct [OF sample_wheel_ok(1,2), where ?'s = "(u32 \<times> cint) list"] sample_wheel_ok(3-5)
  by (auto simp: sample_push_def sample_node_def timer_message_def)

theorem ztask_timeout_correct_witness:
  "\<exists>T'. ztask_timeout sample_push 3 25 9 sample_wheel [] = Some (9, T', []) \<and>
     map (te_session \<circ> event) (due T' 1) = [9]"
proof -
  have "(25 :: cint) div 10 + - 1 = 1" "0 < sint (25 :: cint)" by simp_all
  then show ?thesis
    using ztask_timeout_correct [OF sample_wheel_ok(1,2), of 25 sample_push 3 9 "[]"]
    by (auto simp: sample_wheel_ok(3,6))
qed

theorem ztask_updatetime_fires_witness:
  "\<exists>T'. ztask_updatetime sample_push 2 sample_wheel [] = Some (False, T', [(3, 9)]) \<and> time T' = 1"
proof -
  have p: "current_point sample_wheel = 0"
    using clocks_add_node [of sample_node "timer_create_timer\<lparr>time := - 1\<rparr>", folded sample_wheel_def]
    by (simp add: clocks_def timer_create_timer_def)
  have f: "firing sample_wheel (- 1) 2 = [sample_node]"
    using sample_wheel_ok(4-6) by (simp add: firing_def numeral_2_eq_2)
  have "dispatch_list sample_push [sample_node] [] = Some [(3, 9)]"
    by (simp add: sample_push_def sample_node_def timer_message_def)
  then show ?thesis
    using ztask_updatetime_fires [OF sample_wheel_ok(1,2), of 2, where ?'s = "(u32 \<times> cint) list"]
    by (auto simp: p f sample_wheel_ok(3))
qed

end
