(* ===== verification/Node.thy ===== *)
theory Node
  imports Handle Timer
begin

text \<open>
  A node of the system: the services (\<^verbatim>\<open>struct ztask_context\<close>) with their reference
  counts, the heap of message payloads, and the operations of \<^verbatim>\<open>src/ztask/ztask_server.c\<close>
  on them, together with the small components they call: \<^verbatim>\<open>ztask_module.c\<close>,
  \<^verbatim>\<open>ztask_harbor.c\<close>, \<^verbatim>\<open>ztask_env.c\<close>, \<^verbatim>\<open>ztask_error.c\<close>, \<^verbatim>\<open>ztask_log.c\<close> and
  \<^verbatim>\<open>ztask_monitor.c\<close>. The commands and the sending functions are in theory Command.

  Code outside the program acts on the whole node and is a field of the record \<open>world\<close>:
  the functions of the loaded modules, the service callbacks, the dynamic loader, the
  clock of the thread, \<^verbatim>\<open>fopen\<close> and \<^verbatim>\<open>ctime\<close>. Every operation here is one thread's run of
  the C function; the interleaving of worker threads is the subject of theory Sched.
\<close>

section \<open>Data\<close>

record remote_name =
  rn_name :: string
  rn_handle :: u32

record remote_message =
  rm_destination :: remote_name
  rm_message :: ptr
  rm_sz :: u64
  rm_type :: cint

record socket_message =
  sm_type :: int
  sm_id :: int
  sm_ud :: int
  sm_buffer :: ptr
  sm_rest :: "byte list"

text \<open>What a message points to.\<close>

datatype payload = Bytes "byte list" | Remote remote_message | Socket socket_message

record ztask_module =
  mod_name :: string
  mod_lib :: nat
  mod_create :: "nat option"
  mod_init :: "nat option"
  mod_release :: "nat option"
  mod_signal :: "nat option"

record ztask_context =
  cinstance :: nat
  cmod :: ztask_module
  cb_ud :: "nat option"
  cb :: "nat option"
  cqueue :: qref
  logfile :: "nat option"
  cpu_cost :: u64
  cpu_start :: u64
  result :: string
  chandle :: u32
  session_id :: cint
  cref :: int
  message_count :: u64
  task_count :: u32
  cname :: "string option"
  cinit :: bool
  endless :: bool
  cprofile :: bool
  calling :: bool

text \<open>
  \<^verbatim>\<open>G_NODE\<close>, the handle table \<^verbatim>\<open>H\<close>, the modules \<^verbatim>\<open>M\<close> (their array up to \<^verbatim>\<open>count\<close>), the
  timer \<^verbatim>\<open>TI\<close>, \<^verbatim>\<open>HARBOR\<close>, \<^verbatim>\<open>REMOTE\<close>, the global table of the environment's Lua state, the
  \<^verbatim>\<open>static\<close> variable of \<^verbatim>\<open>ztask_error\<close>, the C heap for contexts and payloads, and the
  open log files with what was written to them.
\<close>

record node = mq_state +
  handle_table :: handle_storage
  ctxs :: "ctxref \<Rightarrow> ztask_context option"
  ctx_brk :: ctxref
  total :: int
  monitor_exit :: u32
  handle_key :: u32
  profile :: bool
  server_wq :: "ctxref list"
  heap :: "nat \<Rightarrow> payload option"
  heap_brk :: nat
  module_path :: string
  module_list :: "ztask_module list"
  wheel :: timer
  harbor_id :: u32
  remote_ctx :: "ctxref option"
  env :: "string \<Rightarrow> string option"
  logger :: u32
  files :: "nat \<Rightarrow> string option"

datatype launch_param = Text string | Snc "string option"

record world =
  w_dlopen :: "string \<Rightarrow> nat option"
  w_dlsym :: "nat \<Rightarrow> string \<Rightarrow> nat option"
  w_create :: "nat \<Rightarrow> node \<Rightarrow> (nat option \<times> node) option"
  w_init :: "nat \<Rightarrow> nat \<Rightarrow> ctxref \<Rightarrow> launch_param \<Rightarrow> nat \<Rightarrow> node \<Rightarrow> (int \<times> node) option"
  w_release :: "nat \<Rightarrow> nat \<Rightarrow> node \<Rightarrow> node option"
  w_signal :: "nat \<Rightarrow> nat \<Rightarrow> int \<Rightarrow> node \<Rightarrow> node option"
  w_cb :: "nat \<Rightarrow> ctxref \<Rightarrow> nat option \<Rightarrow> int \<Rightarrow> cint \<Rightarrow> u32 \<Rightarrow> ptr \<Rightarrow> u64 \<Rightarrow> node \<Rightarrow> (int \<times> node) option"
  w_thread_time :: "node \<Rightarrow> u64"
  w_fopen :: "string \<Rightarrow> node \<Rightarrow> nat option"
  w_ctime :: "u64 \<Rightarrow> string"

definition PTYPE_TEXT :: u32 where "PTYPE_TEXT = 0"
definition PTYPE_CLIENT :: u32 where "PTYPE_CLIENT = 3"
definition PTYPE_SYSTEM :: u32 where "PTYPE_SYSTEM = 4"
definition PTYPE_HARBOR :: u32 where "PTYPE_HARBOR = 5"
definition PTYPE_SOCKET :: u32 where "PTYPE_SOCKET = 6"
definition PTYPE_ERROR :: u32 where "PTYPE_ERROR = 7"
definition PTYPE_TAG_DONTCOPY :: u32 where "PTYPE_TAG_DONTCOPY = 0x10000"
definition PTYPE_TAG_ALLOCSESSION :: u32 where "PTYPE_TAG_ALLOCSESSION = 0x20000"

definition MESSAGE_TYPE_MASK :: u64 where
  "MESSAGE_TYPE_MASK = drop_bit 8 (- 1)"

section \<open>Memory\<close>

definition node_malloc :: "payload \<Rightarrow> node \<Rightarrow> ptr \<times> node" where
  "node_malloc p n = (let a = heap_brk n in (Some a, n\<lparr>heap := (heap n)(a \<mapsto> p), heap_brk := Suc a\<rparr>))"

definition node_free :: "ptr \<Rightarrow> node \<Rightarrow> node option" where
  "node_free p n =
     (case p of
        None \<Rightarrow> Some n
      | Some a \<Rightarrow> do { assert_c (heap n a \<noteq> None); Some (n\<lparr>heap := (heap n)(a := None)\<rparr>) })"

definition ctx_put :: "ctxref \<Rightarrow> ztask_context \<Rightarrow> node \<Rightarrow> node" where
  "ctx_put c x n = n\<lparr>ctxs := (ctxs n)(c \<mapsto> x)\<rparr>"

text \<open>\<^verbatim>\<open>ztask_context_handle\<close>\<close>

definition ztask_context_handle :: "node \<Rightarrow> ctxref \<Rightarrow> u32" where
  "ztask_context_handle n c = (case ctxs n c of Some x \<Rightarrow> chandle x | None \<Rightarrow> 0)"

definition bytes_of :: "string \<Rightarrow> byte list" where
  "bytes_of s = map of_char s"

section \<open>Modules\<close>

definition MAX_MODULE_TYPE :: nat where "MAX_MODULE_TYPE = 32"

text \<open>One pass of the path search: the candidate file name from a path segment without \<^verbatim>\<open>;\<close>,
  \<open>None\<close> when the segment has no \<^verbatim>\<open>?\<close> (the program exits).\<close>

definition candidate :: "string \<Rightarrow> string \<Rightarrow> string option" where
  "candidate seg mname =
     (let i = length (takeWhile (\<lambda>c. c \<noteq> CHR ''?'') seg) in
      if i < length seg then Some (take i seg @ mname @ drop (i + 1) seg) else None)"

datatype open_result = Opened nat | NotFound | Exit

function try_open :: "(string \<Rightarrow> nat option) \<Rightarrow> string \<Rightarrow> string \<Rightarrow> open_result" where
  "try_open dlopen mname path =
     (let path1 = dropWhile (\<lambda>c. c = CHR '';'') path in
      if path1 = [] then NotFound
      else let seg = takeWhile (\<lambda>c. c \<noteq> CHR '';'') path1; rest = dropWhile (\<lambda>c. c \<noteq> CHR '';'') path1 in
           (case candidate seg mname of
              None \<Rightarrow> Exit
            | Some tmp \<Rightarrow>
                (case dlopen tmp of
                   Some dl \<Rightarrow> Opened dl
                 | None \<Rightarrow> try_open dlopen mname rest)))"
  by pat_completeness auto
termination
proof (relation "measure (\<lambda>(d, m, p). length p)", simp)
  fix dlopen :: "string \<Rightarrow> nat option" and mname path path1 seg rest :: string and tmp
  assume "path1 = dropWhile (\<lambda>c. c = CHR '';'') path" "path1 \<noteq> []"
    "rest = dropWhile (\<lambda>c. c \<noteq> CHR '';'') path1"
  moreover have "length path1 \<le> length path" using calculation(1) by (simp add: length_dropWhile_le)
  moreover have "length rest < length path1"
  proof -
    obtain c cs where c: "path1 = c # cs" using \<open>path1 \<noteq> []\<close> by (cases path1) auto
    then have "c \<noteq> CHR '';''" using calculation(1) hd_dropWhile [of "\<lambda>c. c = CHR '';''" path] by auto
    then show ?thesis using c calculation(3) by (simp add: le_imp_less_Suc length_dropWhile_le)
  qed
  ultimately show "((dlopen, mname, rest), dlopen, mname, path) \<in> measure (\<lambda>(d, m, p). length p)"
    by simp
qed

declare try_open.simps [simp del]

text \<open>The entry point \<^verbatim>\<open><name>_create\<close> and so on, with what precedes the last dot removed.\<close>

definition api_symbol :: "string \<Rightarrow> string \<Rightarrow> string" where
  "api_symbol mname api =
     (let tmp = mname @ api in
      if CHR ''.'' \<in> set tmp then rev (takeWhile (\<lambda>c. c \<noteq> CHR ''.'') (rev tmp)) else tmp)"

definition get_api :: "world \<Rightarrow> nat \<Rightarrow> string \<Rightarrow> string \<Rightarrow> nat option" where
  "get_api w lib mname api = w_dlsym w lib (api_symbol mname api)"

definition open_sym :: "world \<Rightarrow> nat \<Rightarrow> string \<Rightarrow> ztask_module" where
  "open_sym w lib mname =
     \<lparr>mod_name = mname, mod_lib = lib, mod_create = get_api w lib mname ''_create'',
      mod_init = get_api w lib mname ''_init'', mod_release = get_api w lib mname ''_release'',
      mod_signal = get_api w lib mname ''_signal''\<rparr>"

definition query_module :: "string \<Rightarrow> node \<Rightarrow> ztask_module option" where
  "query_module mname n = find (\<lambda>m. strcmp (mod_name m) mname = 0) (module_list n)"

definition ztask_module_query :: "world \<Rightarrow> string \<Rightarrow> node \<Rightarrow> (ztask_module option \<times> node) option" where
  "ztask_module_query w mname n =
     (case query_module mname n of
        Some m \<Rightarrow> Some (Some m, n)
      | None \<Rightarrow>
          if length (module_list n) < MAX_MODULE_TYPE
          then (case try_open (w_dlopen w) mname (module_path n) of
                  Exit \<Rightarrow> None
                | NotFound \<Rightarrow> Some (None, n)
                | Opened dl \<Rightarrow>
                    let m = open_sym w dl mname in
                    if mod_init m \<noteq> None
                    then Some (Some m, n\<lparr>module_list := module_list n @ [m]\<rparr>)
                    else Some (None, n))
          else Some (None, n))"

definition ztask_module_insert :: "ztask_module \<Rightarrow> node \<Rightarrow> node option" where
  "ztask_module_insert m n =
     do { assert_c (query_module (mod_name m) n = None \<and> length (module_list n) < MAX_MODULE_TYPE);
          Some (n\<lparr>module_list := module_list n @ [m]\<rparr>) }"

text \<open>\<^verbatim>\<open>(void *)(intptr_t)(~0)\<close> for a module without a \<^verbatim>\<open>create\<close> function.\<close>

definition ztask_module_instance_create :: "world \<Rightarrow> ztask_module \<Rightarrow> node \<Rightarrow> (nat option \<times> node) option" where
  "ztask_module_instance_create w m n =
     (case mod_create m of Some f \<Rightarrow> w_create w f n | None \<Rightarrow> Some (Some (2 ^ 64 - 1), n))"

definition ztask_module_instance_init ::
  "world \<Rightarrow> ztask_module \<Rightarrow> nat \<Rightarrow> ctxref \<Rightarrow> launch_param \<Rightarrow> nat \<Rightarrow> node \<Rightarrow> (int \<times> node) option" where
  "ztask_module_instance_init w m inst c parm sz n =
     do { f \<leftarrow> mod_init m; w_init w f inst c parm sz n }"

definition ztask_module_instance_release :: "world \<Rightarrow> ztask_module \<Rightarrow> nat \<Rightarrow> node \<Rightarrow> node option" where
  "ztask_module_instance_release w m inst n =
     (case mod_release m of Some f \<Rightarrow> w_release w f inst n | None \<Rightarrow> Some n)"

definition ztask_module_instance_signal :: "world \<Rightarrow> ztask_module \<Rightarrow> nat \<Rightarrow> int \<Rightarrow> node \<Rightarrow> node option" where
  "ztask_module_instance_signal w m inst sig n =
     (case mod_signal m of Some f \<Rightarrow> w_signal w f inst sig n | None \<Rightarrow> Some n)"

definition ztask_module_init :: "string \<Rightarrow> node \<Rightarrow> node" where
  "ztask_module_init path n = n\<lparr>module_path := path, module_list := []\<rparr>"

section \<open>The environment\<close>

definition ztask_getenv :: "string \<Rightarrow> node \<Rightarrow> string option" where
  "ztask_getenv key n = env n key"

definition ztask_setenv :: "string \<Rightarrow> string \<Rightarrow> node \<Rightarrow> node" where
  "ztask_setenv key val n = n\<lparr>env := (env n)(key \<mapsto> val)\<rparr>"

section \<open>Reference counts\<close>

definition fclose :: "nat \<Rightarrow> node \<Rightarrow> node option" where
  "fclose f n = do { assert_c (files n f \<noteq> None); Some (n\<lparr>files := (files n)(f := None)\<rparr>) }"

definition ztask_context_grab :: "ctxref \<Rightarrow> node \<Rightarrow> node option" where
  "ztask_context_grab c n = do { x \<leftarrow> ctxs n c; Some (ctx_put c (x\<lparr>cref := cref x + 1\<rparr>) n) }"

definition ztask_context_reserve :: "ctxref \<Rightarrow> node \<Rightarrow> node option" where
  "ztask_context_reserve c n = do { n1 \<leftarrow> ztask_context_grab c n; Some (n1\<lparr>total := total n1 - 1\<rparr>) }"

definition delete_context :: "world \<Rightarrow> ctxref \<Rightarrow> node \<Rightarrow> node option" where
  "delete_context w c n =
     do { x \<leftarrow> ctxs n c;
          let n1 = n\<lparr>server_wq := remove1 c (server_wq n)\<rparr>;
          n2 \<leftarrow> (case logfile x of Some f \<Rightarrow> fclose f n1 | None \<Rightarrow> Some n1);
          n3 \<leftarrow> ztask_module_instance_release w (cmod x) (cinstance x) n2;
          n4 \<leftarrow> ztask_mq_mark_release (cqueue x) n3;
          Some (n4\<lparr>ctxs := (ctxs n4)(c := None), total := total n4 - 1\<rparr>) }"

text \<open>The result tells whether the context is still there.\<close>

definition ztask_context_release :: "world \<Rightarrow> ctxref \<Rightarrow> node \<Rightarrow> (bool \<times> node) option" where
  "ztask_context_release w c n =
     do { x \<leftarrow> ctxs n c;
          let n1 = ctx_put c (x\<lparr>cref := cref x - 1\<rparr>) n;
          if cref x - 1 = 0 then do { n2 \<leftarrow> delete_context w c n1; Some (False, n2) }
          else Some (True, n1) }"

definition handle_grab :: "u32 \<Rightarrow> node \<Rightarrow> (ctxref option \<times> node) option" where
  "handle_grab handle n =
     do { r \<leftarrow> ztask_handle_grab (ztask_context_handle n) handle (handle_table n);
          (case r of
             None \<Rightarrow> Some (None, n)
           | Some c \<Rightarrow> do { n1 \<leftarrow> ztask_context_grab c n; Some (Some c, n1) }) }"

definition handle_retire :: "world \<Rightarrow> u32 \<Rightarrow> node \<Rightarrow> (bool \<times> node) option" where
  "handle_retire w handle n =
     do { (r, tab) \<leftarrow> ztask_handle_retire (ztask_context_handle n) handle (handle_table n);
          let n1 = n\<lparr>handle_table := tab\<rparr>;
          (case r of
             None \<Rightarrow> Some (False, n1)
           | Some c \<Rightarrow> do { (_, n2) \<leftarrow> ztask_context_release w c n1; Some (True, n2) }) }"

text \<open>The sweep of \<^verbatim>\<open>ztask_handle_retireall\<close> over the slots from \<open>i\<close>, counting the handles
  it retired; \<open>slot_size\<close> is read again in each round.\<close>

partial_function (option) retire_sweep :: "world \<Rightarrow> nat \<Rightarrow> nat \<Rightarrow> node \<Rightarrow> (nat \<times> node) option" where
  "retire_sweep w i k n =
     (if i < slot_size (handle_table n)
      then do { cell \<leftarrow> array_get (slot (handle_table n)) i;
                let handle = (case cell of Some c \<Rightarrow> ztask_context_handle n c | None \<Rightarrow> 0);
                if handle \<noteq> 0
                then do { (r, n1) \<leftarrow> handle_retire w handle n;
                          retire_sweep w (i + 1) (if r then k + 1 else k) n1 }
                else retire_sweep w (i + 1) k n }
      else Some (k, n))"

partial_function (option) ztask_handle_retireall :: "world \<Rightarrow> node \<Rightarrow> node option" where
  "ztask_handle_retireall w n =
     do { (k, n1) \<leftarrow> retire_sweep w 0 0 n;
          if k = 0 then Some n1 else ztask_handle_retireall w n1 }"

section \<open>Delivering a message\<close>

definition ztask_context_push :: "world \<Rightarrow> u32 \<Rightarrow> ztask_message \<Rightarrow> node \<Rightarrow> (int \<times> node) option" where
  "ztask_context_push w handle message n =
     do { (r, n1) \<leftarrow> handle_grab handle n;
          (case r of
             None \<Rightarrow> Some (-1, n1)
           | Some c \<Rightarrow>
               do { x \<leftarrow> ctxs n1 c;
                    n2 \<leftarrow> ztask_mq_push (cqueue x) message n1;
                    (_, n3) \<leftarrow> ztask_context_release w c n2;
                    Some (0, n3) }) }"

definition ztask_context_send ::
  "ctxref \<Rightarrow> ptr \<Rightarrow> u64 \<Rightarrow> u32 \<Rightarrow> u32 \<Rightarrow> cint \<Rightarrow> node \<Rightarrow> node option" where
  "ztask_context_send c msg sz source typ session n =
     do { x \<leftarrow> ctxs n c;
          ztask_mq_push (cqueue x)
            \<lparr>msg_source = source, msg_session = session, msg_data = msg,
             msg_sz = sz OR push_bit MESSAGE_TYPE_SHIFT (ucast typ)\<rparr> n }"

definition ztask_context_endless :: "world \<Rightarrow> u32 \<Rightarrow> node \<Rightarrow> node option" where
  "ztask_context_endless w handle n =
     do { (r, n1) \<leftarrow> handle_grab handle n;
          (case r of
             None \<Rightarrow> Some n1
           | Some c \<Rightarrow>
               do { x \<leftarrow> ctxs n1 c;
                    (_, n2) \<leftarrow> ztask_context_release w c (ctx_put c (x\<lparr>endless := True\<rparr>) n1);
                    Some n2 }) }"

section \<open>Error messages\<close>

definition LOG_MESSAGE_SIZE :: nat where "LOG_MESSAGE_SIZE = 256"

text \<open>The loop that doubles the buffer until the text fits, with its allocations; \<open>text\<close> is what
  \<^verbatim>\<open>vsnprintf\<close> produces in a buffer that is large enough.\<close>

function error_loop :: "string \<Rightarrow> nat \<Rightarrow> node \<Rightarrow> (ptr \<times> node) option" where
  "error_loop text max_size n =
     (if max_size = 0 then None
      else let max_size = max_size * 2; (data, n1) = node_malloc (Bytes (bytes_of (take (max_size - 1) text))) n in
           if length text < max_size then Some (data, n1)
           else do { n2 \<leftarrow> node_free data n1; error_loop text max_size n2 })"
  by pat_completeness auto
termination
  by (relation "measure (\<lambda>(x, m, n). length x - m)") auto

declare error_loop.simps [simp del]

definition ztask_error :: "world \<Rightarrow> ctxref option \<Rightarrow> string \<Rightarrow> node \<Rightarrow> node option" where
  "ztask_error w c text n =
     do { n1 \<leftarrow> (if logger n = 0
                  then do { h \<leftarrow> ztask_handle_findname ''logger'' (handle_table n); Some (n\<lparr>logger := h\<rparr>) }
                  else Some n);
          if logger n1 = 0 then Some n1
          else do { (data, n2) \<leftarrow>
                      (if length text < LOG_MESSAGE_SIZE then Some (node_malloc (Bytes (bytes_of text)) n1)
                       else error_loop text LOG_MESSAGE_SIZE n1);
                    source \<leftarrow> (case c of
                                None \<Rightarrow> Some 0
                              | Some r \<Rightarrow> do { x \<leftarrow> ctxs n2 r; Some (chandle x) });
                    (_, n3) \<leftarrow> ztask_context_push w (logger n2)
                      \<lparr>msg_source = source, msg_session = 0, msg_data = data,
                       msg_sz = of_nat (length text) OR push_bit MESSAGE_TYPE_SHIFT (ucast PTYPE_TEXT)\<rparr> n2;
                    Some n3 } }"

section \<open>Harbor\<close>

definition invalid_type :: "cint \<Rightarrow> bool" where
  "invalid_type typ = (typ \<noteq> PTYPE_SYSTEM \<and> typ \<noteq> PTYPE_HARBOR)"

definition ztask_harbor_send :: "remote_message \<Rightarrow> ptr \<Rightarrow> u32 \<Rightarrow> cint \<Rightarrow> node \<Rightarrow> node option" where
  "ztask_harbor_send rmsg p source session n =
     do { assert_c (invalid_type (rm_type rmsg));
          c \<leftarrow> remote_ctx n;
          ztask_context_send c p 48 source PTYPE_SYSTEM session n }"

definition ztask_harbor_message_isremote :: "u32 \<Rightarrow> node \<Rightarrow> bool option" where
  "ztask_harbor_message_isremote handle n =
     do { assert_c (harbor_id n \<noteq> NOT 0);
          let h = handle AND NOT HANDLE_MASK;
          Some (h \<noteq> harbor_id n \<and> h \<noteq> 0) }"

definition ztask_harbor_init :: "u32 \<Rightarrow> node \<Rightarrow> node" where
  "ztask_harbor_init h n = n\<lparr>harbor_id := push_bit HANDLE_REMOTE_SHIFT h\<rparr>"

definition ztask_harbor_start :: "ctxref \<Rightarrow> node \<Rightarrow> node option" where
  "ztask_harbor_start c n = do { n1 \<leftarrow> ztask_context_reserve c n; Some (n1\<lparr>remote_ctx := Some c\<rparr>) }"

definition ztask_harbor_exit :: "world \<Rightarrow> node \<Rightarrow> node option" where
  "ztask_harbor_exit w n =
     (let n1 = n\<lparr>remote_ctx := None\<rparr> in
      case remote_ctx n of
        None \<Rightarrow> Some n1
      | Some c \<Rightarrow> do { (_, n2) \<leftarrow> ztask_context_release w c n1; Some n2 })"

definition ztask_isremote :: "u32 \<Rightarrow> node \<Rightarrow> (bool \<times> u32) option" where
  "ztask_isremote handle n =
     do { ret \<leftarrow> ztask_harbor_message_isremote handle n;
          Some (ret, drop_bit HANDLE_REMOTE_SHIFT handle) }"

section \<open>Sending\<close>

definition ztask_context_newsession :: "ztask_context \<Rightarrow> cint \<times> ztask_context" where
  "ztask_context_newsession x =
     (let session = session_id x + 1 in
      if sint session \<le> 0 then (1, x\<lparr>session_id := 1\<rparr>) else (session, x\<lparr>session_id := session\<rparr>))"

text \<open>The copy that \<^verbatim>\<open>_filter_args\<close> makes; the zero byte behind it is not part of the payload.\<close>

definition copy_payload :: "ptr \<Rightarrow> u64 \<Rightarrow> node \<Rightarrow> (ptr \<times> node) option" where
  "copy_payload data sz n =
     (case data of
        None \<Rightarrow> Some (None, n)
      | Some a \<Rightarrow>
          (case heap n a of
             Some (Bytes bs) \<Rightarrow>
               do { assert_c (unat sz \<le> length bs); Some (node_malloc (Bytes (take (unat sz) bs)) n) }
           | _ \<Rightarrow> None))"

definition filter_args ::
  "ctxref option \<Rightarrow> u32 \<Rightarrow> cint \<Rightarrow> ptr \<Rightarrow> u64 \<Rightarrow> node \<Rightarrow> (cint \<times> ptr \<times> u64 \<times> node) option" where
  "filter_args c typ session data sz n =
     do { (session1, n1) \<leftarrow>
            (if typ AND PTYPE_TAG_ALLOCSESSION \<noteq> 0
             then do { assert_c (session = 0);
                       r \<leftarrow> c;
                       x \<leftarrow> ctxs n r;
                       let (s, x1) = ztask_context_newsession x;
                       Some (s, ctx_put r x1 n) }
             else Some (session, n));
          (data1, n2) \<leftarrow> (if typ AND PTYPE_TAG_DONTCOPY = 0 then copy_payload data sz n1 else Some (data, n1));
          Some (session1, data1, sz OR push_bit MESSAGE_TYPE_SHIFT (ucast (typ AND 0xff)), n2) }"

definition ztask_send ::
  "world \<Rightarrow> ctxref option \<Rightarrow> u32 \<Rightarrow> u32 \<Rightarrow> u32 \<Rightarrow> cint \<Rightarrow> ptr \<Rightarrow> u64 \<Rightarrow> node \<Rightarrow> (cint \<times> node) option" where
  "ztask_send w c source destination typ session data sz n =
     (if sz AND MESSAGE_TYPE_MASK \<noteq> sz
      then do { n1 \<leftarrow> ztask_error w c (''The message to '' @ fmt_x destination @ '' is too large'') n;
                n2 \<leftarrow> (if typ AND PTYPE_TAG_DONTCOPY \<noteq> 0 then node_free data n1 else Some n1);
                Some (-1, n2) }
      else
        do { (session1, data1, sz1, n1) \<leftarrow> filter_args c typ session data sz n;
             source1 \<leftarrow> (if source = 0 then do { r \<leftarrow> c; x \<leftarrow> ctxs n1 r; Some (chandle x) } else Some source);
             if destination = 0 then Some (session1, n1)
             else do { remote \<leftarrow> ztask_harbor_message_isremote destination n1;
                       if remote
                       then let rmsg = \<lparr>rm_destination = \<lparr>rn_name = [], rn_handle = destination\<rparr>, rm_message = data1,
                                        rm_sz = sz1 AND MESSAGE_TYPE_MASK, rm_type = ucast (drop_bit MESSAGE_TYPE_SHIFT sz1)\<rparr>;
                                (p, n2) = node_malloc (Remote rmsg) n1
                            in do { n3 \<leftarrow> ztask_harbor_send rmsg p source1 session1 n2; Some (session1, n3) }
                       else do { (r, n2) \<leftarrow> ztask_context_push w destination
                                   \<lparr>msg_source = source1, msg_session = session1, msg_data = data1, msg_sz = sz1\<rparr> n1;
                                 if r \<noteq> 0 then do { n3 \<leftarrow> node_free data1 n2; Some (-1, n3) }
                                 else Some (session1, n2) } } })"

definition GLOBALNAME_LENGTH :: nat where "GLOBALNAME_LENGTH = 16"

text \<open>The name up to its end, cut at 16 characters and padded with zero characters.\<close>

definition copy_name :: "string \<Rightarrow> string" where
  "copy_name addr = take GLOBALNAME_LENGTH addr @ replicate (GLOBALNAME_LENGTH - length addr) (CHR 0x00)"

definition parse_handle :: "string \<Rightarrow> u32" where
  "parse_handle s = ucast (strtoul 16 s)"

definition ztask_sendname ::
  "world \<Rightarrow> ctxref \<Rightarrow> u32 \<Rightarrow> string \<Rightarrow> u32 \<Rightarrow> cint \<Rightarrow> ptr \<Rightarrow> u64 \<Rightarrow> node \<Rightarrow> (cint \<times> node) option" where
  "ztask_sendname w c source addr typ session data sz n =
     do { x \<leftarrow> ctxs n c;
          let source1 = (if source = 0 then chandle x else source);
          if take 1 addr = '':''
          then ztask_send w (Some c) source1 (parse_handle (tl addr)) typ session data sz n
          else if take 1 addr = ''.''
          then do { des \<leftarrow> ztask_handle_findname (tl addr) (handle_table n);
                    if des = 0
                    then do { n1 \<leftarrow> (if typ AND PTYPE_TAG_DONTCOPY \<noteq> 0 then node_free data n else Some n);
                              Some (-1, n1) }
                    else ztask_send w (Some c) source1 des typ session data sz n }
          else do { (session1, data1, sz1, n1) \<leftarrow> filter_args (Some c) typ session data sz n;
                    let rmsg = \<lparr>rm_destination = \<lparr>rn_name = copy_name addr, rn_handle = 0\<rparr>, rm_message = data1,
                                rm_sz = sz1 AND MESSAGE_TYPE_MASK, rm_type = ucast (drop_bit MESSAGE_TYPE_SHIFT sz1)\<rparr>;
                    let (p, n2) = node_malloc (Remote rmsg) n1;
                    n3 \<leftarrow> ztask_harbor_send rmsg p source1 session1 n2;
                    Some (session1, n3) } }"

text \<open>\<open>handle\<close> is the field of \<^verbatim>\<open>struct drop_t\<close>.\<close>

definition drop_message :: "world \<Rightarrow> u32 \<Rightarrow> ztask_message \<Rightarrow> node \<Rightarrow> node option" where
  "drop_message w handle msg n =
     do { n1 \<leftarrow> node_free (msg_data msg) n;
          assert_c (handle \<noteq> 0);
          (_, n2) \<leftarrow> ztask_send w None handle (msg_source msg) PTYPE_ERROR 0 None 0 n1;
          Some n2 }"

section \<open>Log files\<close>

definition fprint :: "nat \<Rightarrow> string \<Rightarrow> node \<Rightarrow> node option" where
  "fprint f s n = do { x \<leftarrow> files n f; Some (n\<lparr>files := (files n)(f \<mapsto> x @ s)\<rparr>) }"

definition hex2 :: "byte \<Rightarrow> string" where
  "hex2 b = [digit_char (unat b div 16), digit_char (unat b mod 16)]"

primrec log_blob :: "nat \<Rightarrow> byte list \<Rightarrow> node \<Rightarrow> node option" where
  "log_blob f [] n = Some n"
| "log_blob f (b # bs) n = do { n1 \<leftarrow> fprint f (hex2 b) n; log_blob f bs n1 }"

definition payload_bytes :: "ptr \<Rightarrow> nat \<Rightarrow> node \<Rightarrow> byte list option" where
  "payload_bytes p sz n =
     (if sz = 0 then Some []
      else do { a \<leftarrow> p;
                pl \<leftarrow> heap n a;
                (case pl of Bytes bs \<Rightarrow> do { assert_c (sz \<le> length bs); Some (take sz bs) } | _ \<Rightarrow> None) })"

text \<open>\<^verbatim>\<open>%*s\<close> takes the width \<open>sz\<close>, not a precision: the C string behind the message is printed to its zero
  byte, padded on the left.\<close>

definition log_socket :: "nat \<Rightarrow> socket_message \<Rightarrow> node \<Rightarrow> node option" where
  "log_socket f m n =
     do { n1 \<leftarrow> fprint f (''[socket] '' @ fmt_d (sm_type m) @ '' '' @ fmt_d (sm_id m) @ '' '' @ fmt_d (sm_ud m) @ '' '') n;
          n2 \<leftarrow> (case sm_buffer m of
                   None \<Rightarrow>
                     do { assert_c (0 \<in> set (sm_rest m));
                          let txt = map (char_of \<circ> (unat :: byte \<Rightarrow> nat)) (takeWhile (\<lambda>b. b \<noteq> 0) (sm_rest m));
                          fprint f (CHR ''['' # txt @ '']'') n1 }
                 | Some a \<Rightarrow> do { assert_c (0 \<le> sm_ud m);
                                 bs \<leftarrow> payload_bytes (Some a) (nat (sm_ud m)) n1; log_blob f bs n1 });
          fprint f [CHR 0x0A] n2 }"

definition ztask_log_output :: "nat \<Rightarrow> u32 \<Rightarrow> int \<Rightarrow> cint \<Rightarrow> ptr \<Rightarrow> u64 \<Rightarrow> node \<Rightarrow> node option" where
  "ztask_log_output f source typ session buffer sz n =
     (if typ = 6
      then do { a \<leftarrow> buffer;
                pl \<leftarrow> heap n a;
                (case pl of Socket m \<Rightarrow> log_socket f m n | _ \<Rightarrow> None) }
      else do { n1 \<leftarrow> fprint f (CHR '':'' # fmt_08x source @ '' '' @ fmt_d typ @ '' '' @ fmt_d (sint session) @ '' '' @
                                fmt_u (ucast (ztask_now (wheel n))) @ '' '') n;
                bs \<leftarrow> payload_bytes buffer (unat sz) n1;
                n2 \<leftarrow> log_blob f bs n1;
                fprint f [CHR 0x0A] n2 })"

definition ztask_log_open :: "world \<Rightarrow> ctxref \<Rightarrow> u32 \<Rightarrow> node \<Rightarrow> (nat option \<times> node) option" where
  "ztask_log_open w c handle n =
     (case ztask_getenv ''logpath'' n of
        None \<Rightarrow> Some (None, n)
      | Some logpath \<Rightarrow>
          let tmp = logpath @ ''/'' @ fmt_08x handle @ ''.log'' in
          (case w_fopen w tmp n of
             Some f \<Rightarrow>
               let currenttime = ztask_now (wheel n);
                   ti = ucast (ztask_starttime (wheel n)) + currenttime div 100 in
               do { n1 \<leftarrow> ztask_error w (Some c) (''Open log file '' @ tmp) (n\<lparr>files := (files n)(f \<mapsto> [])\<rparr>);
                    n2 \<leftarrow> fprint f (''open time: '' @ fmt_u (ucast currenttime) @ '' '' @ w_ctime w ti) n1;
                    Some (Some f, n2) }
           | None \<Rightarrow>
               do { n1 \<leftarrow> ztask_error w (Some c) (''Open log file '' @ tmp @ '' fail'') n;
                    Some (None, n1) }))"

definition ztask_log_close :: "world \<Rightarrow> ctxref \<Rightarrow> nat \<Rightarrow> u32 \<Rightarrow> node \<Rightarrow> node option" where
  "ztask_log_close w c f handle n =
     do { n1 \<leftarrow> ztask_error w (Some c) (''Close log file :'' @ fmt_08x handle) n;
          n2 \<leftarrow> fprint f (''close time: '' @ fmt_u (ucast (ztask_now (wheel n1))) @ [CHR 0x0A]) n1;
          fclose f n2 }"

section \<open>Monitor\<close>

record ztask_monitor =
  version :: cint
  check_version :: cint
  mon_source :: u32
  mon_destination :: u32

definition ztask_monitor_new :: ztask_monitor where
  "ztask_monitor_new = \<lparr>version = 0, check_version = 0, mon_source = 0, mon_destination = 0\<rparr>"

definition ztask_monitor_trigger :: "u32 \<Rightarrow> u32 \<Rightarrow> ztask_monitor \<Rightarrow> ztask_monitor" where
  "ztask_monitor_trigger source destination sm =
     sm\<lparr>mon_source := source, mon_destination := destination, version := version sm + 1\<rparr>"

definition ztask_monitor_check :: "world \<Rightarrow> ztask_monitor \<Rightarrow> node \<Rightarrow> (ztask_monitor \<times> node) option" where
  "ztask_monitor_check w sm n =
     (if version sm = check_version sm
      then if mon_destination sm \<noteq> 0
           then do { n1 \<leftarrow> ztask_context_endless w (mon_destination sm) n;
                     n2 \<leftarrow> ztask_error w None (''A message from [ :'' @ fmt_08x (mon_source sm) @ '' ] to [ :'' @
                             fmt_08x (mon_destination sm) @ '' ] maybe in an endless loop (version = '' @
                             fmt_d (sint (version sm)) @ '')'') n1;
                     Some (sm, n2) }
           else Some (sm, n)
      else Some (sm\<lparr>check_version := version sm\<rparr>, n))"

section \<open>Dispatching messages\<close>

definition call_begin :: "ctxref \<Rightarrow> node \<Rightarrow> node option" where
  "call_begin c n = do { x \<leftarrow> ctxs n c; assert_c (\<not> calling x); Some (ctx_put c (x\<lparr>calling := True\<rparr>) n) }"

definition call_end :: "ctxref \<Rightarrow> node \<Rightarrow> node option" where
  "call_end c n = do { x \<leftarrow> ctxs n c; Some (ctx_put c (x\<lparr>calling := False\<rparr>) n) }"

definition dispatch_message :: "world \<Rightarrow> ctxref \<Rightarrow> ztask_message \<Rightarrow> node \<Rightarrow> node option" where
  "dispatch_message w c msg n =
     do { x \<leftarrow> ctxs n c;
          assert_c (cinit x);
          n1 \<leftarrow> call_begin c n;
          let n2 = n1\<lparr>handle_key := chandle x\<rparr>;
          let typ = int (unat (drop_bit MESSAGE_TYPE_SHIFT (msg_sz msg)));
          let sz = msg_sz msg AND MESSAGE_TYPE_MASK;
          n3 \<leftarrow> (case logfile x of
                   Some f \<Rightarrow> ztask_log_output f (msg_source msg) typ (msg_session msg) (msg_data msg) sz n2
                 | None \<Rightarrow> Some n2);
          x3 \<leftarrow> ctxs n3 c;
          let n4 = ctx_put c (x3\<lparr>message_count := message_count x3 + 1\<rparr>) n3;
          x4 \<leftarrow> ctxs n4 c;
          f \<leftarrow> cb x4;
          (reserve_msg, n5) \<leftarrow>
            (if cprofile x4
             then do { let start = w_thread_time w n4;
                       (r, m1) \<leftarrow> w_cb w f c (cb_ud x4) typ (msg_session msg) (msg_source msg) (msg_data msg) sz
                                   (ctx_put c (x4\<lparr>cpu_start := start\<rparr>) n4);
                       y \<leftarrow> ctxs m1 c;
                       Some (r, ctx_put c (y\<lparr>cpu_cost := cpu_cost y + (w_thread_time w m1 - cpu_start y)\<rparr>) m1) }
             else w_cb w f c (cb_ud x4) typ (msg_session msg) (msg_source msg) (msg_data msg) sz n4);
          n6 \<leftarrow> (if reserve_msg = 0 then node_free (msg_data msg) n5 else Some n5);
          call_end c n6 }"

text \<open>A pop from a queue of the store.\<close>

definition queue_pop :: "qref \<Rightarrow> node \<Rightarrow> (ztask_message option \<times> node) option" where
  "queue_pop q n =
     do { mq \<leftarrow> mq_mem n q;
          (r, mq1) \<leftarrow> ztask_mq_pop mq;
          Some (r, mq_put q mq1 n) }"

partial_function (option) ztask_context_dispatchall :: "world \<Rightarrow> ctxref \<Rightarrow> node \<Rightarrow> node option" where
  "ztask_context_dispatchall w c n =
     do { x \<leftarrow> ctxs n c;
          (r, n1) \<leftarrow> queue_pop (cqueue x) n;
          (case r of
             None \<Rightarrow> Some n1
           | Some msg \<Rightarrow> do { n2 \<leftarrow> dispatch_message w c msg n1; ztask_context_dispatchall w c n2 }) }"

text \<open>One round of the loop of \<^verbatim>\<open>ztask_context_message_dispatch\<close> after a message was popped.\<close>

definition dispatch_round ::
  "world \<Rightarrow> ctxref \<Rightarrow> qref \<Rightarrow> u32 \<Rightarrow> ztask_message \<Rightarrow> ztask_monitor \<Rightarrow> node \<Rightarrow> (ztask_monitor \<times> node) option" where
  "dispatch_round w c q handle msg sm n =
     do { mq \<leftarrow> mq_mem n q;
          let (overload, mq1) = ztask_mq_overload mq;
          let n1 = mq_put q mq1 n;
          n2 \<leftarrow> (if overload \<noteq> 0
                  then ztask_error w (Some c) (''May overload, message queue length = '' @ fmt_d overload) n1
                  else Some n1);
          let sm1 = ztask_monitor_trigger (msg_source msg) handle sm;
          x \<leftarrow> ctxs n2 c;
          n3 \<leftarrow> (if cb x = None then node_free (msg_data msg) n2 else dispatch_message w c msg n2);
          Some (ztask_monitor_trigger 0 0 sm1, n3) }"

text \<open>The rounds after the first; \<open>False\<close> when the queue ran empty.\<close>

primrec dispatch_rounds ::
  "world \<Rightarrow> ctxref \<Rightarrow> qref \<Rightarrow> u32 \<Rightarrow> nat \<Rightarrow> ztask_monitor \<Rightarrow> node \<Rightarrow> (bool \<times> ztask_monitor \<times> node) option" where
  "dispatch_rounds w c q handle 0 sm n = Some (True, sm, n)"
| "dispatch_rounds w c q handle (Suc k) sm n =
     do { (r, n1) \<leftarrow> queue_pop q n;
          (case r of
             None \<Rightarrow> Some (False, sm, n1)
           | Some msg \<Rightarrow> do { (sm1, n2) \<leftarrow> dispatch_round w c q handle msg sm n1;
                              dispatch_rounds w c q handle k sm1 n2 }) }"

definition dispatch_loop ::
  "world \<Rightarrow> ctxref \<Rightarrow> qref \<Rightarrow> u32 \<Rightarrow> int \<Rightarrow> ztask_monitor \<Rightarrow> node \<Rightarrow> (bool \<times> ztask_monitor \<times> node) option" where
  "dispatch_loop w c q handle weight sm n =
     do { (r, n1) \<leftarrow> queue_pop q n;
          (case r of
             None \<Rightarrow> Some (False, sm, n1)
           | Some msg \<Rightarrow>
               do { mq \<leftarrow> mq_mem n1 q;
                    let k = (if 0 \<le> weight then ztask_mq_length mq div 2 ^ nat weight else 1);
                    (sm1, n2) \<leftarrow> dispatch_round w c q handle msg sm n1;
                    dispatch_rounds w c q handle (k - 1) sm1 n2 }) }"

definition ztask_context_message_dispatch ::
  "world \<Rightarrow> ztask_monitor \<Rightarrow> qref option \<Rightarrow> int \<Rightarrow> node \<Rightarrow> (qref option \<times> ztask_monitor \<times> node) option" where
  "ztask_context_message_dispatch w sm q0 weight n =
     do { (q1, n1) \<leftarrow> (case q0 of None \<Rightarrow> ztask_globalmq_pop n | Some q \<Rightarrow> Some (Some q, n));
          (case q1 of
             None \<Rightarrow> Some (None, sm, n1)
           | Some q \<Rightarrow>
               do { mq \<leftarrow> mq_mem n1 q;
                    let handle = ztask_mq_handle mq;
                    (r, n2) \<leftarrow> handle_grab handle n1;
                    (case r of
                       None \<Rightarrow>
                         do { n3 \<leftarrow> ztask_mq_release (drop_message w handle) q n2;
                              (nq, n4) \<leftarrow> ztask_globalmq_pop n3;
                              Some (nq, sm, n4) }
                     | Some c \<Rightarrow>
                         do { (full, sm1, n3) \<leftarrow> dispatch_loop w c q handle weight sm n2;
                              if \<not> full
                              then do { (_, n4) \<leftarrow> ztask_context_release w c n3;
                                        (nq, n5) \<leftarrow> ztask_globalmq_pop n4;
                                        Some (nq, sm1, n5) }
                              else do { x \<leftarrow> ctxs n3 c;
                                        assert_c (q = cqueue x);
                                        (nq, n4) \<leftarrow> ztask_globalmq_pop n3;
                                        n5 \<leftarrow> (if nq \<noteq> None then ztask_globalmq_push q n4 else Some n4);
                                        (_, n6) \<leftarrow> ztask_context_release w c n5;
                                        Some (if nq \<noteq> None then nq else Some q, sm1, n6) } }) }) }"

section \<open>Creating a service\<close>

definition launch_text :: "string \<Rightarrow> launch_param \<Rightarrow> string option" where
  "launch_text mname param =
     (if take 3 mname = ''snc''
      then (case param of
              Snc (Some nm) \<Rightarrow> Some (''LAUNCH '' @ mname @ '' '' @ nm)
            | Snc None \<Rightarrow> Some (''LAUNCH '' @ mname)
            | Text _ \<Rightarrow> None)
      else if take 5 mname = ''snlua''
      then (case param of Text p \<Rightarrow> Some (''LAUNCH '' @ mname @ '' '' @ p) | Snc _ \<Rightarrow> None)
      else Some (''LAUNCH '' @ mname))"

definition context_init :: "ztask_module \<Rightarrow> nat \<Rightarrow> node \<Rightarrow> ztask_context" where
  "context_init m inst n =
     \<lparr>cinstance = inst, cmod = m, cb_ud = None, cb = None, cqueue = 0, logfile = None, cpu_cost = 0,
      cpu_start = 0, result = [], chandle = 0, session_id = 0, cref = 2, message_count = 0, task_count = 0,
      cname = None, cinit = False, endless = False, cprofile = profile n, calling = False\<rparr>"

text \<open>The part of \<^verbatim>\<open>ztask_context_new\<close> before the module's init function runs: the new context
  is registered, gets its queue and enters the list of the services.\<close>

definition context_enter :: "ztask_module \<Rightarrow> nat \<Rightarrow> node \<Rightarrow> (ctxref \<times> u32 \<times> qref \<times> node) option" where
  "context_enter m inst n =
     (let c = ctx_brk n; x = context_init m inst n;
          n1 = (ctx_put c x n)\<lparr>ctx_brk := Suc c\<rparr> in
      do { (h, tab) \<leftarrow> ztask_handle_register (ztask_context_handle n1) c (handle_table n1);
           let (q, n2) = ztask_mq_create h (n1\<lparr>handle_table := tab\<rparr>);
           let n3 = ctx_put c (x\<lparr>chandle := h, cqueue := q\<rparr>) n2;
           Some (c, h, q, n3\<lparr>total := total n3 + 1, server_wq := server_wq n3 @ [c]\<rparr>) })"

definition ztask_context_new ::
  "world \<Rightarrow> string \<Rightarrow> launch_param \<Rightarrow> nat \<Rightarrow> node \<Rightarrow> (ctxref option \<times> node) option" where
  "ztask_context_new w mname param sz n =
     do { (m, n1) \<leftarrow> ztask_module_query w mname n;
          (case m of
             None \<Rightarrow> Some (None, n1)
           | Some md \<Rightarrow>
               do { (inst, n2) \<leftarrow> ztask_module_instance_create w md n1;
                    (case inst of
                       None \<Rightarrow> Some (None, n2)
                     | Some i \<Rightarrow>
                         do { (c, handle, q, n3) \<leftarrow> context_enter md i n2;
                              n4 \<leftarrow> call_begin c n3;
                              (r, n5) \<leftarrow> ztask_module_instance_init w md i c param sz n4;
                              n6 \<leftarrow> call_end c n5;
                              if r = 0
                              then do { (alive, n7) \<leftarrow> ztask_context_release w c n6;
                                        n8 \<leftarrow> (if alive then do { x \<leftarrow> ctxs n7 c; Some (ctx_put c (x\<lparr>cinit := True\<rparr>) n7) }
                                               else Some n7);
                                        n9 \<leftarrow> ztask_globalmq_push q n8;
                                        if alive
                                        then do { txt \<leftarrow> launch_text mname param;
                                                  n10 \<leftarrow> ztask_error w (Some c) txt n9;
                                                  Some (Some c, n10) }
                                        else Some (None, n9) }
                              else do { n7 \<leftarrow> ztask_error w (Some c) (''FAILED launch '' @ mname) n6;
                                        x \<leftarrow> ctxs n7 c;
                                        (_, n8) \<leftarrow> ztask_context_release w c n7;
                                        (_, n9) \<leftarrow> handle_retire w (chandle x) n8;
                                        n10 \<leftarrow> ztask_mq_release (drop_message w (chandle x)) q n9;
                                        Some (None, n10) } }) }) }"

section \<open>Well-formed nodes\<close>

definition lookup :: "node \<Rightarrow> u32 \<Rightarrow> ctxref option" where
  "lookup n h = handle_map (ztask_context_handle n) (handle_table n) h"

text \<open>A context that can receive: it is allocated and referenced, and its queue can be pushed to.\<close>

definition ready :: "node \<Rightarrow> qref list \<Rightarrow> ctxref \<Rightarrow> bool" where
  "ready n qs c \<longleftrightarrow> (case ctxs n c of
     None \<Rightarrow> False
   | Some x \<Rightarrow> 1 \<le> cref x \<and>
       (case mq_view n (cqueue x) of
          None \<Rightarrow> False
        | Some mq \<Rightarrow> mq_ok mq \<and> (in_global mq \<or> cqueue x \<notin> set qs)))"

definition node_ok :: "node \<Rightarrow> qref list \<Rightarrow> bool" where
  "node_ok n qs \<longleftrightarrow> handles_ok (ztask_context_handle n) (handle_table n) \<and> names_ok (handle_table n) \<and>
     gq_ok n qs \<and> (\<forall>h c. lookup n h = Some c \<longrightarrow> ready n qs c) \<and>
     (\<forall>a. heap_brk n \<le> a \<longrightarrow> heap n a = None) \<and> harbor_id n \<noteq> NOT 0"

lemma readyE:
  assumes "ready n qs c"
  obtains x mq where "ctxs n c = Some x" "1 \<le> cref x" "mq_mem n (cqueue x) = Some mq" "mq_ok mq"
    "in_global mq \<or> cqueue x \<notin> set qs"
  using assms by (auto simp: ready_def mq_view_def split: option.splits)

text \<open>What the queue operations leave alone.\<close>

lemma node_more:
  assumes "mq_state.more m = mq_state.more (n :: node)"
  shows "m = n\<lparr>mq_mem := mq_mem m, mq_brk := mq_brk m, gq_head := gq_head m, gq_tail := gq_tail m\<rparr>"
  using assms by (cases m; cases n) auto

lemma node_more_fields:
  assumes "mq_state.more m = mq_state.more (n :: node)"
  shows "ctxs m = ctxs n" "handle_table m = handle_table n" "heap m = heap n" "heap_brk m = heap_brk n"
    "harbor_id m = harbor_id n" "remote_ctx m = remote_ctx n" "logger m = logger n" "wheel m = wheel n" "env m = env n"
  using assms by (cases m; cases n; auto)+

lemma handle_grab_ok:
  assumes "node_ok n qs"
  shows "handle_grab h n = (case lookup n h of
      None \<Rightarrow> Some (None, n)
    | Some c \<Rightarrow> do { m \<leftarrow> ztask_context_grab c n; Some (Some c, m) })"
  using assms ztask_handle_grab_ok [of "ztask_context_handle n" "handle_table n" h]
  by (simp add: handle_grab_def node_ok_def lookup_def)

lemma ctx_put_more: "mq_state.more m = mq_state.more (ctx_put c y n) \<Longrightarrow> ctxs n c = Some x \<Longrightarrow>
   mq_state.more (ctx_put c x m) = mq_state.more n" for n :: node
  by (cases m; cases n) (auto simp: ctx_put_def fun_upd_idem_iff)

text \<open>Every queue but those of \<open>R\<close> can take \<open>k\<close> more messages.\<close>

definition roomy :: "nat \<Rightarrow> qref set \<Rightarrow> node \<Rightarrow> bool" where
  "roomy k R n \<longleftrightarrow> (\<forall>r mq. r \<notin> R \<longrightarrow> mq_view n r = Some mq \<longrightarrow> length (mq_contents mq) + k \<le> MQ_LIMIT)"

lemma roomyD: "roomy k R n \<Longrightarrow> r \<notin> R \<Longrightarrow> mq_view n r = Some mq \<Longrightarrow> 1 \<le> k \<Longrightarrow> length (mq_contents mq) < MQ_LIMIT"
  by (force simp: roomy_def)

lemma roomy_view: "mq_view m = mq_view n \<Longrightarrow> roomy k R m = roomy k R n"
  by (simp add: roomy_def)

lemma roomy_less: "roomy (Suc k) R n \<Longrightarrow> roomy k R n"
  by (force simp: roomy_def)

lemma roomy_pushed:
  assumes "roomy (Suc k) R n" "mq_view n' = (mq_view n)(p \<mapsto> mq')" "mq_view n p = Some mq"
    "mq_contents mq' = mq_contents mq @ [m]"
  shows "roomy k R n'"
  unfolding roomy_def
proof (intro allI impI)
  fix r v assume r: "r \<notin> R" "mq_view n' r = Some v"
  show "length (mq_contents v) + k \<le> MQ_LIMIT"
  proof (cases "r = p")
    case True
    then have "v = mq'" using r(2) assms(2) by simp
    moreover have "length (mq_contents mq) + Suc k \<le> MQ_LIMIT" using assms(1,3) r(1) True unfolding roomy_def by blast
    ultimately show ?thesis by (simp add: assms(4) del: mq_length_contents)
  next
    case False
    then have "mq_view n r = Some v" using r(2) assms(2) by simp
    then have "length (mq_contents v) + Suc k \<le> MQ_LIMIT" using assms(1) r(1) unfolding roomy_def by blast
    then show ?thesis by (simp only: add_Suc_right)
  qed
qed

lemma ztask_context_push_ok:
  assumes ok: "node_ok n qs"
  shows "lookup n h = None \<Longrightarrow> ztask_context_push w h msg n = Some (-1, n)"
    and "lookup n h = Some c \<Longrightarrow> ctxs n c = Some x \<Longrightarrow> mq_view n (cqueue x) = Some mq \<Longrightarrow>
      length (mq_contents mq) < MQ_LIMIT \<Longrightarrow>
      \<exists>n' mq' qs'. ztask_context_push w h msg n = Some (0, n') \<and> gq_ok n' qs' \<and>
        qs' = (if in_global mq then qs else qs @ [cqueue x]) \<and>
        mq_view n' = (mq_view n)(cqueue x \<mapsto> mq') \<and> mq_ok mq' \<and> mq_contents mq' = mq_contents mq @ [msg] \<and>
        in_global mq' \<and> mq_state.more n' = mq_state.more n \<and> mq_handle mq' = mq_handle mq \<and>
        overload mq' = overload mq \<and> overload_threshold mq' = overload_threshold mq"
proof -
  show "lookup n h = None \<Longrightarrow> ztask_context_push w h msg n = Some (-1, n)"
    by (simp add: ztask_context_push_def handle_grab_ok [OF ok])
next
  assume c: "lookup n h = Some c" "ctxs n c = Some x" "mq_view n (cqueue x) = Some mq"
    and room: "length (mq_contents mq) < MQ_LIMIT"
  let ?y = "x\<lparr>cref := cref x + 1\<rparr>"
  let ?n1 = "ctx_put c ?y n"
  have "ready n qs c" using ok c(1) unfolding node_ok_def by blast
  then have r: "1 \<le> cref x" "mq_ok mq" "in_global mq \<or> cqueue x \<notin> set qs"
    using c by (auto simp: ready_def)
  obtain mq0 where mq0: "mq_mem n (cqueue x) = Some mq0" "mq = mq0\<lparr>qnext := None\<rparr>"
    using c(3) by (auto simp: mq_view_Some)
  have gq1: "gq_ok ?n1 qs" using ok by (simp add: node_ok_def gq_ok_def ctx_put_def)
  have mem1: "mq_mem ?n1 (cqueue x) = Some mq0" "mq_view ?n1 = mq_view n"
    using mq0 by (simp_all add: ctx_put_def mq_view_def fun_eq_iff)
  from ztask_mq_push_ok [OF gq1 mem1(1), of msg] r mq0 room obtain n2 mq' where n2:
    "ztask_mq_push (cqueue x) msg ?n1 = Some n2" "gq_ok n2 (if in_global mq then qs else qs @ [cqueue x])"
    "mq_view n2 = (mq_view n)(cqueue x \<mapsto> mq')" "mq_ok mq'" "mq_contents mq' = mq_contents mq @ [msg]"
    "in_global mq'" "mq_state.more n2 = mq_state.more ?n1" "mq_handle mq' = mq_handle mq"
    "overload mq' = overload mq" "overload_threshold mq' = overload_threshold mq"
    unfolding mem1(2) by auto
  have cx: "ctxs n2 c = Some ?y" using node_more_fields(1) [OF n2(7)] by (simp add: ctx_put_def)
  let ?n3 = "ctx_put c x n2"
  have rel: "ztask_context_release w c n2 = Some (True, ?n3)"
    using cx r(1) by (simp add: ztask_context_release_def Let_def)
  have "ztask_context_push w h msg n = Some (0, ?n3)"
    using c n2(1) rel by (simp add: ztask_context_push_def handle_grab_ok [OF ok] ztask_context_grab_def)
       (auto simp: ctx_put_def)
  moreover have "gq_ok ?n3 qs' = gq_ok n2 qs'" "mq_view ?n3 = mq_view n2" for qs'
    by (simp_all add: gq_ok_def ctx_put_def mq_view_def fun_eq_iff)
  moreover have "mq_state.more ?n3 = mq_state.more n" by (rule ctx_put_more [OF n2(7) c(2)])
  ultimately show "\<exists>n' mq' qs'. ztask_context_push w h msg n = Some (0, n') \<and> gq_ok n' qs' \<and>
        qs' = (if in_global mq then qs else qs @ [cqueue x]) \<and>
        mq_view n' = (mq_view n)(cqueue x \<mapsto> mq') \<and> mq_ok mq' \<and> mq_contents mq' = mq_contents mq @ [msg] \<and>
        in_global mq' \<and> mq_state.more n' = mq_state.more n \<and> mq_handle mq' = mq_handle mq \<and>
        overload mq' = overload mq \<and> overload_threshold mq' = overload_threshold mq"
    using n2 by (intro exI [of _ ?n3] exI [of _ mq']) auto
qed

lemma lookup_more:
  "mq_state.more m = mq_state.more n \<Longrightarrow> lookup m = lookup n"
  "mq_state.more m = mq_state.more n \<Longrightarrow> ztask_context_handle m = ztask_context_handle n"
proof -
  assume a: "mq_state.more m = mq_state.more n"
  show e: "ztask_context_handle m = ztask_context_handle n"
    using node_more_fields(1) [OF a] by (simp add: ztask_context_handle_def fun_eq_iff)
  show "lookup m = lookup n" by (rule ext) (simp only: lookup_def e node_more_fields(2) [OF a])
qed

lemma ready_pushed:
  assumes "ready n qs d" "mq_view n' = (mq_view n)(q \<mapsto> mq')" "mq_ok mq'" "in_global mq'" "ctxs n' = ctxs n"
    and "qs' = qs \<or> qs' = qs @ [q]"
  shows "ready n' qs' d"
  using assms by (auto simp: ready_def split: option.splits)

lemma node_ok_pushed:
  assumes "node_ok n qs" "gq_ok n' qs'" "qs' = (if in_global mq then qs else qs @ [q])"
    "mq_view n' = (mq_view n)(q \<mapsto> mq')" "mq_ok mq'" "in_global mq'" "mq_state.more n' = mq_state.more n"
  shows "node_ok n' qs'"
proof -
  note f = node_more_fields [OF assms(7)] and l = lookup_more [OF assms(7)]
  have "ready n' qs' c" if "lookup n h = Some c" for h c
    using assms(1,3) that by (intro ready_pushed [OF _ assms(4-6) f(1)]) (auto simp: node_ok_def)
  then show ?thesis using assms(1,2) unfolding node_ok_def f l by blast
qed

section \<open>Message type and size in one word\<close>

lemma MESSAGE_TYPE_MASK_mask: "MESSAGE_TYPE_MASK = mask 56"
  by (rule bit_eqI) (auto simp: MESSAGE_TYPE_MASK_def bit_drop_bit_eq bit_mask_iff)

lemma message_size_word:
  assumes "sz AND MESSAGE_TYPE_MASK = sz"
  shows "drop_bit MESSAGE_TYPE_SHIFT (sz OR push_bit MESSAGE_TYPE_SHIFT (ucast ty)) = take_bit 8 (ucast (ty :: u32))"
    "(sz OR push_bit MESSAGE_TYPE_SHIFT (ucast ty)) AND MESSAGE_TYPE_MASK = sz"
proof -
  have b: "bit sz k \<Longrightarrow> k < 56" for k
    using assms by (metis MESSAGE_TYPE_MASK_mask bit_and_iff bit_mask_iff)
  show "drop_bit MESSAGE_TYPE_SHIFT (sz OR push_bit MESSAGE_TYPE_SHIFT (ucast ty)) = take_bit 8 (ucast ty)"
  proof (rule bit_eqI)
    fix k
    have "\<not> bit sz (56 + k)" using b [of "56 + k"] by auto
    then show "bit (drop_bit MESSAGE_TYPE_SHIFT (sz OR push_bit MESSAGE_TYPE_SHIFT (ucast ty))) k = bit (take_bit 8 (ucast ty :: u64)) k"
      by (auto simp: MESSAGE_TYPE_SHIFT_def bit_drop_bit_eq bit_or_iff bit_push_bit_iff bit_take_bit_iff)
  qed
  show "(sz OR push_bit MESSAGE_TYPE_SHIFT (ucast ty)) AND MESSAGE_TYPE_MASK = sz"
  proof (rule bit_eqI)
    fix k
    show "bit ((sz OR push_bit MESSAGE_TYPE_SHIFT (ucast ty)) AND MESSAGE_TYPE_MASK) k = bit sz k"
      using b [of k] by (auto simp: MESSAGE_TYPE_MASK_mask MESSAGE_TYPE_SHIFT_def bit_and_iff bit_mask_iff bit_or_iff bit_push_bit_iff)
  qed
qed

section \<open>Sending to a local service\<close>

text \<open>The payload and the session that reach the receiver.\<close>

definition sent_payload :: "u32 \<Rightarrow> ptr \<Rightarrow> u64 \<Rightarrow> node \<Rightarrow> payload option" where
  "sent_payload typ data sz n =
     (case data of
        None \<Rightarrow> None
      | Some a \<Rightarrow>
          if typ AND PTYPE_TAG_DONTCOPY \<noteq> 0 then heap n a
          else (case heap n a of Some (Bytes bs) \<Rightarrow> Some (Bytes (take (unat sz) bs)) | _ \<Rightarrow> None))"

text \<open>What a sender has to provide: a readable payload, and a session only when none is allocated.\<close>

definition args_ok :: "u32 \<Rightarrow> cint \<Rightarrow> ptr \<Rightarrow> u64 \<Rightarrow> node \<Rightarrow> bool" where
  "args_ok typ session data sz n \<longleftrightarrow>
     (typ AND PTYPE_TAG_ALLOCSESSION \<noteq> 0 \<longrightarrow> session = 0) \<and>
     (case data of
        None \<Rightarrow> True
      | Some a \<Rightarrow>
          (if typ AND PTYPE_TAG_DONTCOPY \<noteq> 0 then heap n a \<noteq> None
           else \<exists>bs. heap n a = Some (Bytes bs) \<and> unat sz \<le> length bs))"

definition sent_session :: "u32 \<Rightarrow> cint \<Rightarrow> ztask_context \<Rightarrow> cint" where
  "sent_session typ session x =
     (if typ AND PTYPE_TAG_ALLOCSESSION \<noteq> 0 then fst (ztask_context_newsession x) else session)"

lemma newsession_frame:
  "snd (ztask_context_newsession x) = x\<lparr>session_id := fst (ztask_context_newsession x)\<rparr>"
  by (auto simp: ztask_context_newsession_def Let_def)

text \<open>\<^verbatim>\<open>_filter_args\<close> changes only the session counter of the sender and allocates the copy.\<close>

definition filtered_node :: "ctxref \<Rightarrow> ztask_context \<Rightarrow> u32 \<Rightarrow> ptr \<Rightarrow> u64 \<Rightarrow> node \<Rightarrow> node" where
  "filtered_node c x typ data sz n =
     (let n1 = (if typ AND PTYPE_TAG_ALLOCSESSION \<noteq> 0
                then ctx_put c (x\<lparr>session_id := fst (ztask_context_newsession x)\<rparr>) n else n)
      in if typ AND PTYPE_TAG_DONTCOPY = 0 \<and> data \<noteq> None
         then snd (node_malloc (the (sent_payload typ data sz n)) n1) else n1)"

definition sent_data :: "u32 \<Rightarrow> ptr \<Rightarrow> node \<Rightarrow> ptr" where
  "sent_data typ data n =
     (if typ AND PTYPE_TAG_DONTCOPY = 0 \<and> data \<noteq> None then Some (heap_brk n) else data)"

lemma filter_args_ok:
  assumes "args_ok typ session data sz n" "ctxs n c = Some x"
  shows "filter_args (Some c) typ session data sz n =
    Some (sent_session typ session x, sent_data typ data n,
          sz OR push_bit MESSAGE_TYPE_SHIFT (ucast (typ AND 0xff)), filtered_node c x typ data sz n)"
proof (cases data)
  case None
  then show ?thesis
    using assms newsession_frame [of x]
    by (auto simp: filter_args_def args_ok_def sent_session_def sent_data_def filtered_node_def copy_payload_def
        Let_def split_beta)
next
  case (Some a)
  then show ?thesis
    using assms newsession_frame [of x]
    by (auto simp: filter_args_def args_ok_def sent_session_def sent_data_def filtered_node_def copy_payload_def
        sent_payload_def node_malloc_def ctx_put_def Let_def split_beta)
qed

text \<open>Changes that neither the routing nor the queues depend on.\<close>

definition routing :: "ztask_context \<Rightarrow> u32 \<times> int \<times> qref" where
  "routing x = (chandle x, cref x, cqueue x)"

definition same_core :: "node \<Rightarrow> node \<Rightarrow> bool" where
  "same_core n m \<longleftrightarrow> mq_mem m = mq_mem n \<and> gq_head m = gq_head n \<and> gq_tail m = gq_tail n \<and>
     handle_table m = handle_table n \<and> harbor_id m = harbor_id n \<and>
     (\<forall>c. map_option routing (ctxs m c) = map_option routing (ctxs n c)) \<and>
     ((\<forall>a. heap_brk n \<le> a \<longrightarrow> heap n a = None) \<longrightarrow> (\<forall>a. heap_brk m \<le> a \<longrightarrow> heap m a = None))"

lemma same_core_refl: "same_core n n"
  by (simp add: same_core_def)

lemma same_core_trans: "same_core n m \<Longrightarrow> same_core m k \<Longrightarrow> same_core n k"
  by (simp add: same_core_def)

lemma same_core_ctx: "ctxs n c = Some x \<Longrightarrow> routing y = routing x \<Longrightarrow> same_core n (ctx_put c y n)"
  by (simp add: same_core_def ctx_put_def)

lemma same_core_malloc: "same_core n (snd (node_malloc p n))"
  by (simp add: same_core_def node_malloc_def Let_def)

lemma same_core_free: "node_free p n = Some m \<Longrightarrow> same_core n m"
  by (auto simp: same_core_def node_free_def split: option.splits)

lemma same_core_logger: "same_core n (n\<lparr>logger := h\<rparr>)"
  by (simp add: same_core_def)

lemma same_core_ctxs:
  assumes "same_core n m" "ctxs n c = Some x"
  obtains y where "ctxs m c = Some y" "chandle y = chandle x" "cref y = cref x" "cqueue y = cqueue x"
proof -
  have "map_option routing (ctxs m c) = Some (routing x)" using assms by (simp add: same_core_def)
  then show thesis using that by (auto simp: routing_def)
qed

lemma same_core_lookup:
  assumes "same_core n m"
  shows "lookup m = lookup n" "ztask_context_handle m = ztask_context_handle n" "mq_view m = mq_view n"
    "ready m qs c = ready n qs c"
proof -
  have r: "map_option routing (ctxs m c) = map_option routing (ctxs n c)" for c using assms by (simp add: same_core_def)
  show e: "ztask_context_handle m = ztask_context_handle n"
  proof
    fix c show "ztask_context_handle m c = ztask_context_handle n c"
      using r [of c] by (cases "ctxs m c"; cases "ctxs n c") (auto simp: ztask_context_handle_def routing_def)
  qed
  have h: "handle_table m = handle_table n" using assms by (simp add: same_core_def)
  show "lookup m = lookup n" by (rule ext) (simp only: lookup_def e h)
  show v: "mq_view m = mq_view n" using assms by (simp add: same_core_def mq_view_def fun_eq_iff)
  show "ready m qs c = ready n qs c"
    using r [of c] unfolding ready_def v
    by (cases "ctxs m c"; cases "ctxs n c") (auto simp: routing_def split: option.splits)
qed

lemma same_core_ok:
  assumes "node_ok n qs" "same_core n m"
  shows "node_ok m qs"
proof -
  have g: "gq_ok m qs = gq_ok n qs" using assms(2) by (simp add: same_core_def gq_ok_def)
  show ?thesis
    using assms unfolding node_ok_def same_core_lookup [OF assms(2)] g by (simp add: same_core_def)
qed

lemma filtered_node_core:
  assumes "ctxs n c = Some x"
  shows "same_core n (filtered_node c x typ data sz n)"
proof -
  have "same_core n (ctx_put c (x\<lparr>session_id := s\<rparr>) n)" for s
    by (rule same_core_ctx [OF assms]) (simp add: routing_def)
  then show ?thesis
    unfolding filtered_node_def Let_def
    by (auto intro: same_core_refl same_core_malloc same_core_trans)
qed

lemma filtered_node_heap:
  "heap (filtered_node c x typ data sz n) =
     (if typ AND PTYPE_TAG_DONTCOPY = 0 \<and> data \<noteq> None
      then (heap n)(heap_brk n \<mapsto> the (sent_payload typ data sz n)) else heap n)"
  by (auto simp: filtered_node_def Let_def node_malloc_def ctx_put_def)

lemma filtered_node_remote: "harbor_id (filtered_node c x typ data sz n) = harbor_id n"
  by (auto simp: filtered_node_def Let_def node_malloc_def ctx_put_def)

lemma filtered_node_ctx:
  assumes "ctxs n c = Some x"
  obtains y where "ctxs (filtered_node c x typ data sz n) c = Some y" "chandle y = chandle x"
  using same_core_ctxs [OF filtered_node_core [OF assms] assms] by blast

text \<open>The payload that the receiver will read is there.\<close>

lemma sent_data_heap:
  assumes "args_ok typ session data sz n" "data \<noteq> None"
  shows "\<exists>a. sent_data typ data n = Some a \<and> heap (filtered_node c x typ data sz n) a = sent_payload typ data sz n \<and>
    sent_payload typ data sz n \<noteq> None"
  using assms by (auto simp: sent_data_def filtered_node_heap sent_payload_def args_ok_def split: option.splits if_splits)

definition local_dest :: "node \<Rightarrow> u32 \<Rightarrow> bool" where
  "local_dest n h \<longleftrightarrow> h \<noteq> 0 \<and> (h AND NOT HANDLE_MASK = harbor_id n \<or> h AND NOT HANDLE_MASK = 0)"

definition sent_message :: "u32 \<Rightarrow> u32 \<Rightarrow> cint \<Rightarrow> ptr \<Rightarrow> u64 \<Rightarrow> ztask_context \<Rightarrow> node \<Rightarrow> ztask_message" where
  "sent_message source typ session data sz x n =
     \<lparr>msg_source = (if source = 0 then chandle x else source), msg_session = sent_session typ session x,
      msg_data = sent_data typ data n, msg_sz = sz OR push_bit MESSAGE_TYPE_SHIFT (ucast (typ AND 0xff))\<rparr>"

lemma ztask_send_local:
  assumes ok: "node_ok n qs" and c: "ctxs n c = Some x" and sz: "sz AND MESSAGE_TYPE_MASK = sz"
    and args: "args_ok typ session data sz n" and dest: "local_dest n destination"
  shows "ztask_send w (Some c) source destination typ session data sz n =
    do { (r, n2) \<leftarrow> ztask_context_push w destination (sent_message source typ session data sz x n)
           (filtered_node c x typ data sz n);
         if r \<noteq> 0 then do { n3 \<leftarrow> node_free (sent_data typ data n) n2; Some (-1, n3) }
         else Some (sent_session typ session x, n2) }"
proof -
  obtain y where y: "ctxs (filtered_node c x typ data sz n) c = Some y" "chandle y = chandle x"
    using filtered_node_ctx [OF c] by blast
  have "ztask_harbor_message_isremote destination (filtered_node c x typ data sz n) = Some False"
    using ok dest by (auto simp: ztask_harbor_message_isremote_def filtered_node_remote local_dest_def node_ok_def)
  then show ?thesis
    using sz dest y filter_args_ok [OF args c]
    by (simp add: ztask_send_def sent_message_def local_dest_def)
qed

lemma ztask_send_delivered:
  assumes "node_ok n qs" "ctxs n c = Some x" "sz AND MESSAGE_TYPE_MASK = sz"
    "args_ok typ session data sz n" "local_dest n destination"
    "lookup n destination = Some d" "ctxs n d = Some y" "mq_view n (cqueue y) = Some mq"
    "length (mq_contents mq) < MQ_LIMIT"
  shows "\<exists>n' qs' mq'. ztask_send w (Some c) source destination typ session data sz n
      = Some (sent_session typ session x, n') \<and> node_ok n' qs' \<and>
    qs' = (if in_global mq then qs else qs @ [cqueue y]) \<and>
    mq_view n' = (mq_view n)(cqueue y \<mapsto> mq') \<and> in_global mq' \<and>
    mq_contents mq' = mq_contents mq @ [sent_message source typ session data sz x n] \<and>
    mq_state.more n' = mq_state.more (filtered_node c x typ data sz n) \<and>
    mq_ok mq' \<and> mq_handle mq' = mq_handle mq \<and> overload mq' = overload mq \<and> overload_threshold mq' = overload_threshold mq"
proof -
  let ?f = "filtered_node c x typ data sz n" and ?m = "sent_message source typ session data sz x n"
  have core: "same_core n ?f" by (rule filtered_node_core [OF assms(2)])
  have okf: "node_ok ?f qs" by (rule same_core_ok [OF assms(1) core])
  obtain y' where y': "ctxs ?f d = Some y'" "cqueue y' = cqueue y" using same_core_ctxs [OF core assms(7)] by metis
  have lk: "lookup ?f destination = Some d" "mq_view ?f (cqueue y') = Some mq"
    using assms(6,8) y'(2) by (simp_all add: same_core_lookup [OF core])
  from ztask_context_push_ok(2) [OF okf lk(1) y'(1) lk(2) assms(9), of w ?m] obtain n' mq' qs' where n':
    "ztask_context_push w destination ?m ?f = Some (0, n')" "gq_ok n' qs'"
    "qs' = (if in_global mq then qs else qs @ [cqueue y'])" "mq_view n' = (mq_view ?f)(cqueue y' \<mapsto> mq')"
    "mq_ok mq'" "mq_contents mq' = mq_contents mq @ [?m]" "in_global mq'" "mq_state.more n' = mq_state.more ?f"
    "mq_handle mq' = mq_handle mq" "overload mq' = overload mq" "overload_threshold mq' = overload_threshold mq" by blast
  have "node_ok n' qs'" by (rule node_ok_pushed [OF okf n'(2-5,7,8)])
  moreover have "ztask_send w (Some c) source destination typ session data sz n = Some (sent_session typ session x, n')"
    using n'(1) by (simp add: ztask_send_local [OF assms(1-5)])
  moreover have "mq_view n' = (mq_view n)(cqueue y \<mapsto> mq')"
    using n'(4) y'(2) by (simp add: same_core_lookup [OF core])
  ultimately show ?thesis using n' y'(2) by auto
qed

lemma sent_message_fields:
  assumes "sz AND MESSAGE_TYPE_MASK = sz"
  shows "drop_bit MESSAGE_TYPE_SHIFT (msg_sz (sent_message source typ session data sz x n)) = ucast (typ AND 0xff)"
    "msg_sz (sent_message source typ session data sz x n) AND MESSAGE_TYPE_MASK = sz"
proof -
  have mask8: "(0xff :: u32) = mask 8" by (simp add: mask_eq_decr_exp)
  have "take_bit 8 (ucast (typ AND 0xff)) = (ucast (typ AND 0xff) :: u64)"
    by (rule bit_eqI) (auto simp: bit_take_bit_iff bit_unsigned_iff bit_and_iff mask8 bit_mask_iff)
  then show "drop_bit MESSAGE_TYPE_SHIFT (msg_sz (sent_message source typ session data sz x n)) = ucast (typ AND 0xff)"
    "msg_sz (sent_message source typ session data sz x n) AND MESSAGE_TYPE_MASK = sz"
    using message_size_word [OF assms, of "typ AND 0xff"] by (simp_all add: sent_message_def)
qed

lemma sent_message_payload:
  assumes "args_ok typ session data sz n" "heap n' = heap (filtered_node c x typ data sz n)"
  shows "case msg_data (sent_message source typ session data sz x n) of None \<Rightarrow> data = None
    | Some a \<Rightarrow> heap n' a = sent_payload typ data sz n \<and> data \<noteq> None"
  using sent_data_heap [OF assms(1), of c x] assms(2)
  by (cases data) (auto simp: sent_message_def sent_data_def)

text \<open>Sending to a service of this node that is registered: the call returns the session (a fresh
  one when it is to be allocated), and the message is appended to the receiver's queue and
  to no other queue, which is scheduled. What the receiver decodes is the message type,
  the size and the source given, and the payload it reads is a copy of the sender's, or
  the sender's block itself when the copy is not wanted.\<close>

theorem send_local_delivers:
  assumes "node_ok n qs" "ctxs n c = Some x" "sz AND MESSAGE_TYPE_MASK = sz"
    "args_ok typ session data sz n" "local_dest n destination"
    "lookup n destination = Some d" "ctxs n d = Some y" "mq_view n (cqueue y) = Some mq"
    "length (mq_contents mq) < MQ_LIMIT"
  shows "\<exists>n' qs' mq' m. ztask_send w (Some c) source destination typ session data sz n
      = Some (sent_session typ session x, n') \<and> node_ok n' qs' \<and>
    mq_view n' = (mq_view n)(cqueue y \<mapsto> mq') \<and> in_global mq' \<and> mq_contents mq' = mq_contents mq @ [m] \<and>
    msg_source m = (if source = 0 then chandle x else source) \<and> msg_session m = sent_session typ session x \<and>
    drop_bit MESSAGE_TYPE_SHIFT (msg_sz m) = ucast (typ AND 0xff) \<and> msg_sz m AND MESSAGE_TYPE_MASK = sz \<and>
    (case msg_data m of None \<Rightarrow> data = None | Some a \<Rightarrow> heap n' a = sent_payload typ data sz n \<and> data \<noteq> None)"
proof -
  obtain n' qs' mq' where n': "ztask_send w (Some c) source destination typ session data sz n = Some (sent_session typ session x, n')"
    "node_ok n' qs'" "mq_view n' = (mq_view n)(cqueue y \<mapsto> mq')" "in_global mq'"
    "mq_contents mq' = mq_contents mq @ [sent_message source typ session data sz x n]"
    "mq_state.more n' = mq_state.more (filtered_node c x typ data sz n)"
    using ztask_send_delivered [OF assms, of w source] by blast
  show ?thesis
    using n'(1-5) sent_message_fields [OF assms(3)] sent_message_payload [OF assms(4) node_more_fields(3) [OF n'(6)]]
    by (intro exI [of _ n'] exI [of _ qs'] exI [of _ mq'] exI [of _ "sent_message source typ session data sz x n"])
      (simp add: sent_message_def)
qed

text \<open>Sending to a handle of this node that names no service returns -1 and changes neither a queue
  nor the routing; no memory is lost: the copy is freed again, and the block of a sender
  that does not want a copy is freed.\<close>

theorem send_unknown_frees:
  assumes "node_ok n qs" "ctxs n c = Some x" "sz AND MESSAGE_TYPE_MASK = sz"
    "args_ok typ session data sz n" "local_dest n destination" "lookup n destination = None"
  shows "\<exists>n'. ztask_send w (Some c) source destination typ session data sz n = Some (-1, n') \<and>
    node_ok n' qs \<and> mq_view n' = mq_view n \<and> lookup n' = lookup n \<and>
    heap n' = (if typ AND PTYPE_TAG_DONTCOPY = 0 then heap n
               else case data of None \<Rightarrow> heap n | Some a \<Rightarrow> (heap n)(a := None))"
proof -
  let ?f = "filtered_node c x typ data sz n" and ?m = "sent_message source typ session data sz x n"
  have core: "same_core n ?f" by (rule filtered_node_core [OF assms(2)])
  have okf: "node_ok ?f qs" by (rule same_core_ok [OF assms(1) core])
  have "lookup ?f destination = None" using assms(6) by (simp add: same_core_lookup [OF core])
  then have push: "ztask_context_push w destination ?m ?f = Some (-1, ?f)" by (rule ztask_context_push_ok(1) [OF okf])
  have fresh: "heap n (heap_brk n) = None" using assms(1) by (simp add: node_ok_def)
  obtain n' where n': "node_free (sent_data typ data n) ?f = Some n'"
    "heap n' = (case sent_data typ data n of None \<Rightarrow> heap ?f | Some a \<Rightarrow> (heap ?f)(a := None))"
  proof (cases data)
    case None
    then show ?thesis using that by (simp add: node_free_def sent_data_def)
  next
    case (Some a)
    then show ?thesis using that sent_data_heap [OF assms(4), of c x] by (auto simp: node_free_def)
  qed
  have core': "same_core n n'" by (rule same_core_trans [OF core same_core_free [OF n'(1)]])
  have "heap n' = (if typ AND PTYPE_TAG_DONTCOPY = 0 then heap n
               else case data of None \<Rightarrow> heap n | Some a \<Rightarrow> (heap n)(a := None))"
    using n'(2) fresh by (cases data) (auto simp: filtered_node_heap sent_data_def fun_upd_idem)
  then show ?thesis
    using n'(1) push same_core_ok [OF assms(1) core'] same_core_lookup [OF core']
    by (simp add: ztask_send_local [OF assms(1-5)])
qed

section \<open>Sessions\<close>

text \<open>Sessions are always positive, and the counter advances by one until it would pass \<open>2 ^ 31 - 1\<close>,
  where it starts again at 1.\<close>

lemma sint_le_0_iff: "sint w \<le> 0 \<longleftrightarrow> w = 0 \<or> 2 ^ 31 \<le> unat w" for w :: cint
proof (cases "2 ^ 31 \<le> unat w")
  case True
  then have "\<not> 0 \<le> sint w" using sint_nonneg(1) [of w] by linarith
  then show ?thesis using True by simp
next
  case False
  have "int (unat w) < int (2 ^ 31)" using False by (simp del: of_nat_unat)
  then have "uint w < 2 ^ 31" by simp
  moreover have "- (2 ^ 31) \<le> uint w" by (rule order_trans [OF _ uint_ge_0]) simp
  ultimately have "sint w = uint w" unfolding sint_uint by (intro signed_take_bit_int_eq_self) simp_all
  moreover have "uint w \<le> 0 \<longleftrightarrow> w = 0" using uint_ge_0 [of w] by (metis antisym uint_0_iff order_refl)
  ultimately show ?thesis using False by simp
qed

theorem newsession_positive:
  "0 < sint (fst (ztask_context_newsession x)) \<and>
   fst (ztask_context_newsession x) =
     (if 0 \<le> sint (session_id x) \<and> session_id x \<noteq> 0x7FFFFFFF then session_id x + 1 else 1) \<and>
   snd (ztask_context_newsession x) = x\<lparr>session_id := fst (ztask_context_newsession x)\<rparr>"
proof -
  let ?i = "session_id x"
  have le: "sint (?i + 1) \<le> 0 \<longleftrightarrow> \<not> (0 \<le> sint ?i \<and> ?i \<noteq> 0x7FFFFFFF)"
  proof (cases "?i + 1 = 0")
    case True
    then have "?i = - 1" by (simp add: eq_neg_iff_add_eq_0)
    then show ?thesis by simp
  next
    case False
    have u: "unat (?i + 1) = Suc (unat ?i)" using unatSuc [of ?i] False by (simp add: add.commute)
    have "0 \<le> sint ?i \<longleftrightarrow> unat ?i < 2 ^ 31"
      using sint_nonneg(1) [of ?i] sint_le_0_iff [of ?i] by (cases "?i = 0") auto
    moreover have "?i = 0x7FFFFFFF \<longleftrightarrow> unat ?i = 2 ^ 31 - 1" by (simp add: word_unat_eq_iff)
    ultimately show ?thesis unfolding sint_le_0_iff u using False by auto
  qed
  show ?thesis using le by (auto simp: ztask_context_newsession_def Let_def)
qed

section \<open>Reporting errors\<close>

lemma error_loop_ok:
  assumes "0 < m"
  shows "\<exists>a n'. error_loop tx m n = Some (Some a, n') \<and> same_core n n' \<and> ctxs n' = ctxs n \<and> logger n' = logger n \<and>
    heap n' a = Some (Bytes (bytes_of tx))"
  using assms
proof (induction tx m n rule: error_loop.induct)
  case (1 tx m n)
  let ?b = "Bytes (bytes_of (take (m * 2 - 1) tx))"
  obtain a n1 where nm: "node_malloc ?b n = (Some a, n1)" by (simp add: node_malloc_def Let_def)
  have c1: "same_core n n1" "ctxs n1 = ctxs n" "logger n1 = logger n" "heap n1 a = Some ?b"
    using nm same_core_malloc [of n ?b] by (auto simp: node_malloc_def Let_def)
  show ?case
  proof (cases "length tx < m * 2")
    case True
    then show ?thesis using nm c1 "1.prems" by (auto simp: error_loop.simps [of tx m n] Let_def)
  next
    case False
    obtain n2 where n2: "node_free (Some a) n1 = Some n2" "ctxs n2 = ctxs n" "logger n2 = logger n"
      using c1 by (auto simp: node_free_def)
    have "same_core n n2" by (rule same_core_trans [OF c1(1) same_core_free [OF n2(1)]])
    moreover have "error_loop tx m n = error_loop tx (m * 2) n2"
      using False nm n2(1) "1.prems" by (simp add: error_loop.simps [of tx m n] Let_def)
    moreover obtain a' n' where "error_loop tx (m * 2) n2 = Some (Some a', n')" "same_core n2 n'"
      "ctxs n' = ctxs n2" "logger n' = logger n2" "heap n' a' = Some (Bytes (bytes_of tx))"
      using "1.IH" [OF _ refl nm [symmetric] refl _ n2(1)] False "1.prems" by auto
    ultimately show ?thesis using n2 same_core_trans by metis
  qed
qed

lemma ztask_error_ok:
  assumes "node_ok n qs" "case c of None \<Rightarrow> True | Some r \<Rightarrow> ctxs n r \<noteq> None" "roomy 1 {} n"
  shows "\<exists>n' qs'. ztask_error w c tx n = Some n' \<and> node_ok n' qs' \<and> set qs \<subseteq> set qs' \<and> ctxs n' = ctxs n \<and> lookup n' = lookup n \<and>
    (case (if logger n \<noteq> 0 then Some (logger n) else name_map (handle_table n) ''logger'') of
       None \<Rightarrow> mq_view n' = mq_view n
     | Some h \<Rightarrow>
         (case (if h = 0 then None else lookup n h) of
            None \<Rightarrow> mq_view n' = mq_view n
          | Some d \<Rightarrow> \<exists>y mq mq' a. ctxs n d = Some y \<and> mq_view n (cqueue y) = Some mq \<and>
              mq_view n' = (mq_view n)(cqueue y \<mapsto> mq') \<and> heap n' a = Some (Bytes (bytes_of tx)) \<and>
              map msg_data (mq_contents mq') = map msg_data (mq_contents mq) @ [Some a]))"
proof -
  obtain h where f: "ztask_handle_findname ''logger'' (handle_table n) = Some h"
    "h = (case name_map (handle_table n) ''logger'' of Some h \<Rightarrow> h | None \<Rightarrow> 0)"
    using handle_findname_spec [of "handle_table n"] assms(1) by (simp add: node_ok_def)
  define l where "l = (if logger n = 0 then h else logger n)"
  define n1 where "n1 = n\<lparr>logger := l\<rparr>"
  have c1: "same_core n n1" "ctxs n1 = ctxs n" "logger n1 = l" by (simp_all add: n1_def same_core_logger)
  have s1: "(if logger n = 0 then do { h \<leftarrow> ztask_handle_findname ''logger'' (handle_table n); Some (n\<lparr>logger := h\<rparr>) }
       else Some n) = Some n1"
    using f(1) by (simp add: n1_def l_def)
  have key: "(case (if logger n \<noteq> 0 then Some (logger n) else name_map (handle_table n) ''logger'') of
       None \<Rightarrow> V0 | Some h \<Rightarrow> (case (if h = 0 then None else lookup n h) of None \<Rightarrow> V0 | Some d \<Rightarrow> V d)) =
     (case (if l = 0 then None else lookup n l) of None \<Rightarrow> V0 | Some d \<Rightarrow> V d)" for V0 and V :: "ctxref \<Rightarrow> bool"
    using f(2) by (auto simp: l_def split: option.splits)
  show ?thesis
  proof (cases "l = 0")
    case True
    then have "ztask_error w c tx n = Some n1" unfolding ztask_error_def s1 by (simp add: c1)
    then show ?thesis
      unfolding key using True same_core_ok [OF assms(1) c1(1)] same_core_lookup [OF c1(1)] c1(2) by auto
  next
    case False
    obtain a n2 where n2: "(if length tx < LOG_MESSAGE_SIZE then Some (node_malloc (Bytes (bytes_of tx)) n1)
         else error_loop tx LOG_MESSAGE_SIZE n1) = Some (Some a, n2)" "same_core n1 n2" "ctxs n2 = ctxs n1"
      "logger n2 = l" "heap n2 a = Some (Bytes (bytes_of tx))"
    proof (cases "length tx < LOG_MESSAGE_SIZE")
      case True
      then show ?thesis
        using that [of "heap_brk n1" "snd (node_malloc (Bytes (bytes_of tx)) n1)"] same_core_malloc [of n1]
        by (auto simp: node_malloc_def Let_def c1)
    next
      case False
      then show ?thesis using that error_loop_ok [of LOG_MESSAGE_SIZE tx n1] by (auto simp: LOG_MESSAGE_SIZE_def c1)
    qed
    have core: "same_core n n2" by (rule same_core_trans [OF c1(1) n2(2)])
    have ok2: "node_ok n2 qs" by (rule same_core_ok [OF assms(1) core])
    obtain src where src: "(case c of None \<Rightarrow> Some 0 | Some r \<Rightarrow> do { x \<leftarrow> ctxs n2 r; Some (chandle x) }) = Some src"
      using assms(2) n2(3) c1(2) by (cases c) auto
    let ?m = "\<lparr>msg_source = src, msg_session = 0, msg_data = Some a,
       msg_sz = of_nat (length tx) OR push_bit MESSAGE_TYPE_SHIFT (ucast PTYPE_TEXT)\<rparr>"
    have run: "ztask_error w c tx n = do { (_, n3) \<leftarrow> ztask_context_push w l ?m n2; Some n3 }"
      unfolding ztask_error_def s1 using False n2(1,4) src c1(3) by simp
    show ?thesis
    proof (cases "lookup n l")
      case None
      then have "ztask_context_push w l ?m n2 = Some (-1, n2)"
        using ztask_context_push_ok(1) [OF ok2] same_core_lookup(1) [OF core] by simp
      then show ?thesis
        unfolding key run using None False ok2 same_core_lookup [OF core] n2(3) c1(2) by auto
    next
      case (Some d)
      then have rd: "ready n2 qs d" using ok2 same_core_lookup(1) [OF core] unfolding node_ok_def by metis
      then obtain y mq where y: "ctxs n2 d = Some y" "mq_view n2 (cqueue y) = Some mq"
        by (auto simp: ready_def split: option.splits)
      have "mq_view n2 = mq_view n" by (rule same_core_lookup [OF core])
      then have "length (mq_contents mq) < MQ_LIMIT" using roomyD [OF assms(3)] y(2) by simp
      from ztask_context_push_ok(2) [OF ok2 _ y this, of l w ?m] Some same_core_lookup(1) [OF core]
      obtain n' mq' qs' where n': "ztask_context_push w l ?m n2 = Some (0, n')" "gq_ok n' qs'"
        "qs' = (if in_global mq then qs else qs @ [cqueue y])" "mq_view n' = (mq_view n2)(cqueue y \<mapsto> mq')"
        "mq_ok mq'" "mq_contents mq' = mq_contents mq @ [?m]" "in_global mq'" "mq_state.more n' = mq_state.more n2"
        by auto
      note fm = node_more_fields [OF n'(8)] and lm = lookup_more [OF n'(8)]
      have "node_ok n' qs'" by (rule node_ok_pushed [OF ok2 n'(2-5,7,8)])
      moreover have "set qs \<subseteq> set qs'" using n'(3) by auto
      moreover have "ctxs n d = Some y" "mq_view n (cqueue y) = Some mq" "mq_view n' = (mq_view n)(cqueue y \<mapsto> mq')"
        "heap n' a = Some (Bytes (bytes_of tx))" "ctxs n' = ctxs n" "lookup n' = lookup n"
        "map msg_data (mq_contents mq') = map msg_data (mq_contents mq) @ [Some a]"
        using y n' n2 c1(2) fm lm same_core_lookup [OF core] by simp_all
      ultimately show ?thesis unfolding key run using n'(1) Some False by simp blast
    qed
  qed
qed

text \<open>\<^verbatim>\<open>ztask_error\<close> never aborts, whatever the length of the text; it neither changes a context
  nor the routing nor takes a queue off the global queue, and when the logger is registered the text is
  appended to its queue.\<close>

theorem ztask_error_total:
  assumes "node_ok n qs" "case c of None \<Rightarrow> True | Some r \<Rightarrow> ctxs n r \<noteq> None" "roomy 1 {} n"
  shows "\<exists>n' qs'. ztask_error w c tx n = Some n' \<and> node_ok n' qs' \<and> set qs \<subseteq> set qs' \<and> ctxs n' = ctxs n \<and> lookup n' = lookup n \<and>
    (case (if logger n \<noteq> 0 then Some (logger n) else name_map (handle_table n) ''logger'') of
       None \<Rightarrow> mq_view n' = mq_view n
     | Some h \<Rightarrow>
         (case (if h = 0 then None else lookup n h) of
            None \<Rightarrow> mq_view n' = mq_view n
          | Some d \<Rightarrow> \<exists>y mq mq' a. ctxs n d = Some y \<and> mq_view n (cqueue y) = Some mq \<and>
              mq_view n' = (mq_view n)(cqueue y \<mapsto> mq') \<and> heap n' a = Some (Bytes (bytes_of tx)) \<and>
              map msg_data (mq_contents mq') = map msg_data (mq_contents mq) @ [Some a]))"
  by (rule ztask_error_ok [OF assms])

section \<open>Dropping the queue of a dead service\<close>

text \<open>The error message that each sender gets.\<close>

definition error_reply :: "u32 \<Rightarrow> ztask_message" where
  "error_reply handle = \<lparr>msg_source = handle, msg_session = 0, msg_data = None,
     msg_sz = push_bit MESSAGE_TYPE_SHIFT (ucast PTYPE_ERROR)\<rparr>"

text \<open>The queue a message to a handle goes to.\<close>

definition route :: "node \<Rightarrow> u32 \<Rightarrow> qref option" where
  "route n h = (if h = 0 then None else
     (case lookup n h of None \<Rightarrow> None | Some c \<Rightarrow> map_option cqueue (ctxs n c)))"

definition payloads :: "ztask_message list \<Rightarrow> nat list" where
  "payloads ms = List.map_filter msg_data ms"

definition drop_inv :: "u32 \<Rightarrow> (u32 \<Rightarrow> qref option) \<Rightarrow> qref \<Rightarrow> ztask_message list \<Rightarrow> node \<Rightarrow> bool" where
  "drop_inv handle rt q ms n \<longleftrightarrow> (\<exists>qs. node_ok n qs \<and> q \<notin> set qs) \<and> handle \<noteq> 0 \<and> route n = rt \<and> (\<forall>h. rt h \<noteq> Some q) \<and>
     lookup n 0 = None \<and> roomy (length ms) {q} n \<and>
     (\<forall>m \<in> set ms. msg_source m = 0 \<or> local_dest n (msg_source m)) \<and>
     distinct (payloads ms) \<and> (\<forall>a \<in> set (payloads ms). heap n a \<noteq> None)"

definition drop_obs :: "qref \<Rightarrow> node \<Rightarrow> (qref \<Rightarrow> ztask_message list option) \<times> (nat \<Rightarrow> payload option)" where
  "drop_obs q n = (\<lambda>r. if r = q then None else map_option mq_contents (mq_view n r), heap n)"

definition drop_log ::
  "u32 \<Rightarrow> (u32 \<Rightarrow> qref option) \<Rightarrow> ztask_message \<Rightarrow>
   (qref \<Rightarrow> ztask_message list option) \<times> (nat \<Rightarrow> payload option) \<Rightarrow>
   (qref \<Rightarrow> ztask_message list option) \<times> (nat \<Rightarrow> payload option)" where
  "drop_log handle rt m = (\<lambda>(Q, hp).
     (case rt (msg_source m) of
        None \<Rightarrow> Q
      | Some r \<Rightarrow> Q(r := map_option (\<lambda>ms. ms @ [error_reply handle]) (Q r)),
      case msg_data m of None \<Rightarrow> hp | Some a \<Rightarrow> hp(a := None)))"

lemma send_error:
  assumes "node_ok n qs" "handle \<noteq> 0" "src = 0 \<or> local_dest n src"
  shows "ztask_send w None handle src PTYPE_ERROR 0 None 0 n =
    (if src = 0 then Some (0, n)
     else do { (r, n2) \<leftarrow> ztask_context_push w src (error_reply handle) n; Some (if r \<noteq> 0 then -1 else 0, n2) })"
proof -
  have f: "filter_args None PTYPE_ERROR 0 None 0 n = Some (0, None, push_bit MESSAGE_TYPE_SHIFT (ucast PTYPE_ERROR), n)"
    by (simp add: filter_args_def PTYPE_ERROR_def PTYPE_TAG_ALLOCSESSION_def PTYPE_TAG_DONTCOPY_def copy_payload_def)
  show ?thesis
  proof (cases "src = 0")
    case True
    then show ?thesis using f assms(2) by (simp add: ztask_send_def)
  next
    case False
    then have "ztask_harbor_message_isremote src n = Some False"
      using assms by (auto simp: ztask_harbor_message_isremote_def local_dest_def node_ok_def)
    then show ?thesis
      using f assms(2) False by (auto simp: ztask_send_def error_reply_def node_free_def intro!: Option.bind_cong)
  qed
qed

lemma route_same_core: "same_core n m \<Longrightarrow> route m = route n"
proof
  fix h assume a: "same_core n m"
  show "route m h = route n h"
  proof (cases "lookup n h")
    case (Some c)
    have "map_option routing (ctxs m c) = map_option routing (ctxs n c)" using a by (simp add: same_core_def)
    then have "map_option cqueue (ctxs m c) = map_option cqueue (ctxs n c)"
      by (cases "ctxs m c"; cases "ctxs n c") (auto simp: routing_def)
    then show ?thesis using Some by (simp add: route_def same_core_lookup [OF a])
  qed (simp add: route_def same_core_lookup [OF a])
qed

lemma mq_view_outside: "gq_ok s qs \<Longrightarrow> r \<notin> set qs \<Longrightarrow> mq_view s r = mq_mem s r"
  by (cases "mq_mem s r") (auto simp: mq_view_def gq_ok_def)

lemma drop_inv_tail:
  assumes "drop_inv handle rt q (m # ms) n" "node_free (msg_data m) n = Some n1"
  shows "drop_inv handle rt q ms n1 \<and> roomy (Suc (length ms)) {q} n1"
proof -
  note core = same_core_free [OF assms(2)]
  have room: "roomy (Suc (length ms)) {q} n1"
    using assms(1) roomy_view [of n1 n] same_core_lookup [OF core] by (simp add: drop_inv_def)
  have l: "local_dest n1 h = local_dest n h" for h using core by (simp add: local_dest_def same_core_def)
  have "heap n1 a \<noteq> None" if "a \<in> set (payloads ms)" for a
    using that assms by (auto simp: drop_inv_def payloads_def node_free_def map_filter_simps split: option.splits if_splits)
  then show ?thesis
    using assms(1) same_core_ok [OF _ core] room roomy_less [OF room]
    by (auto simp: drop_inv_def route_same_core [OF core] l same_core_lookup(1) [OF core] payloads_def map_filter_simps
        split: option.splits)
qed

lemma drop_inv_push:
  assumes inv: "drop_inv handle rt q ms n" and src: "local_dest n src" and room: "roomy (Suc (length ms)) {q} n"
  shows "\<exists>r n2. ztask_context_push w src m n = Some (r, n2) \<and> drop_inv handle rt q ms n2 \<and>
    mq_mem n2 q = mq_mem n q \<and> heap n2 = heap n \<and>
    (\<lambda>k. map_option mq_contents (mq_view n2 k)) =
      (case rt src of None \<Rightarrow> (\<lambda>k. map_option mq_contents (mq_view n k))
       | Some k0 \<Rightarrow> (\<lambda>k. map_option mq_contents (mq_view n k))
           (k0 := map_option (\<lambda>ms. ms @ [m]) (map_option mq_contents (mq_view n k0))))"
proof -
  obtain qs where ok: "node_ok n qs" and nq: "q \<notin> set qs" using inv by (auto simp: drop_inv_def)
  have s0: "src \<noteq> 0" using src by (simp add: local_dest_def)
  have rt: "rt = route n" using inv by (simp add: drop_inv_def)
  show ?thesis
  proof (cases "lookup n src")
    case None
    then show ?thesis
      using ztask_context_push_ok(1) [OF ok None, of w m] inv s0 by (auto simp: rt route_def)
  next
    case (Some c)
    have "ready n qs c" using ok Some unfolding node_ok_def by blast
    then obtain x mq where x: "ctxs n c = Some x" "mq_view n (cqueue x) = Some mq"
      by (auto simp: ready_def split: option.splits)
    have r: "rt src = Some (cqueue x)" using Some x s0 by (simp add: rt route_def)
    then have ne: "cqueue x \<noteq> q" using inv by (auto simp: drop_inv_def)
    have fits: "length (mq_contents mq) < MQ_LIMIT" by (rule roomyD [OF room _ x(2)]) (use ne in simp_all)
    from ztask_context_push_ok(2) [OF ok Some x fits, of w m] obtain n2 mq' qs' where n2:
      "ztask_context_push w src m n = Some (0, n2)" "gq_ok n2 qs'" "qs' = (if in_global mq then qs else qs @ [cqueue x])"
      "mq_view n2 = (mq_view n)(cqueue x \<mapsto> mq')" "mq_ok mq'" "mq_contents mq' = mq_contents mq @ [m]"
      "in_global mq'" "mq_state.more n2 = mq_state.more n" by blast
    have room2: "roomy (length ms) {q} n2" by (rule roomy_pushed [OF room n2(4) x(2) n2(6)])
    note fm = node_more_fields [OF n2(8)] and lm = lookup_more [OF n2(8)]
    have "node_ok n2 qs'" by (rule node_ok_pushed [OF ok n2(2-5,7,8)])
    moreover have "route n2 = route n" by (rule ext) (simp only: route_def fm lm)
    moreover have "local_dest n2 = local_dest n" by (simp add: local_dest_def fun_eq_iff fm)
    moreover have nq': "q \<notin> set qs'" using n2(3) nq ne by simp
    ultimately have "drop_inv handle rt q ms n2" using inv room2 unfolding drop_inv_def fm lm by auto
    moreover have "mq_mem n2 q = mq_mem n q"
      using mq_view_outside [OF n2(2) nq'] mq_view_outside [of n qs q] nq ok n2(4) ne by (simp add: node_ok_def)
    ultimately show ?thesis using n2 r x(2) fm(3) by (auto simp: fun_eq_iff)
  qed
qed

lemma drop_message_step:
  assumes inv: "drop_inv handle rt q (m # ms) n"
  shows "\<exists>n'. drop_message w handle m n = Some n' \<and> drop_inv handle rt q ms n' \<and>
    mq_mem n' q = mq_mem n q \<and> drop_obs q n' = drop_log handle rt m (drop_obs q n)"
proof -
  have "case msg_data m of None \<Rightarrow> True | Some a \<Rightarrow> heap n a \<noteq> None"
    using inv by (auto simp: drop_inv_def payloads_def map_filter_simps split: option.splits)
  then obtain n1 where n1: "node_free (msg_data m) n = Some n1"
    "heap n1 = (case msg_data m of None \<Rightarrow> heap n | Some a \<Rightarrow> (heap n)(a := None))" "mq_mem n1 = mq_mem n" "mq_view n1 = mq_view n"
    by (auto simp: node_free_def mq_view_def fun_eq_iff split: option.splits)
  have inv1: "drop_inv handle rt q ms n1" and room1: "roomy (Suc (length ms)) {q} n1"
    using drop_inv_tail [OF inv n1(1)] by blast+
  then obtain qs where ok: "node_ok n1 qs" by (auto simp: drop_inv_def)
  have h: "handle \<noteq> 0" using inv by (simp add: drop_inv_def)
  have "local_dest n1 k = local_dest n k" for k
    using same_core_free [OF n1(1)] by (simp add: local_dest_def same_core_def)
  then have src: "msg_source m = 0 \<or> local_dest n1 (msg_source m)" using inv by (simp add: drop_inv_def)
  show ?thesis
  proof (cases "msg_source m = 0")
    case True
    have "rt 0 = None" using inv by (auto simp: drop_inv_def route_def)
    then have "drop_obs q n1 = drop_log handle rt m (drop_obs q n)"
      using True unfolding drop_obs_def drop_log_def n1(2,4) by simp
    then show ?thesis
      using True n1 inv1 h send_error [OF ok h src, of w] by (auto simp: drop_message_def)
  next
    case False
    then have ld: "local_dest n1 (msg_source m)" using src by simp
    from drop_inv_push [OF inv1 ld room1, of w "error_reply handle"] obtain r n2 where n2:
      "ztask_context_push w (msg_source m) (error_reply handle) n1 = Some (r, n2)" "drop_inv handle rt q ms n2"
      "mq_mem n2 q = mq_mem n1 q" "heap n2 = heap n1"
      "(\<lambda>k. map_option mq_contents (mq_view n2 k)) =
        (case rt (msg_source m) of None \<Rightarrow> (\<lambda>k. map_option mq_contents (mq_view n1 k))
         | Some k0 \<Rightarrow> (\<lambda>k. map_option mq_contents (mq_view n1 k))
             (k0 := map_option (\<lambda>ms. ms @ [error_reply handle]) (map_option mq_contents (mq_view n1 k0))))" by blast
    have "rt (msg_source m) \<noteq> Some q" using inv by (simp add: drop_inv_def)
    then have "drop_obs q n2 = drop_log handle rt m (drop_obs q n)"
      using fun_cong [OF n2(5)] n2(4) n1(2,4) by (auto simp: drop_obs_def drop_log_def fun_eq_iff split: option.splits)
    moreover have "drop_message w handle m n = Some n2"
      using n1(1) h False n2(1) by (simp add: drop_message_def send_error [OF ok h src])
    ultimately show ?thesis using n2 n1(3) by simp
  qed
qed

lemma drop_inv_put:
  assumes inv: "drop_inv handle rt q ms n" and mq: "mq_mem n q = Some mq" "qnext mq' = qnext mq"
  shows "drop_inv handle rt q ms (mq_put q mq' n)" "drop_obs q (mq_put q mq' n) = drop_obs q n"
proof -
  let ?n = "mq_put q mq' n"
  obtain qs where ok: "node_ok n qs" and nq: "q \<notin> set qs" using inv by (auto simp: drop_inv_def)
  have f: "ctxs ?n = ctxs n" "handle_table ?n = handle_table n" "heap ?n = heap n" "heap_brk ?n = heap_brk n"
    "harbor_id ?n = harbor_id n" by (simp_all add: mq_put_def)
  have l: "ztask_context_handle ?n = ztask_context_handle n" by (simp add: ztask_context_handle_def f fun_eq_iff)
  have lk: "lookup ?n = lookup n" by (rule ext) (simp only: lookup_def l f)
  have rt: "route ?n = route n" by (rule ext) (simp only: route_def lk f)
  have "ready ?n qs c" if "lookup n h = Some c" "h \<noteq> 0" for h c
  proof -
    have r: "ready n qs c" using ok that unfolding node_ok_def by blast
    then obtain x where x: "ctxs n c = Some x" by (auto simp: ready_def split: option.splits)
    then have "route n h = Some (cqueue x)" using that by (simp add: route_def)
    then have "cqueue x \<noteq> q" using inv by (metis drop_inv_def)
    then show ?thesis using r x by (simp add: ready_def f)
  qed
  moreover have "lookup n 0 = None" using inv by (simp add: drop_inv_def)
  ultimately have "\<forall>h c. lookup n h = Some c \<longrightarrow> ready ?n qs c" by (metis option.distinct(1))
  moreover have "gq_ok ?n qs" by (rule gq_ok_put [OF _ mq]) (use ok in \<open>simp add: node_ok_def\<close>)
  ultimately have "node_ok ?n qs" using ok unfolding node_ok_def lk l f by blast
  moreover have "local_dest ?n = local_dest n" by (simp add: local_dest_def fun_eq_iff f)
  moreover have "roomy (length ms) {q} ?n = roomy (length ms) {q} n" by (auto simp: roomy_def)
  ultimately show "drop_inv handle rt q ms ?n" using inv nq unfolding drop_inv_def rt lk f by auto
  show "drop_obs q ?n = drop_obs q n" by (simp add: drop_obs_def f fun_eq_iff)
qed

interpretation node_drop: drop_client "drop_message w handle" q "drop_inv handle rt q" "drop_obs q"
    "drop_log handle rt" for w handle rt q
proof unfold_locales
  fix m ms s assume "drop_inv handle rt q (m # ms) s"
  then show "\<exists>s'. drop_message w handle m s = Some s' \<and> drop_inv handle rt q ms s' \<and>
      mq_mem s' q = mq_mem s q \<and> drop_obs q s' = drop_log handle rt m (drop_obs q s)"
    by (rule drop_message_step)
next
  fix ms s and mq mq' :: message_queue assume a: "drop_inv handle rt q ms s" "mq_mem s q = Some mq" "qnext mq' = qnext mq"
  show "drop_inv handle rt q ms (mq_put q mq' s) \<and> drop_obs q (mq_put q mq' s) = drop_obs q s"
    using drop_inv_put [OF a] by (rule conjI)
qed

text \<open>Releasing the queue of a dead service: every payload still in it is freed exactly once, the
  queue object is destroyed, and each sender of this node that is still registered gets one
  error message for each of its messages, in their order.\<close>

theorem dead_queue_reports:
  assumes "drop_inv handle rt q (mq_contents mq) n" "mq_mem n q = Some mq" "mq_ok mq" "qnext mq = None" "release mq"
  shows "\<exists>n'. ztask_mq_release (drop_message w handle) q n = Some n' \<and> mq_mem n' q = None \<and>
    (\<lambda>r. if r = q then None else map_option mq_contents (mq_view n' r), heap n') =
      fold (drop_log handle rt) (mq_contents mq) (drop_obs q n)"
proof -
  from node_drop.drop_queue_delivers [OF assms(1-4), of w] obtain n' u where u:
    "drop_queue (drop_message w handle) q n = Some n'" "mq_mem n' q = None"
    "n' = u\<lparr>mq_mem := (mq_mem u)(q := None)\<rparr>" "drop_obs q u = fold (drop_log handle rt) (mq_contents mq) (drop_obs q n)"
    by blast
  have "(\<lambda>r. if r = q then None else map_option mq_contents (mq_view n' r), heap n') = drop_obs q u"
    using u(3) by (auto simp: drop_obs_def mq_view_def fun_eq_iff)
  moreover have "ztask_mq_release (drop_message w handle) q n = Some n'"
    using u(1) assms(2,5) by (simp add: ztask_mq_release_def)
  ultimately show ?thesis unfolding u(4) [symmetric] using u(2) by (intro exI [of _ n'] conjI)
qed

section \<open>Reference counts and deletion\<close>

text \<open>A context lives until its last reference is released: a release that is not the last only
  decrements the counter; the last one removes the context from the list of services and
  from memory, marks its queue for release (which schedules it, so that a worker drops its
  messages) and decrements the total. \<open>quiet\<close> is what is asked of the module's release
  function: it leaves the node alone.\<close>

theorem context_release_last:
  assumes "ctxs n c = Some x" "gq_ok n qs" "mq_mem n (cqueue x) = Some mq" "\<not> release mq"
    "in_global mq \<or> cqueue x \<notin> set qs" "logfile x = None"
    and quiet: "\<And>f m. mod_release (cmod x) = Some f \<Longrightarrow> w_release w f (cinstance x) m = Some m"
  shows "\<exists>n'. ztask_context_release w c n = Some (cref x \<noteq> 1, n') \<and>
    (if cref x = 1
     then ctxs n' = (ctxs n)(c := None) \<and> server_wq n' = remove1 c (server_wq n) \<and> total n' = total n - 1 \<and>
       mq_view n' = (mq_view n)(cqueue x \<mapsto> mq\<lparr>release := True, qnext := None\<rparr>) \<and>
       gq_ok n' (if in_global mq then qs else qs @ [cqueue x])
     else n' = ctx_put c (x\<lparr>cref := cref x - 1\<rparr>) n)"
proof (cases "cref x = 1")
  case False
  then show ?thesis using assms(1) by (simp add: ztask_context_release_def)
next
  case True
  let ?n1 = "(ctx_put c (x\<lparr>cref := 0\<rparr>) n)\<lparr>server_wq := remove1 c (server_wq n)\<rparr>"
  have g: "gq_ok ?n1 qs" using assms(2) by (simp add: gq_ok_def ctx_put_def)
  have m: "mq_mem ?n1 (cqueue x) = Some mq" "mq_view ?n1 = mq_view n"
    using assms(3) by (simp_all add: ctx_put_def mq_view_def fun_eq_iff)
  from ztask_mq_mark_release_ok [OF g m(1) assms(4,5)] obtain n2 where n2:
    "ztask_mq_mark_release (cqueue x) ?n1 = Some n2" "gq_ok n2 (if in_global mq then qs else qs @ [cqueue x])"
    "mq_view n2 = (mq_view n)(cqueue x \<mapsto> mq\<lparr>release := True, qnext := None\<rparr>)"
    "mq_state.more n2 = mq_state.more ?n1" unfolding m(2) by blast
  have more: "ctxs n2 = (ctxs n)(c \<mapsto> x\<lparr>cref := 0\<rparr>)" "server_wq n2 = remove1 c (server_wq n)" "total n2 = total n"
    using n2(4) by (cases n2; cases n; auto simp: ctx_put_def)+
  have inst: "ztask_module_instance_release w (cmod x) (cinstance x) ?n1 = Some ?n1"
    using quiet by (auto simp: ztask_module_instance_release_def split: option.splits)
  let ?n' = "n2\<lparr>ctxs := (ctxs n2)(c := None), total := total n2 - 1\<rparr>"
  have "delete_context w c (ctx_put c (x\<lparr>cref := 0\<rparr>) n) = Some ?n'"
    using assms(6) inst n2(1) by (simp add: delete_context_def ctx_put_def)
  moreover have "gq_ok ?n' qs' = gq_ok n2 qs'" "mq_view ?n' = mq_view n2" for qs'
    by (simp_all add: gq_ok_def mq_view_def fun_eq_iff)
  ultimately show ?thesis
    using True assms(1) n2(2,3) more by (simp add: ztask_context_release_def)
qed

section \<open>Local and remote handles\<close>

text \<open>A handle that names a service of this node is never taken for a remote one, whatever handle
  \<^verbatim>\<open>ztask_handle_register\<close> gave out.\<close>

theorem registered_not_remote:
  assumes "node_ok n qs" "harbor (handle_table n) = harbor_id n" "lookup n h = Some c"
  shows "ztask_harbor_message_isremote h n = Some False"
proof -
  have ok: "handles_ok (ztask_context_handle n) (handle_table n)" using assms(1) by (simp add: node_ok_def)
  have "Some c \<in> set (slot (handle_table n))" "ztask_context_handle n c = h"
    using assms(3) handle_map_iff [OF ok, of h c] by (simp_all add: lookup_def)
  then have "h AND NOT HANDLE_MASK = harbor_id n"
    using ok assms(2) by (auto simp: handles_ok_def in_set_conv_nth)
  then show ?thesis using assms(1) by (simp add: ztask_harbor_message_isremote_def node_ok_def)
qed

section \<open>The monitor\<close>

text \<open>The monitor reports a worker exactly when the worker has triggered nothing since the last check
  and is inside a message: then the service is marked as endless. A check after any trigger
  only records the new version, also when the version counter wraps around.\<close>

theorem monitor_check_endless:
  assumes "node_ok n qs" "version sm = check_version sm" "mon_destination sm \<noteq> 0"
    "lookup n (mon_destination sm) = Some c" "roomy 1 {} n"
  shows "\<exists>n' x. ztask_monitor_check w sm n = Some (sm, n') \<and> ctxs n' c = Some x \<and> endless x \<and>
    ztask_monitor_check w (ztask_monitor_trigger s d sm) n =
      Some ((ztask_monitor_trigger s d sm)\<lparr>check_version := version sm + 1\<rparr>, n)"
proof -
  have "ready n qs c" using assms(1,4) unfolding node_ok_def by blast
  then obtain x where x: "ctxs n c = Some x" "1 \<le> cref x" by (auto simp: ready_def split: option.splits)
  let ?x = "x\<lparr>endless := True\<rparr>"
  have e: "ztask_context_endless w (mon_destination sm) n = Some (ctx_put c ?x n)"
    using x assms(4) by (simp add: ztask_context_endless_def handle_grab_ok [OF assms(1)] ztask_context_grab_def
        ztask_context_release_def ctx_put_def)
  have core: "same_core n (ctx_put c ?x n)" by (rule same_core_ctx [OF x(1)]) (simp add: routing_def)
  have ok: "node_ok (ctx_put c ?x n) qs" by (rule same_core_ok [OF assms(1) core])
  let ?t = "''A message from [ :'' @ fmt_08x (mon_source sm) @ '' ] to [ :'' @ fmt_08x (mon_destination sm) @
      '' ] maybe in an endless loop (version = '' @ fmt_d (sint (version sm)) @ '')''"
  obtain n' where n': "ztask_error w None ?t (ctx_put c ?x n) = Some n'" "ctxs n' = ctxs (ctx_put c ?x n)"
    using ztask_error_ok [OF ok, of None w ?t] assms(5) roomy_view [OF same_core_lookup(3) [OF core], of 1 "{}"] by auto
  have "ztask_monitor_check w sm n = Some (sm, n')"
    unfolding ztask_monitor_check_def using assms(2,3) e n'(1) by simp
  moreover have "version sm + 1 \<noteq> check_version sm" using assms(2) by simp
  then have "ztask_monitor_check w (ztask_monitor_trigger s d sm) n =
      Some ((ztask_monitor_trigger s d sm)\<lparr>check_version := version sm + 1\<rparr>, n)"
    by (simp add: ztask_monitor_check_def ztask_monitor_trigger_def)
  ultimately show ?thesis using n'(2) by (intro exI [of _ n'] exI [of _ ?x]) (simp add: ctx_put_def)
qed

section \<open>Modules\<close>

lemma find_new: "(\<And>x. x \<in> set xs \<Longrightarrow> \<not> P x) \<Longrightarrow> P y \<Longrightarrow> find P (xs @ [y]) = Some y"
  by (induction xs) auto

text \<open>Looking a module up again gives the same module and changes nothing: the path is searched and the
  library opened only the first time. At most 32 modules are ever registered, and no name twice.\<close>

theorem module_query_cached:
  assumes "ztask_module_query w mname n = Some (Some m, n')" "length (module_list n) \<le> MAX_MODULE_TYPE"
    "distinct (map mod_name (module_list n))"
  shows "mod_name m = mname \<and> ztask_module_query w' mname n' = Some (Some m, n') \<and>
    length (module_list n') \<le> MAX_MODULE_TYPE \<and> distinct (map mod_name (module_list n'))"
proof (cases "query_module mname n")
  case (Some m0)
  then have "m = m0" "n' = n" using assms(1) by (simp_all add: ztask_module_query_def)
  moreover have "mod_name m0 = mname" using Some by (auto simp: query_module_def find_Some_iff strcmp_eq_0)
  ultimately show ?thesis using Some assms(2,3) by (simp add: ztask_module_query_def)
next
  case None
  have new: "mname \<notin> set (map mod_name (module_list n))"
    using None by (auto simp: query_module_def find_None_iff strcmp_eq_0)
  obtain dl where dl: "length (module_list n) < MAX_MODULE_TYPE" "m = open_sym w dl mname"
    "n' = n\<lparr>module_list := module_list n @ [m]\<rparr>"
    using assms(1) None by (auto simp: ztask_module_query_def Let_def split: if_splits open_result.splits)
  have nm: "mod_name m = mname" using dl(2) by (simp add: open_sym_def)
  have "find (\<lambda>m. strcmp (mod_name m) mname = 0) (module_list n @ [m]) = Some m"
    using new nm by (intro find_new) (auto simp: strcmp_eq_0 intro: rev_image_eqI)
  then have "query_module mname n' = Some m" using dl(3) by (simp add: query_module_def)
  then show ?thesis using dl new nm assms(3) by (simp add: ztask_module_query_def)
qed

section \<open>A sample node\<close>

text \<open>Two services: context 7 at handle 1 with queue 1, context 8 at handle 2 with queue 2, the latter
  named \<open>logger\<close>; a payload at address 5.\<close>

definition sample_module :: ztask_module where
  "sample_module = \<lparr>mod_name = ''m'', mod_lib = 0, mod_create = None, mod_init = Some 0, mod_release = None, mod_signal = None\<rparr>"

definition sample_context :: "u32 \<Rightarrow> qref \<Rightarrow> ztask_context" where
  "sample_context h q = \<lparr>cinstance = 0, cmod = sample_module, cb_ud = None, cb = None, cqueue = q, logfile = None,
     cpu_cost = 0, cpu_start = 0, result = [], chandle = h, session_id = 0x7FFFFFFF, cref = 1, message_count = 0,
     task_count = 0, cname = None, cinit = True, endless = False, cprofile = False, calling = False\<rparr>"

definition sample_net :: node where
  "sample_net =
     \<lparr>mq_mem = (\<lambda>_. None)(1 \<mapsto> (mq_new 1)\<lparr>in_global := False\<rparr>, 2 \<mapsto> (mq_new 2)\<lparr>in_global := False\<rparr>),
      mq_brk = 3, gq_head = None, gq_tail = None,
      handle_table = \<lparr>harbor = 0, handle_index = 3, slot_size = 4, slot = [None, Some 7, Some 8, None], name_cap = 2,
        name_count = 1, name = [Some \<lparr>hn_name = ''logger'', hn_handle = 2\<rparr>, None]\<rparr>,
      ctxs = (\<lambda>_. None)(7 \<mapsto> sample_context 1 1, 8 \<mapsto> sample_context 2 2), ctx_brk = 9, total = 2,
      monitor_exit = 0, handle_key = 0, profile = False, server_wq = [7, 8],
      heap = (\<lambda>_. None)(5 \<mapsto> Bytes [1, 2, 3]), heap_brk = 6, module_path = [], module_list = [],
      wheel = timer_create_timer, harbor_id = 0, remote_ctx = None, env = Map.empty, logger = 0, files = Map.empty\<rparr>"

definition sample_world :: world where
  "sample_world = \<lparr>w_dlopen = (\<lambda>_. Some 0), w_dlsym = (\<lambda>_ _. Some 0), w_create = (\<lambda>_ n. Some (Some 0, n)),
     w_init = (\<lambda>_ _ _ _ _ n. Some (0, n)), w_release = (\<lambda>_ _ n. Some n), w_signal = (\<lambda>_ _ _ n. Some n),
     w_cb = (\<lambda>_ _ _ _ _ _ _ _ n. Some (0, n)), w_thread_time = (\<lambda>_. 0), w_fopen = (\<lambda>_ _. None), w_ctime = (\<lambda>_. [])\<rparr>"

lemma sample_net_lookup: "lookup sample_net 1 = Some 7" "lookup sample_net 2 = Some 8" "lookup sample_net 3 = None"
  "lookup sample_net 0 = None" "lookup sample_net h = Some c \<Longrightarrow> c = 7 \<or> c = 8"
proof -
  show "lookup sample_net 1 = Some 7" "lookup sample_net 2 = Some 8" "lookup sample_net 3 = None" "lookup sample_net 0 = None"
    by (simp_all add: lookup_def handle_map_def slot_hash_def sample_net_def ztask_context_handle_def sample_context_def)
  assume "lookup sample_net h = Some c"
  then have m: "Some c = slot (handle_table sample_net) ! slot_hash h 4"
    by (auto simp: lookup_def handle_map_def sample_net_def split: option.splits if_splits)
  have "slot_hash h (2 ^ 2) < 4" using slot_hash_mod [of 2 h] by simp
  then have "slot_hash h 4 \<in> {0, 1, 2, 3}" by auto
  then show "c = 7 \<or> c = 8" using m by (auto simp: sample_net_def)
qed

lemma sample_net_ok: "node_ok sample_net []"
proof -
  have k: "\<exists>k \<le> 24. 4 = (2::nat) ^ k" by (rule exI [of _ 2]) simp
  have "(\<forall>i < 4. P i) \<longleftrightarrow> P 0 \<and> P 1 \<and> P 2 \<and> P (3::nat)" for P
    by (auto simp: numeral_eq_Suc less_Suc_eq)
  then have h: "handles_ok (ztask_context_handle sample_net) (handle_table sample_net)"
    using k by (simp add: handles_ok_def sample_net_def slot_hash_def ztask_context_handle_def sample_context_def HANDLE_MASK_def)
  have "names_ok (handle_table sample_net)" by (simp add: names_ok_def names_def sample_net_def)
  moreover have "gq_ok sample_net []" by (auto simp: gq_ok_def sample_net_def mq_new_def)
  moreover have "ready sample_net [] 7" "ready sample_net [] 8"
    by (simp_all add: ready_def sample_net_def sample_context_def mq_view_def mq_new_ok)
  moreover have "\<forall>a. heap_brk sample_net \<le> a \<longrightarrow> heap sample_net a = None" "harbor_id sample_net \<noteq> NOT 0"
    by (simp_all add: sample_net_def)
  ultimately show ?thesis using h sample_net_lookup(5) unfolding node_ok_def by metis
qed

lemma sample_net_roomy: "roomy 1 {} sample_net"
  by (auto simp: roomy_def sample_net_def mq_view_def mq_new_ok MQ_LIMIT_def simp del: mq_length_contents split: if_splits)

lemma sample_send_args:
  "ctxs sample_net 7 = Some (sample_context 1 1)" "(2 :: u64) AND MESSAGE_TYPE_MASK = 2"
  "args_ok 0x2000A 0 (Some 5) 2 sample_net" "local_dest sample_net 2" "local_dest sample_net 3"
  by (simp_all add: sample_net_def MESSAGE_TYPE_MASK_mask args_ok_def PTYPE_TAG_ALLOCSESSION_def PTYPE_TAG_DONTCOPY_def
      local_dest_def HANDLE_MASK_def mask_eq_decr_exp)

theorem send_local_delivers_witness:
  "\<exists>n' mq' a. ztask_send sample_world (Some 7) 0 2 0x2000A 0 (Some 5) 2 sample_net = Some (1, n') \<and>
     mq_view n' 2 = Some mq' \<and> map msg_data (mq_contents mq') = [Some a] \<and> heap n' a = Some (Bytes [1, 2])"
proof -
  have y: "ctxs sample_net 8 = Some (sample_context 2 2)"
    "mq_view sample_net (cqueue (sample_context 2 2)) = Some ((mq_new 2)\<lparr>in_global := False\<rparr>)"
    by (simp_all add: sample_net_def sample_context_def mq_view_def mq_new_def)
  have cq: "cqueue (sample_context 2 2) = 2" by (simp add: sample_context_def)
  have s: "sent_session 0x2000A 0 (sample_context 1 1) = 1"
    by (simp add: sent_session_def PTYPE_TAG_ALLOCSESSION_def ztask_context_newsession_def sample_context_def)
  have p: "sent_payload 0x2000A (Some 5) 2 sample_net = Some (Bytes [1, 2])"
    by (simp add: sent_payload_def PTYPE_TAG_DONTCOPY_def sample_net_def)
  have "length (mq_contents ((mq_new 2)\<lparr>in_global := False\<rparr>)) < MQ_LIMIT"
    by (simp add: mq_new_ok MQ_LIMIT_def del: mq_length_contents)
  from send_local_delivers [OF sample_net_ok sample_send_args(1-4) sample_net_lookup(2) y this, of sample_world 0]
  show ?thesis by (auto simp: s [simplified] p mq_new_ok cq split: option.splits)
qed

theorem send_unknown_frees_witness:
  "\<exists>n'. ztask_send sample_world (Some 7) 0 3 0x2000A 0 (Some 5) 2 sample_net = Some (-1, n') \<and> heap n' = heap sample_net"
  using send_unknown_frees [OF sample_net_ok sample_send_args(1-3,5) sample_net_lookup(3), of sample_world 0]
  by (auto simp: PTYPE_TAG_DONTCOPY_def)

theorem ztask_error_total_witness:
  "\<exists>n' mq' a. ztask_error sample_world (Some 7) ''hello'' sample_net = Some n' \<and> mq_view n' 2 = Some mq' \<and>
     map msg_data (mq_contents mq') = [Some a] \<and> heap n' a = Some (Bytes (bytes_of ''hello''))"
proof -
  have c: "case Some 7 of None \<Rightarrow> True | Some r \<Rightarrow> ctxs sample_net r \<noteq> None" by (simp add: sample_net_def)
  have v: "ctxs sample_net 8 = Some (sample_context 2 2)" "cqueue (sample_context 2 2) = 2"
    "mq_view sample_net 2 = Some ((mq_new 2)\<lparr>in_global := False, qnext := None\<rparr>)" "logger sample_net = 0"
    "name_map (handle_table sample_net) ''logger'' = Some 2"
    by (simp_all add: sample_net_def sample_context_def mq_view_def name_map_def names_def)
  from ztask_error_total [OF sample_net_ok c sample_net_roomy, of sample_world "''hello''"]
  show ?thesis by (auto simp: v sample_net_lookup(2) mq_new_ok)
qed

theorem registered_not_remote_witness: "ztask_harbor_message_isremote 2 sample_net = Some False"
  by (rule registered_not_remote [OF sample_net_ok _ sample_net_lookup(2)]) (simp add: sample_net_def)

theorem monitor_check_endless_witness:
  "\<exists>n' x. ztask_monitor_check sample_world (ztask_monitor_new\<lparr>mon_destination := 1\<rparr>) sample_net
       = Some (ztask_monitor_new\<lparr>mon_destination := 1\<rparr>, n') \<and> ctxs n' 7 = Some x \<and> endless x"
  using monitor_check_endless [OF sample_net_ok, of "ztask_monitor_new\<lparr>mon_destination := 1\<rparr>" 7 sample_world 0 0]
    sample_net_lookup(1) sample_net_roomy
  by (auto simp: ztask_monitor_new_def)

theorem context_release_last_witness:
  "\<exists>n'. ztask_context_release sample_world 7 sample_net = Some (False, n') \<and> ctxs n' 7 = None \<and> total n' = 1 \<and>
     gq_ok n' [1]"
proof -
  have "gq_ok sample_net []" using sample_net_ok by (simp add: node_ok_def)
  moreover have "mq_mem sample_net (cqueue (sample_context 1 1)) = Some ((mq_new 1)\<lparr>in_global := False\<rparr>)"
    by (simp add: sample_net_def sample_context_def)
  ultimately show ?thesis
    using context_release_last [OF sample_send_args(1), of "[]" "(mq_new 1)\<lparr>in_global := False\<rparr>" sample_world]
    by (auto simp: sample_context_def sample_module_def mq_new_def) (auto simp: sample_net_def)
qed

theorem module_query_cached_witness:
  "ztask_module_query sample_world ''m'' (sample_net\<lparr>module_list := [sample_module]\<rparr>)
     = Some (Some sample_module, sample_net\<lparr>module_list := [sample_module]\<rparr>)"
proof -
  let ?n = "sample_net\<lparr>module_list := [sample_module]\<rparr>"
  have q: "ztask_module_query sample_world ''m'' ?n = Some (Some sample_module, ?n)"
    by (simp add: ztask_module_query_def query_module_def sample_module_def)
  show ?thesis using module_query_cached [OF q, of sample_world] by (simp add: MAX_MODULE_TYPE_def)
qed

text \<open>A dead service's queue 9 holds one message from handle 1 with the payload at address 5.\<close>

definition sample_dead_queue :: message_queue where
  "sample_dead_queue = the (mq_store \<lparr>msg_source = 1, msg_session = 4, msg_data = Some 5, msg_sz = 3\<rparr>
     ((mq_new 9)\<lparr>release := True\<rparr>))"

lemma sample_dead_queue_facts:
  "mq_contents sample_dead_queue = [\<lparr>msg_source = 1, msg_session = 4, msg_data = Some 5, msg_sz = 3\<rparr>]"
  "mq_ok sample_dead_queue" "qnext sample_dead_queue = None" "release sample_dead_queue"
proof -
  let ?q = "(mq_new 9)\<lparr>release := True\<rparr>" and ?m = "\<lparr>msg_source = 1, msg_session = 4, msg_data = Some 5, msg_sz = 3\<rparr>"
  have q: "mq_ok ?q" "length (mq_contents ?q) < MQ_LIMIT" "mq_contents ?q = []"
    by (simp_all add: mq_new_ok MQ_LIMIT_def del: mq_length_contents)
  have f: "qnext ?q = None" "release ?q" by (simp_all add: mq_new_def)
  from mq_store_ok [OF q(1,2), of ?m] q(3) f
  show "mq_contents sample_dead_queue = [?m]" "mq_ok sample_dead_queue" "qnext sample_dead_queue = None"
    "release sample_dead_queue" by (auto simp: sample_dead_queue_def)
qed

definition sample_dead :: node where
  "sample_dead = mq_put 9 sample_dead_queue sample_net"

lemma sample_dead_roomy: "roomy (Suc 0) {9} sample_dead"
  using sample_net_roomy by (auto simp: roomy_def sample_dead_def)

theorem dead_queue_reports_witness:
  "\<exists>n'. ztask_mq_release (drop_message sample_world 9) 9 sample_dead = Some n' \<and> mq_mem n' 9 = None \<and> heap n' 5 = None \<and>
     map_option mq_contents (mq_view n' 1) = Some [error_reply 9]"
proof -
  let ?m = "\<lparr>msg_source = 1, msg_session = 4, msg_data = Some 5, msg_sz = 3\<rparr>"
  note c = sample_dead_queue_facts
  have f: "ctxs sample_dead = ctxs sample_net" "handle_table sample_dead = handle_table sample_net"
    "heap sample_dead = heap sample_net" "heap_brk sample_dead = heap_brk sample_net" "harbor_id sample_dead = harbor_id sample_net"
    by (simp_all add: sample_dead_def mq_put_def)
  have l: "ztask_context_handle sample_dead = ztask_context_handle sample_net"
    by (simp add: ztask_context_handle_def f fun_eq_iff)
  have lk: "lookup sample_dead = lookup sample_net" by (rule ext) (simp only: lookup_def l f)
  have "ready sample_dead [] 7" "ready sample_dead [] 8"
    by (simp_all add: ready_def sample_dead_def mq_put_def sample_net_def sample_context_def mq_view_def mq_new_ok)
  moreover have "gq_ok sample_dead []"
    using c(3) by (auto simp: gq_ok_def sample_dead_def sample_net_def mq_new_def)
  ultimately have ok: "node_ok sample_dead []"
    using sample_net_ok sample_net_lookup(5) unfolding node_ok_def lk l f by metis
  have r: "route sample_dead h \<noteq> Some 9" for h
    using sample_net_lookup(5) [of h] by (auto simp: route_def lk f sample_net_def sample_context_def split: option.splits)
  have r1: "route sample_dead 1 = Some 1"
    using sample_net_lookup(1) by (simp add: route_def lk f) (simp add: sample_net_def sample_context_def)
  have inv: "drop_inv 9 (route sample_dead) 9 (mq_contents sample_dead_queue) sample_dead"
    using ok r c(1) sample_net_lookup(4) sample_dead_roomy
    by (auto simp: drop_inv_def lk f payloads_def map_filter_simps local_dest_def HANDLE_MASK_def sample_net_def)
  have q1: "map_option mq_contents (mq_view sample_dead 1) = Some []"
    by (simp add: sample_dead_def) (simp add: mq_view_def sample_net_def mq_new_ok)
  from dead_queue_reports [OF inv _ c(2-4), of sample_world] obtain n' where n':
    "ztask_mq_release (drop_message sample_world 9) 9 sample_dead = Some n'" "mq_mem n' 9 = None"
    "(\<lambda>r. if r = 9 then None else map_option mq_contents (mq_view n' r), heap n') =
      drop_log 9 (route sample_dead) ?m (drop_obs 9 sample_dead)"
    by (auto simp: sample_dead_def c(1))
  have "heap n' = (heap sample_dead)(5 := None)"
    using arg_cong [OF n'(3), of snd] by (simp add: drop_log_def drop_obs_def)
  moreover have "map_option mq_contents (mq_view n' 1) = Some [error_reply 9]"
    using fun_cong [OF arg_cong [OF n'(3), of fst], of 1] q1 by (simp add: drop_log_def drop_obs_def r1)
  ultimately show ?thesis using n'(1,2) by simp
qed

end
