(* ===== verification/Command.thy ===== *)
theory Command
  imports Node
begin

text \<open>
  The text commands of \<^verbatim>\<open>src/ztask/ztask_server.c\<close> (\<^verbatim>\<open>ztask_command\<close> and the \<^verbatim>\<open>cmd_\<close>
  functions) and the small functions around them. A command gets the calling context and
  its parameter and returns a C string or NULL; the strings it formats go through the
  \<^verbatim>\<open>result\<close> buffer of the context.
\<close>

section \<open>Names of handles\<close>

definition hex_upper :: "nat \<Rightarrow> char" where
  "hex_upper d = (if d < 10 then char_of (48 + d) else char_of (55 + d))"

definition id_to_hex :: "u32 \<Rightarrow> string" where
  "id_to_hex i = CHR '':'' # map (\<lambda>k. hex_upper (unat (drop_bit ((7 - k) * 4) i AND 0xf))) [0..<8]"

definition ztask_queryname :: "world \<Rightarrow> ctxref option \<Rightarrow> string \<Rightarrow> node \<Rightarrow> (u32 \<times> node) option" where
  "ztask_queryname w c nm n =
     (case nm of
        k # rest \<Rightarrow>
          if k = CHR '':'' then Some (parse_handle rest, n)
          else if k = CHR ''.''
          then do { h \<leftarrow> ztask_handle_findname rest (handle_table n); Some (h, n) }
          else do { n1 \<leftarrow> ztask_error w c (''Don't support query global name '' @ nm) n; Some (0, n1) }
      | [] \<Rightarrow> do { n1 \<leftarrow> ztask_error w c (''Don't support query global name '' @ nm) n; Some (0, n1) })"

definition ztask_alias :: "ctxref \<Rightarrow> string option \<Rightarrow> node \<Rightarrow> (string option \<times> node) option" where
  "ztask_alias c alias n =
     do { x \<leftarrow> ctxs n c;
          let x1 = (if alias \<noteq> None then x\<lparr>cname := alias\<rparr> else x);
          Some (cname x1, ctx_put c x1 n) }"

definition handle_exit :: "world \<Rightarrow> ctxref \<Rightarrow> u32 \<Rightarrow> node \<Rightarrow> node option" where
  "handle_exit w c handle n =
     do { x \<leftarrow> ctxs n c;
          (h, n1) \<leftarrow>
            (if handle = 0
             then do { n1 \<leftarrow> ztask_error w (Some c) ''KILL self'' n; Some (chandle x, n1) }
             else do { n1 \<leftarrow> ztask_error w (Some c) (''KILL :'' @ fmt_x handle) n; Some (handle, n1) });
          n2 \<leftarrow> (if monitor_exit n1 \<noteq> 0
                  then do { (_, m) \<leftarrow> ztask_send w (Some c) h (monitor_exit n1) PTYPE_CLIENT 0 None 0 n1; Some m }
                  else Some n1);
          (_, n3) \<leftarrow> handle_retire w h n2;
          Some n3 }"

section \<open>Services for inspection\<close>

definition ztask_context_total :: "node \<Rightarrow> int" where
  "ztask_context_total n = total n"

definition ztask_context_task_inc :: "ctxref \<Rightarrow> node \<Rightarrow> node option" where
  "ztask_context_task_inc c n = do { x \<leftarrow> ctxs n c; Some (ctx_put c (x\<lparr>task_count := task_count x + 1\<rparr>) n) }"

definition ztask_context_task_dec :: "ctxref \<Rightarrow> node \<Rightarrow> node option" where
  "ztask_context_task_dec c n = do { x \<leftarrow> ctxs n c; Some (ctx_put c (x\<lparr>task_count := task_count x - 1\<rparr>) n) }"

definition ztask_debug_getservers :: "node \<Rightarrow> nat \<times> ctxref list" where
  "ztask_debug_getservers n = (length (server_wq n), server_wq n)"

section \<open>Commands\<close>

text \<open>Formatting into \<^verbatim>\<open>context->result\<close>.\<close>

definition set_result :: "ctxref \<Rightarrow> string \<Rightarrow> node \<Rightarrow> (string option \<times> node) option" where
  "set_result c s n = do { x \<leftarrow> ctxs n c; Some (Some s, ctx_put c (x\<lparr>result := s\<rparr>) n) }"

text \<open>\<open>strtol\<close> yields a \<^verbatim>\<open>long\<close> that is cut to \<^verbatim>\<open>int\<close>.\<close>

definition cmd_timeout :: "world \<Rightarrow> ctxref \<Rightarrow> string \<Rightarrow> node \<Rightarrow> (string option \<times> node) option" where
  "cmd_timeout w c param n =
     do { x \<leftarrow> ctxs n c;
          let ti = (word_of_int (strtol 10 param) :: cint);
          let (session, x1) = ztask_context_newsession x;
          let n1 = ctx_put c x1 n;
          (_, T, n2) \<leftarrow> ztask_timeout (ztask_context_push w) (chandle x) ti session (wheel n1) n1;
          set_result c (fmt_d (sint session)) (n2\<lparr>wheel := T\<rparr>) }"

definition cmd_reg :: "world \<Rightarrow> ctxref \<Rightarrow> string option \<Rightarrow> node \<Rightarrow> (string option \<times> node) option" where
  "cmd_reg w c param n =
     do { x \<leftarrow> ctxs n c;
          (case param of
             Some (k # rest) \<Rightarrow>
               if k = CHR ''.''
               then do { (r, tab) \<leftarrow> ztask_handle_namehandle (chandle x) rest (handle_table n);
                         Some (r, n\<lparr>handle_table := tab\<rparr>) }
               else do { n1 \<leftarrow> ztask_error w (Some c) (''Can't register global name '' @ k # rest @ '' in C'') n;
                         Some (None, n1) }
           | _ \<Rightarrow> set_result c (CHR '':'' # fmt_x (chandle x)) n) }"

definition cmd_query :: "ctxref \<Rightarrow> string \<Rightarrow> node \<Rightarrow> (string option \<times> node) option" where
  "cmd_query c param n =
     (case param of
        k # rest \<Rightarrow>
          if k = CHR ''.''
          then do { h \<leftarrow> ztask_handle_findname rest (handle_table n);
                    if h \<noteq> 0 then set_result c (CHR '':'' # fmt_x h) n else Some (None, n) }
          else Some (None, n)
      | [] \<Rightarrow> Some (None, n))"

text \<open>\<^verbatim>\<open>sscanf(param, "%s %s", name, handle)\<close>: with fewer than two words the buffer \<^verbatim>\<open>handle\<close> is read
  uninitialised, which is an abort here.\<close>

definition scan_words :: "string \<Rightarrow> (string \<times> string) option" where
  "scan_words s =
     (let a = dropWhile isspace_c s; w1 = takeWhile (\<lambda>c. \<not> isspace_c c) a;
          b = dropWhile isspace_c (dropWhile (\<lambda>c. \<not> isspace_c c) a); w2 = takeWhile (\<lambda>c. \<not> isspace_c c) b
      in if w1 \<noteq> [] \<and> w2 \<noteq> [] then Some (w1, w2) else None)"

definition cmd_name :: "world \<Rightarrow> ctxref \<Rightarrow> string \<Rightarrow> node \<Rightarrow> (string option \<times> node) option" where
  "cmd_name w c param n =
     do { (nm, hs) \<leftarrow> scan_words param;
          if hd hs \<noteq> CHR '':'' then Some (None, n)
          else let handle_id = parse_handle (tl hs) in
               if handle_id = 0 then Some (None, n)
               else if hd nm = CHR ''.''
               then do { (r, tab) \<leftarrow> ztask_handle_namehandle handle_id (tl nm) (handle_table n);
                         Some (r, n\<lparr>handle_table := tab\<rparr>) }
               else do { n1 \<leftarrow> ztask_error w (Some c) (''Can't set global name '' @ nm @ '' in C'') n;
                         Some (None, n1) } }"

definition cmd_alias :: "ctxref \<Rightarrow> string option \<Rightarrow> node \<Rightarrow> (string option \<times> node) option" where
  "cmd_alias c param n = do { (_, n1) \<leftarrow> ztask_alias c param n; Some (None, n1) }"

definition cmd_exit :: "world \<Rightarrow> ctxref \<Rightarrow> node \<Rightarrow> (string option \<times> node) option" where
  "cmd_exit w c n = do { n1 \<leftarrow> handle_exit w c 0 n; Some (None, n1) }"

definition tohandle :: "world \<Rightarrow> ctxref \<Rightarrow> string \<Rightarrow> node \<Rightarrow> (u32 \<times> node) option" where
  "tohandle w c param n =
     (case param of
        k # rest \<Rightarrow>
          if k = CHR '':'' then Some (parse_handle rest, n)
          else if k = CHR ''.''
          then do { h \<leftarrow> ztask_handle_findname rest (handle_table n); Some (h, n) }
          else do { n1 \<leftarrow> ztask_error w (Some c) (''Can't convert '' @ param @ '' to handle'') n; Some (0, n1) }
      | [] \<Rightarrow> do { n1 \<leftarrow> ztask_error w (Some c) (''Can't convert '' @ param @ '' to handle'') n; Some (0, n1) })"

definition cmd_kill :: "world \<Rightarrow> ctxref \<Rightarrow> string \<Rightarrow> node \<Rightarrow> (string option \<times> node) option" where
  "cmd_kill w c param n =
     do { (h, n1) \<leftarrow> tohandle w c param n;
          n2 \<leftarrow> (if h \<noteq> 0 then handle_exit w c h n1 else Some n1);
          Some (None, n2) }"

fun Test_strpbrk :: "string \<Rightarrow> string \<Rightarrow> string option" where
  "Test_strpbrk [] ct = None"
| "Test_strpbrk (c # cs) ct = (if c \<in> set ct then Some (c # cs) else Test_strpbrk cs ct)"

text \<open>The token and the rest of the string, NULL when no delimiter was found.\<close>

definition strsep :: "string option \<Rightarrow> string \<Rightarrow> string option \<times> string option" where
  "strsep s ct =
     (case s of
        None \<Rightarrow> (None, None)
      | Some sbegin \<Rightarrow>
          (case Test_strpbrk sbegin ct of
             Some e \<Rightarrow> (Some (take (length sbegin - length e) sbegin), Some (tl e))
           | None \<Rightarrow> (Some sbegin, None)))"

definition cmd_launch :: "world \<Rightarrow> ctxref \<Rightarrow> string \<Rightarrow> node \<Rightarrow> (string option \<times> node) option" where
  "cmd_launch w c param n =
     (let (m, args) = strsep (Some param) [CHR '' '', CHR 0x09, CHR 0x0D, CHR 0x0A];
          (args1, _) = strsep args [CHR 0x0D, CHR 0x0A]
      in do { mname \<leftarrow> m;
              a \<leftarrow> args1;
              (inst, n1) \<leftarrow> ztask_context_new w mname (Text a) (length a) n;
              (case inst of
                 None \<Rightarrow> Some (None, n1)
               | Some i \<Rightarrow> do { x \<leftarrow> ctxs n1 i; set_result c (id_to_hex (chandle x)) n1 }) })"

definition cmd_getenv :: "string \<Rightarrow> node \<Rightarrow> (string option \<times> node) option" where
  "cmd_getenv param n = Some (ztask_getenv param n, n)"

definition cmd_setenv :: "string \<Rightarrow> node \<Rightarrow> (string option \<times> node) option" where
  "cmd_setenv param n =
     (let key = takeWhile (\<lambda>c. c \<noteq> CHR '' '') param in
      if length key = length param then Some (None, n)
      else Some (None, ztask_setenv key (drop (length key + 1) param) n))"

definition cmd_starttime :: "ctxref \<Rightarrow> node \<Rightarrow> (string option \<times> node) option" where
  "cmd_starttime c n = set_result c (fmt_u (ztask_starttime (wheel n))) n"

definition cmd_abort :: "world \<Rightarrow> node \<Rightarrow> (string option \<times> node) option" where
  "cmd_abort w n = do { n1 \<leftarrow> ztask_handle_retireall w n; Some (None, n1) }"

definition cmd_monitor :: "world \<Rightarrow> ctxref \<Rightarrow> string option \<Rightarrow> node \<Rightarrow> (string option \<times> node) option" where
  "cmd_monitor w c param n =
     (if param = None \<or> param = Some []
      then if monitor_exit n \<noteq> 0 then set_result c (CHR '':'' # fmt_x (monitor_exit n)) n else Some (None, n)
      else do { p \<leftarrow> param;
                (h, n1) \<leftarrow> tohandle w c p n;
                Some (None, n1\<lparr>monitor_exit := h\<rparr>) })"

text \<open>\<^verbatim>\<open>%lf\<close> of a number of microseconds divided by 1000000.0, exact for values below \<open>2 ^ 52\<close>.\<close>

definition fmt_lf_micro :: "u64 \<Rightarrow> string" where
  "fmt_lf_micro t =
     (let f = print_digits 10 (unat t mod 1000000) in
      print_digits 10 (unat t div 1000000) @ CHR ''.'' # replicate (6 - length f) (CHR ''0'') @ f)"

text \<open>\<^verbatim>\<open>%d\<close> takes the low 32 bits of the \<^verbatim>\<open>size_t\<close> \<open>message_count\<close>.\<close>

definition cmd_stat :: "world \<Rightarrow> ctxref \<Rightarrow> string \<Rightarrow> node \<Rightarrow> (string option \<times> node) option" where
  "cmd_stat w c param n =
     do { x \<leftarrow> ctxs n c;
          if param = ''mqlen''
          then do { mq \<leftarrow> mq_mem n (cqueue x); set_result c (fmt_d (int (ztask_mq_length mq))) n }
          else if param = ''endless''
          then if endless x then set_result c ''1'' (ctx_put c (x\<lparr>endless := False\<rparr>) n) else set_result c ''0'' n
          else if param = ''cpu'' then set_result c (fmt_lf_micro (cpu_cost x)) n
          else if param = ''time''
          then if cprofile x then set_result c (fmt_lf_micro (w_thread_time w n - cpu_start x)) n
               else set_result c ''0'' n
          else if param = ''message'' then set_result c (fmt_d (sint (ucast (message_count x) :: cint))) n
          else set_result c [] n }"

text \<open>The handle named by a parameter, grabbed: the head of \<^verbatim>\<open>cmd_logon\<close>, \<^verbatim>\<open>cmd_logoff\<close> and \<^verbatim>\<open>cmd_signal\<close>.\<close>

definition grab_param :: "world \<Rightarrow> ctxref \<Rightarrow> string \<Rightarrow> node \<Rightarrow> (u32 \<times> ctxref option \<times> node) option" where
  "grab_param w c param n =
     do { (h, n1) \<leftarrow> tohandle w c param n;
          if h = 0 then Some (h, None, n1)
          else do { (r, n2) \<leftarrow> handle_grab h n1; Some (h, r, n2) } }"

definition cmd_logon :: "world \<Rightarrow> ctxref \<Rightarrow> string \<Rightarrow> node \<Rightarrow> (string option \<times> node) option" where
  "cmd_logon w c param n =
     do { (h, r, n1) \<leftarrow> grab_param w c param n;
          (case r of
             None \<Rightarrow> Some (None, n1)
           | Some d \<Rightarrow>
               do { x \<leftarrow> ctxs n1 d;
                    n2 \<leftarrow> (if logfile x = None
                            then do { (f, m1) \<leftarrow> ztask_log_open w c h n1;
                                      (case f of
                                         None \<Rightarrow> Some m1
                                       | Some fd \<Rightarrow>
                                           do { y \<leftarrow> ctxs m1 d;
                                                if logfile y = None
                                                then Some (ctx_put d (y\<lparr>logfile := Some fd\<rparr>) m1)
                                                else fclose fd m1 }) }
                            else Some n1);
                    (_, n3) \<leftarrow> ztask_context_release w d n2;
                    Some (None, n3) }) }"

definition cmd_logoff :: "world \<Rightarrow> ctxref \<Rightarrow> string \<Rightarrow> node \<Rightarrow> (string option \<times> node) option" where
  "cmd_logoff w c param n =
     do { (h, r, n1) \<leftarrow> grab_param w c param n;
          (case r of
             None \<Rightarrow> Some (None, n1)
           | Some d \<Rightarrow>
               do { x \<leftarrow> ctxs n1 d;
                    n2 \<leftarrow> (case logfile x of
                             Some f \<Rightarrow> ztask_log_close w c f h (ctx_put d (x\<lparr>logfile := None\<rparr>) n1)
                           | None \<Rightarrow> Some n1);
                    (_, n3) \<leftarrow> ztask_context_release w d n2;
                    Some (None, n3) }) }"

definition cmd_signal :: "world \<Rightarrow> ctxref \<Rightarrow> string \<Rightarrow> node \<Rightarrow> (string option \<times> node) option" where
  "cmd_signal w c param n =
     do { (h, r, n1) \<leftarrow> grab_param w c param n;
          (case r of
             None \<Rightarrow> Some (None, n1)
           | Some d \<Rightarrow>
               do { x \<leftarrow> ctxs n1 d;
                    let p = dropWhile (\<lambda>k. k \<noteq> CHR '' '') param;
                    let sig = (if p = [] then 0 else sint (word_of_int (strtol 0 p) :: cint));
                    n2 \<leftarrow> ztask_module_instance_signal w (cmod x) (cinstance x) sig n1;
                    (_, n3) \<leftarrow> ztask_context_release w d n2;
                    Some (None, n3) }) }"

text \<open>The table \<^verbatim>\<open>cmd_funcs\<close>: most commands read their parameter without a test for NULL.\<close>

definition cmd_funcs ::
  "world \<Rightarrow> ctxref \<Rightarrow> string option \<Rightarrow> node \<Rightarrow> (string \<times> (string option \<times> node) option) list" where
  "cmd_funcs w c param n =
     [(''TIMEOUT'', do { p \<leftarrow> param; cmd_timeout w c p n }), (''REG'', cmd_reg w c param n),
      (''QUERY'', do { p \<leftarrow> param; cmd_query c p n }), (''NAME'', do { p \<leftarrow> param; cmd_name w c p n }),
      (''ALIAS'', cmd_alias c param n), (''EXIT'', cmd_exit w c n),
      (''KILL'', do { p \<leftarrow> param; cmd_kill w c p n }), (''LAUNCH'', do { p \<leftarrow> param; cmd_launch w c p n }),
      (''GETENV'', do { p \<leftarrow> param; cmd_getenv p n }), (''SETENV'', do { p \<leftarrow> param; cmd_setenv p n }),
      (''STARTTIME'', cmd_starttime c n), (''ABORT'', cmd_abort w n), (''MONITOR'', cmd_monitor w c param n),
      (''STAT'', do { p \<leftarrow> param; cmd_stat w c p n }), (''LOGON'', do { p \<leftarrow> param; cmd_logon w c p n }),
      (''LOGOFF'', do { p \<leftarrow> param; cmd_logoff w c p n }), (''SIGNAL'', do { p \<leftarrow> param; cmd_signal w c p n })]"

definition ztask_command :: "world \<Rightarrow> ctxref \<Rightarrow> string \<Rightarrow> string option \<Rightarrow> node \<Rightarrow> (string option \<times> node) option" where
  "ztask_command w c cmd param n =
     (case find (\<lambda>(k, _). strcmp cmd k = 0) (cmd_funcs w c param n) of
        Some (_, r) \<Rightarrow> r
      | None \<Rightarrow> Some (None, n))"

section \<open>Callbacks and threads\<close>

definition ztask_callback :: "ctxref \<Rightarrow> nat option \<Rightarrow> nat option \<Rightarrow> node \<Rightarrow> node option" where
  "ztask_callback c ud f n = do { x \<leftarrow> ctxs n c; Some (ctx_put c (x\<lparr>cb := f, cb_ud := ud\<rparr>) n) }"

definition ztask_getud :: "ctxref \<Rightarrow> node \<Rightarrow> nat option option" where
  "ztask_getud c n = do { x \<leftarrow> ctxs n c; Some (cb_ud x) }"

definition ztask_getcb :: "ctxref \<Rightarrow> node \<Rightarrow> nat option option" where
  "ztask_getcb c n = do { x \<leftarrow> ctxs n c; Some (cb x) }"

definition ztask_initthread :: "cint \<Rightarrow> node \<Rightarrow> node" where
  "ztask_initthread m n = n\<lparr>handle_key := - m\<rparr>"

definition ztask_globalinit :: "node \<Rightarrow> node" where
  "ztask_globalinit n = ztask_initthread 1 (n\<lparr>total := 0, monitor_exit := 0, server_wq := []\<rparr>)"

definition ztask_current_handle :: "node \<Rightarrow> u32" where
  "ztask_current_handle n = handle_key n"

definition ztask_profile_enable :: "bool \<Rightarrow> node \<Rightarrow> node" where
  "ztask_profile_enable enable n = n\<lparr>profile := enable\<rparr>"

section \<open>Handles as text\<close>

lemma digit_value_hex_upper: "d < 16 \<Longrightarrow> digit_value (hex_upper d) = Some d"
  by (auto simp: digit_value_def hex_upper_def Let_def)

lemma hex_digit_less: "unat (w AND 0xf) < 16" for w :: u32
proof -
  have "unat (w AND mask 4) = unat w mod 2 ^ 4" by (rule unat_and_mask)
  then show ?thesis by (simp add: mask_eq_decr_exp)
qed

lemma read_hex_upper:
  "j \<le> 8 \<Longrightarrow> read_digits 16 acc (map (\<lambda>k. hex_upper (unat (drop_bit ((7 - k) * 4) i AND 0xf))) [8 - j..<8])
     = acc * 16 ^ j + unat i mod 16 ^ j" for i :: u32
proof (induction j arbitrary: acc)
  case (Suc j)
  let ?f = "\<lambda>k. hex_upper (unat (drop_bit ((7 - k) * 4) i AND 0xf))"
  have r: "[8 - Suc j..<8] = (7 - j) # [8 - j..<8]" using Suc.prems by (simp add: upt_conv_Cons Suc_diff_le [symmetric] Suc_diff_Suc)
  have d: "unat (drop_bit (j * 4) i AND 0xf) = unat i div 16 ^ j mod 16"
  proof -
    have "unat (drop_bit (j * 4) i AND mask 4) = unat (drop_bit (j * 4) i) mod 2 ^ 4" by (rule unat_and_mask)
    moreover have "(2::nat) ^ (j * 4) = 16 ^ j" using power_mult [of "2::nat" 4 j] by (simp add: mult.commute)
    ultimately show ?thesis by (simp add: mask_eq_decr_exp unat_drop_bit)
  qed
  have "7 - (7 - j) = j" using Suc.prems by simp
  then have "read_digits 16 acc (map ?f [8 - Suc j..<8]) =
      read_digits 16 (acc * 16 + unat i div 16 ^ j mod 16) (map ?f [8 - j..<8])"
    unfolding r using digit_value_hex_upper [OF hex_digit_less, of "drop_bit (j * 4) i"] hex_digit_less [of "drop_bit (j * 4) i"] d
    by simp
  also have "\<dots> = (acc * 16 + unat i div 16 ^ j mod 16) * 16 ^ j + unat i mod 16 ^ j" using Suc by simp
  also have "\<dots> = acc * 16 ^ Suc j + unat i mod 16 ^ Suc j"
    using mod_mult2_eq [of "unat i" "16 ^ j" 16] by (simp add: algebra_simps)
  finally show ?case .
qed simp

lemma ucast_back: "ucast (ucast h :: u64) = h" for h :: u32
  by (rule bit_eqI) (auto simp: bit_unsigned_iff dest: bit_imp_le_length)

lemma parse_id_to_hex: "parse_handle (tl (id_to_hex h)) = h"
proof -
  let ?s = "tl (id_to_hex h)"
  have s: "?s = map (\<lambda>k. hex_upper (unat (drop_bit ((7 - k) * 4) h AND 0xf))) [8 - 8..<8]" by (simp add: id_to_hex_def)
  have lt: "unat h < 2 ^ 32" using unsigned_less [where ?'b = 32 and ?'a = nat and w = h] by simp
  have "read_digits 16 0 ?s = unat h mod 16 ^ 8" unfolding s using read_hex_upper [of 8 0 h] by simp
  then have "read_digits 16 0 ?s = unat h" using lt by simp
  moreover have "\<exists>d < 16. digit_value c = Some d" if "c \<in> set ?s" for c
    using that digit_value_hex_upper [OF hex_digit_less] hex_digit_less by (auto simp: s)
  moreover have "?s \<noteq> []" by (simp add: id_to_hex_def)
  ultimately have "strtoul 16 ?s = of_nat (unat h)" using lt by (intro strtoul_hex_digits) auto
  then show ?thesis by (simp add: parse_handle_def ucast_back)
qed

lemma parse_fmt_x: "parse_handle (fmt_x h) = h"
  by (simp add: parse_handle_def strtoul_fmt_x ucast_back)

text \<open>The textual form of a handle that \<^verbatim>\<open>LAUNCH\<close> returns is read back by \<^verbatim>\<open>ztask_queryname\<close> to the
  same handle, for all \<open>2 ^ 32\<close> handles.\<close>

theorem id_to_hex_queryname: "ztask_queryname w c (id_to_hex h) n = Some (h, n)"
  using parse_id_to_hex [of h] by (simp add: ztask_queryname_def id_to_hex_def)

section \<open>Registering and querying names\<close>

text \<open>A service that registers a free name with \<^verbatim>\<open>REG\<close> is found under it: \<^verbatim>\<open>QUERY\<close> returns a text which
  \<^verbatim>\<open>ztask_queryname\<close> reads back to the handle of the service; registering the name again
  returns NULL and changes nothing.\<close>

theorem reg_then_query:
  assumes "names_ok (handle_table n)" "ctxs n c = Some x" "chandle x \<noteq> 0" "name_map (handle_table n) nm = None"
    "name_cap (handle_table n) * 2 \<le> MAX_SLOT_SIZE \<or> name_count (handle_table n) < name_cap (handle_table n)"
  shows "\<exists>n1 n2 s. ztask_command w c ''REG'' (Some (CHR ''.'' # nm)) n = Some (Some nm, n1) \<and>
    ztask_command w c ''QUERY'' (Some (CHR ''.'' # nm)) n1 = Some (Some s, n2) \<and>
    ztask_queryname w (Some c) s n2 = Some (chandle x, n2) \<and>
    ztask_command w c ''REG'' (Some (CHR ''.'' # nm)) n2 = Some (None, n2)"
proof -
  let ?t = "handle_table n"
  obtain t1 where t1: "ztask_handle_namehandle (chandle x) nm ?t = Some (Some nm, t1)" "names_ok t1"
    "name_map t1 = (name_map ?t)(nm \<mapsto> chandle x)"
    using namehandle_spec [OF assms(1,5), of "chandle x" nm] assms(4) by auto
  have again: "ztask_handle_namehandle (chandle x) nm t1 = Some (None, t1)"
    using namehandle_taken [OF t1(2), of nm "chandle x"] t1(3) by simp
  let ?n1 = "n\<lparr>handle_table := t1\<rparr>"
  let ?s = "CHR '':'' # fmt_x (chandle x)" and ?n2 = "ctx_put c (x\<lparr>result := CHR '':'' # fmt_x (chandle x)\<rparr>) (n\<lparr>handle_table := t1\<rparr>)"
  have "ztask_command w c ''REG'' (Some (CHR ''.'' # nm)) n = Some (Some nm, ?n1)"
    using assms(2) t1(1) by (simp add: ztask_command_def cmd_funcs_def cmd_reg_def)
  moreover have "ztask_command w c ''QUERY'' (Some (CHR ''.'' # nm)) ?n1 = Some (Some ?s, ?n2)"
    using assms(2,3) handle_findname_spec [OF t1(2), of nm] t1(3)
    by (simp add: ztask_command_def cmd_funcs_def cmd_query_def set_result_def)
  moreover have "ztask_queryname w (Some c) ?s ?n2 = Some (chandle x, ?n2)"
    by (simp add: ztask_queryname_def parse_fmt_x)
  moreover have "ztask_command w c ''REG'' (Some (CHR ''.'' # nm)) ?n2 = Some (None, ?n2)"
    using again by (simp add: ztask_command_def cmd_funcs_def cmd_reg_def ctx_put_def)
  ultimately show ?thesis by blast
qed

section \<open>Environment\<close>

text \<open>What \<^verbatim>\<open>SETENV\<close> stores is what \<^verbatim>\<open>GETENV\<close> returns: the key ends at the first space, the value is
  everything behind it, and a parameter without a space is ignored.\<close>

theorem setenv_getenv:
  assumes "CHR '' '' \<notin> set key"
  shows "\<exists>n1. ztask_command w c ''SETENV'' (Some (key @ CHR '' '' # val)) n = Some (None, n1) \<and>
    (\<forall>k. ztask_command w c ''GETENV'' (Some k) n1
       = Some (if k = key then Some val else ztask_getenv k n, n1)) \<and>
    ztask_command w c ''SETENV'' (Some key) n = Some (None, n)"
proof -
  have "takeWhile (\<lambda>c. c \<noteq> CHR '' '') (key @ CHR '' '' # val) = key @ takeWhile (\<lambda>c. c \<noteq> CHR '' '') (CHR '' '' # val)"
    by (rule takeWhile_append2) (use assms in auto)
  then have k: "takeWhile (\<lambda>c. c \<noteq> CHR '' '') (key @ CHR '' '' # val) = key" "takeWhile (\<lambda>c. c \<noteq> CHR '' '') key = key"
    using assms by (auto simp: takeWhile_eq_all_conv)
  show ?thesis
    by (rule exI [of _ "n\<lparr>env := (env n)(key \<mapsto> val)\<rparr>"])
       (simp add: ztask_command_def cmd_funcs_def cmd_setenv_def cmd_getenv_def ztask_setenv_def ztask_getenv_def k Let_def)
qed

section \<open>Launching without arguments\<close>

lemma Test_strpbrk_None: "Test_strpbrk s ct = None \<longleftrightarrow> set s \<inter> set ct = {}"
  by (induction s) auto

text \<open>\<^verbatim>\<open>LAUNCH\<close> with a module name only, without an argument behind it, takes the length of a NULL
  string: the call aborts.\<close>

theorem launch_without_args:
  assumes "set mname \<inter> {CHR '' '', CHR 0x09, CHR 0x0D, CHR 0x0A} = {}"
  shows "ztask_command w c ''LAUNCH'' (Some mname) n = None"
proof -
  have "Test_strpbrk mname [CHR '' '', CHR 0x09, CHR 0x0D, CHR 0x0A] = None"
    unfolding Test_strpbrk_None using assms by auto
  then show ?thesis
    by (simp add: ztask_command_def cmd_funcs_def cmd_launch_def strsep_def)
qed

section \<open>Witnesses\<close>

theorem reg_then_query_witness:
  "\<exists>n1 n2 s. ztask_command sample_world 7 ''REG'' (Some ''.db'') sample_net = Some (Some ''db'', n1) \<and>
     ztask_command sample_world 7 ''QUERY'' (Some ''.db'') n1 = Some (Some s, n2) \<and>
     ztask_queryname sample_world (Some 7) s n2 = Some (1, n2)"
proof -
  have "names_ok (handle_table sample_net)" using sample_net_ok by (simp add: node_ok_def)
  moreover have "chandle (sample_context 1 1) = 1" "chandle (sample_context 1 1) \<noteq> 0" by (simp_all add: sample_context_def)
  moreover have "name_map (handle_table sample_net) ''db'' = None"
    "name_cap (handle_table sample_net) * 2 \<le> MAX_SLOT_SIZE \<or> name_count (handle_table sample_net) < name_cap (handle_table sample_net)"
    by (simp_all add: name_map_def names_def sample_net_def)
  ultimately show ?thesis
    using reg_then_query [OF _ sample_send_args(1), of "''db''" sample_world] by auto
qed

theorem setenv_getenv_witness:
  "\<exists>n1. ztask_command sample_world 7 ''SETENV'' (Some ''logpath /var/log x'') sample_net = Some (None, n1) \<and>
     ztask_command sample_world 7 ''GETENV'' (Some ''logpath'') n1 = Some (Some ''/var/log x'', n1)"
  using setenv_getenv [of "''logpath''" sample_world 7 "''/var/log x''" sample_net] by auto

theorem launch_without_args_witness: "ztask_command sample_world 7 ''LAUNCH'' (Some ''logger'') sample_net = None"
  by (rule launch_without_args) simp

section \<open>Launching a service\<close>

text \<open>Addresses not yet given out are free.\<close>

definition fresh_ok :: "node \<Rightarrow> bool" where
  "fresh_ok n \<longleftrightarrow> (\<forall>q. mq_brk n \<le> q \<longrightarrow> mq_mem n q = None) \<and>
     (\<forall>c. ctx_brk n \<le> c \<longrightarrow> ctxs n c = None \<and> Some c \<notin> set (slot (handle_table n)))"

lemma context_enter_ok:
  assumes ok: "node_ok n qs" and fr: "fresh_ok n" and room: "has_room (handle_table n)"
  defines "c \<equiv> ctx_brk n" and "q \<equiv> mq_brk n"
  shows "\<exists>h n'. context_enter m inst n = Some (c, h, q, n') \<and> node_ok n' qs \<and> lookup n h = None \<and>
    lookup n' = (lookup n)(h \<mapsto> c) \<and>
    ctxs n' = (ctxs n)(c \<mapsto> (context_init m inst n)\<lparr>chandle := h, cqueue := q\<rparr>) \<and>
    mq_mem n' = (mq_mem n)(q \<mapsto> mq_new h) \<and> total n' = total n + 1 \<and> server_wq n' = server_wq n @ [c] \<and>
    logger n' = logger n"
proof -
  let ?x = "context_init m inst n"
  let ?n1 = "(ctx_put c ?x n)\<lparr>ctx_brk := Suc c\<rparr>"
  let ?ch = "ztask_context_handle n" and ?t = "handle_table n"
  have cf: "ctxs n c = None" "Some c \<notin> set (slot ?t)" "mq_mem n q = None" using fr by (auto simp: fresh_ok_def c_def q_def)
  have ch: "ztask_context_handle ?n1 = ?ch"
    using cf(1) by (auto simp: ztask_context_handle_def ctx_put_def context_init_def fun_eq_iff)
  obtain h t' where t': "ztask_handle_register ?ch c ?t = Some (h, t')" "handles_ok (?ch(c := h)) t'"
    "handle_map ?ch ?t h = None" "handle_map (?ch(c := h)) t' = (handle_map ?ch ?t)(h \<mapsto> c)" "same_names ?t t'"
    using register_spec [OF _ cf(2) room] ok unfolding node_ok_def by blast
  let ?y = "?x\<lparr>chandle := h, cqueue := q\<rparr>"
  let ?n2 = "(mq_put q (mq_new h) (?n1\<lparr>handle_table := t'\<rparr>))\<lparr>mq_brk := Suc q\<rparr>"
  let ?n' = "(ctx_put c ?y ?n2)\<lparr>total := total n + 1, server_wq := server_wq n @ [c]\<rparr>"
  have t1: "handle_table ?n1 = ?t" by (simp add: ctx_put_def)
  have run: "context_enter m inst n = Some (c, h, q, ?n')"
    unfolding context_enter_def Let_def c_def [symmetric] ch t1
    using t'(1) by (simp add: ztask_mq_create_def Let_def q_def ctx_put_def mq_put_def)
  have chy: "ztask_context_handle ?n' = ?ch(c := h)"
    by (auto simp: ztask_context_handle_def ctx_put_def mq_put_def context_init_def fun_eq_iff)
  have lk: "lookup ?n' = (lookup n)(h \<mapsto> c)"
  proof
    fix k show "lookup ?n' k = ((lookup n)(h \<mapsto> c)) k"
      unfolding lookup_def chy using fun_cong [OF t'(4), of k] by (simp add: ctx_put_def mq_put_def lookup_def)
  qed
  have nq: "q \<notin> set qs" using ok cf(3) gq_ok_mem [of n qs q] by (auto simp: node_ok_def)
  have gq: "gq_ok ?n' qs"
  proof -
    have "gq_path ((mq_mem n)(q \<mapsto> mq_new h)) (gq_head n) qs = gq_path (mq_mem n) (gq_head n) qs"
      by (rule gq_path_frame) (use nq in auto)
    then show ?thesis using ok by (auto simp: node_ok_def gq_ok_def ctx_put_def mq_put_def mq_new_def)
  qed
  have rd: "ready ?n' qs d" if "lookup ?n' k = Some d" for k d
  proof (cases "d = c")
    case True
    then show ?thesis
      by (simp add: ready_def ctx_put_def mq_put_def context_init_def mq_view_def mq_new_ok) (simp add: mq_new_def)
  next
    case False
    then have "lookup n k = Some d" using that lk by (auto split: if_splits)
    then have r: "ready n qs d" using ok unfolding node_ok_def by blast
    then obtain z where z: "ctxs n d = Some z" "mq_view n (cqueue z) \<noteq> None" by (auto simp: ready_def split: option.splits)
    then have "cqueue z \<noteq> q" using cf(3) by (auto simp: mq_view_def)
    then show ?thesis using r z False by (simp add: ready_def ctx_put_def mq_put_def mq_view_def)
  qed
  have "node_ok ?n' qs"
    using ok t'(2) same_names_ok [OF t'(5)] gq rd unfolding node_ok_def chy
    by (simp add: ctx_put_def mq_put_def)
  then show ?thesis
    using run lk t'(3) by (intro exI [of _ h] exI [of _ ?n']) (simp add: lookup_def ctx_put_def mq_put_def)
qed

lemma node_ok_ctx:
  assumes ok: "node_ok n qs" and x: "ctxs n c = Some x" "chandle y = chandle x" "cqueue y = cqueue x" "1 \<le> cref y"
  shows "node_ok (ctx_put c y n) qs" "lookup (ctx_put c y n) = lookup n"
proof -
  let ?n = "ctx_put c y n"
  have ch: "ztask_context_handle ?n = ztask_context_handle n"
    using x by (auto simp: ztask_context_handle_def ctx_put_def fun_eq_iff)
  show lk: "lookup ?n = lookup n" by (rule ext) (simp only: lookup_def ch, simp add: ctx_put_def)
  have v: "mq_view ?n = mq_view n" by (simp add: mq_view_def ctx_put_def fun_eq_iff)
  have "ready ?n qs d" if "ready n qs d" for d
    using that x unfolding ready_def v by (auto simp: ctx_put_def split: option.splits)
  moreover have "gq_ok ?n qs = gq_ok n qs" by (simp add: gq_ok_def ctx_put_def)
  ultimately show "node_ok ?n qs"
    using ok unfolding node_ok_def lk ch by (auto simp: ctx_put_def)
qed

text \<open>Launching a service of a loaded module whose init function succeeds and sets a callback: it
  gets a handle that named no service before, is initialised and held by one reference, its fresh queue is in the
  global queue, the other services keep their handles and contexts.\<close>

theorem context_new_registers:
  assumes ok: "node_ok n qs" and fr: "fresh_ok n" and room: "has_room (handle_table n)"
    and m: "query_module mname n = Some md" "mod_create md = None" "mod_init md = Some f"
    and lt: "launch_text mname param = Some tx" and rm: "roomy 1 {} n"
    and init: "\<And>m x. ctxs m (ctx_brk n) = Some x \<Longrightarrow> w_init w f (2 ^ 64 - 1) (ctx_brk n) param sz m =
      Some (0, ctx_put (ctx_brk n) (x\<lparr>cb := k, cb_ud := ud\<rparr>) m)"
  shows "\<exists>h n' qs' x. ztask_context_new w mname param sz n = Some (Some (ctx_brk n), n') \<and> node_ok n' qs' \<and>
    lookup n h = None \<and> lookup n' = (lookup n)(h \<mapsto> ctx_brk n) \<and> ctxs n' = (ctxs n)(ctx_brk n \<mapsto> x) \<and>
    chandle x = h \<and> cref x = 1 \<and> cinit x \<and> \<not> calling x \<and> cb x = k \<and> cqueue x = mq_brk n \<and>
    mq_brk n \<in> set qs'"
proof -
  define i :: nat where "i = 2 ^ 64 - 1"
  have cr: "ztask_module_instance_create w md n = Some (Some i, n)" using m by (simp add: ztask_module_instance_create_def i_def)
  have ini: "ztask_module_instance_init w md i (ctx_brk n) param sz m = Some (0, ctx_put (ctx_brk n) (x\<lparr>cb := k, cb_ud := ud\<rparr>) m)"
    if "ctxs m (ctx_brk n) = Some x" for m x using m init [OF that] by (simp add: ztask_module_instance_init_def i_def)
  let ?c = "ctx_brk n" and ?q = "mq_brk n"
  have q0: "mq_mem n ?q = None" using fr by (auto simp: fresh_ok_def)
  have nq: "?q \<notin> set qs" using ok q0 gq_ok_mem [of n qs ?q] by (auto simp: node_ok_def)
  let ?x0 = "context_init md (i) n"
  obtain h n3 where n3: "context_enter md (i) n = Some (?c, h, ?q, n3)" "node_ok n3 qs" "lookup n h = None"
    "lookup n3 = (lookup n)(h \<mapsto> ?c)" "ctxs n3 = (ctxs n)(?c \<mapsto> ?x0\<lparr>chandle := h, cqueue := ?q\<rparr>)"
    "mq_mem n3 = (mq_mem n)(?q \<mapsto> mq_new h)"
    using context_enter_ok [OF ok fr room, of md i] by blast
  let ?x3 = "?x0\<lparr>chandle := h, cqueue := ?q\<rparr>"
  let ?z = "?x3\<lparr>cb := k, cb_ud := ud, calling := False, cref := 1, cinit := True\<rparr>"
  let ?n8 = "ctx_put ?c ?z n3"
  have ok8: "node_ok ?n8 qs" and lk8: "lookup ?n8 = (lookup n)(h \<mapsto> ?c)"
    using node_ok_ctx [OF n3(2), of ?c ?x3 ?z] n3(4,5) by simp_all
  have v8: "mq_mem ?n8 ?q = Some (mq_new h)" "mq_view ?n8 ?q = Some (mq_new h)"
    using n3(6) by (auto simp: ctx_put_def mq_view_def mq_new_def)
  obtain n9 where n9: "ztask_globalmq_push ?q ?n8 = Some n9" "gq_ok n9 (qs @ [?q])" "mq_view n9 = mq_view ?n8"
    "mq_state.more n9 = mq_state.more ?n8"
    using globalmq_push_ok [OF _ v8(1) nq] ok8 unfolding node_ok_def by blast
  have v9: "mq_view n9 = (mq_view ?n8)(?q \<mapsto> mq_new h)" using n9(3) v8(2) by (simp add: fun_upd_idem)
  have ok9: "node_ok n9 (qs @ [?q])"
    by (rule node_ok_pushed [OF ok8 n9(2) _ v9 _ _ n9(4), of "(mq_new h)\<lparr>in_global := False\<rparr>"])
       (simp_all add: mq_new_ok, simp add: mq_new_def)
  have cx9: "ctxs n9 = (ctxs n)(?c \<mapsto> ?z)" using node_more_fields(1) [OF n9(4)] n3(5) by (simp add: ctx_put_def)
  have "roomy 1 {} n9"
    unfolding roomy_def
  proof (intro allI impI)
    fix r v assume "mq_view n9 r = Some v"
    then have v: "mq_view ?n8 r = Some v" by (simp add: n9(3))
    show "length (mq_contents v) + 1 \<le> MQ_LIMIT"
    proof (cases "r = ?q")
      case True
      then have "mq_contents v = []" using v v8(2) mq_new_ok(2) [of h] by simp
      then show ?thesis by (simp add: MQ_LIMIT_def del: mq_length_contents)
    next
      case False
      then have "mq_view n r = Some v" using v n3(6) by (simp add: mq_view_def ctx_put_def)
      then show ?thesis using rm unfolding roomy_def by blast
    qed
  qed
  then obtain n' qs' where n': "ztask_error w (Some ?c) tx n9 = Some n'" "node_ok n' qs'" "set (qs @ [?q]) \<subseteq> set qs'"
    "ctxs n' = ctxs n9" "lookup n' = lookup n9"
    using ztask_error_ok [OF ok9, of "Some ?c" w tx] cx9 by auto
  have "ztask_context_new w mname param sz n = Some (Some ?c, n')"
    using n3(1,5) n'(1) n9(1) m lt
    by (simp add: ztask_context_new_def ztask_module_query_def cr call_begin_def call_end_def ini
        ztask_context_release_def ctx_put_def context_init_def)
  moreover have "lookup n' = (lookup n)(h \<mapsto> ?c)" using n'(5) lookup_more(1) [OF n9(4)] lk8 by simp
  ultimately show ?thesis
    using n3(3) n'(2-4) cx9 by (intro exI [of _ h] exI [of _ n'] exI [of _ qs'] exI [of _ ?z]) simp
qed

definition sample_launch_world :: world where
  "sample_launch_world = sample_world\<lparr>w_init := (\<lambda>_ _ c _ _ n. case ctxs n c of None \<Rightarrow> None
     | Some x \<Rightarrow> Some (0, ctx_put c (x\<lparr>cb := Some 3, cb_ud := Some 4\<rparr>) n))\<rparr>"

theorem context_new_registers_witness:
  "\<exists>h n' x. ztask_context_new sample_launch_world ''m'' (Text []) 0 (sample_net\<lparr>module_list := [sample_module]\<rparr>)
     = Some (Some 9, n') \<and> lookup sample_net h = None \<and> lookup n' h = Some 9 \<and> ctxs n' 9 = Some x \<and> cb x = Some 3"
proof -
  let ?n = "sample_net\<lparr>module_list := [sample_module]\<rparr>"
  have core: "same_core sample_net ?n" by (simp add: same_core_def)
  have brk: "ctx_brk ?n = 9" by (simp add: sample_net_def)
  have fr: "fresh_ok ?n" by (auto simp: fresh_ok_def sample_net_def)
  have m: "query_module ''m'' ?n = Some sample_module" "mod_create sample_module = None" "mod_init sample_module = Some 0"
    "launch_text ''m'' (Text []) = Some ''LAUNCH m''"
    by (simp_all add: query_module_def sample_module_def launch_text_def)
  have room: "has_room (handle_table ?n)" by (simp add: has_room_def sample_net_def)
  have init: "w_init sample_launch_world 0 (2 ^ 64 - 1) (ctx_brk ?n) (Text []) 0 m =
      Some (0, ctx_put (ctx_brk ?n) (x\<lparr>cb := Some 3, cb_ud := Some 4\<rparr>) m)" if "ctxs m (ctx_brk ?n) = Some x" for m x
    using that by (simp add: sample_launch_world_def)
  have rm: "roomy 1 {} ?n" using sample_net_roomy roomy_view [OF same_core_lookup(3) [OF core], of 1 "{}"] by simp
  from context_new_registers [OF same_core_ok [OF sample_net_ok core] fr room m rm init]
  show ?thesis unfolding brk same_core_lookup(1) [OF core] by auto
qed

end
