(* ===== verification/Delivery.thy ===== *)
theory Delivery
  imports Command
begin

text \<open>
  A message on its way: what a worker thread does with a queue that holds a message
  (\<^verbatim>\<open>ztask_context_message_dispatch\<close> and \<^verbatim>\<open>dispatch_message\<close> of \<^verbatim>\<open>ztask_server.c\<close>), so that
  sending can be followed to the callback of the receiving service.
\<close>

text \<open>A service that can be called: launched, not inside a call, neither logging nor profiling.\<close>

definition callable :: "ztask_context \<Rightarrow> nat \<Rightarrow> bool" where
  "callable y f \<longleftrightarrow> cinit y \<and> \<not> calling y \<and> logfile y = None \<and> \<not> cprofile y \<and> cb y = Some f \<and> 1 \<le> cref y"

definition freed :: "ptr \<Rightarrow> (nat \<Rightarrow> payload option) \<Rightarrow> nat \<Rightarrow> payload option" where
  "freed p h = (case p of None \<Rightarrow> h | Some a \<Rightarrow> h(a := None))"

text \<open>
  The callback is any function that returns 0 and leaves a trace \<open>g\<close> in the environment of
  the node, so that what is shown says whether, and how often, it has run.
\<close>

lemma dispatch_message_calls:
  assumes y: "ctxs n d = Some y" "callable y f"
    and call: "\<And>k. heap k = heap n \<Longrightarrow>
      w_cb w f d (cb_ud y) (int (unat (drop_bit MESSAGE_TYPE_SHIFT (msg_sz m)))) (msg_session m) (msg_source m)
        (msg_data m) (msg_sz m AND MESSAGE_TYPE_MASK) k = Some (0, k\<lparr>env := g (env k)\<rparr>)"
    and payload: "case msg_data m of None \<Rightarrow> True | Some a \<Rightarrow> heap n a \<noteq> None"
  shows "dispatch_message w d m n = Some (ctx_put d (y\<lparr>message_count := message_count y + 1\<rparr>)
    (n\<lparr>handle_key := chandle y, heap := freed (msg_data m) (heap n), env := g (env n)\<rparr>))"
proof -
  have c: "cinit y" "\<not> calling y" "logfile y = None" "\<not> cprofile y" "cb y = Some f" using y(2) by (simp_all add: callable_def)
  let ?k = "ctx_put d (y\<lparr>calling := True, message_count := message_count y + 1\<rparr>) (n\<lparr>handle_key := chandle y\<rparr>)"
  have "heap ?k = heap n" by (simp add: ctx_put_def)
  note cb = call [OF this]
  have idle: "y\<lparr>message_count := k, calling := False\<rparr> = y\<lparr>message_count := k\<rparr>" for k
    using c(2) by (cases y) simp
  show ?thesis
    using c cb payload y(1)
    by (auto simp: idle dispatch_message_def call_begin_def call_end_def ctx_put_def node_free_def freed_def Let_def fun_upd_upd
        split: option.splits)
qed


text \<open>A worker without a queue takes the only scheduled queue, whose service is registered, and
  dispatches its first message.\<close>

lemma worker_dispatches_one:
  assumes ok: "node_ok n [q]" and mq: "mq_view n q = Some mq" "mq_ok mq" "mq_contents mq = m # ms" "in_global mq"
      "overload mq = 0" "int (length ms) \<le> overload_threshold mq"
    and y: "lookup n (mq_handle mq) = Some d" "ctxs n d = Some y" "cqueue y = q" "callable y f"
    and call: "\<And>k. heap k = heap n \<Longrightarrow>
      w_cb w f d (cb_ud y) (int (unat (drop_bit MESSAGE_TYPE_SHIFT (msg_sz m)))) (msg_session m) (msg_source m)
        (msg_data m) (msg_sz m AND MESSAGE_TYPE_MASK) k = Some (0, k\<lparr>env := g (env k)\<rparr>)"
    and payload: "case msg_data m of None \<Rightarrow> True | Some a \<Rightarrow> heap n a \<noteq> None"
  shows "\<exists>n' mq'. ztask_context_message_dispatch w sm None (-1) n =
      Some (Some q, ztask_monitor_trigger 0 0 (ztask_monitor_trigger (msg_source m) (mq_handle mq) sm), n') \<and>
    gq_ok n' [] \<and> mq_view n' = (mq_view n)(q \<mapsto> mq') \<and> mq_ok mq' \<and> mq_contents mq' = ms \<and>
    ctxs n' = (ctxs n)(d \<mapsto> y\<lparr>message_count := message_count y + 1\<rparr>) \<and> heap n' = freed (msg_data m) (heap n) \<and>
    env n' = g (env n)"
proof -
  obtain n1 where n1: "ztask_globalmq_pop n = Some (Some q, n1)" "gq_ok n1 []" "mq_view n1 = mq_view n"
    "mq_state.more n1 = mq_state.more n"
    using globalmq_pop_cons [of n q "[]"] ok by (auto simp: node_ok_def)
  note f1 = node_more_fields [OF n1(4)]
  have "ready n1 [] c" if "ready n [q] c" for c
    using that by (auto simp: ready_def f1 n1(3) split: option.splits)
  then have ok1: "node_ok n1 []"
    using ok n1(2) unfolding node_ok_def f1 lookup_more [OF n1(4)] by blast
  have "mq_view n1 q = Some mq" using mq(1) n1(3) by simp
  then obtain mq0 where mq0: "mq_mem n1 q = Some mq0" "mq = mq0\<lparr>qnext := None\<rparr>"
    by (auto simp: mq_view_Some)
  let ?y = "y\<lparr>cref := cref y + 1\<rparr>"
  let ?n2 = "ctx_put d ?y n1"
  have grab: "handle_grab (mq_handle mq) n1 = Some (Some d, ?n2)"
    using y(1,2) by (simp add: handle_grab_ok [OF ok1] lookup_more [OF n1(4)] f1 ztask_context_grab_def)
  let ?h = "if head mq0 + 1 \<ge> cap mq0 then 0 else head mq0 + 1"
  have pop0: "mq_ok mq0" "mq_contents mq0 = m # ms" "overload mq0 = 0" "int (length ms) \<le> overload_threshold mq0"
    using mq mq0(2) by simp_all
  obtain mq1 where mq1: "ztask_mq_pop mq0 = Some (Some m, mq1)" "mq_ok mq1" "mq_contents mq1 = ms" "overload mq1 = 0"
    "qnext mq1 = qnext mq0"
    using ztask_mq_pop_cons [OF pop0(1,2)] pop0(3,4) by (fastforce simp: mq_contents_def ztask_mq_length_def)
  let ?n3 = "mq_put q mq1 ?n2"
  have more3: "heap ?n3 = heap n" "ctxs ?n3 = (ctxs n)(d \<mapsto> ?y)" "env ?n3 = env n" by (simp_all add: mq_put_def ctx_put_def f1)
  have pop: "queue_pop q ?n2 = Some (Some m, ?n3)"
    using mq0(1) mq1(1) by (simp add: queue_pop_def ctx_put_def)
  have put: "mq_put q mq1 ?n3 = ?n3" by (simp add: mq_put_def)
  let ?n4 = "ctx_put d (?y\<lparr>message_count := message_count y + 1\<rparr>) (?n3\<lparr>handle_key := chandle y, heap := freed (msg_data m) (heap n), env := g (env n)\<rparr>)"
  have disp: "dispatch_message w d m ?n3 = Some ?n4"
    using dispatch_message_calls [of ?n3 d ?y f w m g] more3 call payload y(4)
    by (auto simp: callable_def split: option.splits)
  have round: "dispatch_round w d q (mq_handle mq) m sm ?n3 =
      Some (ztask_monitor_trigger 0 0 (ztask_monitor_trigger (msg_source m) (mq_handle mq) sm), ?n4)"
    using disp mq1(4) more3(2) y(4) put
    by (simp add: dispatch_round_def ztask_mq_overload_def callable_def Let_def)
  have loop: "dispatch_loop w d q (mq_handle mq) (-1) sm ?n2 =
      Some (True, ztask_monitor_trigger 0 0 (ztask_monitor_trigger (msg_source m) (mq_handle mq) sm), ?n4)"
    using pop round by (simp add: dispatch_loop_def)
  have "gq_ok ?n2 []" using n1(2) by (simp add: gq_ok_def ctx_put_def)
  from gq_ok_put [OF this _ mq1(5)] have "gq_ok ?n3 []" using mq0(1) by (simp add: ctx_put_def)
  then have gq: "gq_ok ?n4 []" by (simp add: gq_ok_def ctx_put_def)
  let ?n5 = "ctx_put d (y\<lparr>message_count := message_count y + 1\<rparr>) ?n4"
  have same: "?y\<lparr>message_count := k, cref := cref y\<rparr> = y\<lparr>message_count := k\<rparr>" for k by (cases y) simp
  have rel: "ztask_context_release w d ?n4 = Some (True, ?n5)"
    using y(4) same by (simp add: ztask_context_release_def ctx_put_def callable_def Let_def)
  have ctx4: "ctxs ?n4 d = Some (?y\<lparr>message_count := message_count y + 1\<rparr>)" by (simp add: ctx_put_def)
  have "ztask_context_message_dispatch w sm None (-1) n =
      Some (Some q, ztask_monitor_trigger 0 0 (ztask_monitor_trigger (msg_source m) (mq_handle mq) sm), ?n5)"
    using n1(1) mq0 grab loop globalmq_pop_empty [OF gq] rel ctx4 y(3)
    by (simp add: ztask_context_message_dispatch_def ztask_mq_handle_def Let_def)
  moreover have "gq_ok ?n5 []" using gq by (simp add: gq_ok_def ctx_put_def)
  moreover have "mq_view ?n5 = (mq_view n)(q \<mapsto> mq1\<lparr>qnext := None\<rparr>)"
    using n1(3) by (simp add: mq_view_def ctx_put_def mq_put_def fun_eq_iff)
  moreover have "ctxs ?n5 = (ctxs n)(d \<mapsto> y\<lparr>message_count := message_count y + 1\<rparr>)"
    using more3(2) by (simp add: ctx_put_def)
  moreover have "heap ?n5 = freed (msg_data m) (heap n)" "env ?n5 = g (env n)" by (simp_all add: ctx_put_def)
  ultimately show ?thesis using mq1(2,3)
    by (intro exI [of _ ?n5] exI [of _ "mq1\<lparr>qnext := None\<rparr>"]) simp
qed

end
