(* ===== verification/Outcome.thy ===== *)
theory Outcome
  imports CString
begin

text \<open>
  Functions that the Lua libraries of the program export to Lua code. Such a function
  returns, raises a Lua error with a message (\<^verbatim>\<open>luaL_error\<close> leaves it by \<^verbatim>\<open>longjmp\<close>), or
  has undefined behaviour in C. A recursive reader is given fuel; \<open>Out_of_fuel\<close> is the
  value of a model that was given too little, and each theory that uses it proves how
  much is enough.
\<close>

datatype 'a outcome = Ok 'a | Err string | Crash | Out_of_fuel

primrec and_then :: "'a outcome \<Rightarrow> ('a \<Rightarrow> 'b outcome) \<Rightarrow> 'b outcome" where
  "and_then (Ok x) f = f x"
| "and_then (Err e) f = Err e"
| "and_then Crash f = Crash"
| "and_then Out_of_fuel f = Out_of_fuel"

lemma and_then_Ok_iff [simp]: "and_then m f = Ok y \<longleftrightarrow> (\<exists>x. m = Ok x \<and> f x = Ok y)"
  by (cases m) auto

lemma and_then_fuel_iff [simp]:
  "and_then m f = Out_of_fuel \<longleftrightarrow> m = Out_of_fuel \<or> (\<exists>x. m = Ok x \<and> f x = Out_of_fuel)"
  by (cases m) auto

lemma and_then_Crash_iff:
  "and_then m f = Crash \<longleftrightarrow> m = Crash \<or> (\<exists>x. m = Ok x \<and> f x = Crash)"
  by (cases m) auto

lemma and_then_assoc: "and_then (and_then m f) g = and_then m (\<lambda>x. and_then (f x) g)"
  by (cases m) auto

section \<open>Integers as the C compiler lays them out in memory\<close>

text \<open>The bytes of a number, the least significant first (the program's targets are little-endian
  machines).\<close>

primrec le_bytes :: "nat \<Rightarrow> nat \<Rightarrow> byte list" where
  "le_bytes 0 n = []"
| "le_bytes (Suc k) n = of_nat (n mod 256) # le_bytes k (n div 256)"

primrec le_value :: "byte list \<Rightarrow> nat" where
  "le_value [] = 0"
| "le_value (b # bs) = unat b + 256 * le_value bs"

lemma length_le_bytes [simp]: "length (le_bytes k n) = k"
  by (induction k arbitrary: n) auto

lemma unat_byte_of_nat [simp]: "unat (of_nat (n mod 256) :: byte) = n mod 256"
  by (simp add: unat_of_nat)

lemma le_value_bytes: "le_value (le_bytes k n) = n mod 256 ^ k"
proof (induction k arbitrary: n)
  case (Suc k)
  then show ?case using mod_mult2_eq [of n 256 "256 ^ k"] by simp
qed simp

lemma le_bytes_value: "length bs = k \<Longrightarrow> le_bytes k (le_value bs) = bs"
proof (induction bs arbitrary: k)
  case (Cons b bs)
  have "unat b < 256" using unsigned_less [where ?'b = 8 and ?'a = nat and w = b] by simp
  with Cons show ?case by auto
qed simp

lemma le_value_less: "le_value bs < 256 ^ length bs"
proof (induction bs)
  case (Cons b bs)
  have "unat b < 256" using unsigned_less [where ?'b = 8 and ?'a = nat and w = b] by simp
  with Cons show ?case by simp
qed simp

text \<open>A \<^verbatim>\<open>size_t\<close> converted to \<^verbatim>\<open>int\<close>.\<close>

definition int_of_size :: "nat \<Rightarrow> int" where
  "int_of_size n = sint (of_nat n :: cint)"

lemma int_of_size_small: "n < 2 ^ 31 \<Longrightarrow> int_of_size n = int n"
  by (simp add: int_of_size_def signed_of_nat signed_take_bit_int_eq_self)

lemma int_of_size_le: "int_of_size n \<le> int n"
proof -
  have "int_of_size n = signed_take_bit 31 (int n)" by (simp add: int_of_size_def signed_of_nat)
  then show ?thesis using signed_take_bit_int_less_eq_self_iff [of 31 "int n"] by simp
qed

lemma int_of_size_wraps:
  assumes "2 ^ 31 \<le> n" "n < 2 ^ 32"
  shows "int_of_size n < 0"
proof -
  have "(of_nat n :: cint) = of_int (int n - 2 ^ 32)" by simp
  then have "int_of_size n = signed_take_bit 31 (int n - 2 ^ 32)"
    unfolding int_of_size_def by (simp only: signed_of_int) simp
  then show ?thesis using assms by (simp add: signed_take_bit_int_eq_self)
qed

lemma int_of_size_bound: "- (2 ^ 31) \<le> int_of_size n"
  using sint_greater_eq [of "of_nat n :: cint"] by (simp add: int_of_size_def)

text \<open>The four bytes of a word, put together again.\<close>

lemma byte_mask: "(0xff :: u32) = mask 8"
  by (simp add: mask_eq_exp_minus_1)

lemma uint32_bytes:
  fixes n :: u32
  shows "ucast (ucast (n AND 0xff) :: byte) OR push_bit 8 (ucast (ucast (drop_bit 8 n AND 0xff) :: byte)) OR
    push_bit 16 (ucast (ucast (drop_bit 16 n AND 0xff) :: byte)) OR push_bit 24 (ucast (ucast (drop_bit 24 n AND 0xff) :: byte)) = n"
  unfolding byte_mask
proof (rule bit_word_eqI)
  fix i :: nat
  assume "i < LENGTH(32)"
  then consider "i < 8" | "8 \<le> i" "i < 16" | "16 \<le> i" "i < 24" | "24 \<le> i" "i < 32" by fastforce
  then show "bit ((ucast (ucast (n AND mask 8) :: byte) :: u32) OR push_bit 8 (ucast (ucast (drop_bit 8 n AND mask 8) :: byte)) OR
    push_bit 16 (ucast (ucast (drop_bit 16 n AND mask 8) :: byte)) OR push_bit 24 (ucast (ucast (drop_bit 24 n AND mask 8) :: byte))) i
    = bit n i"
    by cases (auto simp: bit_simps)
qed

end
