(* ===== verification/Seri.thy ===== *)
theory Seri
  imports Outcome
begin

text \<open>
  \<^verbatim>\<open>src/ztask/lualib/lua-seri.c\<close>: the serialisation of Lua values that services use for
  their messages. Packing writes into a chain of blocks of 128 bytes and copies the chain into
  one buffer; unpacking reads such a buffer, which may come from anywhere.

  A Lua value is seen through the Lua API. A table without \<^verbatim>\<open>__pairs\<close> metamethod is what
  \<^verbatim>\<open>lua_rawlen\<close>/\<^verbatim>\<open>lua_rawgeti\<close> give (its array part) and what \<^verbatim>\<open>lua_next\<close> gives (all its
  pairs, in the order of the traversal); a table with the metamethod is the pairs its iterator
  delivers. The table that \<^verbatim>\<open>unpack_table\<close> makes is \<open>LTable arr ps\<close> with the values
  stored by \<^verbatim>\<open>lua_rawseti\<close> at 1, 2, ... and then the pairs stored by \<^verbatim>\<open>lua_rawset\<close>. Floating
  point numbers are only copied by the code and stand here as their 64 bits. The recursion of the reader
  is not limited by the code; the size of the C stack and of the Lua stack is not modelled.
\<close>

section \<open>Data\<close>

definition TYPE_NIL :: nat where "TYPE_NIL = 0"
definition TYPE_BOOLEAN :: nat where "TYPE_BOOLEAN = 1"
definition TYPE_NUMBER :: nat where "TYPE_NUMBER = 2"
definition TYPE_NUMBER_ZERO :: nat where "TYPE_NUMBER_ZERO = 0"
definition TYPE_NUMBER_BYTE :: nat where "TYPE_NUMBER_BYTE = 1"
definition TYPE_NUMBER_WORD :: nat where "TYPE_NUMBER_WORD = 2"
definition TYPE_NUMBER_DWORD :: nat where "TYPE_NUMBER_DWORD = 4"
definition TYPE_NUMBER_QWORD :: nat where "TYPE_NUMBER_QWORD = 6"
definition TYPE_NUMBER_REAL :: nat where "TYPE_NUMBER_REAL = 8"
definition TYPE_USERDATA :: nat where "TYPE_USERDATA = 3"
definition TYPE_SHORT_STRING :: nat where "TYPE_SHORT_STRING = 4"
definition TYPE_LONG_STRING :: nat where "TYPE_LONG_STRING = 5"
definition TYPE_TABLE :: nat where "TYPE_TABLE = 6"

definition MAX_COOKIE :: nat where "MAX_COOKIE = 32"
definition BLOCK_SIZE :: nat where "BLOCK_SIZE = 128"
definition MAX_DEPTH :: nat where "MAX_DEPTH = 32"

definition COMBINE_TYPE :: "nat \<Rightarrow> int \<Rightarrow> byte" where
  "COMBINE_TYPE t v = of_nat t OR push_bit 3 (of_int v)"

lemmas seri_consts = TYPE_NIL_def TYPE_BOOLEAN_def TYPE_NUMBER_def TYPE_NUMBER_ZERO_def TYPE_NUMBER_BYTE_def
  TYPE_NUMBER_WORD_def TYPE_NUMBER_DWORD_def TYPE_NUMBER_QWORD_def TYPE_NUMBER_REAL_def TYPE_USERDATA_def
  TYPE_SHORT_STRING_def TYPE_LONG_STRING_def TYPE_TABLE_def MAX_COOKIE_def

datatype lua =
    LNil
  | LBoolean bool
  | LInteger u64
  | LNumber u64
  | LString "byte list"
  | LUserdata u64
  | LTable "lua list" "(lua \<times> lua) list"
  | LPairs "(lua \<times> lua) list"
  | LOther string

text \<open>\<open>blocks\<close> is the chain from \<^verbatim>\<open>head\<close>; \<^verbatim>\<open>current\<close> is its last block.\<close>

record write_block =
  blocks :: "byte list list"
  wlen :: nat
  wptr :: nat

record read_block =
  rbuffer :: "byte list"
  rlen :: int
  rptr :: int

section \<open>Writing\<close>

definition blk_alloc :: "byte list" where
  "blk_alloc = replicate BLOCK_SIZE 0"

definition memcpy_at :: "nat \<Rightarrow> byte list \<Rightarrow> byte list \<Rightarrow> byte list" where
  "memcpy_at off src dst = take off dst @ src @ drop (off + length src) dst"

definition wb_store :: "byte list \<Rightarrow> write_block \<Rightarrow> write_block" where
  "wb_store buf b = b\<lparr>blocks := butlast (blocks b) @ [memcpy_at (wptr b) buf (last (blocks b))],
     wptr := wptr b + length buf, wlen := wlen b + length buf\<rparr>"

definition wb_grow :: "write_block \<Rightarrow> write_block" where
  "wb_grow b = b\<lparr>blocks := blocks b @ [blk_alloc], wptr := 0\<rparr>"

text \<open>The part of \<^verbatim>\<open>wb_push\<close> after the label \<^verbatim>\<open>_again\<close>'s block.\<close>

function wb_fill :: "byte list \<Rightarrow> write_block \<Rightarrow> write_block" where
  "wb_fill buf b =
     (if wptr b + length buf \<le> BLOCK_SIZE then wb_store buf b
      else let copy = BLOCK_SIZE - wptr b in
           wb_fill (drop copy buf) (wb_grow (wb_store (take copy buf) b)))"
  by pat_completeness auto
termination
  by (relation "measure (\<lambda>(buf, b). 2 * length buf + (if wptr b < BLOCK_SIZE then 0 else 1))")
     (auto simp: wb_grow_def BLOCK_SIZE_def)

declare wb_fill.simps [simp del]

text \<open>The counter \<^verbatim>\<open>len\<close> is an \<^verbatim>\<open>int\<close>: more than \<open>2 ^ 31 - 1\<close> bytes overflow it.\<close>

definition wb_push :: "byte list \<Rightarrow> write_block \<Rightarrow> write_block outcome" where
  "wb_push buf b =
     (if wlen b + length buf < 2 ^ 31
      then Ok (wb_fill buf (if wptr b = BLOCK_SIZE then wb_grow b else b))
      else Crash)"

definition wb_init :: "byte list \<Rightarrow> write_block" where
  "wb_init b = \<lparr>blocks = [b], wlen = 0, wptr = 0\<rparr>"

definition wb_nil :: "write_block \<Rightarrow> write_block outcome" where
  "wb_nil wb = wb_push [of_nat TYPE_NIL] wb"

definition wb_boolean :: "bool \<Rightarrow> write_block \<Rightarrow> write_block outcome" where
  "wb_boolean x wb = wb_push [COMBINE_TYPE TYPE_BOOLEAN (if x then 1 else 0)] wb"

definition wb_tagged :: "byte \<Rightarrow> byte list \<Rightarrow> write_block \<Rightarrow> write_block outcome" where
  "wb_tagged n buf wb = and_then (wb_push [n] wb) (wb_push buf)"

definition wb_integer :: "u64 \<Rightarrow> write_block \<Rightarrow> write_block outcome" where
  "wb_integer v wb =
     (if v = 0 then wb_push [COMBINE_TYPE TYPE_NUMBER (int TYPE_NUMBER_ZERO)] wb
      else if sint v \<noteq> sint (ucast v :: cint)
      then wb_tagged (COMBINE_TYPE TYPE_NUMBER (int TYPE_NUMBER_QWORD)) (le_bytes 8 (unat v)) wb
      else if sint v < 0
      then wb_tagged (COMBINE_TYPE TYPE_NUMBER (int TYPE_NUMBER_DWORD)) (le_bytes 4 (unat (ucast v :: cint))) wb
      else if sint v < 0x100
      then wb_tagged (COMBINE_TYPE TYPE_NUMBER (int TYPE_NUMBER_BYTE)) (le_bytes 1 (unat v)) wb
      else if sint v < 0x10000
      then wb_tagged (COMBINE_TYPE TYPE_NUMBER (int TYPE_NUMBER_WORD)) (le_bytes 2 (unat v)) wb
      else wb_tagged (COMBINE_TYPE TYPE_NUMBER (int TYPE_NUMBER_DWORD)) (le_bytes 4 (unat v)) wb)"

definition wb_real :: "u64 \<Rightarrow> write_block \<Rightarrow> write_block outcome" where
  "wb_real v wb = wb_tagged (COMBINE_TYPE TYPE_NUMBER (int TYPE_NUMBER_REAL)) (le_bytes 8 (unat v)) wb"

definition wb_pointer :: "u64 \<Rightarrow> write_block \<Rightarrow> write_block outcome" where
  "wb_pointer v wb = wb_tagged (of_nat TYPE_USERDATA) (le_bytes 8 (unat v)) wb"

definition wb_string :: "byte list \<Rightarrow> int \<Rightarrow> write_block \<Rightarrow> write_block outcome" where
  "wb_string str len wb =
     (if len < int MAX_COOKIE
      then and_then (wb_push [COMBINE_TYPE TYPE_SHORT_STRING len] wb)
             (\<lambda>wb1. if 0 < len then wb_push (take (nat len) str) wb1 else Ok wb1)
      else if len < 0x10000
      then and_then (wb_tagged (COMBINE_TYPE TYPE_LONG_STRING 2) (le_bytes 2 (nat len)) wb)
             (wb_push (take (nat len) str))
      else and_then (wb_tagged (COMBINE_TYPE TYPE_LONG_STRING 4) (le_bytes 4 (nat len)) wb)
             (wb_push (take (nat len) str)))"

definition table_header :: "int \<Rightarrow> write_block \<Rightarrow> write_block outcome" where
  "table_header array_size wb =
     (if int MAX_COOKIE - 1 \<le> array_size
      then and_then (wb_push [COMBINE_TYPE TYPE_TABLE (int MAX_COOKIE - 1)] wb) (wb_integer (of_int array_size))
      else wb_push [COMBINE_TYPE TYPE_TABLE array_size] wb)"

text \<open>The keys \<^verbatim>\<open>wb_table_hash\<close> skips, those of the array part.\<close>

definition array_key :: "int \<Rightarrow> lua \<Rightarrow> bool" where
  "array_key array_size k = (case k of LInteger x \<Rightarrow> 0 < sint x \<and> sint x \<le> array_size | _ \<Rightarrow> False)"

lemma size_take_le: "size_list f (take n xs) \<le> size_list f xs"
  by (induction xs arbitrary: n) (auto simp: take_Cons split: nat.split)

function pack_one :: "nat \<Rightarrow> lua \<Rightarrow> write_block \<Rightarrow> write_block outcome"
  and pack_array :: "nat \<Rightarrow> lua list \<Rightarrow> write_block \<Rightarrow> write_block outcome"
  and wb_table_hash :: "nat \<Rightarrow> (lua \<times> lua) list \<Rightarrow> int \<Rightarrow> write_block \<Rightarrow> write_block outcome"
  and pack_metapairs :: "nat \<Rightarrow> (lua \<times> lua) list \<Rightarrow> write_block \<Rightarrow> write_block outcome" where
  "pack_one depth v b =
     (if MAX_DEPTH < depth then Err ''serialize can't pack too depth table''
      else case v of
             LNil \<Rightarrow> wb_nil b
           | LInteger x \<Rightarrow> wb_integer x b
           | LNumber n \<Rightarrow> wb_real n b
           | LBoolean x \<Rightarrow> wb_boolean x b
           | LString str \<Rightarrow> wb_string str (int_of_size (length str)) b
           | LUserdata p \<Rightarrow> wb_pointer p b
           | LTable arr ps \<Rightarrow>
               (let array_size = int_of_size (length arr) in
                and_then (table_header array_size b) (\<lambda>b1.
                and_then (pack_array (depth + 1) (take (nat array_size) arr) b1) (\<lambda>b2.
                wb_table_hash (depth + 1) ps array_size b2)))
           | LPairs ps \<Rightarrow>
               and_then (wb_push [COMBINE_TYPE TYPE_TABLE 0] b) (\<lambda>b1. pack_metapairs (depth + 1) ps b1)
           | LOther t \<Rightarrow> Err (''Unsupport type '' @ t @ '' to serialize''))"
| "pack_array depth [] b = Ok b"
| "pack_array depth (v # vs) b = and_then (pack_one depth v b) (\<lambda>b1. pack_array depth vs b1)"
| "wb_table_hash depth [] n b = wb_nil b"
| "wb_table_hash depth ((k, v) # ps) n b =
     (if array_key n k then wb_table_hash depth ps n b
      else and_then (pack_one depth k b) (\<lambda>b1.
           and_then (pack_one depth v b1) (\<lambda>b2.
           wb_table_hash depth ps n b2)))"
| "pack_metapairs depth [] b = wb_nil b"
| "pack_metapairs depth ((k, v) # ps) b =
     (if k = LNil then wb_nil b
      else and_then (pack_one depth k b) (\<lambda>b1.
           and_then (pack_one depth v b1) (\<lambda>b2.
           pack_metapairs depth ps b2)))"
  by pat_completeness auto
termination
  by (relation "measure (\<lambda>x. case x of
        Inl (Inl (_, v, _)) \<Rightarrow> size v
      | Inl (Inr (_, vs, _)) \<Rightarrow> size_list size vs
      | Inr (Inl (_, ps, _, _)) \<Rightarrow> size_list (size_prod size size) ps
      | Inr (Inr (_, ps, _)) \<Rightarrow> size_list (size_prod size size) ps)")
     (auto simp: le_imp_less_Suc size_take_le intro: le_less_trans [OF size_take_le])

declare pack_one.simps [simp del]

primrec pack_from :: "lua list \<Rightarrow> write_block \<Rightarrow> write_block outcome" where
  "pack_from [] b = Ok b"
| "pack_from (v # vs) b = and_then (pack_one 0 v b) (pack_from vs)"

text \<open>\<^verbatim>\<open>seri\<close>: the chain copied into one buffer.\<close>

fun seri :: "byte list list \<Rightarrow> nat \<Rightarrow> byte list outcome" where
  "seri bs 0 = Ok []"
| "seri [] (Suc n) = Crash"
| "seri (b # bs) (Suc n) =
     (if BLOCK_SIZE \<le> Suc n
      then and_then (seri bs (Suc n - BLOCK_SIZE)) (\<lambda>r. Ok (take BLOCK_SIZE b @ r))
      else Ok (take (Suc n) b))"

definition luaseri_pack :: "lua list \<Rightarrow> byte list outcome" where
  "luaseri_pack vs =
     and_then (pack_from vs (wb_init blk_alloc)) (\<lambda>wb. seri (blocks wb) (wlen wb))"

section \<open>Reading\<close>

definition rball_init :: "byte list \<Rightarrow> int \<Rightarrow> read_block" where
  "rball_init buffer sz = \<lparr>rbuffer = buffer, rlen = sz, rptr = 0\<rparr>"

definition rb_read :: "int \<Rightarrow> read_block \<Rightarrow> int option \<times> read_block" where
  "rb_read sz rb =
     (if rlen rb < sz then (None, rb)
      else (Some (rptr rb), rb\<lparr>rptr := rptr rb + sz, rlen := rlen rb - sz\<rparr>))"

text \<open>Reading \<open>k\<close> bytes of the buffer at an offset.\<close>

definition fetch :: "int \<Rightarrow> nat \<Rightarrow> read_block \<Rightarrow> byte list outcome" where
  "fetch p k rb =
     (if 0 \<le> p \<and> nat p + k \<le> length (rbuffer rb) then Ok (take k (drop (nat p) (rbuffer rb))) else Crash)"

definition invalid_stream :: "nat \<Rightarrow> read_block \<Rightarrow> 'a outcome" where
  "invalid_stream line rb =
     Err (''Invalid serialize stream '' @ fmt_d (rlen rb) @ '' (line:'' @ fmt_d (int line) @ '')'')"

definition read_number :: "nat \<Rightarrow> nat \<Rightarrow> read_block \<Rightarrow> (nat \<times> read_block) outcome" where
  "read_number line k rb =
     (case rb_read (int k) rb of
        (None, rb1) \<Rightarrow> invalid_stream line rb1
      | (Some p, rb1) \<Rightarrow> and_then (fetch p k rb1) (\<lambda>bs. Ok (le_value bs, rb1)))"

definition get_integer :: "nat \<Rightarrow> read_block \<Rightarrow> (u64 \<times> read_block) outcome" where
  "get_integer cookie rb =
     (if cookie = TYPE_NUMBER_ZERO then Ok (0, rb)
      else if cookie = TYPE_NUMBER_BYTE then and_then (read_number 368 1 rb) (\<lambda>(n, rb1). Ok (of_nat n, rb1))
      else if cookie = TYPE_NUMBER_WORD then and_then (read_number 376 2 rb) (\<lambda>(n, rb1). Ok (of_nat n, rb1))
      else if cookie = TYPE_NUMBER_DWORD
      then and_then (read_number 384 4 rb) (\<lambda>(n, rb1). Ok (of_int (sint (of_nat n :: cint)), rb1))
      else if cookie = TYPE_NUMBER_QWORD then and_then (read_number 392 8 rb) (\<lambda>(n, rb1). Ok (of_nat n, rb1))
      else invalid_stream 397 rb)"

definition get_real :: "read_block \<Rightarrow> (u64 \<times> read_block) outcome" where
  "get_real rb = and_then (read_number 407 8 rb) (\<lambda>(n, rb1). Ok (of_nat n, rb1))"

definition get_pointer :: "read_block \<Rightarrow> (u64 \<times> read_block) outcome" where
  "get_pointer rb = and_then (read_number 417 8 rb) (\<lambda>(n, rb1). Ok (of_nat n, rb1))"

text \<open>\<^verbatim>\<open>lua_pushlstring\<close> takes the length as a \<^verbatim>\<open>size_t\<close>: a negative one is larger than any block, which
  \<^verbatim>\<open>luaS_newlstr\<close> refuses before it reads.\<close>

definition get_buffer :: "int \<Rightarrow> read_block \<Rightarrow> (lua \<times> read_block) outcome" where
  "get_buffer len rb =
     (case rb_read len rb of
        (None, rb1) \<Rightarrow> invalid_stream 427 rb1
      | (Some p, rb1) \<Rightarrow>
          if len < 0 then Err ''memory allocation error: block too big''
          else and_then (fetch p (nat len) rb1) (\<lambda>bs. Ok (LString bs, rb1)))"

text \<open>\<^verbatim>\<open>lua_rawset\<close> raises an error for a key that is not a number.\<close>

definition nan_key :: "lua \<Rightarrow> bool" where
  "nan_key k = (case k of
     LNumber x \<Rightarrow> drop_bit 52 x AND 0x7ff = 0x7ff \<and> x AND mask 52 \<noteq> 0
   | _ \<Rightarrow> False)"

text \<open>The size of the array part of a table from the cookie of its header.\<close>

definition read_array_size :: "nat \<Rightarrow> read_block \<Rightarrow> (int \<times> read_block) outcome" where
  "read_array_size array_size rb =
     (if array_size = MAX_COOKIE - 1
      then and_then (read_number 440 1 rb) (\<lambda>(type, rb1).
           let cookie = type div 8 in
           if type mod 8 \<noteq> TYPE_NUMBER \<or> cookie = TYPE_NUMBER_REAL then invalid_stream 445 rb1
           else and_then (get_integer cookie rb1) (\<lambda>(n, rb2). Ok (sint (ucast n :: cint), rb2)))
      else Ok (int array_size, rb))"

definition read_long_string :: "nat \<Rightarrow> read_block \<Rightarrow> (lua \<times> read_block) outcome" where
  "read_long_string cookie rb =
     (if cookie = 2 then and_then (read_number 493 2 rb) (\<lambda>(n, rb1). get_buffer (int n) rb1)
      else if cookie \<noteq> 4 then invalid_stream 500 rb
      else and_then (read_number 504 4 rb) (\<lambda>(n, rb1). get_buffer (int_of_size n) rb1))"

function (sequential) unpack_one :: "nat \<Rightarrow> read_block \<Rightarrow> (lua \<times> read_block) outcome"
  and push_value :: "nat \<Rightarrow> nat \<Rightarrow> nat \<Rightarrow> read_block \<Rightarrow> (lua \<times> read_block) outcome"
  and unpack_table :: "nat \<Rightarrow> nat \<Rightarrow> read_block \<Rightarrow> (lua \<times> read_block) outcome"
  and unpack_array :: "nat \<Rightarrow> nat \<Rightarrow> read_block \<Rightarrow> (lua list \<times> read_block) outcome"
  and unpack_pairs :: "nat \<Rightarrow> read_block \<Rightarrow> ((lua \<times> lua) list \<times> read_block) outcome" where
  "unpack_one 0 rb = Out_of_fuel"
| "unpack_one (Suc f) rb =
     and_then (read_number 528 1 rb) (\<lambda>(type, rb1). push_value f (type mod 8) (type div 8) rb1)"
| "push_value f type cookie rb =
     (if type = TYPE_NIL then Ok (LNil, rb)
      else if type = TYPE_BOOLEAN then Ok (LBoolean (cookie \<noteq> 0), rb)
      else if type = TYPE_NUMBER
      then (if cookie = TYPE_NUMBER_REAL then and_then (get_real rb) (\<lambda>(x, rb1). Ok (LNumber x, rb1))
            else and_then (get_integer cookie rb) (\<lambda>(x, rb1). Ok (LInteger x, rb1)))
      else if type = TYPE_USERDATA then and_then (get_pointer rb) (\<lambda>(x, rb1). Ok (LUserdata x, rb1))
      else if type = TYPE_SHORT_STRING then get_buffer (int cookie) rb
      else if type = TYPE_LONG_STRING then read_long_string cookie rb
      else if type = TYPE_TABLE then unpack_table f cookie rb
      else invalid_stream 517 rb)"
| "unpack_table f array_size rb =
     and_then (read_array_size array_size rb) (\<lambda>(n, rb1).
     and_then (unpack_array f (nat n) rb1) (\<lambda>(vs, rb2).
     and_then (unpack_pairs f rb2) (\<lambda>(ps, rb3). Ok (LTable vs ps, rb3))))"
| "unpack_array f 0 rb = Ok ([], rb)"
| "unpack_array 0 (Suc n) rb = Out_of_fuel"
| "unpack_array (Suc f) (Suc n) rb =
     and_then (unpack_one f rb) (\<lambda>(v, rb1).
     and_then (unpack_array f n rb1) (\<lambda>(vs, rb2). Ok (v # vs, rb2)))"
| "unpack_pairs 0 rb = Out_of_fuel"
| "unpack_pairs (Suc f) rb =
     and_then (unpack_one f rb) (\<lambda>(k, rb1).
       if k = LNil then Ok ([], rb1)
       else and_then (unpack_one f rb1) (\<lambda>(v, rb2).
            if nan_key k then Err ''table index is NaN''
            else and_then (unpack_pairs f rb2) (\<lambda>(ps, rb3). Ok ((k, v) # ps, rb3))))"
  by pat_completeness auto
termination
  by (relation "measure (\<lambda>x. case x of
        Inl (Inl (f, _)) \<Rightarrow> 3 * f
      | Inl (Inr (f, _, _, _)) \<Rightarrow> 3 * f + 2
      | Inr (Inl (f, _, _)) \<Rightarrow> 3 * f + 1
      | Inr (Inr (Inl (f, _, _))) \<Rightarrow> 3 * f
      | Inr (Inr (Inr (f, _))) \<Rightarrow> 3 * f)") auto

text \<open>The loop of \<^verbatim>\<open>luaseri_unpack\<close>; the stream ends where a type byte would start.\<close>

primrec unpack_all :: "nat \<Rightarrow> read_block \<Rightarrow> lua list outcome" where
  "unpack_all 0 rb = Out_of_fuel"
| "unpack_all (Suc f) rb =
     (case rb_read 1 rb of
        (None, rb1) \<Rightarrow> Ok []
      | (Some p, rb1) \<Rightarrow>
          and_then (fetch p 1 rb1) (\<lambda>bs.
          and_then (push_value f (le_value bs mod 8) (le_value bs div 8) rb1) (\<lambda>(v, rb2).
          and_then (unpack_all f rb2) (\<lambda>vs. Ok (v # vs)))))"

datatype unpack_arg = No_arg | Str_arg "byte list" | Ptr_arg "byte list option" int

definition luaseri_unpack :: "nat \<Rightarrow> unpack_arg \<Rightarrow> lua list outcome" where
  "luaseri_unpack f a =
     (case a of
        No_arg \<Rightarrow> Ok []
      | Str_arg s \<Rightarrow>
          (let len = int_of_size (length s) in
           if len = 0 then Ok [] else unpack_all f (rball_init s len))
      | Ptr_arg buffer len \<Rightarrow>
          (if len = 0 then Ok []
           else case buffer of
                  None \<Rightarrow> Err ''deserialize null pointer''
                | Some s \<Rightarrow> unpack_all f (rball_init s len)))"

section \<open>The chain of blocks is a list of bytes\<close>

definition wb_ok :: "write_block \<Rightarrow> bool" where
  "wb_ok b \<longleftrightarrow> blocks b \<noteq> [] \<and> list_all (\<lambda>x. length x = BLOCK_SIZE) (blocks b) \<and> wptr b \<le> BLOCK_SIZE \<and>
     wlen b = length (butlast (blocks b)) * BLOCK_SIZE + wptr b"

definition content :: "write_block \<Rightarrow> byte list" where
  "content b = concat (butlast (blocks b)) @ take (wptr b) (last (blocks b))"

lemma length_concat_blocks: "list_all (\<lambda>x. length x = k) bs \<Longrightarrow> length (concat bs) = length bs * k"
  by (induction bs) auto

lemma wb_okE:
  assumes "wb_ok b"
  obtains bs l where "blocks b = bs @ [l]" "list_all (\<lambda>x. length x = BLOCK_SIZE) bs" "length l = BLOCK_SIZE"
    "wptr b \<le> BLOCK_SIZE" "wlen b = length bs * BLOCK_SIZE + wptr b"
proof (cases "blocks b" rule: rev_cases)
  case Nil
  then show ?thesis using assms by (simp add: wb_ok_def)
next
  case (snoc bs l)
  then show ?thesis using assms that [of bs l] by (simp add: wb_ok_def)
qed

lemma length_content: "wb_ok b \<Longrightarrow> length (content b) = wlen b"
  by (erule wb_okE) (simp add: content_def length_concat_blocks)

lemma wb_store_ok:
  assumes "wb_ok b" "wptr b + length buf \<le> BLOCK_SIZE"
  shows "wb_ok (wb_store buf b)" "content (wb_store buf b) = content b @ buf"
    "wptr (wb_store buf b) = wptr b + length buf"
proof -
  obtain bs l where e: "blocks b = bs @ [l]" "list_all (\<lambda>x. length x = BLOCK_SIZE) bs" "length l = BLOCK_SIZE"
    "wptr b \<le> BLOCK_SIZE" "wlen b = length bs * BLOCK_SIZE + wptr b" using assms(1) by (rule wb_okE)
  show "wb_ok (wb_store buf b)" "content (wb_store buf b) = content b @ buf" "wptr (wb_store buf b) = wptr b + length buf"
    using e assms(2) by (simp_all add: wb_ok_def wb_store_def memcpy_at_def content_def)
qed

lemma wb_grow_ok:
  assumes "wb_ok b" "wptr b = BLOCK_SIZE"
  shows "wb_ok (wb_grow b)" "content (wb_grow b) = content b" "wptr (wb_grow b) < BLOCK_SIZE"
proof -
  obtain bs l where e: "blocks b = bs @ [l]" "list_all (\<lambda>x. length x = BLOCK_SIZE) bs" "length l = BLOCK_SIZE"
    "wlen b = length bs * BLOCK_SIZE + wptr b" using assms(1) by (rule wb_okE)
  show "wb_ok (wb_grow b)" "content (wb_grow b) = content b" "wptr (wb_grow b) < BLOCK_SIZE"
    using e assms(2) by (simp_all add: wb_ok_def wb_grow_def blk_alloc_def content_def BLOCK_SIZE_def butlast_append)
qed

lemma wb_fill_ok: "wb_ok b \<Longrightarrow> wb_ok (wb_fill buf b) \<and> content (wb_fill buf b) = content b @ buf"
proof (induction buf b rule: wb_fill.induct)
  case (1 buf b)
  let ?c = "BLOCK_SIZE - wptr b"
  show ?case
  proof (cases "wptr b + length buf \<le> BLOCK_SIZE")
    case True
    then show ?thesis using wb_store_ok [OF 1(2)] by (subst (1 2) wb_fill.simps) simp
  next
    case False
    have le: "wptr b \<le> BLOCK_SIZE" using 1(2) by (simp add: wb_ok_def)
    let ?b = "wb_store (take ?c buf) b"
    have s: "wb_ok ?b" "content ?b = content b @ take ?c buf" "wptr ?b = BLOCK_SIZE"
      using wb_store_ok [OF 1(2), of "take ?c buf"] le False by auto
    note g = wb_grow_ok [OF s(1,3)]
    from 1(1) [OF False refl g(1)] show ?thesis
      using False g(2) s(2) by (subst (1 2) wb_fill.simps) (simp add: Let_def)
  qed
qed

text \<open>An operation on the chain that appends fixed bytes, unless the counter overflows.\<close>

definition emits :: "(write_block \<Rightarrow> write_block outcome) \<Rightarrow> byte list \<Rightarrow> bool" where
  "emits f bs \<longleftrightarrow> (\<forall>b. wb_ok b \<longrightarrow> wlen b < 2 ^ 31 \<longrightarrow>
     (wlen b + length bs < 2 ^ 31 \<longrightarrow> (\<exists>b'. f b = Ok b' \<and> wb_ok b' \<and> content b' = content b @ bs)) \<and>
     (2 ^ 31 \<le> wlen b + length bs \<longrightarrow> f b = Crash))"

lemma emitsD:
  assumes "emits f bs" "wb_ok b" "wlen b < 2 ^ 31"
  obtains b' where "f b = Ok b'" "wb_ok b'" "content b' = content b @ bs" "wlen b' = wlen b + length bs"
    "wlen b + length bs < 2 ^ 31"
  | "f b = Crash" "2 ^ 31 \<le> wlen b + length bs"
proof (cases "wlen b + length bs < 2 ^ 31")
  case True
  then obtain b' where b': "f b = Ok b'" "wb_ok b'" "content b' = content b @ bs"
    using assms unfolding emits_def by blast
  have "wlen b' = wlen b + length bs" using length_content [OF b'(2)] length_content [OF assms(2)] b'(3) by simp
  with that(1) b' True show thesis by blast
next
  case False
  then show thesis using that(2) assms unfolding emits_def by (simp add: not_less)
qed

lemma emits_push: "emits (wb_push bs) bs"
  unfolding emits_def
proof (intro allI impI)
  fix b assume ok: "wb_ok b"
  let ?b = "if wptr b = BLOCK_SIZE then wb_grow b else b"
  have "wb_ok ?b" "content ?b = content b" using ok wb_grow_ok [OF ok] by simp_all
  with wb_fill_ok [of ?b bs]
  show "(wlen b + length bs < 2 ^ 31 \<longrightarrow> (\<exists>b'. wb_push bs b = Ok b' \<and> wb_ok b' \<and> content b' = content b @ bs)) \<and>
     (2 ^ 31 \<le> wlen b + length bs \<longrightarrow> wb_push bs b = Crash)" by (simp add: wb_push_def)
qed

lemma emits_then:
  assumes "emits f xs" "emits g ys"
  shows "emits (\<lambda>b. and_then (f b) g) (xs @ ys)"
  unfolding emits_def
proof (intro allI impI)
  fix b assume ok: "wb_ok b" "wlen b < 2 ^ 31"
  show "(wlen b + length (xs @ ys) < 2 ^ 31 \<longrightarrow>
      (\<exists>b'. and_then (f b) g = Ok b' \<and> wb_ok b' \<and> content b' = content b @ xs @ ys)) \<and>
     (2 ^ 31 \<le> wlen b + length (xs @ ys) \<longrightarrow> and_then (f b) g = Crash)"
  proof (cases rule: emitsD [OF assms(1) ok])
    case (1 b1)
    have lt: "wlen b1 < 2 ^ 31" using 1 by simp
    show ?thesis by (cases rule: emitsD [OF assms(2) 1(2) lt]) (use 1 in auto)
  next
    case 2
    then show ?thesis by simp
  qed
qed

lemma emits_Ok: "emits Ok []"
  by (auto simp: emits_def)

lemma seri_content:
  "list_all (\<lambda>x. length x = BLOCK_SIZE) bs \<Longrightarrow> n \<le> length bs * BLOCK_SIZE \<Longrightarrow> seri bs n = Ok (take n (concat bs))"
proof (induction bs n rule: seri.induct)
  case (3 b bs n)
  then show ?case by (auto simp: BLOCK_SIZE_def)
qed auto

lemma seri_write_block: "wb_ok b \<Longrightarrow> seri (blocks b) (wlen b) = Ok (content b)"
  by (erule wb_okE) (simp add: seri_content content_def length_concat_blocks)

section \<open>The encoding of a value\<close>

definition enc_integer :: "u64 \<Rightarrow> byte list" where
  "enc_integer v =
     (if v = 0 then [2]
      else if sint v \<noteq> sint (ucast v :: cint) then 50 # le_bytes 8 (unat v)
      else if sint v < 0 then 34 # le_bytes 4 (unat (ucast v :: cint))
      else if sint v < 0x100 then 10 # le_bytes 1 (unat v)
      else if sint v < 0x10000 then 18 # le_bytes 2 (unat v)
      else 34 # le_bytes 4 (unat v))"

definition enc_string :: "byte list \<Rightarrow> byte list" where
  "enc_string s =
     (if length s < 32 then of_nat (4 + 8 * length s) # s
      else if length s < 0x10000 then 21 # le_bytes 2 (length s) @ s
      else 37 # le_bytes 4 (length s) @ s)"

definition enc_header :: "nat \<Rightarrow> byte list" where
  "enc_header n = (if n < 31 then [of_nat (6 + 8 * n)] else 254 # enc_integer (of_nat n))"

text \<open>The pairs of a table that are stored by key.\<close>

definition hash_pairs :: "lua list \<Rightarrow> (lua \<times> lua) list \<Rightarrow> (lua \<times> lua) list" where
  "hash_pairs arr ps = filter (\<lambda>p. \<not> array_key (int (length arr)) (fst p)) ps"

definition meta_pairs :: "(lua \<times> lua) list \<Rightarrow> (lua \<times> lua) list" where
  "meta_pairs ps = takeWhile (\<lambda>p. fst p \<noteq> LNil) ps"

lemma size_pairs:
  "(k, v) \<in> set ps \<Longrightarrow> size k + size v < size_list (\<lambda>p. Suc (size (fst p) + size (snd p))) ps"
  by (induction ps) auto

lemma hash_pairs_size [termination_simp]:
  "(k, v) \<in> set (hash_pairs arr ps) \<Longrightarrow> size k < Suc (m + size_list (\<lambda>p. Suc (size (fst p) + size (snd p))) ps)"
  "(k, v) \<in> set (hash_pairs arr ps) \<Longrightarrow> size v < Suc (m + size_list (\<lambda>p. Suc (size (fst p) + size (snd p))) ps)"
  using size_pairs [of k v ps] by (auto simp: hash_pairs_def)

lemma meta_pairs_size [termination_simp]:
  "(k, v) \<in> set (meta_pairs ps) \<Longrightarrow> size k < Suc (size_list (\<lambda>p. Suc (size (fst p) + size (snd p))) ps)"
  "(k, v) \<in> set (meta_pairs ps) \<Longrightarrow> size v < Suc (size_list (\<lambda>p. Suc (size (fst p) + size (snd p))) ps)"
  using size_pairs [of k v ps] set_takeWhileD [of "(k, v)" "\<lambda>p. fst p \<noteq> LNil" ps] by (auto simp: meta_pairs_def)

fun enc :: "lua \<Rightarrow> byte list" where
  "enc LNil = [0]"
| "enc (LBoolean x) = [if x then 9 else 1]"
| "enc (LInteger x) = enc_integer x"
| "enc (LNumber x) = 66 # le_bytes 8 (unat x)"
| "enc (LString s) = enc_string s"
| "enc (LUserdata x) = 3 # le_bytes 8 (unat x)"
| "enc (LTable arr ps) = enc_header (length arr) @ concat (map (\<lambda>v. enc v) arr) @
     concat (map (\<lambda>p. enc (fst p) @ enc (snd p)) (hash_pairs arr ps)) @ [0]"
| "enc (LPairs ps) = 6 # concat (map (\<lambda>p. enc (fst p) @ enc (snd p)) (meta_pairs ps)) @ [0]"
| "enc (LOther t) = []"

text \<open>What unpacking makes of it.\<close>

fun plain :: "lua \<Rightarrow> lua" where
  "plain (LTable arr ps) =
     LTable (map (\<lambda>v. plain v) arr) (map (\<lambda>p. (plain (fst p), plain (snd p))) (hash_pairs arr ps))"
| "plain (LPairs ps) = LTable [] (map (\<lambda>p. (plain (fst p), plain (snd p))) (meta_pairs ps))"
| "plain v = v"

text \<open>Values below a depth that \<^verbatim>\<open>pack_one\<close> supports.\<close>

fun packable :: "nat \<Rightarrow> lua \<Rightarrow> bool" where
  "packable d (LTable arr ps) \<longleftrightarrow> d \<le> MAX_DEPTH \<and> (\<forall>v \<in> set arr. packable (d + 1) v) \<and>
     (\<forall>p \<in> set (hash_pairs arr ps). packable (d + 1) (fst p) \<and> packable (d + 1) (snd p))"
| "packable d (LPairs ps) \<longleftrightarrow> d \<le> MAX_DEPTH \<and>
     (\<forall>p \<in> set (meta_pairs ps). packable (d + 1) (fst p) \<and> packable (d + 1) (snd p))"
| "packable d (LOther t) \<longleftrightarrow> False"
| "packable d v \<longleftrightarrow> d \<le> MAX_DEPTH"

text \<open>Lengths within \<^verbatim>\<open>int\<close>, and keys that a Lua table can have: neither nil nor the
  number that is not a number, which an iterator of \<^verbatim>\<open>__pairs\<close> might deliver.\<close>

fun small :: "lua \<Rightarrow> bool" where
  "small (LString s) \<longleftrightarrow> length s < 2 ^ 31"
| "small (LTable arr ps) \<longleftrightarrow> length arr < 2 ^ 31 \<and> (\<forall>v \<in> set arr. small v) \<and>
     (\<forall>p \<in> set (hash_pairs arr ps). fst p \<noteq> LNil \<and> \<not> nan_key (fst p) \<and> small (fst p) \<and> small (snd p))"
| "small (LPairs ps) \<longleftrightarrow> (\<forall>p \<in> set (meta_pairs ps). \<not> nan_key (fst p) \<and> small (fst p) \<and> small (snd p))"
| "small v \<longleftrightarrow> True"

section \<open>Packing writes the encoding\<close>

lemma unat_COMBINE_TYPE:
  assumes "t < 8" "0 \<le> v" "v < 32"
  shows "COMBINE_TYPE t v = of_nat (t + 8 * nat v)"
proof -
  have "\<not> bit (of_nat t :: byte) n \<or> \<not> bit (push_bit 3 (of_int v) :: byte) n" for n
  proof (cases "n < 3")
    case True
    then show ?thesis by (simp add: bit_push_bit_iff)
  next
    case False
    then have "(8::nat) dvd 2 ^ n" using le_imp_power_dvd [of 3 n "2::nat"] by simp
    then have "t < 2 ^ n" using assms(1) dvd_imp_le [of 8 "2 ^ n"] by simp
    then have "\<not> bit t n" by (simp add: bit_iff_odd)
    then show ?thesis by (simp add: bit_of_nat_iff)
  qed
  then have "COMBINE_TYPE t v = of_nat t + push_bit 3 (of_int v)"
    unfolding COMBINE_TYPE_def by (rule disjunctive_add [symmetric])
  then show ?thesis using assms(2) by (simp add: push_bit_eq_mult of_nat_nat)
qed

lemmas combine_types = unat_COMBINE_TYPE [of 1 0, simplified] unat_COMBINE_TYPE [of 1 1, simplified]
  unat_COMBINE_TYPE [of 2 0, simplified] unat_COMBINE_TYPE [of 2 1, simplified] unat_COMBINE_TYPE [of 2 2, simplified]
  unat_COMBINE_TYPE [of 2 4, simplified] unat_COMBINE_TYPE [of 2 6, simplified] unat_COMBINE_TYPE [of 2 8, simplified]
  unat_COMBINE_TYPE [of 5 2, simplified] unat_COMBINE_TYPE [of 5 4, simplified] unat_COMBINE_TYPE [of 6 0, simplified]
  unat_COMBINE_TYPE [of 6 31, simplified]

lemma emits_tagged: "emits (wb_tagged n bs) (n # bs)"
  unfolding wb_tagged_def using emits_then [OF emits_push emits_push, of "[n]" bs] by simp

lemma emits_integer: "emits (wb_integer v) (enc_integer v)"
  unfolding wb_integer_def enc_integer_def
  by (simp add: seri_consts combine_types emits_tagged [unfolded emits_def] emits_push [unfolded emits_def] emits_def)

lemma emits_string:
  assumes "length s < 2 ^ 31"
  shows "emits (wb_string s (int_of_size (length s))) (enc_string s)"
proof -
  have len: "int_of_size (length s) = int (length s)" by (rule int_of_size_small [OF assms])
  consider "length s < 32" | "32 \<le> length s" "length s < 0x10000" | "0x10000 \<le> length s" by linarith
  then show ?thesis
  proof cases
    case 1
    have "emits (\<lambda>b. if 0 < int (length s) then wb_push (take (nat (int (length s))) s) b else Ok b) s"
      using emits_push [of s] emits_Ok by (cases s) auto
    note e = emits_then [OF emits_push this, of "[of_nat (4 + 8 * length s)]"]
    have "wb_string s (int (length s)) = (\<lambda>wb. and_then (wb_push [of_nat (4 + 8 * length s)] wb)
        (\<lambda>b. if 0 < int (length s) then wb_push (take (nat (int (length s))) s) b else Ok b))"
      using 1 unat_COMBINE_TYPE [of 4 "int (length s)"] by (auto simp: wb_string_def seri_consts fun_eq_iff)
    then show ?thesis using 1 e by (simp add: enc_string_def len)
  next
    case 2
    have "wb_string s (int (length s)) = (\<lambda>wb. and_then (wb_tagged 21 (le_bytes 2 (length s)) wb) (wb_push s))"
      using 2 by (auto simp: wb_string_def seri_consts combine_types fun_eq_iff)
    then show ?thesis using 2 emits_then [OF emits_tagged emits_push, of 21 "le_bytes 2 (length s)" s]
      by (simp add: enc_string_def len)
  next
    case 3
    have "wb_string s (int (length s)) = (\<lambda>wb. and_then (wb_tagged 37 (le_bytes 4 (length s)) wb) (wb_push s))"
      using 3 by (auto simp: wb_string_def seri_consts combine_types fun_eq_iff)
    then show ?thesis using 3 emits_then [OF emits_tagged emits_push, of 37 "le_bytes 4 (length s)" s]
      by (simp add: enc_string_def len)
  qed
qed

lemma emits_header:
  assumes "n < 2 ^ 31"
  shows "emits (table_header (int n)) (enc_header n)"
proof (cases "n < 31")
  case True
  then have "table_header (int n) = wb_push [of_nat (6 + 8 * n)]"
    using unat_COMBINE_TYPE [of 6 "int n"] by (auto simp: table_header_def seri_consts fun_eq_iff)
  then show ?thesis using True emits_push [of "[of_nat (6 + 8 * n)]"] by (simp add: enc_header_def)
next
  case False
  then have "table_header (int n) = (\<lambda>wb. and_then (wb_push [254] wb) (wb_integer (of_nat n)))"
    by (auto simp: table_header_def seri_consts combine_types fun_eq_iff)
  then show ?thesis using False emits_then [OF emits_push emits_integer, of "[254]" "of_nat n"]
    by (simp add: enc_header_def)
qed

text \<open>An operation that ends with a Lua error, or overflows the counter first.\<close>

definition fails :: "(write_block \<Rightarrow> write_block outcome) \<Rightarrow> bool" where
  "fails f \<longleftrightarrow> (\<forall>b. wb_ok b \<longrightarrow> wlen b < 2 ^ 31 \<longrightarrow> (\<exists>e. f b = Err e) \<or> f b = Crash)"

lemma fails_then1: "fails f \<Longrightarrow> fails (\<lambda>b. and_then (f b) g)"
  unfolding fails_def by (metis and_then.simps(2,3))

lemma fails_then2:
  assumes "emits f xs" "fails g"
  shows "fails (\<lambda>b. and_then (f b) g)"
  unfolding fails_def
proof (intro allI impI)
  fix b assume ok: "wb_ok b" "wlen b < 2 ^ 31"
  show "(\<exists>e. and_then (f b) g = Err e) \<or> and_then (f b) g = Crash"
    by (cases rule: emitsD [OF assms(1) ok]) (use assms(2) in \<open>auto simp: fails_def\<close>)
qed

definition gives :: "bool \<Rightarrow> (write_block \<Rightarrow> write_block outcome) \<Rightarrow> byte list \<Rightarrow> bool" where
  "gives P f bs \<longleftrightarrow> (if P then emits f bs else fails f)"

lemma gives_then:
  assumes "gives P f xs" "gives Q g ys"
  shows "gives (P \<and> Q) (\<lambda>b. and_then (f b) g) (xs @ ys)"
  using assms emits_then [of f xs g ys] fails_then1 [of f g] fails_then2 [of f xs g]
  by (auto simp: gives_def split: if_splits)

lemma emits_gives: "emits f bs \<Longrightarrow> gives True f bs"
  by (simp add: gives_def)

lemma gives_array:
  assumes "\<And>v. v \<in> set vs \<Longrightarrow> gives (packable d v) (pack_one d v) (enc v)"
  shows "gives (\<forall>v \<in> set vs. packable d v) (pack_array d vs) (concat (map enc vs))"
  using assms
proof (induction vs)
  case Nil
  have "pack_array d [] = Ok" by (rule ext) simp
  then show ?case using emits_Ok by (simp add: gives_def)
next
  case (Cons v vs)
  have "pack_array d (v # vs) = (\<lambda>b. and_then (pack_one d v b) (pack_array d vs))" by (rule ext) simp
  then show ?case using gives_then [OF Cons.prems [of v] Cons.IH [OF Cons.prems]] by simp
qed

lemma gives_nil: "gives True wb_nil [0]"
  using emits_gives [OF emits_push [of "[0]"]] by (simp add: wb_nil_def [abs_def] TYPE_NIL_def)

lemma gives_hash:
  fixes d n ps
  defines "kept \<equiv> \<lambda>ps. filter (\<lambda>p. \<not> array_key n (fst p)) ps"
  assumes "\<And>p. p \<in> set (kept ps) \<Longrightarrow> gives (packable d (fst p)) (pack_one d (fst p)) (enc (fst p))"
    "\<And>p. p \<in> set (kept ps) \<Longrightarrow> gives (packable d (snd p)) (pack_one d (snd p)) (enc (snd p))"
  shows "gives (\<forall>p \<in> set (kept ps). packable d (fst p) \<and> packable d (snd p)) (\<lambda>b. wb_table_hash d ps n b)
    (concat (map (\<lambda>p. enc (fst p) @ enc (snd p)) (kept ps)) @ [0])"
  using assms(2,3)
proof (induction ps)
  case Nil
  then show ?case using gives_nil by (simp add: kept_def)
next
  case (Cons p ps)
  obtain k v where p: "p = (k, v)" by (cases p)
  show ?case
  proof (cases "array_key n k")
    case True
    then show ?thesis using Cons by (simp add: p kept_def)
  next
    case False
    have "gives (\<forall>p \<in> set (kept ps). packable d (fst p) \<and> packable d (snd p)) (\<lambda>b. wb_table_hash d ps n b)
      (concat (map (\<lambda>p. enc (fst p) @ enc (snd p)) (kept ps)) @ [0])"
      by (rule Cons.IH) (use Cons.prems False p in \<open>auto simp: kept_def\<close>)
    from gives_then [OF Cons.prems(1) [of p] gives_then [OF Cons.prems(2) [of p] this]]
    show ?thesis using False by (simp add: p kept_def conj_assoc)
  qed
qed

lemma gives_metapairs:
  assumes "\<And>p. p \<in> set (meta_pairs ps) \<Longrightarrow> gives (packable d (fst p)) (pack_one d (fst p)) (enc (fst p))"
    "\<And>p. p \<in> set (meta_pairs ps) \<Longrightarrow> gives (packable d (snd p)) (pack_one d (snd p)) (enc (snd p))"
  shows "gives (\<forall>p \<in> set (meta_pairs ps). packable d (fst p) \<and> packable d (snd p)) (\<lambda>b. pack_metapairs d ps b)
    (concat (map (\<lambda>p. enc (fst p) @ enc (snd p)) (meta_pairs ps)) @ [0])"
  using assms
proof (induction ps)
  case Nil
  then show ?case using gives_nil by (simp add: meta_pairs_def)
next
  case (Cons p ps)
  obtain k v where p: "p = (k, v)" by (cases p)
  show ?case
  proof (cases "k = LNil")
    case True
    then show ?thesis using gives_nil by (simp add: p meta_pairs_def)
  next
    case False
    have "gives (\<forall>p \<in> set (meta_pairs ps). packable d (fst p) \<and> packable d (snd p)) (\<lambda>b. pack_metapairs d ps b)
      (concat (map (\<lambda>p. enc (fst p) @ enc (snd p)) (meta_pairs ps)) @ [0])"
      by (rule Cons.IH) (use Cons.prems False p in \<open>auto simp: meta_pairs_def\<close>)
    from gives_then [OF Cons.prems(1) [of p] gives_then [OF Cons.prems(2) [of p] this]]
    show ?thesis using False by (simp add: p meta_pairs_def conj_assoc)
  qed
qed

lemma pack_one_deep: "MAX_DEPTH < d \<Longrightarrow> fails (pack_one d v)"
  by (auto simp: fails_def pack_one.simps)

lemma packable_depth: "packable d v \<Longrightarrow> d \<le> MAX_DEPTH"
  by (cases v) auto

lemma pack_one_gives: "small v \<Longrightarrow> gives (packable d v) (pack_one d v) (enc v)"
proof (induction v arbitrary: d)
  case LNil
  then show ?case using gives_nil pack_one_deep [of d] 
    by (cases "MAX_DEPTH < d") (simp_all add: gives_def pack_one.simps [abs_def])
next
  case (LBoolean x)
  have "wb_boolean x = wb_push [if x then 9 else 1]" by (auto simp: wb_boolean_def seri_consts combine_types)
  then show ?case using emits_push pack_one_deep [of d]
    by (cases "MAX_DEPTH < d") (simp_all add: gives_def pack_one.simps [abs_def])
next
  case (LInteger x)
  then show ?case using emits_integer pack_one_deep [of d]
    by (cases "MAX_DEPTH < d") (simp_all add: gives_def pack_one.simps [abs_def])
next
  case (LNumber x)
  have "wb_real x = wb_tagged 66 (le_bytes 8 (unat x))" by (auto simp: wb_real_def seri_consts combine_types)
  then show ?case using emits_tagged pack_one_deep [of d]
    by (cases "MAX_DEPTH < d") (simp_all add: gives_def pack_one.simps [abs_def])
next
  case (LString s)
  then show ?case using emits_string [of s] pack_one_deep [of d]
    by (cases "MAX_DEPTH < d") (simp_all add: gives_def pack_one.simps [abs_def])
next
  case (LUserdata x)
  have "wb_pointer x = wb_tagged 3 (le_bytes 8 (unat x))" by (auto simp: wb_pointer_def seri_consts)
  then show ?case using emits_tagged pack_one_deep [of d]
    by (cases "MAX_DEPTH < d") (simp_all add: gives_def pack_one.simps [abs_def])
next
  case (LTable arr ps)
  let ?d = "d + 1" and ?n = "int (length arr)"
  have n: "int_of_size (length arr) = ?n" "length arr < 2 ^ 31" using LTable.prems by (simp_all add: int_of_size_small)
  have a: "gives (\<forall>v \<in> set arr. packable ?d v) (pack_array ?d arr) (concat (map enc arr))"
    by (rule gives_array) (use LTable in auto)
  have h: "gives (\<forall>p \<in> set (hash_pairs arr ps). packable ?d (fst p) \<and> packable ?d (snd p)) (\<lambda>b. wb_table_hash ?d ps ?n b)
      (concat (map (\<lambda>p. enc (fst p) @ enc (snd p)) (hash_pairs arr ps)) @ [0])"
    unfolding hash_pairs_def
    by (rule gives_hash) (use LTable in \<open>auto simp: hash_pairs_def\<close>)
  have "\<not> MAX_DEPTH < d \<Longrightarrow> pack_one d (LTable arr ps) = (\<lambda>b. and_then (table_header ?n b) (\<lambda>b1.
      and_then (pack_array ?d arr b1) (\<lambda>b2. wb_table_hash ?d ps ?n b2)))"
    using n by (auto simp: pack_one.simps [abs_def] Let_def)
  then show ?case
    using gives_then [OF emits_gives [OF emits_header [OF n(2)]] gives_then [OF a h]] pack_one_deep [of d "LTable arr ps"]
    by (cases "MAX_DEPTH < d") (simp_all add: gives_def)
next
  case (LPairs ps)
  let ?d = "d + 1"
  have ih: "gives (packable ?d (fst p)) (pack_one ?d (fst p)) (enc (fst p)) \<and>
      gives (packable ?d (snd p)) (pack_one ?d (snd p)) (enc (snd p))" if p: "p \<in> set (meta_pairs ps)" for p
  proof -
    have m: "p \<in> set ps" using p set_takeWhileD by (fastforce simp: meta_pairs_def)
    have "small (fst p)" "small (snd p)" using LPairs.prems p by auto
    then show ?thesis using LPairs.IH(1) [OF m, of "fst p" ?d] LPairs.IH(2) [OF m, of "snd p" ?d]
      by (cases p) simp
  qed
  have h: "gives (\<forall>p \<in> set (meta_pairs ps). packable ?d (fst p) \<and> packable ?d (snd p)) (\<lambda>b. pack_metapairs ?d ps b)
      (concat (map (\<lambda>p. enc (fst p) @ enc (snd p)) (meta_pairs ps)) @ [0])"
    by (rule gives_metapairs) (use ih in blast)+
  have "\<not> MAX_DEPTH < d \<Longrightarrow> pack_one d (LPairs ps) = (\<lambda>b. and_then (wb_push [6] b) (\<lambda>b1. pack_metapairs ?d ps b1))"
    by (auto simp: pack_one.simps [abs_def] seri_consts combine_types)
  then show ?case
    using gives_then [OF emits_gives [OF emits_push [of "[6]"]] h] pack_one_deep [of d "LPairs ps"]
    by (cases "MAX_DEPTH < d") (simp_all add: gives_def)
next
  case (LOther t)
  then show ?case by (simp add: gives_def fails_def pack_one.simps)
qed

section \<open>Unpacking inverts the encoding\<close>

text \<open>A reader after \<open>pre\<close> with \<open>rest\<close> to come.\<close>

definition reader :: "byte list \<Rightarrow> byte list \<Rightarrow> read_block" where
  "reader pre rest = \<lparr>rbuffer = pre @ rest, rlen = int (length rest), rptr = int (length pre)\<rparr>"

lemma rb_read_reader:
  "rb_read (int (length bs)) (reader pre (bs @ rest)) = (Some (int (length pre)), reader (pre @ bs) rest)"
  by (simp add: rb_read_def reader_def)

lemma fetch_reader: "fetch (int (length pre)) (length bs) (reader (pre @ bs) rest) = Ok bs"
  by (simp add: fetch_def reader_def)

lemma read_number_reader:
  "length bs = k \<Longrightarrow> read_number line k (reader pre (bs @ rest)) = Ok (le_value bs, reader (pre @ bs) rest)"
  using rb_read_reader [of bs] fetch_reader [of pre bs rest] by (auto simp: read_number_def)

lemma read_byte_reader [simp]:
  "read_number line (Suc 0) (reader pre (b # rest)) = Ok (unat b, reader (pre @ [b]) rest)"
  using read_number_reader [of "[b]" 1 line pre rest] by simp

lemma get_buffer_reader:
  assumes "int (length s) < 2 ^ 64"
  shows "get_buffer (int (length s)) (reader pre (s @ rest)) = Ok (LString s, reader (pre @ s) rest)"
  using assms fetch_reader [of pre s rest] by (simp add: get_buffer_def rb_read_reader)

lemma unpack_one_reader:
  "unpack_one (Suc f) (reader pre (b # rest)) = push_value f (unat b mod 8) (unat b div 8) (reader (pre @ [b]) rest)"
  by simp

lemma of_nat_low_word: "(of_nat (unat v mod 256 ^ 4) :: cint) = ucast v" for v :: u64
  by (rule bit_eqI) (simp add: bit_of_nat_iff bit_unsigned_iff bit_take_bit_iff unsigned_of_nat flip: take_bit_eq_mod [of 32, simplified])

lemma le_word: "(of_nat (le_value (le_bytes 8 (unat v))) :: u64) = v"
proof -
  have "unat v < 2 ^ 64" using unsigned_less [where ?'b = 64 and ?'a = nat and w = v] by simp
  then show ?thesis by (simp add: le_value_bytes)
qed

lemma sint_eq_iff_word: "(of_int (sint v) :: u64) = v"
  by simp

lemma small_int_nat:
  fixes v :: u64
  assumes "0 \<le> sint v"
  shows "unat v = nat (sint v)"
proof -
  have "sint v < 2 ^ 63" using sint_less [of v] by simp
  then have "uint v = sint v" using assms by (simp add: uint_sint take_bit_int_eq_self)
  from arg_cong [OF this, of nat] show ?thesis by simp
qed

lemma get_integer_reader:
  "\<exists>t bs. enc_integer v = t # bs \<and> unat t mod 8 = 2 \<and> unat t div 8 \<noteq> 8 \<and>
     get_integer (unat t div 8) (reader pre (bs @ rest)) = Ok (v, reader (pre @ bs) rest)"
proof -
  note n = read_number_reader [OF length_le_bytes]
  consider "v = 0" | "v \<noteq> 0" "sint v \<noteq> sint (ucast v :: cint)" | "v \<noteq> 0" "sint v = sint (ucast v :: cint)" by blast
  then show ?thesis
  proof cases
    case 1
    then show ?thesis by (simp add: enc_integer_def get_integer_def TYPE_NUMBER_ZERO_def)
  next
    case 2
    then show ?thesis using n [of _ 8 pre "unat v" rest]
      by (simp add: enc_integer_def get_integer_def seri_consts le_word)
  next
    case 3
    have u: "unat (ucast v :: cint) = unat v mod 256 ^ 4" by (simp add: unsigned_ucast_eq take_bit_eq_mod)
    have "scast (ucast v :: cint) = v" using arg_cong [OF 3(2), of "of_int :: int \<Rightarrow> u64"] by simp
    then have w: "scast (of_nat (le_value (le_bytes 4 (unat v))) :: cint) = v"
      "scast (of_nat (le_value (le_bytes 4 (unat (ucast v :: cint)))) :: cint) = v"
      unfolding le_value_bytes u mod_mod_trivial of_nat_low_word by simp_all
    consider "sint v < 0" | "0 \<le> sint v" "sint v < 0x100" | "0x100 \<le> sint v" "sint v < 0x10000" | "0x10000 \<le> sint v"
      by linarith
    then show ?thesis
    proof cases
      case 1
      then show ?thesis using 3 n [of _ 4 pre "unat (ucast v :: cint)" rest]
        by (simp add: enc_integer_def get_integer_def seri_consts w)
    next
      case 2
      then have "unat v < 256" using small_int_nat [of v] by simp
      then have "(of_nat (le_value (le_bytes 1 (unat v))) :: u64) = v" unfolding le_value_bytes by simp
      then show ?thesis using 2 3 n [of _ 1 pre "unat v" rest]
        by (simp add: enc_integer_def get_integer_def seri_consts)
    next
      case mid: 3
      then have "unat v < 256 ^ 2" using small_int_nat [of v] by simp
      then have "(of_nat (le_value (le_bytes 2 (unat v))) :: u64) = v" by (simp add: le_value_bytes)
      then show ?thesis using mid 3 n [of _ 2 pre "unat v" rest]
        by (simp add: enc_integer_def get_integer_def seri_consts)
    next
      case 4
      then show ?thesis using 3 n [of _ 4 pre "unat v" rest]
        by (simp add: enc_integer_def get_integer_def seri_consts w)
    qed
  qed
qed

lemma header_reader:
  assumes "n < 2 ^ 31"
  shows "\<exists>t bs. enc_header n = t # bs \<and> unat t mod 8 = 6 \<and>
     read_array_size (unat t div 8) (reader pre (bs @ rest)) = Ok (int n, reader (pre @ bs) rest)"
proof (cases "n < 31")
  case True
  have "unat (of_nat (6 + 8 * n) :: byte) = 6 + 8 * n" using True by (simp add: unat_of_nat del: of_nat_add of_nat_mult)
  then show ?thesis using True by (simp add: enc_header_def read_array_size_def seri_consts del: of_nat_add of_nat_mult)
next
  case False
  obtain t bs where e: "enc_integer (of_nat n) = t # bs" using get_integer_reader [of "of_nat n" pre rest] by blast
  have t: "unat t mod 8 = 2" "unat t div 8 \<noteq> 8"
    "get_integer (unat t div 8) (reader (pre @ [t]) (bs @ rest)) = Ok (of_nat n, reader (pre @ t # bs) rest)"
    using get_integer_reader [of "of_nat n" "pre @ [t]" rest] e by auto
  have "sint (ucast (of_nat n :: u64) :: cint) = int n"
    using assms int_of_size_small [OF assms] by (simp add: int_of_size_def unsigned_of_nat of_nat_take_bit take_bit_word_eq_self)
  then show ?thesis using False e t by (simp add: enc_header_def read_array_size_def seri_consts)
qed

text \<open>Unpacking a value from its encoding, given fuel for twice its length.\<close>

definition decodes :: "lua \<Rightarrow> bool" where
  "decodes v \<longleftrightarrow> enc v \<noteq> [] \<and> (plain v = LNil \<longleftrightarrow> v = LNil) \<and>
     (\<forall>f pre rest. 2 * length (enc v) \<le> f \<longrightarrow>
       unpack_one f (reader pre (enc v @ rest)) = Ok (plain v, reader (pre @ enc v) rest))"

lemma decodesI:
  assumes "enc v = t # bs" "plain v = LNil \<longleftrightarrow> v = LNil"
    and "\<And>f pre rest. 2 * length bs + 1 \<le> f \<Longrightarrow>
      push_value f (unat t mod 8) (unat t div 8) (reader (pre @ [t]) (bs @ rest)) = Ok (plain v, reader (pre @ t # bs) rest)"
  shows "decodes v"
  unfolding decodes_def
proof (intro conjI allI impI)
  fix f pre rest assume f: "2 * length (enc v) \<le> f"
  then obtain g where g: "f = Suc g" using assms(1) by (cases f) auto
  have "unpack_one (Suc g) (reader pre (t # bs @ rest)) = Ok (plain v, reader (pre @ t # bs) rest)"
    unfolding unpack_one_reader using assms(3) [of g pre rest] f g assms(1) by simp
  then show "unpack_one f (reader pre (enc v @ rest)) = Ok (plain v, reader (pre @ enc v) rest)"
    using g assms(1) by simp
qed (use assms in auto)

lemma decodes_one:
  assumes "decodes v" "2 * length (enc v) \<le> f"
  shows "unpack_one f (reader pre (enc v @ rest)) = Ok (plain v, reader (pre @ enc v) rest)"
  using assms by (simp add: decodes_def)

lemma decodes_length: "decodes v \<Longrightarrow> 1 \<le> length (enc v)"
  by (cases "enc v") (auto simp: decodes_def)

lemma unpack_array_reader:
  assumes "\<And>v. v \<in> set vs \<Longrightarrow> decodes v" "2 * length (concat (map enc vs)) + 1 \<le> f"
  shows "unpack_array f (length vs) (reader pre (concat (map enc vs) @ rest)) =
    Ok (map plain vs, reader (pre @ concat (map enc vs)) rest)"
  using assms
proof (induction vs arbitrary: f pre)
  case (Cons v vs)
  have d: "decodes v" by (simp add: Cons.prems)
  obtain g where g: "f = Suc g" using Cons.prems(2) by (cases f) auto
  have "unpack_array g (length vs) (reader (pre @ enc v) (concat (map enc vs) @ rest)) =
      Ok (map plain vs, reader (pre @ enc v @ concat (map enc vs)) rest)"
    using Cons.IH [of g "pre @ enc v"] Cons.prems decodes_length [OF d] g by simp
  moreover have "unpack_one g (reader pre (enc v @ concat (map enc vs) @ rest)) =
      Ok (plain v, reader (pre @ enc v) (concat (map enc vs) @ rest))"
    using decodes_one [OF d] Cons.prems(2) g by simp
  ultimately show ?case by (simp add: g)
qed simp

abbreviation enc_pairs :: "(lua \<times> lua) list \<Rightarrow> byte list" where
  "enc_pairs ps \<equiv> concat (map (\<lambda>p. enc (fst p) @ enc (snd p)) ps)"

lemma nan_key_plain: "nan_key (plain k) = nan_key k"
  by (cases k) (simp_all add: nan_key_def)

lemma unpack_pairs_reader:
  assumes "\<And>p. p \<in> set ps \<Longrightarrow> decodes (fst p) \<and> decodes (snd p) \<and> fst p \<noteq> LNil \<and> \<not> nan_key (fst p)"
    "2 * length (enc_pairs ps) + 3 \<le> f"
  shows "unpack_pairs f (reader pre (enc_pairs ps @ 0 # rest)) =
    Ok (map (\<lambda>p. (plain (fst p), plain (snd p))) ps, reader (pre @ enc_pairs ps @ [0]) rest)"
  using assms
proof (induction ps arbitrary: f pre)
  case Nil
  then obtain g where "f = Suc (Suc g)" by (cases f; cases "f - 1") auto
  then show ?case by (simp add: TYPE_NIL_def)
next
  case (Cons p ps)
  obtain k v where p: "p = (k, v)" by (cases p)
  have d: "decodes k" "decodes v" "plain k \<noteq> LNil" "\<not> nan_key (plain k)"
    using Cons.prems(1) [of p] by (auto simp: p decodes_def nan_key_plain)
  obtain g where g: "f = Suc g" using Cons.prems(2) by (cases f) auto
  let ?r = "enc_pairs ps @ 0 # rest"
  have "unpack_pairs g (reader (pre @ enc k @ enc v) ?r) =
      Ok (map (\<lambda>p. (plain (fst p), plain (snd p))) ps, reader (pre @ enc k @ enc v @ enc_pairs ps @ [0]) rest)"
    using Cons.IH [of g "pre @ enc k @ enc v"] Cons.prems decodes_length [OF d(1)] g by (simp add: p)
  moreover have "unpack_one g (reader pre (enc k @ enc v @ ?r)) = Ok (plain k, reader (pre @ enc k) (enc v @ ?r))"
    "unpack_one g (reader (pre @ enc k) (enc v @ ?r)) = Ok (plain v, reader (pre @ enc k @ enc v) ?r)"
    using decodes_one [OF d(1)] decodes_one [OF d(2), of g "pre @ enc k"] Cons.prems(2) g by (simp_all add: p)
  ultimately show ?case using d(3,4) by (simp add: g p)
qed

lemma decodes_table:
  assumes h: "length vs < 2 ^ 31" and vs: "\<And>v. v \<in> set vs \<Longrightarrow> decodes v"
    and ps: "\<And>p. p \<in> set ps \<Longrightarrow> decodes (fst p) \<and> decodes (snd p) \<and> fst p \<noteq> LNil \<and> \<not> nan_key (fst p)"
    and e: "enc w = enc_header (length vs) @ concat (map enc vs) @ enc_pairs ps @ [0]"
    and p: "plain w = LTable (map plain vs) (map (\<lambda>p. (plain (fst p), plain (snd p))) ps)" "w \<noteq> LNil"
  shows "decodes w"
proof -
  obtain t bs where t: "enc_header (length vs) = t # bs" using header_reader [OF h, of "[]" "[]"] by blast
  let ?a = "concat (map enc vs)" and ?p = "enc_pairs ps"
  show ?thesis
  proof (rule decodesI)
    show "enc w = t # bs @ ?a @ ?p @ [0]" using e t by simp
    fix f pre rest assume f: "2 * length (bs @ ?a @ ?p @ [0]) + 1 \<le> f"
    have r: "unat t mod 8 = 6"
      "read_array_size (unat t div 8) (reader (pre @ [t]) (bs @ ?a @ ?p @ 0 # rest)) =
        Ok (int (length vs), reader (pre @ t # bs) (?a @ ?p @ 0 # rest))"
      using header_reader [OF h, of "pre @ [t]" "?a @ ?p @ 0 # rest"] t by auto
    have "unpack_array f (length vs) (reader (pre @ t # bs) (?a @ ?p @ 0 # rest)) =
        Ok (map plain vs, reader (pre @ t # bs @ ?a) (?p @ 0 # rest))"
      using unpack_array_reader [OF vs, of vs f "pre @ t # bs" "?p @ 0 # rest"] f by simp
    moreover have "unpack_pairs f (reader (pre @ t # bs @ ?a) (?p @ 0 # rest)) =
        Ok (map (\<lambda>p. (plain (fst p), plain (snd p))) ps, reader (pre @ t # bs @ ?a @ ?p @ [0]) rest)"
      using unpack_pairs_reader [OF ps, of ps f "pre @ t # bs @ ?a" rest] f by simp
    ultimately show "push_value f (unat t mod 8) (unat t div 8) (reader (pre @ [t]) ((bs @ ?a @ ?p @ [0]) @ rest)) =
        Ok (plain w, reader (pre @ t # bs @ ?a @ ?p @ [0]) rest)"
      using r p by (simp add: seri_consts)
  qed (use p in simp)
qed

lemma decodes_string:
  assumes "length s < 2 ^ 31"
  shows "decodes (LString s)"
proof -
  note b = get_buffer_reader [of s]
  consider "length s < 32" | "32 \<le> length s" "length s < 0x10000" | "0x10000 \<le> length s" by linarith
  then show ?thesis
  proof cases
    case 1
    have "unat (of_nat (4 + 8 * length s) :: byte) = 4 + 8 * length s"
      using 1 by (simp add: unat_of_nat del: of_nat_add of_nat_mult)
    then show ?thesis using 1
      by (intro decodesI [where t = "of_nat (4 + 8 * length s)" and bs = s])
         (simp_all add: enc_string_def seri_consts b del: of_nat_add of_nat_mult)
  next
    case 2
    have v: "le_value (le_bytes 2 (length s)) = length s" using 2 by (simp add: le_value_bytes)
    show ?thesis using 2 v b read_number_reader [of "le_bytes 2 (length s)" 2]
      by (intro decodesI [where t = 21 and bs = "le_bytes 2 (length s) @ s"])
         (simp_all add: enc_string_def seri_consts read_long_string_def)
  next
    case 3
    have v: "le_value (le_bytes 4 (length s)) = length s" using assms by (simp add: le_value_bytes)
    show ?thesis using 3 v b read_number_reader [of "le_bytes 4 (length s)" 4] assms int_of_size_small [OF assms]
      by (intro decodesI [where t = 37 and bs = "le_bytes 4 (length s) @ s"])
         (simp_all add: enc_string_def seri_consts read_long_string_def)
  qed
qed

lemma packable_decodes: "packable d v \<Longrightarrow> small v \<Longrightarrow> decodes v"
proof (induction v arbitrary: d)
  case LNil
  show ?case by (rule decodesI) (auto simp: seri_consts)
next
  case (LBoolean x)
  show ?case by (rule decodesI [where t = "if x then 9 else 1"]) (auto simp: seri_consts)
next
  case (LInteger x)
  obtain t bs where e: "enc_integer x = t # bs" using get_integer_reader [of x "[]" "[]"] by blast
  show ?case
  proof (rule decodesI)
    fix f pre rest
    show "push_value f (unat t mod 8) (unat t div 8) (reader (pre @ [t]) (bs @ rest)) =
        Ok (plain (LInteger x), reader (pre @ t # bs) rest)"
      using get_integer_reader [of x "pre @ [t]" rest] e by (auto simp: seri_consts)
  qed (simp_all add: e)
next
  case (LNumber x)
  show ?case using read_number_reader [of "le_bytes 8 (unat x)" 8]
    by (intro decodesI [where t = 66 and bs = "le_bytes 8 (unat x)"])
       (simp_all add: seri_consts get_real_def le_word del: le_bytes.simps)
next
  case (LString s)
  then show ?case by (intro decodes_string) simp
next
  case (LUserdata x)
  show ?case using read_number_reader [of "le_bytes 8 (unat x)" 8]
    by (intro decodesI [where t = 3 and bs = "le_bytes 8 (unat x)"])
       (simp_all add: seri_consts get_pointer_def le_word del: le_bytes.simps)
next
  case (LTable arr ps)
  have ih: "decodes (fst p) \<and> decodes (snd p) \<and> fst p \<noteq> LNil \<and> \<not> nan_key (fst p)" if p: "p \<in> set (hash_pairs arr ps)" for p
  proof -
    have m: "p \<in> set ps" using p by (simp add: hash_pairs_def)
    have "packable (d + 1) (fst p)" "packable (d + 1) (snd p)" "small (fst p)" "small (snd p)" "fst p \<noteq> LNil" "\<not> nan_key (fst p)"
      using LTable.prems p by auto
    then show ?thesis using LTable.IH(2) [OF m, of "fst p" "d + 1"] LTable.IH(3) [OF m, of "snd p" "d + 1"]
      by (cases p) simp
  qed
  show ?case by (rule decodes_table [where vs = arr and ps = "hash_pairs arr ps"]) (use LTable ih in auto)
next
  case (LPairs ps)
  have ih: "decodes (fst p) \<and> decodes (snd p) \<and> fst p \<noteq> LNil \<and> \<not> nan_key (fst p)" if p: "p \<in> set (meta_pairs ps)" for p
  proof -
    have m: "p \<in> set ps" "fst p \<noteq> LNil" using set_takeWhileD [OF p [unfolded meta_pairs_def]] by auto
    have "packable (d + 1) (fst p)" "packable (d + 1) (snd p)" "small (fst p)" "small (snd p)" "\<not> nan_key (fst p)"
      using LPairs.prems p by auto
    then show ?thesis using LPairs.IH(1) [OF m(1), of "fst p" "d + 1"] LPairs.IH(2) [OF m(1), of "snd p" "d + 1"] m(2)
      by (cases p) simp
  qed
  show ?case by (rule decodes_table [where vs = "[]" and ps = "meta_pairs ps"]) (use ih in \<open>auto simp: enc_header_def\<close>)
qed simp

section \<open>Whole messages\<close>

definition message_ok :: "lua list \<Rightarrow> bool" where
  "message_ok vs \<longleftrightarrow> (\<forall>v \<in> set vs. small v) \<and> length (concat (map enc vs)) < 2 ^ 31"

lemma gives_from:
  "(\<And>v. v \<in> set vs \<Longrightarrow> small v) \<Longrightarrow> gives (\<forall>v \<in> set vs. packable 0 v) (pack_from vs) (concat (map enc vs))"
proof (induction vs)
  case Nil
  have "pack_from [] = Ok" by (rule ext) simp
  then show ?case using emits_Ok by (simp add: gives_def)
next
  case (Cons v vs)
  have "pack_from (v # vs) = (\<lambda>b. and_then (pack_one 0 v b) (pack_from vs))" by (rule ext) simp
  then show ?case using gives_then [OF pack_one_gives [of v 0] Cons.IH] Cons.prems by simp
qed

lemma luaseri_pack_gives:
  assumes "\<And>v. v \<in> set vs \<Longrightarrow> small v"
  shows "luaseri_pack vs = Ok bs \<longleftrightarrow>
    (\<forall>v \<in> set vs. packable 0 v) \<and> length (concat (map enc vs)) < 2 ^ 31 \<and> bs = concat (map enc vs)"
proof -
  let ?b = "wb_init blk_alloc"
  have b: "wb_ok ?b" "wlen ?b < 2 ^ 31" "content ?b = []" "wlen ?b = 0"
    by (simp_all add: wb_ok_def wb_init_def blk_alloc_def content_def)
  note g = gives_from [OF assms, of vs]
  show ?thesis
  proof (cases "\<forall>v \<in> set vs. packable 0 v")
    case True
    then have em: "emits (pack_from vs) (concat (map enc vs))" using g by (simp add: gives_def)
    show ?thesis
    proof (cases rule: emitsD [OF em b(1,2)])
      case (1 b')
      then have "seri (blocks b') (wlen b') = Ok (concat (map enc vs))" using seri_write_block [of b'] b by simp
      then show ?thesis using 1 True b(4) by (auto simp: luaseri_pack_def)
    next
      case 2
      then show ?thesis using b(4) by (auto simp: luaseri_pack_def)
    qed
  next
    case False
    then have "fails (pack_from vs)" using g by (simp add: gives_def)
    then have "(\<exists>e. pack_from vs ?b = Err e) \<or> pack_from vs ?b = Crash" using b(1,2) unfolding fails_def by blast
    then show ?thesis using False by (auto simp: luaseri_pack_def)
  qed
qed

lemma unpack_all_step:
  "unpack_all (Suc f) (reader pre (b # rest)) =
    and_then (unpack_one (Suc f) (reader pre (b # rest))) (\<lambda>(v, rb). and_then (unpack_all f rb) (\<lambda>vs. Ok (v # vs)))"
  using rb_read_reader [of "[b]" pre rest] fetch_reader [of pre "[b]" rest] by simp

lemma unpack_all_reader:
  "(\<And>v. v \<in> set vs \<Longrightarrow> decodes v) \<Longrightarrow> 2 * length (concat (map enc vs)) + 1 \<le> f \<Longrightarrow>
    unpack_all f (reader pre (concat (map enc vs))) = Ok (map plain vs)"
proof (induction vs arbitrary: f pre)
  case Nil
  then show ?case by (cases f) (simp_all add: rb_read_def reader_def)
next
  case (Cons v vs)
  have d: "decodes v" by (simp add: Cons.prems)
  then obtain b bs where e: "enc v = b # bs" by (cases "enc v") (auto simp: decodes_def)
  obtain g where g: "f = Suc g" using Cons.prems(2) by (cases f) auto
  have "unpack_one f (reader pre (b # bs @ concat (map enc vs))) = Ok (plain v, reader (pre @ enc v) (concat (map enc vs)))"
    using decodes_one [OF d, of f pre "concat (map enc vs)"] Cons.prems(2) e by simp
  moreover have "unpack_all g (reader (pre @ enc v) (concat (map enc vs))) = Ok (map plain vs)"
    using Cons.IH [of g "pre @ enc v"] Cons.prems g e by simp
  ultimately show ?case using unpack_all_step [of g pre b "bs @ concat (map enc vs)"] by (simp add: g e)
qed

text \<open>(C12) What one service packs another unpacks: for values below the depth bound whose strings and
  whose whole message stay within \<^verbatim>\<open>int\<close>, packing succeeds and unpacking the buffer, as a string
  or as a pointer and a length, yields the values again, a table by its array part and its other pairs.
  Keys are those a Lua table can have: neither nil nor NaN.\<close>

theorem seri_roundtrip:
  assumes "message_ok vs" "\<forall>v \<in> set vs. packable 0 v" "2 * length (concat (map enc vs)) + 1 \<le> f"
  shows "\<exists>bs. luaseri_pack vs = Ok bs \<and> luaseri_unpack f (Str_arg bs) = Ok (map plain vs) \<and>
    luaseri_unpack f (Ptr_arg (Some bs) (int (length bs))) = Ok (map plain vs)"
proof -
  let ?bs = "concat (map enc vs)"
  have d: "decodes v" if "v \<in> set vs" for v using packable_decodes [of 0 v] assms(1,2) that by (simp add: message_ok_def)
  have "luaseri_pack vs = Ok ?bs" using luaseri_pack_gives [of vs ?bs] assms(1,2) by (simp add: message_ok_def)
  moreover have "unpack_all f (rball_init ?bs (int (length ?bs))) = Ok (map plain vs)"
    using unpack_all_reader [OF d assms(3), of "[]"] by (simp add: reader_def rball_init_def)
  moreover have "int_of_size (length ?bs) = int (length ?bs)" using assms(1) by (simp add: message_ok_def int_of_size_small)
  moreover have "?bs = [] \<longleftrightarrow> vs = []" using d by (cases vs) (auto simp: decodes_def)
  ultimately show ?thesis by (cases "vs = []") (auto simp: luaseri_unpack_def)
qed

text \<open>Packing gives a buffer exactly when every value is of a supported type and no table lies deeper
  than \<open>MAX_DEPTH\<close>, and when the message fits \<^verbatim>\<open>int\<close>; the buffer is the encoding of the values.\<close>

theorem seri_pack_exact:
  assumes "\<forall>v \<in> set vs. small v"
  shows "luaseri_pack vs = Ok bs \<longleftrightarrow>
    (\<forall>v \<in> set vs. packable 0 v) \<and> length (concat (map enc vs)) < 2 ^ 31 \<and> bs = concat (map enc vs)"
  by (rule luaseri_pack_gives) (use assms in blast)

section \<open>Unpacking ends on every input\<close>

text \<open>A read that leaves the buffer alone and moves forwards in it.\<close>

definition reads :: "read_block \<Rightarrow> read_block \<Rightarrow> bool" where
  "reads rb rb' \<longleftrightarrow> rbuffer rb' = rbuffer rb \<and> rlen rb' \<le> rlen rb \<and> rptr rb' + rlen rb' = rptr rb + rlen rb"

lemma reads_refl: "reads rb rb"
  by (simp add: reads_def)

lemma reads_trans: "reads a b \<Longrightarrow> reads b c \<Longrightarrow> reads a c"
  by (simp add: reads_def)

text \<open>The bytes that are announced are there.\<close>

definition inside :: "read_block \<Rightarrow> bool" where
  "inside rb \<longleftrightarrow> 0 \<le> rptr rb \<and> rptr rb + rlen rb \<le> int (length (rbuffer rb))"

lemma reads_inside: "reads a b \<Longrightarrow> inside a \<Longrightarrow> inside b"
  by (auto simp: reads_def inside_def)

lemma read_number_reads:
  "read_number line k rb = Ok (n, rb') \<Longrightarrow> reads rb rb' \<and> rlen rb' = rlen rb - int k \<and> int k \<le> rlen rb"
  "read_number line k rb \<noteq> Out_of_fuel"
  "inside rb \<Longrightarrow> read_number line k rb \<noteq> Crash"
  by (auto simp: read_number_def rb_read_def invalid_stream_def fetch_def reads_def inside_def and_then_Crash_iff
      split: if_splits)

lemma get_buffer_reads:
  "get_buffer len rb = Ok (v, rb') \<Longrightarrow> reads rb rb'" "get_buffer len rb \<noteq> Out_of_fuel"
  "inside rb \<Longrightarrow> get_buffer len rb \<noteq> Crash"
  by (auto simp: get_buffer_def rb_read_def fetch_def invalid_stream_def reads_def inside_def and_then_Crash_iff
      split: if_splits)

lemma get_integer_reads:
  "get_integer c rb = Ok (x, rb') \<Longrightarrow> reads rb rb'" "get_integer c rb \<noteq> Out_of_fuel"
  "inside rb \<Longrightarrow> get_integer c rb \<noteq> Crash"
  by (auto simp: get_integer_def invalid_stream_def reads_refl and_then_Crash_iff dest!: read_number_reads(1)
      simp: read_number_reads(2,3) split: if_splits)

lemma get_word_reads:
  "get_real rb = Ok (x, rb') \<Longrightarrow> reads rb rb'" "get_real rb \<noteq> Out_of_fuel"
  "get_pointer rb = Ok (x, rb') \<Longrightarrow> reads rb rb'" "get_pointer rb \<noteq> Out_of_fuel"
  "inside rb \<Longrightarrow> get_real rb \<noteq> Crash" "inside rb \<Longrightarrow> get_pointer rb \<noteq> Crash"
  by (auto simp: get_real_def get_pointer_def read_number_reads(2,3) and_then_Crash_iff dest!: read_number_reads(1))

lemma read_array_size_reads:
  "read_array_size c rb = Ok (x, rb') \<Longrightarrow> reads rb rb'" "read_array_size c rb \<noteq> Out_of_fuel"
  "inside rb \<Longrightarrow> read_array_size c rb \<noteq> Crash"
proof -
  show "read_array_size c rb \<noteq> Out_of_fuel"
    by (auto simp: read_array_size_def Let_def invalid_stream_def read_number_reads(2) get_integer_reads(2) split: if_splits)
  show "read_array_size c rb \<noteq> Crash" if i: "inside rb"
  proof
    assume c: "read_array_size c rb = Crash"
    then obtain n rb1 where r: "read_number 440 1 rb = Ok (n, rb1)" "get_integer (n div 8) rb1 = Crash"
      using read_number_reads(3) [OF i]
      by (auto simp: read_array_size_def Let_def invalid_stream_def and_then_Crash_iff split: if_splits)
    then have "inside rb1" using read_number_reads(1) reads_inside i by blast
    then show False using get_integer_reads(3) r(2) by blast
  qed
  assume "read_array_size c rb = Ok (x, rb')"
  then show "reads rb rb'"
    by (auto simp: read_array_size_def Let_def invalid_stream_def reads_refl split: if_splits
        dest!: read_number_reads(1) get_integer_reads(1) intro: reads_trans)
qed

lemma read_long_string_reads:
  "read_long_string c rb = Ok (x, rb') \<Longrightarrow> reads rb rb'" "read_long_string c rb \<noteq> Out_of_fuel"
  "inside rb \<Longrightarrow> read_long_string c rb \<noteq> Crash"
proof -
  show "read_long_string c rb \<noteq> Out_of_fuel"
    by (auto simp: read_long_string_def invalid_stream_def read_number_reads(2) get_buffer_reads(2))
  show "read_long_string c rb \<noteq> Crash" if i: "inside rb"
    using read_number_reads(1) [THEN conjunct1, THEN reads_inside, OF _ i]
    by (auto simp: read_long_string_def invalid_stream_def and_then_Crash_iff read_number_reads(3) [OF i]
        get_buffer_reads(3))
  assume "read_long_string c rb = Ok (x, rb')"
  then show "reads rb rb'"
    by (auto simp: read_long_string_def invalid_stream_def split: if_splits
        dest!: read_number_reads(1) get_buffer_reads(1) intro: reads_trans)
qed

text \<open>A successful read of a value consumes at least its type byte.\<close>

lemma unpack_reads:
  "\<And>v rb'. unpack_one f rb = Ok (v, rb') \<Longrightarrow> reads rb rb' \<and> rlen rb' < rlen rb \<and> 0 < rlen rb"
  "\<And>v rb'. push_value f t c rb = Ok (v, rb') \<Longrightarrow> reads rb rb'"
  "\<And>v rb'. unpack_table f c rb = Ok (v, rb') \<Longrightarrow> reads rb rb'"
  "\<And>vs rb'. unpack_array f n rb = Ok (vs, rb') \<Longrightarrow> reads rb rb'"
  "\<And>ps rb'. unpack_pairs f rb = Ok (ps, rb') \<Longrightarrow> reads rb rb'"
proof (induction f rb and f t c rb and f c rb and f n rb and f rb
    rule: unpack_one_push_value_unpack_table_unpack_array_unpack_pairs.induct)
  case (2 f rb)
  from 2(2) obtain ty rb1 where r: "read_number 528 1 rb = Ok (ty, rb1)" "push_value f (ty mod 8) (ty div 8) rb1 = Ok (v, rb')"
    by auto
  then have b: "reads rb rb1" "rlen rb1 = rlen rb - 1" "1 \<le> rlen rb"
    using read_number_reads(1) [of 528 1 rb] by auto
  have p: "reads rb1 rb'" by (rule 2(1) [OF r(2)])
  then show ?case using b reads_trans [OF b(1) p] by (simp add: reads_def)
next
  case (3 f t c rb)
  show ?case
    using 3 by (auto simp: invalid_stream_def reads_refl split: if_splits
        dest: get_integer_reads(1) get_word_reads(1,3) get_buffer_reads(1) read_long_string_reads(1))
next
  case (4 f c rb)
  from 4(3) obtain n rb1 vs rb2 ps where r: "read_array_size c rb = Ok (n, rb1)"
    "unpack_array f (nat n) rb1 = Ok (vs, rb2)" "unpack_pairs f rb2 = Ok (ps, rb')" by auto
  note a = read_array_size_reads(1) [OF r(1)]
  note b = 4(1) [OF r(2)]
  note c = 4(2) [OF r(3)]
  show ?case by (rule reads_trans [OF a reads_trans [OF b c]])
next
  case (7 f n rb)
  from 7(3) obtain v rb1 ws where r: "unpack_one f rb = Ok (v, rb1)" "unpack_array f n rb1 = Ok (ws, rb')" by auto
  have a: "reads rb rb1" using 7(1) [OF r(1)] by simp
  show ?case by (rule reads_trans [OF a 7(2) [OF r(2)]])
next
  case (9 f rb)
  from 9(4) obtain k rb1 where k: "unpack_one f rb = Ok (k, rb1)" by auto
  have a: "reads rb rb1" using 9(1) [OF k] by simp
  show ?case
  proof (cases "k = LNil")
    case True
    then show ?thesis using 9(4) k a by simp
  next
    case False
    then obtain v rb2 qs where r: "unpack_one f rb1 = Ok (v, rb2)" "\<not> nan_key k" "unpack_pairs f rb2 = Ok (qs, rb')"
      using 9(4) k by (auto split: if_splits)
    have b: "reads rb1 rb2" using 9(2) [OF False r(1)] by simp
    show ?thesis by (rule reads_trans [OF reads_trans [OF a b] 9(3) [OF False r(2,3)]])
  qed
qed (auto simp: reads_refl)

lemma unpack_fuel:
  "2 * nat (rlen rb) + 1 \<le> f \<Longrightarrow> unpack_one f rb \<noteq> Out_of_fuel"
  "2 * nat (rlen rb) + 2 \<le> f \<Longrightarrow> push_value f t c rb \<noteq> Out_of_fuel"
  "2 * nat (rlen rb) + 2 \<le> f \<Longrightarrow> unpack_table f c rb \<noteq> Out_of_fuel"
  "2 * nat (rlen rb) + 2 \<le> f \<Longrightarrow> unpack_array f n rb \<noteq> Out_of_fuel"
  "2 * nat (rlen rb) + 2 \<le> f \<Longrightarrow> unpack_pairs f rb \<noteq> Out_of_fuel"
proof (induction f rb and f t c rb and f c rb and f n rb and f rb
    rule: unpack_one_push_value_unpack_table_unpack_array_unpack_pairs.induct)
  case (2 f rb)
  show ?case
  proof
    assume "unpack_one (Suc f) rb = Out_of_fuel"
    then obtain ty rb1 where r: "read_number 528 1 rb = Ok (ty, rb1)" "push_value f (ty mod 8) (ty div 8) rb1 = Out_of_fuel"
      by (auto simp: read_number_reads(2))
    then have b: "rlen rb1 = rlen rb - 1" "1 \<le> rlen rb" using read_number_reads(1) [of 528 1 rb] by auto
    have "2 * nat (rlen rb1) + 2 \<le> f" using 2(2) b by linarith
    then show False using 2(1) r(2) by blast
  qed
next
  case (3 f t c rb)
  show ?case
    using 3 by (auto simp: invalid_stream_def get_integer_reads(2) get_word_reads(2,4) get_buffer_reads(2) read_long_string_reads(2))
next
  case (4 f c rb)
  show ?case
  proof
    assume "unpack_table f c rb = Out_of_fuel"
    then obtain n rb1 where n: "read_array_size c rb = Ok (n, rb1)"
      and r: "unpack_array f (nat n) rb1 = Out_of_fuel \<or>
        (\<exists>vs rb2. unpack_array f (nat n) rb1 = Ok (vs, rb2) \<and> unpack_pairs f rb2 = Out_of_fuel)"
      by (auto simp: read_array_size_reads(2))
    have b: "2 * nat (rlen rb1) + 2 \<le> f" using read_array_size_reads(1) [OF n] 4(3) by (auto simp: reads_def)
    then obtain vs rb2 where r2: "unpack_array f (nat n) rb1 = Ok (vs, rb2)" "unpack_pairs f rb2 = Out_of_fuel"
      using r 4(1) [OF b] by blast
    have "2 * nat (rlen rb2) + 2 \<le> f" using unpack_reads(4) [OF r2(1)] b by (auto simp: reads_def)
    then show False using 4(2) r2(2) by blast
  qed
next
  case (6 n rb)
  then show ?case by simp
next
  case (7 f n rb)
  have one: "unpack_one f rb \<noteq> Out_of_fuel" using 7(1,3) by simp
  show ?case
  proof
    assume "unpack_array (Suc f) (Suc n) rb = Out_of_fuel"
    then obtain v rb1 where r: "unpack_one f rb = Ok (v, rb1)" "unpack_array f n rb1 = Out_of_fuel" using one by auto
    have "2 * nat (rlen rb1) + 2 \<le> f" using unpack_reads(1) [OF r(1)] 7(3) by linarith
    then show False using 7(2) r(2) by blast
  qed
next
  case (9 f rb)
  have one: "unpack_one f rb \<noteq> Out_of_fuel" using 9(1,4) by simp
  show ?case
  proof
    assume u: "unpack_pairs (Suc f) rb = Out_of_fuel"
    then obtain k rb1 where k: "unpack_one f rb = Ok (k, rb1)" "k \<noteq> LNil" using one by (auto split: if_splits)
    have b: "2 * nat (rlen rb1) + 2 \<le> f" using unpack_reads(1) [OF k(1)] 9(4) by linarith
    then have "unpack_one f rb1 \<noteq> Out_of_fuel" using 9(2) [OF k(2)] by simp
    then obtain v rb2 where r: "unpack_one f rb1 = Ok (v, rb2)" "\<not> nan_key k" "unpack_pairs f rb2 = Out_of_fuel"
      using u k by (auto split: if_splits)
    have "2 * nat (rlen rb2) + 2 \<le> f" using unpack_reads(1) [OF r(1)] b by linarith
    then show False using 9(3) [OF k(2) r(2)] r(3) by blast
  qed
qed simp_all

lemma unpack_inside:
  "inside rb \<Longrightarrow> unpack_one f rb \<noteq> Crash"
  "inside rb \<Longrightarrow> push_value f t c rb \<noteq> Crash"
  "inside rb \<Longrightarrow> unpack_table f c rb \<noteq> Crash"
  "inside rb \<Longrightarrow> unpack_array f n rb \<noteq> Crash"
  "inside rb \<Longrightarrow> unpack_pairs f rb \<noteq> Crash"
proof (induction f rb and f t c rb and f c rb and f n rb and f rb
    rule: unpack_one_push_value_unpack_table_unpack_array_unpack_pairs.induct)
  case (2 f rb)
  show ?case
  proof
    assume "unpack_one (Suc f) rb = Crash"
    then obtain ty rb1 where r: "read_number 528 1 rb = Ok (ty, rb1)" "push_value f (ty mod 8) (ty div 8) rb1 = Crash"
      by (auto simp: read_number_reads(3) [OF 2(2)] and_then_Crash_iff)
    have "inside rb1" using read_number_reads(1) [OF r(1)] reads_inside 2(2) by blast
    then show False using 2(1) r(2) by blast
  qed
next
  case (3 f t c rb)
  show ?case
    using 3 by (auto simp: invalid_stream_def get_integer_reads(3) get_word_reads(5,6) get_buffer_reads(3)
        read_long_string_reads(3) and_then_Crash_iff)
next
  case (4 f c rb)
  show ?case
  proof
    assume "unpack_table f c rb = Crash"
    then obtain n rb1 where n: "read_array_size c rb = Ok (n, rb1)"
      and r: "unpack_array f (nat n) rb1 = Crash \<or>
        (\<exists>vs rb2. unpack_array f (nat n) rb1 = Ok (vs, rb2) \<and> unpack_pairs f rb2 = Crash)"
      using read_array_size_reads(3) [OF 4(3)] by (auto simp: and_then_Crash_iff)
    have b: "inside rb1" by (rule reads_inside [OF read_array_size_reads(1) [OF n] 4(3)])
    then obtain vs rb2 where r2: "unpack_array f (nat n) rb1 = Ok (vs, rb2)" "unpack_pairs f rb2 = Crash"
      using r 4(1) [OF b] by blast
    then show False using 4(2) reads_inside [OF unpack_reads(4) [OF r2(1)] b] by blast
  qed
next
  case (7 f n rb)
  show ?case
  proof
    assume "unpack_array (Suc f) (Suc n) rb = Crash"
    then obtain v rb1 where r: "unpack_one f rb = Ok (v, rb1)" "unpack_array f n rb1 = Crash"
      using 7(1) [OF 7(3)] by (auto simp: and_then_Crash_iff)
    then show False using 7(2) reads_inside [OF _ 7(3)] unpack_reads(1) [OF r(1)] by blast
  qed
next
  case (9 f rb)
  show ?case
  proof
    assume u: "unpack_pairs (Suc f) rb = Crash"
    then obtain k rb1 where k: "unpack_one f rb = Ok (k, rb1)" "k \<noteq> LNil"
      using 9(1) [OF 9(4)] by (auto simp: and_then_Crash_iff split: if_splits)
    have b: "inside rb1" using unpack_reads(1) [OF k(1)] reads_inside 9(4) by blast
    then obtain v rb2 where r: "unpack_one f rb1 = Ok (v, rb2)" "\<not> nan_key k" "unpack_pairs f rb2 = Crash"
      using u k 9(2) [OF k(2) b] by (auto simp: and_then_Crash_iff split: if_splits)
    then show False using 9(3) [OF k(2) r(2)] reads_inside [OF _ b] unpack_reads(1) [OF r(1)] by blast
  qed
qed simp_all

lemma unpack_all_ends:
  "inside rb \<Longrightarrow> 2 * nat (rlen rb) + 2 \<le> f \<Longrightarrow> unpack_all f rb \<noteq> Out_of_fuel \<and> unpack_all f rb \<noteq> Crash"
proof (induction f arbitrary: rb)
  case (Suc f)
  show ?case
  proof (cases "1 \<le> rlen rb")
    case False
    then show ?thesis by (simp add: rb_read_def)
  next
    case True
    let ?rb = "rb\<lparr>rptr := rptr rb + 1, rlen := rlen rb - 1\<rparr>"
    have i: "inside ?rb" "2 * nat (rlen ?rb) + 2 \<le> f" using Suc.prems True by (auto simp: inside_def)
    have "nat (rptr rb) + 1 \<le> length (rbuffer rb)" "0 \<le> rptr rb" using Suc.prems(1) True by (auto simp: inside_def)
    then obtain bs where f: "fetch (rptr rb) 1 ?rb = Ok bs" by (simp add: fetch_def)
    let ?p = "push_value f (le_value bs mod 8) (le_value bs div 8) ?rb"
    have "?p \<noteq> Out_of_fuel" "?p \<noteq> Crash" using unpack_fuel(2) [OF i(2)] unpack_inside(2) [OF i(1)] by blast+
    moreover have "unpack_all f rb2 \<noteq> Out_of_fuel \<and> unpack_all f rb2 \<noteq> Crash" if "?p = Ok (v, rb2)" for v rb2
    proof (rule Suc.IH)
      show "inside rb2" by (rule reads_inside [OF unpack_reads(2) [OF that] i(1)])
      show "2 * nat (rlen rb2) + 2 \<le> f" using unpack_reads(2) [OF that] i(2) by (auto simp: reads_def)
    qed
    ultimately show ?thesis using True f by (auto simp: rb_read_def and_then_Crash_iff)
  qed
qed simp

text \<open>(C13) Unpacking ends on every input, as values or as a Lua error, and stays within the bytes it was
  given: for every string, of whatever length, and for every pointer with a length, also a negative one, that does
  not exceed the block; whatever the bytes are, the nesting of tables and the announced sizes
  notwithstanding. Fuel of twice the number of bytes and two is never used up. (The fuel also bounds the nesting of
  the reader; that the code has no limit for it on the C stack is outside of the model.)\<close>

theorem seri_unpack_ends:
  assumes "case a of No_arg \<Rightarrow> True | Str_arg s \<Rightarrow> 2 * length s + 2 \<le> f
    | Ptr_arg None len \<Rightarrow> True | Ptr_arg (Some s) len \<Rightarrow> len \<le> int (length s) \<and> 2 * nat len + 2 \<le> f"
  shows "luaseri_unpack f a \<noteq> Out_of_fuel \<and> luaseri_unpack f a \<noteq> Crash"
proof -
  have *: "unpack_all f (rball_init s len) \<noteq> Out_of_fuel \<and> unpack_all f (rball_init s len) \<noteq> Crash"
    if "len \<le> int (length s)" "2 * nat len + 2 \<le> f" for s len
    by (rule unpack_all_ends) (use that in \<open>simp_all add: inside_def rball_init_def\<close>)
  show ?thesis
  proof (cases a)
    case (Str_arg s)
    have "int_of_size (length s) \<le> int (length s)" by (rule int_of_size_le)
    then have "nat (int_of_size (length s)) \<le> length s" by simp
    then have "2 * nat (int_of_size (length s)) + 2 \<le> f" using assms Str_arg by simp
    from * [OF int_of_size_le this] show ?thesis by (simp add: Str_arg luaseri_unpack_def Let_def)
  next
    case (Ptr_arg b len)
    then show ?thesis using * [of len] assms by (cases b) (simp_all add: luaseri_unpack_def)
  qed (simp add: luaseri_unpack_def)
qed

text \<open>A long string whose announced length has its top bit set becomes a negative \<^verbatim>\<open>int\<close>: it passes the
  bound check of \<^verbatim>\<open>rb_read\<close>, which moves the read position backwards, and ends in an error of Lua that does
  not speak of the stream.\<close>

lemma seri_unpack_huge_string:
  assumes "bit (b3 :: byte) 7" "2 \<le> f"
  shows "unpack_all f (reader [] (37 # b0 # b1 # b2 # b3 # rest)) = Err ''memory allocation error: block too big''"
proof -
  obtain g where f: "f = Suc g" using assms(2) by (cases f) auto
  let ?n = "le_value [b0, b1, b2, b3]"
  have b: "unat b < 256" for b :: byte using unsigned_less [where ?'b = 8 and ?'a = nat and w = b] by simp
  have top: "128 \<le> unat b3"
  proof (rule ccontr)
    assume "\<not> 128 \<le> unat b3"
    then have "\<not> bit (unat b3) 7" by (simp add: bit_iff_odd)
    then show False using assms(1) by (simp add: bit_unsigned_iff)
  qed
  have n: "2 ^ 31 \<le> ?n" "?n < 2 ^ 32" using top le_value_less [of "[b0, b1, b2, b3]"] by simp_all
  then have "int_of_size ?n < 0" using int_of_size_wraps [of ?n] by blast
  then have "get_buffer (int_of_size ?n) (reader [37, b0, b1, b2, b3] rest) = Err ''memory allocation error: block too big''"
    by (simp add: get_buffer_def rb_read_def reader_def)
  moreover have "read_number 504 4 (reader [37] ([b0, b1, b2, b3] @ rest)) = Ok (?n, reader [37, b0, b1, b2, b3] rest)"
    by (subst read_number_reader) simp_all
  ultimately have "push_value g 5 4 (reader [37] (b0 # b1 # b2 # b3 # rest)) = Err ''memory allocation error: block too big''"
    by (simp add: seri_consts read_long_string_def del: le_value.simps)
  then show ?thesis unfolding f unpack_all_step unpack_one_reader by simp
qed

section \<open>Witnesses\<close>

text \<open>A table with an array part, a string key, a nested table and a table with \<^verbatim>\<open>__pairs\<close>.\<close>

definition sample_values :: "lua list" where
  "sample_values =
     [LTable [LInteger 300, LNil, LString [65, 66]]
        [(LInteger 1, LInteger 300), (LInteger 3, LString [65, 66]), (LString [107], LTable [] []), (LBoolean True, LInteger 70000)],
      LPairs [(LNumber 7, LUserdata 9)], LNil]"

lemma sample_values_ok: "message_ok sample_values" "\<forall>v \<in> set sample_values. packable 0 v"
  "length (concat (map enc sample_values)) = 40"
  by (simp_all add: message_ok_def sample_values_def hash_pairs_def meta_pairs_def array_key_def enc_header_def enc_integer_def
      enc_string_def MAX_DEPTH_def nan_key_def)

theorem seri_roundtrip_witness:
  "\<exists>bs. luaseri_pack sample_values = Ok bs \<and> luaseri_unpack 100 (Str_arg bs) =
    Ok [LTable [LInteger 300, LNil, LString [65, 66]] [(LString [107], LTable [] []), (LBoolean True, LInteger 70000)],
        LTable [] [(LNumber 7, LUserdata 9)], LNil]"
proof -
  have "map plain sample_values =
    [LTable [LInteger 300, LNil, LString [65, 66]] [(LString [107], LTable [] []), (LBoolean True, LInteger 70000)],
        LTable [] [(LNumber 7, LUserdata 9)], LNil]"
    by (simp add: sample_values_def hash_pairs_def meta_pairs_def array_key_def)
  then show ?thesis using seri_roundtrip [OF sample_values_ok(1,2), of 100] sample_values_ok(3) by auto
qed

theorem seri_pack_exact_witness:
  "luaseri_pack [LInteger 5, LOther ''function''] \<noteq> Ok [18, 5] \<and> luaseri_pack [LBoolean True, LNil] = Ok [9, 0]"
  using seri_pack_exact [of "[LInteger 5, LOther ''function'']" "[18, 5]"]
    seri_pack_exact [of "[LBoolean True, LNil]" "[9, 0]"] by (simp add: MAX_DEPTH_def)

theorem seri_unpack_ends_witness:
  "luaseri_unpack 20 (Ptr_arg (Some [254, 50, 0, 0, 255, 7]) 5) \<noteq> Out_of_fuel \<and>
   luaseri_unpack 20 (Ptr_arg (Some [254, 50, 0, 0, 255, 7]) 5) \<noteq> Crash"
  by (rule seri_unpack_ends) simp

end
