(* ===== verification/Des.thy ===== *)
theory Des
  imports Outcome
begin

text \<open>
  The DES cipher of \<^verbatim>\<open>src/ztask/lualib/lua-crypt.c\<close>: key schedule, block function and the
  Lua functions \<^verbatim>\<open>desencode\<close> and \<^verbatim>\<open>desdecode\<close> with their padding. The tables are those of the
  source. Decoding inverts encoding because each exchange of bits of the initial permutation is
  an involution and because the rounds form a Feistel network; neither depends on the tables.

  A Lua string is a list of bytes. A size of 2^31 or more does not fit the \<^verbatim>\<open>int\<close> counters of
  the source; the functions then stand for no behaviour and give \<open>Crash\<close>.
\<close>

section \<open>Tables\<close>

definition SB1 :: "u32 list" where
  "SB1 = [
     0x01010400, 0x00000000, 0x00010000, 0x01010404,
     0x01010004, 0x00010404, 0x00000004, 0x00010000,
     0x00000400, 0x01010400, 0x01010404, 0x00000400,
     0x01000404, 0x01010004, 0x01000000, 0x00000004,
     0x00000404, 0x01000400, 0x01000400, 0x00010400,
     0x00010400, 0x01010000, 0x01010000, 0x01000404,
     0x00010004, 0x01000004, 0x01000004, 0x00010004,
     0x00000000, 0x00000404, 0x00010404, 0x01000000,
     0x00010000, 0x01010404, 0x00000004, 0x01010000,
     0x01010400, 0x01000000, 0x01000000, 0x00000400,
     0x01010004, 0x00010000, 0x00010400, 0x01000004,
     0x00000400, 0x00000004, 0x01000404, 0x00010404,
     0x01010404, 0x00010004, 0x01010000, 0x01000404,
     0x01000004, 0x00000404, 0x00010404, 0x01010400,
     0x00000404, 0x01000400, 0x01000400, 0x00000000,
     0x00010004, 0x00010400, 0x00000000, 0x01010004]"

definition SB2 :: "u32 list" where
  "SB2 = [
     0x80108020, 0x80008000, 0x00008000, 0x00108020,
     0x00100000, 0x00000020, 0x80100020, 0x80008020,
     0x80000020, 0x80108020, 0x80108000, 0x80000000,
     0x80008000, 0x00100000, 0x00000020, 0x80100020,
     0x00108000, 0x00100020, 0x80008020, 0x00000000,
     0x80000000, 0x00008000, 0x00108020, 0x80100000,
     0x00100020, 0x80000020, 0x00000000, 0x00108000,
     0x00008020, 0x80108000, 0x80100000, 0x00008020,
     0x00000000, 0x00108020, 0x80100020, 0x00100000,
     0x80008020, 0x80100000, 0x80108000, 0x00008000,
     0x80100000, 0x80008000, 0x00000020, 0x80108020,
     0x00108020, 0x00000020, 0x00008000, 0x80000000,
     0x00008020, 0x80108000, 0x00100000, 0x80000020,
     0x00100020, 0x80008020, 0x80000020, 0x00100020,
     0x00108000, 0x00000000, 0x80008000, 0x00008020,
     0x80000000, 0x80100020, 0x80108020, 0x00108000]"

definition SB3 :: "u32 list" where
  "SB3 = [
     0x00000208, 0x08020200, 0x00000000, 0x08020008,
     0x08000200, 0x00000000, 0x00020208, 0x08000200,
     0x00020008, 0x08000008, 0x08000008, 0x00020000,
     0x08020208, 0x00020008, 0x08020000, 0x00000208,
     0x08000000, 0x00000008, 0x08020200, 0x00000200,
     0x00020200, 0x08020000, 0x08020008, 0x00020208,
     0x08000208, 0x00020200, 0x00020000, 0x08000208,
     0x00000008, 0x08020208, 0x00000200, 0x08000000,
     0x08020200, 0x08000000, 0x00020008, 0x00000208,
     0x00020000, 0x08020200, 0x08000200, 0x00000000,
     0x00000200, 0x00020008, 0x08020208, 0x08000200,
     0x08000008, 0x00000200, 0x00000000, 0x08020008,
     0x08000208, 0x00020000, 0x08000000, 0x08020208,
     0x00000008, 0x00020208, 0x00020200, 0x08000008,
     0x08020000, 0x08000208, 0x00000208, 0x08020000,
     0x00020208, 0x00000008, 0x08020008, 0x00020200]"

definition SB4 :: "u32 list" where
  "SB4 = [
     0x00802001, 0x00002081, 0x00002081, 0x00000080,
     0x00802080, 0x00800081, 0x00800001, 0x00002001,
     0x00000000, 0x00802000, 0x00802000, 0x00802081,
     0x00000081, 0x00000000, 0x00800080, 0x00800001,
     0x00000001, 0x00002000, 0x00800000, 0x00802001,
     0x00000080, 0x00800000, 0x00002001, 0x00002080,
     0x00800081, 0x00000001, 0x00002080, 0x00800080,
     0x00002000, 0x00802080, 0x00802081, 0x00000081,
     0x00800080, 0x00800001, 0x00802000, 0x00802081,
     0x00000081, 0x00000000, 0x00000000, 0x00802000,
     0x00002080, 0x00800080, 0x00800081, 0x00000001,
     0x00802001, 0x00002081, 0x00002081, 0x00000080,
     0x00802081, 0x00000081, 0x00000001, 0x00002000,
     0x00800001, 0x00002001, 0x00802080, 0x00800081,
     0x00002001, 0x00002080, 0x00800000, 0x00802001,
     0x00000080, 0x00800000, 0x00002000, 0x00802080]"

definition SB5 :: "u32 list" where
  "SB5 = [
     0x00000100, 0x02080100, 0x02080000, 0x42000100,
     0x00080000, 0x00000100, 0x40000000, 0x02080000,
     0x40080100, 0x00080000, 0x02000100, 0x40080100,
     0x42000100, 0x42080000, 0x00080100, 0x40000000,
     0x02000000, 0x40080000, 0x40080000, 0x00000000,
     0x40000100, 0x42080100, 0x42080100, 0x02000100,
     0x42080000, 0x40000100, 0x00000000, 0x42000000,
     0x02080100, 0x02000000, 0x42000000, 0x00080100,
     0x00080000, 0x42000100, 0x00000100, 0x02000000,
     0x40000000, 0x02080000, 0x42000100, 0x40080100,
     0x02000100, 0x40000000, 0x42080000, 0x02080100,
     0x40080100, 0x00000100, 0x02000000, 0x42080000,
     0x42080100, 0x00080100, 0x42000000, 0x42080100,
     0x02080000, 0x00000000, 0x40080000, 0x42000000,
     0x00080100, 0x02000100, 0x40000100, 0x00080000,
     0x00000000, 0x40080000, 0x02080100, 0x40000100]"

definition SB6 :: "u32 list" where
  "SB6 = [
     0x20000010, 0x20400000, 0x00004000, 0x20404010,
     0x20400000, 0x00000010, 0x20404010, 0x00400000,
     0x20004000, 0x00404010, 0x00400000, 0x20000010,
     0x00400010, 0x20004000, 0x20000000, 0x00004010,
     0x00000000, 0x00400010, 0x20004010, 0x00004000,
     0x00404000, 0x20004010, 0x00000010, 0x20400010,
     0x20400010, 0x00000000, 0x00404010, 0x20404000,
     0x00004010, 0x00404000, 0x20404000, 0x20000000,
     0x20004000, 0x00000010, 0x20400010, 0x00404000,
     0x20404010, 0x00400000, 0x00004010, 0x20000010,
     0x00400000, 0x20004000, 0x20000000, 0x00004010,
     0x20000010, 0x20404010, 0x00404000, 0x20400000,
     0x00404010, 0x20404000, 0x00000000, 0x20400010,
     0x00000010, 0x00004000, 0x20400000, 0x00404010,
     0x00004000, 0x00400010, 0x20004010, 0x00000000,
     0x20404000, 0x20000000, 0x00400010, 0x20004010]"

definition SB7 :: "u32 list" where
  "SB7 = [
     0x00200000, 0x04200002, 0x04000802, 0x00000000,
     0x00000800, 0x04000802, 0x00200802, 0x04200800,
     0x04200802, 0x00200000, 0x00000000, 0x04000002,
     0x00000002, 0x04000000, 0x04200002, 0x00000802,
     0x04000800, 0x00200802, 0x00200002, 0x04000800,
     0x04000002, 0x04200000, 0x04200800, 0x00200002,
     0x04200000, 0x00000800, 0x00000802, 0x04200802,
     0x00200800, 0x00000002, 0x04000000, 0x00200800,
     0x04000000, 0x00200800, 0x00200000, 0x04000802,
     0x04000802, 0x04200002, 0x04200002, 0x00000002,
     0x00200002, 0x04000000, 0x04000800, 0x00200000,
     0x04200800, 0x00000802, 0x00200802, 0x04200800,
     0x00000802, 0x04000002, 0x04200802, 0x04200000,
     0x00200800, 0x00000000, 0x00000002, 0x04200802,
     0x00000000, 0x00200802, 0x04200000, 0x00000800,
     0x04000002, 0x04000800, 0x00000800, 0x00200002]"

definition SB8 :: "u32 list" where
  "SB8 = [
     0x10001040, 0x00001000, 0x00040000, 0x10041040,
     0x10000000, 0x10001040, 0x00000040, 0x10000000,
     0x00040040, 0x10040000, 0x10041040, 0x00041000,
     0x10041000, 0x00041040, 0x00001000, 0x00000040,
     0x10040000, 0x10000040, 0x10001000, 0x00001040,
     0x00041000, 0x00040040, 0x10040040, 0x10041000,
     0x00001040, 0x00000000, 0x00000000, 0x10040040,
     0x10000040, 0x10001000, 0x00041040, 0x00040000,
     0x00041040, 0x00040000, 0x10041000, 0x00001000,
     0x00000040, 0x10040040, 0x00001000, 0x00041040,
     0x10001000, 0x00000040, 0x10000040, 0x10040000,
     0x10040040, 0x10000000, 0x00040000, 0x10001040,
     0x00000000, 0x10041040, 0x00040040, 0x10000040,
     0x10040000, 0x10001000, 0x10001040, 0x00000000,
     0x10041040, 0x00041000, 0x00041000, 0x00001040,
     0x00001040, 0x00040040, 0x10000000, 0x10041000]"

definition LHs :: "u32 list" where
  "LHs = [
     0x00000000, 0x00000001, 0x00000100, 0x00000101,
     0x00010000, 0x00010001, 0x00010100, 0x00010101,
     0x01000000, 0x01000001, 0x01000100, 0x01000101,
     0x01010000, 0x01010001, 0x01010100, 0x01010101]"

definition RHs :: "u32 list" where
  "RHs = [
     0x00000000, 0x01000000, 0x00010000, 0x01010000,
     0x00000100, 0x01000100, 0x00010100, 0x01010100,
     0x00000001, 0x01000001, 0x00010001, 0x01010001,
     0x00000101, 0x01000101, 0x00010101, 0x01010101]"


section \<open>Words and bytes\<close>

definition GET_UINT32 :: "byte list \<Rightarrow> nat \<Rightarrow> u32" where
  "GET_UINT32 b i = push_bit 24 (ucast (b ! i)) OR push_bit 16 (ucast (b ! (i + 1)))
     OR push_bit 8 (ucast (b ! (i + 2))) OR ucast (b ! (i + 3))"

definition PUT_UINT32 :: "u32 \<Rightarrow> byte list" where
  "PUT_UINT32 n = [ucast (drop_bit 24 n), ucast (drop_bit 16 n), ucast (drop_bit 8 n), ucast n]"

section \<open>Permutations\<close>

text \<open>The exchange of bits that \<^verbatim>\<open>DES_IP\<close> and \<^verbatim>\<open>DES_FP\<close> repeat: \<^verbatim>\<open>T = ((A >> n) ^ B) & m; B ^= T;
  A ^= (T << n)\<close>.\<close>

definition bit_swap :: "nat \<Rightarrow> u32 \<Rightarrow> u32 \<Rightarrow> u32 \<Rightarrow> u32 \<times> u32" where
  "bit_swap n m A B = (let T = (drop_bit n A XOR B) AND m in (A XOR push_bit n T, B XOR T))"

definition rol1 :: "u32 \<Rightarrow> u32" where
  "rol1 Y = (push_bit 1 Y OR drop_bit 31 Y) AND 0xFFFFFFFF"

definition ror1 :: "u32 \<Rightarrow> u32" where
  "ror1 X = (push_bit 31 X OR drop_bit 1 X) AND 0xFFFFFFFF"

definition DES_IP :: "u32 \<Rightarrow> u32 \<Rightarrow> u32 \<times> u32" where
  "DES_IP X Y =
     (let (X, Y) = bit_swap 4 0x0F0F0F0F X Y;
          (X, Y) = bit_swap 16 0x0000FFFF X Y;
          (Y, X) = bit_swap 2 0x33333333 Y X;
          (Y, X) = bit_swap 8 0x00FF00FF Y X;
          Y = rol1 Y;
          (X, Y) = bit_swap 0 0xAAAAAAAA X Y;
          X = rol1 X
      in (X, Y))"

definition DES_FP :: "u32 \<Rightarrow> u32 \<Rightarrow> u32 \<times> u32" where
  "DES_FP X Y =
     (let X = ror1 X;
          (X, Y) = bit_swap 0 0xAAAAAAAA X Y;
          Y = ror1 Y;
          (Y, X) = bit_swap 8 0x00FF00FF Y X;
          (Y, X) = bit_swap 2 0x33333333 Y X;
          (X, Y) = bit_swap 16 0x0000FFFF X Y;
          (X, Y) = bit_swap 4 0x0F0F0F0F X Y
      in (X, Y))"

section \<open>Rounds\<close>

definition sbox :: "u32 list \<Rightarrow> u32 \<Rightarrow> u32" where
  "sbox SB T = SB ! unat (T AND 0x3F)"

text \<open>\<^verbatim>\<open>DES_ROUND(X, Y)\<close> with the two subkeys it takes: the new value of \<^verbatim>\<open>Y\<close>.\<close>

definition DES_ROUND :: "u32 \<Rightarrow> u32 \<Rightarrow> u32 \<Rightarrow> u32 \<Rightarrow> u32" where
  "DES_ROUND sk0 sk1 X Y =
     (let T = sk0 XOR X;
          Y = Y XOR (sbox SB8 T XOR sbox SB6 (drop_bit 8 T) XOR sbox SB4 (drop_bit 16 T) XOR sbox SB2 (drop_bit 24 T));
          T = sk1 XOR (push_bit 28 X OR drop_bit 4 X)
      in Y XOR (sbox SB7 T XOR sbox SB5 (drop_bit 8 T) XOR sbox SB3 (drop_bit 16 T) XOR sbox SB1 (drop_bit 24 T)))"

section \<open>Key schedule\<close>

definition half_key :: "u32 list \<Rightarrow> u32 \<Rightarrow> u32" where
  "half_key tab w = tab ! unat (w AND 0xF)"

definition permuted_choice_1 :: "u32 \<Rightarrow> u32 \<Rightarrow> u32 \<times> u32" where
  "permuted_choice_1 X Y =
     (let (Y, X) = bit_swap 4 0x0F0F0F0F Y X;
          (Y, X) = bit_swap 0 0x10101010 Y X;
          X = push_bit 3 (half_key LHs X) OR push_bit 2 (half_key LHs (drop_bit 8 X))
            OR push_bit 1 (half_key LHs (drop_bit 16 X)) OR half_key LHs (drop_bit 24 X)
            OR push_bit 7 (half_key LHs (drop_bit 5 X)) OR push_bit 6 (half_key LHs (drop_bit 13 X))
            OR push_bit 5 (half_key LHs (drop_bit 21 X)) OR push_bit 4 (half_key LHs (drop_bit 29 X));
          Y = push_bit 3 (half_key RHs (drop_bit 1 Y)) OR push_bit 2 (half_key RHs (drop_bit 9 Y))
            OR push_bit 1 (half_key RHs (drop_bit 17 Y)) OR half_key RHs (drop_bit 25 Y)
            OR push_bit 7 (half_key RHs (drop_bit 4 Y)) OR push_bit 6 (half_key RHs (drop_bit 12 Y))
            OR push_bit 5 (half_key RHs (drop_bit 20 Y)) OR push_bit 4 (half_key RHs (drop_bit 28 Y))
      in (X AND 0x0FFFFFFF, Y AND 0x0FFFFFFF))"

definition subkey0 :: "u32 \<Rightarrow> u32 \<Rightarrow> u32" where
  "subkey0 X Y =
     (push_bit 4 X AND 0x24000000) OR (push_bit 28 X AND 0x10000000)
      OR (push_bit 14 X AND 0x08000000) OR (push_bit 18 X AND 0x02080000)
      OR (push_bit 6 X AND 0x01000000) OR (push_bit 9 X AND 0x00200000)
      OR (drop_bit 1 X AND 0x00100000) OR (push_bit 10 X AND 0x00040000)
      OR (push_bit 2 X AND 0x00020000) OR (drop_bit 10 X AND 0x00010000)
      OR (drop_bit 13 Y AND 0x00002000) OR (drop_bit 4 Y AND 0x00001000)
      OR (push_bit 6 Y AND 0x00000800) OR (drop_bit 1 Y AND 0x00000400)
      OR (drop_bit 14 Y AND 0x00000200) OR (Y AND 0x00000100)
      OR (drop_bit 5 Y AND 0x00000020) OR (drop_bit 10 Y AND 0x00000010)
      OR (drop_bit 3 Y AND 0x00000008) OR (drop_bit 18 Y AND 0x00000004)
      OR (drop_bit 26 Y AND 0x00000002) OR (drop_bit 24 Y AND 0x00000001)"

definition subkey1 :: "u32 \<Rightarrow> u32 \<Rightarrow> u32" where
  "subkey1 X Y =
     (push_bit 15 X AND 0x20000000) OR (push_bit 17 X AND 0x10000000)
      OR (push_bit 10 X AND 0x08000000) OR (push_bit 22 X AND 0x04000000)
      OR (drop_bit 2 X AND 0x02000000) OR (push_bit 1 X AND 0x01000000)
      OR (push_bit 16 X AND 0x00200000) OR (push_bit 11 X AND 0x00100000)
      OR (push_bit 3 X AND 0x00080000) OR (drop_bit 6 X AND 0x00040000)
      OR (push_bit 15 X AND 0x00020000) OR (drop_bit 4 X AND 0x00010000)
      OR (drop_bit 2 Y AND 0x00002000) OR (push_bit 8 Y AND 0x00001000)
      OR (drop_bit 14 Y AND 0x00000808) OR (drop_bit 9 Y AND 0x00000400)
      OR (Y AND 0x00000200) OR (push_bit 7 Y AND 0x00000100)
      OR (drop_bit 7 Y AND 0x00000020) OR (drop_bit 3 Y AND 0x00000011)
      OR (push_bit 2 Y AND 0x00000004) OR (drop_bit 21 Y AND 0x00000002)"

definition rotate_half :: "nat \<Rightarrow> u32 \<Rightarrow> u32" where
  "rotate_half i X =
     (if i < 2 \<or> i = 8 \<or> i = 15 then (push_bit 1 X OR drop_bit 27 X) AND 0x0FFFFFFF
      else (push_bit 2 X OR drop_bit 26 X) AND 0x0FFFFFFF)"

text \<open>The loop with \<open>n\<close> rounds to go, that is \<^verbatim>\<open>i = 16 - n\<close>.\<close>

primrec subkeys :: "nat \<Rightarrow> u32 \<Rightarrow> u32 \<Rightarrow> u32 list" where
  "subkeys 0 X Y = []"
| "subkeys (Suc n) X Y =
     (let X = rotate_half (15 - n) X; Y = rotate_half (15 - n) Y
      in subkey0 X Y # subkey1 X Y # subkeys n X Y)"

definition des_main_ks :: "byte list \<Rightarrow> u32 list" where
  "des_main_ks key =
     (let X = GET_UINT32 key 0; Y = GET_UINT32 key 4; (X, Y) = permuted_choice_1 X Y in subkeys 16 X Y)"

section \<open>Blocks\<close>

text \<open>The eight lines of two rounds each.\<close>

fun des_rounds :: "u32 list \<Rightarrow> u32 \<times> u32 \<Rightarrow> u32 \<times> u32" where
  "des_rounds (a # b # c # d # SK) (X, Y) =
     (let X = DES_ROUND a b Y X; Y = DES_ROUND c d X Y in des_rounds SK (X, Y))"
| "des_rounds SK s = s"

definition des_crypt :: "u32 list \<Rightarrow> byte list \<Rightarrow> byte list" where
  "des_crypt SK inp =
     (let X = GET_UINT32 inp 0; Y = GET_UINT32 inp 4;
          (X, Y) = DES_IP X Y;
          (X, Y) = des_rounds SK (X, Y);
          (Y, X) = DES_FP Y X
      in PUT_UINT32 Y @ PUT_UINT32 X)"

section \<open>The Lua functions\<close>

definition des_key :: "byte list \<Rightarrow> u32 list outcome" where
  "des_key key =
     (if length key \<noteq> 8
      then Err (''Invalid key size '' @ fmt_d (sint (of_nat (length key) :: cint)) @ '', need 8 bytes'')
      else Ok (des_main_ks key))"

text \<open>The last block: what is left of the text, the byte 0x80 and zeros.\<close>

definition des_tail :: "byte list \<Rightarrow> byte list" where
  "des_tail txt1 = map (\<lambda>j. if j < length txt1 then txt1 ! j else if j = length txt1 then 0x80 else 0) [0..<8]"

function des_encode_blocks :: "u32 list \<Rightarrow> byte list \<Rightarrow> byte list" where
  "des_encode_blocks SK t =
     (if 8 \<le> length t then des_crypt SK (take 8 t) @ des_encode_blocks SK (drop 8 t)
      else des_crypt SK (des_tail t))"
  by pat_completeness auto
termination by (relation "measure (\<lambda>(SK, t). length t)") auto

declare des_encode_blocks.simps [simp del]

definition ldesencode :: "byte list \<Rightarrow> byte list \<Rightarrow> byte list outcome" where
  "ldesencode key t =
     and_then (des_key key) (\<lambda>SK.
       if 2 ^ 31 \<le> length t + 8 then Crash
       else Ok (take ((length t + 8) div 8 * 8) (des_encode_blocks SK t)))"

definition reverse_keys :: "u32 list \<Rightarrow> u32 list" where
  "reverse_keys ESK = concat (map (\<lambda>i. [ESK ! (30 - 2 * i), ESK ! (31 - 2 * i)]) [0..<16])"

function des_decode_blocks :: "u32 list \<Rightarrow> byte list \<Rightarrow> byte list" where
  "des_decode_blocks SK t =
     (if t = [] then [] else des_crypt SK (take 8 t) @ des_decode_blocks SK (drop 8 t))"
  by pat_completeness auto
termination by (relation "measure (\<lambda>(SK, t). length t)") auto

declare des_decode_blocks.simps [simp del]

text \<open>The loop that counts the padding, at index \<open>i - 1\<close>. Its condition \<^verbatim>\<open>i >= textsz - 8\<close> compares
  the \<^verbatim>\<open>int i\<close> with a \<^verbatim>\<open>size_t\<close>: at index -1 it holds, and the loop reads \<^verbatim>\<open>buffer[-1]\<close>.\<close>

primrec des_padding :: "byte list \<Rightarrow> nat \<Rightarrow> nat \<Rightarrow> nat outcome" where
  "des_padding buffer 0 padding = Crash"
| "des_padding buffer (Suc i) padding =
     (if length buffer - 8 \<le> i
      then if buffer ! i = 0 then des_padding buffer i (padding + 1)
           else if buffer ! i = 0x80 then Ok padding
           else Err ''Invalid des crypt text''
      else Ok padding)"

definition ldesdecode :: "byte list \<Rightarrow> byte list \<Rightarrow> byte list outcome" where
  "ldesdecode key t =
     and_then (des_key key) (\<lambda>ESK.
       let SK = reverse_keys ESK in
       if 2 ^ 31 \<le> length t then Crash
       else if length t mod 8 \<noteq> 0 \<or> length t = 0
       then Err (''Invalid des crypt text length '' @ fmt_d (int (length t)))
       else let buffer = des_decode_blocks SK t in
            and_then (des_padding buffer (length t) 1) (\<lambda>padding.
              if 8 < padding then Err ''Invalid des crypt text''
              else Ok (take (length t - padding) buffer)))"

section \<open>Each step of the permutations can be undone\<close>

lemma bit_swap_twice:
  assumes m: "drop_bit n (push_bit n m) = m"
  shows "(case bit_swap n m A B of (A, B) \<Rightarrow> bit_swap n m A B) = (A, B)"
proof -
  let ?T = "(drop_bit n A XOR B) AND m"
  have k: "k + n < 32" if "bit m k" for k
  proof -
    have "bit (drop_bit n (push_bit n m)) k" using that by (simp only: m)
    then show ?thesis by (simp add: bit_simps)
  qed
  have d: "drop_bit n (push_bit n ?T) = ?T"
    by (rule bit_eqI) (auto simp: bit_simps dest: k)
  have "(drop_bit n (A XOR push_bit n ?T) XOR (B XOR ?T)) AND m = ?T"
    unfolding drop_bit_xor d by (rule bit_eqI) (auto simp: bit_simps)
  then show ?thesis unfolding bit_swap_def Let_def prod.case by (simp add: xor.assoc)
qed

lemma bit_swap_undo:
  "drop_bit n (push_bit n m) = m \<Longrightarrow> bit_swap n m A B = (A', B') \<Longrightarrow> bit_swap n m A' B' = (A, B)"
  using bit_swap_twice [of n m A B] by simp

lemma rotate_back:
  fixes x :: u32
  assumes "n + m = 32"
  shows "push_bit m (push_bit n x OR drop_bit m x) OR drop_bit n (push_bit n x OR drop_bit m x) = x"
  using assms by (intro bit_word_eqI) (auto simp: bit_simps dest: bit_imp_le_length)

lemma rotate_inverse [simp]: "rol1 (ror1 x) = x" "ror1 (rol1 x) = x"
proof -
  have "(0xFFFFFFFF :: u32) = - 1" by simp
  then have m: "w AND 0xFFFFFFFF = w" for w :: u32 by (simp only: and.right_neutral)
  show "rol1 (ror1 x) = x" "ror1 (rol1 x) = x"
    unfolding rol1_def ror1_def m using rotate_back [of 31 1 x] rotate_back [of 1 31 x] by simp_all
qed

lemma DES_IP_FP: "(case DES_FP X Y of (X, Y) \<Rightarrow> DES_IP X Y) = (X, Y)"
proof -
  obtain X1 Y1 where 1: "bit_swap 0 0xAAAAAAAA (ror1 X) Y = (X1, Y1)" by fastforce
  obtain Y2 X2 where 2: "bit_swap 8 0x00FF00FF (ror1 Y1) X1 = (Y2, X2)" by fastforce
  obtain Y3 X3 where 3: "bit_swap 2 0x33333333 Y2 X2 = (Y3, X3)" by fastforce
  obtain X4 Y4 where 4: "bit_swap 16 0x0000FFFF X3 Y3 = (X4, Y4)" by fastforce
  obtain X5 Y5 where 5: "bit_swap 4 0x0F0F0F0F X4 Y4 = (X5, Y5)" by fastforce
  have "DES_FP X Y = (X5, Y5)" by (simp add: DES_FP_def Let_def 1 2 3 4 5)
  moreover have "DES_IP X5 Y5 = (X, Y)"
    using bit_swap_undo [OF _ 1] bit_swap_undo [OF _ 2] bit_swap_undo [OF _ 3] bit_swap_undo [OF _ 4] bit_swap_undo [OF _ 5]
    by (simp add: DES_IP_def Let_def)
  ultimately show ?thesis by simp
qed

lemma DES_FP_IP: "(case DES_IP X Y of (X, Y) \<Rightarrow> DES_FP X Y) = (X, Y)"
proof -
  obtain X1 Y1 where 1: "bit_swap 4 0x0F0F0F0F X Y = (X1, Y1)" by fastforce
  obtain X2 Y2 where 2: "bit_swap 16 0x0000FFFF X1 Y1 = (X2, Y2)" by fastforce
  obtain Y3 X3 where 3: "bit_swap 2 0x33333333 Y2 X2 = (Y3, X3)" by fastforce
  obtain Y4 X4 where 4: "bit_swap 8 0x00FF00FF Y3 X3 = (Y4, X4)" by fastforce
  obtain X5 Y5 where 5: "bit_swap 0 0xAAAAAAAA X4 (rol1 Y4) = (X5, Y5)" by fastforce
  have "DES_IP X Y = (rol1 X5, Y5)" by (simp add: DES_IP_def Let_def 1 2 3 4 5)
  moreover have "DES_FP (rol1 X5) Y5 = (X, Y)"
    using bit_swap_undo [OF _ 1] bit_swap_undo [OF _ 2] bit_swap_undo [OF _ 3] bit_swap_undo [OF _ 4] bit_swap_undo [OF _ 5]
    by (simp add: DES_FP_def Let_def)
  ultimately show ?thesis by simp
qed

section \<open>The rounds are a Feistel network\<close>

definition feistel :: "u32 \<times> u32 \<Rightarrow> u32 \<times> u32 \<Rightarrow> u32 \<times> u32" where
  "feistel k s = (snd s, DES_ROUND (fst k) (snd k) (snd s) (fst s))"

definition swap2 :: "u32 \<times> u32 \<Rightarrow> u32 \<times> u32" where
  "swap2 s = (snd s, fst s)"

lemma DES_ROUND_twice: "DES_ROUND a b X (DES_ROUND a b X Y) = Y"
  by (simp add: DES_ROUND_def Let_def xor.assoc xor.left_commute)

lemma feistel_back: "feistel k (swap2 (feistel k s)) = swap2 s"
  by (simp add: feistel_def swap2_def DES_ROUND_twice)

lemma feistel_inverse: "fold feistel (rev ks) (swap2 (fold feistel ks s)) = swap2 s"
  by (induction ks arbitrary: s) (simp_all add: feistel_back)

definition flat_keys :: "(u32 \<times> u32) list \<Rightarrow> u32 list" where
  "flat_keys ks = concat (map (\<lambda>k. [fst k, snd k]) ks)"

lemma des_rounds_feistel: "even (length ks) \<Longrightarrow> des_rounds (flat_keys ks) s = fold feistel ks s"
proof (induction ks arbitrary: s rule: induct_list012)
  case (3 k k' ks)
  then show ?case by (cases s) (simp add: flat_keys_def feistel_def Let_def)
qed (simp_all add: flat_keys_def)

lemma nth_flat_keys:
  "i < length ks \<Longrightarrow> flat_keys ks ! (2 * i) = fst (ks ! i) \<and> flat_keys ks ! (2 * i + 1) = snd (ks ! i)"
proof (induction ks arbitrary: i)
  case (Cons k ks)
  then show ?case by (cases i) (simp_all add: flat_keys_def)
qed simp

lemma reverse_flat_keys:
  assumes "length ks = 16"
  shows "reverse_keys (flat_keys ks) = flat_keys (rev ks)"
proof -
  have "map (\<lambda>i. (flat_keys ks ! (30 - 2 * i), flat_keys ks ! (31 - 2 * i))) [0..<16] = rev ks"
  proof (rule nth_equalityI)
    fix i assume "i < length (map (\<lambda>i. (flat_keys ks ! (30 - 2 * i), flat_keys ks ! (31 - 2 * i))) [0..<16])"
    then have i: "i < 16" by simp
    have e: "30 - 2 * i = 2 * (15 - i)" "31 - 2 * i = 2 * (15 - i) + 1" using i by auto
    show "map (\<lambda>i. (flat_keys ks ! (30 - 2 * i), flat_keys ks ! (31 - 2 * i))) [0..<16] ! i = rev ks ! i"
      using i assms nth_flat_keys [of "15 - i" ks] by (simp add: e rev_nth del: One_nat_def)
  qed (simp add: assms)
  from arg_cong [OF this, of flat_keys] show ?thesis by (simp add: reverse_keys_def flat_keys_def comp_def)
qed

lemma subkeys_flat: "\<exists>ks. length ks = n \<and> subkeys n X Y = flat_keys ks"
proof (induction n arbitrary: X Y)
  case (Suc n)
  let ?X = "rotate_half (15 - n) X" and ?Y = "rotate_half (15 - n) Y"
  obtain ks where "length ks = n" "subkeys n ?X ?Y = flat_keys ks" using Suc by blast
  then show ?case
    by (intro exI [of _ "(subkey0 ?X ?Y, subkey1 ?X ?Y) # ks"]) (simp add: flat_keys_def Let_def)
qed (simp add: flat_keys_def)

section \<open>Decoding a block inverts encoding it\<close>

lemma length_des_crypt [simp]: "length (des_crypt SK b) = 8"
  by (simp add: des_crypt_def Let_def PUT_UINT32_def split_beta)

lemma des_crypt_nonempty [simp]: "des_crypt SK b \<noteq> []"
  using length_des_crypt [of SK b] by (metis length_0_conv zero_neq_numeral)

lemma bit_GET_UINT32:
  assumes "n < 32"
  shows "bit (GET_UINT32 b i) n = bit (b ! (i + 3 - n div 8)) (n mod 8)"
proof -
  consider "n div 8 = 0" | "n div 8 = 1" | "n div 8 = 2" | "n div 8 = 3" using assms by fastforce
  then show ?thesis
  proof cases
    case 1
    then have "n < 8" by simp
    then show ?thesis by (auto simp: GET_UINT32_def bit_simps)
  next
    case 2
    then have "8 \<le> n" "n < 16" "n mod 8 = n - 8" by (auto simp: modulo_nat_def)
    then show ?thesis using 2 by (auto simp: GET_UINT32_def bit_simps dest: bit_imp_le_length)
  next
    case 3
    then have "16 \<le> n" "n < 24" "n mod 8 = n - 16" by (auto simp: modulo_nat_def)
    then show ?thesis using 3 by (auto simp: GET_UINT32_def bit_simps dest: bit_imp_le_length)
  next
    case 4
    then have "24 \<le> n" "n mod 8 = n - 24" by (auto simp: modulo_nat_def)
    then show ?thesis using 4 assms by (auto simp: GET_UINT32_def bit_simps dest: bit_imp_le_length)
  qed
qed

lemma PUT_nth: "j < 4 \<Longrightarrow> k < 8 \<Longrightarrow> bit (PUT_UINT32 w ! j) k = bit w (8 * (3 - j) + k)"
  by (auto simp: PUT_UINT32_def bit_simps less_Suc_eq numeral_eq_Suc nth_Cons')

lemma GET_PUT: "GET_UINT32 (PUT_UINT32 a @ PUT_UINT32 b) 0 = a" "GET_UINT32 (PUT_UINT32 a @ PUT_UINT32 b) 4 = b"
proof -
  have l: "length (PUT_UINT32 w) = 4" for w by (simp add: PUT_UINT32_def)
  show "GET_UINT32 (PUT_UINT32 a @ PUT_UINT32 b) 0 = a"
  proof (rule bit_word_eqI)
    fix n assume n: "n < LENGTH(32)"
    have "3 - n div 8 < 4" "n div 8 \<le> 3" using n by auto
    then show "bit (GET_UINT32 (PUT_UINT32 a @ PUT_UINT32 b) 0) n = bit a n"
      using n by (simp add: bit_GET_UINT32 nth_append l PUT_nth)
  qed
  show "GET_UINT32 (PUT_UINT32 a @ PUT_UINT32 b) 4 = b"
  proof (rule bit_word_eqI)
    fix n assume n: "n < LENGTH(32)"
    then have "4 + 3 - n div 8 - 4 = 3 - n div 8" "\<not> 4 + 3 - n div 8 < 4" by auto
    then show "bit (GET_UINT32 (PUT_UINT32 a @ PUT_UINT32 b) 4) n = bit b n"
      using n by (simp add: bit_GET_UINT32 nth_append l PUT_nth)
  qed
qed

lemma PUT_GET:
  assumes "length b = 8"
  shows "PUT_UINT32 (GET_UINT32 b 0) @ PUT_UINT32 (GET_UINT32 b 4) = b"
proof (rule nth_equalityI)
  have l: "length (PUT_UINT32 w) = 4" for w by (simp add: PUT_UINT32_def)
  then show "length (PUT_UINT32 (GET_UINT32 b 0) @ PUT_UINT32 (GET_UINT32 b 4)) = length b" using assms by simp
  fix j assume "j < length (PUT_UINT32 (GET_UINT32 b 0) @ PUT_UINT32 (GET_UINT32 b 4))"
  then have j: "j < 8" by (simp add: l)
  show "(PUT_UINT32 (GET_UINT32 b 0) @ PUT_UINT32 (GET_UINT32 b 4)) ! j = b ! j"
  proof (rule bit_word_eqI)
    fix k assume "k < LENGTH(8)"
    then have k: "k < 8" by simp
    show "bit ((PUT_UINT32 (GET_UINT32 b 0) @ PUT_UINT32 (GET_UINT32 b 4)) ! j) k = bit (b ! j) k"
    proof (cases "j < 4")
      case True
      then show ?thesis using k by (simp add: nth_append l PUT_nth bit_GET_UINT32)
    next
      case False
      then have "j - 4 < 4" using j by simp
      then show ?thesis using False k j by (simp add: nth_append l PUT_nth bit_GET_UINT32)
    qed
  qed
qed

lemma des_crypt_inverse:
  assumes "length ks = 16" "length b = 8"
  shows "des_crypt (flat_keys (rev ks)) (des_crypt (flat_keys ks) b) = b"
    "des_crypt (flat_keys ks) (des_crypt (flat_keys (rev ks)) b) = b"
proof -
  have inv: "des_crypt (flat_keys (rev ls)) (des_crypt (flat_keys ls) b) = b" if "length ls = 16" for ls
  proof -
    obtain X Y where ip: "DES_IP (GET_UINT32 b 0) (GET_UINT32 b 4) = (X, Y)" by fastforce
    obtain X1 Y1 where r: "fold feistel ls (X, Y) = (X1, Y1)" by fastforce
    obtain P Q where fp: "DES_FP Y1 X1 = (P, Q)" by fastforce
    have e: "even (length ls)" "even (length (rev ls))" using that by simp_all
    have c: "des_crypt (flat_keys ls) b = PUT_UINT32 P @ PUT_UINT32 Q"
      by (simp add: des_crypt_def Let_def ip des_rounds_feistel [OF e(1)] r fp)
    have "DES_IP P Q = (Y1, X1)" using DES_IP_FP [of Y1 X1] fp by simp
    moreover have "fold feistel (rev ls) (Y1, X1) = (Y, X)"
      using feistel_inverse [of ls "(X, Y)"] by (simp add: r swap2_def)
    moreover have "DES_FP X Y = (GET_UINT32 b 0, GET_UINT32 b 4)"
      using DES_FP_IP [of "GET_UINT32 b 0" "GET_UINT32 b 4"] ip by simp
    ultimately show ?thesis
      unfolding c by (simp add: des_crypt_def Let_def GET_PUT des_rounds_feistel [OF e(2)] PUT_GET [OF assms(2)])
  qed
  show "des_crypt (flat_keys (rev ks)) (des_crypt (flat_keys ks) b) = b" by (rule inv [OF assms(1)])
  show "des_crypt (flat_keys ks) (des_crypt (flat_keys (rev ks)) b) = b" using inv [of "rev ks"] assms(1) by simp
qed

lemma des_keys_inverse:
  fixes key
  defines "ESK \<equiv> des_main_ks key"
  assumes "length b = 8"
  shows "des_crypt (reverse_keys ESK) (des_crypt ESK b) = b"
    "des_crypt ESK (des_crypt (reverse_keys ESK) b) = b"
proof -
  obtain X Y where "ESK = subkeys 16 X Y" by (simp add: ESK_def des_main_ks_def Let_def split_beta)
  then obtain ks where ks: "length ks = 16" "ESK = flat_keys ks" using subkeys_flat by metis
  show "des_crypt (reverse_keys ESK) (des_crypt ESK b) = b" "des_crypt ESK (des_crypt (reverse_keys ESK) b) = b"
    using des_crypt_inverse [OF ks(1) assms(2)] by (simp_all add: ks reverse_flat_keys)
qed

section \<open>Whole texts\<close>

lemma des_tail_split:
  assumes "length t < 8"
  shows "des_tail t = t @ 0x80 # replicate (7 - length t) 0"
  by (rule nth_equalityI) (use assms in \<open>auto simp: des_tail_def nth_append nth_Cons' \<close>)

lemma des_blocks_inverse:
  assumes inv: "\<And>b. length b = 8 \<Longrightarrow> des_crypt SK' (des_crypt SK b) = b"
  shows "length (des_encode_blocks SK t) = (length t + 8) div 8 * 8 \<and>
    des_decode_blocks SK' (des_encode_blocks SK t) = t @ 0x80 # replicate (7 - length t mod 8) 0"
proof (induction "length t" arbitrary: t rule: less_induct)
  case less
  show ?case
  proof (cases "8 \<le> length t")
    case True
    let ?r = "des_encode_blocks SK (drop 8 t)"
    have ih: "length ?r = (length t - 8 + 8) div 8 * 8"
      "des_decode_blocks SK' ?r = drop 8 t @ 0x80 # replicate (7 - (length t - 8) mod 8) 0"
      using less [of "drop 8 t"] True by simp_all
    have e: "des_encode_blocks SK t = des_crypt SK (take 8 t) @ ?r"
      using True by (subst des_encode_blocks.simps) simp
    have "des_decode_blocks SK' (des_crypt SK (take 8 t) @ ?r) = take 8 t @ des_decode_blocks SK' ?r"
      using True inv [of "take 8 t"] by (subst des_decode_blocks.simps) simp
    moreover have "(length t - 8) mod 8 = length t mod 8" using True by (simp add: mod_if)
    ultimately show ?thesis unfolding e using True ih by (simp add: div_if)
  next
    case False
    then have e: "des_encode_blocks SK t = des_crypt SK (des_tail t)" by (subst des_encode_blocks.simps) simp
    have l: "length (des_tail t) = 8" by (simp add: des_tail_def)
    have "des_decode_blocks SK' (des_crypt SK (des_tail t)) = des_tail t"
      using inv [OF l] by (subst des_decode_blocks.simps; subst des_decode_blocks.simps) simp
    then show ?thesis unfolding e using False by (simp add: des_tail_split)
  qed
qed

lemma des_padding_zeros:
  assumes "j \<le> 8" "length buffer \<le> i + 8" "j \<le> i" "\<And>m. i - j \<le> m \<Longrightarrow> m < i \<Longrightarrow> buffer ! m = 0" "length buffer \<le> i - j + 8"
  shows "des_padding buffer i p = des_padding buffer (i - j) (p + j)"
  using assms
proof (induction j arbitrary: i p)
  case (Suc j)
  then obtain i' where i: "i = Suc i'" by (cases i) auto
  have "buffer ! i' = 0" using Suc.prems i by simp
  moreover have "length buffer - 8 \<le> i'" using Suc.prems i by simp
  ultimately have "des_padding buffer i p = des_padding buffer i' (p + 1)" by (simp add: i)
  also have "\<dots> = des_padding buffer (i' - j) (p + 1 + j)" using Suc.prems i by (intro Suc.IH) auto
  finally show ?case by (simp add: i)
qed simp

lemma des_padding_text:
  fixes t z
  defines "buffer \<equiv> t @ 0x80 # replicate z 0"
  assumes "z \<le> 7"
  shows "des_padding buffer (length buffer) 1 = Ok (1 + z)"
proof -
  have "des_padding buffer (length buffer) 1 = des_padding buffer (length buffer - z) (1 + z)"
    by (rule des_padding_zeros) (use assms in \<open>auto simp: nth_append nth_Cons'\<close>)
  also have "length buffer - z = Suc (length t)" by (simp add: buffer_def)
  finally show ?thesis using assms by (simp add: nth_append)
qed

lemma round_up_8: "(n + 8) div 8 * 8 = n + Suc (7 - n mod 8)" for n :: nat
  by presburger

text \<open>(C14) \<^verbatim>\<open>desdecode\<close> with the key of \<^verbatim>\<open>desencode\<close> gives the text back, for any key of 8 bytes and any
  text whose padded length fits an \<^verbatim>\<open>int\<close> (\<open>length t + 8 < 2 ^ 31\<close>); the cipher text has the length of the text rounded up to the next multiple of 8.\<close>

theorem des_roundtrip:
  assumes "length key = 8" "length t + 8 < 2 ^ 31"
  shows "\<exists>c. ldesencode key t = Ok c \<and> length c = (length t + 8) div 8 * 8 \<and> ldesdecode key c = Ok t"
proof -
  let ?k = "des_main_ks key" and ?z = "7 - length t mod 8"
  let ?c = "des_encode_blocks ?k t" and ?b = "t @ 0x80 # replicate ?z 0"
  have c: "length ?c = (length t + 8) div 8 * 8" "des_decode_blocks (reverse_keys ?k) ?c = ?b"
    using des_blocks_inverse [OF des_keys_inverse(1), of key t] by simp_all
  have l: "length ?c = length ?b" unfolding c(1) using round_up_8 [of "length t"] by simp
  have m: "length ?c mod 8 = 0" unfolding c(1) by (rule mod_mult_self2_is_0)
  have n: "length ?c \<noteq> 0" unfolding l by (simp only: length_append length_Cons add_Suc_right nat.simps not_False_eq_True)
  have "length ?c \<le> length t + 8" unfolding c(1) by (rule div_times_less_eq_dividend)
  then have b: "\<not> 2 ^ 31 \<le> length ?c" using assms(2) by (simp only: not_le)
  have pad: "des_padding ?b (length ?c) 1 = Ok (1 + ?z)" unfolding l by (rule des_padding_text) simp
  have tk: "take (length ?c - (1 + ?z)) ?b = t" unfolding l by (simp only: length_append length_Cons length_replicate) simp
  have "\<not> 8 < 1 + ?z" by simp
  then have "ldesdecode key ?c = Ok t"
    unfolding ldesdecode_def des_key_def Let_def
    by (simp only: assms(1) not_True_eq_False if_False and_then.simps b m n c(2) pad tk simp_thms)
  then show ?thesis using assms c(1) by (intro exI [of _ ?c]) (simp add: ldesencode_def des_key_def)
qed

text \<open>A cipher text of one block that decrypts to zeros, which any 8 bytes may do, makes the loop over
  the padding leave the buffer: its index is compared as an unsigned number and -1 is not below 0.\<close>

theorem desdecode_zero_block:
  assumes "length key = 8"
  shows "ldesdecode key (des_crypt (des_main_ks key) (replicate 8 0)) = Crash"
proof -
  let ?c = "des_crypt (des_main_ks key) (replicate 8 0)" and ?z = "replicate 8 0 :: byte list"
  have "des_decode_blocks (reverse_keys (des_main_ks key)) ?c = ?z"
    using des_keys_inverse(1) [of ?z key]
    by (subst des_decode_blocks.simps; subst des_decode_blocks.simps) simp
  moreover have "des_padding ?z 8 1 = Crash"
    using des_padding_zeros [of 8 ?z 8 1] by simp
  ultimately show ?thesis using assms unfolding ldesdecode_def des_key_def Let_def by simp
qed

section \<open>Witnesses\<close>

theorem des_roundtrip_witness:
  "\<exists>c. ldesencode [1, 2, 3, 4, 5, 6, 7, 8] [104, 101, 108, 108, 111, 33, 33, 33, 33] = Ok c \<and> length c = 16 \<and>
     ldesdecode [1, 2, 3, 4, 5, 6, 7, 8] c = Ok [104, 101, 108, 108, 111, 33, 33, 33, 33]"
  using des_roundtrip [of "[1, 2, 3, 4, 5, 6, 7, 8]" "[104, 101, 108, 108, 111, 33, 33, 33, 33]"] by simp

theorem desdecode_zero_block_witness:
  "ldesdecode [0, 0, 0, 0, 0, 0, 0, 1] (des_crypt (des_main_ks [0, 0, 0, 0, 0, 0, 0, 1]) (replicate 8 0)) = Crash"
  by (rule desdecode_zero_block) simp

end
