(* ===== verification/Crypt.thy ===== *)
theory Crypt
  imports Outcome
begin

text \<open>
  The other functions of \<^verbatim>\<open>src/ztask/lualib/lua-crypt.c\<close>: random keys, the two string
  hashes, hexadecimal and base64 text, the 64-bit message authentication code, the
  Diffie-Hellman exchange modulo the largest 64-bit prime and the cyclic exclusive or.

  A Lua string is a list of bytes. Where the source counts with \<^verbatim>\<open>int\<close> and the size does not
  fit, the result is \<open>Crash\<close>.
\<close>

section \<open>Words and bytes\<close>

definition word_bytes :: "u32 \<Rightarrow> byte list" where
  "word_bytes w = [ucast (w AND 0xff), ucast (drop_bit 8 w AND 0xff), ucast (drop_bit 16 w AND 0xff), ucast (drop_bit 24 w AND 0xff)]"

definition bytes_word :: "byte list \<Rightarrow> u32" where
  "bytes_word x = ucast (x ! 0) OR push_bit 8 (ucast (x ! 1)) OR push_bit 16 (ucast (x ! 2)) OR push_bit 24 (ucast (x ! 3))"

section \<open>Random keys\<close>

text \<open>The argument is what the eight calls of \<^verbatim>\<open>rand\<close> return.\<close>

definition lrandomkey :: "cint list \<Rightarrow> byte list" where
  "lrandomkey rnd =
     (let tmp = map (\<lambda>x. ucast (x AND 0xff)) rnd; x = fold (\<lambda>b x. x XOR b) tmp 0
      in if x = 0 then tmp[0 := tmp ! 0 OR 1] else tmp)"

section \<open>Hashes of strings\<close>

definition hash_step :: "byte \<Rightarrow> u32 \<times> u32 \<Rightarrow> u32 \<times> u32" where
  "hash_step c = (\<lambda>(djb_hash, js_hash).
     (djb_hash + (push_bit 5 djb_hash + ucast c),
      js_hash XOR (push_bit 5 js_hash + ucast c + drop_bit 2 js_hash)))"

definition Hash :: "byte list \<Rightarrow> int \<Rightarrow> byte list" where
  "Hash str sz =
     (let (djb_hash, js_hash) = fold hash_step (take (nat sz) str) (5381, 1315423911)
      in word_bytes djb_hash @ word_bytes js_hash)"

definition lhashkey :: "byte list \<Rightarrow> byte list" where
  "lhashkey key = Hash key (int_of_size (length key))"

section \<open>Hexadecimal text\<close>

definition hex_digit :: "byte \<Rightarrow> byte" where
  "hex_digit v = map of_char ''0123456789abcdef'' ! unat v"

definition ltohex :: "byte list \<Rightarrow> byte list outcome" where
  "ltohex t =
     (if 2 ^ 31 \<le> length t * 2 then Crash
      else Ok (concat (map (\<lambda>c. [hex_digit (drop_bit 4 c), hex_digit (c AND 0xf)]) t)))"

definition HEX :: "byte \<Rightarrow> byte" where
  "HEX tmp = (if 48 \<le> sint tmp \<and> sint tmp \<le> 57 then tmp - 48 else tmp - 97 + 10)"

fun hex_pairs :: "byte list \<Rightarrow> byte list outcome" where
  "hex_pairs (a # b # t) =
     (let hi = HEX a; low = HEX b in
      if 16 < hi \<or> 16 < low then Err ''Invalid hex text''
      else and_then (hex_pairs t) (\<lambda>r. Ok ((push_bit 4 hi OR low) # r)))"
| "hex_pairs t = Ok []"

definition lfromhex :: "byte list \<Rightarrow> byte list outcome" where
  "lfromhex t =
     (if 2 ^ 31 \<le> length t then Crash
      else if odd (length t) then Err (''Invalid hex text size '' @ fmt_d (int (length t)))
      else hex_pairs t)"

section \<open>The message authentication code\<close>

definition md5_k :: "u32 list" where
  "md5_k = [
     0xd76aa478, 0xe8c7b756, 0x242070db, 0xc1bdceee,
     0xf57c0faf, 0x4787c62a, 0xa8304613, 0xfd469501,
     0x698098d8, 0x8b44f7af, 0xffff5bb1, 0x895cd7be,
     0x6b901122, 0xfd987193, 0xa679438e, 0x49b40821,
     0xf61e2562, 0xc040b340, 0x265e5a51, 0xe9b6c7aa,
     0xd62f105d, 0x02441453, 0xd8a1e681, 0xe7d3fbc8,
     0x21e1cde6, 0xc33707d6, 0xf4d50d87, 0x455a14ed,
     0xa9e3e905, 0xfcefa3f8, 0x676f02d9, 0x8d2a4c8a,
     0xfffa3942, 0x8771f681, 0x6d9d6122, 0xfde5380c,
     0xa4beea44, 0x4bdecfa9, 0xf6bb4b60, 0xbebfbc70,
     0x289b7ec6, 0xeaa127fa, 0xd4ef3085, 0x04881d05,
     0xd9d4d039, 0xe6db99e5, 0x1fa27cf8, 0xc4ac5665,
     0xf4292244, 0x432aff97, 0xab9423a7, 0xfc93a039,
     0x655b59c3, 0x8f0ccc92, 0xffeff47d, 0x85845dd1,
     0x6fa87e4f, 0xfe2ce6e0, 0xa3014314, 0x4e0811a1,
     0xf7537e82, 0xbd3af235, 0x2ad7d2bb, 0xeb86d391]"

definition md5_r :: "u32 list" where
  "md5_r = [
     7, 12, 17, 22, 7, 12, 17, 22, 7, 12, 17, 22, 7, 12, 17, 22,
     5, 9, 14, 20, 5, 9, 14, 20, 5, 9, 14, 20, 5, 9, 14, 20,
     4, 11, 16, 23, 4, 11, 16, 23, 4, 11, 16, 23, 4, 11, 16, 23,
     6, 10, 15, 21, 6, 10, 15, 21, 6, 10, 15, 21, 6, 10, 15, 21]"

definition LEFTROTATE :: "u32 \<Rightarrow> u32 \<Rightarrow> u32" where
  "LEFTROTATE x c = push_bit (unat c) x OR drop_bit (32 - unat c) x"

definition hmac_step :: "u32 list \<Rightarrow> nat \<Rightarrow> u32 \<times> u32 \<times> u32 \<times> u32 \<Rightarrow> u32 \<times> u32 \<times> u32 \<times> u32" where
  "hmac_step w i = (\<lambda>(a, b, c, d).
     let (f, g) =
       (if i < 16 then ((b AND c) OR (NOT b AND d), i)
        else if i < 32 then ((d AND b) OR (NOT d AND c), (5 * i + 1) mod 16)
        else if i < 48 then (b XOR c XOR d, (3 * i + 5) mod 16)
        else (c XOR (b OR NOT d), (7 * i) mod 16))
     in (d, b + LEFTROTATE (a + f + md5_k ! i + w ! g) (md5_r ! i), b, c))"

definition hmac :: "u32 \<times> u32 \<Rightarrow> u32 \<times> u32 \<Rightarrow> u32 \<times> u32" where
  "hmac x y =
     (let w = concat (replicate 4 [snd x, fst x, snd y, fst y]);
          (a, b, c, d) = fold (hmac_step w) [0..<64] (0x67452301, 0xefcdab89, 0x98badcfe, 0x10325476)
      in (c XOR d, a XOR b))"

definition read_qword :: "byte list \<Rightarrow> u32 \<times> u32" where
  "read_qword x = (bytes_word (take 4 x), bytes_word (drop 4 x))"

definition read64 :: "byte list \<Rightarrow> byte list \<Rightarrow> ((u32 \<times> u32) \<times> (u32 \<times> u32)) outcome" where
  "read64 x y =
     (if length x \<noteq> 8 then Err ''Invalid uint64 x''
      else if length y \<noteq> 8 then Err ''Invalid uint64 y''
      else Ok (read_qword x, read_qword y))"

definition pushqword :: "u32 \<times> u32 \<Rightarrow> byte list" where
  "pushqword r = word_bytes (fst r) @ word_bytes (snd r)"

definition lhmac64 :: "byte list \<Rightarrow> byte list \<Rightarrow> byte list outcome" where
  "lhmac64 x y = and_then (read64 x y) (\<lambda>(x, y). Ok (pushqword (hmac x y)))"

definition lhmac_hash :: "byte list \<Rightarrow> byte list \<Rightarrow> byte list outcome" where
  "lhmac_hash x t =
     (if length x \<noteq> 8 then Err ''Invalid uint64 key''
      else Ok (pushqword (hmac (read_qword (Hash t (int_of_size (length t)))) (read_qword x))))"

section \<open>Diffie-Hellman\<close>

definition DH_P :: u64 where "DH_P = 0xffffffffffffffc5"
definition DH_G :: u64 where "DH_G = 5"

lemma unat_half: "unat (drop_bit 1 b) = unat b div 2" for b :: u64
proof (rule bit_eqI)
  fix n
  show "bit (unat (drop_bit 1 b)) n = bit (unat b div 2) n"
    using bit_imp_le_length [of b "Suc n"] by (auto simp: bit_unsigned_iff bit_drop_bit_eq bit_Suc [symmetric])
qed

function mul_loop :: "u64 \<Rightarrow> u64 \<Rightarrow> u64 \<Rightarrow> u64" where
  "mul_loop a b m =
     (if b = 0 then m
      else let m = (if b AND 1 \<noteq> 0 then let t = DH_P - a in if t \<le> m then m - t else m + a else m);
               a = (if DH_P - a \<le> a then a * 2 - DH_P else a * 2)
           in mul_loop a (drop_bit 1 b) m)"
  by pat_completeness auto
termination
proof (relation "measure (\<lambda>(a, b, m). unat b)", simp)
  fix a b m x xa :: u64 assume "b \<noteq> 0"
  then have "unat b div 2 < unat b" by (simp add: unat_gt_0)
  then show "((xa, drop_bit 1 b, x), a, b, m) \<in> measure (\<lambda>(a, b, m). unat b)"
    unfolding in_measure prod.case unat_half .
qed

declare mul_loop.simps [simp del]

definition mul_mod_p :: "u64 \<Rightarrow> u64 \<Rightarrow> u64" where
  "mul_mod_p a b = mul_loop a b 0"

text \<open>With exponent 0 the recursion does not end.\<close>

partial_function (option) pow_mod_p :: "u64 \<Rightarrow> u64 \<Rightarrow> u64 option" where
  "pow_mod_p a b =
     (if b = 1 then Some a
      else do { t \<leftarrow> pow_mod_p a (drop_bit 1 b);
                let t = mul_mod_p t t;
                Some (if b mod 2 \<noteq> 0 then mul_mod_p t a else t) })"

definition powmodp :: "u64 \<Rightarrow> u64 \<Rightarrow> u64 option" where
  "powmodp a b = pow_mod_p (if DH_P < a then a mod DH_P else a) b"

definition push64 :: "u64 \<Rightarrow> byte list" where
  "push64 r = [ucast (r AND 0xff), ucast (drop_bit 8 r AND 0xff), ucast (drop_bit 16 r AND 0xff), ucast (drop_bit 24 r AND 0xff),
     ucast (drop_bit 32 r AND 0xff), ucast (drop_bit 40 r AND 0xff), ucast (drop_bit 48 r AND 0xff), ucast (drop_bit 56 r AND 0xff)]"

definition join64 :: "u32 \<times> u32 \<Rightarrow> u64" where
  "join64 x = ucast (fst x) OR push_bit 32 (ucast (snd x))"

definition ldhsecret :: "byte list \<Rightarrow> byte list \<Rightarrow> byte list outcome" where
  "ldhsecret x y =
     and_then (read64 x y) (\<lambda>(x, y).
       let xx = join64 x; yy = join64 y in
       if xx = 0 \<or> yy = 0 then Err ''Can't be 0''
       else case powmodp xx yy of None \<Rightarrow> Crash | Some r \<Rightarrow> Ok (push64 r))"

definition ldhexchange :: "byte list \<Rightarrow> byte list outcome" where
  "ldhexchange x =
     (if length x \<noteq> 8 then Err ''Invalid dh uint64 key''
      else let x64 = join64 (read_qword x) in
           if x64 = 0 then Err ''Can't be 0''
           else case powmodp DH_G x64 of None \<Rightarrow> Crash | Some r \<Rightarrow> Ok (push64 r))"

section \<open>Base64\<close>

definition b64_encoding :: "byte list" where
  "b64_encoding = map of_char ''ABCDEFGHIJKLMNOPQRSTUVWXYZabcdefghijklmnopqrstuvwxyz0123456789+/''"

definition b64_char :: "u32 \<Rightarrow> byte" where
  "b64_char v = b64_encoding ! unat v"

fun b64_encode :: "byte list \<Rightarrow> byte list" where
  "b64_encode (x # y # z # t) =
     (let v = push_bit 16 (ucast x) OR push_bit 8 (ucast y) OR ucast z in
      b64_char (drop_bit 18 v) # b64_char (drop_bit 12 v AND 0x3f) # b64_char (drop_bit 6 v AND 0x3f) # b64_char (v AND 0x3f)
      # b64_encode t)"
| "b64_encode [x, y] =
     (let v = push_bit 8 (ucast x) OR ucast y in
      [b64_char (drop_bit 10 v), b64_char (drop_bit 4 v AND 0x3f), b64_char (push_bit 2 (v AND 0xf)), 61])"
| "b64_encode [x] =
     (let v = ucast x in [b64_char (drop_bit 2 v), b64_char (push_bit 4 (v AND 3)), 61, 61])"
| "b64_encode [] = []"

definition lb64encode :: "byte list \<Rightarrow> byte list outcome" where
  "lb64encode t = (if 2 ^ 31 \<le> (length t + 2) div 3 * 4 then Crash else Ok (b64_encode t))"

definition b64_decoding :: "int list" where
  "b64_decoding = [62, -1, -1, -1, 63, 52, 53, 54, 55, 56, 57, 58, 59, 60, 61, -1, -1, -1, -2, -1, -1, -1,
     0, 1, 2, 3, 4, 5, 6, 7, 8, 9, 10, 11, 12, 13, 14, 15, 16, 17, 18, 19, 20, 21, 22, 23, 24, 25, -1, -1, -1, -1, -1, -1,
     26, 27, 28, 29, 30, 31, 32, 33, 34, 35, 36, 37, 38, 39, 40, 41, 42, 43, 44, 45, 46, 47, 48, 49, 50, 51]"

definition b64index :: "byte \<Rightarrow> int" where
  "b64index c =
     (if c < 43 then -1
      else if length b64_decoding \<le> unat (c - 43) then -1
      else b64_decoding ! unat (c - 43))"

text \<open>The next \<open>n\<close> codes of a group, other characters skipped; nothing when the text ends before.\<close>

fun b64_codes :: "nat \<Rightarrow> byte list \<Rightarrow> (int list \<times> byte list) option" where
  "b64_codes 0 t = Some ([], t)"
| "b64_codes (Suc n) [] = None"
| "b64_codes (Suc n) (x # t) =
     (if b64index x = -1 then b64_codes (Suc n) t
      else do { (cs, r) \<leftarrow> b64_codes n t; Some (b64index x # cs, r) })"

definition b64_group :: "int list \<Rightarrow> byte list outcome" where
  "b64_group c =
     (let padding = length (filter (\<lambda>x. x = -2) c); w = \<lambda>j. (of_int (c ! j) :: u32) in
      if padding = 0
      then let v = push_bit 18 (w 0) OR push_bit 12 (w 1) OR push_bit 6 (w 2) OR w 3
           in Ok [ucast (drop_bit 16 v), ucast (drop_bit 8 v AND 0xff), ucast (v AND 0xff)]
      else if padding = 1
      then if c ! 3 \<noteq> -2 \<or> c ! 2 mod 4 \<noteq> 0 then Err ''Invalid base64 text''
           else let v = push_bit 10 (w 0) OR push_bit 4 (w 1) OR drop_bit 2 (w 2)
                in Ok [ucast (drop_bit 8 v), ucast (v AND 0xff)]
      else if padding = 2
      then if c ! 3 \<noteq> -2 \<or> c ! 2 \<noteq> -2 \<or> c ! 1 mod 16 \<noteq> 0 then Err ''Invalid base64 text''
           else let v = push_bit 2 (w 0) OR drop_bit 4 (w 1) in Ok [ucast v]
      else Err ''Invalid base64 text'')"

lemma b64_codes_length: "b64_codes n t = Some (cs, r) \<Longrightarrow> length r + n \<le> length t"
  by (induction n t arbitrary: cs rule: b64_codes.induct) (fastforce split: if_splits)+

function b64_decode :: "byte list \<Rightarrow> byte list outcome" where
  "b64_decode t =
     (if t = [] then Ok []
      else case b64_codes 4 t of
             None \<Rightarrow> Err ''Invalid base64 text''
           | Some (c, r) \<Rightarrow> and_then (b64_group c) (\<lambda>out. and_then (b64_decode r) (\<lambda>rest. Ok (out @ rest))))"
  by pat_completeness auto
termination
  by (relation "measure length") (auto dest!: b64_codes_length)

declare b64_decode.simps [simp del]

definition lb64decode :: "byte list \<Rightarrow> byte list outcome" where
  "lb64decode t = (if 2 ^ 31 \<le> (length t + 3) div 4 * 3 then Crash else b64_decode t)"

section \<open>Exclusive or of strings\<close>

definition lxor_str :: "byte list \<Rightarrow> byte list \<Rightarrow> byte list outcome" where
  "lxor_str s1 s2 =
     (if s2 = [] then Err ''Can't xor empty string''
      else if 2 ^ 31 \<le> length s1 then Crash
      else Ok (map (\<lambda>i. s1 ! i XOR s2 ! (i mod length s2)) [0..<length s1]))"

section \<open>Bytes back to words\<close>

lemma low_byte [simp]: "(ucast (w AND 0xff) :: byte) = ucast w" "(ucast (v AND 0xff) :: byte) = ucast v"
  for w :: u32 and v :: u64
proof -
  have m: "(0xff :: u32) = mask 8" "(0xff :: u64) = mask 8" by (simp_all add: mask_eq_decr_exp)
  show "(ucast (w AND 0xff) :: byte) = ucast w" "(ucast (v AND 0xff) :: byte) = ucast v"
    unfolding m by (rule bit_word_eqI; auto simp: bit_simps)+
qed

lemma bytes_word_bytes: "bytes_word (word_bytes w @ bs) = w"
proof (rule bit_word_eqI)
  fix n assume n: "n < LENGTH(32)"
  then consider "n < 8" | "8 \<le> n" "n < 16" | "16 \<le> n" "n < 24" | "24 \<le> n" by linarith
  then show "bit (bytes_word (word_bytes w @ bs)) n = bit w n"
    by cases (use n in \<open>auto simp: bytes_word_def word_bytes_def bit_simps dest: bit_imp_le_length\<close>)
qed

lemma push64_split: "push64 r = word_bytes (ucast r) @ word_bytes (ucast (drop_bit 32 r))"
  by (simp add: push64_def word_bytes_def) (intro conjI bit_word_eqI; auto simp: bit_simps)

lemma join64_push64: "join64 (read_qword (push64 r)) = r"
proof -
  have "read_qword (push64 r) = (ucast r, ucast (drop_bit 32 r))"
    using bytes_word_bytes [of "ucast r" "[]"] bytes_word_bytes [of "ucast (drop_bit 32 r)" "[]"]
    by (simp add: read_qword_def push64_split word_bytes_def)
  moreover have "join64 (ucast r, ucast (drop_bit 32 r)) = r"
    by (rule bit_word_eqI) (auto simp: join64_def bit_simps dest: bit_imp_le_length)
  ultimately show ?thesis by simp
qed

section \<open>Arithmetic modulo the prime\<close>

abbreviation p_nat :: nat where
  "p_nat \<equiv> 18446744073709551557"

lemma unat_DH_P [simp]: "unat DH_P = p_nat"
  by (simp add: DH_P_def)

lemma unat_P_minus: "unat a < p_nat \<Longrightarrow> unat (DH_P - a) = p_nat - unat a"
  by (subst unat_sub) (simp_all add: word_le_nat_alt)

lemma mul_step_add:
  assumes "unat a < p_nat" "unat m < p_nat"
  shows "unat (let t = DH_P - a in if t \<le> m then m - t else m + a) = (unat m + unat a) mod p_nat"
proof -
  note t = unat_P_minus [OF assms(1)]
  show ?thesis
  proof (cases "DH_P - a \<le> m")
    case True
    then have le: "p_nat \<le> unat m + unat a" using t assms by (simp add: word_le_nat_alt)
    have "unat (m - (DH_P - a)) = unat m + unat a - p_nat"
      using True t assms by (subst unat_sub) (simp_all add: word_le_nat_alt)
    also have "\<dots> = (unat m + unat a) mod p_nat" using le assms by (simp add: mod_if)
    finally show ?thesis using True by (simp add: Let_def)
  next
    case False
    then have lt: "unat m + unat a < p_nat" using t assms by (simp add: word_le_nat_alt)
    then have "unat (m + a) = unat m + unat a" by (subst unat_add_lem [THEN iffD1]) simp_all
    then show ?thesis using False lt by (simp add: Let_def)
  qed
qed

lemma mul_step_double:
  assumes "unat a < p_nat"
  shows "unat (if DH_P - a \<le> a then a * 2 - DH_P else a * 2) = (2 * unat a) mod p_nat"
proof -
  note t = unat_P_minus [OF assms]
  show ?thesis
  proof (cases "DH_P - a \<le> a")
    case True
    then have le: "p_nat \<le> 2 * unat a" using t assms by (simp add: word_le_nat_alt)
    have e: "a * 2 - DH_P = a - (DH_P - a)" by simp
    have "unat (a - (DH_P - a)) = 2 * unat a - p_nat"
      using True t assms by (subst unat_sub) (simp_all add: word_le_nat_alt)
    then show ?thesis unfolding if_P [OF True] e using le assms by (simp add: mod_if)
  next
    case False
    then have lt: "2 * unat a < p_nat" using t assms by (simp add: word_le_nat_alt)
    have e: "a * 2 = a + a" by simp
    have "unat (a + a) = unat a + unat a" using lt by (subst unat_add_lem [THEN iffD1]) simp_all
    then show ?thesis unfolding if_not_P [OF False] e using lt by simp
  qed
qed

lemma even_unat: "even b \<longleftrightarrow> even (unat b)" for b :: u64
  using bit_unsigned_iff [where w = b and n = 0 and ?'a = nat] by (simp add: bit_0)

lemma word_odd: "(b AND 1 \<noteq> 0) = odd (unat b)" "(b mod 2 \<noteq> 0) = odd (unat b)" for b :: u64
  by (simp_all add: and_one_eq mod2_eq_if even_unat)

lemma mod_step: "(x mod p + (y mod p) * z) mod p = (x + y * z) mod p" for x y z p :: nat
proof -
  have "(y mod p) * z mod p = y * z mod p" by (rule mod_mult_left_eq)
  then show ?thesis by (metis mod_add_eq mod_mod_trivial)
qed

lemma mul_loop_correct:
  "unat a < p_nat \<Longrightarrow> unat m < p_nat \<Longrightarrow> unat (mul_loop a b m) = (unat m + unat a * unat b) mod p_nat"
proof (induction a b m rule: mul_loop.induct)
  case (1 a b m)
  show ?case
  proof (cases "b = 0")
    case True
    then show ?thesis using 1(3) by (simp add: mul_loop.simps)
  next
    case False
    let ?m = "if b AND 1 \<noteq> 0 then let t = DH_P - a in if t \<le> m then m - t else m + a else m"
    let ?a = "if DH_P - a \<le> a then a * 2 - DH_P else a * 2"
    have m: "unat ?m = (unat m + unat a * (unat b mod 2)) mod p_nat"
    proof (cases "odd (unat b)")
      case True
      then show ?thesis using mul_step_add [OF 1(2,3)] unfolding word_odd by (simp add: odd_iff_mod_2_eq_one)
    next
      case False
      then show ?thesis using 1(3) unfolding word_odd by (simp add: even_iff_mod_2_eq_zero)
    qed
    note a = mul_step_double [OF 1(2)]
    have am: "unat ?a < p_nat" "unat ?m < p_nat" unfolding m a by simp_all
    have "unat (mul_loop a b m) = unat (mul_loop ?a (drop_bit 1 b) ?m)"
      using False by (subst mul_loop.simps) (simp only: Let_def if_False)
    also have "\<dots> = (unat ?m + unat ?a * unat (drop_bit 1 b)) mod p_nat"
      by (rule 1(1) [OF False refl refl am])
    also have "\<dots> = (unat m + unat a * (unat b mod 2) + 2 * unat a * (unat b div 2)) mod p_nat"
      unfolding m a unat_half by (rule mod_step)
    also have "unat m + unat a * (unat b mod 2) + 2 * unat a * (unat b div 2) = unat m + unat a * unat b"
    proof -
      have "x + y * e + 2 * y * d = x + y * (2 * d + e)" for x y d e :: nat by (simp add: algebra_simps)
      from this [of "unat m" "unat a" "unat b mod 2" "unat b div 2"] show ?thesis by (simp only: mult_div_mod_eq)
    qed
    finally show ?thesis .
  qed
qed

lemma mul_mod_p_correct: "unat a < p_nat \<Longrightarrow> unat (mul_mod_p a b) = unat a * unat b mod p_nat"
  using mul_loop_correct [of a 0 b] by (simp add: mul_mod_p_def)

lemma pow_mod_p_correct:
  "b \<noteq> 0 \<Longrightarrow> unat a < p_nat \<Longrightarrow> \<exists>r. pow_mod_p a b = Some r \<and> unat r = unat a ^ unat b mod p_nat"
proof (induction "unat b" arbitrary: b rule: less_induct)
  case less
  show ?case
  proof (cases "b = 1")
    case True
    then show ?thesis using less(3) by (subst pow_mod_p.simps) simp
  next
    case False
    let ?h = "drop_bit 1 b"
    have h: "unat ?h = unat b div 2" by (rule unat_half)
    have "unat b \<noteq> 0" "unat b \<noteq> 1" using less(2) False word_unat_eq_iff [of b 1] by (simp_all add: unat_eq_0)
    then have "2 \<le> unat b" by simp
    then have "unat ?h < unat b" "unat ?h \<noteq> 0" unfolding h by simp_all
    then obtain t where t: "pow_mod_p a ?h = Some t" "unat t = unat a ^ (unat b div 2) mod p_nat"
      using less(1) [of ?h] less(3) h by fastforce
    have lt: "unat t < p_nat" using t(2) by simp
    have sq: "unat (mul_mod_p t t) = unat a ^ (2 * (unat b div 2)) mod p_nat"
      unfolding mul_mod_p_correct [OF lt] t(2) by (simp add: mod_mult_eq power_add [symmetric] mult_2)
    note odd = word_odd(2) [of b]
    show ?thesis
    proof (cases "odd (unat b)")
      case True
      have "unat (mul_mod_p (mul_mod_p t t) a) = unat (mul_mod_p t t) * unat a mod p_nat"
        by (rule mul_mod_p_correct) (simp add: sq)
      also have "\<dots> = unat a ^ (2 * (unat b div 2) + 1) mod p_nat" unfolding sq by (simp add: mod_mult_right_eq mult.commute)
      also have "2 * (unat b div 2) + 1 = unat b" using True by (rule odd_two_times_div_two_succ)
      finally show ?thesis using True False t(1) odd by (subst pow_mod_p.simps) (simp add: Let_def)
    next
      case ev: False
      then have "2 * (unat b div 2) = unat b" by simp
      then show ?thesis using ev False t(1) odd sq by (subst pow_mod_p.simps) (simp add: Let_def)
    qed
  qed
qed

lemma powmodp_correct:
  assumes "b \<noteq> 0" "unat a < p_nat"
  shows "\<exists>r. powmodp a b = Some r \<and> unat r = unat a ^ unat b mod p_nat"
proof -
  have "\<not> DH_P < a" using assms(2) by (simp add: word_less_nat_alt)
  then show ?thesis using pow_mod_p_correct [OF assms] by (simp add: powmodp_def)
qed

lemma power_nonzero: "5 ^ n mod p_nat \<noteq> 0"
proof
  assume "5 ^ n mod p_nat = 0"
  then have d: "p_nat dvd 5 ^ n" by (simp add: mod_eq_0_iff_dvd)
  have "gcd 5 p_nat = 1" by (simp add: gcd_non_0_nat)
  then have "coprime 5 p_nat" by (simp only: coprime_iff_gcd_eq_1)
  then have "coprime (5 ^ n) p_nat" by simp
  then have "is_unit p_nat" using d by (rule coprime_common_divisor) simp
  then show False by simp
qed

text \<open>(C15) Diffie-Hellman: two services that exchange the values of \<^verbatim>\<open>dhexchange\<close> for their secrets, any
  8 bytes but zeros, compute the same value with \<^verbatim>\<open>dhsecret\<close>, and neither call fails.\<close>

theorem dh_agreement:
  assumes "length x = 8" "length y = 8" "join64 (read_qword x) \<noteq> 0" "join64 (read_qword y) \<noteq> 0"
  shows "\<exists>X Y s. ldhexchange x = Ok X \<and> ldhexchange y = Ok Y \<and> ldhsecret X y = Ok s \<and> ldhsecret Y x = Ok s \<and>
    unat (join64 (read_qword s)) = 5 ^ (unat (join64 (read_qword x)) * unat (join64 (read_qword y))) mod p_nat"
proof -
  let ?a = "join64 (read_qword x)" and ?b = "join64 (read_qword y)"
  have g: "unat DH_G = 5" by (simp add: DH_G_def)
  obtain r where r: "powmodp DH_G ?a = Some r" "unat r = 5 ^ unat ?a mod p_nat"
    using powmodp_correct [OF assms(3), of DH_G] g by auto
  obtain q where q: "powmodp DH_G ?b = Some q" "unat q = 5 ^ unat ?b mod p_nat"
    using powmodp_correct [OF assms(4), of DH_G] g by auto
  have nz: "r \<noteq> 0" "q \<noteq> 0" using r(2) q(2) power_nonzero by (metis unat_0)+
  have lt: "unat r < p_nat" "unat q < p_nat" using r(2) q(2) by simp_all
  obtain s where s: "powmodp r ?b = Some s" "unat s = unat r ^ unat ?b mod p_nat"
    using powmodp_correct [OF assms(4) lt(1)] by blast
  obtain t where t: "powmodp q ?a = Some t" "unat t = unat q ^ unat ?a mod p_nat"
    using powmodp_correct [OF assms(3) lt(2)] by blast
  have e: "unat s = 5 ^ (unat ?a * unat ?b) mod p_nat" "unat t = 5 ^ (unat ?a * unat ?b) mod p_nat"
    unfolding s(2) t(2) r(2) q(2) by (simp_all only: power_mod power_mult [symmetric] mult.commute)
  then have st: "s = t" by (simp add: word_unat_eq_iff)
  have l: "length (push64 w) = 8" for w by (simp add: push64_def)
  have "ldhexchange x = Ok (push64 r)" "ldhexchange y = Ok (push64 q)"
    using assms r(1) q(1) by (simp_all add: ldhexchange_def Let_def)
  moreover have "ldhsecret (push64 r) y = Ok (push64 s)" "ldhsecret (push64 q) x = Ok (push64 s)"
    using assms s(1) t(1) nz st by (simp_all add: ldhsecret_def read64_def l Let_def join64_push64)
  ultimately show ?thesis using e(1) by (intro exI [of _ "push64 r"] exI [of _ "push64 q"] exI [of _ "push64 s"]) (simp add: join64_push64)
qed

section \<open>Hexadecimal text\<close>

lemma all_nibbles: "(\<forall>n < 16. P n) \<longleftrightarrow> (\<forall>n \<in> set [0..<16::nat]. P n)"
  by auto

lemma HEX_hex_digit:
  assumes "unat v < 16"
  shows "HEX (hex_digit v) = v"
proof -
  have "\<forall>n \<in> set [0..<16]. HEX (hex_digit (of_nat n)) = of_nat n" by code_simp
  then have "HEX (hex_digit (of_nat (unat v))) = of_nat (unat v)" using assms by (metis atLeastLessThan_upt atLeastLessThan_iff le0)
  then show ?thesis by simp
qed

lemma unat_drop_byte: "unat (drop_bit n c) = unat c div 2 ^ n" for c :: byte
proof -
  have "unat (drop_bit n c) = drop_bit n (unat c)"
    using unsigned_less [where ?'b = 8 and ?'a = nat and w = c]
    by (simp add: unsigned_drop_bit_eq take_bit_nat_eq_self)
  then show ?thesis by (simp only: drop_bit_eq_div)
qed

lemma nibbles:
  fixes c :: byte
  shows "unat (drop_bit 4 c) < 16" "unat (c AND 0xf) < 16" "push_bit 4 (drop_bit 4 c) OR (c AND 0xf) = c"
proof -
  have m: "(0xf :: byte) = mask 4" by (simp add: mask_eq_decr_exp)
  have c: "unat c < 2 ^ 8" using unsigned_less [where ?'b = 8 and ?'a = nat and w = c] by simp
  have "unat (drop_bit 4 c) = unat c div 2 ^ 4" by (rule unat_drop_byte)
  then show "unat (drop_bit 4 c) < 16" using c by simp
  have "c AND mask 4 = take_bit 4 c" by (simp only: take_bit_eq_mask)
  then have "unat (c AND mask 4) = take_bit 4 (unat c)" by (simp only: unsigned_take_bit_eq)
  then show "unat (c AND 0xf) < 16" unfolding m using take_bit_nat_less_exp [of 4 "unat c"] by simp
  show "push_bit 4 (drop_bit 4 c) OR (c AND 0xf) = c"
    unfolding m by (rule bit_word_eqI) (auto simp: bit_simps)
qed

lemma HEX_bound: "\<not> 16 < HEX (hex_digit v)" if "unat v < 16" for v
  using that by (simp add: HEX_hex_digit [OF that] word_less_nat_alt)

lemma hex_pairs_ltohex:
  "hex_pairs (concat (map (\<lambda>c. [hex_digit (drop_bit 4 c), hex_digit (c AND 0xf)]) t)) = Ok t"
proof (induction t)
  case (Cons c t)
  note n = nibbles [of c]
  show ?case using Cons HEX_bound [OF n(1)] HEX_bound [OF n(2)] n(3)
    by (simp add: HEX_hex_digit [OF n(1)] HEX_hex_digit [OF n(2)] Let_def)
qed simp

lemma length_hex: "length (concat (map (\<lambda>c. [hex_digit (drop_bit 4 c), hex_digit (c AND 0xf)]) t)) = length t * 2"
  by (induction t) simp_all

text \<open>The characters \<^verbatim>\<open>hexdecode\<close> takes for digits: those from 0 to 9 and those from W to g.\<close>

definition hex_accepted :: "byte \<Rightarrow> bool" where
  "hex_accepted c \<longleftrightarrow> 48 \<le> unat c \<and> unat c \<le> 57 \<or> 87 \<le> unat c \<and> unat c \<le> 103"

lemma HEX_accepted: "(\<not> 16 < HEX c) = hex_accepted c"
proof -
  have "\<forall>n \<in> set [0..<256]. (\<not> 16 < HEX (of_nat n)) = hex_accepted (of_nat n)" by code_simp
  moreover have "unat c < 256" using unsigned_less [where ?'b = 8 and ?'a = nat and w = c] by simp
  ultimately have "(\<not> 16 < HEX (of_nat (unat c))) = hex_accepted (of_nat (unat c))"
    by (metis atLeastLessThan_upt atLeastLessThan_iff le0)
  then show ?thesis by simp
qed

text \<open>\<^verbatim>\<open>hexdecode\<close> inverts \<^verbatim>\<open>hexencode\<close>. Of other texts it accepts more than hexadecimal
  digits: a pair is decoded exactly when both characters lie in 0 to 9 or in W to g.\<close>

theorem hex_roundtrip:
  assumes "length t < 2 ^ 30"
  shows "(\<exists>h. ltohex t = Ok h \<and> length h = length t * 2 \<and> lfromhex h = Ok t) \<and>
    (\<forall>a b. (\<exists>r. lfromhex [a, b] = Ok r) \<longleftrightarrow> hex_accepted a \<and> hex_accepted b)"
proof
  show "\<exists>h. ltohex t = Ok h \<and> length h = length t * 2 \<and> lfromhex h = Ok t"
    using assms by (simp add: ltohex_def lfromhex_def length_hex hex_pairs_ltohex)
  show "\<forall>a b. (\<exists>r. lfromhex [a, b] = Ok r) \<longleftrightarrow> hex_accepted a \<and> hex_accepted b"
    by (simp add: lfromhex_def Let_def HEX_accepted [symmetric])
qed

section \<open>Base64\<close>

lemma b64index_char:
  assumes "unat v < 64"
  shows "b64index (b64_char v) = int (unat v)"
proof -
  have "\<forall>n \<in> set [0..<64]. b64index (b64_char (of_nat n)) = int n" by code_simp
  then have "b64index (b64_char (of_nat (unat v))) = int (unat v)"
    using assms by (metis atLeastLessThan_upt atLeastLessThan_iff le0)
  then show ?thesis by simp
qed

lemma b64index_pad: "b64index 61 = -2"
  by code_simp

lemma unat_bits:
  fixes w :: u32
  assumes "\<And>n. bit w n \<Longrightarrow> n < k"
  shows "unat w < 2 ^ k"
proof -
  have "take_bit k w = w" by (rule bit_word_eqI) (auto simp: bit_simps dest: assms)
  then have "unat w = take_bit k (unat w)" by (metis unsigned_take_bit_eq)
  also have "\<dots> < 2 ^ k" by (rule take_bit_nat_less_exp)
  finally show ?thesis .
qed

lemma b64_masks: "(0x3f :: u32) = mask 6" "(0xf :: u32) = mask 4" "(3 :: u32) = mask 2"
  by (simp_all add: mask_eq_decr_exp)

lemma b64_codes_char:
  assumes "unat v < 64"
  shows "b64_codes (Suc n) (b64_char v # t) = do { (cs, r) \<leftarrow> b64_codes n t; Some (int (unat v) # cs, r) }"
proof -
  have "int (unat v) \<noteq> - 1" by linarith
  then show ?thesis unfolding b64_codes.simps b64index_char [OF assms] by (simp only: if_False)
qed

lemma b64_codes_pad: "b64_codes (Suc n) (61 # t) = do { (cs, r) \<leftarrow> b64_codes n t; Some (- 2 # cs, r) }"
  using b64index_pad by simp

lemma b64_decode_group:
  "b64_codes 4 t = Some (c, r) \<Longrightarrow> t \<noteq> [] \<Longrightarrow> b64_group c = Ok out \<Longrightarrow> b64_decode r = Ok rest \<Longrightarrow> b64_decode t = Ok (out @ rest)"
  by (subst b64_decode.simps) simp

lemma of_int_unat: "(of_int (int (unat w)) :: u32) = w"
  by simp

lemma b64_three:
  fixes x y z :: byte
  defines "v \<equiv> push_bit 16 (ucast x) OR push_bit 8 (ucast y) OR ucast z :: u32"
  shows "unat (drop_bit 18 v) < 64" "unat (drop_bit 12 v AND 0x3f) < 64" "unat (drop_bit 6 v AND 0x3f) < 64"
    "unat (v AND 0x3f) < 64"
    "push_bit 18 (drop_bit 18 v) OR push_bit 12 (drop_bit 12 v AND 0x3f) OR push_bit 6 (drop_bit 6 v AND 0x3f) OR (v AND 0x3f) = v"
    "ucast (drop_bit 16 v) = x" "ucast (drop_bit 8 v) = y" "ucast v = z"
proof -
  have b: "n < 24" if "bit v n" for n using that by (auto simp: v_def bit_simps dest: bit_imp_le_length)
  have "unat (drop_bit 18 v) < 2 ^ 6" by (rule unat_bits) (auto simp: bit_simps dest: b)
  then show "unat (drop_bit 18 v) < 64" by simp
  have m: "unat (w AND 0x3f) < 64" for w :: u32
    using unat_bits [of "w AND 0x3f" 6] unfolding b64_masks by (simp add: bit_simps)
  show "unat (drop_bit 12 v AND 0x3f) < 64" "unat (drop_bit 6 v AND 0x3f) < 64" "unat (v AND 0x3f) < 64" by (rule m)+
  show "push_bit 18 (drop_bit 18 v) OR push_bit 12 (drop_bit 12 v AND 0x3f) OR push_bit 6 (drop_bit 6 v AND 0x3f) OR (v AND 0x3f) = v"
    unfolding b64_masks
  proof (rule bit_word_eqI)
    fix n assume "n < LENGTH(32)"
    consider "n < 6" | "6 \<le> n" "n < 12" | "12 \<le> n" "n < 18" | "18 \<le> n" by linarith
    then show "bit (push_bit 18 (drop_bit 18 v) OR push_bit 12 (drop_bit 12 v AND mask 6)
        OR push_bit 6 (drop_bit 6 v AND mask 6) OR (v AND mask 6)) n = bit v n"
      by cases (auto simp: bit_simps dest: b)
  qed
  show "ucast (drop_bit 16 v) = x" "ucast (drop_bit 8 v) = y" "ucast v = z"
    unfolding v_def by (rule bit_word_eqI; auto simp: bit_simps dest: bit_imp_le_length)+
qed

lemma b64_two:
  fixes x y :: byte
  defines "v \<equiv> push_bit 8 (ucast x) OR ucast y :: u32"
  shows "unat (drop_bit 10 v) < 64" "unat (drop_bit 4 v AND 0x3f) < 64" "unat (push_bit 2 (v AND 0xf)) < 64"
    "int (unat (push_bit 2 (v AND 0xf))) mod 4 = 0"
    "push_bit 10 (drop_bit 10 v) OR push_bit 4 (drop_bit 4 v AND 0x3f) OR drop_bit 2 (push_bit 2 (v AND 0xf)) = v"
    "ucast (drop_bit 8 v) = x" "ucast v = y"
proof -
  have b: "n < 16" if "bit v n" for n using that by (auto simp: v_def bit_simps dest: bit_imp_le_length)
  have "unat (drop_bit 10 v) < 2 ^ 6" by (rule unat_bits) (auto simp: bit_simps dest: b)
  then show "unat (drop_bit 10 v) < 64" by simp
  have "unat (drop_bit 4 v AND mask 6) < 2 ^ 6" by (rule unat_bits) (auto simp: bit_simps)
  then show "unat (drop_bit 4 v AND 0x3f) < 64" unfolding b64_masks by simp
  have "unat (push_bit 2 (v AND mask 4)) < 2 ^ 6" by (rule unat_bits) (auto simp: bit_simps)
  then show "unat (push_bit 2 (v AND 0xf)) < 64" unfolding b64_masks by simp
  have "take_bit 2 (push_bit 2 (v AND 0xf)) = 0" by (rule bit_word_eqI) (auto simp: bit_simps)
  then have "take_bit 2 (unat (push_bit 2 (v AND 0xf))) = 0" by (simp only: unsigned_take_bit_eq [symmetric] unat_0)
  then have "unat (push_bit 2 (v AND 0xf)) mod 4 = 0" by (simp only: take_bit_eq_mod) simp
  from arg_cong [OF this, of int] show "int (unat (push_bit 2 (v AND 0xf))) mod 4 = 0"
    by (simp only: of_nat_mod of_nat_numeral of_nat_0)
  show "push_bit 10 (drop_bit 10 v) OR push_bit 4 (drop_bit 4 v AND 0x3f) OR drop_bit 2 (push_bit 2 (v AND 0xf)) = v"
    unfolding b64_masks
  proof (rule bit_word_eqI)
    fix n assume "n < LENGTH(32)"
    consider "n < 4" | "4 \<le> n" "n < 10" | "10 \<le> n" by linarith
    then show "bit (push_bit 10 (drop_bit 10 v) OR push_bit 4 (drop_bit 4 v AND mask 6)
        OR drop_bit 2 (push_bit 2 (v AND mask 4))) n = bit v n"
      by cases (auto simp: bit_simps dest: b)
  qed
  show "ucast (drop_bit 8 v) = x" "ucast v = y"
    unfolding v_def by (rule bit_word_eqI; auto simp: bit_simps dest: bit_imp_le_length)+
qed

lemma b64_one:
  fixes x :: byte
  defines "v \<equiv> ucast x :: u32"
  shows "unat (drop_bit 2 v) < 64" "unat (push_bit 4 (v AND 3)) < 64" "int (unat (push_bit 4 (v AND 3))) mod 16 = 0"
    "ucast (push_bit 2 (drop_bit 2 v) OR drop_bit 4 (push_bit 4 (v AND 3))) = x"
proof -
  have b: "n < 8" if "bit v n" for n using that by (auto simp: v_def bit_simps dest: bit_imp_le_length)
  have "unat (drop_bit 2 v) < 2 ^ 6" by (rule unat_bits) (auto simp: bit_simps dest: b)
  then show "unat (drop_bit 2 v) < 64" by simp
  have "unat (push_bit 4 (v AND mask 2)) < 2 ^ 6" by (rule unat_bits) (auto simp: bit_simps)
  then show "unat (push_bit 4 (v AND 3)) < 64" unfolding b64_masks by simp
  have "take_bit 4 (push_bit 4 (v AND 3)) = 0" by (rule bit_word_eqI) (auto simp: bit_simps)
  then have "take_bit 4 (unat (push_bit 4 (v AND 3))) = 0" by (simp only: unsigned_take_bit_eq [symmetric] unat_0)
  then have "unat (push_bit 4 (v AND 3)) mod 16 = 0" by (simp only: take_bit_eq_mod) simp
  from arg_cong [OF this, of int] show "int (unat (push_bit 4 (v AND 3))) mod 16 = 0"
    by (simp only: of_nat_mod of_nat_numeral of_nat_0)
  show "ucast (push_bit 2 (drop_bit 2 v) OR drop_bit 4 (push_bit 4 (v AND 3))) = x"
    unfolding b64_masks v_def
  proof (rule bit_word_eqI)
    fix n assume "n < LENGTH(8)"
    consider "n < 2" | m where "n = Suc (Suc m)" by (cases n; cases "n - 1") auto
    then show "bit (ucast (push_bit 2 (drop_bit 2 (ucast x :: u32)) OR drop_bit 4 (push_bit 4 (ucast x AND mask 2))) :: byte) n = bit x n"
      using \<open>n < LENGTH(8)\<close> by cases (auto simp: bit_simps)
  qed
qed

lemma b64_codes_4:
  assumes "unat a < 64" "unat b < 64"
  shows "unat c < 64 \<Longrightarrow> unat d < 64 \<Longrightarrow> b64_codes 4 (b64_char a # b64_char b # b64_char c # b64_char d # t) =
      Some ([int (unat a), int (unat b), int (unat c), int (unat d)], t)"
    "unat c < 64 \<Longrightarrow> b64_codes 4 (b64_char a # b64_char b # b64_char c # 61 # t) =
      Some ([int (unat a), int (unat b), int (unat c), - 2], t)"
    "b64_codes 4 (b64_char a # b64_char b # 61 # 61 # t) = Some ([int (unat a), int (unat b), - 2, - 2], t)"
proof -
  have four: "4 = Suc (Suc (Suc (Suc 0)))" by simp
  show "unat c < 64 \<Longrightarrow> unat d < 64 \<Longrightarrow> b64_codes 4 (b64_char a # b64_char b # b64_char c # b64_char d # t) =
      Some ([int (unat a), int (unat b), int (unat c), int (unat d)], t)"
    unfolding four by (simp only: assms b64_codes_char b64_codes.simps(1) bind.simps prod.case)
  show "unat c < 64 \<Longrightarrow> b64_codes 4 (b64_char a # b64_char b # b64_char c # 61 # t) =
      Some ([int (unat a), int (unat b), int (unat c), - 2], t)"
    unfolding four by (simp only: assms b64_codes_char b64_codes_pad b64_codes.simps(1) bind.simps prod.case)
  show "b64_codes 4 (b64_char a # b64_char b # 61 # 61 # t) = Some ([int (unat a), int (unat b), - 2, - 2], t)"
    unfolding four by (simp only: assms b64_codes_char b64_codes_pad b64_codes.simps(1) bind.simps prod.case)
qed

lemma not_pad: "(int (unat w) = - 2) = False" for w :: u32
proof -
  have "0 \<le> int (unat w)" by (rule of_nat_0_le_iff)
  then have "int (unat w) \<noteq> - 2" by linarith
  then show ?thesis by (simp only: not_False_eq_True simp_thms)
qed

lemma b64_decode_nil: "b64_decode [] = Ok []"
  by (simp add: b64_decode.simps)

lemma b64_group_0:
  fixes a b c d :: u32
  shows "b64_group [int (unat a), int (unat b), int (unat c), int (unat d)] =
    (let v = push_bit 18 a OR push_bit 12 b OR push_bit 6 c OR d in Ok [ucast (drop_bit 16 v), ucast (drop_bit 8 v), ucast v])"
  unfolding b64_group_def Let_def filter.simps not_pad if_False by simp

lemma b64_group_1:
  fixes a b c :: u32
  assumes "int (unat c) mod 4 = 0"
  shows "b64_group [int (unat a), int (unat b), int (unat c), - 2] =
    (let v = push_bit 10 a OR push_bit 4 b OR drop_bit 2 c in Ok [ucast (drop_bit 8 v), ucast v])"
  using assms unfolding b64_group_def Let_def filter.simps not_pad if_False by simp

lemma b64_group_2:
  fixes a b :: u32
  assumes "int (unat b) mod 16 = 0"
  shows "b64_group [int (unat a), int (unat b), - 2, - 2] = Ok [ucast (push_bit 2 a OR drop_bit 4 b)]"
  using assms unfolding b64_group_def Let_def filter.simps not_pad if_False by simp

lemma b64_decode_encode: "b64_decode (b64_encode t) = Ok t"
proof (induction t rule: b64_encode.induct)
  case (1 x y z t)
  note b = b64_three [of x y z]
  let ?v = "push_bit 16 (ucast x) OR push_bit 8 (ucast y) OR ucast z :: u32"
  have "b64_decode (b64_encode (x # y # z # t)) = Ok ([x, y, z] @ t)"
    unfolding b64_encode.simps Let_def
    by (rule b64_decode_group [OF b64_codes_4(1) [OF b(1-4)] _ _ 1]) (simp_all only: b64_group_0 Let_def b list.distinct not_False_eq_True)
  then show ?case by simp
next
  case (2 x y)
  note b = b64_two [of x y]
  have "b64_decode (b64_encode [x, y]) = Ok ([x, y] @ [])"
    unfolding b64_encode.simps Let_def
    by (rule b64_decode_group [OF b64_codes_4(2) [OF b(1-3)]])
       (simp_all only: b64_group_1 [OF b(4)] Let_def b list.distinct not_False_eq_True b64_decode_nil)
  then show ?case by simp
next
  case (3 x)
  note b = b64_one [of x]
  have "b64_decode (b64_encode [x]) = Ok ([x] @ [])"
    unfolding b64_encode.simps Let_def
    by (rule b64_decode_group [OF b64_codes_4(3) [OF b(1-2)]])
       (simp_all only: b64_group_2 [OF b(3)] b list.distinct not_False_eq_True b64_decode_nil)
  then show ?case by simp
qed (simp add: b64_decode.simps)

lemma length_b64_encode: "length (b64_encode t) = (length t + 2) div 3 * 4"
proof (induction t rule: b64_encode.induct)
  case (1 x y z t)
  have "(n + 3 + 2) div 3 * 4 = 4 + (n + 2) div 3 * 4" for n :: nat by presburger
  from this [of "length t"] 1 show ?case by (simp add: Let_def)
qed (simp_all add: Let_def)

text \<open>\<^verbatim>\<open>base64decode\<close> inverts \<^verbatim>\<open>base64encode\<close> on every string whose code fits \<^verbatim>\<open>int\<close>, and the code
  has four characters for every three bytes begun.\<close>

theorem base64_roundtrip:
  assumes "length t < 2 ^ 30"
  shows "\<exists>c. lb64encode t = Ok c \<and> length c = (length t + 2) div 3 * 4 \<and> lb64decode c = Ok t"
proof -
  have bound: "(n + 2) div 3 * 4 < 2147483648 \<and> ((n + 2) div 3 * 4 + 3) div 4 * 3 < 2147483648"
    if "n < 1073741824" for n :: nat
  proof -
    define k where "k = (n + 2) div 3"
    define j where "j = (k * 4 + 3) div 4"
    have "k * 3 \<le> n + 2" "j * 4 \<le> k * 4 + 3" unfolding k_def j_def by (rule div_times_less_eq_dividend)+
    then show ?thesis using that unfolding k_def [symmetric] j_def [symmetric] by linarith
  qed
  have "length t < 1073741824" using assms by simp
  from bound [OF this] have "(length t + 2) div 3 * 4 < 2 ^ 31" "((length t + 2) div 3 * 4 + 3) div 4 * 3 < 2 ^ 31"
    by simp_all
  then show ?thesis
    unfolding lb64encode_def lb64decode_def
    by (intro exI [of _ "b64_encode t"]) (simp only: not_le [symmetric] if_False length_b64_encode b64_decode_encode simp_thms)
qed

text \<open>The cyclic exclusive or undoes itself, with any non-empty second string.\<close>

lemma xor_str_involution:
  "s2 \<noteq> [] \<Longrightarrow> length s1 < 2 ^ 31 \<Longrightarrow> \<exists>r. lxor_str s1 s2 = Ok r \<and> lxor_str r s2 = Ok s1"
  by (auto simp: lxor_str_def xor.assoc intro!: nth_equalityI)

text \<open>A random key is never all zeros.\<close>

lemma randomkey_nonzero:
  assumes "length rnd = 8"
  shows "\<exists>b \<in> set (lrandomkey rnd). b \<noteq> 0"
proof (rule ccontr)
  assume z: "\<not> ?thesis"
  let ?t = "map (\<lambda>x. ucast (x AND 0xff) :: byte) rnd"
  have odd1: "b OR 1 \<noteq> 0" for b :: byte by (simp add: or_eq_0_iff)
  show False
  proof (cases "fold (\<lambda>b x. x XOR b) ?t 0 = 0")
    case True
    then have "lrandomkey rnd ! 0 = ?t ! 0 OR 1" "0 < length (lrandomkey rnd)" using assms by (simp_all add: lrandomkey_def Let_def)
    then show False using z odd1 nth_mem by metis
  next
    case False
    then have "lrandomkey rnd = ?t" by (simp add: lrandomkey_def Let_def)
    then have "\<forall>b \<in> set ?t. b = 0" using z by simp
    then have "fold (\<lambda>b x. x XOR b) ?t 0 = 0" by (induction ?t arbitrary: rnd) auto
    then show False using False by contradiction
  qed
qed

section \<open>Witnesses\<close>

theorem dh_agreement_witness:
  "\<exists>X Y s. ldhexchange [1, 2, 3, 4, 5, 6, 7, 8] = Ok X \<and> ldhexchange [3, 0, 0, 0, 0, 0, 0, 0] = Ok Y \<and>
    ldhsecret X [3, 0, 0, 0, 0, 0, 0, 0] = Ok s \<and> ldhsecret Y [1, 2, 3, 4, 5, 6, 7, 8] = Ok s"
proof -
  have "join64 (read_qword [1, 2, 3, 4, 5, 6, 7, 8]) \<noteq> 0" "join64 (read_qword [3, 0, 0, 0, 0, 0, 0, 0]) \<noteq> 0"
    by (simp_all add: read_qword_def bytes_word_def join64_def)
  from dh_agreement [OF _ _ this] show ?thesis by auto
qed

theorem hex_roundtrip_witness:
  "(\<exists>h. ltohex [1, 255] = Ok h \<and> length h = 4 \<and> lfromhex h = Ok [1, 255]) \<and> (\<exists>r. lfromhex [103, 87] = Ok r)"
  using hex_roundtrip [of "[1, 255]"] by (simp add: hex_accepted_def)

theorem base64_roundtrip_witness:
  "\<exists>c. lb64encode [1, 2, 3, 4] = Ok c \<and> length c = 8 \<and> lb64decode c = Ok [1, 2, 3, 4]"
  using base64_roundtrip [of "[1, 2, 3, 4]"] by simp

end
