(* ===== verification/Sha1.thy ===== *)
theory Sha1
  imports Outcome
begin

text \<open>
  SHA-1 and its message authentication code, \<^verbatim>\<open>src/ztask/lualib/lsha1.c\<close>, compiled for a
  little-endian machine. The code hashes in place: it expands the message schedule in a ring of
  16 words, renames the registers from round to round instead of moving them, and absorbs data of
  any length into a buffer of one block. It is proved equal to the definition of the standard (FIPS
  180-4), with the schedule of 80 words and the padded message cut into blocks, and the
  authentication code equal to RFC 2104.
\<close>

section \<open>Blocks\<close>

record SHA1_CTX =
  state :: "u32 list"
  count0 :: u32
  count1 :: u32
  buffer :: "byte list"

definition SHA1_DIGEST_SIZE :: nat where "SHA1_DIGEST_SIZE = 20"

definition rol :: "u32 \<Rightarrow> nat \<Rightarrow> u32" where
  "rol value1 bits = push_bit bits value1 OR drop_bit (32 - bits) value1"

text \<open>A word of the block as the machine loads it.\<close>

definition load_word :: "byte list \<Rightarrow> nat \<Rightarrow> u32" where
  "load_word b i = ucast (b ! (4 * i)) OR push_bit 8 (ucast (b ! (4 * i + 1)))
     OR push_bit 16 (ucast (b ! (4 * i + 2))) OR push_bit 24 (ucast (b ! (4 * i + 3)))"

definition blk0 :: "u32 list \<Rightarrow> nat \<Rightarrow> u32 list" where
  "blk0 l i = l[i := (rol (l ! i) 24 AND 0xFF00FF00) OR (rol (l ! i) 8 AND 0x00FF00FF)]"

definition blk :: "u32 list \<Rightarrow> nat \<Rightarrow> u32 list" where
  "blk l i = l[i mod 16 := rol (l ! ((i + 13) mod 16) XOR l ! ((i + 8) mod 16) XOR l ! ((i + 2) mod 16) XOR l ! (i mod 16)) 1]"

type_synonym registers = "u32 \<times> u32 \<times> u32 \<times> u32 \<times> u32"

text \<open>One of the macros \<^verbatim>\<open>R0\<close> to \<^verbatim>\<open>R4\<close> for round \<open>i\<close>, with the value it adds for the logical function
  and the constant. The next call takes the registers one place on, so the result is given in the
  order of its arguments.\<close>

definition sha_round :: "nat \<Rightarrow> u32 list \<times> registers \<Rightarrow> u32 list \<times> registers" where
  "sha_round i = (\<lambda>(l, v, w, x, y, z).
     let l = (if i < 16 then blk0 l i else blk l i);
         f = (if i < 20 then (w AND (x XOR y)) XOR y
              else if i < 40 then w XOR x XOR y
              else if i < 60 then ((w OR x) AND y) OR (w AND x)
              else w XOR x XOR y);
         k = (if i < 20 then 0x5A827999 else if i < 40 then 0x6ED9EBA1 else if i < 60 then 0x8F1BBCDC else 0xCA62C1D6);
         z = z + (f + l ! (i mod 16) + k + rol v 5);
         w = rol w 30
     in (l, z, v, w, x, y))"

definition SHA1_Transform :: "u32 list \<Rightarrow> byte list \<Rightarrow> u32 list" where
  "SHA1_Transform st block =
     (let (l, a, b, c, d, e) =
        fold sha_round [0..<80] (map (load_word block) [0..<16], st ! 0, st ! 1, st ! 2, st ! 3, st ! 4)
      in [st ! 0 + a, st ! 1 + b, st ! 2 + c, st ! 3 + d, st ! 4 + e])"

section \<open>Streams\<close>

definition SHA1_Init :: SHA1_CTX where
  "SHA1_Init = \<lparr>state = [0x67452301, 0xEFCDAB89, 0x98BADCFE, 0x10325476, 0xC3D2E1F0], count0 = 0, count1 = 0,
     buffer = replicate 64 0\<rparr>"

definition copy_at :: "nat \<Rightarrow> byte list \<Rightarrow> byte list \<Rightarrow> byte list" where
  "copy_at j src dst = take j dst @ src @ drop (j + length src) dst"

text \<open>The loop over whole blocks of the data; what is left goes to the buffer.\<close>

function sha_blocks :: "u32 list \<Rightarrow> byte list \<Rightarrow> u32 list \<times> byte list" where
  "sha_blocks st data =
     (if 63 < length data then sha_blocks (SHA1_Transform st (take 64 data)) (drop 64 data) else (st, data))"
  by pat_completeness auto
termination by (relation "measure (\<lambda>(st, data). length data)") auto

declare sha_blocks.simps [simp del]

text \<open>\<^verbatim>\<open>len << 3\<close> is a 64-bit number; \<^verbatim>\<open>count[0]\<close> is compared with it after the addition.\<close>

definition SHA1_Update :: "SHA1_CTX \<Rightarrow> byte list \<Rightarrow> SHA1_CTX" where
  "SHA1_Update ctx data =
     (let len = (of_nat (length data) :: u64);
          j = unat (drop_bit 3 (count0 ctx) AND 63);
          c0 = ucast (ucast (count0 ctx) + push_bit 3 len :: u64) :: u32;
          c1 = (if (ucast c0 :: u64) < push_bit 3 len then count1 ctx + 1 else count1 ctx);
          c1 = c1 + ucast (drop_bit 29 len)
      in if 63 < j + length data
         then let buf = copy_at j (take (64 - j) data) (buffer ctx);
                  (st, rest) = sha_blocks (SHA1_Transform (state ctx) buf) (drop (64 - j) data)
              in ctx\<lparr>state := st, count0 := c0, count1 := c1, buffer := copy_at 0 rest buf\<rparr>
         else ctx\<lparr>count0 := c0, count1 := c1, buffer := copy_at j data (buffer ctx)\<rparr>)"

definition word_be :: "u32 \<Rightarrow> byte list" where
  "word_be w = map (\<lambda>i. ucast (drop_bit ((3 - i) * 8) w AND 255)) [0..<4]"

partial_function (option) sha_pad :: "SHA1_CTX \<Rightarrow> SHA1_CTX option" where
  "sha_pad ctx = (if count0 ctx AND 504 \<noteq> 448 then sha_pad (SHA1_Update ctx [0]) else Some ctx)"

definition SHA1_Final :: "SHA1_CTX \<Rightarrow> byte list option" where
  "SHA1_Final ctx =
     (let finalcount = word_be (count1 ctx) @ word_be (count0 ctx) in
      do { c \<leftarrow> sha_pad (SHA1_Update ctx [0x80]);
           let c = SHA1_Update c finalcount;
           Some (concat (map word_be (state c))) })"

definition lsha1 :: "byte list \<Rightarrow> byte list option" where
  "lsha1 t = SHA1_Final (SHA1_Update SHA1_Init t)"

section \<open>The authentication code\<close>

definition BLOCKSIZE :: nat where "BLOCKSIZE = 64"

definition xor_key :: "byte list \<Rightarrow> u32 \<Rightarrow> byte list" where
  "xor_key key x = map (\<lambda>i. key ! i XOR ucast (drop_bit (8 * (i mod 4)) x)) [0..<BLOCKSIZE]"

definition lhmac_sha1 :: "byte list \<Rightarrow> byte list \<Rightarrow> byte list option" where
  "lhmac_sha1 key t =
     do { let rkey = replicate BLOCKSIZE 0;
          rkey \<leftarrow> (if BLOCKSIZE < length key
                   then do { d \<leftarrow> SHA1_Final (SHA1_Update SHA1_Init key); Some (copy_at 0 d rkey) }
                   else Some (copy_at 0 key rkey));
          let rkey = xor_key rkey 0x5c5c5c5c;
          let ctx1 = SHA1_Update SHA1_Init rkey;
          let rkey = xor_key rkey (0x5c5c5c5c XOR 0x36363636);
          let ctx2 = SHA1_Update (SHA1_Update SHA1_Init rkey) t;
          digest2 \<leftarrow> SHA1_Final ctx2;
          SHA1_Final (SHA1_Update ctx1 digest2) }"

section \<open>The standard\<close>

definition fips_word :: "byte list \<Rightarrow> nat \<Rightarrow> u32" where
  "fips_word b i = push_bit 24 (ucast (b ! (4 * i))) OR push_bit 16 (ucast (b ! (4 * i + 1)))
     OR push_bit 8 (ucast (b ! (4 * i + 2))) OR ucast (b ! (4 * i + 3))"

fun fips_W :: "byte list \<Rightarrow> nat \<Rightarrow> u32" where
  "fips_W b t = (if t < 16 then fips_word b t
     else rol (fips_W b (t - 3) XOR fips_W b (t - 8) XOR fips_W b (t - 14) XOR fips_W b (t - 16)) 1)"

declare fips_W.simps [simp del]

definition fips_f :: "nat \<Rightarrow> u32 \<Rightarrow> u32 \<Rightarrow> u32 \<Rightarrow> u32" where
  "fips_f t x y z =
     (if t < 20 then (x AND y) XOR (NOT x AND z)
      else if 40 \<le> t \<and> t < 60 then (x AND y) XOR (x AND z) XOR (y AND z)
      else x XOR y XOR z)"

definition fips_K :: "nat \<Rightarrow> u32" where
  "fips_K t = (if t < 20 then 0x5a827999 else if t < 40 then 0x6ed9eba1 else if t < 60 then 0x8f1bbcdc else 0xca62c1d6)"

definition fips_step :: "byte list \<Rightarrow> nat \<Rightarrow> registers \<Rightarrow> registers" where
  "fips_step M t = (\<lambda>(a, b, c, d, e).
     (rol a 5 + fips_f t b c d + e + fips_K t + fips_W M t, a, rol b 30, c, d))"

definition fips_block :: "u32 list \<Rightarrow> byte list \<Rightarrow> u32 list" where
  "fips_block H M =
     (let (a, b, c, d, e) = fold (fips_step M) [0..<80] (H ! 0, H ! 1, H ! 2, H ! 3, H ! 4)
      in [H ! 0 + a, H ! 1 + b, H ! 2 + c, H ! 3 + d, H ! 4 + e])"

definition fips_pad :: "byte list \<Rightarrow> byte list" where
  "fips_pad m = m @ 0x80 # replicate ((119 - length m mod 64) mod 64) 0 @ rev (le_bytes 8 (8 * length m))"

function fips_fold :: "u32 list \<Rightarrow> byte list \<Rightarrow> u32 list" where
  "fips_fold H m = (if m = [] then H else fips_fold (fips_block H (take 64 m)) (drop 64 m))"
  by pat_completeness auto
termination by (relation "measure (\<lambda>(H, m). length m)") auto

declare fips_fold.simps [simp del]

definition sha1_spec :: "byte list \<Rightarrow> byte list" where
  "sha1_spec m = concat (map word_be (fips_fold [0x67452301, 0xEFCDAB89, 0x98BADCFE, 0x10325476, 0xC3D2E1F0] (fips_pad m)))"

text \<open>RFC 2104 with SHA-1.\<close>

definition hmac_spec :: "byte list \<Rightarrow> byte list \<Rightarrow> byte list" where
  "hmac_spec key m =
     (let k0 = (if 64 < length key then sha1_spec key else key);
          k = k0 @ replicate (64 - length k0) 0
      in sha1_spec (map (\<lambda>b. b XOR 0x5c) k @ sha1_spec (map (\<lambda>b. b XOR 0x36) k @ m)))"

section \<open>The compression function\<close>

lemma fips_f_code:
  "t < 20 \<Longrightarrow> (w AND (x XOR y)) XOR y = fips_f t w x y"
  "20 \<le> t \<Longrightarrow> t < 40 \<Longrightarrow> w XOR x XOR y = fips_f t w x y"
  "40 \<le> t \<Longrightarrow> t < 60 \<Longrightarrow> ((w OR x) AND y) OR (w AND x) = fips_f t w x y"
  "60 \<le> t \<Longrightarrow> w XOR x XOR y = fips_f t w x y"
  unfolding fips_f_def by (simp_all, (rule bit_word_eqI; auto simp: bit_simps)+)

lemma byte_swap: "(rol (load_word b i) 24 AND 0xFF00FF00) OR (rol (load_word b i) 8 AND 0x00FF00FF) = fips_word b i"
proof -
  have m: "(0xFF00FF00 :: u32) = push_bit 8 (mask 8) OR push_bit 24 (mask 8)" "(0x00FF00FF :: u32) = mask 8 OR push_bit 16 (mask 8)"
    by (simp_all add: mask_eq_exp_minus_1)
  show ?thesis
    unfolding m rol_def load_word_def fips_word_def
    apply (rule bit_word_eqI)
    subgoal for n
      apply (cases "n < 8"; cases "n < 16"; cases "n < 24")
      apply (auto simp: bit_simps not_less dest: bit_imp_le_length)
      done
    done
qed

text \<open>The ring before round \<open>i\<close>.\<close>

definition ring_ok :: "byte list \<Rightarrow> nat \<Rightarrow> u32 list \<Rightarrow> bool" where
  "ring_ok b i l \<longleftrightarrow> length l = 16 \<and> (\<forall>k < i. i \<le> k + 16 \<longrightarrow> l ! (k mod 16) = fips_W b k) \<and>
     (\<forall>k < 16. i \<le> k \<longrightarrow> l ! k = load_word b k)"

lemma ring_index:
  assumes "(16 :: nat) \<le> i"
  shows "(i + 13) mod 16 = (i - 3) mod 16" "(i + 8) mod 16 = (i - 8) mod 16" "(i + 2) mod 16 = (i - 14) mod 16"
    "i mod 16 = (i - 16) mod 16"
proof -
  obtain j where i: "i = 16 + j" using assms le_Suc_ex by blast
  have e: "i + 13 = (i - 3) + 16" "i + 8 = (i - 8) + 16" "i + 2 = (i - 14) + 16" "i = (i - 16) + 16" by (simp_all add: i)
  show "(i + 13) mod 16 = (i - 3) mod 16" "(i + 8) mod 16 = (i - 8) mod 16" "(i + 2) mod 16 = (i - 14) mod 16"
    unfolding e(1-3) by (rule mod_add_self2)+
  show "i mod 16 = (i - 16) mod 16" by (subst e(4)) (rule mod_add_self2)
qed

lemma ring_step:
  assumes "ring_ok b i l"
  defines "l' \<equiv> if i < 16 then blk0 l i else blk l i"
  shows "ring_ok b (Suc i) l'" "l' ! (i mod 16) = fips_W b i"
proof -
  have len: "length l = 16" "length l' = 16" using assms by (simp_all add: ring_ok_def blk0_def blk_def)
  show w: "l' ! (i mod 16) = fips_W b i"
  proof (cases "i < 16")
    case True
    then have "l ! i = load_word b i" using assms by (simp add: ring_ok_def)
    then show ?thesis using True len by (subst fips_W.simps) (simp add: l'_def blk0_def byte_swap)
  next
    case False
    have old: "l ! (k mod 16) = fips_W b k" if "k < i" "i \<le> k + 16" for k using assms(1) that by (simp add: ring_ok_def)
    note m = ring_index [OF False [unfolded not_less]]
    have "l ! ((i + 13) mod 16) = fips_W b (i - 3)" "l ! ((i + 8) mod 16) = fips_W b (i - 8)"
      "l ! ((i + 2) mod 16) = fips_W b (i - 14)"
      unfolding m by (rule old; use False in linarith)+
    moreover have "l ! (i mod 16) = fips_W b (i - 16)"
      by (subst m(4), rule old) (use False in linarith)+
    ultimately
have "blk l i ! (i mod 16) = rol (fips_W b (i - 3) XOR fips_W b (i - 8) XOR fips_W b (i - 14) XOR fips_W b (i - 16)) 1"
      using len(1) unfolding blk_def by (simp only: nth_list_update_eq mod_less_divisor zero_less_numeral)
    then show ?thesis using False unfolding l'_def by (subst fips_W.simps) (simp only: if_False)
  qed
  have other: "l' ! k = l ! k" if "k \<noteq> i mod 16" for k using that by (auto simp: l'_def blk0_def blk_def)
  show "ring_ok b (Suc i) l'"
    unfolding ring_ok_def
  proof (intro conjI allI impI len(2))
    fix k assume k: "k < Suc i" "Suc i \<le> k + 16"
    show "l' ! (k mod 16) = fips_W b k"
    proof (cases "k = i")
      case False
      then have "k < i" "i - k < 16" using k by linarith+
      then have "k mod 16 \<noteq> i mod 16" using mod_eq_dvd_iff_nat [of k i 16] by (auto dest!: dvd_imp_le simp: eq_commute)
      then show ?thesis using other assms(1) k False by (simp add: ring_ok_def)
    qed (use w in simp)
  next
    fix k assume k: "k < 16" "Suc i \<le> k"
    then show "l' ! k = load_word b k" using other [of k] assms(1) by (simp add: ring_ok_def)
  qed
qed

lemma fold_rounds:
  "ring_ok b i l \<Longrightarrow> \<exists>l'. fold sha_round [i..<i + n] (l, r) = (l', fold (fips_step b) [i..<i + n] r)"
proof (induction n arbitrary: i l r)
  case (Suc n)
  obtain v w x y z where r: "r = (v, w, x, y, z)" by (cases r)
  let ?l = "if i < 16 then blk0 l i else blk l i"
  note s = ring_step [OF Suc.prems]
  have "sha_round i (l, r) = (?l, fips_step b i r)"
    using s(2) fips_f_code [of i w x y]
    by (auto simp: sha_round_def fips_step_def r Let_def fips_K_def not_less algebra_simps)
  moreover have "[i..<i + Suc n] = i # [Suc i..<Suc i + n]" by (simp add: upt_conv_Cons)
  ultimately show ?case using Suc.IH [OF s(1), of "fips_step b i r"] by simp
qed simp

lemma SHA1_Transform_fips:
  assumes "length st = 5"
  shows "SHA1_Transform st b = fips_block st b"
proof -
  have "ring_ok b 0 (map (load_word b) [0..<16])" by (simp add: ring_ok_def)
  from fold_rounds [OF this, of 80 "(st ! 0, st ! 1, st ! 2, st ! 3, st ! 4)"]
  show ?thesis by (auto simp: SHA1_Transform_def fips_block_def split_beta simp del: upt_rec_numeral)
qed

section \<open>Streams of data\<close>

definition sha_H0 :: "u32 list" where
  "sha_H0 = [0x67452301, 0xEFCDAB89, 0x98BADCFE, 0x10325476, 0xC3D2E1F0]"

lemma fips_block_length [simp]: "length (fips_block H M) = 5"
  by (simp add: fips_block_def split_beta del: upt_rec_numeral)

lemma fips_fold_Nil [simp]: "fips_fold H [] = H"
  by (simp add: fips_fold.simps)

lemma fips_fold_block: "length b = 64 \<Longrightarrow> fips_fold H (b @ m) = fips_fold (fips_block H b) m"
  by (subst fips_fold.simps) auto

lemma fips_fold_append: "64 dvd length a \<Longrightarrow> fips_fold H (a @ b) = fips_fold (fips_fold H a) b"
proof (induction H a rule: fips_fold.induct)
  case (1 H m)
  show ?case
  proof (cases "m = []")
    case False
    then have len: "64 \<le> length m" using "1.prems" by (auto dest: dvd_imp_le)
    then have m: "m = take 64 m @ drop 64 m" "length (take 64 m) = 64" by simp_all
    have "64 dvd length (drop 64 m)" using "1.prems" len by (simp add: dvd_diff_nat)
    then have "fips_fold (fips_block H (take 64 m)) (drop 64 m @ b) = fips_fold (fips_fold (fips_block H (take 64 m)) (drop 64 m)) b"
      using "1.IH" False by blast
    moreover have "fips_fold H (m @ b) = fips_fold (fips_block H (take 64 m)) (drop 64 m @ b)"
      using fips_fold_block [OF m(2), of H "drop 64 m @ b"] by (subst m(1)) (simp only: append.assoc)
    moreover have "fips_fold H m = fips_fold (fips_block H (take 64 m)) (drop 64 m)"
      using fips_fold_block [OF m(2), of H "drop 64 m"] by (subst m(1)) simp
    ultimately show ?thesis by simp
  qed simp
qed

lemma fips_fold_length: "length H = 5 \<Longrightarrow> length (fips_fold H m) = 5"
proof (induction H m rule: fips_fold.induct)
  case (1 H m)
  then show ?case by (cases "m = []") (simp_all add: fips_fold.simps [of H m])
qed

lemma sha_blocks_ok:
  "length st = 5 \<Longrightarrow> \<exists>f r. data = f @ r \<and> 64 dvd length f \<and> length r < 64 \<and> sha_blocks st data = (fips_fold st f, r)"
proof (induction st data rule: sha_blocks.induct)
  case (1 st data)
  show ?case
  proof (cases "63 < length data")
    case True
    let ?b = "take 64 data"
    have t: "SHA1_Transform st ?b = fips_block st ?b" by (rule SHA1_Transform_fips [OF "1.prems"])
    obtain f r where r: "drop 64 data = f @ r" "64 dvd length f" "length r < 64"
      "sha_blocks (SHA1_Transform st ?b) (drop 64 data) = (fips_fold (fips_block st ?b) f, r)"
      using "1.IH" [OF True] t by auto
    have "data = (?b @ f) @ r" using r(1) by (metis append.assoc append_take_drop_id)
    moreover have "length ?b = 64" using True by simp
    moreover from this have "64 dvd length (?b @ f)" using r(2) by simp
    moreover have "sha_blocks st data = (fips_fold st (?b @ f), r)"
      using True r(4) fips_fold_block [OF \<open>length ?b = 64\<close>] by (subst sha_blocks.simps) simp
    ultimately show ?thesis using r(3) by blast
  next
    case False
    then have "sha_blocks st data = (st, data)" by (subst sha_blocks.simps) simp
    then show ?thesis using False by (intro exI [of _ "[]"] exI [of _ data]) simp
  qed
qed

definition count_ok :: "nat \<Rightarrow> SHA1_CTX \<Rightarrow> bool" where
  "count_ok n c \<longleftrightarrow> unat (count0 c) = (8 * n) mod 2 ^ 32 \<and> unat (count1 c) = (8 * n) div 2 ^ 32 mod 2 ^ 32"

definition sha_inv :: "SHA1_CTX \<Rightarrow> byte list \<Rightarrow> bool" where
  "sha_inv c m \<longleftrightarrow> count_ok (length m) c \<and> length (buffer c) = 64 \<and>
     (\<exists>f p. m = f @ p \<and> 64 dvd length f \<and> length p < 64 \<and> state c = fips_fold sha_H0 f \<and> take (length p) (buffer c) = p)"

lemma sha_inv_Init: "sha_inv SHA1_Init []"
  by (auto simp: sha_inv_def count_ok_def SHA1_Init_def sha_H0_def)

lemma count_position:
  assumes "count_ok n c"
  shows "unat (drop_bit 3 (count0 c) AND 63) = n mod 64" "unat (count0 c AND 504) = 8 * (n mod 64)"
proof -
  have u: "unat (count0 c) = (8 * n) mod 2 ^ 32" using assms by (simp add: count_ok_def)
  have d: "unat (drop_bit 3 (count0 c)) = n mod 2 ^ 29"
    unfolding drop_bit_eq_div unat_div by (simp add: u mod_mult_mult1 [of 8 n "2 ^ 29", simplified])
  have "(63 :: u32) = mask 6" by (simp add: mask_eq_exp_minus_1)
  then have "unat (drop_bit 3 (count0 c) AND 63) = unat (take_bit 6 (drop_bit 3 (count0 c)))"
    by (simp only: take_bit_eq_mask)
  then have "unat (drop_bit 3 (count0 c) AND 63) = unat (drop_bit 3 (count0 c)) mod 2 ^ 6"
    unfolding unsigned_take_bit_eq by (simp only: take_bit_eq_mod)
  then show p: "unat (drop_bit 3 (count0 c) AND 63) = n mod 64"
    using d mod_mod_cancel [of 64 "2 ^ 29" n] by simp
  have m: "(504 :: u32) = push_bit 3 (mask 6)" "(63 :: u32) = mask 6" by (simp_all add: mask_eq_exp_minus_1)
  have "count0 c AND 504 = push_bit 3 (drop_bit 3 (count0 c) AND 63)"
    unfolding m by (rule bit_word_eqI) (auto simp: bit_simps)
  then have "unat (count0 c AND 504) = unat (push_bit 3 (drop_bit 3 (count0 c) AND 63))" by (rule arg_cong)
  also have "\<dots> = take_bit 32 (push_bit 3 (n mod 64))"
    unfolding unsigned_push_bit_eq p by simp
  also have "\<dots> = 8 * (n mod 64)"
    using mod_less_divisor [of 64 n] by (simp add: push_bit_eq_mult take_bit_eq_mod)
  finally show "unat (count0 c AND 504) = 8 * (n mod 64)" .
qed

lemma carry_nat:
  fixes a l x :: nat
  assumes "x = X * b + a" "a < b" "l < b"
  shows "(x + l) mod b = (a + l) mod b" "(x + l) div b = X + (if (a + l) mod b < l then 1 else 0)"
proof -
  have b: "0 < b" using assms by simp
  show "(x + l) mod b = (a + l) mod b" by (simp add: assms(1) add.assoc)
  have "(x + l) div b = X + (a + l) div b" using b by (simp add: assms(1) add.assoc)
  also have "(a + l) div b = (if (a + l) mod b < l then 1 else 0)"
  proof (cases "a + l < b")
    case False
    then have "a + l = (a + l - b) + b" "a + l - b < b" using assms by simp_all
    then have "(a + l) mod b = a + l - b" "(a + l) div b = 1" using b
      by (metis mod_add_self2 mod_less, metis div_add_self2 div_less add_0 less_not_refl2)
    then show ?thesis using assms False by simp
  qed simp
  finally show "(x + l) div b = X + (if (a + l) mod b < l then 1 else 0)" .
qed

lemma SHA1_Update_counts:
  fixes d defines "s \<equiv> push_bit 3 (of_nat (length d)) :: u64"
  shows "count0 (SHA1_Update c d) = ucast (ucast (count0 c) + s)"
    "count1 (SHA1_Update c d) = (if (ucast (count0 (SHA1_Update c d)) :: u64) < s then count1 c + 1 else count1 c)
       + ucast (drop_bit 29 (of_nat (length d) :: u64))"
  unfolding s_def SHA1_Update_def Let_def by (simp_all only: split_beta if_split SHA1_CTX.simps split: if_split) auto

lemma count_update:
  assumes "count_ok n c" "length d < 2 ^ 29"
  shows "count_ok (n + length d) (SHA1_Update c d)"
proof -
  let ?s = "push_bit 3 (of_nat (length d)) :: u64"
  have k: "unat (count0 c) = (8 * n) mod 2 ^ 32" "unat (count1 c) = (8 * n) div 2 ^ 32 mod 2 ^ 32"
    using assms by (simp_all add: count_ok_def)
  have L: "8 * length d < 2 ^ 32" using assms(2) by simp
  have s: "unat ?s = 8 * length d"
    unfolding unsigned_push_bit_eq unat_of_nat using assms(2) by (simp add: push_bit_eq_mult take_bit_eq_mod del: push_bit_numeral)
  have z: "drop_bit 29 (of_nat (length d) :: u64) = 0"
    using assms(2) by (intro word_unat_eq_iff [THEN iffD2]) (simp add: unat_div unat_of_nat drop_bit_eq_div)
  have lt: "unat (count0 c) + 8 * length d < 2 ^ 64" using L k(1) mod_less_divisor [of "2 ^ 32" "8 * n"] by simp
  have c0: "unat (count0 (SHA1_Update c d)) = ((8 * n) mod 2 ^ 32 + 8 * length d) mod 2 ^ 32"
    unfolding SHA1_Update_counts using lt k(1)
    by (simp add: unsigned_ucast_eq take_bit_eq_mod unat_word_ariths s del: push_bit_numeral)
  have "unat (ucast (count0 (SHA1_Update c d)) :: u64) = unat (count0 (SHA1_Update c d))"
    using unsigned_less [where ?'b = 32 and ?'a = nat and w = "count0 (SHA1_Update c d)"]
    by (simp add: unsigned_ucast_eq take_bit_eq_mod)
  then have "(ucast (count0 (SHA1_Update c d)) :: u64) < ?s \<longleftrightarrow> ((8 * n) mod 2 ^ 32 + 8 * length d) mod 2 ^ 32 < 8 * length d"
    unfolding word_less_nat_alt s by (simp only: c0)
  then have c1: "count1 (SHA1_Update c d) = count1 c + (if ((8 * n) mod 2 ^ 32 + 8 * length d) mod 2 ^ 32 < 8 * length d then 1 else 0)"
    by (simp add: SHA1_Update_counts(2) z)
  note carry = carry_nat [of "8 * n" "8 * n div 2 ^ 32" "2 ^ 32" "8 * n mod 2 ^ 32" "8 * length d", OF _ _ L]
  have dm: "8 * n = 8 * n div 2 ^ 32 * 2 ^ 32 + 8 * n mod 2 ^ 32" by (rule div_mult_mod_eq [symmetric])
  show ?thesis
    unfolding count_ok_def distrib_left carry [OF dm mod_less_divisor [OF zero_less_power [OF zero_less_numeral]]]
    using c0 by (simp add: c1 unat_word_ariths k(2) mod_simps)
qed

lemma fips_fold_H0 [simp]: "length (fips_fold sha_H0 f) = 5"
  by (rule fips_fold_length) (simp add: sha_H0_def)

lemma sha_inv_Update:
  assumes inv: "sha_inv c m" and small: "length d < 2 ^ 29"
  shows "sha_inv (SHA1_Update c d) (m @ d)"
proof -
  obtain f p where m: "m = f @ p" "64 dvd length f" "length p < 64" "SHA1_CTX.state c = fips_fold sha_H0 f"
    "take (length p) (buffer c) = p" and len: "length (buffer c) = 64" and cnt: "count_ok (length m) c"
    using inv by (auto simp: sha_inv_def)
  have j: "unat (drop_bit 3 (count0 c) AND 63) = length p"
    using count_position(1) [OF cnt] m(1-3) by (auto elim!: dvdE)
  have cnt': "count_ok (length (m @ d)) (SHA1_Update c d)" using count_update [OF cnt small] by simp
  show ?thesis
  proof (cases "63 < length p + length d")
    case False
    then have "SHA1_CTX.state (SHA1_Update c d) = fips_fold sha_H0 f" "buffer (SHA1_Update c d) = copy_at (length p) d (buffer c)"
      using j m(4) by (simp_all add: SHA1_Update_def Let_def)
    moreover have "take (length (p @ d)) (copy_at (length p) d (buffer c)) = p @ d"
      using m(5) len m(3) by (simp add: copy_at_def)
    moreover have "length (copy_at (length p) d (buffer c)) = 64" using False len m(3) by (simp add: copy_at_def)
    ultimately show ?thesis unfolding sha_inv_def using m(1,2) False cnt'
      by (intro conjI exI [of _ f] exI [of _ "p @ d"]) auto
  next
    case True
    let ?k = "64 - length p"
    let ?b = "p @ take ?k d"
    have b: "copy_at (length p) (take ?k d) (buffer c) = ?b" "length ?b = 64"
      using True len m(3,5) by (simp_all add: copy_at_def)
    have t: "SHA1_Transform (SHA1_CTX.state c) ?b = fips_fold sha_H0 (f @ ?b)"
      using fips_fold_append [OF m(2)] fips_fold_block [OF b(2), of _ "[]"] by (simp add: m(4) SHA1_Transform_fips)
    obtain g r where r: "drop ?k d = g @ r" "64 dvd length g" "length r < 64"
      "sha_blocks (fips_fold sha_H0 (f @ ?b)) (drop ?k d) = (fips_fold (fips_fold sha_H0 (f @ ?b)) g, r)"
      using sha_blocks_ok [OF fips_fold_H0] by blast
    have f: "64 dvd length (f @ ?b)" using m(2) b(2) by simp
    have "m @ d = ((f @ ?b) @ g) @ r" using m(1) r(1) by (metis append.assoc append_take_drop_id)
    moreover have "64 dvd length ((f @ ?b) @ g)"
      unfolding length_append [of "f @ ?b" g] by (rule dvd_add [OF f r(2)])
    moreover have u: "SHA1_CTX.state (SHA1_Update c d) = fips_fold (fips_fold sha_H0 (f @ ?b)) g"
      "buffer (SHA1_Update c d) = copy_at 0 r ?b"
      using True j b(1) r(4) t by (simp_all add: SHA1_Update_def Let_def)
    moreover have "take (length r) (copy_at 0 r ?b) = r" "length (copy_at 0 r ?b) = 64"
      using r(3) b(2) by (simp_all add: copy_at_def)
    ultimately show ?thesis unfolding sha_inv_def using r(3) cnt' fips_fold_append [OF f, of sha_H0 g]
      by (intro conjI exI [of _ "(f @ ?b) @ g"] exI [of _ r]) simp_all
  qed
qed

lemma pad_count:
  assumes "r < (64 :: nat)"
  shows "(120 - r) mod 64 = 0 \<longleftrightarrow> r = 56" "r \<noteq> 56 \<Longrightarrow> (120 - r) mod 64 = Suc ((120 - Suc r mod 64) mod 64)"
proof -
  have "\<forall>r\<in>set [0..<64 :: nat]. ((120 - r) mod 64 = 0 \<longleftrightarrow> r = 56) \<and>
      (r \<noteq> 56 \<longrightarrow> (120 - r) mod 64 = Suc ((120 - Suc r mod 64) mod 64))"
    by code_simp
  then show "(120 - r) mod 64 = 0 \<longleftrightarrow> r = 56" "r \<noteq> 56 \<Longrightarrow> (120 - r) mod 64 = Suc ((120 - Suc r mod 64) mod 64)"
    using assms by simp_all
qed

lemma sha_pad_done: "sha_inv c m \<Longrightarrow> count0 c AND 504 = 448 \<longleftrightarrow> length m mod 64 = 56"
  using count_position(2) [of "length m" c] by (auto simp: sha_inv_def word_unat_eq_iff)

lemma sha_pad_ends:
  assumes "sha_inv c m"
  shows "\<exists>c'. sha_pad c = Some c' \<and> sha_inv c' (m @ replicate ((120 - length m mod 64) mod 64) 0)"
  using assms
proof (induction "(120 - length m mod 64) mod 64" arbitrary: c m)
  case 0
  have "length m mod 64 = 56" using 0(1) pad_count(1) [of "length m mod 64"] by simp
  with 0 show ?case using sha_pad_done [OF "0.prems"] by (subst sha_pad.simps) simp
next
  case (Suc n)
  have r: "length m mod 64 < 64" by simp
  have ne: "length m mod 64 \<noteq> 56" using Suc.hyps(2) pad_count(1) [OF r] by linarith
  then have step: "sha_pad c = sha_pad (SHA1_Update c [0])" using sha_pad_done [OF Suc.prems] by (subst sha_pad.simps) simp
  have n: "n = (120 - length (m @ [0]) mod 64) mod 64"
    using Suc.hyps(2) pad_count(2) [OF r ne] by (simp add: mod_Suc_eq)
  have "sha_inv (SHA1_Update c [0]) (m @ [0])" by (rule sha_inv_Update [OF Suc.prems]) simp
  from Suc.hyps(1) [OF n this] show ?case
    unfolding step Suc.hyps(2) [symmetric] n [symmetric] by simp
qed

lemma word_be_bytes: "word_be w = rev (le_bytes 4 (unat w))"
proof -
  have b: "(ucast (drop_bit k w AND 255) :: byte) = of_nat (unat w div 2 ^ k mod 256)" for k
  proof -
    have m: "(255 :: u32) = mask 8" by (simp add: mask_eq_exp_minus_1)
    have "take_bit 32 (unat w) = unat w"
      using unsigned_less [where ?'b = 32 and ?'a = nat and w = w] by (simp add: take_bit_nat_eq_self)
    then have "unat (drop_bit k w) = unat w div 2 ^ k"
      unfolding unsigned_drop_bit_eq by (simp add: drop_bit_eq_div)
    moreover have "unat (take_bit 8 (drop_bit k w)) = unat (drop_bit k w) mod 256"
      unfolding unsigned_take_bit_eq by (simp add: take_bit_eq_mod)
    ultimately show ?thesis unfolding m take_bit_eq_mask [symmetric]
      by (simp add: word_unat_eq_iff unsigned_ucast_eq take_bit_eq_mod del: take_bit_word_eq_self)
  qed
  have four: "(4 :: nat) = Suc (Suc (Suc (Suc 0)))" by simp
  have le: "le_bytes 4 n = map of_nat [n mod 256, n div 256 mod 256, n div 256 div 256 mod 256, n div 256 div 256 div 256 mod 256]" for n
    unfolding four le_bytes.simps by (simp only: list.map)
  have "[0..<4] = [0, 1, 2, 3 :: nat]" by code_simp
  moreover have "2 ^ ((3 - 0) * 8) = (256 * 256 * 256 :: nat)" "2 ^ ((3 - 1) * 8) = (256 * 256 :: nat)"
    "2 ^ ((3 - 2) * 8) = (256 :: nat)" "2 ^ ((3 - 3) * 8) = (1 :: nat)" by simp_all
  ultimately show ?thesis
    unfolding word_be_def b le by (simp only: list.map div_mult2_eq rev.simps append.simps div_by_1)
qed


lemma le_bytes_mod: "le_bytes k (n mod 256 ^ k) = le_bytes k n"
  using le_bytes_value [of "le_bytes k n" k] by (simp add: le_value_bytes)

lemma le_bytes_add: "le_bytes (j + k) n = le_bytes j n @ le_bytes k (n div 256 ^ j)"
  by (induction j arbitrary: n) (simp_all add: div_mult2_eq)

lemma word_be_length:
  assumes "count_ok n c"
  shows "word_be (count1 c) @ word_be (count0 c) = rev (le_bytes 8 (8 * n))"
proof -
  have p: "(2 :: nat) ^ 32 = 256 ^ 4" by simp
  have "le_bytes 8 (8 * n) = le_bytes 4 (8 * n) @ le_bytes 4 (8 * n div 256 ^ 4)"
    using le_bytes_add [of 4 4] by simp
  moreover have "unat (count0 c) = 8 * n mod 256 ^ 4" "unat (count1 c) = 8 * n div 256 ^ 4 mod 256 ^ 4"
    using assms unfolding count_ok_def p by auto
  ultimately show ?thesis unfolding word_be_bytes by (simp only: le_bytes_mod rev_append)
qed

lemma pad_length:
  "(120 - Suc n mod 64) mod 64 = (119 - n mod 64) mod (64 :: nat)"
  "64 dvd length (fips_pad m)"
proof -
  have c: "\<forall>r\<in>set [0..<64 :: nat]. (120 - Suc r mod 64) mod 64 = (119 - r) mod 64 \<and> (r + (9 + (119 - r) mod 64)) mod 64 = 0"
    by code_simp
  have r: "n mod 64 \<in> set [0..<64]" for n :: nat by simp
  have "(120 - Suc (n mod 64) mod 64) mod 64 = (119 - n mod 64) mod 64" using c r by blast
  then show "(120 - Suc n mod 64) mod 64 = (119 - n mod 64) mod (64 :: nat)" by (simp add: mod_Suc_eq)
  have "(length m mod 64 + (9 + (119 - length m mod 64) mod 64)) mod 64 = 0" using c r by blast
  then have "(length m + (9 + (119 - length m mod 64) mod 64)) mod 64 = 0" by (simp only: mod_add_left_eq)
  moreover have "length (fips_pad m) = length m + (9 + (119 - length m mod 64) mod 64)" by (simp add: fips_pad_def)
  ultimately show "64 dvd length (fips_pad m)" by (simp only: dvd_eq_mod_eq_0)
qed

lemma sha_inv_full:
  assumes "sha_inv c m" "64 dvd length m"
  shows "SHA1_CTX.state c = fips_fold sha_H0 m"
proof -
  obtain f p where m: "m = f @ p" "64 dvd length f" "length p < 64" "SHA1_CTX.state c = fips_fold sha_H0 f"
    using assms(1) by (auto simp: sha_inv_def)
  have "64 dvd length p" using assms(2) m(1,2) by (simp add: dvd_add_right_iff)
  then have "p = []" using m(3) by (auto dest: dvd_imp_le)
  then show ?thesis using m by simp
qed

lemma sha_final_ok:
  assumes "sha_inv c m"
  shows "SHA1_Final c = Some (concat (map word_be (fips_fold sha_H0 (fips_pad m))))"
proof -
  have "sha_inv (SHA1_Update c [0x80]) (m @ [0x80])" by (rule sha_inv_Update [OF assms]) simp
  from sha_pad_ends [OF this] obtain c1 where c1: "sha_pad (SHA1_Update c [0x80]) = Some c1"
    "sha_inv c1 ((m @ [0x80]) @ replicate ((120 - length (m @ [0x80]) mod 64) mod 64) 0)" by blast
  have tail: "word_be (count1 c) @ word_be (count0 c) = rev (le_bytes 8 (8 * length m))"
    using assms by (simp add: sha_inv_def word_be_length)
  let ?c2 = "SHA1_Update c1 (rev (le_bytes 8 (8 * length m)))"
  have "sha_inv ?c2 (fips_pad m)"
    using sha_inv_Update [OF c1(2), of "rev (le_bytes 8 (8 * length m))"] by (simp add: fips_pad_def pad_length(1))
  from sha_inv_full [OF this pad_length(2)] show ?thesis by (simp add: SHA1_Final_def Let_def tail c1(1))
qed

text \<open>(C16)
  The digest of \<^verbatim>\<open>crypt.sha1\<close> is the SHA-1 of FIPS 180-4 for every string below 512 MB: the ring of
  16 words and the renamed registers compute the rounds of the standard, blocks are cut as in the
  padded message, the padding loop ends, and the two count words hold the length.\<close>

theorem sha1_fips:
  assumes "length t < 2 ^ 29"
  shows "lsha1 t = Some (sha1_spec t)"
  using sha_final_ok [OF sha_inv_Update [OF sha_inv_Init assms]]
  by (simp add: lsha1_def sha1_spec_def sha_H0_def)


theorem sha1_fips_witness: "lsha1 [0x61, 0x62, 0x63] = Some (sha1_spec [0x61, 0x62, 0x63])"
  using sha1_fips [of "[0x61, 0x62, 0x63]"] by simp

text \<open>On a 64-bit machine \<^verbatim>\<open>count[0]\<close>, 32 bits wide, is compared with the 64 bits of \<^verbatim>\<open>len << 3\<close>, so that
  data of 512 MB or more in one call adds a carry that the high half of \<^verbatim>\<open>len << 3\<close> already brings:
  the length that is hashed is then wrong, here \<open>2 * 2 ^ 32\<close> bits where there are \<open>2 ^ 32\<close>.\<close>

lemma SHA1_Update_double_carry:
  assumes "length d = 2 ^ 29"
  shows "count1 (SHA1_Update SHA1_Init d) = 2" "count0 (SHA1_Update SHA1_Init d) = 0"
proof -
  have c0: "count0 (SHA1_Update SHA1_Init d) = 0"
    unfolding SHA1_Update_counts assms by (simp add: SHA1_Init_def)
  show "count1 (SHA1_Update SHA1_Init d) = 2" unfolding SHA1_Update_counts(2) c0 assms by (simp add: SHA1_Init_def)
  show "count0 (SHA1_Update SHA1_Init d) = 0" by (rule c0)
qed

section \<open>The authentication code is RFC 2104\<close>

lemma xor_key_bytes:
  assumes "length k = 64"
  shows "xor_key k 0x5c5c5c5c = map (\<lambda>b. b XOR 0x5c) k"
    "xor_key (map (\<lambda>b. b XOR 0x5c) k) (0x5c5c5c5c XOR 0x36363636) = map (\<lambda>b. b XOR 0x36) k"
proof -
  have m: "(ucast (drop_bit (8 * (i mod 4)) (0x5c5c5c5c :: u32)) :: byte) = 0x5c"
    "(ucast (drop_bit (8 * (i mod 4)) (0x5c5c5c5c XOR 0x36363636 :: u32)) :: byte) = 0x6a" for i :: nat
  proof -
    have "i mod 4 = 0 \<or> i mod 4 = 1 \<or> i mod 4 = 2 \<or> i mod 4 = 3" by presburger
    then show "(ucast (drop_bit (8 * (i mod 4)) (0x5c5c5c5c :: u32)) :: byte) = 0x5c"
      "(ucast (drop_bit (8 * (i mod 4)) (0x5c5c5c5c XOR 0x36363636 :: u32)) :: byte) = 0x6a" by auto
  qed
  have "(b XOR 0x5c) XOR 0x6a = b XOR 0x36" for b :: byte by (simp add: xor.assoc)
  then show "xor_key k 0x5c5c5c5c = map (\<lambda>b. b XOR 0x5c) k"
    "xor_key (map (\<lambda>b. b XOR 0x5c) k) (0x5c5c5c5c XOR 0x36363636) = map (\<lambda>b. b XOR 0x36) k"
    unfolding xor_key_def m BLOCKSIZE_def using assms by (auto intro!: nth_equalityI)
qed

lemma sha1_spec_H0: "sha1_spec m = concat (map word_be (fips_fold sha_H0 (fips_pad m)))"
  by (simp add: sha1_spec_def sha_H0_def)

lemma length_sha1_spec: "length (sha1_spec m) = 20"
proof -
  have "length (concat (map word_be H)) = 4 * length H" for H by (induction H) (simp_all add: word_be_def)
  then show ?thesis by (simp add: sha1_spec_H0)
qed

text \<open>(C17)
  \<^verbatim>\<open>crypt.hmac_sha1\<close> is HMAC-SHA-1 of RFC 2104 for every key and text below 512 MB, the keys longer
  than a block included, which are hashed first.\<close>

theorem hmac_sha1_rfc2104:
  assumes "length key < 2 ^ 29" "length t < 2 ^ 29"
  shows "lhmac_sha1 key t = Some (hmac_spec key t)"
proof -
  let ?k0 = "if 64 < length key then sha1_spec key else key"
  let ?k = "?k0 @ replicate (64 - length ?k0) 0"
  have digest: "SHA1_Final (SHA1_Update SHA1_Init key) = Some (sha1_spec key)"
    using sha_final_ok [OF sha_inv_Update [OF sha_inv_Init assms(1)]] by (simp add: sha1_spec_H0)
  have len: "length ?k = 64" by (simp add: length_sha1_spec)
  have inv: "sha_inv (SHA1_Update SHA1_Init b) b" if "length b = 64" for b
    using sha_inv_Update [OF sha_inv_Init, of b] that by simp
  let ?i = "map (\<lambda>b. b XOR 0x36) ?k" and ?o = "map (\<lambda>b. b XOR 0x5c) ?k"
  have pads: "length ?i = 64" "length ?o = 64" unfolding length_map by (rule len)+
  have inner: "SHA1_Final (SHA1_Update (SHA1_Update SHA1_Init ?i) t) = Some (sha1_spec (?i @ t))"
    unfolding sha1_spec_H0 [of "?i @ t"] by (rule sha_final_ok [OF sha_inv_Update [OF inv [OF pads(1)] assms(2)]])
  have "length (sha1_spec (?i @ t)) < 2 ^ 29" unfolding length_sha1_spec by simp
  then have outer: "SHA1_Final (SHA1_Update (SHA1_Update SHA1_Init ?o) (sha1_spec (?i @ t))) = Some (sha1_spec (?o @ sha1_spec (?i @ t)))"
    unfolding sha1_spec_H0 [of "?o @ sha1_spec (?i @ t)"]
    by (rule sha_final_ok [OF sha_inv_Update [OF inv [OF pads(2)]]])
  have "(if BLOCKSIZE < length key
       then do { d \<leftarrow> SHA1_Final (SHA1_Update SHA1_Init key); Some (copy_at 0 d (replicate BLOCKSIZE 0)) }
       else Some (copy_at 0 key (replicate BLOCKSIZE 0))) = Some ?k"
    by (simp add: BLOCKSIZE_def digest copy_at_def length_sha1_spec)
  then show ?thesis
    unfolding lhmac_sha1_def Let_def hmac_spec_def
    by (simp only: bind.bind_lunit xor_key_bytes [OF len] inner outer)
qed

theorem hmac_sha1_rfc2104_witness: "lhmac_sha1 [1, 2] [3] = Some (hmac_spec [1, 2] [3])"
  using hmac_sha1_rfc2104 [of "[1, 2]" "[3]"] by simp

end
