(* ===== verification/Netpack.thy ===== *)
theory Netpack
  imports Fifo Outcome
begin

text \<open>
  \<^verbatim>\<open>src/ztask/lualib/lua-netpack.c\<close>: the packages of a gate, each a big-endian 16-bit size and as
  many bytes, cut out of the data that the sockets deliver in pieces of any size. The userdata of
  the library holds the unfinished package of every socket, in hash lists, and a ring buffer of
  the finished packages that were more than one at a time.

  Blocks of memory are lists of cells, \<open>None\<close> for a cell that was not written since \<^verbatim>\<open>malloc\<close>; they
  have one owner at a time and are passed by value. The data of a message is the list of its \<^verbatim>\<open>ud\<close>
  bytes. The userdata at stack index 1, an argument and the first result of each function, is
  \<open>None\<close> for \<^verbatim>\<open>nil\<close>.
\<close>

section \<open>Data\<close>

definition QUEUESIZE :: nat where "QUEUESIZE = 1024"
definition HASHSIZE :: nat where "HASHSIZE = 4096"

type_synonym block = "byte option list"

record netpack =
  np_id :: cint
  np_size :: nat
  np_buffer :: "block option"

record uncomplete =
  pack :: netpack
  uc_read :: int
  uc_header :: nat

record netqueue =
  cap :: nat
  head :: nat
  tail :: nat
  hash :: "nat \<Rightarrow> uncomplete list"
  queue :: "netpack option list"

definition malloc :: "nat \<Rightarrow> block" where
  "malloc n = replicate n None"

definition copy_cells :: "block \<Rightarrow> nat \<Rightarrow> block \<Rightarrow> block option" where
  "copy_cells dst off src =
     (if off + length src \<le> length dst then Some (take off dst @ src @ drop (off + length src) dst) else None)"

section \<open>Unfinished packages\<close>

definition hash_fd :: "cint \<Rightarrow> nat" where
  "hash_fd fd = unat (signed_drop_bit 24 fd + signed_drop_bit 12 fd + fd) mod HASHSIZE"

text \<open>The walk along one hash list, which takes the entry of \<open>fd\<close> out.\<close>

primrec unlink :: "cint \<Rightarrow> uncomplete list \<Rightarrow> (uncomplete \<times> uncomplete list) option" where
  "unlink fd [] = None"
| "unlink fd (uc # us) =
     (if np_id (pack uc) = fd then Some (uc, us)
      else case unlink fd us of None \<Rightarrow> None | Some (v, vs) \<Rightarrow> Some (v, uc # vs))"

definition find_uncomplete :: "netqueue option \<Rightarrow> cint \<Rightarrow> (uncomplete \<times> netqueue) option" where
  "find_uncomplete L fd =
     (case L of None \<Rightarrow> None
      | Some q \<Rightarrow>
          (case unlink fd (hash q (hash_fd fd)) of None \<Rightarrow> None
           | Some (uc, us) \<Rightarrow> Some (uc, q\<lparr>hash := (hash q)(hash_fd fd := us)\<rparr>)))"

definition get_queue :: "netqueue option \<Rightarrow> netqueue" where
  "get_queue L =
     (case L of Some q \<Rightarrow> q
      | None \<Rightarrow> \<lparr>cap = QUEUESIZE, head = 0, tail = 0, hash = (\<lambda>i. []), queue = replicate QUEUESIZE None\<rparr>)"

definition link_uncomplete :: "uncomplete \<Rightarrow> netqueue \<Rightarrow> netqueue" where
  "link_uncomplete uc q = (let h = hash_fd (np_id (pack uc)) in q\<lparr>hash := (hash q)(h := uc # hash q h)\<rparr>)"

definition save_uncomplete :: "netqueue option \<Rightarrow> uncomplete \<Rightarrow> netqueue option" where
  "save_uncomplete L uc = Some (link_uncomplete uc (get_queue L))"

definition clear_list :: "uncomplete list \<Rightarrow> block option list" where
  "clear_list us = map (\<lambda>uc. np_buffer (pack uc)) us"

text \<open>The buffers that \<^verbatim>\<open>lclear\<close> frees, and the queue it leaves.\<close>

definition lclear :: "netqueue option \<Rightarrow> (block option list \<times> netqueue option) option" where
  "lclear L =
     (case L of None \<Rightarrow> Some ([], None)
      | Some q \<Rightarrow>
          do { let freed = concat (map (\<lambda>i. clear_list (hash q i)) [0..<HASHSIZE]);
               let q = q\<lparr>hash := (\<lambda>i. [])\<rparr>;
               let t = (if tail q < head q then tail q + cap q else tail q);
               nps \<leftarrow> those (map (\<lambda>i. Option.bind (array_get (queue q) (i mod cap q)) (\<lambda>c. c)) [head q..<t]);
               Some (freed @ map np_buffer nps, Some (q\<lparr>head := 0, tail := 0\<rparr>)) })"

section \<open>The ring of finished packages\<close>

definition expand_queue :: "netqueue \<Rightarrow> netqueue" where
  "expand_queue q =
     q\<lparr>cap := cap q + QUEUESIZE, head := 0, tail := cap q,
       queue := map (\<lambda>i. queue q ! ((head q + i) mod cap q)) [0..<cap q] @ replicate QUEUESIZE None\<rparr>"

definition queue_store :: "netpack \<Rightarrow> netqueue \<Rightarrow> netqueue option" where
  "queue_store np q =
     do { cells \<leftarrow> array_set (queue q) (tail q) (Some np);
          let t = tail q + 1;
          let t = (if cap q \<le> t then t - cap q else t);
          let q = q\<lparr>queue := cells, tail := t\<rparr>;
          Some (if head q = tail q then expand_queue q else q) }"

definition push_data :: "netqueue option \<Rightarrow> cint \<Rightarrow> block option \<Rightarrow> nat \<Rightarrow> bool \<Rightarrow> netqueue option option" where
  "push_data L fd buffer n clone =
     do { buffer \<leftarrow> (if clone
                     then do { src \<leftarrow> buffer; assert_c (n \<le> length src);
                               tmp \<leftarrow> copy_cells (malloc n) 0 (take n src); Some (Some tmp) }
                     else Some buffer);
          q \<leftarrow> queue_store \<lparr>np_id = fd, np_size = n, np_buffer = buffer\<rparr> (get_queue L);
          Some (Some q) }"

definition lpop :: "netqueue option \<Rightarrow> (netpack option \<times> netqueue option) option" where
  "lpop L =
     (case L of None \<Rightarrow> Some (None, L)
      | Some q \<Rightarrow>
          if head q = tail q then Some (None, L)
          else do { cell \<leftarrow> array_get (queue q) (head q);
                    np \<leftarrow> cell;
                    Some (Some np, Some (q\<lparr>head := (if cap q \<le> head q + 1 then 0 else head q + 1)\<rparr>)) })"

section \<open>Cutting the data\<close>

text \<open>\<open>None\<close>: a read behind the end of the data.\<close>

definition read_size :: "byte list \<Rightarrow> nat option" where
  "read_size buf =
     (case buf of b0 # b1 # _ \<Rightarrow> Some (unat (push_bit 8 (ucast b0 :: cint) OR ucast b1)) | _ \<Rightarrow> None)"

definition header_only :: "cint \<Rightarrow> byte \<Rightarrow> uncomplete" where
  "header_only fd b = \<lparr>pack = \<lparr>np_id = fd, np_size = 0, np_buffer = None\<rparr>, uc_read = -1, uc_header = unat b\<rparr>"

definition begun :: "cint \<Rightarrow> nat \<Rightarrow> byte list \<Rightarrow> uncomplete option" where
  "begun fd n buf =
     do { blk \<leftarrow> copy_cells (malloc n) 0 (map Some buf);
          Some \<lparr>pack = \<lparr>np_id = fd, np_size = n, np_buffer = Some blk\<rparr>, uc_read = int (length buf), uc_header = 0\<rparr> }"

function push_more :: "netqueue option \<Rightarrow> cint \<Rightarrow> byte list \<Rightarrow> netqueue option option" where
  "push_more L fd buf =
     (if length buf = 1 then Some (save_uncomplete L (header_only fd (buf ! 0)))
      else case read_size buf of None \<Rightarrow> None
      | Some pack_size \<Rightarrow>
          (let buf2 = drop 2 buf in
           if length buf2 < pack_size
           then (case begun fd pack_size buf2 of None \<Rightarrow> None | Some uc \<Rightarrow> Some (save_uncomplete L uc))
           else case push_data L fd (Some (map Some buf2)) pack_size True of None \<Rightarrow> None
           | Some L1 \<Rightarrow>
               (let rest = drop pack_size buf2 in
                if 0 < length rest then push_more L1 fd rest else Some L1)))"
  by pat_completeness auto
termination
  by (relation "measure (\<lambda>(L, fd, buf). length buf)") (auto simp: read_size_def split: list.splits)

declare push_more.simps [simp del]

datatype filter_result =
    NoResult | TypeData cint "block option" nat | TypeMore | TypeError cint "byte list"
  | TypeOpen cint "byte list" | TypeClose cint | TypeWarning cint cint

definition close_uncomplete :: "netqueue option \<Rightarrow> cint \<Rightarrow> netqueue option" where
  "close_uncomplete L fd = (case find_uncomplete L fd of None \<Rightarrow> L | Some (uc, q) \<Rightarrow> Some q)"

text \<open>The first byte that comes after a lone header byte completes the size.\<close>

definition finish_header :: "uncomplete \<Rightarrow> byte list \<Rightarrow> (uncomplete \<times> byte list) option" where
  "finish_header uc buf =
     (if uc_read uc < 0
      then do { assert_c (uc_read uc = -1);
                b \<leftarrow> array_get buf 0;
                let n = unat (ucast b OR push_bit 8 (of_nat (uc_header uc)) :: cint);
                Some (uc\<lparr>pack := (pack uc)\<lparr>np_size := n, np_buffer := Some (malloc n)\<rparr>, uc_read := 0\<rparr>, drop 1 buf) }
      else Some (uc, buf))"

definition fill_package ::
  "uncomplete \<Rightarrow> netqueue \<Rightarrow> cint \<Rightarrow> byte list \<Rightarrow> (filter_result \<times> netqueue option) option" where
  "fill_package uc q fd buf =
     do { let need = int (np_size (pack uc)) - uc_read uc;
          blk \<leftarrow> np_buffer (pack uc);
          if int (length buf) < need
          then do { blk \<leftarrow> copy_cells blk (nat (uc_read uc)) (map Some buf);
                    let uc = uc\<lparr>pack := (pack uc)\<lparr>np_buffer := Some blk\<rparr>, uc_read := uc_read uc + int (length buf)\<rparr>;
                    Some (NoResult, Some (link_uncomplete uc q)) }
          else do { blk \<leftarrow> copy_cells blk (nat (uc_read uc)) (map Some (take (nat need) buf));
                    let buf = drop (nat need) buf;
                    if buf = [] then Some (TypeData fd (Some blk) (np_size (pack uc)), Some q)
                    else do { L \<leftarrow> push_data (Some q) fd (Some blk) (np_size (pack uc)) False;
                              L \<leftarrow> push_more L fd buf;
                              Some (TypeMore, L) } } }"

definition continue_package ::
  "uncomplete \<Rightarrow> netqueue \<Rightarrow> cint \<Rightarrow> byte list \<Rightarrow> (filter_result \<times> netqueue option) option" where
  "continue_package uc q fd buf = do { (uc, buf) \<leftarrow> finish_header uc buf; fill_package uc q fd buf }"

definition begin_package ::
  "netqueue option \<Rightarrow> cint \<Rightarrow> byte list \<Rightarrow> (filter_result \<times> netqueue option) option" where
  "begin_package L fd buf =
     (if length buf = 1 then Some (NoResult, save_uncomplete L (header_only fd (buf ! 0)))
      else
        do { pack_size \<leftarrow> read_size buf;
             let buf = drop 2 buf;
             if length buf < pack_size
             then do { uc \<leftarrow> begun fd pack_size buf; Some (NoResult, save_uncomplete L uc) }
             else if length buf = pack_size
             then do { result \<leftarrow> copy_cells (malloc pack_size) 0 (map Some buf);
                       Some (TypeData fd (Some result) (length buf), L) }
             else do { L \<leftarrow> push_data L fd (Some (map Some buf)) pack_size True;
                       L \<leftarrow> push_more L fd (drop pack_size buf);
                       Some (TypeMore, L) } })"

definition filter_data :: "netqueue option \<Rightarrow> cint \<Rightarrow> byte list \<Rightarrow> (filter_result \<times> netqueue option) option" where
  "filter_data L fd buf =
     (case find_uncomplete L fd of
        Some (uc, q) \<Rightarrow> continue_package uc q fd buf
      | None \<Rightarrow> begin_package L fd buf)"

section \<open>The functions of the library\<close>

record ztask_socket_message =
  sm_type :: int
  sm_id :: cint
  sm_ud :: cint
  sm_buffer :: "byte list option"
  sm_tail :: "byte list"

definition ZTASK_SOCKET_TYPE_DATA :: int where "ZTASK_SOCKET_TYPE_DATA = 1"
definition ZTASK_SOCKET_TYPE_CONNECT :: int where "ZTASK_SOCKET_TYPE_CONNECT = 2"
definition ZTASK_SOCKET_TYPE_CLOSE :: int where "ZTASK_SOCKET_TYPE_CLOSE = 4"
definition ZTASK_SOCKET_TYPE_ACCEPT :: int where "ZTASK_SOCKET_TYPE_ACCEPT = 5"
definition ZTASK_SOCKET_TYPE_ERROR :: int where "ZTASK_SOCKET_TYPE_ERROR = 6"
definition ZTASK_SOCKET_TYPE_WARNING :: int where "ZTASK_SOCKET_TYPE_WARNING = 8"

text \<open>\<^verbatim>\<open>sizeof(struct ztask_socket_message)\<close> on a 64-bit machine; \<open>sm_tail\<close> is the memory behind it.\<close>

definition sizeof_socket_message :: int where "sizeof_socket_message = 56"

definition ok_or_crash :: "'a option \<Rightarrow> 'a outcome" where
  "ok_or_crash r = (case r of None \<Rightarrow> Crash | Some x \<Rightarrow> Ok x)"

text \<open>\<^verbatim>\<open>lua_pushlstring\<close> gets the \<^verbatim>\<open>int\<close> as a \<^verbatim>\<open>size_t\<close>: a negative one is a size that Lua refuses.\<close>

definition pushstring :: "byte list \<Rightarrow> int \<Rightarrow> byte list outcome" where
  "pushstring msg n =
     (if n < 0 then Err ''memory allocation error: block too big''
      else if nat n \<le> length msg then Ok (take (nat n) msg) else Crash)"

definition lfilter ::
  "netqueue option \<Rightarrow> ztask_socket_message \<Rightarrow> int \<Rightarrow> (filter_result \<times> netqueue option) outcome" where
  "lfilter L message n =
     (let (buffer, n) = (case sm_buffer message of
             None \<Rightarrow> (sm_tail message, n - sizeof_socket_message)
           | Some b \<Rightarrow> (b, -1))
      in if sm_type message = ZTASK_SOCKET_TYPE_DATA
         then (if sm_buffer message = None \<or> sint (sm_ud message) < 0 \<or> length buffer < unat (sm_ud message) then Crash
               else ok_or_crash (filter_data L (sm_id message) (take (unat (sm_ud message)) buffer)))
         else if sm_type message = ZTASK_SOCKET_TYPE_CONNECT then Ok (NoResult, L)
         else if sm_type message = ZTASK_SOCKET_TYPE_CLOSE
         then Ok (TypeClose (sm_id message), close_uncomplete L (sm_id message))
         else if sm_type message = ZTASK_SOCKET_TYPE_ACCEPT
         then and_then (pushstring buffer n) (\<lambda>s. Ok (TypeOpen (sm_ud message) s, L))
         else if sm_type message = ZTASK_SOCKET_TYPE_ERROR
         then and_then (pushstring buffer n) (\<lambda>s. Ok (TypeError (sm_id message) s, close_uncomplete L (sm_id message)))
         else if sm_type message = ZTASK_SOCKET_TYPE_WARNING
         then Ok (TypeWarning (sm_id message) (sm_ud message), L)
         else Ok (NoResult, L))"

definition write_size :: "nat \<Rightarrow> byte list" where
  "write_size len = [ucast (signed_drop_bit 8 (of_nat len :: cint) AND 0xff), ucast ((of_nat len :: cint) AND 0xff)]"

definition lpack :: "byte list \<Rightarrow> byte list outcome" where
  "lpack data =
     (if 0x10000 \<le> length data then Err (''Invalid size (too long) of data : '' @ fmt_d (int_of_size (length data)))
      else Ok (write_size (length data) @ data))"

definition ltostring :: "block option \<Rightarrow> int \<Rightarrow> byte list outcome" where
  "ltostring buf n =
     (case buf of None \<Rightarrow> Ok []
      | Some cells \<Rightarrow>
          if n < 0 then Err ''memory allocation error: block too big''
          else if length cells < nat n then Crash else ok_or_crash (those (take (nat n) cells)))"

section \<open>What the library promises\<close>

text \<open>The packages at the front of the bytes that a socket has delivered, and the bytes after them.\<close>

function packages :: "byte list \<Rightarrow> byte list list \<times> byte list" where
  "packages bs =
     (case bs of
        b0 # b1 # r \<Rightarrow>
          if 256 * unat b0 + unat b1 \<le> length r
          then (let (ps, rest) = packages (drop (256 * unat b0 + unat b1) r) in (take (256 * unat b0 + unat b1) r # ps, rest))
          else ([], bs)
      | _ \<Rightarrow> ([], bs))"
  by pat_completeness auto
termination by (relation "measure length") (auto split: list.splits)

declare packages.simps [simp del]

definition packet :: "cint \<Rightarrow> byte list \<Rightarrow> netpack" where
  "packet fd p = \<lparr>np_id = fd, np_size = length p, np_buffer = Some (map Some p)\<rparr>"

text \<open>The bytes an unfinished package stands for.\<close>

definition uc_bytes :: "uncomplete \<Rightarrow> byte list" where
  "uc_bytes uc =
     (if uc_read uc = -1 then [of_nat (uc_header uc)]
      else [of_nat (np_size (pack uc) div 256), of_nat (np_size (pack uc) mod 256)] @
           map the (take (nat (uc_read uc)) (the (np_buffer (pack uc)))))"

definition uc_ok :: "uncomplete \<Rightarrow> bool" where
  "uc_ok uc \<longleftrightarrow> (uc_read uc = -1 \<and> uc_header uc < 256 \<and> np_buffer (pack uc) = None) \<or>
     (\<exists>bs. uc_read uc = int (length bs) \<and> length bs < np_size (pack uc) \<and> np_size (pack uc) < 65536 \<and>
        np_buffer (pack uc) = Some (map Some bs @ replicate (np_size (pack uc) - length bs) None))"

definition pending :: "netqueue option \<Rightarrow> cint \<Rightarrow> byte list" where
  "pending L fd = (case find_uncomplete L fd of None \<Rightarrow> [] | Some (uc, _) \<Rightarrow> uc_bytes uc)"

definition hash_ok :: "netqueue \<Rightarrow> bool" where
  "hash_ok q \<longleftrightarrow> (\<forall>h. distinct (map (\<lambda>uc. np_id (pack uc)) (hash q h)) \<and>
     (\<forall>uc \<in> set (hash q h). hash_fd (np_id (pack uc)) = h \<and> uc_ok uc))"

definition contents :: "netqueue \<Rightarrow> netpack list" where
  "contents q = map the (ring_list (queue q) (head q) (tail q))"

definition netqueue_ok :: "netqueue \<Rightarrow> bool" where
  "netqueue_ok q \<longleftrightarrow> length (queue q) = cap q \<and> head q < cap q \<and> tail q < cap q \<and>
     None \<notin> set (ring_list (queue q) (head q) (tail q))"

section \<open>The ring\<close>

lemma queue_store_ok:
  assumes "netqueue_ok q"
  shows "\<exists>q'. queue_store np q = Some q' \<and> netqueue_ok q' \<and> contents q' = contents q @ [np] \<and> hash q' = hash q"
proof -
  have ok: "length (queue q) = cap q" "head q < length (queue q)" "tail q < length (queue q)"
    "None \<notin> set (ring_list (queue q) (head q) (tail q))" using assms by (auto simp: netqueue_ok_def)
  let ?t = "if length (queue q) \<le> tail q + 1 then tail q + 1 - length (queue q) else tail q + 1"
  note push = ring_list_push [OF ok(2,3), of "Some np"]
  let ?q = "q\<lparr>queue := (queue q)[tail q := Some np], tail := ?t\<rparr>"
  have st: "queue_store np q = Some (if head q = ?t then expand_queue ?q else ?q)"
    using ok by (simp add: queue_store_def Let_def)
  have t: "?t < cap q" using ok by auto
  show ?thesis
  proof (cases "head q = ?t")
    case False
    have "netqueue_ok ?q" "contents ?q = contents q @ [np]"
      using False ok t push(1) by (auto simp: netqueue_ok_def contents_def)
    then show ?thesis using False st by auto
  next
    case True
    let ?e = "expand_queue ?q"
    have "ring_list (queue ?e) (head ?e) (tail ?e) = ring_cells ((queue q)[tail q := Some np]) (head q) (length (queue q))"
      using ok(1,2) by (auto simp: expand_queue_def ring_list_def ring_len_def ring_cells_def nth_append intro!: nth_equalityI)
    then have r: "ring_list (queue ?e) (head ?e) (tail ?e) = ring_list (queue q) (head q) (tail q) @ [Some np]"
      using push(2) [OF True] by simp
    have "netqueue_ok ?e" using r ok by (auto simp: netqueue_ok_def) (auto simp: expand_queue_def QUEUESIZE_def)
    moreover have "contents ?e = contents q @ [np]" unfolding contents_def r by simp
    moreover have "hash ?e = hash q" by (simp add: expand_queue_def)
    ultimately show ?thesis using True st by auto
  qed
qed

lemma lpop_ok:
  assumes "netqueue_ok q"
  shows "\<exists>q'. lpop (Some q) = Some (case contents q of [] \<Rightarrow> None | np # _ \<Rightarrow> Some np, Some q') \<and>
    netqueue_ok q' \<and> contents q' = tl (contents q) \<and> hash q' = hash q"
proof (cases "head q = tail q")
  case True
  then show ?thesis using assms by (auto simp: lpop_def contents_def ring_list_empty)
next
  case False
  have ok: "length (queue q) = cap q" "head q < length (queue q)" "tail q < length (queue q)"
    "None \<notin> set (ring_list (queue q) (head q) (tail q))" using assms by (auto simp: netqueue_ok_def)
  let ?h = "if length (queue q) \<le> head q + 1 then 0 else head q + 1"
  note pop = ring_list_pop [OF ok(2,3) False]
  obtain np where np: "queue q ! head q = Some np" using ok(4) unfolding pop by (cases "queue q ! head q") auto
  let ?q = "q\<lparr>head := ?h\<rparr>"
  have "lpop (Some q) = Some (Some np, Some ?q)" using False ok np by (simp add: lpop_def)
  moreover have "contents q = np # contents ?q" using pop np by (simp add: contents_def)
  moreover have "netqueue_ok ?q" using ok(1-3) ok(4) [unfolded pop] by (auto simp: netqueue_ok_def)
  ultimately show ?thesis by auto
qed

definition netpack_ok :: "netqueue option \<Rightarrow> bool" where
  "netpack_ok L \<longleftrightarrow> netqueue_ok (get_queue L) \<and> hash_ok (get_queue L)"

definition queued :: "netqueue option \<Rightarrow> netpack list" where
  "queued L = contents (get_queue L)"

lemma get_queue_Some [simp]: "get_queue (Some q) = q"
  by (simp add: get_queue_def)

lemma netpack_ok_None [simp]: "netpack_ok None" and queued_None [simp]: "queued None = []"
  by (simp_all add: netpack_ok_def queued_def contents_def get_queue_def netqueue_ok_def hash_ok_def ring_list_empty QUEUESIZE_def)

lemma hash_ok_cong: "hash q' = hash q \<Longrightarrow> hash_ok q' = hash_ok q"
  by (simp add: hash_ok_def)

lemma pending_get_queue: "pending (Some (get_queue L)) fd = pending L fd"
  by (cases L) (simp_all add: pending_def find_uncomplete_def get_queue_def)

lemma pending_cong: "hash q' = hash q \<Longrightarrow> pending (Some q') fd = pending (Some q) fd"
  by (auto simp: pending_def find_uncomplete_def split: option.splits)

lemma push_data_ok:
  assumes "netpack_ok L"
  shows "\<exists>L'. push_data L fd b n False = Some L' \<and> netpack_ok L' \<and>
    queued L' = queued L @ [\<lparr>np_id = fd, np_size = n, np_buffer = b\<rparr>] \<and> (\<forall>fd. pending L' fd = pending L fd)"
proof -
  have "netqueue_ok (get_queue L)" "hash_ok (get_queue L)" using assms by (simp_all add: netpack_ok_def)
  with queue_store_ok [of "get_queue L" "\<lparr>np_id = fd, np_size = n, np_buffer = b\<rparr>"] obtain q where
    q: "queue_store \<lparr>np_id = fd, np_size = n, np_buffer = b\<rparr> (get_queue L) = Some q" "netqueue_ok q"
    "contents q = queued L @ [\<lparr>np_id = fd, np_size = n, np_buffer = b\<rparr>]" "hash q = hash (get_queue L)"
    unfolding queued_def by blast
  have "hash_ok q" using hash_ok_cong [OF q(4)] \<open>hash_ok (get_queue L)\<close> by simp
  moreover have "pending (Some q) x = pending L x" for x
    using pending_cong [OF q(4)] pending_get_queue by simp
  ultimately show ?thesis using q(1-3) by (intro exI [of _ "Some q"]) (simp add: push_data_def netpack_ok_def queued_def)
qed

lemma copy_cells_whole: "copy_cells (malloc n) 0 src = (if length src \<le> n then Some (src @ replicate (n - length src) None) else None)"
  by (simp add: copy_cells_def malloc_def)

lemma push_data_clone:
  "n \<le> length d \<Longrightarrow> push_data L fd (Some (map Some d)) n True = push_data L fd (Some (map Some (take n d))) n False"
  by (simp add: push_data_def copy_cells_whole take_map)

lemma lpop_queued:
  assumes "netpack_ok L"
  shows "\<exists>L'. lpop L = Some (case queued L of [] \<Rightarrow> None | np # _ \<Rightarrow> Some np, L') \<and> netpack_ok L' \<and>
    queued L' = tl (queued L) \<and> (\<forall>fd. pending L' fd = pending L fd)"
proof (cases L)
  case None
  then show ?thesis by (simp add: lpop_def)
next
  case (Some q)
  have "netqueue_ok q" "hash_ok q" using assms Some by (simp_all add: netpack_ok_def)
  with lpop_ok obtain q' where "lpop L = Some (case queued L of [] \<Rightarrow> None | np # _ \<Rightarrow> Some np, Some q')"
    "netqueue_ok q'" "contents q' = tl (queued L)" "hash q' = hash q" unfolding queued_def Some get_queue_Some by blast
  then show ?thesis using hash_ok_cong [of q' q] pending_cong [of q' q] \<open>hash_ok q\<close> Some
    by (auto simp: netpack_ok_def queued_def)
qed

interpretation netpack: fifo netpack_ok queued "\<lambda>_. True" "\<lambda>np L. push_data L (np_id np) (np_buffer np) (np_size np) False" lpop
proof unfold_locales
  fix L np assume "netpack_ok L"
  from push_data_ok [OF this, of "np_id np" "np_buffer np" "np_size np"]
  show "\<exists>L'. push_data L (np_id np) (np_buffer np) (np_size np) False = Some L' \<and> netpack_ok L' \<and> queued L' = queued L @ [np]"
    by auto
qed (use lpop_queued in blast)

section \<open>The hash of unfinished packages\<close>

definition entry :: "netqueue option \<Rightarrow> cint \<Rightarrow> uncomplete option" where
  "entry L fd = List.find (\<lambda>uc. np_id (pack uc) = fd) (hash (get_queue L) (hash_fd fd))"

lemma unlink_find: "map_option fst (unlink fd us) = List.find (\<lambda>uc. np_id (pack uc) = fd) us"
  by (induction us) (auto split: option.splits)

lemma find_append: "List.find P (us @ vs) = (case List.find P us of None \<Rightarrow> List.find P vs | Some u \<Rightarrow> Some u)"
  by (induction us) auto

lemma unlink_Some:
  "unlink fd us = Some (uc, vs) \<Longrightarrow> \<exists>as bs. us = as @ uc # bs \<and> vs = as @ bs \<and> np_id (pack uc) = fd"
proof (induction us arbitrary: vs)
  case (Cons u us)
  show ?case
  proof (cases "np_id (pack u) = fd")
    case True
    then show ?thesis using Cons.prems by (intro exI [of _ "[]"] exI [of _ us]) auto
  next
    case False
    then obtain ws where w: "unlink fd us = Some (uc, ws)" "vs = u # ws" using Cons.prems by (auto split: option.splits)
    with Cons.IH obtain as bs where "us = as @ uc # bs" "ws = as @ bs" "np_id (pack uc) = fd" by blast
    then show ?thesis using w by (intro exI [of _ "u # as"] exI [of _ bs]) auto
  qed
qed simp

lemma pending_entry: "pending L fd = (case entry L fd of None \<Rightarrow> [] | Some uc \<Rightarrow> uc_bytes uc)"
proof (cases L)
  case None
  then show ?thesis by (simp add: pending_def find_uncomplete_def entry_def get_queue_def)
next
  case (Some q)
  show ?thesis unfolding pending_def entry_def find_uncomplete_def Some
    by (auto simp flip: unlink_find split: option.splits)
qed

lemma find_uncomplete_None: "find_uncomplete L fd = None \<longleftrightarrow> entry L fd = None"
proof (cases L)
  case None
  then show ?thesis by (simp add: find_uncomplete_def entry_def get_queue_def)
next
  case (Some q)
  show ?thesis unfolding find_uncomplete_def entry_def Some by (auto simp flip: unlink_find split: option.splits)
qed

lemma find_uncomplete_Some:
  assumes "netpack_ok L" "find_uncomplete L fd = Some (uc, q)"
  shows "netpack_ok (Some q)" "queued (Some q) = queued L" "uc_ok uc" "np_id (pack uc) = fd"
    "entry L fd = Some uc" "entry (Some q) fd' = (if fd' = fd then None else entry L fd')"
proof -
  obtain p us where p: "L = Some p" "unlink fd (hash p (hash_fd fd)) = Some (uc, us)" "q = p\<lparr>hash := (hash p)(hash_fd fd := us)\<rparr>"
    using assms(2) by (auto simp: find_uncomplete_def split: option.splits)
  obtain as bs where l: "hash p (hash_fd fd) = as @ uc # bs" "us = as @ bs" "np_id (pack uc) = fd"
    using unlink_Some [OF p(2)] by blast
  have ok: "distinct (map (\<lambda>uc. np_id (pack uc)) (hash p h))" "\<forall>uc \<in> set (hash p h). hash_fd (np_id (pack uc)) = h \<and> uc_ok uc" for h
    using assms(1) p(1) by (simp_all add: netpack_ok_def hash_ok_def)
  have "hash_ok q" unfolding hash_ok_def
  proof (intro allI conjI)
    fix h
    show "distinct (map (\<lambda>uc. np_id (pack uc)) (hash q h))" using ok(1) [of h] ok(1) [of "hash_fd fd"] l by (simp add: p(3))
    show "\<forall>uc \<in> set (hash q h). hash_fd (np_id (pack uc)) = h \<and> uc_ok uc"
      using ok(2) [of h] ok(2) [of "hash_fd fd"] l by (auto simp: p(3))
  qed
  moreover have "netqueue_ok q" "contents q = contents p"
    using assms(1) p by (simp_all add: netpack_ok_def netqueue_ok_def contents_def)
  ultimately show "netpack_ok (Some q)" "queued (Some q) = queued L" using p(1) by (simp_all add: netpack_ok_def queued_def)
  show "uc_ok uc" "np_id (pack uc) = fd" using ok(2) [of "hash_fd fd"] l by simp_all
  show "entry L fd = Some uc" using p unlink_find [of fd "hash p (hash_fd fd)"] by (simp add: entry_def)
  have "List.find (\<lambda>uc. np_id (pack uc) = fd) (as @ bs) = None"
    using ok(1) [of "hash_fd fd"] l by (auto simp: find_None_iff image_iff)
  then show "entry (Some q) fd' = (if fd' = fd then None else entry L fd')"
    using l p(1,3) by (auto simp: entry_def find_append split: option.splits)
qed

lemma uc_bytes_nonempty [simp]: "uc_bytes uc \<noteq> []"
  by (simp add: uc_bytes_def)

lemma link_uncomplete_ok:
  assumes "netpack_ok L" "uc_ok uc" "np_id (pack uc) = fd" "pending L fd = []"
  shows "netpack_ok (save_uncomplete L uc)" "queued (save_uncomplete L uc) = queued L"
    "pending (save_uncomplete L uc) fd' = (if fd' = fd then uc_bytes uc else pending L fd')"
proof -
  let ?q = "get_queue L"
  let ?h = "hash_fd fd"
  have none: "List.find (\<lambda>uc. np_id (pack uc) = fd) (hash ?q ?h) = None"
    using assms(4) by (auto simp: pending_entry entry_def split: option.splits)
  have ok: "hash_ok ?q" using assms(1) by (simp add: netpack_ok_def)
  have new: "hash (link_uncomplete uc ?q) h = (if h = ?h then uc # hash ?q h else hash ?q h)" for h
    using assms(3) by (auto simp: link_uncomplete_def Let_def)
  have old: "distinct (map (\<lambda>uc. np_id (pack uc)) (hash ?q h))"
    "\<forall>u \<in> set (hash ?q h). hash_fd (np_id (pack u)) = h \<and> uc_ok u" for h
    using ok by (simp_all add: hash_ok_def)
  have "hash_ok (link_uncomplete uc ?q)" unfolding hash_ok_def new
  proof (intro allI conjI)
    fix h
    show "distinct (map (\<lambda>uc. np_id (pack uc)) (if h = ?h then uc # hash ?q h else hash ?q h))"
      using old(1) [of h] none assms(3) by (auto simp: find_None_iff)
    show "\<forall>u \<in> set (if h = ?h then uc # hash ?q h else hash ?q h). hash_fd (np_id (pack u)) = h \<and> uc_ok u"
      using old(2) [of h] assms(2,3) by (cases "h = ?h") (simp_all only: if_True if_False list.set ball_simps simp_thms)
  qed
  then show "netpack_ok (save_uncomplete L uc)" using assms(1)
    by (simp add: netpack_ok_def save_uncomplete_def netqueue_ok_def link_uncomplete_def Let_def)
  show "queued (save_uncomplete L uc) = queued L"
    by (simp add: queued_def save_uncomplete_def contents_def link_uncomplete_def Let_def)
  show "pending (save_uncomplete L uc) fd' = (if fd' = fd then uc_bytes uc else pending L fd')"
    using assms(3) by (auto simp: pending_entry entry_def save_uncomplete_def link_uncomplete_def Let_def)
qed

section \<open>Cutting the data into packages\<close>

definition size_bytes :: "nat \<Rightarrow> byte list" where
  "size_bytes n = [of_nat (n div 256), of_nat (n mod 256)]"

lemma packages_size:
  assumes "n < 65536"
  shows "packages (size_bytes n @ r) =
    (if n \<le> length r then (take n r # fst (packages (drop n r)), snd (packages (drop n r))) else ([], size_bytes n @ r))"
proof -
  have "unat (of_nat (n div 256) :: byte) = n div 256" "unat (of_nat (n mod 256) :: byte) = n mod 256"
    using assms by (simp_all add: unat_of_nat)
  then have "256 * unat (of_nat (n div 256) :: byte) + unat (of_nat (n mod 256) :: byte) = n" by simp
  then show ?thesis by (subst packages.simps) (simp only: size_bytes_def append.simps list.case split_beta Let_def)
qed

lemma packages_short: "length bs < 2 \<Longrightarrow> packages bs = ([], bs)"
  by (subst packages.simps) (auto split: list.splits)

lemma size_of_bytes: "256 * unat b0 + unat b1 < 65536" "[b0, b1] = size_bytes (256 * unat b0 + unat b1)" for b0 b1 :: byte
proof -
  have "unat b0 < 256" "unat b1 < 256"
    using unsigned_less [where ?'b = 8 and ?'a = nat and w = b0] unsigned_less [where ?'b = 8 and ?'a = nat and w = b1] by simp_all
  then show "256 * unat b0 + unat b1 < 65536" "[b0, b1] = size_bytes (256 * unat b0 + unat b1)"
    by (simp_all add: size_bytes_def)
qed

lemma join_bytes: "unat (push_bit 8 (ucast b0 :: cint) OR ucast b1) = 256 * unat b0 + unat b1" for b0 b1 :: byte
proof -
  have b: "unat b0 < 256" "unat b1 < 256"
    using unsigned_less [where ?'b = 8 and ?'a = nat and w = b0] unsigned_less [where ?'b = 8 and ?'a = nat and w = b1] by simp_all
  have h: "unat (push_bit 8 (ucast b0 :: cint)) = 256 * unat b0"
    unfolding unsigned_push_bit_eq unsigned_ucast_eq using b(1)
    by (simp add: push_bit_eq_mult take_bit_eq_mod)
  have l: "unat (ucast b1 :: cint) = unat b1"
    unfolding unsigned_ucast_eq using b(2) by (simp add: take_bit_eq_mod)
  have "(push_bit 8 (ucast b0 :: cint)) AND ucast b1 = 0"
    by (rule bit_word_eqI) (auto simp: bit_simps dest: bit_imp_le_length)
  then have "push_bit 8 (ucast b0 :: cint) OR ucast b1 = push_bit 8 (ucast b0) + ucast b1"
    by (rule disjunctive_add_eq_or [symmetric])
  then show ?thesis using b h l by (simp only: unat_word_ariths) simp
qed

lemma read_size_bytes: "read_size buf = (if length buf < 2 then None else Some (256 * unat (buf ! 0) + unat (buf ! 1)))"
proof (cases buf)
  case (Cons b0 r)
  then show ?thesis by (cases r) (simp_all add: read_size_def join_bytes)
qed (simp add: read_size_def)

lemma begun_ok:
  assumes "length bs < n" "n < 65536"
  shows "\<exists>uc. begun fd n bs = Some uc \<and> uc_ok uc \<and> np_id (pack uc) = fd \<and> uc_bytes uc = size_bytes n @ bs"
proof -
  let ?uc = "\<lparr>pack = \<lparr>np_id = fd, np_size = n, np_buffer = Some (map Some bs @ replicate (n - length bs) None)\<rparr>,
    uc_read = int (length bs), uc_header = 0\<rparr>"
  have "begun fd n bs = Some ?uc" using assms by (simp add: begun_def copy_cells_whole)
  moreover have "uc_ok ?uc" using assms by (auto simp: uc_ok_def)
  moreover have "uc_bytes ?uc = size_bytes n @ bs" by (simp add: uc_bytes_def size_bytes_def comp_def)
  ultimately show ?thesis by auto
qed

lemma header_only_ok:
  "uc_ok (header_only fd b)" "np_id (pack (header_only fd b)) = fd" "uc_bytes (header_only fd b) = [b]"
  using unsigned_less [where ?'b = 8 and ?'a = nat and w = b] by (simp_all add: header_only_def uc_ok_def uc_bytes_def)

text \<open>What it means that the bytes \<open>d\<close> of the socket \<open>fd\<close> have been cut: the packages are queued,
  the rest is kept as unfinished.\<close>

definition absorbed :: "netqueue option \<Rightarrow> cint \<Rightarrow> byte list \<Rightarrow> netqueue option \<Rightarrow> bool" where
  "absorbed L fd d L' \<longleftrightarrow> netpack_ok L' \<and> queued L' = queued L @ map (packet fd) (fst (packages d)) \<and>
     (\<forall>x. pending L' x = (if x = fd then snd (packages d) else pending L x))"

lemma save_absorbed:
  assumes "netpack_ok L" "pending L fd = []" "uc_ok uc" "np_id (pack uc) = fd" "packages (uc_bytes uc) = ([], uc_bytes uc)"
  shows "absorbed L fd (uc_bytes uc) (save_uncomplete L uc)"
  using link_uncomplete_ok [OF assms(1,3,4,2)] assms(5) by (simp add: absorbed_def)

lemma push_more_absorbs:
  "netpack_ok L \<Longrightarrow> pending L fd = [] \<Longrightarrow> d \<noteq> [] \<Longrightarrow> \<exists>L'. push_more L fd d = Some L' \<and> absorbed L fd d L'"
proof (induction L fd d rule: push_more.induct)
  case (1 L fd d)
  show ?case
  proof (cases "length d = 1")
    case True
    then obtain b where d: "d = [b]" by (cases d) auto
    then show ?thesis using save_absorbed [OF "1.prems"(1,2) header_only_ok(1,2), of b]
      by (subst push_more.simps) (simp add: header_only_ok(3) packages_short)
  next
    case False
    with "1.prems"(3) obtain b0 b1 r where d: "d = b0 # b1 # r" by (cases d; cases "tl d") auto
    let ?n = "256 * unat b0 + unat b1"
    have dn: "d = size_bytes ?n @ r" using size_of_bytes(2) [of b0 b1] d by simp
    have rs: "read_size d = Some ?n" by (simp add: read_size_bytes d)
    show ?thesis
    proof (cases "length r < ?n")
      case True
      obtain uc where uc: "begun fd ?n r = Some uc" "uc_ok uc" "np_id (pack uc) = fd" "uc_bytes uc = d"
        using begun_ok [OF True size_of_bytes(1)] dn by metis
      have "packages d = ([], d)" using packages_size [OF size_of_bytes(1), of b0 b1 r] True dn by simp
      then have "absorbed L fd d (save_uncomplete L uc)" using save_absorbed [OF "1.prems"(1,2) uc(2,3)] uc(4) by simp
      moreover have "push_more L fd d = Some (save_uncomplete L uc)"
        using rs True uc(1) by (subst push_more.simps) (simp add: d)
      ultimately show ?thesis by blast
    next
      case False
      note fls = False
      have p: "packages d = (take ?n r # fst (packages (drop ?n r)), snd (packages (drop ?n r)))"
        using packages_size [OF size_of_bytes(1), of b0 b1 r] False dn by simp
      obtain L1 where L1: "push_data L fd (Some (map Some r)) ?n True = Some L1" "netpack_ok L1"
        "queued L1 = queued L @ [packet fd (take ?n r)]" "\<forall>x. pending L1 x = pending L x"
        using push_data_ok [OF "1.prems"(1), of fd "Some (map Some (take ?n r))" ?n] False
        by (auto simp: push_data_clone packet_def)
      show ?thesis
      proof (cases "drop ?n r = []")
        case True
        then have "push_more L fd d = Some L1" using rs False L1(1) by (subst push_more.simps) (simp add: d)
        moreover have "absorbed L fd d L1" using L1 True p "1.prems"(2) by (simp add: absorbed_def packages_short)
        ultimately show ?thesis by blast
      next
        case False
        then have "push_more L fd d = push_more L1 fd (drop ?n r)"
          using rs fls L1(1) by (subst push_more.simps) (simp add: d)
        moreover obtain L' where "push_more L1 fd (drop ?n r) = Some L'" "absorbed L1 fd (drop ?n r) L'"
          using "1.IH" [OF \<open>length d \<noteq> 1\<close> rs refl _ _ refl, of L1] False fls L1 "1.prems"(2) d by auto
        ultimately show ?thesis using L1 p by (auto simp: absorbed_def)
      qed
    qed
  qed
qed

section \<open>The data of a socket\<close>

text \<open>What the function returns for the bytes \<open>bs\<close>, and what it queues.\<close>

definition cut_result :: "cint \<Rightarrow> byte list \<Rightarrow> filter_result \<times> netpack list" where
  "cut_result fd bs =
     (case packages bs of
        ([], rest) \<Rightarrow> (NoResult, [])
      | ([p], []) \<Rightarrow> (TypeData fd (Some (map Some p)) (length p), [])
      | (ps, rest) \<Rightarrow> (TypeMore, map (packet fd) ps))"

definition cuts :: "netqueue option \<Rightarrow> cint \<Rightarrow> byte list \<Rightarrow> filter_result \<Rightarrow> netqueue option \<Rightarrow> bool" where
  "cuts L fd bs r L' \<longleftrightarrow> r = fst (cut_result fd bs) \<and> netpack_ok L' \<and> queued L' = queued L @ snd (cut_result fd bs) \<and>
     (\<forall>x. pending L' x = (if x = fd then snd (packages bs) else pending L x))"

lemma packages_none: "fst (packages r) = [] \<Longrightarrow> snd (packages r) = r"
  by (subst packages.simps, subst (asm) packages.simps) (auto split: list.splits if_splits prod.splits)

lemma cuts_none:
  "packages bs = ([], bs) \<Longrightarrow> netpack_ok L' \<Longrightarrow> queued L' = queued L \<Longrightarrow>
   (\<And>x. pending L' x = (if x = fd then bs else pending L x)) \<Longrightarrow> cuts L fd bs NoResult L'"
  by (simp add: cuts_def cut_result_def)

lemma cuts_one:
  "packages bs = ([p], []) \<Longrightarrow> netpack_ok L' \<Longrightarrow> queued L' = queued L \<Longrightarrow>
   (\<And>x. pending L' x = (if x = fd then [] else pending L x)) \<Longrightarrow> cuts L fd bs (TypeData fd (Some (map Some p)) (length p)) L'"
  by (simp add: cuts_def cut_result_def)

lemma cuts_more:
  assumes L1: "queued L1 = queued L @ [packet fd p]" "\<And>x. x \<noteq> fd \<Longrightarrow> pending L1 x = pending L x"
    and r: "absorbed L1 fd r L'" "r \<noteq> []" and bs: "packages bs = (p # fst (packages r), snd (packages r))"
  shows "cuts L fd bs TypeMore L'"
proof -
  have "fst (packages r) \<noteq> [] \<or> snd (packages r) \<noteq> []" using packages_none r(2) by metis
  then have "cut_result fd bs = (TypeMore, map (packet fd) (p # fst (packages r)))"
    by (auto simp: cut_result_def bs split: list.splits)
  then show ?thesis using L1 r(1) by (auto simp: cuts_def absorbed_def bs)
qed

lemma fill_package_cuts:
  assumes q: "netpack_ok (Some q)" "pending (Some q) fd = []" and n: "length bs \<le> n" "n < 65536"
    and uc: "np_id (pack uc) = fd" "np_size (pack uc) = n" "uc_read uc = int (length bs)"
      "np_buffer (pack uc) = Some (map Some bs @ replicate (n - length bs) None)"
  shows "\<exists>res L'. fill_package uc q fd r = Some (res, L') \<and> cuts (Some q) fd (size_bytes n @ bs @ r) res L'"
proof -
  let ?need = "n - length bs"
  have need: "nat (int n - int (length bs)) = ?need" by simp
  note pk = packages_size [OF n(2), of "bs @ r"]
  show ?thesis
  proof (cases "length r < ?need")
    case True
    let ?blk = "map Some (bs @ r) @ replicate (n - length (bs @ r)) None"
    let ?uc = "uc\<lparr>pack := (pack uc)\<lparr>np_buffer := Some ?blk\<rparr>, uc_read := int (length (bs @ r))\<rparr>"
    have "copy_cells (map Some bs @ replicate (n - length bs) None) (length bs) (map Some r) = Some ?blk"
      using True by (simp add: copy_cells_def)
    then have "fill_package uc q fd r = Some (NoResult, Some (link_uncomplete ?uc q))"
      using True uc by (simp add: fill_package_def Let_def)
    moreover have ok: "uc_ok ?uc" "np_id (pack ?uc) = fd" "uc_bytes ?uc = size_bytes n @ bs @ r"
      using True n uc by (auto simp: uc_ok_def uc_bytes_def size_bytes_def comp_def intro!: exI [of _ "bs @ r"])
    moreover have "packages (size_bytes n @ bs @ r) = ([], size_bytes n @ bs @ r)" using pk True by simp
    then have "cuts (Some q) fd (size_bytes n @ bs @ r) NoResult (Some (link_uncomplete ?uc q))"
      using link_uncomplete_ok [OF q(1) ok(1,2) q(2)] ok(3) unfolding save_uncomplete_def get_queue_Some
      by (intro cuts_none) simp_all
    ultimately show ?thesis by blast
  next
    case False
    let ?p = "bs @ take ?need r" and ?r = "drop ?need r"
    have p: "packages (size_bytes n @ bs @ r) = (?p # fst (packages ?r), snd (packages ?r))" "length ?p = n"
      using pk False n(1) by simp_all
    have blk: "copy_cells (map Some bs @ replicate (n - length bs) None) (length bs) (map Some (take ?need r)) = Some (map Some ?p)"
      using False by (simp add: copy_cells_def)
    show ?thesis
    proof (cases "?r = []")
      case True
      have "fill_package uc q fd r = Some (TypeData fd (Some (map Some ?p)) n, Some q)"
        using False True uc blk need by (simp add: fill_package_def Let_def)
      moreover have "cuts (Some q) fd (size_bytes n @ bs @ r) (TypeData fd (Some (map Some ?p)) (length ?p)) (Some q)"
        by (rule cuts_one) (use p True q in \<open>simp_all add: packages_short\<close>)
      ultimately show ?thesis using p(2) by (intro exI conjI) simp_all
    next
      case more: False
      obtain L1 where L1: "push_data (Some q) fd (Some (map Some ?p)) n False = Some L1" "netpack_ok L1"
        "queued L1 = queued (Some q) @ [packet fd ?p]" "\<forall>x. pending L1 x = pending (Some q) x"
        using push_data_ok [OF q(1), of fd "Some (map Some ?p)" n] p(2) by (auto simp: packet_def)
      obtain L' where L': "push_more L1 fd ?r = Some L'" "absorbed L1 fd ?r L'"
        using push_more_absorbs [OF L1(2) _ more] L1(4) q(2) by auto
      have "fill_package uc q fd r = Some (TypeMore, L')"
        using False more uc blk need L1(1) L'(1) by (simp add: fill_package_def Let_def)
      moreover have "cuts (Some q) fd (size_bytes n @ bs @ r) TypeMore L'"
        using cuts_more [OF L1(3) _ L'(2) more p(1)] L1(4) by blast
      ultimately show ?thesis by blast
    qed
  qed
qed

lemma finish_header_ok:
  assumes "uc_read uc = -1" "uc_header uc < 256"
  defines "n b \<equiv> 256 * uc_header uc + unat b"
  shows "finish_header uc (b # r) =
      Some (uc\<lparr>pack := (pack uc)\<lparr>np_size := n b, np_buffer := Some (malloc (n b))\<rparr>, uc_read := 0\<rparr>, r)"
    "n b < 65536" "uc_bytes uc @ b # r = size_bytes (n b) @ r"
proof -
  have u: "unat (of_nat (uc_header uc) :: byte) = uc_header uc" using assms(2) by (simp add: unat_of_nat)
  have "(of_nat (uc_header uc) :: cint) = ucast (of_nat (uc_header uc) :: byte)"
    using assms(2) by (simp add: word_unat_eq_iff unsigned_ucast_eq unat_of_nat take_bit_eq_mod)
  then have "unat (ucast b OR push_bit 8 (of_nat (uc_header uc)) :: cint) = n b"
    using join_bytes [of "of_nat (uc_header uc)" b] u by (simp only: n_def or.commute)
  then show "finish_header uc (b # r) =
      Some (uc\<lparr>pack := (pack uc)\<lparr>np_size := n b, np_buffer := Some (malloc (n b))\<rparr>, uc_read := 0\<rparr>, r)"
    using assms(1) unfolding finish_header_def by (simp add: Let_def del: push_bit_of_nat)
  show "n b < 65536" using size_of_bytes(1) [of "of_nat (uc_header uc)" b] u by (simp add: n_def)
  have "[of_nat (uc_header uc), b] = size_bytes (n b)"
    using size_of_bytes(2) [of "of_nat (uc_header uc)" b] u by (simp add: n_def)
  then show "uc_bytes uc @ b # r = size_bytes (n b) @ r" using assms(1) by (simp add: uc_bytes_def)
qed

lemma continue_package_cuts:
  assumes q: "netpack_ok (Some q)" "pending (Some q) fd = []" and uc: "uc_ok uc" "np_id (pack uc) = fd" and d: "d \<noteq> []"
  shows "\<exists>res L'. continue_package uc q fd d = Some (res, L') \<and> cuts (Some q) fd (uc_bytes uc @ d) res L'"
proof (cases "uc_read uc = -1")
  case True
  then have h: "uc_header uc < 256" using uc(1) by (auto simp: uc_ok_def)
  obtain b r where dr: "d = b # r" using d by (cases d) auto
  let ?n = "256 * uc_header uc + unat b"
  note fin = finish_header_ok(1) [OF True h, of b r] finish_header_ok(2) [OF True h, of b] finish_header_ok(3) [OF True h, of b r]
  let ?uc = "uc\<lparr>pack := (pack uc)\<lparr>np_size := ?n, np_buffer := Some (malloc ?n)\<rparr>, uc_read := 0\<rparr>"
  have "\<exists>res L'. fill_package ?uc q fd r = Some (res, L') \<and> cuts (Some q) fd (size_bytes ?n @ [] @ r) res L'"
    by (rule fill_package_cuts [OF q]) (use fin(2) uc(2) in \<open>simp_all add: malloc_def\<close>)
  then show ?thesis unfolding continue_package_def dr fin(1,3) by simp
next
  case False
  then obtain bs where bs: "uc_read uc = int (length bs)" "length bs < np_size (pack uc)" "np_size (pack uc) < 65536"
    "np_buffer (pack uc) = Some (map Some bs @ replicate (np_size (pack uc) - length bs) None)"
    using uc(1) by (auto simp: uc_ok_def)
  have "uc_bytes uc = size_bytes (np_size (pack uc)) @ bs" using False bs by (simp add: uc_bytes_def size_bytes_def comp_def)
  moreover have "finish_header uc d = Some (uc, d)" using bs(1) by (simp add: finish_header_def)
  moreover have "\<exists>res L'. fill_package uc q fd d = Some (res, L') \<and> cuts (Some q) fd (size_bytes (np_size (pack uc)) @ bs @ d) res L'"
    by (rule fill_package_cuts [OF q _ bs(3) uc(2) refl bs(1,4)]) (use bs(2) in simp)
  ultimately show ?thesis unfolding continue_package_def by simp
qed

lemma begin_package_cuts:
  assumes L: "netpack_ok L" "pending L fd = []" and d: "d \<noteq> []"
  shows "\<exists>res L'. begin_package L fd d = Some (res, L') \<and> cuts L fd d res L'"
proof (cases "length d = 1")
  case True
  then obtain b where b: "d = [b]" by (cases d) auto
  then have "begin_package L fd d = Some (NoResult, save_uncomplete L (header_only fd b))" by (simp add: begin_package_def)
  moreover have "cuts L fd d NoResult (save_uncomplete L (header_only fd b))"
    using save_absorbed [OF L header_only_ok(1,2), of b] b
    by (intro cuts_none) (simp_all add: absorbed_def header_only_ok(3) packages_short)
  ultimately show ?thesis by blast
next
  case False
  with d obtain b0 b1 r where dr: "d = b0 # b1 # r" by (cases d; cases "tl d") auto
  let ?n = "256 * unat b0 + unat b1"
  have dn: "d = size_bytes ?n @ r" using size_of_bytes(2) [of b0 b1] dr by simp
  have rs: "read_size d = Some ?n" by (simp add: read_size_bytes dr)
  have pk: "packages d = (if ?n \<le> length r then (take ?n r # fst (packages (drop ?n r)), snd (packages (drop ?n r))) else ([], d))"
    using packages_size [OF size_of_bytes(1), of b0 b1 r] dn by simp
  consider "length r < ?n" | "length r = ?n" | "?n < length r" by linarith
  then show ?thesis
  proof cases
    case 1
    obtain uc where uc: "begun fd ?n r = Some uc" "uc_ok uc" "np_id (pack uc) = fd" "uc_bytes uc = d"
      using begun_ok [OF 1 size_of_bytes(1)] dn by metis
    have "begin_package L fd d = Some (NoResult, save_uncomplete L uc)" using rs 1 uc(1) by (simp add: begin_package_def dr)
    moreover have "cuts L fd d NoResult (save_uncomplete L uc)"
      using link_uncomplete_ok [OF L(1) uc(2,3) L(2)] uc(4) pk 1 by (intro cuts_none) simp_all
    ultimately show ?thesis by blast
  next
    case 2
    have "begin_package L fd d = Some (TypeData fd (Some (map Some r)) (length r), L)"
      using rs 2 by (simp add: begin_package_def dr copy_cells_whole)
    moreover have "cuts L fd d (TypeData fd (Some (map Some r)) (length r)) L"
      using pk 2 L by (intro cuts_one) (simp_all add: packages_short)
    ultimately show ?thesis by blast
  next
    case 3
    obtain L1 where L1: "push_data L fd (Some (map Some r)) ?n True = Some L1" "netpack_ok L1"
      "queued L1 = queued L @ [packet fd (take ?n r)]" "\<forall>x. pending L1 x = pending L x"
      using push_data_ok [OF L(1), of fd "Some (map Some (take ?n r))" ?n] 3 by (auto simp: push_data_clone packet_def)
    have ne: "drop ?n r \<noteq> []" using 3 by simp
    obtain L' where L': "push_more L1 fd (drop ?n r) = Some L'" "absorbed L1 fd (drop ?n r) L'"
      using push_more_absorbs [OF L1(2) _ ne] L1(4) L(2) by auto
    have "begin_package L fd d = Some (TypeMore, L')" using rs 3 L1(1) L'(1) by (simp add: begin_package_def dr)
    moreover have "cuts L fd d TypeMore L'" using cuts_more [OF L1(3) _ L'(2) ne] L1(4) pk 3 by simp
    ultimately show ?thesis by blast
  qed
qed

lemma filter_data_cuts:
  assumes "netpack_ok L" "d \<noteq> []"
  shows "\<exists>res L'. filter_data L fd d = Some (res, L') \<and> cuts L fd (pending L fd @ d) res L'"
proof (cases "find_uncomplete L fd")
  case None
  then have "pending L fd = []" by (simp add: pending_def)
  then show ?thesis using begin_package_cuts [OF assms(1) _ assms(2)] None by (simp add: filter_data_def)
next
  case (Some p)
  obtain uc q where p: "p = (uc, q)" by (cases p)
  note f = find_uncomplete_Some [OF assms(1) Some [unfolded p]]
  have pend: "pending L fd = uc_bytes uc" "pending (Some q) x = (if x = fd then [] else pending L x)" for x
    using f(5) f(6) [of x] by (auto simp: pending_entry)
  obtain res L' where "continue_package uc q fd d = Some (res, L')" "cuts (Some q) fd (uc_bytes uc @ d) res L'"
    using continue_package_cuts [OF f(1) _ f(3,4) assms(2)] pend(2) [of fd] by auto
  then show ?thesis using Some p f(2) pend by (auto simp: filter_data_def cuts_def)
qed

lemma close_uncomplete_ok:
  assumes "netpack_ok L"
  shows "netpack_ok (close_uncomplete L fd)" "queued (close_uncomplete L fd) = queued L"
    "pending (close_uncomplete L fd) x = (if x = fd then [] else pending L x)"
proof -
  show "netpack_ok (close_uncomplete L fd)" "queued (close_uncomplete L fd) = queued L"
    using find_uncomplete_Some(1,2) [OF assms] assms by (auto simp: close_uncomplete_def split: option.splits)
  show "pending (close_uncomplete L fd) x = (if x = fd then [] else pending L x)"
  proof (cases "find_uncomplete L fd")
    case None
    then have "pending L fd = []" by (simp add: pending_def)
    then show ?thesis using None by (simp add: close_uncomplete_def)
  next
    case (Some p)
    then show ?thesis using find_uncomplete_Some(6) [OF assms, of fd "fst p" "snd p" x]
      by (auto simp: close_uncomplete_def pending_entry split: prod.splits)
  qed
qed

section \<open>Whole streams\<close>

lemma packages_append:
  "packages (a @ b) = (fst (packages a) @ fst (packages (snd (packages a) @ b)), snd (packages (snd (packages a) @ b)))"
proof (induction a rule: packages.induct)
  case (1 a)
  show ?case
  proof (cases "length a < 2")
    case True
    then show ?thesis by (simp add: packages_short)
  next
    case False
    then obtain b0 b1 r where a: "a = b0 # b1 # r" by (cases a; cases "tl a") auto
    let ?n = "256 * unat b0 + unat b1"
    have sp: "packages (b0 # b1 # s) =
        (if ?n \<le> length s then (take ?n s # fst (packages (drop ?n s)), snd (packages (drop ?n s))) else ([], b0 # b1 # s))" for s
      by (subst packages.simps) (simp only: list.case split_beta Let_def)
    show ?thesis
    proof (cases "?n \<le> length r")
      case True
      have "packages (drop ?n r @ b) = (fst (packages (drop ?n r)) @ fst (packages (snd (packages (drop ?n r)) @ b)),
          snd (packages (snd (packages (drop ?n r)) @ b)))"
        using "1.IH" [OF a refl True] .
      then show ?thesis using True unfolding a append.simps sp [of r] sp [of "r @ b"] by simp
    next
      case False
      then show ?thesis unfolding a append.simps sp [of r] by simp
    qed
  qed
qed

lemma lpack_size:
  assumes "n < 65536"
  shows "write_size n = size_bytes n"
proof -
  let ?w = "of_nat n :: cint"
  have m: "(0xff :: cint) = mask 8" by (simp add: mask_eq_exp_minus_1)
  have "(ucast (signed_drop_bit 8 ?w AND 0xff) :: byte) = ucast (drop_bit 8 ?w)" "(ucast (?w AND 0xff) :: byte) = ucast ?w"
    unfolding m by (rule bit_word_eqI; auto simp: bit_simps)+
  moreover have "unat (drop_bit 8 ?w) = n div 256"
    unfolding unsigned_drop_bit_eq using assms by (simp add: unat_of_nat drop_bit_eq_div take_bit_eq_mod)
  then have "(ucast (drop_bit 8 ?w) :: byte) = of_nat (n div 256)"
    using assms by (simp add: word_unat_eq_iff unsigned_ucast_eq unat_of_nat take_bit_eq_mod del: drop_bit_of_nat)
  moreover have "(ucast ?w :: byte) = of_nat (n mod 256)"
    using assms by (simp add: word_unat_eq_iff unsigned_ucast_eq unat_of_nat take_bit_eq_mod mod_mod_cancel)
  ultimately show ?thesis by (simp only: write_size_def size_bytes_def)
qed

lemma lpack_Ok: "lpack p = Ok b \<longleftrightarrow> length p < 65536 \<and> b = size_bytes (length p) @ p"
  by (auto simp: lpack_def lpack_size)

lemma packages_packed:
  "list_all2 (\<lambda>p b. lpack p = Ok b) ps bs \<Longrightarrow> packages (concat bs @ r) = (ps @ fst (packages r), snd (packages r))"
  by (induction ps bs rule: list_all2_induct) (simp_all add: lpack_Ok packages_size)

text \<open>The client of the library: a package that comes alone is taken from the result, more than one
  are popped until there is none. The log holds the packages in the order in which it gets them.\<close>

definition data_message :: "cint \<Rightarrow> byte list \<Rightarrow> ztask_socket_message" where
  "data_message fd d = \<lparr>sm_type = ZTASK_SOCKET_TYPE_DATA, sm_id = fd, sm_ud = of_nat (length d), sm_buffer = Some d, sm_tail = []\<rparr>"

partial_function (option) pop_all :: "netqueue option \<Rightarrow> (netpack list \<times> netqueue option) option" where
  "pop_all L =
     do { (r, L) \<leftarrow> lpop L;
          (case r of None \<Rightarrow> Some ([], L)
           | Some np \<Rightarrow> do { (nps, L) \<leftarrow> pop_all L; Some (np # nps, L) }) }"

definition client :: "filter_result \<Rightarrow> netqueue option \<Rightarrow> (netpack list \<times> netqueue option) outcome" where
  "client res L =
     (case res of
        TypeData fd b n \<Rightarrow> Ok ([\<lparr>np_id = fd, np_size = n, np_buffer = b\<rparr>], L)
      | TypeMore \<Rightarrow> ok_or_crash (pop_all L)
      | _ \<Rightarrow> Ok ([], L))"

fun gate_run :: "(cint \<times> byte list) list \<Rightarrow> netqueue option \<Rightarrow> (netpack list \<times> netqueue option) outcome" where
  "gate_run [] L = Ok ([], L)"
| "gate_run ((fd, d) # cs) L =
     and_then (lfilter L (data_message fd d) sizeof_socket_message) (\<lambda>(res, L).
     and_then (client res L) (\<lambda>(out, L).
     and_then (gate_run cs L) (\<lambda>(rest, L). Ok (out @ rest, L))))"

definition stream_of :: "cint \<Rightarrow> (cint \<times> byte list) list \<Rightarrow> byte list" where
  "stream_of fd cs = concat (map snd (filter (\<lambda>c. fst c = fd) cs))"

lemma pop_all_ok:
  "netpack_ok L \<Longrightarrow> queued L = nps \<Longrightarrow>
   \<exists>L'. pop_all L = Some (nps, L') \<and> netpack_ok L' \<and> queued L' = [] \<and> (\<forall>fd. pending L' fd = pending L fd)"
proof (induction nps arbitrary: L)
  case Nil
  with lpop_queued [of L] show ?case by (subst pop_all.simps) auto
next
  case (Cons np nps)
  obtain L1 where L1: "lpop L = Some (Some np, L1)" "netpack_ok L1" "queued L1 = nps" "\<forall>fd. pending L1 fd = pending L fd"
    using lpop_queued [OF Cons.prems(1)] Cons.prems(2) by auto
  with Cons.IH [of L1] show ?case by (subst pop_all.simps) auto
qed

lemma lfilter_data:
  "length d < 2 ^ 31 \<Longrightarrow> lfilter L (data_message fd d) n = ok_or_crash (filter_data L fd d)"
  by (simp add: lfilter_def data_message_def unat_of_nat signed_of_nat signed_take_bit_int_eq_self)

lemma client_takes:
  assumes "cuts L fd bs res L1" "queued L = []"
  shows "\<exists>L2. client res L1 = Ok (map (packet fd) (fst (packages bs)), L2) \<and>
    netpack_ok L2 \<and> queued L2 = [] \<and> (\<forall>x. pending L2 x = pending L1 x)"
proof -
  obtain ps rest where p: "packages bs = (ps, rest)" by (cases "packages bs")
  have L1: "netpack_ok L1" "queued L1 = snd (cut_result fd bs)" "res = fst (cut_result fd bs)"
    using assms by (simp_all add: cuts_def)
  consider "ps = []" | q where "ps = [q]" "rest = []" | "cut_result fd bs = (TypeMore, map (packet fd) ps)"
    by (cases ps; cases "tl ps"; cases rest) (auto simp: cut_result_def p)
  then show ?thesis
  proof cases
    case 3
    then show ?thesis using pop_all_ok [OF L1(1,2)] L1(3) p by (auto simp: client_def ok_or_crash_def)
  qed (use L1 p in \<open>auto simp: cut_result_def client_def packet_def\<close>)
qed

lemma packages_pending:
  assumes "netpack_ok L"
  shows "packages (pending L fd) = ([], pending L fd)"
proof (cases "entry L fd")
  case None
  then show ?thesis by (simp add: pending_entry packages_short)
next
  case (Some uc)
  then have "uc \<in> set (hash (get_queue L) (hash_fd fd))" by (auto simp: entry_def find_Some_iff)
  then have "uc_ok uc" using assms by (auto simp: netpack_ok_def hash_ok_def)
  then have "packages (uc_bytes uc) = ([], uc_bytes uc)"
    using packages_size by (auto simp: uc_ok_def uc_bytes_def packages_short comp_def simp flip: size_bytes_def append_Cons)
  then show ?thesis using Some by (simp add: pending_entry)
qed

lemma gate_run_cuts:
  assumes "netpack_ok L" "queued L = []" "\<forall>c \<in> set cs. snd c \<noteq> [] \<and> length (snd c) < 2 ^ 31"
  shows "\<exists>out L'. gate_run cs L = Ok (out, L') \<and> netpack_ok L' \<and> queued L' = [] \<and>
    (\<forall>fd. filter (\<lambda>np. np_id np = fd) out = map (packet fd) (fst (packages (pending L fd @ stream_of fd cs))) \<and>
      pending L' fd = snd (packages (pending L fd @ stream_of fd cs)))"
  using assms
proof (induction cs arbitrary: L)
  case Nil
  then show ?case using packages_pending by (auto simp: stream_of_def)
next
  case (Cons c cs)
  obtain fd d where c: "c = (fd, d)" by (cases c)
  have d: "d \<noteq> []" "length d < 2 ^ 31" using Cons.prems(3) c by simp_all
  let ?bs = "pending L fd @ d"
  obtain res L1 where L1: "filter_data L fd d = Some (res, L1)" "cuts L fd ?bs res L1"
    using filter_data_cuts [OF Cons.prems(1) d(1)] by blast
  obtain L2 where L2: "client res L1 = Ok (map (packet fd) (fst (packages ?bs)), L2)"
    "netpack_ok L2" "queued L2 = []" "\<forall>x. pending L2 x = pending L1 x"
    using client_takes [OF L1(2) Cons.prems(2)] by blast
  obtain out L' where run: "gate_run cs L2 = Ok (out, L')" "netpack_ok L'" "queued L' = []"
    "\<forall>x. filter (\<lambda>np. np_id np = x) out = map (packet x) (fst (packages (pending L2 x @ stream_of x cs))) \<and>
      pending L' x = snd (packages (pending L2 x @ stream_of x cs))"
    using Cons.IH [OF L2(2,3)] Cons.prems(3) by auto
  have ids: "filter (\<lambda>np. np_id np = x) (map (packet fd) ps) = (if x = fd then map (packet fd) ps else [])" for x ps
    by (induction ps) (auto simp: packet_def)
  have pend: "pending L2 x = (if x = fd then snd (packages ?bs) else pending L x)" for x
    using L1(2) L2(4) by (simp add: cuts_def)
  have st: "stream_of x (c # cs) = (if x = fd then d @ stream_of x cs else stream_of x cs)" for x
    by (simp add: stream_of_def c)
  have "gate_run (c # cs) L = Ok (map (packet fd) (fst (packages ?bs)) @ out, L')"
    using L1(1) L2(1) run(1) by (simp add: c lfilter_data [OF d(2)] ok_or_crash_def)
  moreover have "filter (\<lambda>np. np_id np = x) (map (packet fd) (fst (packages ?bs)) @ out) =
      map (packet x) (fst (packages (pending L x @ stream_of x (c # cs)))) \<and>
    pending L' x = snd (packages (pending L x @ stream_of x (c # cs)))" for x
    using run(4) packages_append [of ?bs "stream_of fd cs"] by (simp add: ids pend st)
  ultimately show ?case using run(2,3) by blast
qed

text \<open>(C18)
  Whatever packages the senders make with \<^verbatim>\<open>netpack.pack\<close>, and however the network cuts the streams
  of the sockets into pieces and interleaves them, the client of \<^verbatim>\<open>netpack.filter\<close> and
  \<^verbatim>\<open>netpack.pop\<close> gets the packages of each socket, whole and in order.\<close>

theorem netpack_stream:
  assumes "\<forall>c \<in> set cs. snd c \<noteq> [] \<and> length (snd c) < 2 ^ 31"
    and "list_all2 (\<lambda>p b. lpack p = Ok b) ps bs" "stream_of fd cs = concat bs"
  shows "\<exists>out L. gate_run cs None = Ok (out, L) \<and> filter (\<lambda>np. np_id np = fd) out = map (packet fd) ps"
proof -
  have "pending None fd = []" for fd by (simp add: pending_def find_uncomplete_def)
  moreover have "packages (concat bs) = (ps, [])" using packages_packed [OF assms(2), of "[]"] by (simp add: packages_short)
  ultimately show ?thesis using gate_run_cuts [of None cs] assms(1,3) by fastforce
qed

text \<open>Two packages of socket 7 in three pieces, one of which ends inside a size, with a piece of a
  package of socket 8 between them.\<close>

theorem netpack_stream_witness:
  "\<exists>out L. gate_run [(7, [0, 2, 65, 66, 0]), (8, [0, 9, 1]), (7, [1]), (7, [67])] None = Ok (out, L) \<and>
     filter (\<lambda>np. np_id np = 7) out = map (packet 7) [[65, 66], [67]]"
  by (rule netpack_stream [of _ _ "[[0, 2, 65, 66], [0, 1, 67]]"])
    (simp_all add: lpack_Ok size_bytes_def stream_of_def)

text \<open>One call of \<^verbatim>\<open>netpack.filter\<close> with data of a socket: with the bytes kept from before, no whole package
  gives no result, one package and nothing else is handed out, otherwise all packages are queued;
  the bytes after the last package are kept, the other sockets are untouched.\<close>

theorem netpack_filter_data:
  assumes "netpack_ok L" "d \<noteq> []" "length d < 2 ^ 31" "packages (pending L fd @ d) = (ps, rest)"
  shows "\<exists>res L'. lfilter L (data_message fd d) n = Ok (res, L') \<and> netpack_ok L' \<and>
    (\<forall>x. pending L' x = (if x = fd then rest else pending L x)) \<and>
    (if ps = [] then res = NoResult \<and> queued L' = queued L
     else if tl ps = [] \<and> rest = [] then res = TypeData fd (Some (map Some (hd ps))) (length (hd ps)) \<and> queued L' = queued L
     else res = TypeMore \<and> queued L' = queued L @ map (packet fd) ps)"
proof -
  obtain res L' where L': "filter_data L fd d = Some (res, L')" "cuts L fd (pending L fd @ d) res L'"
    using filter_data_cuts [OF assms(1,2)] by blast
  have "cut_result fd (pending L fd @ d) =
    (if ps = [] then (NoResult, []) else if tl ps = [] \<and> rest = [] then (TypeData fd (Some (map Some (hd ps))) (length (hd ps)), [])
     else (TypeMore, map (packet fd) ps))"
    by (cases ps; cases "tl ps"; cases rest) (auto simp: cut_result_def assms(4))
  then show ?thesis using L' assms(4) by (auto simp: lfilter_data [OF assms(3)] ok_or_crash_def cuts_def)
qed

theorem netpack_filter_data_witness:
  "\<exists>res L'. lfilter None (data_message 7 [0, 1, 65, 0]) 56 = Ok (res, L') \<and> res = TypeMore \<and>
     queued L' = [packet 7 [65]] \<and> pending L' 7 = [0]"
proof -
  have "packages [0, 1, 65, 0] = ([[65]], [0])"
    using packages_size [of 1 "[65, 0]"] by (simp add: size_bytes_def packages_short)
  then show ?thesis
    using netpack_filter_data [of None "[0, 1, 65, 0]" 7 "[[65]]" "[0]" 56]
    by (auto simp: pending_def find_uncomplete_def)
qed

text \<open>\<^verbatim>\<open>netpack.clear\<close> frees the buffer of every unfinished and every queued package and leaves nothing.\<close>

lemma hash_fd_less: "hash_fd fd < HASHSIZE"
  by (simp add: hash_fd_def HASHSIZE_def)

lemma those_map_Some: "None \<notin> set xs \<Longrightarrow> those xs = Some (map the xs)"
proof (induction xs)
  case (Cons a xs)
  then show ?case by (cases a) auto
qed simp

lemma lclear_frees:
  assumes "netpack_ok (Some q)"
  shows "\<exists>unfinished q'. lclear (Some q) = Some (unfinished @ map np_buffer (queued (Some q)), Some q') \<and>
    (\<forall>fd uc. entry (Some q) fd = Some uc \<longrightarrow> np_buffer (pack uc) \<in> set unfinished) \<and>
    netpack_ok (Some q') \<and> queued (Some q') = [] \<and> (\<forall>fd. pending (Some q') fd = [])"
proof -
  have ok: "length (queue q) = cap q" "head q < cap q" "tail q < cap q" "None \<notin> set (ring_list (queue q) (head q) (tail q))"
    using assms by (auto simp: netpack_ok_def netqueue_ok_def)
  let ?t = "if tail q < head q then tail q + cap q else tail q"
  have "[head q..<?t] = map (\<lambda>i. head q + i) [0..<ring_len (head q) (tail q) (cap q)]"
    using ok(2,3) map_add_upt [of "head q" "ring_len (head q) (tail q) (cap q)"] by (auto simp: ring_len_def add.commute)
  moreover have "Option.bind (array_get (queue q) (i mod cap q)) (\<lambda>c. c) = queue q ! (i mod cap q)" for i
    using ok(1,2) by simp
  ultimately have cells: "map (\<lambda>i. Option.bind (array_get (queue q) (i mod cap q)) (\<lambda>c. c)) [head q..<?t] = ring_list (queue q) (head q) (tail q)"
    by (simp add: ring_list_def ring_cells_def ok(1) comp_def)
  then have "lclear (Some q) = Some (concat (map (\<lambda>i. clear_list (hash q i)) [0..<HASHSIZE]) @ map np_buffer (queued (Some q)),
      Some (q\<lparr>hash := \<lambda>i. [], head := 0, tail := 0\<rparr>))"
    using those_map_Some [OF ok(4)] cells
    by (cases "tail q < head q") (simp_all add: lclear_def queued_def contents_def comp_def)
  moreover have "np_buffer (pack uc) \<in> set (concat (map (\<lambda>i. clear_list (hash q i)) [0..<HASHSIZE]))"
    if "entry (Some q) fd = Some uc" for fd uc
    using that hash_fd_less [of fd] by (auto simp: entry_def find_Some_iff clear_list_def intro!: bexI [of _ "hash_fd fd"])
  moreover have "netpack_ok (Some (q\<lparr>hash := \<lambda>i. [], head := 0, tail := 0\<rparr>))"
    using ok by (auto simp: netpack_ok_def netqueue_ok_def hash_ok_def ring_list_empty)
  ultimately show ?thesis
    by (intro exI conjI) (auto simp: queued_def contents_def ring_list_empty pending_entry entry_def)
qed

text \<open>The socket server stores the address of an accepted connection in the message itself, not behind
  it: the text of \<^verbatim>\<open>open\<close> is then empty. A message with a buffer raises an error instead.\<close>

lemma lfilter_open:
  assumes "sm_type m = ZTASK_SOCKET_TYPE_ACCEPT"
  shows "sm_buffer m = None \<Longrightarrow> lfilter L m sizeof_socket_message = Ok (TypeOpen (sm_ud m) [], L)"
    "sm_buffer m = Some b \<Longrightarrow> lfilter L m n = Err ''memory allocation error: block too big''"
  using assms by (simp_all add: lfilter_def pushstring_def ZTASK_SOCKET_TYPE_ACCEPT_def ZTASK_SOCKET_TYPE_DATA_def
    ZTASK_SOCKET_TYPE_CONNECT_def ZTASK_SOCKET_TYPE_CLOSE_def)

end
