(* ===== verification/Zeropack.thy ===== *)
theory Zeropack
  imports Outcome
begin

text \<open>
  The packing of sproto messages, \<^verbatim>\<open>src/ztask/lualib/sproto/sproto.c\<close> from \<^verbatim>\<open>pack_seg\<close> on, and the
  functions \<^verbatim>\<open>pack\<close> and \<^verbatim>\<open>unpack\<close> of \<^verbatim>\<open>lsproto.c\<close>. Eight bytes at a time, zero bytes are left out and
  marked in a header byte; runs of segments with no or few zeros are copied behind the header 255.

  Buffers are lists of bytes of their full size, and an access outside of them is \<open>None\<close>; so the
  theorems also say that the code stays within its buffers. The source is a list of the bytes that can be
  read, with its size apart from it: behind the bytes of a Lua string there is a zero byte, behind a light
  userdata anything.
\<close>

section \<open>Packing\<close>

text \<open>Where \<^verbatim>\<open>ff_srcstart\<close> points: into the source, or to the padded copy of its last bytes.\<close>

datatype pointer = Src nat | Tmp "byte list"

record packer =
  mem :: "byte list"
  size_out :: nat
  bufsz :: int
  ff_n :: nat
  ff_src :: pointer
  ff_des :: nat

text \<open>The loop over the eight bytes: the remaining bytes of the segment, their index, the count of the bytes
  that are not zero, the header, and the buffer with the position and the room.\<close>

fun pack_bytes :: "byte list \<Rightarrow> nat \<Rightarrow> nat \<Rightarrow> byte \<Rightarrow> byte list \<Rightarrow> nat \<Rightarrow> int \<Rightarrow> (nat \<times> byte \<times> byte list) option" where
  "pack_bytes [] i notzero header buf p sz = Some (notzero, header, buf)"
| "pack_bytes (b # bs) i notzero header buf p sz =
     (if b \<noteq> 0
      then if 0 < sz
           then do { buf \<leftarrow> array_set buf p b; pack_bytes bs (i + 1) (notzero + 1) (header OR push_bit i 1) buf (p + 1) (sz - 1) }
           else pack_bytes bs (i + 1) (notzero + 1) (header OR push_bit i 1) buf p sz
      else pack_bytes bs (i + 1) notzero header buf p sz)"

definition pack_seg :: "byte list \<Rightarrow> byte list \<Rightarrow> nat \<Rightarrow> int \<Rightarrow> nat \<Rightarrow> (nat \<times> byte list) option" where
  "pack_seg seg buf p sz n =
     do { let sz = sz - 1;
          (notzero, header, buf) \<leftarrow> pack_bytes seg 0 0 0 buf (p + 1) sz;
          let notzero = (if (notzero = 7 \<or> notzero = 6) \<and> 0 < n then 8 else notzero);
          if notzero = 8 then Some (if 0 < n then 8 else 10, buf)
          else do { buf \<leftarrow> (if sz < 0 then Some buf else array_set buf p header);
                    Some (notzero + 1, buf) } }"

definition read_ptr :: "byte list \<Rightarrow> pointer \<Rightarrow> nat \<Rightarrow> byte list option" where
  "read_ptr src ptr n =
     (case ptr of
        Src k \<Rightarrow> if k + n \<le> length src then Some (take n (drop k src)) else None
      | Tmp t \<Rightarrow> if n \<le> length t then Some (take n t) else None)"

definition write_at :: "byte list \<Rightarrow> nat \<Rightarrow> byte list \<Rightarrow> byte list option" where
  "write_at buf p bs = (if p + length bs \<le> length buf then Some (take p buf @ bs @ drop (p + length bs) buf) else None)"

definition write_ff :: "byte list \<Rightarrow> pointer \<Rightarrow> byte list \<Rightarrow> nat \<Rightarrow> nat \<Rightarrow> byte list option" where
  "write_ff src ptr buf des n =
     (let align8_n = (n + 7) div 8 * 8 in
      do { bs \<leftarrow> read_ptr src ptr n;
           write_at buf des ([0xff, of_nat (align8_n div 8 - 1)] @ bs @ replicate (align8_n - n) 0) })"

text \<open>One turn of the loop of \<^verbatim>\<open>sproto_pack\<close>.\<close>

definition pack_step :: "byte list \<Rightarrow> nat \<Rightarrow> nat \<Rightarrow> packer \<Rightarrow> packer option" where
  "pack_step src srcsz i s =
     do { (seg, ptr) \<leftarrow> (if srcsz < i + 8
                        then do { bs \<leftarrow> read_ptr src (Src i) (srcsz - i);
                                  let tmp = bs @ replicate (i + 8 - srcsz) 0; Some (tmp, Tmp tmp) }
                        else do { bs \<leftarrow> read_ptr src (Src i) 8; Some (bs, Src i) });
          (n, buf) \<leftarrow> pack_seg seg (mem s) (size_out s) (bufsz s) (ff_n s);
          let room = bufsz s - int n;
          let s1 = s\<lparr>mem := buf, size_out := size_out s + n, bufsz := room\<rparr>;
          if n = 10 then Some (s1\<lparr>ff_n := 1, ff_src := ptr, ff_des := size_out s\<rparr>)
          else if n = 8 \<and> 0 < ff_n s
          then if ff_n s + 1 = 256
               then do { buf \<leftarrow> (if 0 \<le> room then write_ff src (ff_src s) buf (ff_des s) (256 * 8) else Some buf);
                         Some (s1\<lparr>mem := buf, ff_n := 0\<rparr>) }
               else Some (s1\<lparr>ff_n := ff_n s + 1\<rparr>)
          else if 0 < ff_n s
          then do { buf \<leftarrow> (if 0 \<le> room then write_ff src (ff_src s) buf (ff_des s) (ff_n s * 8) else Some buf);
                    Some (s1\<lparr>mem := buf, ff_n := 0\<rparr>) }
          else Some s1 }"

function pack_loop :: "byte list \<Rightarrow> nat \<Rightarrow> nat \<Rightarrow> packer \<Rightarrow> packer option" where
  "pack_loop src srcsz i s =
     (if i < srcsz
      then case pack_step src srcsz i s of None \<Rightarrow> None | Some s1 \<Rightarrow> pack_loop src srcsz (i + 8) s1
      else Some s)"
  by pat_completeness auto
termination by (relation "measure (\<lambda>(src, srcsz, i, s). srcsz - i)") auto

declare pack_loop.simps [simp del]

text \<open>The run that is open at the end of the source, whose last segment may be short.\<close>

definition pack_finish :: "byte list \<Rightarrow> nat \<Rightarrow> packer \<Rightarrow> (nat \<times> byte list) option" where
  "pack_finish src srcsz s =
     do { buf \<leftarrow> (if bufsz s < 0 then Some (mem s)
                  else if ff_n s = 1 then write_ff src (ff_src s) (mem s) (ff_des s) 8
                  else if 1 < ff_n s
                  then case ff_src s of
                         Src k \<Rightarrow> write_ff src (ff_src s) (mem s) (ff_des s) (srcsz - k)
                       | Tmp t \<Rightarrow> None
                  else Some (mem s));
          Some (size_out s, buf) }"

text \<open>The size and the buffer. The sizes are small enough for an \<^verbatim>\<open>int\<close>.\<close>

definition sproto_pack :: "byte list \<Rightarrow> nat \<Rightarrow> byte list \<Rightarrow> nat \<Rightarrow> (nat \<times> byte list) option" where
  "sproto_pack src srcsz buf room =
     do { s \<leftarrow> pack_loop src srcsz 0 \<lparr>mem = buf, size_out = 0, bufsz = int room, ff_n = 0, ff_src = Src 0, ff_des = 0\<rparr>;
          pack_finish src srcsz s }"

section \<open>Unpacking\<close>

record unpacker =
  u_src :: "byte list"
  u_srcsz :: int
  u_out :: "byte list"
  u_pos :: nat
  u_room :: int
  u_size_in :: nat

definition store_byte :: "byte \<Rightarrow> unpacker \<Rightarrow> unpacker option" where
  "store_byte b u =
     (if 0 < u_room u
      then do { o' \<leftarrow> array_set (u_out u) (u_pos u) b; Some (u\<lparr>u_out := o', u_pos := u_pos u + 1, u_room := u_room u - 1\<rparr>) }
      else Some u)"

text \<open>The inner loop from bit \<open>i\<close> of the header, \<open>k\<close> bits still to go. The value \<open>None\<close> inside is the
  error \<open>-1\<close>; the value \<open>None\<close> outside is a read behind the source or a write behind the buffer.\<close>

fun unpack_bits :: "nat \<Rightarrow> nat \<Rightarrow> byte \<Rightarrow> unpacker \<Rightarrow> unpacker option option" where
  "unpack_bits 0 i header u = Some (Some u)"
| "unpack_bits (Suc k) i header u =
     (if drop_bit i header AND 1 \<noteq> 0
      then if u_srcsz u < 0 then Some None
           else do { u1 \<leftarrow> (if 0 < u_room u then do { b \<leftarrow> array_get (u_src u) 0; store_byte b u } else Some u);
                     unpack_bits k (i + 1) header (u1\<lparr>u_src := drop 1 (u_src u1), u_srcsz := u_srcsz u1 - 1, u_size_in := u_size_in u1 + 1\<rparr>) }
      else do { u1 \<leftarrow> store_byte 0 u; unpack_bits k (i + 1) header (u1\<lparr>u_size_in := u_size_in u1 + 1\<rparr>) })"

definition unpack_ff :: "unpacker \<Rightarrow> unpacker option option" where
  "unpack_ff u =
     (if u_srcsz u < 0 then Some None
      else do { b \<leftarrow> array_get (u_src u) 0;
                let n = (unat b + 1) * 8;
                if u_srcsz u < int n + 1 then Some None
                else do { bs \<leftarrow> read_ptr (drop 1 (u_src u)) (Src 0) n;
                          o' \<leftarrow> (if int n \<le> u_room u then write_at (u_out u) (u_pos u) bs else Some (u_out u));
                          Some (Some (u\<lparr>u_src := drop (n + 1) (u_src u), u_srcsz := u_srcsz u - (int n + 1), u_out := o',
                                        u_pos := u_pos u + n, u_room := u_room u - int n, u_size_in := u_size_in u + n\<rparr>)) } })"

definition unpack_step :: "unpacker \<Rightarrow> unpacker option option" where
  "unpack_step u =
     do { header \<leftarrow> array_get (u_src u) 0;
          let u1 = u\<lparr>u_src := drop 1 (u_src u), u_srcsz := u_srcsz u - 1\<rparr>;
          if header = 0xff then unpack_ff u1 else unpack_bits 8 0 header u1 }"

partial_function (option) unpack_loop :: "unpacker \<Rightarrow> unpacker option option" where
  "unpack_loop u =
     (if 0 < u_srcsz u
      then do { r \<leftarrow> unpack_step u;
                case r of None \<Rightarrow> Some None | Some u1 \<Rightarrow> unpack_loop u1 }
      else Some (Some u))"

text \<open>The size, or \<open>None\<close> for \<open>-1\<close>, and the buffer.\<close>

definition sproto_unpack :: "byte list \<Rightarrow> nat \<Rightarrow> byte list \<Rightarrow> nat \<Rightarrow> (nat \<times> byte list) option option" where
  "sproto_unpack s sz buf n =
     do { r \<leftarrow> unpack_loop \<lparr>u_src = s, u_srcsz = int sz, u_out = buf, u_pos = 0, u_room = int n, u_size_in = 0\<rparr>;
          Some (map_option (\<lambda>u. (u_size_in u, u_out u)) r) }"

section \<open>The functions exported to Lua\<close>

text \<open>The two functions keep a buffer between the calls, an argument and a second result here. A new buffer
  has the contents \<open>fresh n\<close>; \<open>behind\<close> are the bytes that can be read behind the source. A source of 2^30
  bytes or more does not fit the \<^verbatim>\<open>int\<close> computations.\<close>

definition ENCODE_MAXSIZE :: nat where "ENCODE_MAXSIZE = 0x1000000"

text \<open>The doubling of an \<^verbatim>\<open>int\<close>: \<open>None\<close> when it overflows or does not end.\<close>

partial_function (option) double_size :: "nat \<Rightarrow> nat \<Rightarrow> nat option" where
  "double_size osz nsz =
     (if 2 ^ 31 \<le> osz * 2 then None
      else if osz * 2 < nsz then double_size (osz * 2) nsz
      else Some (osz * 2))"

definition expand_buffer :: "(nat \<Rightarrow> byte list) \<Rightarrow> nat \<Rightarrow> nat \<Rightarrow> byte list outcome" where
  "expand_buffer fresh osz nsz =
     (case double_size osz nsz of
        None \<Rightarrow> Crash
      | Some n \<Rightarrow> if ENCODE_MAXSIZE < n then Err (''object is too large (>'' @ fmt_d (int ENCODE_MAXSIZE) @ '')'')
                  else Ok (fresh n))"

definition lpack :: "(nat \<Rightarrow> byte list) \<Rightarrow> byte list \<Rightarrow> byte list \<Rightarrow> byte list \<Rightarrow> (byte list \<times> byte list) outcome" where
  "lpack fresh output buffer behind =
     (let sz = length buffer; maxsz = (sz + 2047) div 2048 * 2 + sz + 2 in
      if 2 ^ 30 \<le> sz then Crash
      else and_then (if length output < maxsz then expand_buffer fresh (length output) maxsz else Ok output) (\<lambda>output.
        case sproto_pack (buffer @ behind) sz output maxsz of
          None \<Rightarrow> Crash
        | Some (bytes, output) \<Rightarrow>
            if maxsz < bytes then Err (''packing error, return size = '' @ fmt_d (int bytes))
            else Ok (take bytes output, output)))"

definition lunpack :: "(nat \<Rightarrow> byte list) \<Rightarrow> byte list \<Rightarrow> byte list \<Rightarrow> byte list \<Rightarrow> (byte list \<times> byte list) outcome" where
  "lunpack fresh output buffer behind =
     (let sz = length buffer in
      if 2 ^ 30 \<le> sz then Crash
      else case sproto_unpack (buffer @ behind) sz output (length output) of
          None \<Rightarrow> Crash
        | Some None \<Rightarrow> Err ''Invalid unpack stream''
        | Some (Some (r, out1)) \<Rightarrow>
            if length output < r
            then and_then (expand_buffer fresh (length output) r) (\<lambda>output.
              case sproto_unpack (buffer @ behind) sz output r of
                None \<Rightarrow> Crash
              | Some None \<Rightarrow> Err ''Invalid unpack stream''
              | Some (Some (r, out2)) \<Rightarrow> Ok (take r out2, out2))
            else Ok (take r out1, out1))"

section \<open>The format\<close>

definition nonzeros :: "byte list \<Rightarrow> byte list" where
  "nonzeros = filter (\<lambda>b. b \<noteq> 0)"

primrec seg_header :: "byte list \<Rightarrow> nat \<Rightarrow> byte" where
  "seg_header [] i = 0"
| "seg_header (b # bs) i = (if b \<noteq> 0 then push_bit i 1 else 0) OR seg_header bs (i + 1)"

definition close_run :: "byte list list \<Rightarrow> byte list" where
  "close_run run = (if run = [] then [] else 0xff # of_nat (length run - 1) # concat run)"

text \<open>The encoding of the segments after an open run.\<close>

fun zeropack :: "byte list list \<Rightarrow> byte list list \<Rightarrow> byte list" where
  "zeropack run [] = close_run run"
| "zeropack run (s # ss) =
     (if run = []
      then if length (nonzeros s) = 8 then zeropack [s] ss else seg_header s 0 # nonzeros s @ zeropack [] ss
      else if 6 \<le> length (nonzeros s)
      then if length run + 1 = 256 then close_run (run @ [s]) @ zeropack [] ss else zeropack (run @ [s]) ss
      else close_run run @ seg_header s 0 # nonzeros s @ zeropack [] ss)"

text \<open>A run is closed by its 256th segment where that is the last one of the source.\<close>

fun full_run_last :: "byte list list \<Rightarrow> byte list list \<Rightarrow> bool" where
  "full_run_last run [] = False"
| "full_run_last run (s # ss) =
     (if run = []
      then if length (nonzeros s) = 8 then full_run_last [s] ss else full_run_last [] ss
      else if 6 \<le> length (nonzeros s)
      then if length run + 1 = 256 then ss = [] \<or> full_run_last [] ss else full_run_last (run @ [s]) ss
      else full_run_last [] ss)"

text \<open>A text with zeros up to a multiple of eight bytes, and its segments.\<close>

definition padded :: "byte list \<Rightarrow> byte list" where
  "padded t = t @ replicate ((length t + 7) div 8 * 8 - length t) 0"

function segments :: "byte list \<Rightarrow> byte list list" where
  "segments t = (if t = [] then [] else take 8 t # segments (drop 8 t))"
  by pat_completeness auto
termination by (relation "measure length") auto

declare segments.simps [simp del]

section \<open>One segment\<close>

lemma length_nonzeros: "length (nonzeros s) \<le> length s"
  by (simp add: nonzeros_def)

lemma nonzeros_simps [simp]: "nonzeros [] = []" "nonzeros (b # bs) = (if b \<noteq> 0 then b # nonzeros bs else nonzeros bs)"
  by (simp_all add: nonzeros_def)

lemma pack_bytes_ok:
  "0 < sz \<longrightarrow> int p + sz \<le> int (length buf) \<Longrightarrow>
   \<exists>buf'. pack_bytes s i nz h buf p sz = Some (nz + length (nonzeros s), h OR seg_header s i, buf') \<and>
     length buf' = length buf \<and> take p buf' = take p buf \<and>
     (int (length (nonzeros s)) \<le> sz \<longrightarrow> take (p + length (nonzeros s)) buf' = take p buf @ nonzeros s)"
proof (induction s arbitrary: i nz h buf p sz)
  case (Cons b s)
  show ?case
  proof (cases "b \<noteq> 0 \<and> 0 < sz")
    case True
    then have p: "p < length buf" using Cons.prems by simp
    let ?buf = "buf[p := b]"
    obtain buf' where b': "pack_bytes s (i + 1) (nz + 1) (h OR push_bit i 1) ?buf (p + 1) (sz - 1) =
        Some (nz + 1 + length (nonzeros s), (h OR push_bit i 1) OR seg_header s (i + 1), buf')"
      "length buf' = length buf" "take (p + 1) buf' = take (p + 1) ?buf"
      "int (length (nonzeros s)) \<le> sz - 1 \<longrightarrow> take (p + 1 + length (nonzeros s)) buf' = take (p + 1) ?buf @ nonzeros s"
      using Cons.IH [of "sz - 1" "p + 1" ?buf "i + 1" "nz + 1" "h OR push_bit i 1"] Cons.prems True by auto
    have t: "take (p + 1) ?buf = take p buf @ [b]" using p by (simp add: take_Suc_conv_app_nth)
    have "take p buf' = take p buf" using arg_cong [OF b'(3), of "take p"] by simp
    then show ?thesis using True p b' t by (auto simp: or.assoc)
  next
    case False
    then show ?thesis
      using Cons.IH [of sz p buf "i + 1" "nz + 1" "h OR push_bit i 1"] Cons.IH [of sz p buf "i + 1" nz h] Cons.prems
      by (auto simp: or.assoc)
  qed
qed simp

definition seg_cost :: "byte list \<Rightarrow> nat \<Rightarrow> nat" where
  "seg_cost s n = (if 0 < n \<and> 6 \<le> length (nonzeros s) then 8 else if length (nonzeros s) = 8 then 10 else length (nonzeros s) + 1)"

lemma pack_seg_ok:
  assumes "length s = 8" "0 \<le> sz \<longrightarrow> int p + sz \<le> int (length buf)"
  shows "\<exists>buf'. pack_seg s buf p sz n = Some (seg_cost s n, buf') \<and> length buf' = length buf \<and> take p buf' = take p buf \<and>
    (seg_cost s n \<noteq> 8 \<and> seg_cost s n \<noteq> 10 \<or> n = 0 \<and> seg_cost s n \<noteq> 10 \<longrightarrow> int (seg_cost s n) \<le> sz \<longrightarrow>
      take (p + seg_cost s n) buf' = take p buf @ seg_header s 0 # nonzeros s)"
proof -
  let ?k = "length (nonzeros s)"
  have k8: "?k \<le> 8" using length_nonzeros [of s] assms(1) by simp
  obtain buf1 where b: "pack_bytes s 0 0 0 buf (p + 1) (sz - 1) = Some (?k, seg_header s 0, buf1)"
    "length buf1 = length buf" "take (p + 1) buf1 = take (p + 1) buf"
    "int ?k \<le> sz - 1 \<longrightarrow> take (p + 1 + ?k) buf1 = take (p + 1) buf @ nonzeros s"
    using pack_bytes_ok [of "sz - 1" "p + 1" buf s 0 0 0] assms(2) by auto
  have t: "take p buf1 = take p buf" using arg_cong [OF b(3), of "take p"] by simp
  show ?thesis
  proof (cases "?k = 8 \<or> 0 < n \<and> 6 \<le> ?k")
    case True
    then have "?k = 8 \<or> ?k = 7 \<or> ?k = 6" using k8 by linarith
    then show ?thesis using True b(1,2) t by (auto simp: pack_seg_def seg_cost_def)
  next
    case False
    then have c: "seg_cost s n = ?k + 1" by (auto simp: seg_cost_def)
    show ?thesis
    proof (cases "sz - 1 < 0")
      case True
      then show ?thesis using False b(1,2) t c by (auto simp: pack_seg_def)
    next
      case room: False
      then have p: "p < length buf1" using assms(2) b(2) by auto
      let ?buf = "buf1[p := seg_header s 0]"
      have "take (p + (?k + 1)) ?buf = take p buf @ seg_header s 0 # nonzeros s" if "int (?k + 1) \<le> sz"
      proof -
        have l: "p + 1 + ?k \<le> length buf1" using that assms(2) b(2) by auto
        have "take (p + 1 + ?k) ?buf = (take (p + 1 + ?k) buf1)[p := seg_header s 0]" by (simp add: take_update_swap)
        also have "\<dots> = (take (p + 1) buf @ nonzeros s)[p := seg_header s 0]" using b(4) that by simp
        also have "\<dots> = take p buf @ seg_header s 0 # nonzeros s"
          using p b(2) by (simp add: list_update_append take_Suc_conv_app_nth)
        finally show ?thesis by (simp add: add.assoc)
      qed
      then show ?thesis using False room p b(1,2) t c by (auto simp: pack_seg_def)
    qed
  qed
qed

section \<open>Writing a run\<close>

lemma padded_length: "length (padded t) = (length t + 7) div 8 * 8"
  by (simp add: padded_def)

lemma take_padded:
  assumes "k + 8 * m \<le> length (padded t)" "k \<le> length t" "n = min (8 * m) (length t - k)"
  shows "take n (drop k (t @ behind)) @ replicate (8 * m - n) 0 = take (8 * m) (drop k (padded t))"
proof -
  have "take n (drop k (t @ behind)) = take n (drop k t)" using assms(2,3) by simp
  moreover have "take (8 * m) (drop k (padded t)) = take (8 * m) (drop k t) @
      take (8 * m - (length t - k)) (replicate (length (padded t) - length t) 0)"
    using assms(2) by (simp add: padded_def)
  moreover have "take (8 * m) (drop k t) = take n (drop k t)" using assms(3) by (simp add: min_def)
  moreover have "take (8 * m - (length t - k)) (replicate (length (padded t) - length t) (0::byte)) = replicate (8 * m - n) 0"
  proof -
    have "8 * m - (length t - k) \<le> length (padded t) - length t" "8 * m - n = 8 * m - (length t - k)"
      using assms by auto
    then show ?thesis by (simp add: min_def)
  qed
  ultimately show ?thesis by simp
qed

lemma write_at_ok:
  assumes "p + length bs \<le> length buf"
  shows "\<exists>buf'. write_at buf p bs = Some buf' \<and> length buf' = length buf \<and> take (p + length bs) buf' = take p buf @ bs \<and>
    drop (p + length bs) buf' = drop (p + length bs) buf"
  using assms by (simp add: write_at_def)

lemma write_ff_ok:
  assumes k: "k + 8 * m \<le> length (padded t)" "k < length t" "0 < m" "m \<le> 256"
    and n: "n = min (8 * m) (length t - k)" "8 * m < n + 8"
    and p: "p + 2 + 8 * m \<le> length buf"
  shows "\<exists>buf'. write_ff (t @ behind) (Src k) buf p n = Some buf' \<and> length buf' = length buf \<and>
    take (p + 2 + 8 * m) buf' = take p buf @ 0xff # of_nat (m - 1) # take (8 * m) (drop k (padded t)) \<and>
    drop (p + 2 + 8 * m) buf' = drop (p + 2 + 8 * m) buf"
proof -
  have n': "n \<le> 8 * m" "k + n \<le> length t" using n k(2) by auto
  have a: "(n + 7) div 8 = m" using n(2) n'(1) by (intro div_nat_eqI) auto
  let ?bs = "0xff # of_nat (m - 1) # take (8 * m) (drop k (padded t))"
  have bs: "take n (drop k (t @ behind)) @ replicate (8 * m - n) 0 = take (8 * m) (drop k (padded t))"
    by (rule take_padded) (use k n in auto)
  have w: "write_ff (t @ behind) (Src k) buf p n = write_at buf p ?bs"
    using n' bs by (simp add: write_ff_def read_ptr_def a Let_def mult.commute)
  have "length (take (8 * m) (drop k (padded t))) = 8 * m" using k(1) by simp
  then have lb: "length ?bs = 2 + 8 * m" by simp
  show ?thesis using write_at_ok [of p ?bs buf] p unfolding w lb by (simp add: add.assoc)
qed

section \<open>The loop of the packer\<close>

lemma segment_end:
  assumes "8 dvd i" "i < length t"
  shows "i + 8 \<le> length (padded t)" "length (padded t) < length t + 8"
proof -
  obtain k where "i = 8 * k" using assms(1) by blast
  then have "k < (length t + 7) div 8" using assms(2) by auto
  then show "i + 8 \<le> length (padded t)" using \<open>i = 8 * k\<close> by (auto simp: padded_length)
  show "length (padded t) < length t + 8" by (simp add: padded_length)
qed

lemma read_segment:
  assumes "8 dvd i" "i < length t"
  shows "(if length t < i + 8
      then do { bs \<leftarrow> read_ptr (t @ behind) (Src i) (length t - i);
                let tmp = bs @ replicate (i + 8 - length t) 0; Some (tmp, Tmp tmp) }
      else do { bs \<leftarrow> read_ptr (t @ behind) (Src i) 8; Some (bs, Src i) }) =
    Some (take 8 (drop i (padded t)), if length t < i + 8 then Tmp (take 8 (drop i (padded t))) else Src i)"
proof -
  have e: "take (min 8 (length t - i)) (drop i (t @ behind)) @ replicate (8 - min 8 (length t - i)) 0 = take 8 (drop i (padded t))"
    using take_padded [of i 1 t "min 8 (length t - i)" behind] segment_end [OF assms] assms(2) by simp
  show ?thesis
  proof (cases "length t < i + 8")
    case True
    then have "min 8 (length t - i) = length t - i" "8 - (length t - i) = i + 8 - length t" using assms(2) by auto
    then show ?thesis using True assms(2) e by (simp add: read_ptr_def Let_def)
  next
    case False
    then have "min 8 (length t - i) = 8" by auto
    then show ?thesis using False e by (simp add: read_ptr_def)
  qed
qed

lemma full_segment:
  assumes "i < length t" "length (nonzeros (take 8 (drop i (padded t)))) = 8"
  shows "i + 8 \<le> length t"
proof (rule ccontr)
  assume "\<not> i + 8 \<le> length t"
  then have "nonzeros (take 8 (drop i (padded t))) = nonzeros (drop i t)"
    using assms(1) by (simp add: padded_def nonzeros_def)
  then show False using assms length_nonzeros [of "drop i t"] \<open>\<not> i + 8 \<le> length t\<close> by simp
qed

definition pack_inv :: "byte list \<Rightarrow> int \<Rightarrow> nat \<Rightarrow> byte list \<Rightarrow> byte list list \<Rightarrow> packer \<Rightarrow> bool" where
  "pack_inv t B i out run s \<longleftrightarrow>
     8 dvd i \<and> i \<le> length (padded t) \<and> length run < 256 \<and> ff_n s = length run \<and>
     size_out s = length out + (if run = [] then 0 else 2 + 8 * length run) \<and> bufsz s = B - int (size_out s) \<and>
     B \<le> int (length (mem s)) \<and> take (length out) (mem s) = out \<and>
     (run \<noteq> [] \<longrightarrow> ff_des s = length out \<and> ff_src s = Src (i - 8 * length run) \<and> 8 * length run \<le> i \<and>
        i - 8 * length run + 8 \<le> length t \<and> concat run = take (8 * length run) (drop (i - 8 * length run) (padded t)))"

lemma pack_inv_facts:
  assumes "pack_inv t B i out run s"
  shows "8 dvd i" "length run < 256" "ff_n s = length run" "bufsz s = B - int (size_out s)" "B \<le> int (length (mem s))"
    "take (length out) (mem s) = out" "run = [] \<Longrightarrow> size_out s = length out"
    "run \<noteq> [] \<Longrightarrow> size_out s = length out + 2 + 8 * length run"
  using assms by (auto simp: pack_inv_def)

lemma pack_step_seg:
  assumes "pack_inv t B i out run s" "i < length t" "seg = take 8 (drop i (padded t))"
  shows "\<exists>buf. pack_seg seg (mem s) (size_out s) (bufsz s) (ff_n s) = Some (seg_cost seg (length run), buf) \<and>
    length buf = length (mem s) \<and> take (size_out s) buf = take (size_out s) (mem s) \<and> take (length out) buf = out \<and>
    (length (nonzeros seg) < 6 \<or> run = [] \<and> length (nonzeros seg) < 8 \<longrightarrow> int (size_out s + 1 + length (nonzeros seg)) \<le> B \<longrightarrow>
      take (size_out s + 1 + length (nonzeros seg)) buf = take (size_out s) (mem s) @ seg_header seg 0 # nonzeros seg)"
proof -
  note f = pack_inv_facts [OF assms(1)]
  have l: "length seg = 8" using segment_end [OF f(1) assms(2)] by (simp add: assms(3))
  obtain buf where b: "pack_seg seg (mem s) (size_out s) (bufsz s) (ff_n s) = Some (seg_cost seg (length run), buf)"
    "length buf = length (mem s)" "take (size_out s) buf = take (size_out s) (mem s)"
    "seg_cost seg (length run) \<noteq> 8 \<and> seg_cost seg (length run) \<noteq> 10 \<or> length run = 0 \<and> seg_cost seg (length run) \<noteq> 10 \<longrightarrow>
      int (seg_cost seg (length run)) \<le> bufsz s \<longrightarrow>
      take (size_out s + seg_cost seg (length run)) buf = take (size_out s) (mem s) @ seg_header seg 0 # nonzeros seg"
    using pack_seg_ok [OF l, of "bufsz s" "size_out s" "mem s" "ff_n s"] f(3,4,5) by auto
  have "length out \<le> size_out s" using assms(1) by (auto simp: pack_inv_def)
  then have "take (length out) buf = take (length out) (mem s)" using arg_cong [OF b(3), of "take (length out)"] by (simp add: min_def)
  moreover have "seg_cost seg (length run) = 1 + length (nonzeros seg)" if "length (nonzeros seg) < 6 \<or> run = [] \<and> length (nonzeros seg) < 8"
    using that by (auto simp: seg_cost_def)
  ultimately show ?thesis using b f(4,6) by (auto simp: add.assoc)
qed

lemma pack_step_unfold:
  assumes "8 dvd i" "i < length t" "seg = take 8 (drop i (padded t))"
    and "pack_seg seg (mem s) (size_out s) (bufsz s) (ff_n s) = Some (n, buf)"
  defines "s1 \<equiv> s\<lparr>mem := buf, size_out := size_out s + n, bufsz := bufsz s - int n\<rparr>"
  shows "pack_step (t @ behind) (length t) i s =
    (if n = 10 then Some (s1\<lparr>ff_n := 1, ff_src := if length t < i + 8 then Tmp seg else Src i, ff_des := size_out s\<rparr>)
     else if n = 8 \<and> 0 < ff_n s
     then if ff_n s + 1 = 256
          then do { buf \<leftarrow> (if 0 \<le> bufsz s1 then write_ff (t @ behind) (ff_src s) buf (ff_des s) (256 * 8) else Some buf);
                    Some (s1\<lparr>mem := buf, ff_n := 0\<rparr>) }
          else Some (s1\<lparr>ff_n := ff_n s + 1\<rparr>)
     else if 0 < ff_n s
     then do { buf \<leftarrow> (if 0 \<le> bufsz s1 then write_ff (t @ behind) (ff_src s) buf (ff_des s) (ff_n s * 8) else Some buf);
               Some (s1\<lparr>mem := buf, ff_n := 0\<rparr>) }
     else Some s1)"
  using assms(4) unfolding pack_step_def read_segment [OF assms(1,2)] assms(3) [symmetric] s1_def
  by (simp add: Let_def)

lemma pack_step_start:
  assumes "pack_inv t B i out [] s" "i < length t" "seg = take 8 (drop i (padded t))" "length (nonzeros seg) = 8"
  shows "\<exists>s'. pack_step (t @ behind) (length t) i s = Some s' \<and> pack_inv t B (i + 8) out [seg] s' \<and> length (mem s') = length (mem s)"
proof -
  note f = pack_inv_facts [OF assms(1)]
  obtain buf where b: "pack_seg seg (mem s) (size_out s) (bufsz s) (ff_n s) = Some (10, buf)" "length buf = length (mem s)" "take (length out) buf = out"
    using pack_step_seg [OF assms(1-3)] assms(4) by (auto simp: seg_cost_def)
  have "i + 8 \<le> length t" using full_segment [OF assms(2)] assms(3,4) by simp
  moreover from this have "i + 8 \<le> length (padded t)" using segment_end(1) [OF f(1) assms(2)] by simp
  ultimately show ?thesis
    using assms(1,3) b by (simp add: pack_step_unfold [OF f(1) assms(2,3) b(1)] pack_inv_def)
qed

lemma pack_step_plain:
  assumes "pack_inv t B i out [] s" "i < length t" "seg = take 8 (drop i (padded t))" "length (nonzeros seg) \<noteq> 8"
    and fits: "int (length (out @ seg_header seg 0 # nonzeros seg)) \<le> B"
  shows "\<exists>s'. pack_step (t @ behind) (length t) i s = Some s' \<and>
    pack_inv t B (i + 8) (out @ seg_header seg 0 # nonzeros seg) [] s' \<and> length (mem s') = length (mem s)"
proof -
  note f = pack_inv_facts [OF assms(1)]
  let ?k = "length (nonzeros seg)"
  have k: "?k < 8" using length_nonzeros [of seg] assms(3,4) by simp
  then have c: "seg_cost seg 0 = ?k + 1" by (simp add: seg_cost_def)
  obtain buf where b: "pack_seg seg (mem s) (size_out s) (bufsz s) (ff_n s) = Some (?k + 1, buf)" "length buf = length (mem s)"
      "take (length out + 1 + ?k) buf = out @ seg_header seg 0 # nonzeros seg"
    using pack_step_seg [OF assms(1-3)] k fits f(6,7) c by auto
  have "i + 8 \<le> length (padded t)" by (rule segment_end(1) [OF f(1) assms(2)])
  then show ?thesis using assms(1) b k f(7)
    by (simp add: pack_step_unfold [OF f(1) assms(2,3) b(1)] pack_inv_def)
qed

lemma run_extends:
  assumes "pack_inv t B i out run s" "run \<noteq> []" "i < length t" "seg = take 8 (drop i (padded t))"
  defines "k \<equiv> i - 8 * length run"
  shows "concat (run @ [seg]) = take (8 * (length run + 1)) (drop k (padded t))" "i = k + 8 * length run"
proof -
  show i: "i = k + 8 * length run" using assms(1,2) by (simp add: pack_inv_def k_def)
  have "concat run = take (8 * length run) (drop k (padded t))" using assms(1,2) by (simp add: pack_inv_def k_def)
  moreover have "take (8 * (length run + 1)) (drop k (padded t)) =
      take (8 * length run) (drop k (padded t)) @ take 8 (drop (8 * length run) (drop k (padded t)))"
    using take_add [of "8 * length run" 8 "drop k (padded t)"] by (simp add: algebra_simps)
  ultimately show "concat (run @ [seg]) = take (8 * (length run + 1)) (drop k (padded t))"
    using assms(4) i by (simp add: add.commute)
qed

lemma pack_step_extend:
  assumes "pack_inv t B i out run s" "i < length t" "seg = take 8 (drop i (padded t))" "6 \<le> length (nonzeros seg)" "run \<noteq> []"
    and room: "length run + 1 < 256"
  shows "\<exists>s'. pack_step (t @ behind) (length t) i s = Some s' \<and> pack_inv t B (i + 8) out (run @ [seg]) s' \<and> length (mem s') = length (mem s)"
proof -
  note f = pack_inv_facts [OF assms(1)]
  obtain buf where b: "pack_seg seg (mem s) (size_out s) (bufsz s) (ff_n s) = Some (8, buf)" "length buf = length (mem s)" "take (length out) buf = out"
    using pack_step_seg [OF assms(1-3)] assms(4,5) by (auto simp: seg_cost_def)
  have "i + 8 \<le> length (padded t)" by (rule segment_end(1) [OF f(1) assms(2)])
  moreover have "i + 8 - 8 * length (run @ [seg]) = i - 8 * length run" by simp
  moreover have "8 * length run \<le> i" "i - 8 * length run + 8 \<le> length t"
    using assms(1,5) unfolding pack_inv_def by blast+
  then have "i + 8 - 8 * length run \<le> length t" by linarith
  ultimately show ?thesis
    using assms(1,5) b f(3) room run_extends(1) [OF assms(1,5,2,3)]
    by (simp add: pack_step_unfold [OF f(1) assms(2,3) b(1)] pack_inv_def)
qed

text \<open>The run is written once its size is known; what stands behind it in the buffer stays.\<close>

lemma write_run:
  assumes "0 < length run" "length run \<le> 256" "concat run = take (8 * length run) (drop k (padded t))"
    "k + 8 * length run \<le> length (padded t)" "k < length t" "n = min (8 * length run) (length t - k)" "8 * length run < n + 8"
    "length out + 2 + 8 * length run \<le> length buf" "take (length out) buf = out"
  shows "\<exists>buf'. write_ff (t @ behind) (Src k) buf (length out) n = Some buf' \<and> length buf' = length buf \<and>
    take (length out + 2 + 8 * length run) buf' = out @ close_run run \<and>
    drop (length out + 2 + 8 * length run) buf' = drop (length out + 2 + 8 * length run) buf"
proof -
  have "run \<noteq> []" using assms(1) by auto
  then show ?thesis
    using write_ff_ok [OF assms(4,5,1,2,6,7,8), of behind] assms(3,9) by (simp add: close_run_def)
qed

lemma length_close_run:
  "run \<noteq> [] \<Longrightarrow> concat run = take (8 * length run) (drop k (padded t)) \<Longrightarrow> k + 8 * length run \<le> length (padded t) \<Longrightarrow>
   length (close_run run) = 2 + 8 * length run"
  by (simp add: close_run_def)

lemma pack_step_close:
  assumes "pack_inv t B i out run s" "i < length t" "seg = take 8 (drop i (padded t))" "length (nonzeros seg) < 6" "run \<noteq> []"
    and fits: "int (length (out @ close_run run @ seg_header seg 0 # nonzeros seg)) \<le> B"
  shows "\<exists>s'. pack_step (t @ behind) (length t) i s = Some s' \<and>
    pack_inv t B (i + 8) (out @ close_run run @ seg_header seg 0 # nonzeros seg) [] s' \<and> length (mem s') = length (mem s)"
proof -
  note f = pack_inv_facts [OF assms(1)]
  let ?k = "length (nonzeros seg)" and ?st = "i - 8 * length run" and ?m = "length run" and ?p = "length out + 2 + 8 * length run"
  have st: "concat run = take (8 * ?m) (drop ?st (padded t))" "?st + 8 * ?m = i" "?st + 8 \<le> length t" "ff_src s = Src ?st" "ff_des s = length out"
    using assms(1,5) by (auto simp: pack_inv_def)
  have pad: "i + 8 \<le> length (padded t)" by (rule segment_end(1) [OF f(1) assms(2)])
  have lc: "length (close_run run) = 2 + 8 * ?m" using length_close_run [OF assms(5) st(1)] st(2) pad by simp
  have sz: "size_out s = ?p" using f(8) assms(5) by simp
  have "int (?p + 1 + ?k) \<le> B" using fits lc by simp
  moreover have c: "seg_cost seg ?m = ?k + 1" using assms(4) by (simp add: seg_cost_def)
  ultimately obtain buf where b: "pack_seg seg (mem s) (size_out s) (bufsz s) (ff_n s) = Some (?k + 1, buf)" "length buf = length (mem s)"
      "take (length out) buf = out" "take (?p + 1 + ?k) buf = take ?p (mem s) @ seg_header seg 0 # nonzeros seg"
    using pack_step_seg [OF assms(1-3)] assms(4) sz by auto
  have room: "?p \<le> length buf" using fits lc b(2) f(5) by simp
  obtain buf' where w: "write_ff (t @ behind) (Src ?st) buf (length out) (8 * ?m) = Some buf'" "length buf' = length buf"
      "take ?p buf' = out @ close_run run" "drop ?p buf' = drop ?p buf"
    using write_run [OF _ _ st(1) _ _ _ _ room b(3), of "8 * ?m" behind] assms(2,5) f(2) st(2,3) pad by auto
  have "take (?p + (1 + ?k)) buf' = take ?p buf' @ take (1 + ?k) (drop ?p buf)" using w(4) by (simp only: take_add)
  also have "take (1 + ?k) (drop ?p buf) = drop ?p (take (?p + 1 + ?k) buf)" by (simp add: drop_take)
  also have "\<dots> = seg_header seg 0 # nonzeros seg" using b(2) room unfolding b(4) by simp
  finally have "take (?p + (1 + ?k)) buf' = out @ close_run run @ seg_header seg 0 # nonzeros seg" using w(3) by simp
  then show ?thesis using assms(1,4,5) b(2) w(1,2) f(3) sz lc st(4,5) pad fits
    by (simp add: pack_step_unfold [OF f(1) assms(2,3) b(1)] pack_inv_def mult.commute add.assoc)
qed

lemma pack_step_full:
  assumes "pack_inv t B i out run s" "i < length t" "seg = take 8 (drop i (padded t))" "6 \<le> length (nonzeros seg)"
    and full: "length run + 1 = 256" and fits: "int (length out + 2050) \<le> B"
  shows "i + 8 \<le> length t \<Longrightarrow> \<exists>s'. pack_step (t @ behind) (length t) i s = Some s' \<and>
      pack_inv t B (i + 8) (out @ close_run (run @ [seg])) [] s' \<and> length (mem s') = length (mem s)"
    "length (t @ behind) < i + 8 \<Longrightarrow> pack_step (t @ behind) (length t) i s = None"
proof -
  note f = pack_inv_facts [OF assms(1)]
  have ne: "run \<noteq> []" using full by auto
  let ?st = "i - 8 * length run"
  have st: "?st + 8 * 256 = i + 8" "?st + 8 \<le> length t" "ff_src s = Src ?st" "ff_des s = length out"
    using assms(1) ne full by (auto simp: pack_inv_def)
  have pad: "i + 8 \<le> length (padded t)" by (rule segment_end(1) [OF f(1) assms(2)])
  have cat: "concat (run @ [seg]) = take (8 * 256) (drop ?st (padded t))"
    using run_extends(1) [OF assms(1) ne assms(2,3)] full by simp
  have sz: "size_out s = length out + 2042" using f(8) ne full by simp
  obtain buf where b: "pack_seg seg (mem s) (size_out s) (bufsz s) (ff_n s) = Some (8, buf)" "length buf = length (mem s)" "take (length out) buf = out"
    using pack_step_seg [OF assms(1-3)] assms(4) ne by (auto simp: seg_cost_def)
  have room: "0 \<le> bufsz s - int 8" using f(4) sz fits by simp
  note step = pack_step_unfold [OF f(1) assms(2,3) b(1), of behind]
  have lr: "length (run @ [seg]) = 256" using full by simp
  show "pack_step (t @ behind) (length t) i s = None" if "length (t @ behind) < i + 8"
  proof -
    have "write_ff (t @ behind) (Src ?st) buf (length out) (256 * 8) = None"
      using that st(1) by (simp add: write_ff_def read_ptr_def)
    then show ?thesis using room ne full f(3) st(3,4) unfolding step by simp
  qed
  assume inside: "i + 8 \<le> length t"
  have roombuf: "length out + 2 + 8 * 256 \<le> length buf" using fits b(2) f(5) by simp
  obtain buf' where w: "write_ff (t @ behind) (Src ?st) buf (length out) (256 * 8) = Some buf'" "length buf' = length buf"
      "take (length out + 2 + 8 * 256) buf' = out @ close_run (run @ [seg])"
    using write_run [of "run @ [seg]" ?st t "256 * 8" out buf behind] cat st(1,2) pad inside roombuf b(3) unfolding lr by auto
  have lc: "length (close_run (run @ [seg])) = 2050"
    using length_close_run [of "run @ [seg]" ?st t] cat st(1) pad unfolding lr by simp
  show "\<exists>s'. pack_step (t @ behind) (length t) i s = Some s' \<and>
      pack_inv t B (i + 8) (out @ close_run (run @ [seg])) [] s' \<and> length (mem s') = length (mem s)"
    using w b(2) room ne full f(1,3,4,5) st(3,4) sz lc pad unfolding step by (simp add: pack_inv_def add.commute)
qed

lemma pack_finish_ok:
  assumes "pack_inv t B i out run s" "length t \<le> i" and fits: "int (length (out @ close_run run)) \<le> B"
  shows "\<exists>buf. pack_finish (t @ behind) (length t) s = Some (length (out @ close_run run), buf) \<and>
    length buf = length (mem s) \<and> take (length (out @ close_run run)) buf = out @ close_run run"
proof (cases "run = []")
  case True
  then show ?thesis using assms by (simp add: pack_finish_def pack_inv_def close_run_def)
next
  case ne: False
  note f = pack_inv_facts [OF assms(1)]
  let ?st = "i - 8 * length run" and ?m = "length run"
  have st: "?st + 8 * ?m = i" "?st + 8 \<le> length t" "ff_src s = Src ?st" "ff_des s = length out" "i \<le> length (padded t)"
    "concat run = take (8 * ?m) (drop ?st (padded t))"
    using assms(1) ne by (auto simp: pack_inv_def)
  have lc: "length (close_run run) = 2 + 8 * ?m" using length_close_run [OF ne st(6)] st(1,5) by simp
  have room: "length out + 2 + 8 * ?m \<le> length (mem s)" "0 \<le> bufsz s" using fits lc f(4,5) f(8) [OF ne] by auto
  let ?n = "if ?m = 1 then 8 else length t - ?st"
  have m: "0 < ?m" "?m \<le> 256" using ne f(2) by auto
  have "length t - ?st \<le> 8 * ?m" "8 * ?m < length t - ?st + 8"
    using assms(2) st(1,2,5) padded_length [of t] by linarith+
  then have n: "?n = min (8 * ?m) (length t - ?st)" "8 * ?m < ?n + 8" using st(2) by auto
  obtain buf where w: "write_ff (t @ behind) (Src ?st) (mem s) (length out) ?n = Some buf" "length buf = length (mem s)"
      "take (length out + 2 + 8 * ?m) buf = out @ close_run run"
    using write_run [OF m st(6) _ _ n room(1) f(6), of behind] st(1,2,5) by auto
  have "pack_finish (t @ behind) (length t) s = Some (size_out s, buf)"
  proof (cases "?m = 1")
    case False
    then have "1 < ?m" using m(1) by linarith
    then show ?thesis using w(1) room(2) f(3) st(3,4) by (simp add: pack_finish_def)
  qed (use w(1) room(2) f(3) st(3,4) in \<open>simp add: pack_finish_def\<close>)
  then show ?thesis using w(2,3) lc f(8) [OF ne] by (simp add: add.assoc)
qed

section \<open>Packing implements the format\<close>

lemma padded_segments:
  assumes "8 dvd i" "i \<le> length (padded t)"
  shows "i < length t \<Longrightarrow> segments (drop i (padded t)) = take 8 (drop i (padded t)) # segments (drop (i + 8) (padded t))"
    "length t \<le> i \<Longrightarrow> segments (drop i (padded t)) = [] \<and> i = length (padded t)"
proof -
  show "segments (drop i (padded t)) = take 8 (drop i (padded t)) # segments (drop (i + 8) (padded t))" if "i < length t"
  proof -
    have "drop i (padded t) \<noteq> []" using segment_end(1) [OF assms(1) that] by simp
    then show ?thesis by (subst segments.simps) (simp add: add.commute)
  qed
  assume "length t \<le> i"
  obtain k where k: "i = 8 * k" using assms(1) by blast
  moreover obtain q where "length (padded t) = 8 * q" by (simp add: padded_length mult.commute)
  moreover have "length (padded t) < length t + 8" by (simp add: padded_length)
  ultimately have "i = length (padded t)" using assms(2) \<open>length t \<le> i\<close> by simp
  then show "segments (drop i (padded t)) = [] \<and> i = length (padded t)" by (simp add: segments.simps)
qed

definition pack_rest :: "byte list \<Rightarrow> nat \<Rightarrow> nat \<Rightarrow> packer \<Rightarrow> (nat \<times> byte list) option" where
  "pack_rest src n i s = do { s \<leftarrow> pack_loop src n i s; pack_finish src n s }"

lemma pack_rest_step:
  "i < n \<Longrightarrow> pack_rest src n i s = do { s1 \<leftarrow> pack_step src n i s; pack_rest src n (i + 8) s1 }"
  by (cases "pack_step src n i s") (simp_all add: pack_rest_def pack_loop.simps [of src n i s])

lemma pack_rest_end: "n \<le> i \<Longrightarrow> pack_rest src n i s = pack_finish src n s"
  by (simp add: pack_rest_def pack_loop.simps)

text \<open>What the packer returns from a state in the loop: the encoding of the segments that follow, unless a run
  of 256 segments is closed by the padded segment and its padding cannot be read.\<close>

definition packs :: "byte list \<Rightarrow> byte list \<Rightarrow> nat \<Rightarrow> byte list \<Rightarrow> byte list list \<Rightarrow> byte list list \<Rightarrow> packer \<Rightarrow> bool" where
  "packs t behind i out run segs s \<longleftrightarrow>
     (8 dvd length t \<or> \<not> full_run_last run segs \<longrightarrow>
        (\<exists>buf. pack_rest (t @ behind) (length t) i s = Some (length (out @ zeropack run segs), buf) \<and>
          length buf = length (mem s) \<and> take (length (out @ zeropack run segs)) buf = out @ zeropack run segs)) \<and>
     (full_run_last run segs \<and> length (t @ behind) < length (padded t) \<longrightarrow> pack_rest (t @ behind) (length t) i s = None)"

lemma packs_step:
  assumes "packs t behind (i + 8) out' run' segs s'" "pack_step (t @ behind) (length t) i s = Some s'" "i < length t"
    "length (mem s') = length (mem s)" "out' @ zeropack run' segs = out @ zeropack run (seg # segs)"
    "full_run_last run' segs = full_run_last run (seg # segs)"
  shows "packs t behind i out run (seg # segs) s"
  using assms unfolding packs_def pack_rest_step [OF assms(3)] by simp

lemma zeropack_ends: "segs = [] \<or> zeropack [] segs \<noteq> []"
proof -
  have "run \<noteq> [] \<or> segs \<noteq> [] \<Longrightarrow> zeropack run segs \<noteq> []" for run segs
    by (induction run segs rule: zeropack.induct) (auto simp: close_run_def)
  then show ?thesis by blast
qed

lemma padded_dvd: "8 dvd length t \<Longrightarrow> padded t = t"
  by (auto simp: padded_def)

lemma pack_rest_ok:
  "pack_inv t B i out run s \<Longrightarrow> segs = segments (drop i (padded t)) \<Longrightarrow> int (length (out @ zeropack run segs)) \<le> B \<Longrightarrow>
   packs t behind i out run segs s"
proof (induction segs arbitrary: i out run s)
  case Nil
  have i: "8 dvd i" "i \<le> length (padded t)" using Nil.prems(1) by (auto simp: pack_inv_def)
  have "length t \<le> i" using padded_segments(1) [OF i] Nil.prems(2) by fastforce
  then show ?case using pack_finish_ok [OF Nil.prems(1)] Nil.prems(3) by (simp add: packs_def pack_rest_end)
next
  case (Cons seg segs)
  have i: "8 dvd i" "i \<le> length (padded t)" using Cons.prems(1) by (auto simp: pack_inv_def)
  have it: "i < length t" using padded_segments(2) [OF i] Cons.prems(2) by fastforce
  have seg: "seg = take 8 (drop i (padded t))" and segs: "segs = segments (drop (i + 8) (padded t))"
    using padded_segments(1) [OF i it] Cons.prems(2) by auto
  have fits: "int (length (out @ zeropack run (seg # segs))) \<le> B" by (rule Cons.prems(3))
  show ?case
  proof (cases "run = []")
    case run: True
    show ?thesis
    proof (cases "length (nonzeros seg) = 8")
      case True
      obtain s' where s': "pack_step (t @ behind) (length t) i s = Some s'" "pack_inv t B (i + 8) out [seg] s'" "length (mem s') = length (mem s)"
        using pack_step_start [OF Cons.prems(1) [unfolded run] it seg True] by blast
      show ?thesis using fits run True
        by (intro packs_step [OF Cons.IH [OF s'(2) segs] s'(1) it s'(3)]) auto
    next
      case False
      have "int (length (out @ seg_header seg 0 # nonzeros seg)) \<le> B" using fits run False by simp
      from pack_step_plain [OF Cons.prems(1) [unfolded run] it seg False this]
      obtain s' where s': "pack_step (t @ behind) (length t) i s = Some s'"
        "pack_inv t B (i + 8) (out @ seg_header seg 0 # nonzeros seg) [] s'" "length (mem s') = length (mem s)" by blast
      show ?thesis using fits run False
        by (intro packs_step [OF Cons.IH [OF s'(2) segs] s'(1) it s'(3)]) auto
    qed
  next
    case run: False
    show ?thesis
    proof (cases "6 \<le> length (nonzeros seg)")
      case low: False
      have "int (length (out @ close_run run @ seg_header seg 0 # nonzeros seg)) \<le> B" using fits run low by simp
      from pack_step_close [OF Cons.prems(1) it seg _ run this] low
      obtain s' where s': "pack_step (t @ behind) (length t) i s = Some s'"
        "pack_inv t B (i + 8) (out @ close_run run @ seg_header seg 0 # nonzeros seg) [] s'" "length (mem s') = length (mem s)" by auto
      show ?thesis using fits run low
        by (intro packs_step [OF Cons.IH [OF s'(2) segs] s'(1) it s'(3)]) auto
    next
      case high: True
      show ?thesis
      proof (cases "length run + 1 = 256")
        case False
        then have "length run + 1 < 256" using Cons.prems(1) by (auto simp: pack_inv_def)
        from pack_step_extend [OF Cons.prems(1) it seg high run this]
        obtain s' where s': "pack_step (t @ behind) (length t) i s = Some s'" "pack_inv t B (i + 8) out (run @ [seg]) s'" "length (mem s') = length (mem s)"
          by blast
        show ?thesis using fits run high False
          by (intro packs_step [OF Cons.IH [OF s'(2) segs] s'(1) it s'(3)]) auto
      next
        case full: True
        let ?out = "out @ close_run (run @ [seg])"
        have "concat (run @ [seg]) = take (8 * 256) (drop (i - 8 * length run) (padded t))"
          using run_extends(1) [OF Cons.prems(1) run it seg] full by simp
        moreover have "i - 8 * length run + 8 * 256 = i + 8" using run_extends(2) [OF Cons.prems(1) run it seg] full by simp
        ultimately have "length (close_run (run @ [seg])) = 2 + 8 * 256"
          using length_close_run [of "run @ [seg]"] full segment_end(1) [OF i(1) it] by simp
        then have room: "int (length out + 2050) \<le> B" using fits run high full by simp
        note step = pack_step_full [OF Cons.prems(1) it seg high full room, of behind]
        show ?thesis
        proof (cases "i + 8 \<le> length t")
          case True
          from step(1) [OF this] obtain s' where s': "pack_step (t @ behind) (length t) i s = Some s'"
            "pack_inv t B (i + 8) ?out [] s'" "length (mem s') = length (mem s)" by blast
          have "packs t behind (i + 8) ?out [] segs s'" using fits run high full by (intro Cons.IH [OF s'(2) segs]) simp
          moreover have "length (padded t) = length t" if "segs = []"
          proof -
            have "i + 8 \<le> length (padded t)" by (rule segment_end(1) [OF i(1) it])
            then have "\<not> i + 8 < length t" using padded_segments(1) [of "i + 8" t] i(1) segs that by fastforce
            then have "8 dvd length t" using True i(1) by (metis dvd_add dvd_refl le_neq_implies_less)
            then show ?thesis by (simp add: padded_dvd)
          qed
          ultimately show ?thesis using run high full s' it
            unfolding packs_def pack_rest_step [OF it] by (cases "segs = []") auto
        next
          case False
          then have nd: "\<not> 8 dvd length t" using segment_end(1) [OF i(1) it] padded_dvd [of t] by auto
          have "i + 8 = length (padded t)" "segs = []"
            using padded_segments(2) [of "i + 8" t] False segment_end(1) [OF i(1) it] i(1) segs by auto
          then show ?thesis using run high full nd step(2) unfolding packs_def pack_rest_step [OF it] by simp
        qed
      qed
    qed
  qed
qed

section \<open>The bound on the size\<close>

text \<open>The worst case is two bytes for 256 segments; a short last segment saves the bytes of its padding, up to
  two of them.\<close>

definition blocks :: "nat \<Rightarrow> nat" where
  "blocks n = (n + 255) div 256"

lemma blocks_simps: "blocks 0 = 0" "blocks (n + 256) = blocks n + 1" "blocks (256 + n) = blocks n + 1" "0 < n \<Longrightarrow> n \<le> 256 \<Longrightarrow> blocks n = 1"
proof -
  show "blocks n = 1" if "0 < n" "n \<le> 256"
  proof -
    obtain m where "n = m + 1" using \<open>0 < n\<close> by (metis Suc_eq_plus1 Suc_pred')
    then show ?thesis using that by (simp add: blocks_def div_nat_eqI)
  qed
qed (simp_all add: blocks_def)

lemma blocks_mono: "m \<le> n \<Longrightarrow> blocks m \<le> blocks n"
  unfolding blocks_def by (intro div_le_mono) simp

lemma length_close_run_le:
  "\<forall>s \<in> set run. length s = 8 \<Longrightarrow> length (close_run run) \<le> 2 + 8 * length run"
proof -
  assume "\<forall>s \<in> set run. length s = 8"
  then have "map length run = map (\<lambda>s. 8) run" by simp
  then have "length (concat run) = 8 * length run" by (simp only: length_concat sum_list_triv map_replicate_const) (simp add: sum_list_replicate)
  then show ?thesis by (simp add: close_run_def)
qed

lemma zeropack_bound:
  assumes "\<forall>s \<in> set run \<union> set segs. length s = 8" "length run < 256"
  shows "length (zeropack run segs) + (if segs = [] then 0 else 6 - length (nonzeros (last segs)))
       \<le> 8 * (length run + length segs) + 2 * blocks (length run + length segs)"
  using assms
proof (induction run segs rule: zeropack.induct)
  case (1 run)
  then show ?case using length_close_run_le [of run] by (cases "run = []") (simp_all add: blocks_simps close_run_def)
next
  case (2 run s ss)
  let ?k = "length (nonzeros s)" and ?N = "length run + length (s # ss)"
  have k: "?k \<le> 8" using length_nonzeros [of s] 2(6) by simp
  have run: "length (close_run run) \<le> 2 + 8 * length run" using 2(6) by (intro length_close_run_le) simp
  have b1: "1 \<le> blocks ?N" using blocks_mono [of 1 ?N] by (simp add: blocks_simps)
  have bs: "blocks (length ss) \<le> blocks ?N" by (rule blocks_mono) simp
  consider (start) "run = []" "?k = 8" | (plain) "run = []" "?k < 8" | (full) "run \<noteq> []" "6 \<le> ?k" "length run + 1 = 256"
    | (extend) "run \<noteq> []" "6 \<le> ?k" "length run + 1 \<noteq> 256" | (close) "run \<noteq> []" "?k < 6" using k by linarith
  then show ?case
  proof cases
    case start
    then show ?thesis using 2(1) 2(6) by (cases "ss = []") (auto simp: close_run_def)
  next
    case plain
    then show ?thesis using 2(2) 2(6) bs b1 by (cases "ss = []") (auto simp: close_run_def)
  next
    case full
    have "length (close_run (run @ [s])) \<le> 2 + 8 * length (run @ [s])" using 2(6) by (intro length_close_run_le) simp
    moreover have "length (run @ [s]) = 256" using full(3) by simp
    moreover have "?N = length ss + 256" using full(3) by simp
    ultimately show ?thesis using full 2(3) 2(6) by (cases "ss = []") (auto simp: close_run_def blocks_simps)
  next
    case extend
    then show ?thesis using 2(4) 2(6,7) run b1 by (cases "ss = []") (auto simp: close_run_def)
  next
    case close
    then show ?thesis using 2(5) 2(6) run bs b1 by (cases "ss = []") (auto simp: close_run_def)
  qed
qed

section \<open>Unpacking undoes the format\<close>

text \<open>The unpacker has produced the bytes \<open>c\<close>; it stores them while they fit the \<open>cap\<close> bytes of its buffer.\<close>

definition unpacked :: "nat \<Rightarrow> nat \<Rightarrow> byte list \<Rightarrow> byte list \<Rightarrow> byte list \<Rightarrow> unpacker \<Rightarrow> bool" where
  "unpacked L cap c s behind u \<longleftrightarrow>
     u_src u = s @ behind \<and> u_srcsz u = int (length s) \<and> u_size_in u = length c \<and> length (u_out u) = L \<and> cap \<le> L \<and>
     (if length c \<le> cap then u_pos u = length c \<and> u_room u = int (cap - length c) \<and> take (length c) (u_out u) = c
      else u_room u \<le> 0)"

lemma store_byte_ok:
  assumes "unpacked L cap c s behind u"
  shows "\<exists>u'. store_byte b u = Some u' \<and> u_src u' = u_src u \<and> u_srcsz u' = u_srcsz u \<and> u_size_in u' = u_size_in u \<and>
    unpacked L cap (c @ [b]) s behind (u'\<lparr>u_size_in := u_size_in u + 1\<rparr>)"
proof (cases "length c < cap")
  case True
  then have "u_pos u < length (u_out u)" "0 < u_room u" using assms by (auto simp: unpacked_def)
  moreover from this have "take (length c + 1) ((u_out u)[length c := b]) = take (length c) (u_out u) @ [b]"
    using assms True by (simp add: unpacked_def take_Suc_conv_app_nth)
  ultimately show ?thesis using assms True by (auto simp: store_byte_def unpacked_def)
next
  case False
  then have "u_room u \<le> 0" using assms by (auto simp: unpacked_def split: if_splits)
  then show ?thesis using assms False by (auto simp: store_byte_def unpacked_def split: if_splits)
qed

lemma bit_test: "drop_bit i (w::byte) AND 1 \<noteq> 0 \<longleftrightarrow> bit w i"
  by (simp only: and_one_eq bit_iff_odd_drop_bit odd_iff_mod_2_eq_one) simp

lemma unpack_bits_ok:
  "unpacked L cap c (nonzeros seg @ s) behind u \<Longrightarrow> \<forall>j < length seg. bit header (i + j) \<longleftrightarrow> seg ! j \<noteq> 0 \<Longrightarrow>
   \<exists>u'. unpack_bits (length seg) i header u = Some (Some u') \<and> unpacked L cap (c @ seg) s behind u'"
proof (induction seg arbitrary: i c u)
  case (Cons b seg)
  have bits: "\<forall>j < length seg. bit header (i + 1 + j) \<longleftrightarrow> seg ! j \<noteq> 0" using Cons.prems(2) by fastforce
  have h: "bit header i \<longleftrightarrow> b \<noteq> 0" using Cons.prems(2) by force
  obtain u1 where u1: "store_byte b u = Some u1" "u_src u1 = u_src u" "u_srcsz u1 = u_srcsz u" "u_size_in u1 = u_size_in u"
    "unpacked L cap (c @ [b]) (nonzeros (b # seg) @ s) behind (u1\<lparr>u_size_in := u_size_in u + 1\<rparr>)"
    using store_byte_ok [OF Cons.prems(1)] by blast
  show ?case
  proof (cases "b = 0")
    case True
    obtain u' where "unpack_bits (length seg) (i + 1) header (u1\<lparr>u_size_in := u_size_in u1 + 1\<rparr>) = Some (Some u')"
      "unpacked L cap ((c @ [b]) @ seg) s behind u'"
      using Cons.IH [of "c @ [b]" "u1\<lparr>u_size_in := u_size_in u1 + 1\<rparr>" "i + 1"] u1(4,5) bits True by auto
    then show ?thesis using u1(1) True h by (simp add: bit_test)
  next
    case False
    let ?u2 = "u1\<lparr>u_src := drop 1 (u_src u1), u_srcsz := u_srcsz u1 - 1, u_size_in := u_size_in u1 + 1\<rparr>"
    have src: "u_src u = b # nonzeros seg @ s @ behind" "u_srcsz u = int (length (nonzeros seg @ s)) + 1"
      using Cons.prems(1) False by (auto simp: unpacked_def)
    have "unpacked L cap (c @ [b]) (nonzeros seg @ s) behind ?u2" using u1(2-5) False src by (simp add: unpacked_def split: if_splits)
    from Cons.IH [OF this bits] obtain u' where "unpack_bits (length seg) (i + 1) header ?u2 = Some (Some u')"
      "unpacked L cap ((c @ [b]) @ seg) s behind u'" by blast
    moreover have "(if 0 < u_room u then do { b \<leftarrow> array_get (u_src u) 0; store_byte b u } else Some u) = Some u1"
      using u1(1) src(1) by (auto simp: store_byte_def split: if_splits)
    ultimately show ?thesis using False h src(2) by (simp add: bit_test)
  qed
qed simp

lemma bit_seg_header: "j < 8 \<Longrightarrow> bit (seg_header seg i) j \<longleftrightarrow> i \<le> j \<and> j - i < length seg \<and> seg ! (j - i) \<noteq> 0"
proof (induction seg arbitrary: i)
  case (Cons b seg)
  have "bit (push_bit i 1 :: byte) j \<longleftrightarrow> j = i" using Cons.prems by (auto simp: bit_simps)
  moreover have "j - i = Suc (j - Suc i)" if "i < j" using that by simp
  ultimately show ?case using Cons.IH [OF Cons.prems, of "i + 1"]
    by (cases "i < j"; cases "j = i") (auto simp: bit_simps)
qed simp

lemma seg_header_not_ff:
  assumes "length seg = 8" "length (nonzeros seg) < 8"
  shows "seg_header seg 0 \<noteq> 0xff"
proof
  assume "seg_header seg 0 = 0xff"
  moreover have "(0xff :: byte) = mask 8" by (simp add: mask_eq_exp_minus_1)
  ultimately have "bit (seg_header seg 0) j" if "j < 8" for j using that by (simp only: bit_mask_iff) simp
  then have "\<forall>b \<in> set seg. b \<noteq> 0" using bit_seg_header [of _ seg 0] assms(1) by (auto simp: in_set_conv_nth)
  then have "nonzeros seg = seg" by (simp add: nonzeros_def)
  then show False using assms by simp
qed

lemma unpack_step_plain:
  assumes "unpacked L cap c (seg_header seg 0 # nonzeros seg @ s) behind u" "length seg = 8" "length (nonzeros seg) < 8"
  shows "\<exists>u'. unpack_step u = Some (Some u') \<and> unpacked L cap (c @ seg) s behind u'"
proof -
  let ?u = "u\<lparr>u_src := drop 1 (u_src u), u_srcsz := u_srcsz u - 1\<rparr>"
  have u: "unpacked L cap c (nonzeros seg @ s) behind ?u"
    using assms(1) by (simp add: unpacked_def split: if_splits)
  obtain u' where u': "unpack_bits 8 0 (seg_header seg 0) ?u = Some (Some u')" "unpacked L cap (c @ seg) s behind u'"
    using unpack_bits_ok [OF u, of "seg_header seg 0" 0] bit_seg_header [of _ seg 0] assms(2) by auto
  have "u_src u = seg_header seg 0 # nonzeros seg @ s @ behind" using assms(1) by (simp add: unpacked_def)
  then show ?thesis using u' seg_header_not_ff [OF assms(2,3)] by (simp add: unpack_step_def)
qed

lemma length_concat_run: "\<forall>s \<in> set run. length s = 8 \<Longrightarrow> length (concat run) = 8 * length run"
  by (induction run) auto

lemma unpack_step_ff:
  assumes u: "unpacked L cap c (close_run run @ s) behind u" and run: "run \<noteq> []" "length run \<le> 256" "\<forall>s \<in> set run. length s = 8"
  shows "\<exists>u'. unpack_step u = Some (Some u') \<and> unpacked L cap (c @ concat run) s behind u'"
proof -
  let ?n = "8 * length run"
  have l: "length (concat run) = ?n" by (rule length_concat_run [OF run(3)])
  obtain r where r: "length run = Suc r" using run(1) by (cases run) auto
  obtain b :: byte where b: "of_nat (length run - 1) = b" "unat b = r" "uint b = int r"
    using r run(2) by (simp add: unat_of_nat uint_nat)
  have src: "u_src u = 0xff # b # concat run @ s @ behind" "u_srcsz u = int (?n + length s) + 2"
    using u run(1) l b(1) by (simp_all add: unpacked_def close_run_def)
  have read: "read_ptr (concat run @ s @ behind) (Src 0) ?n = Some (concat run)" using l by (simp add: read_ptr_def)
  have "9 + r * 8 = Suc (length (concat run))" using l r by simp
  then have dr: "drop (9 + r * 8) (b # concat run @ s @ behind) = s @ behind" by (simp only: drop_Suc_Cons) simp
  let ?u' = "\<lambda>o'. u\<lparr>u_src := s @ behind, u_srcsz := int (length s), u_out := o', u_pos := u_pos u + ?n,
                  u_room := u_room u - int ?n, u_size_in := u_size_in u + ?n\<rparr>"
  have step: "unpack_step u = do { o' \<leftarrow> (if int ?n \<le> u_room u then write_at (u_out u) (u_pos u) (concat run) else Some (u_out u));
                                   Some (Some (?u' o')) }"
    using read l unfolding unpack_step_def unpack_ff_def src(1) by (simp add: src(2) Let_def b r dr mult.commute)
  show ?thesis
  proof (cases "length c \<le> cap \<and> ?n \<le> cap - length c")
    case True
    then have pos: "u_pos u = length c" "u_room u = int (cap - length c)" "take (length c) (u_out u) = c" "length (u_out u) = L" "cap \<le> L"
      using u by (auto simp: unpacked_def)
    then have "length c + length (concat run) \<le> length (u_out u)" unfolding l using True by linarith
    from write_at_ok [OF this] obtain o' where "write_at (u_out u) (length c) (concat run) = Some o'" "length o' = L"
      "take (length c + ?n) o' = c @ concat run" using pos l by auto
    then show ?thesis using u True pos l unfolding step by (auto simp: unpacked_def)
  next
    case False
    then have "\<not> int ?n \<le> u_room u" "u_room u - int ?n \<le> 0" "cap < length (c @ concat run)"
      using u r l by (auto simp: unpacked_def split: if_splits)
    then show ?thesis using u l unfolding step by (auto simp: unpacked_def)
  qed
qed

lemma unpack_loop_step: "unpack_step u = Some (Some u1) \<Longrightarrow> 0 < u_srcsz u \<Longrightarrow> unpack_loop u = unpack_loop u1"
  by (subst unpack_loop.simps) simp

lemma unpack_loop_ok:
  "unpacked L cap c (zeropack run segs) behind u \<Longrightarrow> \<forall>s \<in> set run \<union> set segs. length s = 8 \<Longrightarrow> length run < 256 \<Longrightarrow>
   \<exists>u'. unpack_loop u = Some (Some u') \<and> unpacked L cap (c @ concat run @ concat segs) [] behind u'"
proof (induction run segs arbitrary: c u rule: zeropack.induct)
  case (1 run)
  have nil: "unpack_loop u' = Some (Some u')" if "unpacked L cap c' [] behind u'" for c' u'
    using that by (subst unpack_loop.simps) (simp add: unpacked_def)
  show ?case
  proof (cases "run = []")
    case True
    then show ?thesis using 1(1) nil by (auto simp: close_run_def)
  next
    case False
    have "0 < u_srcsz u" using 1(1) False by (simp add: unpacked_def close_run_def)
    then show ?thesis using unpack_step_ff [of L cap c run "[]" behind u] 1 False nil unpack_loop_step by fastforce
  qed
next
  case (2 run s ss)
  have len: "length s = 8" "\<forall>s \<in> set ss. length s = 8" "\<forall>s \<in> set run. length s = 8" using 2(7) by auto
  have k: "length (nonzeros s) \<le> 8" using length_nonzeros [of s] len(1) by simp
  have low: "\<exists>u'. unpack_loop u = Some (Some u') \<and> unpacked L cap (c @ s @ concat ss) [] behind u'"
    if seg: "unpacked L cap c (seg_header s 0 # nonzeros s @ zeropack [] ss) behind u" "length (nonzeros s) < 8"
      and IH: "\<And>c u. unpacked L cap c (zeropack [] ss) behind u \<Longrightarrow> \<exists>u'. unpack_loop u = Some (Some u') \<and> unpacked L cap (c @ concat ss) [] behind u'"
    for c u
  proof -
    have pos: "0 < u_srcsz u" using seg(1) by (simp add: unpacked_def)
    obtain u1 where "unpack_step u = Some (Some u1)" "unpacked L cap (c @ s) (zeropack [] ss) behind u1"
      using unpack_step_plain [OF seg(1) len(1) seg(2)] by blast
    then show ?thesis using IH [of "c @ s" u1] unpack_loop_step [OF _ pos] by auto
  qed
  have ff: "\<exists>u1. unpack_loop u = unpack_loop u1 \<and> unpacked L cap (c @ concat run) r behind u1"
    if "unpacked L cap c (close_run run @ r) behind u" "run \<noteq> []" "length run \<le> 256" "\<forall>s \<in> set run. length s = 8" for run r
  proof -
    have "0 < u_srcsz u" using that(1,2) by (simp add: unpacked_def close_run_def)
    then show ?thesis using unpack_step_ff [OF that] unpack_loop_step by blast
  qed
  consider (start) "run = []" "length (nonzeros s) = 8" | (plain) "run = []" "length (nonzeros s) < 8"
    | (full) "run \<noteq> []" "6 \<le> length (nonzeros s)" "length run + 1 = 256"
    | (extend) "run \<noteq> []" "6 \<le> length (nonzeros s)" "length run + 1 \<noteq> 256" | (close) "run \<noteq> []" "length (nonzeros s) < 6" using k by linarith
  then show ?case
  proof cases
    case start
    then show ?thesis using 2(1) [of c u] 2(6) len by auto
  next
    case plain
    then show ?thesis using low [of c u] 2(2) 2(6) len by auto
  next
    case full
    obtain u1 where "unpack_loop u = unpack_loop u1" "unpacked L cap (c @ concat (run @ [s])) (zeropack [] ss) behind u1"
      using ff [of "run @ [s]" "zeropack [] ss"] 2(6) full len by auto
    then show ?thesis using 2(3) [of "c @ concat (run @ [s])" u1] full len by auto
  next
    case extend
    then show ?thesis using 2(4) [of c u] 2(6,8) len by auto
  next
    case close
    obtain u1 where u1: "unpack_loop u = unpack_loop u1" "unpacked L cap (c @ concat run) (seg_header s 0 # nonzeros s @ zeropack [] ss) behind u1"
      using ff [of run "seg_header s 0 # nonzeros s @ zeropack [] ss"] 2(6,8) close len by auto
    show ?thesis using low [OF u1(2)] 2(5) close len u1(1) by auto
  qed
qed

section \<open>The functions exported to Lua\<close>

lemma segments_eight:
  "8 dvd length w \<Longrightarrow> concat (segments w) = w \<and> (\<forall>s \<in> set (segments w). length s = 8) \<and> 8 * length (segments w) = length w \<and>
     (w \<noteq> [] \<longrightarrow> last (segments w) = drop (length w - 8) w)"
proof (induction w rule: segments.induct)
  case (1 w)
  show ?case
  proof (cases "w = []")
    case True
    then show ?thesis by (simp add: segments.simps)
  next
    case False
    then have l: "8 \<le> length w" using 1(2) by (intro dvd_imp_le) auto
    have "8 dvd length (drop 8 w)" using 1(2) l by (simp add: dvd_diff_nat)
    note IH = 1(1) [OF False this]
    have IH1: "concat (segments (drop 8 w)) = drop 8 w" "\<forall>s \<in> set (segments (drop 8 w)). length s = 8"
        "8 * length (segments (drop 8 w)) = length (drop 8 w)"
      using IH by blast+
    have e: "segments w = take 8 w # segments (drop 8 w)" using False by (subst segments.simps) simp
    show ?thesis
    proof (cases "drop 8 w = []")
      case True
      then show ?thesis using e l by (simp add: segments.simps)
    next
      case ne: False
      then have "8 \<le> length (drop 8 w)" using \<open>8 dvd length (drop 8 w)\<close> by (intro dvd_imp_le) auto
      then have "8 + (length w - 8 - 8) = length w - 8" by simp
      moreover have "last (segments (drop 8 w)) = drop (length (drop 8 w) - 8) (drop 8 w)" using IH ne by blast
      ultimately have "last (segments (drop 8 w)) = drop (length w - 8) w" by (simp add: add.commute)
      moreover have "segments (drop 8 w) \<noteq> []" using ne by (simp add: segments.simps [of "drop 8 w"])
      moreover have "8 + 8 * length (segments (drop 8 w)) = length w" unfolding IH1(3) using l by simp
      moreover have "length (take 8 w) = 8" using l by simp
      moreover have "concat (segments w) = w" unfolding e using IH1(1) by simp
      moreover have "last (segments w) = last (segments (drop 8 w))" unfolding e using calculation(2) by simp
      moreover have "8 * length (segments w) = length w" unfolding e using calculation(3) by simp
      moreover have "\<forall>s \<in> set (segments w). length s = 8" unfolding e using IH1(2) calculation(4) by simp
      ultimately show ?thesis by simp
    qed
  qed
qed

definition encoding :: "byte list \<Rightarrow> byte list" where
  "encoding t = zeropack [] (segments (padded t))"

definition pack_bound :: "nat \<Rightarrow> nat" where
  "pack_bound sz = (sz + 2047) div 2048 * 2 + sz + 2"

lemma encoding_bound: "length (encoding t) \<le> pack_bound (length t)"
proof (cases "t = []")
  case True
  then show ?thesis by (simp add: encoding_def padded_def segments.simps pack_bound_def close_run_def)
next
  case False
  let ?w = "padded t" and ?sz = "length t" and ?segs = "segments (padded t)"
  have "8 dvd length ?w" by (simp add: padded_length)
  note seg = segments_eight [OF this]
  have N: "length ?segs = (?sz + 7) div 8" using seg by (simp add: padded_length)
  have w: "?w \<noteq> []" using False by (simp add: padded_def)
  then have ne: "?segs \<noteq> []" using seg by auto
  have l8: "?sz \<le> length ?w" "length ?w < ?sz + 8" "8 \<le> length ?w"
  proof -
    show "?sz \<le> length ?w" by (simp add: padded_def)
    show "length ?w < ?sz + 8" by (simp add: padded_length)
    show "8 \<le> length ?w" using \<open>8 dvd length ?w\<close> w by (intro dvd_imp_le) auto
  qed
  have "last ?segs = drop (length ?w - 8) ?w" using seg w by blast
  also have "\<dots> = drop (length ?w - 8) t @ replicate (length ?w - ?sz) 0" using l8 by (simp add: padded_def)
  finally have "nonzeros (last ?segs) = nonzeros (drop (length ?w - 8) t)" by (simp add: nonzeros_def)
  then have "length (nonzeros (last ?segs)) \<le> ?sz - (length ?w - 8)" using length_nonzeros [of "drop (length ?w - 8) t"] by simp
  moreover have "(?sz + 7) div 8 + 255 = (?sz + 2047) div 8" using div_add_self2 [of 8 "?sz + 7"] by simp
  then have "blocks (length ?segs) = (?sz + 2047) div 2048" unfolding N blocks_def by (simp add: div_mult2_eq [of _ 8 256, simplified])
  moreover have "length (encoding t) + (6 - length (nonzeros (last ?segs))) \<le> length ?w + 2 * blocks (length ?segs)"
    using zeropack_bound [of "[]" ?segs] seg ne by (simp add: encoding_def)
  ultimately show ?thesis using l8 unfolding pack_bound_def by linarith
qed

lemma sproto_pack_ok:
  assumes "pack_bound (length t) \<le> length buf"
  shows "8 dvd length t \<or> \<not> full_run_last [] (segments (padded t)) \<Longrightarrow>
      \<exists>buf'. sproto_pack (t @ behind) (length t) buf (pack_bound (length t)) = Some (length (encoding t), buf') \<and>
        take (length (encoding t)) buf' = encoding t"
    "full_run_last [] (segments (padded t)) \<Longrightarrow> length (t @ behind) < length (padded t) \<Longrightarrow>
      sproto_pack (t @ behind) (length t) buf (pack_bound (length t)) = None"
proof -
  let ?B = "pack_bound (length t)"
  let ?s = "\<lparr>mem = buf, size_out = 0, bufsz = int ?B, ff_n = 0, ff_src = Src 0, ff_des = 0\<rparr>"
  have "pack_inv t (int ?B) 0 [] [] ?s" using assms by (simp add: pack_inv_def)
  from pack_rest_ok [OF this, of "segments (padded t)" behind]
  have p: "packs t behind 0 [] [] (segments (padded t)) ?s" using encoding_bound [of t] by (simp add: encoding_def)
  have e: "sproto_pack (t @ behind) (length t) buf ?B = pack_rest (t @ behind) (length t) 0 ?s"
    by (simp add: sproto_pack_def pack_rest_def)
  show "\<exists>buf'. sproto_pack (t @ behind) (length t) buf ?B = Some (length (encoding t), buf') \<and> take (length (encoding t)) buf' = encoding t"
    if "8 dvd length t \<or> \<not> full_run_last [] (segments (padded t))"
    using p that unfolding e packs_def encoding_def by auto
  show "sproto_pack (t @ behind) (length t) buf ?B = None"
    if "full_run_last [] (segments (padded t))" "length (t @ behind) < length (padded t)"
    using p that unfolding e packs_def by auto
qed

lemma sproto_unpack_ok:
  assumes "n \<le> length buf"
  shows "\<exists>buf'. sproto_unpack (encoding t @ behind) (length (encoding t)) buf n = Some (Some (length (padded t), buf')) \<and>
    (length (padded t) \<le> n \<longrightarrow> take (length (padded t)) buf' = padded t)"
proof -
  let ?u = "\<lparr>u_src = encoding t @ behind, u_srcsz = int (length (encoding t)), u_out = buf, u_pos = 0, u_room = int n, u_size_in = 0\<rparr>"
  have "8 dvd length (padded t)" by (simp add: padded_length)
  note seg = segments_eight [OF this]
  have "unpacked (length buf) n [] (zeropack [] (segments (padded t))) behind ?u"
    using assms by (simp add: unpacked_def encoding_def)
  from unpack_loop_ok [OF this] seg obtain u where
    "unpack_loop ?u = Some (Some u)" "unpacked (length buf) n (padded t) [] behind u" by auto
  then show ?thesis by (auto simp: sproto_unpack_def unpacked_def split: if_splits)
qed

lemma double_size_ok:
  "0 < osz \<Longrightarrow> osz < nsz \<Longrightarrow> nsz \<le> 2 ^ 30 \<Longrightarrow> \<exists>n. double_size osz nsz = Some n \<and> nsz \<le> n \<and> n < nsz * 2"
proof (induction "nsz - osz" arbitrary: osz rule: less_induct)
  case less
  have small: "\<not> 2 ^ 31 \<le> osz * 2" using less.prems by simp
  show ?case
  proof (cases "osz * 2 < nsz")
    case True
    have "\<exists>n. double_size (osz * 2) nsz = Some n \<and> nsz \<le> n \<and> n < nsz * 2"
      by (rule less.hyps) (use less.prems True in auto)
    then show ?thesis using True small by (subst double_size.simps) auto
  next
    case False
    then show ?thesis using small less.prems by (subst double_size.simps) simp
  qed
qed

lemma expand_buffer_ok:
  assumes "0 < osz" "osz < nsz" "nsz * 2 \<le> ENCODE_MAXSIZE" "\<forall>n. length (fresh n) = n"
  shows "\<exists>buf. expand_buffer fresh osz nsz = Ok buf \<and> nsz \<le> length buf"
proof -
  obtain n where "double_size osz nsz = Some n" "nsz \<le> n" "n < nsz * 2"
    using double_size_ok [OF assms(1,2)] assms(3) by (auto simp: ENCODE_MAXSIZE_def)
  then show ?thesis using assms(3,4) by (simp add: expand_buffer_def)
qed

lemma lpack_exact:
  assumes "\<forall>n. length (fresh n) = n" "0 < length output" "pack_bound (length t) * 2 \<le> ENCODE_MAXSIZE"
    and "8 dvd length t \<or> \<not> full_run_last [] (segments (padded t))"
  shows "\<exists>out'. lpack fresh output t behind = Ok (encoding t, out')"
proof -
  let ?B = "pack_bound (length t)"
  have small: "\<not> 2 ^ 30 \<le> length t" using assms(3) by (simp add: pack_bound_def ENCODE_MAXSIZE_def)
  obtain buf where buf: "(if length output < ?B then expand_buffer fresh (length output) ?B else Ok output) = Ok buf" "?B \<le> length buf"
    using expand_buffer_ok [OF assms(2) _ assms(3,1)] by (cases "length output < ?B") auto
  obtain buf' where "sproto_pack (t @ behind) (length t) buf ?B = Some (length (encoding t), buf')"
    "take (length (encoding t)) buf' = encoding t" using sproto_pack_ok(1) [OF buf(2) assms(4), of behind] by blast
  then show ?thesis
    using small buf(1) encoding_bound [of t] unfolding lpack_def Let_def pack_bound_def [symmetric] by simp
qed

text \<open>(C20) For a text whose bound of the worst case is at most half of \<open>ENCODE_MAXSIZE\<close>, and unless its last
  run of 256 segments is closed by a padded segment, \<^verbatim>\<open>pack\<close> returns the encoding of
  the text; it fits the bound of the worst case that the code computes, so that the packing error is never
  raised and no byte is written behind the buffer.\<close>

theorem zeropack_exact:
  assumes "\<forall>n. length (fresh n) = n" "0 < length output" "pack_bound (length t) * 2 \<le> ENCODE_MAXSIZE"
    and "8 dvd length t \<or> \<not> full_run_last [] (segments (padded t))"
  shows "(\<exists>out'. lpack fresh output t behind = Ok (encoding t, out')) \<and> length (encoding t) \<le> pack_bound (length t)"
  using lpack_exact [OF assms] encoding_bound by blast

lemma replicate_padding: "replicate 2 x = [x, x]" "replicate 5 x = [x, x, x, x, x]"
  by (simp_all add: eval_nat_numeral)

lemma padded_sample: "padded [1, 0, 2] = [1, 0, 2, 0, 0, 0, 0, 0]"
  by (simp add: padded_def replicate_padding)

theorem zeropack_exact_witness:
  "(\<exists>out'. lpack (\<lambda>n. replicate n 0) [7, 7] [1, 0, 2] [] = Ok (encoding [1, 0, 2], out')) \<and> length (encoding [1, 0, 2]) \<le> 7"
  using zeropack_exact [of "\<lambda>n. replicate n 0" "[7, 7]" "[1, 0, 2]" "[]"]
  by (simp add: pack_bound_def ENCODE_MAXSIZE_def padded_def segments.simps)

text \<open>(C19) Unpacking what was packed yields the text, with zeros up to a multiple of eight bytes, whatever the
  buffers and the bytes behind the sources; for the texts of the previous statement, that is of at most
  some 8 MB, and those whose length is a multiple of eight or whose last run of 256 segments is not closed by the padded one.\<close>

theorem zeropack_roundtrip:
  assumes "\<forall>n. length (fresh n) = n" "0 < length output" "0 < length output2" "pack_bound (length t) * 2 \<le> ENCODE_MAXSIZE"
    and "8 dvd length t \<or> \<not> full_run_last [] (segments (padded t))"
  shows "\<exists>packed out1 out2. lpack fresh output t behind = Ok (packed, out1) \<and>
    lunpack fresh output2 packed behind2 = Ok (padded t, out2)"
proof -
  let ?e = "encoding t" and ?n = "length (padded t)"
  obtain out1 where pack: "lpack fresh output t behind = Ok (?e, out1)" using lpack_exact [OF assms(1,2,4,5)] by blast
  have small: "\<not> 2 ^ 30 \<le> length ?e" using encoding_bound [of t] assms(4) by (simp add: ENCODE_MAXSIZE_def)
  have n: "?n < length t + 8" by (simp add: padded_length)
  obtain b1 where b1: "sproto_unpack (?e @ behind2) (length ?e) output2 (length output2) = Some (Some (?n, b1))"
    "?n \<le> length output2 \<longrightarrow> take ?n b1 = padded t" using sproto_unpack_ok [of "length output2" output2 t behind2] by auto
  have "\<exists>out2. lunpack fresh output2 ?e behind2 = Ok (padded t, out2)"
  proof (cases "length output2 < ?n")
    case True
    have "?n * 2 \<le> ENCODE_MAXSIZE"
    proof -
      have "?n \<le> length t + 7" "length t + 2 \<le> pack_bound (length t)" using n by (auto simp: pack_bound_def)
      then show ?thesis using assms(4) by (simp add: ENCODE_MAXSIZE_def pack_bound_def)
    qed
    then obtain buf where buf: "expand_buffer fresh (length output2) ?n = Ok buf" "?n \<le> length buf"
      using expand_buffer_ok [OF assms(3) True _ assms(1)] by blast
    obtain b2 where "sproto_unpack (?e @ behind2) (length ?e) buf ?n = Some (Some (?n, b2))" "take ?n b2 = padded t"
      using sproto_unpack_ok [OF buf(2), of t behind2] by auto
    then show ?thesis using small b1(1) True buf(1) by (simp add: lunpack_def Let_def)
  next
    case False
    then show ?thesis using small b1 by (simp add: lunpack_def Let_def)
  qed
  then show ?thesis using pack by blast
qed

theorem zeropack_roundtrip_witness:
  "\<exists>packed out1 out2. lpack (\<lambda>n. replicate n 0) [7, 7] [1, 0, 2] [] = Ok (packed, out1) \<and>
     lunpack (\<lambda>n. replicate n 0) [9] packed [] = Ok ([1, 0, 2, 0, 0, 0, 0, 0], out2)"
  using zeropack_roundtrip [of "\<lambda>n. replicate n 0" "[7, 7]" "[9]" "[1, 0, 2]" "[]" "[]"]
  unfolding padded_sample by (simp add: pack_bound_def ENCODE_MAXSIZE_def segments.simps)

text \<open>(C21) Where the 256th segment of a run is the last one and padded, the run is copied with the bytes of
  that padding from behind the source: where they cannot all be read, the function leaves its memory.\<close>

theorem zeropack_overread:
  assumes "\<forall>n. length (fresh n) = n" "0 < length output" "pack_bound (length t) * 2 \<le> ENCODE_MAXSIZE"
    and "full_run_last [] (segments (padded t))" "length (t @ behind) < length (padded t)"
  shows "lpack fresh output t behind = Crash"
proof -
  let ?B = "pack_bound (length t)"
  obtain buf where buf: "(if length output < ?B then expand_buffer fresh (length output) ?B else Ok output) = Ok buf" "?B \<le> length buf"
    using expand_buffer_ok [OF assms(2) _ assms(3,1)] by (cases "length output < ?B") auto
  show ?thesis using buf(1) sproto_pack_ok(2) [OF buf(2) assms(4,5)] unfolding lpack_def Let_def pack_bound_def [symmetric] by simp
qed

lemma full_run_ones:
  "length run + n = 255 \<Longrightarrow> run \<noteq> [] \<Longrightarrow> 6 \<le> length (nonzeros s) \<Longrightarrow> full_run_last run (replicate n [1, 1, 1, 1, 1, 1, 1, 1] @ [s])"
  by (induction n arbitrary: run) auto

lemma segments_ones: "0 < length s \<Longrightarrow> length s \<le> 8 \<Longrightarrow>
    segments (concat (replicate n [1, 1, 1, 1, 1, 1, 1, 1]) @ s) = replicate n [1, 1, 1, 1, 1, 1, 1, 1] @ [s]"
proof (induction n)
  case 0
  then show ?case by (subst segments.simps) (simp add: segments.simps)
next
  case (Suc n)
  then show ?case by (subst segments.simps) simp
qed

text \<open>A string of 2046 bytes without zeros: two bytes behind it are copied, and the memory of a string ends with
  one zero byte.\<close>

theorem zeropack_overread_witness:
  "lpack (\<lambda>n. replicate n 0) [7, 7] (concat (replicate 255 [1, 1, 1, 1, 1, 1, 1, 1]) @ [1, 1, 1, 1, 1, 1]) [0] = Crash"
proof -
  let ?t = "concat (replicate 255 [1, 1, 1, 1, 1, 1, 1, 1]) @ [1, 1, 1, 1, 1, 1] :: byte list"
  have l: "length ?t = 2046" by (simp add: length_concat sum_list_replicate)
  then have p: "padded ?t = concat (replicate 255 [1, 1, 1, 1, 1, 1, 1, 1]) @ [1, 1, 1, 1, 1, 1, 0, 0]"
    unfolding padded_def l by (simp add: replicate_padding(1))
  have "replicate 255 x = x # replicate 254 x" for x :: "byte list" using replicate_Suc [of 254 x] by simp
  then have "full_run_last [] (segments (padded ?t))"
    using full_run_ones [of "[[1, 1, 1, 1, 1, 1, 1, 1]]" 254 "[1, 1, 1, 1, 1, 1, 0, 0]"] unfolding p by (subst segments_ones) auto
  then show ?thesis by (intro zeropack_overread) (use l in \<open>simp_all add: pack_bound_def ENCODE_MAXSIZE_def padded_length\<close>)
qed

text \<open>The test for the end of the source comes one byte too late: a byte behind it is taken for a byte of the
  text.\<close>

lemma unpack_truncated: "lunpack fresh [0, 0, 0, 0, 0, 0, 0, 0] [1] (b # behind) = Ok ([b, 0, 0, 0, 0, 0, 0, 0], [b, 0, 0, 0, 0, 0, 0, 0])"
proof -
  let ?u = "\<lparr>u_src = 1 # b # behind, u_srcsz = 1, u_out = [0, 0, 0, 0, 0, 0, 0, 0], u_pos = 0, u_room = 8, u_size_in = 0\<rparr>"
  let ?v = "\<lparr>u_src = behind, u_srcsz = - 1, u_out = [b, 0, 0, 0, 0, 0, 0, 0], u_pos = 8, u_room = 0, u_size_in = 8\<rparr>"
  have "unpack_bits 8 i h u = unpack_bits (Suc (Suc (Suc (Suc (Suc (Suc (Suc (Suc 0)))))))) i h u" for i h u
    by (simp add: eval_nat_numeral)
  then have "unpack_step ?u = Some (Some ?v)"
    by (simp add: unpack_step_def store_byte_def bit_test bit_1_iff)
  then have "unpack_loop ?u = unpack_loop ?v" by (rule unpack_loop_step) simp
  also have "\<dots> = Some (Some ?v)" by (subst unpack_loop.simps) simp
  finally show ?thesis by (simp add: lunpack_def sproto_unpack_def Let_def)
qed

end
