(* ===== verification/Cluster.thy ===== *)
theory Cluster
  imports Outcome
begin

text \<open>
  Messages between the nodes of a cluster, \<^verbatim>\<open>src/ztask/lualib/lua-cluster.c\<close>: requests and responses are
  packed with a header, long ones are split into parts of 32 KB. A function takes its Lua arguments and
  returns the list of its Lua results. The message in memory is the list of its bytes; reading behind them,
  writing behind the array \<^verbatim>\<open>buf\<close> and a failing \<^verbatim>\<open>assert\<close> are \<open>Crash\<close>. \<^verbatim>\<open>packrequest\<close> owns its message: its
  second result counts how often it is freed.
\<close>

section \<open>Numbers and headers\<close>

definition TEMP_LENGTH :: nat where "TEMP_LENGTH = 0x8200"
definition MULTI_PART :: nat where "MULTI_PART = 0x8000"

definition fill_uint32 :: "u32 \<Rightarrow> byte list" where
  "fill_uint32 n = [ucast (n AND 0xff), ucast (drop_bit 8 n AND 0xff), ucast (drop_bit 16 n AND 0xff), ucast (drop_bit 24 n AND 0xff)]"

definition fill_header :: "nat \<Rightarrow> byte list outcome" where
  "fill_header sz = (if sz < 0x10000 then Ok [of_nat (sz div 256 mod 256), of_nat (sz mod 256)] else Crash)"

definition unpack_uint32 :: "byte list \<Rightarrow> nat \<Rightarrow> u32 outcome" where
  "unpack_uint32 buf k =
     (if k + 4 \<le> length buf
      then Ok (ucast (buf ! k) OR push_bit 8 (ucast (buf ! (k + 1))) OR push_bit 16 (ucast (buf ! (k + 2))) OR
               push_bit 24 (ucast (buf ! (k + 3))))
      else Crash)"

text \<open>\<^verbatim>\<open>memcpy\<close> out of the message, and the string that is pushed from the array \<^verbatim>\<open>buf\<close>.\<close>

definition copy_from :: "byte list \<Rightarrow> nat \<Rightarrow> nat \<Rightarrow> byte list outcome" where
  "copy_from msg off n = (if off + n \<le> length msg then Ok (take n (drop off msg)) else Crash)"

definition from_temp :: "byte list \<Rightarrow> byte list outcome" where
  "from_temp s = (if length s \<le> TEMP_LENGTH then Ok s else Crash)"

section \<open>Packing requests\<close>

text \<open>The first argument: a number, a string, or a value that is neither. A name may hold any byte.\<close>

datatype address = Id int | Name string | No_address

text \<open>The packed string and the number of parts that follow.\<close>

definition packreq_number :: "int \<Rightarrow> int \<Rightarrow> byte list \<Rightarrow> nat \<Rightarrow> bool \<Rightarrow> (byte list \<times> nat) outcome" where
  "packreq_number addr session msg sz is_push =
     (if sz < MULTI_PART
      then and_then (fill_header (sz + 9)) (\<lambda>h. and_then (copy_from msg 0 sz) (\<lambda>d.
           and_then (from_temp (h @ [0] @ fill_uint32 (of_int addr) @ fill_uint32 (if is_push then 0 else of_int session) @ d)) (\<lambda>s.
           Ok (s, 0))))
      else and_then (fill_header 13) (\<lambda>h.
           Ok (h @ [if is_push then 0x41 else 1] @ fill_uint32 (of_int addr) @ fill_uint32 (of_int session) @ fill_uint32 (of_nat sz),
               (sz - 1) div MULTI_PART + 1)))"

definition packreq_string :: "string \<Rightarrow> int \<Rightarrow> byte list \<Rightarrow> nat \<Rightarrow> bool \<Rightarrow> (byte list \<times> nat) outcome" where
  "packreq_string name session msg sz is_push =
     (let namelen = length name; nm = map of_char name in
      if namelen < 1 \<or> 255 < namelen then Err (''name is too long '' @ takeWhile (\<lambda>c. c \<noteq> CHR 0x00) name)
      else if sz < MULTI_PART
      then and_then (fill_header (sz + 6 + namelen)) (\<lambda>h. and_then (copy_from msg 0 sz) (\<lambda>d.
           and_then (from_temp (h @ [0x80, of_nat namelen] @ nm @ fill_uint32 (if is_push then 0 else of_int session) @ d)) (\<lambda>s.
           Ok (s, 0))))
      else and_then (fill_header (10 + namelen)) (\<lambda>h.
           Ok (h @ [if is_push then 0xc1 else 0x81, of_nat namelen] @ nm @ fill_uint32 (of_int session) @ fill_uint32 (of_nat sz),
               (sz - 1) div MULTI_PART + 1)))"

text \<open>The loop over the parts: \<open>k\<close> of them are left, \<open>sz\<close> bytes from \<open>off\<close> on.\<close>

fun packreq_multi :: "nat \<Rightarrow> int \<Rightarrow> byte list \<Rightarrow> nat \<Rightarrow> nat \<Rightarrow> byte list list outcome" where
  "packreq_multi 0 session msg off sz = Ok []"
| "packreq_multi (Suc k) session msg off sz =
     (let (s, kind) = (if MULTI_PART < sz then (MULTI_PART, 2) else (sz, 3)) in
      and_then (fill_header (s + 5)) (\<lambda>h. and_then (copy_from msg off s) (\<lambda>d.
      and_then (from_temp (h @ [kind] @ fill_uint32 (of_int session) @ d)) (\<lambda>p.
      and_then (packreq_multi k session msg (off + s) (sz - s)) (\<lambda>ps. Ok (p # ps))))))"

text \<open>The results are the packed string, the next session and the table of the parts (empty where the
  code returns two values). \<^verbatim>\<open>luaL_checkinteger\<close> has read \<open>session\<close> and \<open>sz\<close>; the increment of the session
  wraps around.\<close>

definition next_session :: "int \<Rightarrow> int" where
  "next_session session = (let s = sint (of_int (session + 1) :: cint) in if s < 0 then 1 else s)"

definition packrequest :: "address \<Rightarrow> int \<Rightarrow> byte list option \<Rightarrow> int \<Rightarrow> bool \<Rightarrow> (byte list \<times> int \<times> byte list list) outcome \<times> nat" where
  "packrequest addr session msg sz is_push =
     (case msg of
        None \<Rightarrow> (Err ''Invalid request message'', 0)
      | Some m \<Rightarrow>
          (let sz = unat (of_int sz :: u32); session = sint (of_int session :: cint) in
           if session \<le> 0 then (Err (''Invalid request session '' @ fmt_d session), 1)
           else (and_then (case addr of
                             Id a \<Rightarrow> packreq_number a session m sz is_push
                           | Name n \<Rightarrow> packreq_string n session m sz is_push
                           | No_address \<Rightarrow> Err ''name is too long (null)'') (\<lambda>(s, multipak).
                 and_then (if multipak \<noteq> 0 then packreq_multi multipak session m 0 sz else Ok []) (\<lambda>parts.
                 Ok (s, next_session session, parts))), 1)))"

definition lpackrequest :: "address \<Rightarrow> int \<Rightarrow> byte list option \<Rightarrow> int \<Rightarrow> (byte list \<times> int \<times> byte list list) outcome \<times> nat" where
  "lpackrequest addr session msg sz = packrequest addr session msg sz False"

definition lpackpush :: "address \<Rightarrow> int \<Rightarrow> byte list option \<Rightarrow> int \<Rightarrow> (byte list \<times> int \<times> byte list list) outcome \<times> nat" where
  "lpackpush addr session msg sz = packrequest addr session msg sz True"

section \<open>Unpacking requests\<close>

datatype lua_value = L_nil | L_bool bool | L_int int | L_str "byte list"

definition L_u32 :: "u32 \<Rightarrow> lua_value" where
  "L_u32 w = L_int (uint w)"

text \<open>\<^verbatim>\<open>lua_pushlstring\<close> of \<open>n\<close> bytes from \<open>k\<close> on.\<close>

definition substring :: "byte list \<Rightarrow> nat \<Rightarrow> int \<Rightarrow> lua_value outcome" where
  "substring buf k n = (if 0 \<le> n \<and> k + nat n \<le> length buf then Ok (L_str (take (nat n) (drop k buf))) else Crash)"

definition push_mark :: "u32 \<Rightarrow> lua_value list" where
  "push_mark session = (if session = 0 then [L_nil, L_bool True] else [])"

definition invalid_size :: "int \<Rightarrow> 'a outcome" where
  "invalid_size sz = Err (''Invalid cluster message (size='' @ fmt_d sz @ '')'')"

definition unpackreq_number :: "byte list \<Rightarrow> int \<Rightarrow> lua_value list outcome" where
  "unpackreq_number buf sz =
     (if sz < 9 then invalid_size sz
      else and_then (unpack_uint32 buf 1) (\<lambda>addr. and_then (unpack_uint32 buf 5) (\<lambda>session.
           and_then (substring buf 9 (sz - 9)) (\<lambda>msg. Ok ([L_u32 addr, L_u32 session, msg] @ push_mark session)))))"

definition unpackmreq_number :: "byte list \<Rightarrow> int \<Rightarrow> bool \<Rightarrow> lua_value list outcome" where
  "unpackmreq_number buf sz is_push =
     (if sz \<noteq> 13 then Err (''Invalid cluster message size '' @ fmt_d sz @ '' (multi req must be 13)'')
      else and_then (unpack_uint32 buf 1) (\<lambda>addr. and_then (unpack_uint32 buf 5) (\<lambda>session. and_then (unpack_uint32 buf 9) (\<lambda>size.
           Ok [L_u32 addr, L_u32 session, L_u32 size, L_bool True, L_bool is_push]))))"

definition unpackmreq_part :: "byte list \<Rightarrow> int \<Rightarrow> lua_value list outcome" where
  "unpackmreq_part buf sz =
     (if sz < 5 then Err ''Invalid cluster multi part message''
      else and_then (unpack_uint32 buf 1) (\<lambda>session. and_then (substring buf 5 (sz - 5)) (\<lambda>msg.
           Ok [L_bool False, L_u32 session, msg, L_bool (buf ! 0 = 2)])))"

definition unpackreq_string :: "byte list \<Rightarrow> int \<Rightarrow> lua_value list outcome" where
  "unpackreq_string buf sz =
     (if sz < 2 then invalid_size sz
      else (let namesz = unat (buf ! 1) in
            if sz < int (namesz + 6) then invalid_size sz
            else and_then (substring buf 2 (int namesz)) (\<lambda>name. and_then (unpack_uint32 buf (namesz + 2)) (\<lambda>session.
                 and_then (substring buf (2 + namesz + 4) (sz - int namesz - 6)) (\<lambda>msg.
                 Ok ([name, L_u32 session, msg] @ push_mark session))))))"

definition unpackmreq_string :: "byte list \<Rightarrow> int \<Rightarrow> bool \<Rightarrow> lua_value list outcome" where
  "unpackmreq_string buf sz is_push =
     (if sz < 2 then invalid_size sz
      else (let namesz = unat (buf ! 1) in
            if sz < int (namesz + 10) then invalid_size sz
            else and_then (substring buf 2 (int namesz)) (\<lambda>name. and_then (unpack_uint32 buf (namesz + 2)) (\<lambda>session.
                 and_then (unpack_uint32 buf (namesz + 6)) (\<lambda>size.
                 Ok [name, L_u32 session, L_u32 size, L_bool True, L_bool is_push])))))"

text \<open>The first byte selects the kind; behind an empty Lua string there is a zero byte.\<close>

definition lunpackrequest :: "byte list \<Rightarrow> lua_value list outcome" where
  "lunpackrequest msg =
     (let sz = int_of_size (length msg); kind = (if msg = [] then 0 else msg ! 0) in
      if kind = 0 then unpackreq_number msg sz
      else if kind = 1 then unpackmreq_number msg sz False
      else if kind = 0x41 then unpackmreq_number msg sz True
      else if kind = 2 \<or> kind = 3 then unpackmreq_part msg sz
      else if kind = 0x80 then unpackreq_string msg sz
      else if kind = 0x81 then unpackmreq_string msg sz False
      else if kind = 0xc1 then unpackmreq_string msg sz True
      else Err (''Invalid req package type '' @ fmt_d (sint kind)))"

section \<open>Responses\<close>

text \<open>The loop over the parts of a response.\<close>

fun packresponse_parts :: "nat \<Rightarrow> u32 \<Rightarrow> byte list \<Rightarrow> nat \<Rightarrow> nat \<Rightarrow> byte list list outcome" where
  "packresponse_parts 0 session msg off sz = Ok []"
| "packresponse_parts (Suc k) session msg off sz =
     (let (s, kind) = (if MULTI_PART < sz then (MULTI_PART, 3) else (sz, 4)) in
      and_then (fill_header (s + 5)) (\<lambda>h. and_then (copy_from msg off s) (\<lambda>d.
      and_then (from_temp (h @ fill_uint32 session @ [kind] @ d)) (\<lambda>p.
      and_then (packresponse_parts k session msg (off + s) (sz - s)) (\<lambda>ps. Ok (p # ps))))))"

datatype response = Single "byte list" | Table "byte list list"

text \<open>The message is a string, whose size is its length, or a light userdata with the size as an argument;
  the message stays with the caller.\<close>

definition lpackresponse :: "int \<Rightarrow> bool \<Rightarrow> byte list \<Rightarrow> nat \<Rightarrow> response outcome" where
  "lpackresponse session ok msg sz =
     (let session = of_int session :: u32 in
      if ok \<and> MULTI_PART < sz
      then and_then (fill_header 9) (\<lambda>h.
           and_then (packresponse_parts ((sz - 1) div MULTI_PART + 1) session msg 0 sz) (\<lambda>ps.
           Ok (Table ((h @ fill_uint32 session @ [2] @ fill_uint32 (of_nat sz)) # ps))))
      else (let sz = (if MULTI_PART < sz then MULTI_PART else sz) in
            and_then (fill_header (sz + 5)) (\<lambda>h. and_then (copy_from msg 0 sz) (\<lambda>d.
            and_then (from_temp (h @ fill_uint32 session @ [if ok then 1 else 0] @ d)) (\<lambda>p. Ok (Single p))))))"

definition lunpackresponse :: "byte list \<Rightarrow> lua_value list outcome" where
  "lunpackresponse buf =
     (let sz = length buf in
      if sz < 5 then Ok []
      else and_then (unpack_uint32 buf 0) (\<lambda>session.
           let kind = buf ! 4 in
           if kind = 0 then and_then (substring buf 5 (int (sz - 5))) (\<lambda>msg. Ok [L_u32 session, L_bool False, msg])
           else if kind = 1 \<or> kind = 4 then and_then (substring buf 5 (int (sz - 5))) (\<lambda>msg. Ok [L_u32 session, L_bool True, msg])
           else if kind = 2 then (if sz \<noteq> 9 then Ok []
                                  else and_then (unpack_uint32 buf 5) (\<lambda>n. Ok [L_u32 session, L_bool True, L_u32 n, L_bool True]))
           else if kind = 3 then and_then (substring buf 5 (int (sz - 5))) (\<lambda>msg. Ok [L_u32 session, L_bool True, msg, L_bool True])
           else Ok []))"

section \<open>Putting the parts together\<close>

text \<open>The argument is a table: its first element, where it is a number, and the strings that follow it. The
  buffer is a new block of memory; a size below zero asks for more than there is and ends the program.\<close>

fun concat_loop :: "nat \<Rightarrow> byte list list \<Rightarrow> byte list \<Rightarrow> byte list option" where
  "concat_loop sz [] buff = (if length buff \<noteq> sz then None else Some buff)"
| "concat_loop sz (s # ss) buff = (if sz < length s + length buff then None else concat_loop sz ss (buff @ s))"

definition lconcat :: "int option \<Rightarrow> byte list list \<Rightarrow> lua_value list outcome" where
  "lconcat first strs =
     (case first of
        None \<Rightarrow> Ok []
      | Some n \<Rightarrow>
          (let sz = sint (of_int n :: cint) in
           if sz < 0 then Crash
           else case concat_loop (nat sz) strs [] of
                  None \<Rightarrow> Ok []
                | Some buff \<Rightarrow> Ok [L_str buff, L_int sz]))"

section \<open>Numbers and strings read back\<close>

lemma length_fill_uint32 [simp]: "length (fill_uint32 n) = 4"
  by (simp add: fill_uint32_def)

lemma unpack_fill:
  assumes "length xs = k"
  shows "unpack_uint32 (xs @ fill_uint32 n @ ys) k = Ok n"
proof -
  have nth: "(xs @ fill_uint32 n @ ys) ! (k + j) = fill_uint32 n ! j" if "j < 4" for j
    using that assms by (simp add: nth_append)
  have "(xs @ fill_uint32 n @ ys) ! k = fill_uint32 n ! 0" using nth [of 0] by simp
  then show ?thesis using assms nth [of 1] nth [of 2] nth [of 3] uint32_bytes [of n]
    by (simp add: unpack_uint32_def fill_uint32_def eval_nat_numeral)
qed

lemma substring_append: "length xs = k \<Longrightarrow> n = int (length ys) \<Longrightarrow> substring (xs @ ys @ zs) k n = Ok (L_str ys)"
  by (simp add: substring_def)

lemma length_header: "fill_header n = Ok h \<Longrightarrow> length h = 2"
  by (auto simp: fill_header_def split: if_splits)

text \<open>A packet starts with its size, as the gate expects it.\<close>

definition framed :: "byte list \<Rightarrow> bool" where
  "framed p \<longleftrightarrow> (\<exists>h. fill_header (length p - 2) = Ok h \<and> take 2 p = h)"

definition body :: "byte list \<Rightarrow> byte list" where
  "body p = drop 2 p"

lemma framed_append: "fill_header (length ys) = Ok h \<Longrightarrow> framed (h @ ys) \<and> body (h @ ys) = ys"
  using length_header [of "length ys" h] by (simp add: framed_def body_def)

section \<open>Splitting into parts\<close>

function chunks :: "byte list \<Rightarrow> byte list list" where
  "chunks m = (if m = [] then [] else take MULTI_PART m # chunks (drop MULTI_PART m))"
  by pat_completeness auto
termination by (relation "measure length") (auto simp: MULTI_PART_def)

declare chunks.simps [simp del]

lemma concat_chunks: "concat (chunks m) = m"
  by (induction m rule: chunks.induct) (subst chunks.simps, simp)

lemma chunk_length: "c \<in> set (chunks m) \<Longrightarrow> 0 < length c \<and> length c \<le> MULTI_PART"
  by (induction m rule: chunks.induct)
    (subst (asm) (2) chunks.simps, auto simp: MULTI_PART_def split: if_splits)

lemma chunks_Nil_iff: "chunks m = [] \<longleftrightarrow> m = []"
  by (subst chunks.simps) simp

lemma length_chunks: "0 < length m \<Longrightarrow> length (chunks m) = (length m - 1) div MULTI_PART + 1"
proof (induction m rule: chunks.induct)
  case (1 m)
  then have ne: "m \<noteq> []" by simp
  show ?case
  proof (cases "MULTI_PART < length m")
    case True
    then have "length (chunks (drop MULTI_PART m)) = (length m - MULTI_PART - 1) div MULTI_PART + 1" using 1(1) ne by simp
    moreover have "(length m - 1) div MULTI_PART = (length m - MULTI_PART - 1) div MULTI_PART + 1"
    proof -
      obtain r where "length m = r + 1 + MULTI_PART" using True less_imp_add_positive by (metis Suc_eq_plus1 add.commute less_natE)
      then show ?thesis by (simp add: MULTI_PART_def)
    qed
    ultimately show ?thesis using ne by (subst chunks.simps) simp
  next
    case False
    then have "(length m - 1) div MULTI_PART = 0" using ne by (cases m) (auto simp: MULTI_PART_def)
    then show ?thesis using False ne by (subst chunks.simps) (simp add: chunks.simps [of "[]"])
  qed
qed

text \<open>A value for each part, that knows whether more parts follow.\<close>

fun each_part :: "(bool \<Rightarrow> 'a \<Rightarrow> 'b) \<Rightarrow> 'a list \<Rightarrow> 'b list" where
  "each_part f [] = []"
| "each_part f (c # cs) = f (cs \<noteq> []) c # each_part f cs"

lemma each_part_cong:
  "(\<And>c more. c \<in> set cs \<Longrightarrow> g (f more c) = f' more c) \<Longrightarrow> map g (each_part f cs) = each_part f' cs"
  by (induction cs) auto

lemma each_part_ball: "(\<And>c more. c \<in> set cs \<Longrightarrow> P (f more c)) \<Longrightarrow> \<forall>p \<in> set (each_part f cs). P p"
  by (induction cs) auto

definition frame :: "byte list \<Rightarrow> byte list" where
  "frame ys = [of_nat (length ys div 256 mod 256), of_nat (length ys mod 256)] @ ys"

lemma fill_header_frame: "length ys < 0x10000 \<Longrightarrow> fill_header (length ys) = Ok [of_nat (length ys div 256 mod 256), of_nat (length ys mod 256)]"
  by (simp add: fill_header_def)

lemma frame_ok: "length ys < 0x10000 \<Longrightarrow> framed (frame ys) \<and> body (frame ys) = ys"
  unfolding frame_def by (rule framed_append) (rule fill_header_frame)

lemma framed_result:
  assumes "n = length ys" "length ys < 0x10000" "length ys + 2 \<le> TEMP_LENGTH"
  shows "and_then (fill_header n) (\<lambda>h. and_then (from_temp (h @ ys)) f) = f (frame ys)"
  using assms by (simp add: fill_header_frame from_temp_def frame_def)

lemma first_chunk:
  assumes "drop off m \<noteq> []" "sz = length m - off"
  defines "s \<equiv> if MULTI_PART < sz then MULTI_PART else sz"
  shows "chunks (drop off m) = take s (drop off m) # chunks (drop (off + s) m)" "copy_from m off s = Ok (take s (drop off m))"
    "chunks (drop (off + s) m) \<noteq> [] \<longleftrightarrow> MULTI_PART < sz" "length (take s (drop off m)) = s" "s \<le> MULTI_PART" "sz - s = length m - (off + s)"
proof -
  have off: "off < length m" using assms(1) by simp
  show "chunks (drop (off + s) m) \<noteq> [] \<longleftrightarrow> MULTI_PART < sz" using assms off by (auto simp: chunks_Nil_iff MULTI_PART_def)
  have "chunks (drop off m) = take MULTI_PART (drop off m) # chunks (drop (off + MULTI_PART) m)"
    using assms(1) by (subst chunks.simps) (simp add: add.commute)
  moreover have "take MULTI_PART (drop off m) = take s (drop off m)" "drop (off + MULTI_PART) m = drop (off + s) m"
    using assms(2) by (auto simp: s_def)
  ultimately show "chunks (drop off m) = take s (drop off m) # chunks (drop (off + s) m)" by simp
qed (use assms in \<open>auto simp: copy_from_def\<close>)

lemma packreq_multi_ok:
  "length (chunks (drop off m)) = k \<Longrightarrow> sz = length m - off \<Longrightarrow>
   packreq_multi k session m off sz =
     Ok (each_part (\<lambda>more c. frame ([if more then 2 else 3] @ fill_uint32 (of_int session) @ c)) (chunks (drop off m)))"
proof (induction k arbitrary: off sz)
  case 0
  then show ?case by simp
next
  case (Suc k)
  then have ne: "drop off m \<noteq> []" by (auto simp: chunks.simps [of "[]"])
  let ?s = "if MULTI_PART < sz then MULTI_PART else sz"
  note c = first_chunk [OF ne Suc.prems(2)]
  have IH: "packreq_multi k session m (off + ?s) (sz - ?s) =
     Ok (each_part (\<lambda>more c. frame ([if more then 2 else 3] @ fill_uint32 (of_int session) @ c)) (chunks (drop (off + ?s) m)))"
    using Suc.prems(1) c(6) unfolding c(1) by (intro Suc.IH) simp_all
  let ?y = "[if MULTI_PART < sz then 2 else 3] @ fill_uint32 (of_int session) @ take ?s (drop off m)"
  have "length ?y = ?s + 5" using c(4) by simp
  moreover have "?s + 5 < 0x10000" "?s + 7 \<le> TEMP_LENGTH" using c(5) by (auto simp: MULTI_PART_def TEMP_LENGTH_def)
  ultimately have r: "and_then (fill_header (?s + 5)) (\<lambda>h. and_then (from_temp (h @ ?y)) f) = f (frame ?y)" for f
    by (intro framed_result) simp_all
  have "packreq_multi (Suc k) session m off sz = and_then (packreq_multi k session m (off + ?s) (sz - ?s)) (\<lambda>ps. Ok (frame ?y # ps))"
    using r c(2) by (cases "MULTI_PART < sz") (simp_all add: Let_def)
  also have "\<dots> = Ok (each_part (\<lambda>more c. frame ([if more then 2 else 3] @ fill_uint32 (of_int session) @ c)) (chunks (drop off m)))"
    unfolding IH c(1) using c(3) by simp
  finally show ?case .
qed

lemma packresponse_parts_ok:
  "length (chunks (drop off m)) = k \<Longrightarrow> sz = length m - off \<Longrightarrow>
   packresponse_parts k session m off sz =
     Ok (each_part (\<lambda>more c. frame (fill_uint32 session @ [if more then 3 else 4] @ c)) (chunks (drop off m)))"
proof (induction k arbitrary: off sz)
  case 0
  then show ?case by simp
next
  case (Suc k)
  then have ne: "drop off m \<noteq> []" by (auto simp: chunks.simps [of "[]"])
  let ?s = "if MULTI_PART < sz then MULTI_PART else sz"
  note c = first_chunk [OF ne Suc.prems(2)]
  have IH: "packresponse_parts k session m (off + ?s) (sz - ?s) =
     Ok (each_part (\<lambda>more c. frame (fill_uint32 session @ [if more then 3 else 4] @ c)) (chunks (drop (off + ?s) m)))"
    using Suc.prems(1) c(6) unfolding c(1) by (intro Suc.IH) simp_all
  let ?y = "fill_uint32 session @ [if MULTI_PART < sz then 3 else 4] @ take ?s (drop off m)"
  have "length ?y = ?s + 5" using c(4) by simp
  moreover have "?s + 5 < 0x10000" "?s + 7 \<le> TEMP_LENGTH" using c(5) by (auto simp: MULTI_PART_def TEMP_LENGTH_def)
  ultimately have r: "and_then (fill_header (?s + 5)) (\<lambda>h. and_then (from_temp (h @ ?y)) f) = f (frame ?y)" for f
    by (intro framed_result) simp_all
  have "packresponse_parts (Suc k) session m off sz = and_then (packresponse_parts k session m (off + ?s) (sz - ?s)) (\<lambda>ps. Ok (frame ?y # ps))"
    using r c(2) by (cases "MULTI_PART < sz") (simp_all add: Let_def)
  also have "\<dots> = Ok (each_part (\<lambda>more c. frame (fill_uint32 session @ [if more then 3 else 4] @ c)) (chunks (drop off m)))"
    unfolding IH c(1) using c(3) by simp
  finally show ?case .
qed

section \<open>What is packed reads back\<close>

lemma unpack_fill_end: "length xs = k \<Longrightarrow> unpack_uint32 (xs @ fill_uint32 n) k = Ok n"
  using unpack_fill [of xs k n "[]"] by simp

lemma substring_end: "length xs = k \<Longrightarrow> n = int (length ys) \<Longrightarrow> substring (xs @ ys) k n = Ok (L_str ys)"
  using substring_append [of xs k n ys "[]"] by simp

lemma L_u32_int: "0 \<le> n \<Longrightarrow> n < 2 ^ 32 \<Longrightarrow> L_u32 (of_int n) = L_int n"
  by (simp add: L_u32_def unsigned_of_int take_bit_int_eq_self)

lemma unpack_number:
  assumes "length m < 2 ^ 30"
  shows "lunpackrequest ([0] @ fill_uint32 a @ fill_uint32 s @ m) = Ok ([L_u32 a, L_u32 s, L_str m] @ push_mark s)"
proof -
  let ?b = "[0] @ fill_uint32 a @ fill_uint32 s @ m"
  have "int_of_size (length ?b) = int (length m) + 9" using assms by (simp add: int_of_size_small)
  moreover have "unpack_uint32 ?b 1 = Ok a" by (rule unpack_fill) simp
  moreover have "unpack_uint32 ?b 5 = Ok s" using unpack_fill [of "[0] @ fill_uint32 a" 5 s m] by simp
  moreover have "substring ?b 9 (int (length m)) = Ok (L_str m)" using substring_end [of "[0] @ fill_uint32 a @ fill_uint32 s" 9 _ m] by simp
  ultimately show ?thesis by (simp add: lunpackrequest_def unpackreq_number_def Let_def)
qed

lemma unpack_multi_number:
  "lunpackrequest ([if push then 0x41 else 1] @ fill_uint32 a @ fill_uint32 s @ fill_uint32 n) = Ok [L_u32 a, L_u32 s, L_u32 n, L_bool True, L_bool push]"
proof -
  let ?b = "[if push then 0x41 else 1] @ fill_uint32 a @ fill_uint32 s @ fill_uint32 n"
  have "int_of_size (length ?b) = 13" by (simp add: int_of_size_small)
  moreover have "unpack_uint32 ?b 1 = Ok a" by (rule unpack_fill) simp
  moreover have "unpack_uint32 ?b 5 = Ok s" using unpack_fill [of "[if push then 0x41 else 1] @ fill_uint32 a" 5 s "fill_uint32 n"] by simp
  moreover have "unpack_uint32 ?b 9 = Ok n" using unpack_fill_end [of "[if push then 0x41 else 1] @ fill_uint32 a @ fill_uint32 s" 9 n] by simp
  ultimately show ?thesis by (cases push) (simp_all add: lunpackrequest_def unpackmreq_number_def Let_def)
qed

lemma unpack_part:
  assumes "length c \<le> MULTI_PART"
  shows "lunpackrequest ([if more then 2 else 3] @ fill_uint32 s @ c) = Ok [L_bool False, L_u32 s, L_str c, L_bool more]"
proof -
  let ?b = "[if more then 2 else 3] @ fill_uint32 s @ c"
  have "int_of_size (length ?b) = int (length c) + 5" using assms by (simp add: int_of_size_small MULTI_PART_def)
  moreover have "unpack_uint32 ?b 1 = Ok s" by (rule unpack_fill) simp
  moreover have "substring ?b 5 (int (length c)) = Ok (L_str c)" using substring_end [of "[if more then 2 else 3] @ fill_uint32 s" 5 _ c] by simp
  ultimately show ?thesis by (cases more) (simp_all add: lunpackrequest_def unpackmreq_part_def Let_def)
qed

lemma unpack_string:
  assumes "length m < 2 ^ 30" "length nm < 256"
  shows "lunpackrequest ([0x80, of_nat (length nm)] @ nm @ fill_uint32 s @ m) = Ok ([L_str nm, L_u32 s, L_str m] @ push_mark s)"
proof -
  let ?b = "[0x80, of_nat (length nm)] @ nm @ fill_uint32 s @ m" and ?k = "length nm"
  have "int_of_size (length ?b) = int (length m) + int ?k + 6" using assms by (simp add: int_of_size_small)
  moreover have "unat (of_nat ?k :: byte) = ?k" using assms(2) by (simp add: unat_of_nat)
  moreover have "unpack_uint32 ?b (?k + 2) = Ok s" using unpack_fill [of "[0x80, of_nat ?k] @ nm" "?k + 2" s m] by simp
  moreover have "substring ?b 2 (int ?k) = Ok (L_str nm)" by (rule substring_append) simp_all
  moreover have "substring ?b (2 + ?k + 4) (int (length m)) = Ok (L_str m)"
    using substring_end [of "[0x80, of_nat ?k] @ nm @ fill_uint32 s" "2 + ?k + 4" _ m] by simp
  ultimately show ?thesis by (simp add: lunpackrequest_def unpackreq_string_def Let_def)
qed

lemma unpack_multi_string:
  assumes "length nm < 256"
  shows "lunpackrequest ([if push then 0xc1 else 0x81, of_nat (length nm)] @ nm @ fill_uint32 s @ fill_uint32 n) =
    Ok [L_str nm, L_u32 s, L_u32 n, L_bool True, L_bool push]"
proof -
  let ?k = "length nm" and ?t = "if push then 0xc1 else 0x81 :: byte"
  let ?b = "[?t, of_nat ?k] @ nm @ fill_uint32 s @ fill_uint32 n"
  have "int_of_size (length ?b) = int ?k + 10" using assms by (simp add: int_of_size_small)
  moreover have "unat (of_nat ?k :: byte) = ?k" using assms by (simp add: unat_of_nat)
  moreover have "unpack_uint32 ?b (?k + 2) = Ok s" using unpack_fill [of "[?t, of_nat ?k] @ nm" "?k + 2" s "fill_uint32 n"] by simp
  moreover have "unpack_uint32 ?b (?k + 6) = Ok n" using unpack_fill_end [of "[?t, of_nat ?k] @ nm @ fill_uint32 s" "?k + 6" n] by simp
  moreover have "substring ?b 2 (int ?k) = Ok (L_str nm)" by (rule substring_append) simp_all
  ultimately show ?thesis by (cases push) (simp_all add: lunpackrequest_def unpackmreq_string_def Let_def)
qed

lemma concat_loop_ok: "length buff + length (concat ss) = sz \<Longrightarrow> concat_loop sz ss buff = Some (buff @ concat ss)"
  by (induction ss arbitrary: buff) auto

lemma lconcat_chunks: "length m < 2 ^ 31 \<Longrightarrow> lconcat (Some (int (length m))) (chunks m) = Ok [L_str m, L_int (int (length m))]"
  using concat_loop_ok [of "[]" "chunks m" "length m"]
  by (simp add: lconcat_def concat_chunks signed_of_nat signed_take_bit_int_eq_self)

text \<open>The packet that packs a request: alone, or followed by the parts.\<close>

definition addr_value :: "address \<Rightarrow> lua_value" where
  "addr_value a = (case a of Id n \<Rightarrow> L_u32 (of_int n) | Name s \<Rightarrow> L_str (map of_char s) | No_address \<Rightarrow> L_nil)"

definition addr_ok :: "address \<Rightarrow> bool" where
  "addr_ok a = (case a of Id n \<Rightarrow> True | Name s \<Rightarrow> 1 \<le> length s \<and> length s \<le> 255 | No_address \<Rightarrow> False)"

definition pack_addr :: "address \<Rightarrow> int \<Rightarrow> byte list \<Rightarrow> bool \<Rightarrow> (byte list \<times> nat) outcome" where
  "pack_addr a session m push = (case a of Id n \<Rightarrow> packreq_number n session m (length m) push | Name s \<Rightarrow> packreq_string s session m (length m) push
     | No_address \<Rightarrow> Err ''name is too long (null)'')"

lemma pack_small:
  assumes a: "addr_ok a" and m: "length m < MULTI_PART"
  shows "\<exists>p. pack_addr a session m push = Ok (p, 0) \<and> framed p \<and>
    lunpackrequest (body p) = Ok ([addr_value a, L_u32 (if push then 0 else of_int session), L_str m] @ push_mark (if push then 0 else of_int session))"
proof (cases a)
  case (Id n)
  let ?s = "if push then 0 else of_int session :: u32"
  let ?y = "[0] @ fill_uint32 (of_int n) @ fill_uint32 ?s @ m"
  have y: "length m + 9 = length ?y" "length ?y < 0x10000" "length ?y + 2 \<le> TEMP_LENGTH"
    using m by (auto simp: MULTI_PART_def TEMP_LENGTH_def)
  have "pack_addr a session m push = Ok (frame ?y, 0)"
    using framed_result [OF y, of "\<lambda>s. Ok (s, 0)"] m Id by (simp add: pack_addr_def packreq_number_def copy_from_def)
  then show ?thesis using frame_ok [OF y(2)] unpack_number [of m "of_int n" ?s] m Id by (simp add: addr_value_def MULTI_PART_def)
next
  case (Name nm)
  let ?s = "if push then 0 else of_int session :: u32"
  let ?y = "[0x80, of_nat (length (map of_char nm :: byte list))] @ map of_char nm @ fill_uint32 ?s @ m"
  have nm: "length nm < 256" "0 < length nm" using a Name by (auto simp: addr_ok_def)
  have y: "length m + 6 + length nm = length ?y" "length ?y < 0x10000" "length ?y + 2 \<le> TEMP_LENGTH"
    using m nm(1) by (auto simp: MULTI_PART_def TEMP_LENGTH_def)
  have "pack_addr a session m push = Ok (frame ?y, 0)"
    using framed_result [OF y, of "\<lambda>s. Ok (s, 0)"] m nm Name by (simp add: pack_addr_def packreq_string_def copy_from_def Let_def)
  then show ?thesis using frame_ok [OF y(2)] unpack_string [of m "map of_char nm" ?s] m nm(1) Name by (simp add: addr_value_def MULTI_PART_def)
qed (use a in \<open>simp add: addr_ok_def\<close>)

lemma pack_large:
  assumes a: "addr_ok a" and m: "MULTI_PART \<le> length m" "length m < 2 ^ 31"
  shows "\<exists>p. pack_addr a session m push = Ok (p, length (chunks m)) \<and> framed p \<and>
    lunpackrequest (body p) = Ok [addr_value a, L_u32 (of_int session), L_int (int (length m)), L_bool True, L_bool push]"
proof -
  have parts: "(length m - 1) div MULTI_PART + 1 = length (chunks m)" "\<not> length m < MULTI_PART"
    using length_chunks [of m] m(1) by (force simp: MULTI_PART_def)+
  have sz: "L_u32 (of_nat (length m)) = L_int (int (length m))" using L_u32_int [of "int (length m)"] m(2) by simp
  show ?thesis
  proof (cases a)
    case (Id n)
    let ?y = "[if push then 0x41 else 1] @ fill_uint32 (of_int n) @ fill_uint32 (of_int session) @ fill_uint32 (of_nat (length m))"
    have y: "length ?y = 13" "length ?y < 0x10000" by simp_all
    have "pack_addr a session m push = Ok (frame ?y, length (chunks m))"
      using fill_header_frame [OF y(2)] parts Id unfolding y(1) by (simp add: pack_addr_def packreq_number_def frame_def)
    then show ?thesis using frame_ok [OF y(2)] unpack_multi_number [of push "of_int n" "of_int session" "of_nat (length m)"] Id sz
      by (simp add: addr_value_def)
  next
    case (Name nm)
    have nm: "length nm < 256" "0 < length nm" using a Name by (auto simp: addr_ok_def)
    let ?y = "[if push then 0xc1 else 0x81, of_nat (length (map of_char nm :: byte list))] @ map of_char nm @ fill_uint32 (of_int session) @ fill_uint32 (of_nat (length m))"
    have y: "length ?y = 10 + length nm" "length ?y < 0x10000" using nm by simp_all
    have "pack_addr a session m push = Ok (frame ?y, length (chunks m))"
      using fill_header_frame [OF y(2)] parts nm Name unfolding y(1) by (simp add: pack_addr_def packreq_string_def frame_def Let_def)
    then show ?thesis using frame_ok [OF y(2)] unpack_multi_string [of "map of_char nm" push "of_int session" "of_nat (length m)"] Name nm(1) sz
      by (simp add: addr_value_def)
  qed (use a in \<open>simp add: addr_ok_def\<close>)
qed

lemma packrequest_eq:
  assumes "0 < session" "session < 2 ^ 31" "length m < 2 ^ 31"
  shows "packrequest a session (Some m) (int (length m)) push =
    (and_then (pack_addr a session m push) (\<lambda>(s, k). and_then (if k \<noteq> 0 then packreq_multi k session m 0 (length m) else Ok []) (\<lambda>ps.
       Ok (s, next_session session, ps))), 1)"
proof -
  have "sint (of_int session :: cint) = session" using assms(1,2) by (simp add: signed_of_int signed_take_bit_int_eq_self)
  moreover have "unat (of_int (int (length m)) :: u32) = length m" using assms(3) by (simp add: unat_of_nat)
  ultimately show ?thesis using assms(1) by (simp add: packrequest_def pack_addr_def Let_def)
qed

text \<open>(C22) A request or a push that one node packs is what the other one unpacks: the address, the session (0 for
  a short push) and the message. A message of 32 KB or more is announced with its size and sent in parts, that
  \<^verbatim>\<open>concat\<close> puts together. Every packet starts with its size, and the message is freed once.\<close>

theorem cluster_request_roundtrip:
  assumes "addr_ok a" "0 < session" "session < 2 ^ 31" "length m < 2 ^ 31"
  shows "\<exists>p ps. packrequest a session (Some m) (int (length m)) push = (Ok (p, next_session session, ps), 1) \<and>
    (\<forall>q \<in> set (p # ps). framed q) \<and>
    (if length m < MULTI_PART
     then ps = [] \<and> lunpackrequest (body p) = Ok ([addr_value a, L_int (if push then 0 else session), L_str m] @ (if push then [L_nil, L_bool True] else []))
     else lunpackrequest (body p) = Ok [addr_value a, L_int session, L_int (int (length m)), L_bool True, L_bool push] \<and>
       (\<exists>cs. map (\<lambda>q. lunpackrequest (body q)) ps = each_part (\<lambda>more c. Ok [L_bool False, L_int session, L_str c, L_bool more]) cs \<and>
         lconcat (Some (int (length m))) cs = Ok [L_str m, L_int (int (length m))]))"
proof -
  have s: "L_u32 (of_int session) = L_int session" "(of_int session :: u32) \<noteq> 0" "L_u32 0 = L_int 0"
    using L_u32_int [of session] assms(2,3) by (auto simp: L_u32_def word_of_int_eq_0_iff take_bit_int_eq_self)
  note eq = packrequest_eq [OF assms(2-4), of a push]
  show ?thesis
  proof (cases "length m < MULTI_PART")
    case True
    from pack_small [OF assms(1) True, of session push] show ?thesis
      using True s unfolding eq by (cases push) (auto simp: push_mark_def)
  next
    case False
    then have large: "MULTI_PART \<le> length m" by simp
    then have ne: "chunks m \<noteq> []" using chunks_Nil_iff [of m] by (auto simp: MULTI_PART_def)
    let ?f = "\<lambda>more c. frame ([if more then 2 else 3] @ fill_uint32 (of_int session) @ c)"
    have multi: "packreq_multi (length (chunks m)) session m 0 (length m) = Ok (each_part ?f (chunks m))"
      using packreq_multi_ok [of 0 m "length (chunks m)" "length m" session] by simp
    have fr: "framed (?f more c) \<and> body (?f more c) = [if more then 2 else 3] @ fill_uint32 (of_int session) @ c" if "c \<in> set (chunks m)" for c more
      using chunk_length [OF that] by (intro frame_ok) (simp add: MULTI_PART_def)
    then have framed: "\<forall>q \<in> set (each_part ?f (chunks m)). framed q" by (intro each_part_ball) blast
    have "map (\<lambda>q. lunpackrequest (body q)) (each_part ?f (chunks m)) = each_part (\<lambda>more c. Ok [L_bool False, L_int session, L_str c, L_bool more]) (chunks m)"
      using fr unpack_part [OF conjunct2 [OF chunk_length]] s(1) by (intro each_part_cong) simp
    with pack_large [OF assms(1) large assms(4), of session push] show ?thesis
      using False ne multi framed lconcat_chunks [OF assms(4)] s(1) by (auto simp: eq)
  qed
qed

theorem cluster_request_roundtrip_witness:
  "\<exists>p ps. packrequest (Name ''db'') 7 (Some [1, 2, 3]) 3 False = (Ok (p, next_session 7, ps), 1) \<and>
     lunpackrequest (body p) = Ok [L_str (map of_char ''db''), L_int 7, L_str [1, 2, 3]]"
  using cluster_request_roundtrip [of "Name ''db''" 7 "[1, 2, 3]" False]
  by (auto simp: addr_ok_def addr_value_def MULTI_PART_def)

text \<open>A response reads back with its session: an error message, cut at 32 KB; a result; or, for a result of
  more than 32 KB, its size and the parts, that \<^verbatim>\<open>concat\<close> puts together.\<close>

theorem cluster_response_roundtrip:
  assumes "0 \<le> session" "session < 2 ^ 32" "length m < 2 ^ 31"
  shows "if ok \<and> MULTI_PART < length m
     then \<exists>p ps. lpackresponse session ok m (length m) = Ok (Table (p # ps)) \<and> (\<forall>q \<in> set (p # ps). framed q) \<and>
       lunpackresponse (body p) = Ok [L_int session, L_bool True, L_int (int (length m)), L_bool True] \<and>
       (\<exists>cs. map (\<lambda>q. lunpackresponse (body q)) ps =
           each_part (\<lambda>more c. Ok ([L_int session, L_bool True, L_str c] @ (if more then [L_bool True] else []))) cs \<and>
         lconcat (Some (int (length m))) cs = Ok [L_str m, L_int (int (length m))])
     else \<exists>p. lpackresponse session ok m (length m) = Ok (Single p) \<and> framed p \<and>
       lunpackresponse (body p) = Ok [L_int session, L_bool ok, L_str (if ok then m else take MULTI_PART m)]"
proof -
  let ?s = "of_int session :: u32"
  have s: "L_u32 ?s = L_int session" using L_u32_int assms(1,2) by blast
  have n: "L_u32 (of_nat (length m)) = L_int (int (length m))" using L_u32_int [of "int (length m)"] assms(3) by simp
  have part: "unpack_uint32 (fill_uint32 ?s @ [k] @ c) 0 = Ok ?s" "(fill_uint32 ?s @ [k] @ c) ! 4 = k"
      "substring (fill_uint32 ?s @ [k] @ c) 5 (int (length c)) = Ok (L_str c)" for k c
    using unpack_fill [of "[]" 0 ?s "[k] @ c"] substring_end [of "fill_uint32 ?s @ [k]" 5 _ c] by (simp_all add: nth_append)
  show ?thesis
  proof (cases "ok \<and> MULTI_PART < length m")
    case True
    then have "0 < length m" by (cases m) auto
    note k = length_chunks [OF this, symmetric]
    let ?f = "\<lambda>more c. frame (fill_uint32 ?s @ [if more then 3 else 4] @ c)" and ?y = "fill_uint32 ?s @ [2] @ fill_uint32 (of_nat (length m))"
    have y: "length ?y = 9" "length ?y < 0x10000" by simp_all
    have parts: "packresponse_parts (length (chunks m)) ?s m 0 (length m) = Ok (each_part ?f (chunks m))"
      using packresponse_parts_ok [of 0 m "length (chunks m)" "length m" ?s] by simp
    have r: "lpackresponse session ok m (length m) = Ok (Table (frame ?y # each_part ?f (chunks m)))"
      using True parts fill_header_frame [OF y(2)] unfolding lpackresponse_def Let_def k y(1) by (simp add: frame_def)
    have fr: "framed (?f more c) \<and> body (?f more c) = fill_uint32 ?s @ [if more then 3 else 4] @ c" if "c \<in> set (chunks m)" for c more
      using chunk_length [OF that] by (intro frame_ok) (simp add: MULTI_PART_def)
    then have "\<forall>q \<in> set (each_part ?f (chunks m)). framed q" by (intro each_part_ball) blast
    moreover have "map (\<lambda>q. lunpackresponse (body q)) (each_part ?f (chunks m)) =
        each_part (\<lambda>more c. Ok ([L_int session, L_bool True, L_str c] @ (if more then [L_bool True] else []))) (chunks m)"
    proof (rule each_part_cong)
      fix c more
      assume "c \<in> set (chunks m)"
      then have b: "body (?f more c) = fill_uint32 ?s @ [if more then 3 else 4] @ c" using fr by blast
      show "lunpackresponse (body (?f more c)) = Ok ([L_int session, L_bool True, L_str c] @ (if more then [L_bool True] else []))"
        unfolding b using part [of "if more then 3 else 4" c] s by (cases more) (simp_all add: lunpackresponse_def Let_def)
    qed
    moreover have "unpack_uint32 ?y 5 = Ok (of_nat (length m))" using unpack_fill_end [of "fill_uint32 ?s @ [2]" 5] by simp
    then have "lunpackresponse (body (frame ?y)) = Ok [L_int session, L_bool True, L_int (int (length m)), L_bool True]"
      using frame_ok [OF y(2)] part(1,2) [of 2 "fill_uint32 (of_nat (length m))"] s n by (simp add: lunpackresponse_def Let_def)
    ultimately show ?thesis using True r frame_ok [OF y(2)] lconcat_chunks [OF assms(3)] by auto
  next
    case False
    let ?m = "if ok then m else take MULTI_PART m"
    let ?y = "fill_uint32 ?s @ [if ok then 1 else 0] @ ?m"
    have lm: "length ?m = (if MULTI_PART < length m then MULTI_PART else length m)" using False by auto
    have le: "length ?m \<le> MULTI_PART" unfolding lm by simp
    have y: "length ?m + 5 = length ?y" "length ?y < 0x10000" "length ?y + 2 \<le> TEMP_LENGTH"
      using le by (auto simp: MULTI_PART_def TEMP_LENGTH_def)
    have "take (length ?m) m = ?m" using False by (auto simp: min_def)
    then have "copy_from m 0 (length ?m) = Ok ?m" by (simp add: copy_from_def)
    then have "lpackresponse session ok m (length m) = Ok (Single (frame ?y))"
      using False framed_result [OF y, of "\<lambda>p. Ok (Single p)"] unfolding lpackresponse_def Let_def lm [symmetric] by simp
    moreover have "lunpackresponse (body (frame ?y)) = Ok [L_int session, L_bool ok, L_str ?m]"
      using frame_ok [OF y(2)] part [of "if ok then 1 else 0" ?m] s by (cases ok) (simp_all add: lunpackresponse_def Let_def)
    ultimately show ?thesis using False frame_ok [OF y(2)] by auto
  qed
qed

theorem cluster_response_roundtrip_witness:
  "\<exists>p. lpackresponse 9 True [5, 6] 2 = Ok (Single p) \<and> lunpackresponse (body p) = Ok [L_int 9, L_bool True, L_str [5, 6]]"
  using cluster_response_roundtrip [of 9 "[5, 6]" True] by (auto simp: MULTI_PART_def simp flip: numeral_2_eq_2)

section \<open>Unpacking any string\<close>

text \<open>The shapes of the results of \<^verbatim>\<open>unpackrequest\<close>, as the Lua code that calls it reads them.\<close>

definition is_u32 :: "int \<Rightarrow> bool" where
  "is_u32 n \<longleftrightarrow> 0 \<le> n \<and> n < 2 ^ 32"

inductive is_address :: "lua_value \<Rightarrow> bool" where
  number: "is_u32 n \<Longrightarrow> is_address (L_int n)"
| name: "length s < 256 \<Longrightarrow> is_address (L_str s)"

inductive request_values :: "lua_value list \<Rightarrow> bool" where
  request: "is_address a \<Longrightarrow> is_u32 s \<Longrightarrow> s \<noteq> 0 \<Longrightarrow> request_values [a, L_int s, L_str m]"
| push: "is_address a \<Longrightarrow> request_values [a, L_int 0, L_str m, L_nil, L_bool True]"
| multi: "is_address a \<Longrightarrow> is_u32 s \<Longrightarrow> is_u32 n \<Longrightarrow> request_values [a, L_int s, L_int n, L_bool True, L_bool p]"
| part: "is_u32 s \<Longrightarrow> request_values [L_bool False, L_int s, L_str m, L_bool more]"

lemmas request_intros = is_address.intros request_values.intros

inductive_cases request_first: "request_values (v # vs)"

text \<open>The length that is left after the truncation to an \<^verbatim>\<open>int\<close> never exceeds the string.\<close>

lemma L_u32_shape: "\<exists>n. L_u32 w = L_int n \<and> is_u32 n \<and> (n = 0 \<longleftrightarrow> w = 0)"
  using unsigned_less [where ?'b = 32 and ?'a = int and w = w] by (simp add: L_u32_def is_u32_def uint_0_iff)

lemma push_mark_shape:
  assumes "is_address a"
  shows "request_values ([a, L_u32 w, L_str m] @ push_mark w)"
  using assms L_u32_shape [of w] by (auto simp: push_mark_def intro: request_intros)

lemma multi_shape: "is_address a \<Longrightarrow> request_values [a, L_u32 s, L_u32 n, L_bool True, L_bool p]"
  using L_u32_shape [of s] L_u32_shape [of n] by (auto simp: request_values.multi)

lemma unpack_uint32_inside: "k + 4 \<le> length buf \<Longrightarrow> \<exists>w. unpack_uint32 buf k = Ok w"
  by (simp add: unpack_uint32_def)

lemma substring_inside: "0 \<le> n \<Longrightarrow> int k + n \<le> int (length buf) \<Longrightarrow> \<exists>s. substring buf k n = Ok (L_str s) \<and> length s = nat n"
  by (auto simp: substring_def nat_le_iff)

definition typed :: "lua_value list outcome \<Rightarrow> bool" where
  "typed r \<longleftrightarrow> (\<exists>e. r = Err e) \<or> (\<exists>vs. r = Ok vs \<and> request_values vs)"

lemma typed_intros: "typed (Err e)" "request_values vs \<Longrightarrow> typed (Ok vs)" "typed (invalid_size sz)"
  by (simp_all add: typed_def invalid_size_def)

lemma typed_number:
  assumes "sz \<le> int (length buf)"
  shows "typed (unpackreq_number buf sz)"
proof (cases "sz < 9")
  case False
  obtain a s where "unpack_uint32 buf 1 = Ok a" "unpack_uint32 buf 5 = Ok s"
    using unpack_uint32_inside [of 1 buf] unpack_uint32_inside [of 5 buf] False assms by auto
  moreover obtain m where "substring buf 9 (sz - 9) = Ok (L_str m)" using substring_inside [of "sz - 9" 9 buf] False assms by auto
  moreover have "is_address (L_u32 a)" using L_u32_shape [of a] by (auto intro: request_intros)
  ultimately show ?thesis using False push_mark_shape [of "L_u32 a" s m] by (simp add: unpackreq_number_def typed_intros)
qed (simp add: unpackreq_number_def typed_intros)

lemma typed_multi_number:
  assumes "sz \<le> int (length buf)"
  shows "typed (unpackmreq_number buf sz p)"
proof (cases "sz = 13")
  case True
  obtain a s n where "unpack_uint32 buf 1 = Ok a" "unpack_uint32 buf 5 = Ok s" "unpack_uint32 buf 9 = Ok n"
    using unpack_uint32_inside [of 1 buf] unpack_uint32_inside [of 5 buf] unpack_uint32_inside [of 9 buf] True assms by auto
  moreover have "is_address (L_u32 a)" using L_u32_shape [of a] by (auto intro: request_intros)
  then have "request_values [L_u32 a, L_u32 s, L_u32 n, L_bool True, L_bool p]" by (rule multi_shape)
  ultimately show ?thesis using True by (simp add: unpackmreq_number_def typed_intros)
qed (simp add: unpackmreq_number_def typed_intros)

lemma typed_part:
  assumes "sz \<le> int (length buf)"
  shows "typed (unpackmreq_part buf sz)"
proof (cases "sz < 5")
  case False
  obtain s m where "unpack_uint32 buf 1 = Ok s" "substring buf 5 (sz - 5) = Ok (L_str m)"
    using unpack_uint32_inside [of 1 buf] substring_inside [of "sz - 5" 5 buf] False assms by auto
  moreover have "request_values [L_bool False, L_u32 s, L_str m, L_bool (buf ! 0 = 2)]"
    using L_u32_shape [of s] by (auto intro: request_intros)
  ultimately show ?thesis using False by (simp add: unpackmreq_part_def typed_intros)
qed (simp add: unpackmreq_part_def typed_intros)

lemma typed_string:
  assumes "sz \<le> int (length buf)"
  shows "typed (unpackreq_string buf sz)"
proof (cases "sz < 2 \<or> sz < int (unat (buf ! 1) + 6)")
  case False
  let ?k = "unat (buf ! 1)"
  have k: "?k < 256" using unsigned_less [where ?'b = 8 and ?'a = nat and w = "buf ! 1"] by simp
  obtain nm where nm: "substring buf 2 (int ?k) = Ok (L_str nm)" "length nm = ?k"
    using substring_inside [of "int ?k" 2 buf] False assms by auto
  have "?k + 6 \<le> length buf" using False assms by linarith
  then obtain s where "unpack_uint32 buf (?k + 2) = Ok s" using unpack_uint32_inside [of "?k + 2" buf] by auto
  moreover obtain m where "substring buf (2 + ?k + 4) (sz - int ?k - 6) = Ok (L_str m)"
    using substring_inside [of "sz - int ?k - 6" "2 + ?k + 4" buf] False assms by auto
  moreover have "is_address (L_str nm)" using nm(2) k by (auto intro: request_intros)
  ultimately show ?thesis using False nm push_mark_shape [of "L_str nm" s m]
    by (simp add: unpackreq_string_def Let_def typed_intros)
qed (auto simp: unpackreq_string_def Let_def typed_intros)

lemma typed_multi_string:
  assumes "sz \<le> int (length buf)"
  shows "typed (unpackmreq_string buf sz p)"
proof (cases "sz < 2 \<or> sz < int (unat (buf ! 1) + 10)")
  case False
  let ?k = "unat (buf ! 1)"
  have k: "?k < 256" using unsigned_less [where ?'b = 8 and ?'a = nat and w = "buf ! 1"] by simp
  obtain nm where nm: "substring buf 2 (int ?k) = Ok (L_str nm)" "length nm = ?k"
    using substring_inside [of "int ?k" 2 buf] False assms by auto
  have "?k + 10 \<le> length buf" using False assms by linarith
  then obtain s n where "unpack_uint32 buf (?k + 2) = Ok s" "unpack_uint32 buf (?k + 6) = Ok n"
    using unpack_uint32_inside [of "?k + 2" buf] unpack_uint32_inside [of "?k + 6" buf] by auto
  moreover have "request_values [L_str nm, L_u32 s, L_u32 n, L_bool True, L_bool p]"
    using nm(2) k by (intro multi_shape) (auto intro: request_intros)
  ultimately show ?thesis using False nm by (simp add: unpackmreq_string_def Let_def typed_intros)
qed (auto simp: unpackmreq_string_def Let_def typed_intros)

text \<open>(C23) Whatever string another node sends, \<^verbatim>\<open>unpackrequest\<close> reads inside of it and either raises an error
  or returns values of one of the four shapes: a request, a push, the announcement of a long message or a
  part; addresses are 32-bit numbers or names of less than 256 bytes, sessions and sizes 32-bit numbers.\<close>

theorem cluster_unpack_typed:
  "(\<exists>e. lunpackrequest msg = Err e) \<or> (\<exists>vs. lunpackrequest msg = Ok vs \<and> request_values vs)"
proof -
  note sz = int_of_size_le [of "length msg"]
  have "typed (lunpackrequest msg)"
    using typed_number [OF sz] typed_multi_number [OF sz] typed_part [OF sz] typed_string [OF sz] typed_multi_string [OF sz]
    by (simp add: lunpackrequest_def Let_def typed_intros)
  then show ?thesis by (simp add: typed_def)
qed

text \<open>The two integers of a size and a session tell a long message from the others.\<close>

lemma announced_size: "request_values [a, s, L_int n, y, z] \<Longrightarrow> is_u32 n \<and> y = L_bool True"
  by (erule request_first) auto

end
