(* ===== verification/Rwlock.thy ===== *)
theory Rwlock
  imports Prelude
begin

text \<open>
  The readers-writer lock of \<^verbatim>\<open>src/ztask/rwlock.h\<close> at the granularity of its memory accesses. Any
  number of threads call its functions; each access to the fields \<^verbatim>\<open>write\<close> and \<^verbatim>\<open>read\<close> is a step, in a
  sequentially consistent memory. On x86 this is what the code gets: the atomic operations on \<^verbatim>\<open>read\<close> and the exchange
  on \<^verbatim>\<open>write\<close> are locked instructions, which also order the plain reads after them. It is an assumption about the
  machine: gcc documents \<^verbatim>\<open>__sync_lock_test_and_set\<close>, which \<^verbatim>\<open>rwlock_wlock\<close> uses, as an acquire barrier only, and a
  weaker machine could read \<^verbatim>\<open>read\<close> before the flag is seen by the readers. The lock is proved to exclude and
  never to get stuck, and to implement the lock with atomic operations that the models of its clients use.
\<close>

section \<open>The lock as its clients see it\<close>

record lock_state =
  readers :: nat
  writer :: bool

definition lock_init :: lock_state where
  "lock_init = \<lparr>readers = 0, writer = False\<rparr>"

text \<open>A thread that cannot take the lock waits: there is no next state.\<close>

definition rlock :: "lock_state \<Rightarrow> lock_state option" where
  "rlock l = (if writer l then None else Some (l\<lparr>readers := readers l + 1\<rparr>))"

definition wlock :: "lock_state \<Rightarrow> lock_state option" where
  "wlock l = (if writer l \<or> 0 < readers l then None else Some (l\<lparr>writer := True\<rparr>))"

definition runlock :: "lock_state \<Rightarrow> lock_state" where
  "runlock l = l\<lparr>readers := readers l - 1\<rparr>"

definition wunlock :: "lock_state \<Rightarrow> lock_state" where
  "wunlock l = l\<lparr>writer := False\<rparr>"

section \<open>The code\<close>

record rwlock =
  rw_write :: nat
  rw_read :: int

text \<open>Where a thread stands: outside; in the loop of \<^verbatim>\<open>rwlock_rlock\<close> waiting for \<^verbatim>\<open>write\<close> to be 0, about to
  increment \<^verbatim>\<open>read\<close>, testing \<^verbatim>\<open>write\<close> again, about to take the increment back; holding the lock as a reader;
  in \<^verbatim>\<open>rwlock_wlock\<close> before the flag is set, waiting for the readers to leave; holding it as a writer.\<close>

datatype lock_pc = Out | Spin | Increment | Check | Undo | Reading | Wait_flag | Drain | Writing

type_synonym lock_system = "rwlock \<times> lock_pc list"

inductive rw_step :: "lock_system \<Rightarrow> lock_system \<Rightarrow> bool" where
  call_rlock: "i < length ts \<Longrightarrow> ts ! i = Out \<Longrightarrow> rw_step (l, ts) (l, ts[i := Spin])"
| seen_free: "i < length ts \<Longrightarrow> ts ! i = Spin \<Longrightarrow> rw_write l = 0 \<Longrightarrow> rw_step (l, ts) (l, ts[i := Increment])"
| increment: "i < length ts \<Longrightarrow> ts ! i = Increment \<Longrightarrow> rw_step (l, ts) (l\<lparr>rw_read := rw_read l + 1\<rparr>, ts[i := Check])"
| check_ok: "i < length ts \<Longrightarrow> ts ! i = Check \<Longrightarrow> rw_write l = 0 \<Longrightarrow> rw_step (l, ts) (l, ts[i := Reading])"
| check_failed: "i < length ts \<Longrightarrow> ts ! i = Check \<Longrightarrow> rw_write l \<noteq> 0 \<Longrightarrow> rw_step (l, ts) (l, ts[i := Undo])"
| undo: "i < length ts \<Longrightarrow> ts ! i = Undo \<Longrightarrow> rw_step (l, ts) (l\<lparr>rw_read := rw_read l - 1\<rparr>, ts[i := Spin])"
| runlock: "i < length ts \<Longrightarrow> ts ! i = Reading \<Longrightarrow> rw_step (l, ts) (l\<lparr>rw_read := rw_read l - 1\<rparr>, ts[i := Out])"
| call_wlock: "i < length ts \<Longrightarrow> ts ! i = Out \<Longrightarrow> rw_step (l, ts) (l, ts[i := Wait_flag])"
| test_and_set: "i < length ts \<Longrightarrow> ts ! i = Wait_flag \<Longrightarrow> rw_write l = 0 \<Longrightarrow> rw_step (l, ts) (l\<lparr>rw_write := 1\<rparr>, ts[i := Drain])"
| drained: "i < length ts \<Longrightarrow> ts ! i = Drain \<Longrightarrow> rw_read l = 0 \<Longrightarrow> rw_step (l, ts) (l, ts[i := Writing])"
| wunlock: "i < length ts \<Longrightarrow> ts ! i = Writing \<Longrightarrow> rw_step (l, ts) (l\<lparr>rw_write := 0\<rparr>, ts[i := Out])"

definition rwlock_init :: rwlock where
  "rwlock_init = \<lparr>rw_write = 0, rw_read = 0\<rparr>"

inductive rw_reachable :: "nat \<Rightarrow> lock_system \<Rightarrow> bool" for n where
  init: "rw_reachable n (rwlock_init, replicate n Out)"
| step: "rw_reachable n s \<Longrightarrow> rw_step s t \<Longrightarrow> rw_reachable n t"

section \<open>The invariant\<close>

definition threads_in :: "lock_pc set \<Rightarrow> lock_pc list \<Rightarrow> nat" where
  "threads_in P ts = length (filter (\<lambda>p. p \<in> P) ts)"

definition rw_inv :: "lock_system \<Rightarrow> bool" where
  "rw_inv s = (case s of (l, ts) \<Rightarrow>
     rw_read l = int (threads_in {Check, Undo, Reading} ts) \<and>
     rw_write l = threads_in {Drain, Writing} ts \<and> rw_write l \<le> 1 \<and>
     (threads_in {Writing} ts = 0 \<or> threads_in {Reading} ts = 0))"

lemma threads_in_update:
  assumes "i < length ts"
  shows "threads_in P (ts[i := p]) = threads_in P ts - (if ts ! i \<in> P then 1 else 0) + (if p \<in> P then 1 else 0)"
  using filter_count_update [OF assms, of "\<lambda>p. p \<in> P" p] filter_count_pos [OF assms, of "\<lambda>p. p \<in> P"]
  unfolding threads_in_def by (cases "ts ! i \<in> P"; cases "p \<in> P"; simp only: if_True if_False; linarith)

lemma threads_in_pos: "i < length ts \<Longrightarrow> ts ! i \<in> P \<Longrightarrow> 0 < threads_in P ts"
  using filter_count_pos [of i ts "\<lambda>p. p \<in> P"] unfolding threads_in_def by (simp only: One_nat_def Suc_le_eq)

lemma threads_in_mono: "P \<subseteq> Q \<Longrightarrow> threads_in P ts \<le> threads_in Q ts"
  unfolding threads_in_def by (induction ts) auto

lemma threads_in_writers: "threads_in {Drain, Writing} ts = threads_in {Drain} ts + threads_in {Writing} ts"
  unfolding threads_in_def by (induction ts) auto

lemma threads_in_exists: "0 < threads_in P ts \<Longrightarrow> \<exists>i < length ts. ts ! i \<in> P"
  by (auto simp: threads_in_def filter_empty_conv in_set_conv_nth)

lemma rw_step_inv: "rw_step s t \<Longrightarrow> rw_inv s \<Longrightarrow> rw_inv t"
proof (induction rule: rw_step.induct)
  case (check_ok i ts l)
  then have "threads_in {Writing} ts = 0" using threads_in_mono [of "{Writing}" "{Drain, Writing}" ts] by (simp add: rw_inv_def)
  then show ?case using check_ok threads_in_pos [of i ts "{Check, Undo, Reading}"] by (simp add: rw_inv_def threads_in_update)
next
  case (drained i ts l)
  then have "threads_in {Reading} ts = 0" using threads_in_mono [of "{Reading}" "{Check, Undo, Reading}" ts] by (simp add: rw_inv_def)
  then show ?case using drained threads_in_pos [of i ts "{Drain, Writing}"] by (simp add: rw_inv_def threads_in_update)
next
  case (check_failed i ts l)
  then show ?case using threads_in_pos [of i ts "{Check, Undo, Reading}"] by (simp add: rw_inv_def threads_in_update)
next
  case (undo i ts l)
  then show ?case using threads_in_pos [of i ts "{Check, Undo, Reading}"] by (simp add: rw_inv_def threads_in_update of_nat_diff)
next
  case (runlock i ts l)
  then show ?case using threads_in_pos [of i ts "{Check, Undo, Reading}"] threads_in_pos [of i ts "{Reading}"]
    by (simp add: rw_inv_def threads_in_update of_nat_diff)
next
  case (wunlock i ts l)
  then show ?case using threads_in_pos [of i ts "{Drain, Writing}"] threads_in_pos [of i ts "{Writing}"]
    by (simp add: rw_inv_def threads_in_update)
qed (simp_all add: rw_inv_def threads_in_update)

lemma rw_reachable_inv: "rw_reachable n s \<Longrightarrow> rw_inv s"
proof (induction rule: rw_reachable.induct)
  case init
  show ?case by (simp add: rw_inv_def rwlock_init_def threads_in_def)
qed (rule rw_step_inv)

text \<open>(C28) A writer that holds the lock excludes every other writer and every reader, whatever the interleaving
  of the accesses (in a sequentially consistent memory).\<close>

theorem rwlock_excludes:
  assumes "rw_reachable n (l, ts)" "i < length ts" "j < length ts" "i \<noteq> j" "ts ! i = Writing"
  shows "ts ! j \<noteq> Writing \<and> ts ! j \<noteq> Reading"
proof -
  have inv: "rw_inv (l, ts)" by (rule rw_reachable_inv [OF assms(1)])
  have "ts ! j \<noteq> Writing"
    using filter_count_ge_2 [OF assms(2-4), of "\<lambda>p. p \<in> {Drain, Writing}"] assms(5) inv by (auto simp: rw_inv_def threads_in_def)
  moreover have "ts ! j \<noteq> Reading"
    using threads_in_pos [of i ts "{Writing}"] threads_in_pos [of j ts "{Reading}"] assms(2,3,5) inv by (auto simp: rw_inv_def)
  ultimately show ?thesis by simp
qed

text \<open>As long as a thread is inside one of the functions or holds the lock, some thread can take a step that
  is not a failed test of a loop.\<close>

theorem rwlock_not_stuck:
  assumes "rw_reachable n (l, ts)" "i < length ts" "ts ! i \<noteq> Out"
  shows "\<exists>t. rw_step (l, ts) t"
proof -
  have inv: "rw_inv (l, ts)" by (rule rw_reachable_inv [OF assms(1)])
  have moving: "\<exists>t. rw_step (l, ts) t" if "j < length ts" "ts ! j \<in> {Increment, Check, Undo, Reading, Writing}" for j
    using that by (cases "ts ! j"; cases "rw_write l = 0") (auto intro: rw_step.intros)
  have free: "\<exists>t. rw_step (l, ts) t" if "rw_write l = 0" "j < length ts" "ts ! j \<in> {Spin, Wait_flag}" for j
    using that by (auto intro: rw_step.intros)
  have held: "\<exists>t. rw_step (l, ts) t" if w: "rw_write l \<noteq> 0"
  proof -
    obtain j where j: "j < length ts" "ts ! j = Drain \<or> ts ! j = Writing"
      using threads_in_exists [of "{Drain, Writing}" ts] inv w by (auto simp: rw_inv_def)
    show ?thesis
    proof (cases "rw_read l = 0 \<or> ts ! j = Writing")
      case True
      then show ?thesis using j by (auto intro: rw_step.intros)
    next
      case False
      then obtain k where "k < length ts" "ts ! k \<in> {Check, Undo, Reading}"
        using threads_in_exists [of "{Check, Undo, Reading}" ts] inv by (auto simp: rw_inv_def)
      then show ?thesis using moving [of k] by auto
    qed
  qed
  show ?thesis
  proof (cases "rw_write l = 0")
    case True
    then have "threads_in {Drain, Writing} ts = 0" using inv by (simp add: rw_inv_def)
    then have "ts ! i \<noteq> Drain" using threads_in_pos [OF assms(2), of "{Drain, Writing}"] by auto
    then show ?thesis using free [OF True assms(2)] moving [OF assms(2)] assms(3) by (cases "ts ! i") auto
  qed (rule held)
qed

section \<open>Refinement\<close>

definition lock_abs :: "lock_system \<Rightarrow> lock_state" where
  "lock_abs s = \<lparr>readers = threads_in {Reading} (snd s), writer = (0 < threads_in {Writing} (snd s))\<rparr>"

inductive lock_step :: "lock_state \<Rightarrow> lock_state \<Rightarrow> bool" where
  "rlock l = Some l' \<Longrightarrow> lock_step l l'"
| "wlock l = Some l' \<Longrightarrow> lock_step l l'"
| "0 < readers l \<Longrightarrow> lock_step l (runlock l)"
| "writer l \<Longrightarrow> lock_step l (wunlock l)"

text \<open>Every access of the code is invisible to the clients or is one of the four atomic operations, with
  its condition.\<close>

theorem rwlock_refines:
  assumes "rw_reachable n s" "rw_step s t"
  shows "lock_abs t = lock_abs s \<or> lock_step (lock_abs s) (lock_abs t)"
  using assms(2) rw_reachable_inv [OF assms(1)]
proof (induction rule: rw_step.induct)
  case (check_ok i ts l)
  then have "threads_in {Writing} ts = 0" using threads_in_mono [of "{Writing}" "{Drain, Writing}" ts] by (simp add: rw_inv_def)
  then have "rlock (lock_abs (l, ts)) = Some (lock_abs (l, ts[i := Reading]))"
    using check_ok by (simp add: lock_abs_def rlock_def threads_in_update)
  then show ?case by (blast intro: lock_step.intros)
next
  case (drained i ts l)
  then have "threads_in {Reading} ts = 0" using threads_in_mono [of "{Reading}" "{Check, Undo, Reading}" ts] by (simp add: rw_inv_def)
  moreover have "threads_in {Writing} ts = 0"
    using drained threads_in_pos [of i ts "{Drain}"] threads_in_writers [of ts] by (auto simp: rw_inv_def)
  ultimately have "wlock (lock_abs (l, ts)) = Some (lock_abs (l, ts[i := Writing]))"
    using drained by (simp add: lock_abs_def wlock_def threads_in_update)
  then show ?case by (blast intro: lock_step.intros)
next
  case (runlock i ts l)
  then have "0 < threads_in {Reading} ts" "threads_in {Writing} ts = 0"
    using threads_in_pos [of i ts "{Reading}"] by (auto simp: rw_inv_def)
  then have "0 < readers (lock_abs (l, ts))" "lock_abs (l\<lparr>rw_read := rw_read l - 1\<rparr>, ts[i := Out]) = runlock (lock_abs (l, ts))"
    using runlock by (simp_all add: lock_abs_def runlock_def threads_in_update)
  then show ?case using lock_step.intros(3) by metis
next
  case (wunlock i ts l)
  then have "threads_in {Writing} ts = 1"
    using threads_in_pos [of i ts "{Writing}"] threads_in_writers [of ts] by (auto simp: rw_inv_def)
  then have "writer (lock_abs (l, ts))" "lock_abs (l\<lparr>rw_write := 0\<rparr>, ts[i := Out]) = wunlock (lock_abs (l, ts))"
    using wunlock by (simp_all add: lock_abs_def wunlock_def threads_in_update)
  then show ?case using lock_step.intros(4) by metis
qed (simp_all add: lock_abs_def threads_in_update)

text \<open>A reader holds the lock and a writer waits for it to leave.\<close>

definition sample_lock :: lock_system where
  "sample_lock = (\<lparr>rw_write = 1, rw_read = 1\<rparr>, [Reading, Drain])"

lemma sample_lock_reachable: "rw_reachable 2 sample_lock"
proof -
  have "rw_reachable 2 (rwlock_init, [Out, Out])" using rw_reachable.init [of 2] by (simp add: eval_nat_numeral)
  from rw_reachable.step [OF this call_rlock [of 0]] have "rw_reachable 2 (rwlock_init, [Spin, Out])" by simp
  from rw_reachable.step [OF this seen_free [of 0]] have "rw_reachable 2 (rwlock_init, [Increment, Out])" by (simp add: rwlock_init_def)
  from rw_reachable.step [OF this increment [of 0]] have "rw_reachable 2 (\<lparr>rw_write = 0, rw_read = 1\<rparr>, [Check, Out])" by (simp add: rwlock_init_def)
  from rw_reachable.step [OF this check_ok [of 0]] have "rw_reachable 2 (\<lparr>rw_write = 0, rw_read = 1\<rparr>, [Reading, Out])" by simp
  from rw_reachable.step [OF this call_wlock [of 1]] have "rw_reachable 2 (\<lparr>rw_write = 0, rw_read = 1\<rparr>, [Reading, Wait_flag])" by simp
  from rw_reachable.step [OF this test_and_set [of 1]] show ?thesis by (simp add: sample_lock_def)
qed

lemma sample_lock_left: "rw_reachable 2 (\<lparr>rw_write = 1, rw_read = 0\<rparr>, [Out, Writing])"
proof -
  from rw_reachable.step [OF sample_lock_reachable [unfolded sample_lock_def] rw_step.runlock [of 0]]
  have "rw_reachable 2 (\<lparr>rw_write = 1, rw_read = 0\<rparr>, [Out, Drain])" by simp
  from rw_reachable.step [OF this drained [of 1]] show ?thesis by simp
qed

theorem rwlock_excludes_witness: "([Out, Writing] ! 0) \<noteq> Writing \<and> ([Out, Writing] ! 0) \<noteq> Reading"
  using rwlock_excludes [OF sample_lock_left, of 1 0] by simp

theorem rwlock_not_stuck_witness: "\<exists>t. rw_step sample_lock t"
  using rwlock_not_stuck [OF sample_lock_reachable [unfolded sample_lock_def], of 1] by (simp add: sample_lock_def)

theorem rwlock_refines_witness: "lock_step \<lparr>readers = 1, writer = False\<rparr> \<lparr>readers = 0, writer = False\<rparr>"
  using rwlock_refines [OF sample_lock_reachable [unfolded sample_lock_def] rw_step.runlock [of 0]]
  by (simp add: lock_abs_def threads_in_def)

end
