(* ===== verification/Stm.thy ===== *)
theory Stm
  imports Rwlock
begin

text \<open>
  Shared objects of \<^verbatim>\<open>src/ztask/lualib/lua-stm.c\<close>: one service writes versions of a message, others read
  them without copying. Both the object and each version have a reference count. The writer and
  the readers run in different threads; a step is one atomic operation or one section under the lock of the
  object, so every interleaving of the functions is a run. One object is modelled, from \<^verbatim>\<open>stm_new\<close> on.

  An access to freed memory and a failing \<^verbatim>\<open>assert\<close> are a fault. The proofs show that there is just one
  place where it can happen.

  What is assumed of the Lua code: the userdata of a reader stays referenced, and is not read again, while
  \<^verbatim>\<open>lread\<close> runs the callback. The C code does not see to it: \<^verbatim>\<open>lua_replace(L, 1)\<close> drops its own reference to the
  userdata before the call, so that a reader that nothing else refers to can be collected there, and a callback that
  calls its reader again may release the version it is reading. In the runs below a writer is copied at most
  \<open>READER_LIMIT\<close> times, which is proved to keep the counts within \<^verbatim>\<open>int\<close>.
\<close>

section \<open>Memory\<close>

type_synonym cref = nat

record stm_copy =
  reference :: int
  copy_sz :: u32
  msg :: "byte list"

record stm_object =
  lock :: lock_state
  oreference :: int
  ocopy :: "cref option"

text \<open>\<open>None\<close> is memory that is not allocated.\<close>

record memory =
  obj :: "stm_object option"
  copies :: "cref \<Rightarrow> stm_copy option"

text \<open>The allocator has chosen the free address \<open>c\<close>. The size is cut to 32 bits.\<close>

definition stm_newcopy :: "cref \<Rightarrow> byte list \<Rightarrow> memory \<Rightarrow> memory" where
  "stm_newcopy c m s = s\<lparr>copies := (copies s)(c \<mapsto> \<lparr>reference = 1, copy_sz = of_nat (length m), msg = m\<rparr>)\<rparr>"

definition stm_new :: "cref \<Rightarrow> byte list \<Rightarrow> memory" where
  "stm_new c m = (stm_newcopy c m \<lparr>obj = None, copies = (\<lambda>_. None)\<rparr>)
     \<lparr>obj := Some \<lparr>lock = lock_init, oreference = 1, ocopy = Some c\<rparr>\<rparr>"

definition stm_releasecopy :: "cref option \<Rightarrow> memory \<Rightarrow> memory option" where
  "stm_releasecopy copy s =
     (case copy of
        None \<Rightarrow> Some s
      | Some c \<Rightarrow> do { k \<leftarrow> copies s c;
                       if reference k - 1 = 0 then Some (s\<lparr>copies := (copies s)(c := None)\<rparr>)
                       else Some (s\<lparr>copies := (copies s)(c \<mapsto> k\<lparr>reference := reference k - 1\<rparr>)\<rparr>) })"

section \<open>The sections under the lock\<close>

text \<open>The result tells whether the object is still there, to be unlocked.\<close>

definition release_section :: "memory \<Rightarrow> (bool \<times> memory) option" where
  "release_section s =
     do { ob \<leftarrow> obj s;
          s1 \<leftarrow> stm_releasecopy (ocopy ob) s;
          if 0 < oreference ob - 1 then Some (True, s1\<lparr>obj := Some (ob\<lparr>ocopy := None, oreference := oreference ob - 1\<rparr>)\<rparr>)
          else Some (False, s1\<lparr>obj := None\<rparr>) }"

definition reader_section :: "memory \<Rightarrow> (bool \<times> memory) option" where
  "reader_section s =
     do { ob \<leftarrow> obj s;
          if oreference ob - 1 = 0
          then do { assert_c (ocopy ob = None); Some (False, s\<lparr>obj := None\<rparr>) }
          else Some (True, s\<lparr>obj := Some (ob\<lparr>oreference := oreference ob - 1\<rparr>)\<rparr>) }"

definition grab_section :: "memory \<Rightarrow> memory option" where
  "grab_section s =
     do { ob \<leftarrow> obj s;
          assert_c (0 < oreference ob);
          Some (s\<lparr>obj := Some (ob\<lparr>oreference := oreference ob + 1\<rparr>)\<rparr>) }"

definition copy_section :: "memory \<Rightarrow> (cref option \<times> memory) option" where
  "copy_section s =
     do { ob \<leftarrow> obj s;
          case ocopy ob of
            None \<Rightarrow> Some (None, s)
          | Some c \<Rightarrow> do { k \<leftarrow> copies s c;
                           assert_c (0 < reference k);
                           Some (Some c, s\<lparr>copies := (copies s)(c \<mapsto> k\<lparr>reference := reference k + 1\<rparr>)\<rparr>) } }"

definition update_section :: "cref \<Rightarrow> memory \<Rightarrow> (cref option \<times> memory) option" where
  "update_section c s = do { ob \<leftarrow> obj s; Some (ocopy ob, s\<lparr>obj := Some (ob\<lparr>ocopy := Some c\<rparr>)\<rparr>) }"

section \<open>Threads\<close>

text \<open>Where a thread stands. The writer: outside (\<open>Writer\<close>); in \<^verbatim>\<open>lcopy\<close>, that calls \<^verbatim>\<open>stm_grab\<close>; in \<^verbatim>\<open>lupdate\<close>,
  that calls \<^verbatim>\<open>stm_update\<close>; in \<^verbatim>\<open>ldeletewriter\<close>, that calls \<^verbatim>\<open>stm_release\<close>. A reader with its last version:
  outside; in \<^verbatim>\<open>lread\<close>, that calls \<^verbatim>\<open>stm_copy\<close>, compares, and runs the callback on the message; in
  \<^verbatim>\<open>ldeletereader\<close>, that calls \<^verbatim>\<open>stm_releasereader\<close>.\<close>

datatype thread =
  Writer | Grab_lock | Grab_section | Grab_unlock
| Upd_lock cref | Upd_section cref | Upd_unlock "cref option" | Upd_free "cref option"
| Del_lock | Del_section | Del_unlock | Deleted
| Reader "cref option" | Read_lock "cref option" | Read_section "cref option" | Read_unlock "cref option" "cref option"
| Read_compare "cref option" "cref option" | Using cref
| Rel_lock "cref option" | Rel_section "cref option" | Rel_unlock "cref option" | Rel_copy "cref option" | Released

text \<open>A thread waits, makes a fault, or goes on; a new reader may join.\<close>

datatype result = Blocked | Fault | Next "thread list" memory

definition with_lock :: "(lock_state \<Rightarrow> lock_state option) \<Rightarrow> thread \<Rightarrow> memory \<Rightarrow> result" where
  "with_lock f t s =
     (case obj s of
        None \<Rightarrow> Fault
      | Some ob \<Rightarrow> (case f (lock ob) of
                     None \<Rightarrow> Blocked
                   | Some l \<Rightarrow> Next [t] (s\<lparr>obj := Some (ob\<lparr>lock := l\<rparr>)\<rparr>)))"

definition faulty :: "'a option \<Rightarrow> ('a \<Rightarrow> result) \<Rightarrow> result" where
  "faulty m f = (case m of None \<Rightarrow> Fault | Some x \<Rightarrow> f x)"

fun act :: "thread \<Rightarrow> memory \<Rightarrow> result" where
  "act Grab_lock s = with_lock rlock Grab_section s"
| "act Grab_section s = faulty (grab_section s) (Next [Grab_unlock])"
| "act Grab_unlock s = (case with_lock (Some \<circ> runlock) Writer s of Next ts s \<Rightarrow> Next (ts @ [Reader None]) s | r \<Rightarrow> r)"
| "act (Upd_lock c) s = with_lock wlock (Upd_section c) s"
| "act (Upd_section c) s = faulty (update_section c s) (\<lambda>(old, s). Next [Upd_unlock old] s)"
| "act (Upd_unlock old) s = with_lock (Some \<circ> wunlock) (Upd_free old) s"
| "act (Upd_free old) s = faulty (stm_releasecopy old s) (Next [Writer])"
| "act Del_lock s = (if obj s = None \<or> ocopy (the (obj s)) = None then Fault else with_lock wlock Del_section s)"
| "act Del_section s = faulty (release_section s) (\<lambda>(there, s). Next [if there then Del_unlock else Deleted] s)"
| "act Del_unlock s = with_lock (Some \<circ> wunlock) Deleted s"
| "act (Read_lock lc) s = with_lock rlock (Read_section lc) s"
| "act (Read_section lc) s = faulty (copy_section s) (\<lambda>(c, s). Next [Read_unlock lc c] s)"
| "act (Read_unlock lc c) s = with_lock (Some \<circ> runlock) (Read_compare lc c) s"
| "act (Read_compare lc c) s =
     (if c = lc then faulty (stm_releasecopy c s) (Next [Reader lc])
      else faulty (stm_releasecopy lc s) (Next [case c of None \<Rightarrow> Reader None | Some k \<Rightarrow> Using k]))"
| "act (Using k) s = faulty (copies s k) (\<lambda>_. Next [Reader (Some k)] s)"
| "act (Rel_lock lc) s = with_lock rlock (Rel_section lc) s"
| "act (Rel_section lc) s = faulty (reader_section s) (\<lambda>(there, s). Next [if there then Rel_unlock lc else Rel_copy lc] s)"
| "act (Rel_unlock lc) s = with_lock (Some \<circ> runlock) (Rel_copy lc) s"
| "act (Rel_copy lc) s = faulty (stm_releasecopy lc s) (Next [Released])"
| "act _ s = Blocked"

text \<open>The state is the memory and the threads.\<close>

record stm = memory +
  threads :: "thread list"

definition READER_LIMIT :: int where "READER_LIMIT = 0x20000000"

text \<open>A thread goes on, or one that is outside calls a function. Thread 0 is the writer.\<close>

definition put :: "nat \<Rightarrow> thread list \<Rightarrow> memory \<Rightarrow> stm \<Rightarrow> stm" where
  "put i ts s' s = memory.extend s' \<lparr>threads = (threads s)[i := hd ts] @ tl ts\<rparr>"

definition mem_of :: "stm \<Rightarrow> memory" where
  "mem_of s = memory.truncate s"

inductive stm_step :: "stm \<Rightarrow> stm \<Rightarrow> bool" where
  go_on: "i < length (threads s) \<Longrightarrow> act (threads s ! i) (mem_of s) = Next ts s' \<Longrightarrow> stm_step s (put i ts s' s)"
| lcopy: "i < length (threads s) \<Longrightarrow> threads s ! i = Writer \<Longrightarrow> int (length (threads s)) < READER_LIMIT \<Longrightarrow>
     stm_step s (put i [Grab_lock] (mem_of s) s)"
| lupdate: "i < length (threads s) \<Longrightarrow> threads s ! i = Writer \<Longrightarrow> copies s c = None \<Longrightarrow>
     stm_step s (put i [Upd_lock c] (stm_newcopy c m (mem_of s)) s)"
| ldeletewriter: "i < length (threads s) \<Longrightarrow> threads s ! i = Writer \<Longrightarrow> stm_step s (put i [Del_lock] (mem_of s) s)"
| lread: "i < length (threads s) \<Longrightarrow> threads s ! i = Reader lc \<Longrightarrow> stm_step s (put i [Read_lock lc] (mem_of s) s)"
| ldeletereader: "i < length (threads s) \<Longrightarrow> threads s ! i = Reader lc \<Longrightarrow> stm_step s (put i [Rel_lock lc] (mem_of s) s)"

definition stm_init :: "cref \<Rightarrow> byte list \<Rightarrow> stm" where
  "stm_init c m = memory.extend (stm_new c m) \<lparr>threads = [Writer]\<rparr>"

inductive stm_reachable :: "stm \<Rightarrow> bool" where
  init: "stm_reachable (stm_init c m)"
| step: "stm_reachable s \<Longrightarrow> stm_step s t \<Longrightarrow> stm_reachable t"

section \<open>The invariant\<close>

text \<open>What a thread holds: references to the object, the lock, and references to a version.\<close>

fun orefs :: "thread \<Rightarrow> nat" where
  "orefs Grab_unlock = 2"
| "orefs Del_unlock = 0"
| "orefs Deleted = 0"
| "orefs (Rel_unlock lc) = 0"
| "orefs (Rel_copy lc) = 0"
| "orefs Released = 0"
| "orefs _ = 1"

fun rlocks :: "thread \<Rightarrow> nat" where
  "rlocks Grab_section = 1"
| "rlocks Grab_unlock = 1"
| "rlocks (Read_section lc) = 1"
| "rlocks (Read_unlock lc c) = 1"
| "rlocks (Rel_section lc) = 1"
| "rlocks (Rel_unlock lc) = 1"
| "rlocks _ = 0"

fun wlocks :: "thread \<Rightarrow> nat" where
  "wlocks (Upd_section c) = 1"
| "wlocks (Upd_unlock old) = 1"
| "wlocks Del_section = 1"
| "wlocks Del_unlock = 1"
| "wlocks _ = 0"

definition at :: "cref \<Rightarrow> cref option \<Rightarrow> nat" where
  "at c p = (if p = Some c then 1 else 0)"

fun holds :: "cref \<Rightarrow> thread \<Rightarrow> nat" where
  "holds c (Upd_lock x) = at c (Some x)"
| "holds c (Upd_section x) = at c (Some x)"
| "holds c (Upd_unlock old) = at c old"
| "holds c (Upd_free old) = at c old"
| "holds c (Reader l) = at c l"
| "holds c (Read_lock l) = at c l"
| "holds c (Read_section l) = at c l"
| "holds c (Read_unlock l x) = at c l + at c x"
| "holds c (Read_compare l x) = at c l + at c x"
| "holds c (Using x) = at c (Some x)"
| "holds c (Rel_lock l) = at c l"
| "holds c (Rel_section l) = at c l"
| "holds c (Rel_unlock l) = at c l"
| "holds c (Rel_copy l) = at c l"
| "holds c _ = 0"

fun writes :: "thread \<Rightarrow> bool" where
  "writes Writer = True"
| "writes Grab_lock = True"
| "writes Grab_section = True"
| "writes Grab_unlock = True"
| "writes (Upd_lock c) = True"
| "writes (Upd_section c) = True"
| "writes (Upd_unlock old) = True"
| "writes (Upd_free old) = True"
| "writes Del_lock = True"
| "writes Del_section = True"
| "writes Del_unlock = True"
| "writes Deleted = True"
| "writes _ = False"

definition total :: "(thread \<Rightarrow> nat) \<Rightarrow> thread list \<Rightarrow> nat" where
  "total f ts = sum_list (map f ts)"

definition object_at :: "stm_object option \<Rightarrow> nat \<Rightarrow> nat \<Rightarrow> nat \<Rightarrow> thread \<Rightarrow> bool" where
  "object_at ob refs rs ws w =
     (case ob of
        None \<Rightarrow> refs = 0 \<and> w \<noteq> Del_unlock
      | Some x \<Rightarrow> oreference x = int refs \<and> 0 < refs \<and> readers (lock x) = rs \<and> ws = (if writer (lock x) then 1 else 0) \<and>
          (writer (lock x) \<longrightarrow> rs = 0) \<and> (ocopy x = None \<longleftrightarrow> w = Del_unlock \<or> w = Deleted))"

definition current :: "cref \<Rightarrow> stm_object option \<Rightarrow> nat" where
  "current c ob = (case ob of None \<Rightarrow> 0 | Some x \<Rightarrow> at c (ocopy x))"

definition copy_ok :: "stm_copy option \<Rightarrow> nat \<Rightarrow> bool" where
  "copy_ok k n = (case k of None \<Rightarrow> n = 0 | Some x \<Rightarrow> reference x = int n \<and> 0 < n)"

definition threads_ok :: "thread list \<Rightarrow> bool" where
  "threads_ok ts \<longleftrightarrow> ts \<noteq> [] \<and> writes (ts ! 0) \<and> (\<forall>i < length ts. 0 < i \<longrightarrow> \<not> writes (ts ! i))"

definition stm_inv :: "stm \<Rightarrow> bool" where
  "stm_inv s \<longleftrightarrow> threads_ok (threads s) \<and> object_at (obj s) (total orefs (threads s)) (total rlocks (threads s)) (total wlocks (threads s)) (threads s ! 0) \<and>
     (\<forall>c. copy_ok (copies s c) (total (holds c) (threads s) + current c (obj s)))"

section \<open>Every step keeps the invariant\<close>

lemma total_update: "i < length ts \<Longrightarrow> total f (ts[i := t]) + f (ts ! i) = total f ts + f t"
  unfolding total_def
proof (induction ts arbitrary: i)
  case (Cons x ts)
  then show ?case by (cases i) auto
qed simp

lemma total_append [simp]: "total f (ts @ us) = total f ts + total f us"
  by (simp add: total_def)

lemma total_simps [simp]: "total f [] = 0" "total f (t # ts) = f t + total f ts"
  by (simp_all add: total_def)

lemma total_ge: "i < length ts \<Longrightarrow> f (ts ! i) \<le> total f ts"
  unfolding total_def by (rule member_le_sum_list) simp_all

lemma put_simps [simp]:
  "threads (put i ts s' s) = (threads s)[i := hd ts] @ tl ts" "obj (put i ts s' s) = obj s'" "copies (put i ts s' s) = copies s'"
  by (simp_all add: put_def memory.extend_def)

lemma mem_of_simps [simp]: "obj (mem_of s) = obj s" "copies (mem_of s) = copies s"
  by (simp_all add: mem_of_def memory.truncate_def)

lemma threads_ok_update:
  assumes "threads_ok ts" "i < length ts" "writes t = writes (ts ! i)"
  shows "threads_ok (ts[i := t])" "threads_ok (ts[i := t] @ [Reader lc])"
  using assms unfolding threads_ok_def by (auto simp: nth_list_update nth_append less_Suc_eq)

lemma threads_ok_writer: "threads_ok ts \<Longrightarrow> i < length ts \<Longrightarrow> writes (ts ! i) = (i = 0)"
  unfolding threads_ok_def by (cases i) auto

lemma current_simps [simp]: "current c None = 0" "current c (Some x) = at c (ocopy x)"
  by (simp_all add: current_def)

lemma at_None [simp]: "at c None = 0"
  by (simp add: at_def)

lemma at_Some: "at c (Some d) = (if c = d then 1 else 0)"
  by (simp add: at_def)

lemma releasecopy_ok:
  assumes "\<And>c. copy_ok (copies s c) (n c + at c p)"
  shows "\<exists>s'. stm_releasecopy p s = Some s' \<and> obj s' = obj s \<and> (\<forall>c. copy_ok (copies s' c) (n c))"
proof (cases p)
  case None
  then show ?thesis using assms by (simp add: stm_releasecopy_def)
next
  case (Some c)
  then obtain k where k: "copies s c = Some k" "reference k = int (n c) + 1"
    using assms [of c] by (cases "copies s c") (auto simp: copy_ok_def at_Some)
  have other: "copy_ok (copies s d) (n d)" if "d \<noteq> c" for d using assms [of d] Some that by (simp add: at_Some)
  show ?thesis
  proof (cases "n c = 0")
    case True
    then show ?thesis using k Some other by (auto simp: stm_releasecopy_def copy_ok_def)
  next
    case False
    then show ?thesis using k Some other by (auto simp: stm_releasecopy_def copy_ok_def)
  qed
qed

text \<open>The other threads and the one that moves.\<close>

lemma others:
  assumes "i < length ts"
  shows "\<exists>r. (\<forall>f. total f ts = r f + f (ts ! i) \<and> (\<forall>t. total f (ts[i := t]) = r f + f t)) \<and> (0 < i \<longrightarrow> (\<forall>f. f (ts ! 0) \<le> r f))"
proof (intro exI [of _ "\<lambda>f. total f (take i ts) + total f (drop (Suc i) ts)"] allI conjI impI)
  fix f t
  have "ts = take i ts @ ts ! i # drop (Suc i) ts" using id_take_nth_drop [OF assms] .
  from arg_cong [OF this, of "total f"]
  show "total f ts = total f (take i ts) + total f (drop (Suc i) ts) + f (ts ! i)" by simp
  show "total f (ts[i := t]) = total f (take i ts) + total f (drop (Suc i) ts) + f t"
    using assms by (simp add: upd_conv_take_nth_drop)
next
  fix f
  assume "0 < i"
  then show "f (ts ! 0) \<le> total f (take i ts) + total f (drop (Suc i) ts)"
    using total_ge [of 0 "take i ts" f] assms by simp
qed

text \<open>The invariant seen by the thread that moves: \<open>r\<close> is what the others hold, \<open>w\<close> the writer.\<close>

definition copies_at :: "memory \<Rightarrow> (cref \<Rightarrow> nat) \<Rightarrow> bool" where
  "copies_at s n \<longleftrightarrow> (\<forall>c. copy_ok (copies s c) (n c + current c (obj s)))"

definition moves_ok :: "memory \<Rightarrow> ((thread \<Rightarrow> nat) \<Rightarrow> nat) \<Rightarrow> thread \<Rightarrow> thread \<Rightarrow> bool" where
  "moves_ok s r t w \<longleftrightarrow> object_at (obj s) (r orefs + orefs t) (r rlocks + rlocks t) (r wlocks + wlocks t) w \<and>
     (if writes t then w = t else writes w \<and> orefs w \<le> r orefs \<and> wlocks w \<le> r wlocks) \<and>
     copies_at s (\<lambda>c. r (holds c) + holds c t)"

lemma inv_moves:
  assumes "stm_inv s" "i < length (threads s)"
  shows "\<exists>r. moves_ok (mem_of s) r (threads s ! i) (threads s ! 0) \<and>
    (\<forall>t s'. writes t = writes (threads s ! i) \<longrightarrow> moves_ok s' r t (if writes t then t else threads s ! 0) \<longrightarrow>
       stm_inv (put i [t] s' s)) \<and>
    (\<forall>t s'. writes t = writes (threads s ! i) \<longrightarrow> moves_ok s' (\<lambda>f. r f + f (Reader None)) t (if writes t then t else threads s ! 0) \<longrightarrow>
       stm_inv (put i [t, Reader None] s' s))"
proof -
  let ?ts = "threads s"
  obtain r where r: "\<And>f. total f ?ts = r f + f (?ts ! i)" "\<And>f t. total f (?ts[i := t]) = r f + f t" "\<And>f. 0 < i \<Longrightarrow> f (?ts ! 0) \<le> r f"
    using others [OF assms(2)] by blast
  have ok: "threads_ok ?ts" using assms(1) by (simp add: stm_inv_def)
  note w = threads_ok_writer [OF ok assms(2)]
  have "writes (?ts ! 0)" using ok by (simp add: threads_ok_def)
  then have "moves_ok (mem_of s) r (?ts ! i) (?ts ! 0)"
    using assms(1) w r(3) by (simp add: moves_ok_def copies_at_def stm_inv_def r(1))
  moreover have first: "(?ts[i := t]) ! 0 = (if writes t then t else ?ts ! 0)" if "writes t = writes (?ts ! i)" for t
    using w that ok assms(2) by (simp add: threads_ok_def nth_list_update)
  moreover have "stm_inv (put i [t, Reader None] s' s)"
    if t: "writes t = writes (?ts ! i)" "moves_ok s' (\<lambda>f. r f + f (Reader None)) t (if writes t then t else ?ts ! 0)" for t s'
  proof -
    have "(?ts[i := t] @ [Reader None]) ! 0 = (?ts[i := t]) ! 0" using ok by (simp add: nth_append threads_ok_def)
    then show ?thesis using first [OF t(1)] t(2) threads_ok_update(2) [OF ok assms(2) t(1)]
      by (simp add: stm_inv_def moves_ok_def copies_at_def r(2) add_ac)
  qed
  moreover have "stm_inv (put i [t] s' s)" if t: "writes t = writes (?ts ! i)" "moves_ok s' r t (if writes t then t else ?ts ! 0)" for t s'
  proof -
    note first [OF t(1)]
    then show ?thesis using t(2) threads_ok_update(1) [OF ok assms(2) t(1)]
      by (simp add: stm_inv_def moves_ok_def copies_at_def r(2))
  qed
  ultimately show ?thesis by blast
qed

text \<open>The thread \<open>t\<close> has moved to the place \<open>us\<close>.\<close>

definition moved :: "memory \<Rightarrow> ((thread \<Rightarrow> nat) \<Rightarrow> nat) \<Rightarrow> thread \<Rightarrow> thread \<Rightarrow> thread list \<Rightarrow> bool" where
  "moved s' r t w us \<longleftrightarrow> tl us = [] \<and> us \<noteq> [] \<and> writes (hd us) = writes t \<and> moves_ok s' r (hd us) (if writes t then hd us else w)"

lemma alive: "moves_ok s r t w \<Longrightarrow> 0 < orefs t \<Longrightarrow> \<exists>x. obj s = Some x"
  by (cases "obj s") (auto simp: moves_ok_def object_at_def)

text \<open>A step that only changes the object, not the version it refers to.\<close>

lemma object_moved:
  assumes "moves_ok s r t w" "obj s = Some x" "ocopy x' = ocopy x" "writes t' = writes t" "\<forall>c. holds c t' = holds c t"
    and "oreference x' = int (r orefs + orefs t')" "0 < r orefs + orefs t'"
    and "readers (lock x') = r rlocks + rlocks t'" "r wlocks + wlocks t' = (if writer (lock x') then 1 else 0)"
    and "writer (lock x') \<longrightarrow> r rlocks + rlocks t' = 0"
    and "writes t \<Longrightarrow> (t' = Del_unlock \<or> t' = Deleted) = (t = Del_unlock \<or> t = Deleted)"
  shows "moved (s\<lparr>obj := Some x'\<rparr>) r t w [t']"
proof -
  have "copies_at (s\<lparr>obj := Some x'\<rparr>) (\<lambda>c. r (holds c) + holds c t')"
    using assms(1-3,5) by (simp add: moves_ok_def copies_at_def)
  then show ?thesis using assms by (simp add: moved_def moves_ok_def object_at_def)
qed

lemma object_facts:
  assumes "moves_ok s r t w" "obj s = Some x"
  shows "oreference x = int (r orefs + orefs t)" "0 < r orefs + orefs t" "readers (lock x) = r rlocks + rlocks t"
    "r wlocks + wlocks t = (if writer (lock x) then 1 else 0)" "writer (lock x) \<Longrightarrow> r rlocks + rlocks t = 0"
    "writes t \<Longrightarrow> w = t" "\<not> writes t \<Longrightarrow> writes w \<and> orefs w \<le> r orefs \<and> wlocks w \<le> r wlocks"
    "ocopy x = None \<longleftrightarrow> w = Del_unlock \<or> w = Deleted"
  using assms by (auto simp: moves_ok_def object_at_def split: if_splits)

lemma lock_moved:
  assumes "moves_ok s r t w" "with_lock f t' s = Next us s'" "writes t' = writes t" "\<forall>c. holds c t' = holds c t" "orefs t' = orefs t"
    and "\<And>l l'. f l = Some l' \<Longrightarrow> readers l = r rlocks + rlocks t \<Longrightarrow> r wlocks + wlocks t = (if writer l then 1 else 0) \<Longrightarrow>
       (writer l \<Longrightarrow> r rlocks + rlocks t = 0) \<Longrightarrow>
       readers l' = r rlocks + rlocks t' \<and> r wlocks + wlocks t' = (if writer l' then 1 else 0) \<and> (writer l' \<longrightarrow> r rlocks + rlocks t' = 0)"
    and "writes t \<Longrightarrow> (t' = Del_unlock \<or> t' = Deleted) = (t = Del_unlock \<or> t = Deleted)"
  shows "moved s' r t w us"
proof -
  obtain x l where x: "obj s = Some x" "f (lock x) = Some l" "us = [t']" "s' = s\<lparr>obj := Some (x\<lparr>lock := l\<rparr>)\<rparr>"
    using assms(2) by (auto simp: with_lock_def split: option.splits)
  note o = object_facts [OF assms(1) x(1)]
  have "readers l = r rlocks + rlocks t' \<and> r wlocks + wlocks t' = (if writer l then 1 else 0) \<and> (writer l \<longrightarrow> r rlocks + rlocks t' = 0)"
    by (rule assms(6) [OF x(2) o(3,4,5)])
  then show ?thesis unfolding x(3,4) using assms(3-5,7) o(1,2)
    by (intro object_moved [OF assms(1) x(1)]) simp_all
qed

lemmas lock_defs = rlock_def wlock_def runlock_def wunlock_def

lemma with_lock_Fault: "with_lock f t s = Fault \<longleftrightarrow> obj s = None"
  by (auto simp: with_lock_def split: option.splits)

lemma locks_moved:
  "moves_ok s r Grab_lock w \<Longrightarrow> with_lock rlock Grab_section s = Next us s' \<Longrightarrow> moved s' r Grab_lock w us"
  "moves_ok s r (Upd_lock c) w \<Longrightarrow> with_lock wlock (Upd_section c) s = Next us s' \<Longrightarrow> moved s' r (Upd_lock c) w us"
  "moves_ok s r (Upd_unlock old) w \<Longrightarrow> with_lock (Some \<circ> wunlock) (Upd_free old) s = Next us s' \<Longrightarrow> moved s' r (Upd_unlock old) w us"
  "moves_ok s r Del_lock w \<Longrightarrow> with_lock wlock Del_section s = Next us s' \<Longrightarrow> moved s' r Del_lock w us"
  "moves_ok s r Del_unlock w \<Longrightarrow> with_lock (Some \<circ> wunlock) Deleted s = Next us s' \<Longrightarrow> moved s' r Del_unlock w us"
  "moves_ok s r (Read_lock lc) w \<Longrightarrow> with_lock rlock (Read_section lc) s = Next us s' \<Longrightarrow> moved s' r (Read_lock lc) w us"
  "moves_ok s r (Read_unlock lc d) w \<Longrightarrow> with_lock (Some \<circ> runlock) (Read_compare lc d) s = Next us s' \<Longrightarrow> moved s' r (Read_unlock lc d) w us"
  "moves_ok s r (Rel_lock lc) w \<Longrightarrow> with_lock rlock (Rel_section lc) s = Next us s' \<Longrightarrow> moved s' r (Rel_lock lc) w us"
  "moves_ok s r (Rel_unlock lc) w \<Longrightarrow> with_lock (Some \<circ> runlock) (Rel_copy lc) s = Next us s' \<Longrightarrow> moved s' r (Rel_unlock lc) w us"
  by (erule lock_moved, assumption, auto simp: lock_defs split: if_splits)+

text \<open>A step that gives back a reference to a version.\<close>

lemma copies_moved:
  assumes "moves_ok s r t w" "\<forall>c. holds c t = holds c t' + at c p" "orefs t' = orefs t" "rlocks t' = rlocks t" "wlocks t' = wlocks t"
    and "writes t' = writes t" "writes t \<Longrightarrow> t \<notin> {Del_unlock, Deleted} \<and> t' \<notin> {Del_unlock, Deleted}"
  shows "\<exists>s'. stm_releasecopy p s = Some s' \<and> moved s' r t w [t']"
proof -
  have "copy_ok (copies s c) (r (holds c) + holds c t' + current c (obj s) + at c p)" for c
    using assms(1,2) by (simp add: moves_ok_def copies_at_def add_ac)
  from releasecopy_ok [of s, OF this] obtain s' where s': "stm_releasecopy p s = Some s'" "obj s' = obj s"
    "\<forall>c. copy_ok (copies s' c) (r (holds c) + holds c t' + current c (obj s))" by auto
  have "object_at (obj s) (r orefs + orefs t) (r rlocks + rlocks t) (r wlocks + wlocks t) (if writes t then t' else w)"
    using assms(1,7) by (auto simp: moves_ok_def object_at_def split: option.splits)
  then show ?thesis using s' assms by (auto simp: moved_def moves_ok_def copies_at_def)
qed

lemma grab_moved:
  assumes "moves_ok s r Grab_section w"
  shows "\<exists>s'. grab_section s = Some s' \<and> moved s' r Grab_section w [Grab_unlock]"
proof -
  obtain x where x: "obj s = Some x" using alive [OF assms] by auto
  note o = object_facts [OF assms x]
  have "moved (s\<lparr>obj := Some (x\<lparr>oreference := oreference x + 1\<rparr>)\<rparr>) r Grab_section w [Grab_unlock]"
    using o by (intro object_moved [OF assms x]) (auto split: if_splits)
  then show ?thesis using x o by (simp add: grab_section_def)
qed

lemma update_moved:
  assumes "moves_ok s r (Upd_section c) w"
  shows "\<exists>old s'. update_section c s = Some (old, s') \<and> moved s' r (Upd_section c) w [Upd_unlock old]"
proof -
  obtain x where x: "obj s = Some x" using alive [OF assms] by auto
  note o = object_facts [OF assms x]
  have "copies_at (s\<lparr>obj := Some (x\<lparr>ocopy := Some c\<rparr>)\<rparr>) (\<lambda>d. r (holds d) + holds d (Upd_unlock (ocopy x)))"
    using assms x by (simp add: moves_ok_def copies_at_def add_ac)
  then show ?thesis using assms x o by (simp add: update_section_def moved_def moves_ok_def object_at_def)
qed

lemma release_moved:
  assumes "moves_ok s r Del_section w"
  shows "\<exists>there s'. release_section s = Some (there, s') \<and> moved s' r Del_section w [if there then Del_unlock else Deleted]"
proof -
  obtain x where x: "obj s = Some x" using alive [OF assms] by auto
  note o = object_facts [OF assms x]
  have "copy_ok (copies s c) (r (holds c) + at c (ocopy x))" for c
    using assms x by (simp add: moves_ok_def copies_at_def)
  from releasecopy_ok [of s, OF this] obtain s1 where s1: "stm_releasecopy (ocopy x) s = Some s1" "obj s1 = obj s"
    "\<forall>c. copy_ok (copies s1 c) (r (holds c))" by auto
  show ?thesis
  proof (cases "0 < oreference x - 1")
    case True
    then have "moved (s1\<lparr>obj := Some (x\<lparr>ocopy := None, oreference := oreference x - 1\<rparr>)\<rparr>) r Del_section w [Del_unlock]"
      using o s1(3) by (simp add: moved_def moves_ok_def object_at_def copies_at_def)
    then show ?thesis using True x s1(1) by (auto simp: release_section_def)
  next
    case False
    then have "moved (s1\<lparr>obj := None\<rparr>) r Del_section w [Deleted]"
      using o s1(3) by (simp add: moved_def moves_ok_def object_at_def copies_at_def)
    then show ?thesis using False x s1(1) by (auto simp: release_section_def)
  qed
qed

lemma writer_gone: "writes w \<Longrightarrow> orefs w = 0 \<Longrightarrow> w = Del_unlock \<or> w = Deleted"
  by (cases w) auto

lemma reader_moved:
  assumes "moves_ok s r (Rel_section lc) w"
  shows "\<exists>there s'. reader_section s = Some (there, s') \<and> moved s' r (Rel_section lc) w [if there then Rel_unlock lc else Rel_copy lc]"
proof -
  obtain x where x: "obj s = Some x" using alive [OF assms] by auto
  note o = object_facts [OF assms x]
  show ?thesis
  proof (cases "oreference x - 1 = 0")
    case True
    then have r: "r orefs = 0" using o(1) by simp
    then have w: "w = Del_unlock \<or> w = Deleted" using o(7) writer_gone [of w] by simp
    have "\<not> writer (lock x)" using o(5) by auto
    then have "w \<noteq> Del_unlock" using o(4,7) by auto
    moreover have "ocopy x = None" using o(8) w by simp
    moreover have "copies_at (s\<lparr>obj := None\<rparr>) (\<lambda>c. r (holds c) + holds c (Rel_copy lc))"
      using assms x \<open>ocopy x = None\<close> by (simp add: moves_ok_def copies_at_def)
    ultimately have "moved (s\<lparr>obj := None\<rparr>) r (Rel_section lc) w [Rel_copy lc]"
      using r o(7) by (simp add: moved_def moves_ok_def object_at_def)
    then show ?thesis using True x \<open>ocopy x = None\<close>
      by (intro exI [of _ False] exI [of _ "s\<lparr>obj := None\<rparr>"]) (simp add: reader_section_def)
  next
    case False
    have "moved (s\<lparr>obj := Some (x\<lparr>oreference := oreference x - 1\<rparr>)\<rparr>) r (Rel_section lc) w [Rel_unlock lc]"
      using False o by (intro object_moved [OF assms x]) (auto split: if_splits)
    then show ?thesis using False x by (intro exI [of _ True]) (simp add: reader_section_def)
  qed
qed

lemma copy_moved:
  assumes "moves_ok s r (Read_section lc) w"
  shows "\<exists>c s'. copy_section s = Some (c, s') \<and> moved s' r (Read_section lc) w [Read_unlock lc c]"
proof -
  obtain x where x: "obj s = Some x" using alive [OF assms] by auto
  note o = object_facts [OF assms x]
  have cps: "copy_ok (copies s c) (r (holds c) + at c lc + at c (ocopy x))" for c
    using assms x by (simp add: moves_ok_def copies_at_def)
  show ?thesis
  proof (cases "ocopy x")
    case None
    then have "moved s r (Read_section lc) w [Read_unlock lc None]" using assms by (simp add: moved_def moves_ok_def)
    then show ?thesis using x None by (simp add: copy_section_def)
  next
    case (Some c)
    then obtain k where k: "copies s c = Some k" "reference k = int (r (holds c) + at c lc) + 1"
      using cps [of c] by (cases "copies s c") (auto simp: copy_ok_def at_Some)
    let ?s = "s\<lparr>copies := (copies s)(c \<mapsto> k\<lparr>reference := reference k + 1\<rparr>)\<rparr>"
    have "copies_at ?s (\<lambda>d. r (holds d) + holds d (Read_unlock lc (Some c)))"
      unfolding copies_at_def
    proof
      fix d
      show "copy_ok (copies ?s d) (r (holds d) + holds d (Read_unlock lc (Some c)) + current d (obj ?s))"
        using cps [of d] k x Some by (cases "d = c") (simp_all add: copy_ok_def at_Some)
    qed
    then have "moved ?s r (Read_section lc) w [Read_unlock lc (Some c)]" using assms by (simp add: moved_def moves_ok_def)
    then show ?thesis using x Some k by (simp add: copy_section_def)
  qed
qed

text \<open>Every thread that moves keeps the invariant, and the only fault is an unlock of the freed object at the
  end of \<^verbatim>\<open>stm_releasereader\<close>.\<close>

lemma using_alive: "moves_ok s r (Using c) w \<Longrightarrow> \<exists>k. copies s c = Some k"
  by (cases "copies s c") (auto simp: moves_ok_def copies_at_def copy_ok_def at_Some split: option.splits dest!: spec [of _ c])

lemma act_ok:
  assumes "moves_ok s r t w" "t \<noteq> Grab_unlock"
  shows "act t s = Next us s' \<Longrightarrow> moved s' r t w us" "act t s = Fault \<Longrightarrow> \<exists>lc. t = Rel_unlock lc \<and> obj s = None"
proof -
  have obj: "obj s \<noteq> None" if "0 < orefs t" using alive [OF assms(1) that] by auto
  have "(act t s = Next us s' \<longrightarrow> moved s' r t w us) \<and> (act t s = Fault \<longrightarrow> (\<exists>lc. t = Rel_unlock lc \<and> obj s = None))"
  proof (cases t)
    case Grab_lock
    then show ?thesis using locks_moved(1) assms(1) obj by (simp add: with_lock_Fault)
  next
    case Grab_section
    then show ?thesis using grab_moved [OF assms(1) [unfolded Grab_section]] by (auto simp: faulty_def)
  next
    case (Upd_lock c)
    then show ?thesis using locks_moved(2) assms(1) obj by (simp add: with_lock_Fault)
  next
    case (Upd_section c)
    then show ?thesis using update_moved [OF assms(1) [unfolded Upd_section]] by (auto simp: faulty_def)
  next
    case (Upd_unlock old)
    then show ?thesis using locks_moved(3) assms(1) obj by (simp add: with_lock_Fault)
  next
    case (Upd_free old)
    then show ?thesis using copies_moved [OF assms(1), of Writer old] by (auto simp: faulty_def)
  next
    case Del_lock
    moreover obtain x where x: "obj s = Some x" using obj Del_lock by auto
    moreover have "ocopy x \<noteq> None" using object_facts(6,8) [OF assms(1) x] Del_lock by simp
    ultimately show ?thesis using locks_moved(4) assms(1) by (simp add: with_lock_Fault)
  next
    case Del_section
    then show ?thesis using release_moved [OF assms(1) [unfolded Del_section]] by (auto simp: faulty_def)
  next
    case Del_unlock
    then have "obj s \<noteq> None" using assms(1) by (cases "obj s") (auto simp: moves_ok_def object_at_def)
    then show ?thesis using locks_moved(5) assms(1) Del_unlock by (simp add: with_lock_Fault)
  next
    case (Read_lock lc)
    then show ?thesis using locks_moved(6) assms(1) obj by (simp add: with_lock_Fault)
  next
    case (Read_section lc)
    then show ?thesis using copy_moved [OF assms(1) [unfolded Read_section]] by (auto simp: faulty_def)
  next
    case (Read_unlock lc c)
    then show ?thesis using locks_moved(7) assms(1) obj by (simp add: with_lock_Fault)
  next
    case (Read_compare lc c)
    show ?thesis
    proof (cases "c = lc")
      case True
      then show ?thesis using Read_compare copies_moved [OF assms(1), of "Reader lc" c] by (auto simp: faulty_def)
    next
      case False
      have "\<exists>s'. stm_releasecopy lc s = Some s' \<and> moved s' r t w [case c of None \<Rightarrow> Reader None | Some k \<Rightarrow> Using k]"
        using Read_compare by (intro copies_moved [OF assms(1)]) (auto split: option.splits)
      then show ?thesis using Read_compare False by (auto simp: faulty_def)
    qed
  next
    case (Using c)
    then show ?thesis using using_alive assms(1) by (fastforce simp: faulty_def moved_def moves_ok_def copies_at_def)
  next
    case (Rel_lock lc)
    then show ?thesis using locks_moved(8) assms(1) obj by (simp add: with_lock_Fault)
  next
    case (Rel_section lc)
    then show ?thesis using reader_moved [OF assms(1) [unfolded Rel_section]] by (auto simp: faulty_def)
  next
    case (Rel_unlock lc)
    then show ?thesis using locks_moved(9) assms(1) by (simp add: with_lock_Fault)
  next
    case (Rel_copy lc)
    then show ?thesis using copies_moved [OF assms(1), of Released lc] by (auto simp: faulty_def)
  qed (use assms(2) in simp_all)
  then show "act t s = Next us s' \<Longrightarrow> moved s' r t w us" "act t s = Fault \<Longrightarrow> \<exists>lc. t = Rel_unlock lc \<and> obj s = None" by auto
qed

lemma grab_spawns:
  assumes "moves_ok s r Grab_unlock w" "act Grab_unlock s = Next us s'"
  shows "us = [Writer, Reader None] \<and> moves_ok s' (\<lambda>f. r f + f (Reader None)) Writer Writer"
proof -
  have m: "moves_ok s (\<lambda>f. r f + f (Reader None)) Grab_section Grab_section"
    using assms(1) by (auto simp: moves_ok_def object_at_def copies_at_def split: option.splits)
  obtain vs where vs: "with_lock (Some \<circ> runlock) Writer s = Next vs s'" "us = vs @ [Reader None]"
    using assms(2) by (auto split: result.splits)
  have "moved s' (\<lambda>f. r f + f (Reader None)) Grab_section Grab_section vs"
    by (rule lock_moved [OF m vs(1)]) (auto simp: lock_defs split: if_splits)
  moreover have "vs = [Writer]" using vs(1) by (auto simp: with_lock_def split: option.splits)
  ultimately show ?thesis using vs(2) by (simp add: moved_def)
qed

lemma grab_no_fault: "moves_ok s r Grab_unlock w \<Longrightarrow> act Grab_unlock s \<noteq> Fault"
  using alive [of s r Grab_unlock w] with_lock_Fault [of "Some \<circ> runlock" Writer s] by (auto split: result.splits)

lemma call_ok:
  assumes "stm_inv s" "i < length (threads s)" "writes t = writes (threads s ! i)" "t \<notin> {Del_unlock, Deleted}"
    and "orefs t = orefs (threads s ! i)" "rlocks t = rlocks (threads s ! i)" "wlocks t = wlocks (threads s ! i)"
    and "\<forall>c. holds c t = holds c (threads s ! i)" "threads s ! i \<notin> {Del_unlock, Deleted}"
  shows "stm_inv (put i [t] (mem_of s) s)"
proof -
  obtain r where r: "moves_ok (mem_of s) r (threads s ! i) (threads s ! 0)"
    "\<forall>t s'. writes t = writes (threads s ! i) \<longrightarrow> moves_ok s' r t (if writes t then t else threads s ! 0) \<longrightarrow> stm_inv (put i [t] s' s)"
    using inv_moves [OF assms(1,2)] by blast
  have "moves_ok (mem_of s) r t (if writes t then t else threads s ! 0)"
    using r(1) assms(3-9) by (auto simp: moves_ok_def object_at_def split: option.splits)
  then show ?thesis using r(2) assms(3) by blast
qed

lemma stm_step_inv:
  assumes "stm_step s s'" "stm_inv s"
  shows "stm_inv s'"
  using assms(1)
proof cases
  case (go_on i us m)
  obtain r where r: "moves_ok (mem_of s) r (threads s ! i) (threads s ! 0)"
    "\<forall>t s'. writes t = writes (threads s ! i) \<longrightarrow> moves_ok s' r t (if writes t then t else threads s ! 0) \<longrightarrow> stm_inv (put i [t] s' s)"
    "\<forall>t s'. writes t = writes (threads s ! i) \<longrightarrow> moves_ok s' (\<lambda>f. r f + f (Reader None)) t (if writes t then t else threads s ! 0) \<longrightarrow>
       stm_inv (put i [t, Reader None] s' s)"
    using inv_moves [OF assms(2) go_on(2)] by blast
  show ?thesis
  proof (cases "threads s ! i = Grab_unlock")
    case True
    then show ?thesis using grab_spawns [of "mem_of s" r "threads s ! 0" us m] r(1,3) go_on(1,3) by simp
  next
    case False
    from act_ok(1) [OF r(1) False go_on(3)] have m: "moved m r (threads s ! i) (threads s ! 0) us" .
    then have "us = [hd us]" by (cases us) (auto simp: moved_def)
    moreover have "stm_inv (put i [hd us] m s)" using m r(2) by (simp add: moved_def)
    ultimately show ?thesis using go_on(1) by simp
  qed
next
  case (lupdate i c m)
  obtain r where r: "moves_ok (mem_of s) r (threads s ! i) (threads s ! 0)"
    "\<forall>t s'. writes t = writes (threads s ! i) \<longrightarrow> moves_ok s' r t (if writes t then t else threads s ! 0) \<longrightarrow> stm_inv (put i [t] s' s)"
    using inv_moves [OF assms(2) lupdate(2)] by blast
  have n: "copy_ok (copies s d) (r (holds d) + current d (obj s))" for d
    using r(1) lupdate(3) by (simp add: moves_ok_def copies_at_def)
  have "copies_at (stm_newcopy c m (mem_of s)) (\<lambda>d. r (holds d) + holds d (Upd_lock c))"
    unfolding copies_at_def
  proof
    fix d
    show "copy_ok (copies (stm_newcopy c m (mem_of s)) d) (r (holds d) + holds d (Upd_lock c) + current d (obj (stm_newcopy c m (mem_of s))))"
      using n [of d] n [of c] lupdate(4) by (cases "d = c") (simp_all add: stm_newcopy_def copy_ok_def at_Some)
  qed
  then have "moves_ok (stm_newcopy c m (mem_of s)) r (Upd_lock c) (Upd_lock c)"
    using r(1) lupdate(3) by (auto simp: moves_ok_def object_at_def stm_newcopy_def split: option.splits)
  then have "stm_inv (put i [Upd_lock c] (stm_newcopy c m (mem_of s)) s)" using r(2) lupdate(3) by simp
  then show ?thesis using lupdate(1) by (simp add: stm_inv_def)
qed (use call_ok [OF assms(2)] in simp_all)

lemma stm_init_inv: "stm_inv (stm_init c m)"
  by (auto simp: stm_inv_def stm_init_def stm_new_def stm_newcopy_def memory.extend_def threads_ok_def object_at_def lock_init_def copy_ok_def
      at_Some)

lemma stm_reachable_inv: "stm_reachable s \<Longrightarrow> stm_inv s"
proof (induction rule: stm_reachable.induct)
  case (init c m)
  show ?case by (rule stm_init_inv)
qed (rule stm_step_inv)

section \<open>The counts stay within int\<close>

fun grabbing :: "thread \<Rightarrow> bool" where
  "grabbing Grab_lock = True"
| "grabbing Grab_section = True"
| "grabbing Grab_unlock = True"
| "grabbing _ = False"

definition few_readers :: "stm \<Rightarrow> bool" where
  "few_readers s \<longleftrightarrow> int (length (threads s)) + (if grabbing (threads s ! 0) then 1 else 0) \<le> READER_LIMIT"

lemma with_lock_Next: "with_lock f t s = Next us s' \<Longrightarrow> us = [t] \<and> copies s' = copies s"
  by (auto simp: with_lock_def split: option.splits)

lemma act_spawns:
  assumes "act t s = Next us s'"
  shows "(\<exists>u. us = [u] \<and> (grabbing u \<longrightarrow> grabbing t)) \<or> (t = Grab_unlock \<and> us = [Writer, Reader None])"
  using assms by (cases t) (auto simp: faulty_def split: option.splits if_splits result.splits dest!: with_lock_Next)

lemma few_readers_put:
  assumes "stm_inv s" "few_readers s" "i < length (threads s)" "grabbing u \<longrightarrow> grabbing (threads s ! i)"
  shows "few_readers (put i [u] m s)"
  using assms by (cases "i = 0") (auto simp: few_readers_def split: if_splits)

lemma few_readers_step:
  assumes "stm_step s s'" "stm_inv s" "few_readers s"
  shows "few_readers s'"
  using assms(1)
proof cases
  case (go_on i us m)
  consider u where "us = [u]" "grabbing u \<longrightarrow> grabbing (threads s ! i)" | "threads s ! i = Grab_unlock" "us = [Writer, Reader None]"
    using act_spawns [OF go_on(3)] by blast
  then show ?thesis
  proof cases
    case 1
    then show ?thesis unfolding go_on(1) using few_readers_put [OF assms(2,3) go_on(2)] by blast
  next
    case 2
    have ok: "threads_ok (threads s)" using assms(2) by (simp add: stm_inv_def)
    have "i = 0" using threads_ok_writer [OF ok go_on(2)] 2(1) by simp
    moreover have "threads s \<noteq> []" using go_on(2) by auto
    ultimately show ?thesis unfolding go_on(1) 2(2) using assms(3) 2(1)
      by (simp add: few_readers_def nth_append)
  qed
next
  case (lcopy i)
  have ok: "threads_ok (threads s)" using assms(2) by (simp add: stm_inv_def)
  have "i = 0" using threads_ok_writer [OF ok lcopy(2)] lcopy(3) by simp
  then show ?thesis using lcopy by (simp add: few_readers_def)
qed (use few_readers_put [OF assms(2,3)] in simp_all)

lemma stm_reachable_few: "stm_reachable s \<Longrightarrow> few_readers s"
proof (induction rule: stm_reachable.induct)
  case (init c m)
  show ?case by (simp add: few_readers_def stm_init_def memory.extend_def READER_LIMIT_def)
next
  case (step s t)
  then show ?case using few_readers_step stm_reachable_inv by blast
qed

lemma total_le: "(\<And>t. f t \<le> 2) \<Longrightarrow> total f ts \<le> 2 * length ts"
proof (induction ts)
  case (Cons t ts)
  then have "f t \<le> 2" "total f ts \<le> 2 * length ts" by blast+
  then show ?case by simp
qed simp

lemma counts_fit:
  assumes "stm_reachable s"
  shows "obj s = Some x \<Longrightarrow> 0 < oreference x \<and> oreference x < 2 ^ 31"
    "copies s c = Some k \<Longrightarrow> 0 < reference k \<and> reference k < 2 ^ 31"
proof -
  have inv: "stm_inv s" by (rule stm_reachable_inv [OF assms])
  have few: "length (threads s) \<le> 2 ^ 29" using stm_reachable_few [OF assms] by (auto simp: few_readers_def READER_LIMIT_def split: if_splits)
  have "orefs t \<le> 2" for t by (cases t) simp_all
  then have o: "total orefs (threads s) \<le> 2 * length (threads s)" by (rule total_le)
  have "holds c t \<le> 2" for t by (cases t) (simp_all add: at_def)
  then have h: "total (holds c) (threads s) \<le> 2 * length (threads s)" by (rule total_le)
  have cur: "current c (obj s) \<le> 1" by (simp add: current_def at_def split: option.split)
  show "0 < oreference x \<and> oreference x < 2 ^ 31" if "obj s = Some x"
    using inv that o few by (simp add: stm_inv_def object_at_def)
  show "0 < reference k \<and> reference k < 2 ^ 31" if "copies s c = Some k"
  proof -
    have "copy_ok (copies s c) (total (holds c) (threads s) + current c (obj s))" using inv by (simp add: stm_inv_def)
    then have k: "reference k = int (total (holds c) (threads s) + current c (obj s))" "0 < total (holds c) (threads s) + current c (obj s)"
      using that by (simp_all add: copy_ok_def)
    have "total (holds c) (threads s) + current c (obj s) < 2 ^ 31" using h few cur by simp
    then show ?thesis unfolding k(1) using k(2) by (simp del: of_nat_add)
  qed
qed

section \<open>A version that is held stays as it is\<close>

text \<open>The data of a version: all but its count.\<close>

definition same_data :: "stm_copy option \<Rightarrow> stm_copy option \<Rightarrow> bool" where
  "same_data k k' \<longleftrightarrow> (case (k, k') of (Some x, Some y) \<Rightarrow> copy_sz y = copy_sz x \<and> msg y = msg x | _ \<Rightarrow> True)"

lemma same_data_refl: "same_data k k"
  by (simp add: same_data_def split: option.split)

lemma releasecopy_data: "stm_releasecopy p s = Some s' \<Longrightarrow> same_data (copies s c) (copies s' c)"
  by (auto simp: stm_releasecopy_def same_data_def split: option.splits if_splits)

lemma act_data:
  assumes "act t s = Next us s'"
  shows "same_data (copies s c) (copies s' c)"
proof (cases t)
  case Del_section
  then show ?thesis using assms releasecopy_data [of _ s _ c]
    by (auto simp: faulty_def release_section_def split: option.splits if_splits)
next
  case (Read_section l)
  then show ?thesis using assms
    by (auto simp: faulty_def copy_section_def assert_c_def same_data_def split: option.splits if_splits)
qed (use assms same_data_refl in
  \<open>auto simp: faulty_def update_section_def reader_section_def grab_section_def assert_c_def
     split: option.splits if_splits result.splits dest!: with_lock_Next intro: releasecopy_data\<close>)

lemma step_data:
  assumes "stm_step s s'"
  shows "same_data (copies s c) (copies s' c)"
  using assms
proof cases
  case (go_on i us m)
  then show ?thesis using act_data [OF go_on(3), of c] by simp
next
  case (lupdate i d m)
  then show ?thesis by (cases "c = d") (simp_all add: stm_newcopy_def same_data_refl, simp add: same_data_def)
qed (simp_all add: same_data_refl)

lemma held_alive:
  assumes "stm_inv s" "i < length (threads s)" "0 < holds c (threads s ! i)"
  shows "\<exists>k. copies s c = Some k"
proof -
  have "copy_ok (copies s c) (total (holds c) (threads s) + current c (obj s))" using assms(1) by (simp add: stm_inv_def)
  moreover have "0 < total (holds c) (threads s)" using total_ge [OF assms(2), of "holds c"] assms(3) by linarith
  ultimately show ?thesis by (cases "copies s c") (auto simp: copy_ok_def)
qed

lemma step_grows:
  assumes "stm_step s s'"
  shows "length (threads s) \<le> length (threads s')"
  using assms by cases simp_all

section \<open>Runs\<close>

text \<open>A schedule: the thread and, for a thread that is outside, the function it calls.\<close>

datatype call = Go | Copy | Update cref "byte list" | Delete | Read | Drop

definition run_step :: "nat \<times> call \<Rightarrow> stm \<Rightarrow> stm option" where
  "run_step ic s =
     (case ic of (i, c) \<Rightarrow>
        if i < length (threads s)
        then case (c, threads s ! i) of
               (Go, t) \<Rightarrow> (case act t (mem_of s) of Next us m \<Rightarrow> Some (put i us m s) | _ \<Rightarrow> None)
             | (Copy, Writer) \<Rightarrow>
                 if int (length (threads s)) < READER_LIMIT then Some (put i [Grab_lock] (mem_of s) s) else None
             | (Update k m, Writer) \<Rightarrow>
                 (case copies s k of
                    None \<Rightarrow> Some (put i [Upd_lock k] (stm_newcopy k m (mem_of s)) s)
                  | Some _ \<Rightarrow> None)
             | (Delete, Writer) \<Rightarrow> Some (put i [Del_lock] (mem_of s) s)
             | (Read, Reader l) \<Rightarrow> Some (put i [Read_lock l] (mem_of s) s)
             | (Drop, Reader l) \<Rightarrow> Some (put i [Rel_lock l] (mem_of s) s)
             | _ \<Rightarrow> None
        else None)"

fun run :: "(nat \<times> call) list \<Rightarrow> stm \<Rightarrow> stm option" where
  "run [] s = Some s"
| "run (x # xs) s = Option.bind (run_step x s) (run xs)"

lemma run_step_sound: "run_step x s = Some t \<Longrightarrow> stm_step s t"
  unfolding run_step_def
  by (auto split: prod.splits if_splits call.splits thread.splits option.splits result.splits intro: stm_step.intros)

lemma run_reachable: "run xs s = Some t \<Longrightarrow> stm_reachable s \<Longrightarrow> stm_reachable t"
  by (induction xs arbitrary: s) (auto dest: run_step_sound intro: stm_reachable.step)

lemma run_init: "run xs (stm_init 0 [1]) = Some s \<Longrightarrow> stm_reachable s"
  by (rule run_reachable [OF _ stm_reachable.init])

text \<open>Two readers; the writer is deleted; the readers are deleted at the same time.\<close>

definition race :: "(nat \<times> call) list" where
  "race = [(0, Copy), (0, Go), (0, Go), (0, Go), (0, Copy), (0, Go), (0, Go), (0, Go), (0, Delete), (0, Go), (0, Go), (0, Go),
           (1, Drop), (1, Go), (2, Drop), (2, Go), (1, Go), (2, Go)]"

lemma race_run: "case run race (stm_init 0 [1]) of None \<Rightarrow> False | Some s \<Rightarrow> threads s = [Deleted, Rel_unlock None, Rel_copy None] \<and> obj s = None"
  by code_simp

lemma race_state: "\<exists>s. stm_reachable s \<and> threads s = [Deleted, Rel_unlock None, Rel_copy None] \<and> obj s = None"
  using race_run run_init [of race] by (auto split: option.splits)

text \<open>A reader has the first version while the writer puts the second in its place.\<close>

definition second_read :: "(nat \<times> call) list" where
  "second_read = [(0, Copy), (0, Go), (0, Go), (0, Go), (1, Read), (1, Go), (1, Go), (1, Go), (1, Go),
                  (0, Update 1 [2]), (0, Go), (0, Go), (0, Go)]"

lemma second_read_run: "case run second_read (stm_init 0 [1]) of None \<Rightarrow> False
    | Some s \<Rightarrow> threads s = [Upd_free (Some 0), Using 0] \<and> map_option msg (copies s 0) = Some [1] \<and>
       (case run_step (0, Go) s of None \<Rightarrow> False
        | Some t \<Rightarrow> threads t = [Writer, Using 0])"
  by code_simp

definition deletion :: "(nat \<times> call) list" where
  "deletion = [(0, Delete), (0, Go), (0, Go)]"

lemma deletion_run: "case run deletion (stm_init 0 [1]) of None \<Rightarrow> False | Some s \<Rightarrow> threads s = [Deleted]"
  by code_simp

section \<open>What the reference counts give\<close>

text \<open>(C24) Whatever the interleaving of one writer with its readers, no thread touches freed memory and
  no assertion fails, with one exception: a reader that has given up its reference in \<^verbatim>\<open>stm_releasereader\<close>
  unlocks an object that another reader has freed in between.\<close>

theorem stm_only_fault:
  assumes "stm_reachable s" "i < length (threads s)" "act (threads s ! i) (mem_of s) = Fault"
  shows "\<exists>lc. threads s ! i = Rel_unlock lc \<and> obj s = None"
proof -
  obtain r where r: "moves_ok (mem_of s) r (threads s ! i) (threads s ! 0)"
    using inv_moves [OF stm_reachable_inv [OF assms(1)] assms(2)] by blast
  then have "threads s ! i \<noteq> Grab_unlock" using grab_no_fault assms(3) by auto
  then show ?thesis using act_ok(2) [OF r _ assms(3)] by simp
qed

theorem stm_only_fault_witness:
  "\<exists>s. stm_reachable s \<and> act (threads s ! 1) (mem_of s) = Fault \<and> (\<exists>lc. threads s ! 1 = Rel_unlock lc)"
proof -
  obtain s where s: "stm_reachable s" "threads s = [Deleted, Rel_unlock None, Rel_copy None]" "obj s = None"
    using race_state by blast
  moreover have "act (threads s ! 1) (mem_of s) = Fault" using s by (simp add: with_lock_def)
  ultimately show ?thesis using stm_only_fault [of s 1] by auto
qed

text \<open>(C27) When the writer and all the readers are deleted, the object and all its versions are freed.\<close>

theorem stm_no_leak:
  assumes "stm_reachable s" "set (threads s) \<subseteq> {Deleted, Released}"
  shows "obj s = None \<and> (\<forall>c. copies s c = None)"
proof -
  have inv: "stm_inv s" by (rule stm_reachable_inv [OF assms(1)])
  have z: "total f (threads s) = 0" if "f Deleted = 0" "f Released = 0" for f
    using assms(2) that unfolding total_def by (induction "threads s") (auto simp: sum_list_eq_0_iff)
  have "obj s = None" using inv z [of orefs] by (cases "obj s") (auto simp: stm_inv_def object_at_def)
  moreover have "\<forall>c. copies s c = None"
  proof
    fix c
    have "total (holds c) (threads s) = 0" by (rule z) simp_all
    moreover have "copy_ok (copies s c) (total (holds c) (threads s) + current c (obj s))" using inv by (simp add: stm_inv_def)
    ultimately have "copy_ok (copies s c) 0" using \<open>obj s = None\<close> by simp
    then show "copies s c = None" by (cases "copies s c") (auto simp: copy_ok_def)
  qed
  ultimately show ?thesis by simp
qed

theorem stm_no_leak_witness: "\<exists>s. stm_reachable s \<and> threads s = [Deleted] \<and> obj s = None"
proof -
  obtain s where s: "stm_reachable s" "threads s = [Deleted]" using deletion_run run_init [of deletion] by (auto split: option.splits)
  then show ?thesis using stm_no_leak [of s] by auto
qed

text \<open>(C25) While a thread has a version in hand, as the last one it has read, as the one its callback is reading or as the
  one it is about to give back, no step of any thread frees it or changes its data: an address that a reader remembers is
  not used again for another version, so that comparing addresses tells whether there is a new one.\<close>

theorem stm_held_stable:
  assumes "stm_reachable s" "stm_step s t" "i < length (threads s)"
    "0 < holds c (threads s ! i)" "0 < holds c (threads t ! i)"
  shows "\<exists>k k'. copies s c = Some k \<and> copies t c = Some k' \<and> copy_sz k' = copy_sz k \<and> msg k' = msg k"
proof -
  have inv: "stm_inv s" by (rule stm_reachable_inv [OF assms(1)])
  have "i < length (threads t)" using step_grows [OF assms(2)] assms(3) by simp
  then obtain k k' where "copies s c = Some k" "copies t c = Some k'"
    using held_alive [OF inv assms(3,4)] held_alive [OF stm_step_inv [OF assms(2) inv] _ assms(5)] by blast
  then show ?thesis using step_data [OF assms(2), of c] by (simp add: same_data_def)
qed

theorem stm_held_stable_witness:
  "\<exists>s t k. stm_reachable s \<and> stm_step s t \<and> threads s = [Upd_free (Some 0), Using 0] \<and> threads t = [Writer, Using 0] \<and>
     copies t 0 = Some k \<and> msg k = [1]"
proof -
  obtain s t where s: "stm_reachable s" "stm_step s t" "threads s = [Upd_free (Some 0), Using 0]" "threads t = [Writer, Using 0]"
    "map_option msg (copies s 0) = Some [1]"
  proof -
    obtain u where u: "run second_read (stm_init 0 [1]) = Some u" using second_read_run by (auto split: option.splits)
    then obtain v where "run_step (0, Go) u = Some v" using second_read_run by (auto split: option.splits)
    then show thesis using that [of u v] u second_read_run run_init [OF u] run_step_sound by simp
  qed
  have "\<exists>k k'. copies s 0 = Some k \<and> copies t 0 = Some k' \<and> copy_sz k' = copy_sz k \<and> msg k' = msg k"
    by (rule stm_held_stable [OF s(1,2), of 1]) (simp_all add: s(3,4) at_def)
  then obtain k where "copies t 0 = Some k" "msg k = [1]" using s(5) by auto
  then show ?thesis using s(1-4) by blast
qed

end
