(* ===== verification/Harbor_Queue.thy ===== *)
theory Harbor_Queue
  imports Node Fifo
begin

text \<open>
  The containers of the harbor service, the first part of \<^verbatim>\<open>src/ztask/server/service_harbor.c\<close>: the
  ring buffers in which messages to other nodes wait (\<^verbatim>\<open>struct harbor_msg_queue\<close>) and the hash map from
  global names to handles (\<^verbatim>\<open>struct hashmap\<close>), where a name that is not known yet has a queue of its own.

  A ring always keeps one cell free and doubles when it is full; it is proved to meet the contract of
  theory Fifo. The loops \<^verbatim>\<open>while ((m = pop_queue(queue)) != NULL)\<close> of the file are \<open>drain\<close>, which does not
  return in HOL when the loop does not end; on a well-formed queue it is a walk through the contents.
\<close>

section \<open>Ring buffers of messages\<close>

record harbor_header =
  hdr_source :: u32
  hdr_destination :: u32
  hdr_session :: u32

record harbor_msg =
  hm_header :: harbor_header
  hm_buffer :: ptr
  hm_size :: u64

record harbor_msg_queue =
  hq_size :: nat
  hq_head :: nat
  hq_tail :: nat
  hq_data :: "harbor_msg option list"

definition DEFAULT_HARBOR_QUEUE :: nat where "DEFAULT_HARBOR_QUEUE = 1024"

definition new_queue :: harbor_msg_queue where
  "new_queue = \<lparr>hq_size = DEFAULT_HARBOR_QUEUE, hq_head = 0, hq_tail = 0, hq_data = replicate DEFAULT_HARBOR_QUEUE None\<rparr>"

text \<open>A full ring moves to an array of twice the size; \<^verbatim>\<open>queue->size * 2\<close> is computed in \<^verbatim>\<open>int\<close>.\<close>

definition grow_queue :: "harbor_msg_queue \<Rightarrow> harbor_msg_queue option" where
  "grow_queue q =
     (if hq_size q * 2 < 2 ^ 31
      then Some (q\<lparr>hq_data := map (\<lambda>i. hq_data q ! ((i + hq_head q) mod hq_size q)) [0..<hq_size q - 1] @
                              replicate (hq_size q + 1) None,
                   hq_head := 0, hq_tail := hq_size q - 1, hq_size := hq_size q * 2\<rparr>)
      else None)"

definition push_queue_msg :: "harbor_msg \<Rightarrow> harbor_msg_queue \<Rightarrow> harbor_msg_queue option" where
  "push_queue_msg m q =
     do { q1 \<leftarrow> (if (hq_tail q + 1) mod hq_size q = hq_head q then grow_queue q else Some q);
          cells \<leftarrow> array_set (hq_data q1) (hq_tail q1) (Some m);
          Some (q1\<lparr>hq_data := cells, hq_tail := (hq_tail q1 + 1) mod hq_size q1\<rparr>) }"

definition push_queue :: "ptr \<Rightarrow> u64 \<Rightarrow> harbor_header \<Rightarrow> harbor_msg_queue \<Rightarrow> harbor_msg_queue option" where
  "push_queue buffer sz header q = push_queue_msg \<lparr>hm_header = header, hm_buffer = buffer, hm_size = sz\<rparr> q"

definition pop_queue :: "harbor_msg_queue \<Rightarrow> (harbor_msg option \<times> harbor_msg_queue) option" where
  "pop_queue q =
     (if hq_head q = hq_tail q then Some (None, q)
      else do { cell \<leftarrow> array_get (hq_data q) (hq_head q);
                slot \<leftarrow> cell;
                Some (Some slot, q\<lparr>hq_head := (hq_head q + 1) mod hq_size q\<rparr>) })"

text \<open>The loop that empties a queue; \<open>f\<close> is its body, which acts on a state of its own.\<close>

partial_function (option) drain ::
  "(harbor_msg \<Rightarrow> 's \<Rightarrow> 's option) \<Rightarrow> harbor_msg_queue \<Rightarrow> 's \<Rightarrow> (harbor_msg_queue \<times> 's) option" where
  "drain f q s =
     do { (r, q1) \<leftarrow> pop_queue q;
          (case r of
             None \<Rightarrow> Some (q1, s)
           | Some m \<Rightarrow> do { s1 \<leftarrow> f m s; drain f q1 s1 }) }"

text \<open>Well-formed queues and what they hold.\<close>

definition hq_cells :: "harbor_msg_queue \<Rightarrow> harbor_msg option list" where
  "hq_cells q = ring_list (hq_data q) (hq_head q) (hq_tail q)"

definition hq_ok :: "harbor_msg_queue \<Rightarrow> bool" where
  "hq_ok q \<longleftrightarrow> 2 \<le> hq_size q \<and> length (hq_data q) = hq_size q \<and> hq_head q < hq_size q \<and> hq_tail q < hq_size q \<and>
     None \<notin> set (hq_cells q)"

definition hq_contents :: "harbor_msg_queue \<Rightarrow> harbor_msg list" where
  "hq_contents q = map the (hq_cells q)"

definition hq_room :: "harbor_msg_queue \<Rightarrow> bool" where
  "hq_room q \<longleftrightarrow> Suc (length (hq_contents q)) < hq_size q \<or> hq_size q * 2 < 2 ^ 31"

lemma new_queue_ok: "hq_ok new_queue" "hq_contents new_queue = []" "hq_room new_queue"
  by (simp_all add: hq_ok_def hq_contents_def hq_cells_def hq_room_def new_queue_def ring_list_empty DEFAULT_HARBOR_QUEUE_def)

lemma mod_suc: "(t::nat) < c \<Longrightarrow> Suc t mod c = (if c \<le> t + 1 then 0 else t + 1)"
  by (simp add: mod_if)

lemma hq_cells_length: "hq_ok q \<Longrightarrow> length (hq_cells q) < hq_size q"
  by (auto simp: hq_ok_def hq_cells_def ring_list_def ring_len_def)

lemma grow_queue_ok:
  assumes ok: "hq_ok q" and full: "(hq_tail q + 1) mod hq_size q = hq_head q" and room: "hq_size q * 2 < 2 ^ 31"
  shows "\<exists>g. grow_queue q = Some g \<and> hq_ok g \<and> hq_cells g = hq_cells q \<and> (hq_tail g + 1) mod hq_size g \<noteq> hq_head g \<and>
    hq_size g = hq_size q * 2"
proof -
  let ?c = "hq_size q"
  note o = ok [unfolded hq_ok_def]
  have "ring_len (hq_head q) (hq_tail q) ?c = ?c - 1"
    using full o mod_suc [of "hq_tail q" ?c] by (auto simp: ring_len_def split: if_splits)
  then have cells: "hq_cells q = map (\<lambda>i. hq_data q ! ((i + hq_head q) mod ?c)) [0..<?c - 1]" (is "_ = ?d")
    using o by (simp add: hq_cells_def ring_list_def ring_cells_def add.commute)
  let ?g = "q\<lparr>hq_data := ?d @ replicate (?c + 1) None, hq_head := 0, hq_tail := ?c - 1, hq_size := ?c * 2\<rparr>"
  have g: "grow_queue q = Some ?g" using room by (simp add: grow_queue_def)
  have "ring_len 0 (?c - 1) (length (?d @ replicate (?c + 1) None)) = ?c - 1" by (simp add: ring_len_def)
  then have cg: "hq_cells ?g = ?d"
    by (simp add: hq_cells_def ring_list_def ring_cells_whole)
  moreover have "None \<notin> set ?d" using o cells by simp
  then have "hq_ok ?g" using o cg by (auto simp: hq_ok_def)
  ultimately show ?thesis using g cells o by (intro exI [of _ ?g]) simp
qed

lemma store_ok:
  fixes m :: harbor_msg
  assumes ok: "hq_ok q" and free: "(hq_tail q + 1) mod hq_size q \<noteq> hq_head q"
    and q': "q' = q\<lparr>hq_data := (hq_data q)[hq_tail q := Some m], hq_tail := (hq_tail q + 1) mod hq_size q\<rparr>"
  shows "hq_cells q' = hq_cells q @ [Some m]" "hq_ok q'"
proof -
  note o = ok [unfolded hq_ok_def]
  show c: "hq_cells q' = hq_cells q @ [Some m]"
    using ring_list_push(1) [of "hq_head q" "hq_data q" "hq_tail q" "Some m"] o free
    by (auto simp: q' hq_cells_def mod_suc split: if_splits)
  have "(hq_tail q + 1) mod hq_size q < hq_size q" using o by (intro mod_less_divisor) simp
  then show "hq_ok q'" using o c by (simp add: hq_ok_def q')
qed

lemma push_queue_msg_ok:
  assumes ok: "hq_ok q" and room: "hq_room q"
  shows "\<exists>q'. push_queue_msg m q = Some q' \<and> hq_ok q' \<and> hq_contents q' = hq_contents q @ [m] \<and> hq_size q \<le> hq_size q'"
proof (cases "(hq_tail q + 1) mod hq_size q = hq_head q")
  case True
  note o = ok [unfolded hq_ok_def]
  have "length (hq_contents q) = hq_size q - 1"
    using True o mod_suc [of "hq_tail q" "hq_size q"]
    by (auto simp: hq_contents_def hq_cells_def ring_list_def ring_len_def split: if_splits)
  then have "hq_size q * 2 < 2 ^ 31" using room o unfolding hq_room_def by linarith
  then obtain g where g: "grow_queue q = Some g" "hq_ok g" "hq_cells g = hq_cells q"
      "(hq_tail g + 1) mod hq_size g \<noteq> hq_head g" "hq_size g = hq_size q * 2"
    using grow_queue_ok [OF ok True] by blast
  from store_ok [OF g(2,4) refl, of m] g True show ?thesis
    by (simp add: push_queue_msg_def hq_contents_def hq_ok_def)
next
  case False
  with store_ok [OF ok False refl, of m] ok show ?thesis
    by (simp add: push_queue_msg_def hq_contents_def hq_ok_def)
qed

lemma pop_queue_ok:
  assumes ok: "hq_ok q"
  shows "\<exists>q'. pop_queue q = Some (case hq_contents q of [] \<Rightarrow> None | m # _ \<Rightarrow> Some m, q') \<and>
    hq_ok q' \<and> hq_contents q' = tl (hq_contents q) \<and> hq_size q' = hq_size q"
proof (cases "hq_head q = hq_tail q")
  case True
  then show ?thesis using ok by (auto simp: pop_queue_def hq_contents_def hq_cells_def ring_list_empty)
next
  case False
  note o = ok [unfolded hq_ok_def]
  let ?q = "q\<lparr>hq_head := (hq_head q + 1) mod hq_size q\<rparr>"
  have c: "hq_cells q = hq_data q ! hq_head q # hq_cells ?q"
    using ring_list_pop [of "hq_head q" "hq_data q" "hq_tail q"] o False
    by (auto simp: hq_cells_def mod_suc)
  then obtain m where m: "hq_data q ! hq_head q = Some m" using o by (cases "hq_data q ! hq_head q") auto
  have "(hq_head q + 1) mod hq_size q < hq_size q" using o by (intro mod_less_divisor) simp
  then have "hq_ok ?q" using o c by (auto simp: hq_ok_def)
  then show ?thesis using c m o False by (simp add: pop_queue_def hq_contents_def)
qed

section \<open>The queue as a bounded queue\<close>

definition HARBOR_QUEUE_LIMIT :: nat where "HARBOR_QUEUE_LIMIT = 2 ^ 30 - 1"

lemma hq_room_limit: "length (hq_contents q) < HARBOR_QUEUE_LIMIT \<Longrightarrow> hq_room q"
  by (auto simp: hq_room_def HARBOR_QUEUE_LIMIT_def)

interpretation hq: bounded_fifo hq_ok hq_contents HARBOR_QUEUE_LIMIT push_queue_msg pop_queue
proof unfold_locales
  fix q m
  assume "hq_ok q" "length (hq_contents q) < HARBOR_QUEUE_LIMIT"
  from push_queue_msg_ok [OF this(1) hq_room_limit [OF this(2)], of m]
  show "\<exists>q'. push_queue_msg m q = Some q' \<and> hq_ok q' \<and> hq_contents q' = hq_contents q @ [m]" by blast
next
  fix q
  assume "hq_ok q"
  from pop_queue_ok [OF this]
  show "\<exists>q'. pop_queue q = Some (case hq_contents q of [] \<Rightarrow> None | m # _ \<Rightarrow> Some m, q') \<and>
      hq_ok q' \<and> hq_contents q' = tl (hq_contents q)" by blast
qed

text \<open>A loop that empties a well-formed queue ends and is a walk through the contents.\<close>

primrec walk :: "(harbor_msg \<Rightarrow> 's \<Rightarrow> 's option) \<Rightarrow> harbor_msg list \<Rightarrow> 's \<Rightarrow> 's option" where
  "walk f [] s = Some s"
| "walk f (m # ms) s = do { s1 \<leftarrow> f m s; walk f ms s1 }"

lemma walk_append: "walk f (xs @ ys) s = Option.bind (walk f xs s) (walk f ys)"
proof (induction xs arbitrary: s)
  case (Cons x xs)
  then show ?case by (cases "f x s") simp_all
qed simp

lemma drain_walk:
  assumes "hq_ok q"
  shows "\<exists>q'. hq_ok q' \<and> hq_contents q' = [] \<and> drain f q s = map_option (Pair q') (walk f (hq_contents q) s)"
  using assms
proof (induction "hq_contents q" arbitrary: q s)
  case Nil
  then show ?case by (auto elim: hq.deq_cases simp: drain.simps [of f q s])
next
  case (Cons m ms)
  from Cons.prems obtain q1 where q1: "pop_queue q = Some (Some m, q1)" "hq_ok q1" "hq_contents q1 = ms"
    using Cons.hyps(2) by (auto elim: hq.deq_cases)
  show ?case
  proof (cases "f m s")
    case None
    have "hq_ok new_queue \<and> hq_contents new_queue = []" by (simp add: new_queue_ok)
    with None show ?thesis using q1(1) Cons.hyps(2) [symmetric] by (auto simp: drain.simps [of f q s])
  next
    case (Some s1)
    then show ?thesis
      using Cons.hyps(1) [OF q1(3) [symmetric] q1(2), of s1] q1(1,3) Cons.hyps(2) [symmetric]
      by (auto simp: drain.simps [of f q s])
  qed
qed

section \<open>The hash map of global names\<close>

text \<open>
  A name is 16 characters, padded with zeros; \<^verbatim>\<open>ptr[i]\<close> are its four words. Nodes live at addresses of
  their own, so that the pointer that a search returns stays the same when the chain changes.
\<close>

definition HASH_SIZE :: nat where "HASH_SIZE = 4096"

record keyvalue =
  kv_key :: string
  kv_hash :: u32
  kv_value :: u32
  kv_queue :: "harbor_msg_queue option"

type_synonym kvref = nat

record hashmap =
  hm_node :: "nat \<Rightarrow> kvref list"
  hm_kv :: "kvref \<Rightarrow> keyvalue option"
  hm_brk :: kvref

definition hash_new :: hashmap where
  "hash_new = \<lparr>hm_node = (\<lambda>i. []), hm_kv = (\<lambda>a. None), hm_brk = 0\<rparr>"

definition name_word :: "string \<Rightarrow> nat \<Rightarrow> u32" where
  "name_word key i =
     (let b = (\<lambda>k. of_nat (code_of (key ! (4 * i + k))) :: u32)
      in b 0 OR push_bit 8 (b 1) OR push_bit 16 (b 2) OR push_bit 24 (b 3))"

definition name_hash :: "string \<Rightarrow> u32" where
  "name_hash key = name_word key 0 XOR name_word key 1 XOR name_word key 2 XOR name_word key 3"

text \<open>\<^verbatim>\<open>strncmp(a, b, GLOBALNAME_LENGTH) == 0\<close>: the same up to the first zero or to 16 characters.\<close>

definition c_prefix :: "string \<Rightarrow> string" where
  "c_prefix s = takeWhile (\<lambda>c. c \<noteq> CHR 0x00) (take GLOBALNAME_LENGTH s)"

definition same_name :: "string \<Rightarrow> string \<Rightarrow> bool" where
  "same_name a b \<longleftrightarrow> c_prefix a = c_prefix b"

fun chain_search :: "(kvref \<Rightarrow> keyvalue option) \<Rightarrow> u32 \<Rightarrow> string \<Rightarrow> kvref list \<Rightarrow> kvref option option" where
  "chain_search kv h key [] = Some None"
| "chain_search kv h key (a # as) =
     do { node \<leftarrow> kv a;
          if kv_hash node = h \<and> same_name (kv_key node) key then Some (Some a) else chain_search kv h key as }"

definition hash_search :: "hashmap \<Rightarrow> string \<Rightarrow> kvref option option" where
  "hash_search hash key =
     (let h = name_hash key in chain_search (hm_kv hash) h key (hm_node hash (unat h mod HASH_SIZE)))"

definition hash_insert :: "string \<Rightarrow> hashmap \<Rightarrow> kvref \<times> hashmap" where
  "hash_insert key hash =
     (let h = name_hash key; a = hm_brk hash; i = unat h mod HASH_SIZE
      in (a, hash\<lparr>hm_node := (hm_node hash)(i := a # hm_node hash i),
                 hm_kv := (hm_kv hash)(a \<mapsto> \<lparr>kv_key = key, kv_hash = h, kv_value = 0, kv_queue = None\<rparr>),
                 hm_brk := Suc a\<rparr>))"

text \<open>The fields \<^verbatim>\<open>node->value\<close> and \<^verbatim>\<open>node->queue\<close> are written through the pointer.\<close>

definition kv_put :: "kvref \<Rightarrow> keyvalue \<Rightarrow> hashmap \<Rightarrow> hashmap" where
  "kv_put a node hash = hash\<lparr>hm_kv := (hm_kv hash)(a \<mapsto> node)\<rparr>"

text \<open>A well-formed map: the chains hold the nodes whose hash belongs there, no name twice.\<close>

definition map_ok :: "hashmap \<Rightarrow> bool" where
  "map_ok m \<longleftrightarrow>
     (\<forall>i < HASH_SIZE. \<forall>a \<in> set (hm_node m i). \<exists>node. hm_kv m a = Some node \<and> kv_hash node = name_hash (kv_key node) \<and>
        unat (kv_hash node) mod HASH_SIZE = i) \<and>
     (\<forall>a node. hm_kv m a = Some node \<longrightarrow> a < hm_brk m)"

text \<open>The table of names that the map stands for: the node of a name.\<close>

definition name_node :: "hashmap \<Rightarrow> string \<Rightarrow> keyvalue option" where
  "name_node m key = do { r \<leftarrow> hash_search m key; a \<leftarrow> r; hm_kv m a }"

definition full_name :: "string \<Rightarrow> bool" where
  "full_name s \<longleftrightarrow> length s = GLOBALNAME_LENGTH \<and> s = copy_name (c_prefix s)"

lemma full_name_eq: "full_name a \<Longrightarrow> full_name b \<Longrightarrow> same_name a b \<longleftrightarrow> a = b"
  by (auto simp: full_name_def same_name_def)

lemma HASH_SIZE_pos: "i mod HASH_SIZE < HASH_SIZE"
  by (simp add: HASH_SIZE_def)

lemma chain_search_defined:
  assumes "\<forall>a \<in> set as. kv a \<noteq> None"
  shows "\<exists>r. chain_search kv h key as = Some r \<and>
    (case r of None \<Rightarrow> \<forall>a \<in> set as. \<forall>node. kv a = Some node \<longrightarrow> \<not> (kv_hash node = h \<and> same_name (kv_key node) key)
     | Some a \<Rightarrow> a \<in> set as \<and> (\<exists>node. kv a = Some node \<and> kv_hash node = h \<and> same_name (kv_key node) key))"
  using assms
proof (induction as)
  case (Cons a as)
  then obtain node where node: "kv a = Some node" by auto
  obtain r where "chain_search kv h key as = Some r"
    "case r of None \<Rightarrow> \<forall>a \<in> set as. \<forall>node. kv a = Some node \<longrightarrow> \<not> (kv_hash node = h \<and> same_name (kv_key node) key)
     | Some a \<Rightarrow> a \<in> set as \<and> (\<exists>node. kv a = Some node \<and> kv_hash node = h \<and> same_name (kv_key node) key)"
    using Cons.IH Cons.prems by auto
  with node show ?case by (cases r) auto
qed simp

lemma hash_search_cases:
  assumes "map_ok m"
  obtains (absent) "hash_search m key = Some None"
  | (found) a node where "hash_search m key = Some (Some a)" "hm_kv m a = Some node" "same_name (kv_key node) key"
proof -
  let ?i = "unat (name_hash key) mod HASH_SIZE"
  have "\<forall>a \<in> set (hm_node m ?i). hm_kv m a \<noteq> None"
    using assms HASH_SIZE_pos unfolding map_ok_def by (metis option.distinct(1))
  then obtain r where r: "hash_search m key = Some r"
    "case r of None \<Rightarrow> True | Some a \<Rightarrow> \<exists>node. hm_kv m a = Some node \<and> same_name (kv_key node) key"
    using chain_search_defined [of "hm_node m ?i" "hm_kv m" "name_hash key" key]
    by (fastforce simp: hash_search_def Let_def split: option.splits)
  then show thesis using that by (cases r) auto
qed

lemma chain_search_frame:
  assumes "a \<notin> set as"
  shows "chain_search (kv(a := x)) h key as = chain_search kv h key as"
  using assms by (induction as) (auto cong: if_cong)

lemma chain_search_put:
  assumes "kv a = Some node" "kv_key node' = kv_key node" "kv_hash node' = kv_hash node"
  shows "chain_search (kv(a \<mapsto> node')) h key as = chain_search kv h key as"
  using assms by (induction as) (auto cong: if_cong)

lemma hash_search_put:
  assumes "hm_kv m a = Some node" "kv_key node' = kv_key node" "kv_hash node' = kv_hash node"
  shows "hash_search (kv_put a node' m) key = hash_search m key"
  by (simp add: hash_search_def kv_put_def chain_search_put [of "hm_kv m" a node, OF assms])

lemma kv_put_ok:
  assumes "map_ok m" "hm_kv m a = Some node" "kv_key node' = kv_key node" "kv_hash node' = kv_hash node"
  shows "map_ok (kv_put a node' m)"
  using assms unfolding map_ok_def kv_put_def by (auto; metis option.inject)

lemma hash_insert_ok:
  assumes "map_ok m" "hash_insert key m = (a, m')"
  shows "map_ok m'" "hash_search m' key = Some (Some a)"
    "hm_kv m' a = Some \<lparr>kv_key = key, kv_hash = name_hash key, kv_value = 0, kv_queue = None\<rparr>"
    "\<not> same_name key other \<Longrightarrow> hash_search m' other = hash_search m other"
    "b \<noteq> a \<Longrightarrow> hm_kv m' b = hm_kv m b" "hm_kv m a = None"
proof -
  have fresh: "hm_kv m (hm_brk m) = None" using assms(1) unfolding map_ok_def by (metis not_None_eq less_irrefl)
  have new: "hm_brk m \<notin> set (hm_node m i)" if "i < HASH_SIZE" for i
    using assms(1) that fresh unfolding map_ok_def by (metis option.distinct(1))
  note e = assms(2) [unfolded hash_insert_def Let_def, simplified]
  show "hash_search m' key = Some (Some a)"
    using e by (auto simp: hash_search_def same_name_def Let_def)
  show "hm_kv m' a = Some \<lparr>kv_key = key, kv_hash = name_hash key, kv_value = 0, kv_queue = None\<rparr>" using e by auto
  show "b \<noteq> a \<Longrightarrow> hm_kv m' b = hm_kv m b" using e by auto
  show "hm_kv m a = None" using e fresh by auto
  show "map_ok m'"
    using assms(1) e new HASH_SIZE_pos fresh unfolding map_ok_def
    by (auto simp: less_Suc_eq split: if_splits; metis option.distinct(1))
  show "hash_search m' other = hash_search m other" if "\<not> same_name key other"
    using e that new HASH_SIZE_pos
    by (auto simp: hash_search_def Let_def chain_search_frame)
qed

end
