(* ===== verification/Harbor.thy ===== *)
theory Harbor
  imports Harbor_Queue Outcome
begin

text \<open>
  The harbor service, \<^verbatim>\<open>src/ztask/server/service_harbor.c\<close>: it carries the messages of a node to the
  other nodes over one socket per node and hands the messages that arrive to the local services.

  The file calls \<^verbatim>\<open>ztask_send\<close>, \<^verbatim>\<open>ztask_error\<close>, \<^verbatim>\<open>ztask_malloc\<close> and the socket functions of the node that
  runs it. They are the fields of the record \<open>services\<close>, functions on a state \<open>'w\<close> that the harbor does not
  look into; theory Harbor_Node gives them the model of the node. An operation takes the harbor and that
  state and returns them; \<open>None\<close> is undefined behaviour, such as a read outside a buffer.
\<close>

section \<open>What the service calls\<close>

text \<open>\<open>sv_load\<close> and \<open>sv_store\<close> read and write the block that a pointer points to. The last argument of
  \<open>sv_socket_send\<close> is the \<^verbatim>\<open>int\<close> that is passed as the number of bytes.\<close>

record 'w services =
  sv_send :: "u32 \<Rightarrow> u32 \<Rightarrow> u32 \<Rightarrow> cint \<Rightarrow> ptr \<Rightarrow> u64 \<Rightarrow> 'w \<Rightarrow> (cint \<times> 'w) option"
  sv_error :: "string \<Rightarrow> 'w \<Rightarrow> 'w option"
  sv_alloc :: "payload \<Rightarrow> 'w \<Rightarrow> ptr \<times> 'w"
  sv_free :: "ptr \<Rightarrow> 'w \<Rightarrow> 'w option"
  sv_load :: "ptr \<Rightarrow> 'w \<Rightarrow> payload option"
  sv_store :: "ptr \<Rightarrow> payload \<Rightarrow> 'w \<Rightarrow> 'w option"
  sv_socket_send :: "int \<Rightarrow> byte list \<Rightarrow> int \<Rightarrow> 'w \<Rightarrow> 'w"
  sv_socket_start :: "cint \<Rightarrow> int \<Rightarrow> 'w \<Rightarrow> 'w"
  sv_socket_close :: "int \<Rightarrow> 'w \<Rightarrow> 'w"
  sv_callback :: "'w \<Rightarrow> 'w option"
  sv_harbor_start :: "'w \<Rightarrow> 'w option"
  sv_alias :: "string \<Rightarrow> 'w \<Rightarrow> 'w option"

text \<open>The first \<open>n\<close> bytes of a block. Bytes that have not been written are not there, so that a read of
  them is undefined.\<close>

definition load_bytes :: "'w services \<Rightarrow> ptr \<Rightarrow> nat \<Rightarrow> 'w \<Rightarrow> byte list option" where
  "load_bytes v p n w =
     (if n = 0 then Some []
      else (case sv_load v p w of
              Some (Bytes bs) \<Rightarrow> (if n \<le> length bs then Some (take n bs) else None)
            | _ \<Rightarrow> None))"

text \<open>\<^verbatim>\<open>memcpy\<close> to an offset of a block, next to or over the bytes that are written already.\<close>

definition store_bytes :: "'w services \<Rightarrow> ptr \<Rightarrow> nat \<Rightarrow> byte list \<Rightarrow> 'w \<Rightarrow> 'w option" where
  "store_bytes v p off bs w =
     (case sv_load v p w of
        Some (Bytes old) \<Rightarrow>
          (if off \<le> length old then sv_store v p (Bytes (take off old @ bs @ drop (off + length bs) old)) w else None)
      | _ \<Rightarrow> None)"

text \<open>\<^verbatim>\<open>ztask_send\<close> of a text in an array on the stack: a block that lives as long as the call.\<close>

definition send_text :: "'w services \<Rightarrow> u32 \<Rightarrow> u32 \<Rightarrow> string \<Rightarrow> 'w \<Rightarrow> 'w option" where
  "send_text v source destination txt w =
     (let (p, w1) = sv_alloc v (Bytes (bytes_of txt)) w
      in do { (_, w2) \<leftarrow> sv_send v source destination PTYPE_TEXT 0 p (of_nat (length txt)) w1;
              sv_free v p w2 })"

section \<open>Data\<close>

definition HEADER_COOKIE_LENGTH :: nat where "HEADER_COOKIE_LENGTH = 12"
definition REMOTE_MAX :: nat where "REMOTE_MAX = 256"

datatype link_status = Wait | Handshake | Header | Content | Down

record slave =
  sl_fd :: int
  sl_queue :: "harbor_msg_queue option"
  sl_status :: link_status
  sl_length :: nat
  sl_read :: nat
  sl_size :: "byte list"
  sl_recv_buffer :: ptr

record harbor =
  hb_id :: cint
  hb_slave :: u32
  hb_map :: hashmap
  hb_s :: "slave list"

definition slave_put :: "nat \<Rightarrow> slave \<Rightarrow> harbor \<Rightarrow> harbor" where
  "slave_put k s h = h\<lparr>hb_s := (hb_s h)[k := s]\<rparr>"

definition slave_new :: slave where
  "slave_new = \<lparr>sl_fd = 0, sl_queue = None, sl_status = Wait, sl_length = 0, sl_read = 0, sl_size = [0, 0, 0, 0],
                sl_recv_buffer = None\<rparr>"

definition harbor_create :: harbor where
  "harbor_create = \<lparr>hb_id = 0, hb_slave = 0, hb_map = hash_new, hb_s = replicate REMOTE_MAX slave_new\<rparr>"

definition release_queue :: "'w services \<Rightarrow> harbor_msg_queue \<Rightarrow> 'w \<Rightarrow> 'w option" where
  "release_queue v q w = do { (_, w1) \<leftarrow> drain (\<lambda>m. sv_free v (hm_buffer m)) q w; Some w1 }"

section \<open>Connections\<close>

definition close_harbor :: "'w services \<Rightarrow> slave \<Rightarrow> 'w \<Rightarrow> (slave \<times> 'w) option" where
  "close_harbor v s w =
     (let w1 = (if sl_fd s \<noteq> 0 then sv_socket_close v (sl_fd s) w else w); s1 = s\<lparr>sl_status := Down\<rparr>
      in case sl_queue s of
           None \<Rightarrow> Some (s1, w1)
         | Some q \<Rightarrow> do { w2 \<leftarrow> release_queue v q w1; Some (s1\<lparr>sl_queue := None\<rparr>, w2) })"

definition report_harbor_down :: "'w services \<Rightarrow> harbor \<Rightarrow> nat \<Rightarrow> 'w \<Rightarrow> (harbor \<times> 'w) option" where
  "report_harbor_down v h k w =
     do { s \<leftarrow> array_get (hb_s h) k;
          w1 \<leftarrow> send_text v 0 (hb_slave h) (''D '' @ fmt_d (int k)) w;
          Some (slave_put k (s\<lparr>sl_fd := -1\<rparr>) h, w1) }"

text \<open>\<^verbatim>\<open>hash_delete\<close> releases what waits for a name, chain after chain.\<close>

primrec chain_delete :: "'w services \<Rightarrow> hashmap \<Rightarrow> kvref list \<Rightarrow> 'w \<Rightarrow> 'w option" where
  "chain_delete v m [] w = Some w"
| "chain_delete v m (a # as) w =
     do { node \<leftarrow> hm_kv m a;
          w1 \<leftarrow> (case kv_queue node of None \<Rightarrow> Some w | Some q \<Rightarrow> release_queue v q w);
          chain_delete v m as w1 }"

definition hash_delete :: "'w services \<Rightarrow> hashmap \<Rightarrow> 'w \<Rightarrow> 'w option" where
  "hash_delete v m = chain_delete v m (concat (map (hm_node m) [0..<HASH_SIZE]))"

primrec close_all :: "'w services \<Rightarrow> slave list \<Rightarrow> 'w \<Rightarrow> 'w option" where
  "close_all v [] w = Some w"
| "close_all v (s # ss) w =
     do { w1 \<leftarrow> (if sl_fd s \<noteq> 0 \<and> sl_status s \<noteq> Down then map_option snd (close_harbor v s w) else Some w);
          close_all v ss w1 }"

definition harbor_release :: "'w services \<Rightarrow> harbor \<Rightarrow> 'w \<Rightarrow> 'w option" where
  "harbor_release v h w = do { w1 \<leftarrow> close_all v (tl (hb_s h)) w; hash_delete v (hb_map h) w1 }"

section \<open>Headers\<close>

definition to_bigendian :: "u32 \<Rightarrow> byte list" where
  "to_bigendian n = [ucast (drop_bit 24 n AND 0xff), ucast (drop_bit 16 n AND 0xff), ucast (drop_bit 8 n AND 0xff),
                     ucast (n AND 0xff)]"

definition header_to_message :: "harbor_header \<Rightarrow> byte list" where
  "header_to_message header =
     to_bigendian (hdr_source header) @ to_bigendian (hdr_destination header) @ to_bigendian (hdr_session header)"

text \<open>The word at an index of the message, its bytes in the order of the memory.\<close>

definition from_bigendian :: "byte list \<Rightarrow> nat \<Rightarrow> u32" where
  "from_bigendian bs i =
     (let b = (\<lambda>k. ucast (bs ! (4 * i + k)) :: u32)
      in push_bit 24 (b 0) OR push_bit 16 (b 1) OR push_bit 8 (b 2) OR b 3)"

definition message_to_header :: "byte list \<Rightarrow> harbor_header" where
  "message_to_header bs =
     \<lparr>hdr_source = from_bigendian bs 0, hdr_destination = from_bigendian bs 1, hdr_session = from_bigendian bs 2\<rparr>"

section \<open>Messages to and from the other nodes\<close>

text \<open>The handle of a service of this node.\<close>

definition local_handle :: "harbor \<Rightarrow> u32 \<Rightarrow> u32" where
  "local_handle h d = (d AND HANDLE_MASK) OR push_bit HANDLE_REMOTE_SHIFT (hb_id h)"

text \<open>The call of \<^verbatim>\<open>ztask_send\<close> for a message of \<open>n\<close> bytes that has arrived, and the answer when the service
  is unknown.\<close>

definition deliver :: "'w services \<Rightarrow> harbor \<Rightarrow> harbor_header \<Rightarrow> ptr \<Rightarrow> nat \<Rightarrow> 'w \<Rightarrow> 'w option" where
  "deliver v h header p n w =
     (let typ = drop_bit HANDLE_REMOTE_SHIFT (hdr_destination header); destination = local_handle h (hdr_destination header) in
      do { (r, w1) \<leftarrow> sv_send v (hdr_source header) destination (typ OR PTYPE_TAG_DONTCOPY) (hdr_session header) p (of_nat n) w;
           if sint r < 0
           then do { w2 \<leftarrow> (if typ \<noteq> PTYPE_ERROR
                           then map_option snd (sv_send v destination (hdr_source header) PTYPE_ERROR (hdr_session header) None 0 w1)
                           else Some w1);
                     sv_error v (''Unknown destination :'' @ fmt_x destination @ '' from :'' @ fmt_x (hdr_source header) @
                                 '' type('' @ fmt_d (sint typ) @ '')'') w2 }
           else Some w1 })"

definition forward_local_messsage :: "'w services \<Rightarrow> harbor \<Rightarrow> ptr \<Rightarrow> nat \<Rightarrow> 'w \<Rightarrow> 'w option" where
  "forward_local_messsage v h msg sz w =
     do { assert_c (HEADER_COOKIE_LENGTH \<le> sz);
          bs \<leftarrow> load_bytes v msg sz w;
          deliver v h (message_to_header (drop (sz - HEADER_COOKIE_LENGTH) bs)) msg (sz - HEADER_COOKIE_LENGTH) w }"

text \<open>What is written to the socket: the length, the payload, the header.\<close>

definition frame :: "byte list \<Rightarrow> harbor_header \<Rightarrow> byte list" where
  "frame bs cookie = to_bigendian (of_nat (length bs + HEADER_COOKIE_LENGTH)) @ bs @ header_to_message cookie"

definition send_remote :: "'w services \<Rightarrow> int \<Rightarrow> ptr \<Rightarrow> u64 \<Rightarrow> harbor_header \<Rightarrow> 'w \<Rightarrow> 'w option" where
  "send_remote v fd buffer sz cookie w =
     (if 2 ^ 32 - 1 < unat (sz + of_nat HEADER_COOKIE_LENGTH)
      then sv_error v (''remote message from :'' @ fmt_08x (hdr_source cookie) @ '' to :'' @ fmt_08x (hdr_destination cookie) @
                       '' is too large.'') w
      else do { bs \<leftarrow> load_bytes v buffer (unat sz) w;
                Some (sv_socket_send v fd (frame bs cookie) (int_of_size (length (frame bs cookie))) w) })"

text \<open>The body of the loops that send a queue.\<close>

definition send_queued :: "'w services \<Rightarrow> int \<Rightarrow> harbor_msg \<Rightarrow> 'w \<Rightarrow> 'w option" where
  "send_queued v fd m w =
     do { w1 \<leftarrow> send_remote v fd (hm_buffer m) (hm_size m) (hm_header m) w; sv_free v (hm_buffer m) w1 }"

definition send_here :: "'w services \<Rightarrow> u32 \<Rightarrow> harbor_msg \<Rightarrow> 'w \<Rightarrow> 'w option" where
  "send_here v handle m w =
     (let typ = drop_bit HANDLE_REMOTE_SHIFT (hdr_destination (hm_header m))
      in map_option snd (sv_send v (hdr_source (hm_header m)) handle (typ OR PTYPE_TAG_DONTCOPY) (hdr_session (hm_header m))
                          (hm_buffer m) (hm_size m) w))"

definition set_handle :: "u32 \<Rightarrow> harbor_msg \<Rightarrow> harbor_msg" where
  "set_handle handle m =
     m\<lparr>hm_header := (hm_header m)\<lparr>hdr_destination := hdr_destination (hm_header m) OR (handle AND HANDLE_MASK)\<rparr>\<rparr>"

definition dispatch_name_queue :: "'w services \<Rightarrow> harbor \<Rightarrow> kvref \<Rightarrow> 'w \<Rightarrow> (harbor \<times> 'w) option" where
  "dispatch_name_queue v h a w =
     do { node \<leftarrow> hm_kv (hb_map h) a;
          queue \<leftarrow> kv_queue node;
          let handle = kv_value node;
          let k = unat (drop_bit HANDLE_REMOTE_SHIFT handle);
          s \<leftarrow> array_get (hb_s h) k;
          if sl_fd s = 0
          then if sl_status s = Down
               then do { w1 \<leftarrow> sv_error v (''Drop message to '' @ c_prefix (kv_key node) @ '' (in harbor '' @ fmt_d (int k) @ '')'') w;
                         Some (h, w1) }
               else do { (sq, node1) \<leftarrow>
                           (case sl_queue s of
                              None \<Rightarrow> Some (queue, node\<lparr>kv_queue := None\<rparr>)
                            | Some sq \<Rightarrow> do { (queue1, sq1) \<leftarrow> drain push_queue_msg queue sq;
                                             Some (sq1, node\<lparr>kv_queue := Some queue1\<rparr>) });
                         let h1 = h\<lparr>hb_map := kv_put a node1 (hb_map h)\<rparr>;
                         if k = unat (drop_bit HANDLE_REMOTE_SHIFT (hb_slave h))
                         then do { (sq1, w1) \<leftarrow> drain (send_here v handle) sq w;
                                   w2 \<leftarrow> release_queue v sq1 w1;
                                   Some (slave_put k (s\<lparr>sl_queue := None\<rparr>) h1, w2) }
                         else Some (slave_put k (s\<lparr>sl_queue := Some sq\<rparr>) h1, w) }
          else do { (queue1, w1) \<leftarrow> drain (send_queued v (sl_fd s) \<circ> set_handle handle) queue w;
                    Some (h\<lparr>hb_map := kv_put a (node\<lparr>kv_queue := Some queue1\<rparr>) (hb_map h)\<rparr>, w1) } }"

definition dispatch_queue :: "'w services \<Rightarrow> slave \<Rightarrow> 'w \<Rightarrow> (slave \<times> 'w) option" where
  "dispatch_queue v s w =
     do { assert_c (sl_fd s \<noteq> 0);
          (case sl_queue s of
             None \<Rightarrow> Some (s, w)
           | Some q \<Rightarrow> do { (q1, w1) \<leftarrow> drain (send_queued v (sl_fd s)) q w;
                           w2 \<leftarrow> release_queue v q1 w1;
                           Some (s\<lparr>sl_queue := None\<rparr>, w2) }) }"

lemma dispatch_queue_fields:
  assumes "dispatch_queue v s w = Some (s', w')"
  shows "s' = s\<lparr>sl_queue := None\<rparr>"
  using assms by (auto simp: dispatch_queue_def split: option.splits)

section \<open>The bytes that arrive\<close>

text \<open>
  The loop of \<^verbatim>\<open>push_socket_data\<close> on the bytes that are left. The cases of the \<^verbatim>\<open>switch\<close> fall through into
  the next one exactly when the status has become the next one, so that going on is another round of the
  loop. \<^verbatim>\<open>need\<close> can be negative, then \<^verbatim>\<open>memcpy\<close> gets an enormous size.
\<close>

definition frame_length :: "byte list \<Rightarrow> nat" where
  "frame_length sz = unat (sz ! 1) * 2 ^ 16 + unat (sz ! 2) * 2 ^ 8 + unat (sz ! 3)"

function receive :: "'w services \<Rightarrow> harbor \<Rightarrow> nat \<Rightarrow> byte list \<Rightarrow> slave \<Rightarrow> 'w \<Rightarrow> (slave \<times> 'w) option" where
  "receive v h k buffer s w =
     (case sl_status s of
        Handshake \<Rightarrow>
          (case buffer of
             [] \<Rightarrow> None
           | remote_id # rest \<Rightarrow>
               if unat remote_id \<noteq> k
               then do { w1 \<leftarrow> sv_error v (''Invalid shakehand id ('' @ fmt_d (int k) @ '') from fd = '' @ fmt_d (sl_fd s) @
                                          '' , harbor = '' @ fmt_d (int (unat remote_id))) w;
                         close_harbor v s w1 }
               else do { (s1, w1) \<leftarrow> dispatch_queue v (s\<lparr>sl_status := Header\<rparr>) w;
                         receive v h k rest s1 w1 })
      | Header \<Rightarrow>
          (if int (length buffer) < 4 - int (sl_read s)
           then Some (s\<lparr>sl_size := take (sl_read s) (sl_size s) @ buffer @ drop (sl_read s + length buffer) (sl_size s),
                        sl_read := sl_read s + length buffer\<rparr>, w)
           else if 4 < sl_read s then None
           else let need = 4 - sl_read s; sz = take (sl_read s) (sl_size s) @ take need buffer; rest = drop need buffer
                in if sz ! 0 \<noteq> 0
                   then do { w1 \<leftarrow> sv_error v (''Message is too long from harbor '' @ fmt_d (int k)) w;
                             close_harbor v (s\<lparr>sl_size := sz\<rparr>) w1 }
                   else let (p, w1) = sv_alloc v (Bytes []) w;
                            s1 = s\<lparr>sl_size := sz, sl_length := frame_length sz, sl_read := 0, sl_recv_buffer := p,
                                   sl_status := Content\<rparr>
                        in if rest = [] then Some (s1, w1) else receive v h k rest s1 w1)
      | Content \<Rightarrow>
          (if int (length buffer) < int (sl_length s) - int (sl_read s)
           then do { w1 \<leftarrow> store_bytes v (sl_recv_buffer s) (sl_read s) buffer w;
                     Some (s\<lparr>sl_read := sl_read s + length buffer\<rparr>, w1) }
           else if sl_length s < sl_read s then None
           else let need = sl_length s - sl_read s; rest = drop need buffer
                in do { w1 \<leftarrow> store_bytes v (sl_recv_buffer s) (sl_read s) (take need buffer) w;
                        assert_c (HEADER_COOKIE_LENGTH \<le> sl_length s);
                        w2 \<leftarrow> forward_local_messsage v h (sl_recv_buffer s) (sl_length s) w1;
                        let s1 = s\<lparr>sl_length := 0, sl_read := 0, sl_recv_buffer := None, sl_status := Header\<rparr>;
                        if rest = [] then Some (s1, w2) else receive v h k rest s1 w2 })
      | _ \<Rightarrow> Some (s, w))"
  by pat_completeness auto
termination
  by (relation "measure (\<lambda>(v, h, k, buffer, s, w). length buffer + (if sl_read s = 0 then 0 else 1))")
     (auto dest: dispatch_queue_fields simp: HEADER_COOKIE_LENGTH_def)

declare receive.simps [simp del]

text \<open>The first slave from 1 on with that socket; 0 when there is none.\<close>

primrec fd_search :: "int \<Rightarrow> nat \<Rightarrow> slave list \<Rightarrow> nat" where
  "fd_search fd k [] = 0"
| "fd_search fd k (s # ss) = (if sl_fd s = fd then k else fd_search fd (Suc k) ss)"

definition harbor_id_of :: "harbor \<Rightarrow> int \<Rightarrow> nat" where
  "harbor_id_of h fd = fd_search fd 1 (tl (hb_s h))"

text \<open>The bytes of the message are its buffer, as many as the field \<^verbatim>\<open>ud\<close> says.\<close>

definition push_socket_data :: "'w services \<Rightarrow> harbor \<Rightarrow> socket_message \<Rightarrow> 'w \<Rightarrow> (harbor \<times> 'w) option" where
  "push_socket_data v h message w =
     (let k = harbor_id_of h (sm_id message) in
      if k = 0
      then do { w1 \<leftarrow> sv_error v (''Invalid socket fd ('' @ fmt_d (sm_id message) @ '') data'') w; Some (h, w1) }
      else do { s \<leftarrow> array_get (hb_s h) k;
                assert_c (0 \<le> sm_ud message);
                buffer \<leftarrow> load_bytes v (sm_buffer message) (nat (sm_ud message)) w;
                (s1, w1) \<leftarrow> receive v h k buffer s w;
                Some (slave_put k s1 h, w1) })"

section \<open>Names\<close>

definition find_or_insert :: "harbor \<Rightarrow> string \<Rightarrow> (kvref \<times> harbor) option" where
  "find_or_insert h key =
     do { r \<leftarrow> hash_search (hb_map h) key;
          Some (case r of Some a \<Rightarrow> (a, h) | None \<Rightarrow> (let (a, m) = hash_insert key (hb_map h) in (a, h\<lparr>hb_map := m\<rparr>))) }"

definition update_name :: "'w services \<Rightarrow> harbor \<Rightarrow> string \<Rightarrow> u32 \<Rightarrow> 'w \<Rightarrow> (harbor \<times> 'w) option" where
  "update_name v h key handle w =
     do { (a, h1) \<leftarrow> find_or_insert h key;
          node \<leftarrow> hm_kv (hb_map h1) a;
          let h2 = h1\<lparr>hb_map := kv_put a (node\<lparr>kv_value := handle\<rparr>) (hb_map h1)\<rparr>;
          if kv_queue node = None then Some (h2, w)
          else do { (h3, w1) \<leftarrow> dispatch_name_queue v h2 a w;
                    node3 \<leftarrow> hm_kv (hb_map h3) a;
                    w2 \<leftarrow> (case kv_queue node3 of None \<Rightarrow> Some w1 | Some q \<Rightarrow> release_queue v q w1);
                    Some (h3\<lparr>hb_map := kv_put a (node3\<lparr>kv_queue := None\<rparr>) (hb_map h3)\<rparr>, w2) } }"

section \<open>Messages out\<close>

text \<open>The first result is the \<^verbatim>\<open>int\<close> that says whether the payload has been handed over.\<close>

definition remote_header :: "u32 \<Rightarrow> u32 \<Rightarrow> u32 \<Rightarrow> cint \<Rightarrow> harbor_header" where
  "remote_header source destination typ session =
     \<lparr>hdr_source = source, hdr_destination = push_bit HANDLE_REMOTE_SHIFT typ OR (destination AND HANDLE_MASK),
      hdr_session = session\<rparr>"

definition remote_send_handle ::
  "'w services \<Rightarrow> harbor \<Rightarrow> u32 \<Rightarrow> u32 \<Rightarrow> u32 \<Rightarrow> cint \<Rightarrow> ptr \<Rightarrow> u64 \<Rightarrow> 'w \<Rightarrow> (bool \<times> harbor \<times> 'w) option" where
  "remote_send_handle v h source destination typ session msg sz w =
     (let k = drop_bit HANDLE_REMOTE_SHIFT destination in
      if k = hb_id h
      then do { (_, w1) \<leftarrow> sv_send v source destination (typ OR PTYPE_TAG_DONTCOPY) session msg sz w; Some (True, h, w1) }
      else do { s \<leftarrow> array_get (hb_s h) (unat k);
                if sl_fd s = 0 \<or> sl_status s = Handshake
                then if sl_status s = Down
                     then do { (_, w1) \<leftarrow> sv_send v destination source PTYPE_ERROR 0 None 0 w;
                               w2 \<leftarrow> sv_error v (''Drop message to harbor '' @ fmt_d (sint k) @ '' from '' @ fmt_x source @ '' to '' @
                                        fmt_x destination @ '' (session = '' @ fmt_d (sint session) @ '', msgsz = '' @
                                        fmt_d (sint (ucast sz :: cint)) @ '')'') w1;
                               Some (False, h, w2) }
                     else do { q \<leftarrow> push_queue msg sz (remote_header source destination typ session)
                                     (case sl_queue s of None \<Rightarrow> new_queue | Some q \<Rightarrow> q);
                               Some (True, slave_put (unat k) (s\<lparr>sl_queue := Some q\<rparr>) h, w) }
                else do { w1 \<leftarrow> send_remote v (sl_fd s) msg sz (remote_header source destination typ session) w;
                          Some (False, h, w1) } })"

definition remote_send_name ::
  "'w services \<Rightarrow> harbor \<Rightarrow> u32 \<Rightarrow> string \<Rightarrow> u32 \<Rightarrow> cint \<Rightarrow> ptr \<Rightarrow> u64 \<Rightarrow> 'w \<Rightarrow> (bool \<times> harbor \<times> 'w) option" where
  "remote_send_name v h source key typ session msg sz w =
     do { (a, h1) \<leftarrow> find_or_insert h key;
          node \<leftarrow> hm_kv (hb_map h1) a;
          if kv_value node = 0
          then do { q \<leftarrow> push_queue msg sz (remote_header source 0 typ session)
                          (case kv_queue node of None \<Rightarrow> new_queue | Some q \<Rightarrow> q);
                    w1 \<leftarrow> send_text v 0 (hb_slave h1) (''Q '' @ c_prefix key) w;
                    Some (True, h1\<lparr>hb_map := kv_put a (node\<lparr>kv_queue := Some q\<rparr>) (hb_map h1)\<rparr>, w1) }
          else remote_send_handle v h1 source (kv_value node) typ session msg sz w }"

section \<open>Commands\<close>

definition handshake :: "'w services \<Rightarrow> harbor \<Rightarrow> slave \<Rightarrow> 'w \<Rightarrow> 'w" where
  "handshake v h s w = sv_socket_send v (sl_fd s) [ucast (hb_id h)] 1 w"

text \<open>\<^verbatim>\<open>sscanf\<close> with \<^verbatim>\<open>%d\<close> or \<^verbatim>\<open>%u\<close>: white space, a sign, digits, and what follows them.\<close>

definition decimal :: "char \<Rightarrow> bool" where
  "decimal c = (case digit_value c of None \<Rightarrow> False | Some d \<Rightarrow> d < 10)"

definition scan_int :: "string \<Rightarrow> (int \<times> string) option" where
  "scan_int s =
     (let s1 = dropWhile isspace_c s;
          neg = (take 1 s1 = ''-'');
          s2 = (if take 1 s1 = ''-'' \<or> take 1 s1 = ''+'' then tl s1 else s1);
          d = takeWhile decimal s2; n = int (read_digits 10 0 d)
      in if d = [] then None else Some (if neg then - n else n, dropWhile decimal s2))"

text \<open>Two numbers; a value that is not an \<^verbatim>\<open>int\<close> is undefined behaviour, a number that is missing leaves 0.\<close>

definition scan_two :: "(int \<Rightarrow> bool) \<Rightarrow> string \<Rightarrow> (int \<times> int) option" where
  "scan_two fits2 s =
     (case scan_int s of
        None \<Rightarrow> Some (0, 0)
      | Some (a, rest) \<Rightarrow>
          if - (2 ^ 31) \<le> a \<and> a < 2 ^ 31
          then (case scan_int rest of
                  None \<Rightarrow> Some (a, 0)
                | Some (b, _) \<Rightarrow> if fits2 b then Some (a, b) else None)
          else None)"

definition is_int :: "int \<Rightarrow> bool" where
  "is_int i \<longleftrightarrow> - (2 ^ 31) \<le> i \<and> i < 2 ^ 31"

definition string_of :: "byte list \<Rightarrow> string" where
  "string_of bs = map (char_of \<circ> (unat :: byte \<Rightarrow> nat)) bs"

definition c_string :: "byte list \<Rightarrow> string" where
  "c_string bs = string_of (takeWhile (\<lambda>b. b \<noteq> 0) bs)"

text \<open>The text of the second error message in UTF-8.\<close>

definition connected_text :: "nat \<Rightarrow> string" where
  "connected_text k =
     string_of [0xE8, 0x8A, 0x82, 0xE7, 0x82, 0xB9] @ '' '' @ fmt_d (int k) @ '' '' @
     string_of [0xE5, 0xB7, 0xB2, 0xE8, 0xBF, 0x9E, 0xE6, 0x8E, 0xA5]"

text \<open>A new connection for slave \<open>k\<close>.\<close>

definition connect_slave :: "'w services \<Rightarrow> harbor \<Rightarrow> bool \<Rightarrow> int \<Rightarrow> nat \<Rightarrow> 'w \<Rightarrow> (harbor \<times> 'w) option" where
  "connect_slave v h accepted fd k w =
     do { s \<leftarrow> array_get (hb_s h) k;
          if 0 < sl_fd s
          then do { w1 \<leftarrow> sv_error v (connected_text k) w; Some (h, w1) }
          else do { let s1 = s\<lparr>sl_fd := fd\<rparr>;
                    let w1 = handshake v h s1 (sv_socket_start v 0 fd w);
                    if accepted
                    then do { (s2, w2) \<leftarrow> dispatch_queue v (s1\<lparr>sl_status := Header\<rparr>) w1;
                              Some (slave_put k s2 h, w2) }
                    else Some (slave_put k (s1\<lparr>sl_status := Handshake\<rparr>) h, w1) } }"

definition harbor_command :: "'w services \<Rightarrow> harbor \<Rightarrow> byte list \<Rightarrow> u32 \<Rightarrow> 'w \<Rightarrow> (harbor \<times> 'w) option" where
  "harbor_command v h msg source w =
     do { assert_c (msg \<noteq> []);
          let c = (char_of (unat (msg ! 0)) :: char);
          let rest = drop 2 msg;
          if c = CHR ''N''
          then if length msg \<le> 2 \<or> GLOBALNAME_LENGTH \<le> length rest
               then do { assert_c (2 \<le> length msg);
                         w1 \<leftarrow> sv_error v (''Invalid global name '' @ c_string rest) w; Some (h, w1) }
               else update_name v h (string_of rest @ replicate (GLOBALNAME_LENGTH - length rest) (CHR 0x00)) source w
          else if c = CHR ''S'' \<or> c = CHR ''A''
          then do { assert_c (2 \<le> length msg);
                    (fd, k) \<leftarrow> scan_two is_int (c_string rest);
                    if fd = 0 \<or> k \<le> 0 \<or> int REMOTE_MAX \<le> k
                    then do { w1 \<leftarrow> sv_error v (''Invalid command '' @ [c] @ '' '' @ c_string rest) w; Some (h, w1) }
                    else connect_slave v h (c \<noteq> CHR ''S'') fd (nat k) w }
          else do { w1 \<leftarrow> sv_error v (''Unknown command '' @ c_string msg) w; Some (h, w1) } }"

section \<open>The callback of the service\<close>

definition ZTASK_SOCKET_TYPE_DATA :: int where "ZTASK_SOCKET_TYPE_DATA = 1"
definition ZTASK_SOCKET_TYPE_CONNECT :: int where "ZTASK_SOCKET_TYPE_CONNECT = 2"
definition ZTASK_SOCKET_TYPE_CLOSE :: int where "ZTASK_SOCKET_TYPE_CLOSE = 4"
definition ZTASK_SOCKET_TYPE_ERROR :: int where "ZTASK_SOCKET_TYPE_ERROR = 6"
definition ZTASK_SOCKET_TYPE_WARNING :: int where "ZTASK_SOCKET_TYPE_WARNING = 8"
definition PTYPE_RESPONSE :: u32 where "PTYPE_RESPONSE = 1"

definition socket_event :: "'w services \<Rightarrow> harbor \<Rightarrow> u32 \<Rightarrow> socket_message \<Rightarrow> 'w \<Rightarrow> (harbor \<times> 'w) option" where
  "socket_event v h typ message w =
     (let t = sm_type message; k = harbor_id_of h (sm_id message) in
      if t = ZTASK_SOCKET_TYPE_DATA
      then do { (h1, w1) \<leftarrow> push_socket_data v h message w; w2 \<leftarrow> sv_free v (sm_buffer message) w1; Some (h1, w2) }
      else if t = ZTASK_SOCKET_TYPE_ERROR \<or> t = ZTASK_SOCKET_TYPE_CLOSE
      then if k \<noteq> 0 then report_harbor_down v h k w
           else do { w1 \<leftarrow> sv_error v (''Unkown fd ('' @ fmt_d (sm_id message) @ '') closed'') w; Some (h, w1) }
      else if t = ZTASK_SOCKET_TYPE_CONNECT then Some (h, w)
      else if t = ZTASK_SOCKET_TYPE_WARNING
      then if k \<noteq> 0
           then do { w1 \<leftarrow> sv_error v (''message havn'' @ [CHR 0x27] @ ''t send to Harbor ('' @ fmt_d (int k) @ '') reach '' @
                                     fmt_d (sm_ud message) @ '' K'') w;
                     Some (h, w1) }
           else Some (h, w)
      else do { w1 \<leftarrow> sv_error v (''recv invalid socket message type '' @ fmt_d (sint typ)) w; Some (h, w1) })"

text \<open>A message for another node. The payload is freed unless it waits in a queue or went to a local
  service.\<close>

definition message_out :: "'w services \<Rightarrow> harbor \<Rightarrow> cint \<Rightarrow> u32 \<Rightarrow> remote_message \<Rightarrow> 'w \<Rightarrow> (harbor \<times> 'w) option" where
  "message_out v h session source rmsg w =
     do { (kept, h1, w1) \<leftarrow>
            (if rn_handle (rm_destination rmsg) = 0
             then remote_send_name v h source (rn_name (rm_destination rmsg)) (rm_type rmsg) session (rm_message rmsg) (rm_sz rmsg) w
             else remote_send_handle v h source (rn_handle (rm_destination rmsg)) (rm_type rmsg) session (rm_message rmsg)
                    (rm_sz rmsg) w);
          if kept then Some (h1, w1) else do { w2 \<leftarrow> sv_free v (rm_message rmsg) w1; Some (h1, w2) } }"

text \<open>\<^verbatim>\<open>mainloop\<close>; it always returns 0.\<close>

definition mainloop ::
  "'w services \<Rightarrow> harbor \<Rightarrow> u32 \<Rightarrow> cint \<Rightarrow> u32 \<Rightarrow> ptr \<Rightarrow> u64 \<Rightarrow> 'w \<Rightarrow> (harbor \<times> 'w) option" where
  "mainloop v h typ session source msg sz w =
     (if typ = PTYPE_SOCKET
      then (case sv_load v msg w of Some (Socket message) \<Rightarrow> socket_event v h typ message w | _ \<Rightarrow> None)
      else if typ = PTYPE_HARBOR
      then do { bs \<leftarrow> load_bytes v msg (unat sz) w; harbor_command v h bs source w }
      else if typ = PTYPE_SYSTEM
      then (case sv_load v msg w of Some (Remote rmsg) \<Rightarrow> message_out v h session source rmsg w | _ \<Rightarrow> None)
      else if typ = PTYPE_RESPONSE then Some (h, w)
      else do { w1 \<leftarrow> sv_error v (''recv invalid message from '' @ fmt_x source @ '',  type = '' @ fmt_d (sint typ)) w;
                w2 \<leftarrow> (if session \<noteq> 0 \<and> typ \<noteq> PTYPE_ERROR
                      then map_option snd (sv_send v 0 source PTYPE_ERROR session None 0 w1) else Some w1);
                Some (h, w2) })"

definition alias_text :: string where
  "alias_text = string_of [0xE9, 0x9B, 0x86, 0xE7, 0xBE, 0xA4, 0xE6, 0xB8, 0xAF, 0xE5, 0x8F, 0xA3, 0xE6, 0x9C, 0x8D, 0xE5, 0x8A, 0xA1]"

text \<open>The first result is 1 when the arguments name no slave, else 0. \<^verbatim>\<open>%u\<close> takes a value of an \<^verbatim>\<open>unsigned int\<close>.\<close>

definition harbor_init :: "'w services \<Rightarrow> harbor \<Rightarrow> string \<Rightarrow> 'w \<Rightarrow> (int \<times> harbor \<times> 'w) option" where
  "harbor_init v h args w =
     do { (self, sl) \<leftarrow> scan_two (\<lambda>i. - (2 ^ 32) < i \<and> i < 2 ^ 32) args;
          if (of_int sl :: u32) = 0 then Some (1, h, w)
          else do { let h1 = h\<lparr>hb_id := of_int self, hb_slave := of_int sl\<rparr>;
                    w1 \<leftarrow> sv_callback v w;
                    w2 \<leftarrow> sv_harbor_start v w1;
                    w3 \<leftarrow> sv_alias v alias_text w2;
                    Some (0, h1, w3) } }"

section \<open>Runs of the service\<close>

text \<open>A service that has been set up and has handled any messages; between two messages other threads
  change the state \<open>'w\<close> as they like.\<close>

inductive harbor_run :: "'w services \<Rightarrow> harbor \<Rightarrow> bool" for v where
  start: "harbor_init v harbor_create args w = Some (0, h, w') \<Longrightarrow> harbor_run v h"
| step: "harbor_run v h \<Longrightarrow> mainloop v h typ session source msg sz w = Some (h', w') \<Longrightarrow> harbor_run v h'"

inductive_cases harbor_runE: "harbor_run v h"

end
