(* ===== verification/Harbor_Link.thy ===== *)
theory Harbor_Link
  imports Harbor
begin

text \<open>
  What the harbor service (theory Harbor) keeps and does: the invariant of its tables over every run.
\<close>

section \<open>Queues that lead to queues\<close>

lemma push_queue_msg_keeps:
  assumes ok: "hq_ok q" and push: "push_queue_msg m q = Some q'"
  shows "hq_ok q'" "hq_contents q' = hq_contents q @ [m]"
proof -
  have "hq_room q"
  proof (cases "(hq_tail q + 1) mod hq_size q = hq_head q")
    case True
    then have "grow_queue q \<noteq> None" using push by (auto simp: push_queue_msg_def)
    then show ?thesis by (simp add: grow_queue_def hq_room_def split: if_splits)
  next
    case False
    have "ring_len (hq_head q) (hq_tail q) (hq_size q) + 1 < hq_size q"
      using ok False by (auto simp: hq_ok_def ring_len_def mod_suc split: if_splits)
    then show ?thesis using ok by (simp add: hq_room_def hq_contents_def hq_cells_def ring_list_def hq_ok_def)
  qed
  from push_queue_msg_ok [OF ok this, of m] push show "hq_ok q'" "hq_contents q' = hq_contents q @ [m]" by auto
qed

lemma push_queue_keeps:
  assumes "hq_ok q" "push_queue msg sz header q = Some q'"
  shows "hq_ok q'" "hq_contents q' = hq_contents q @ [\<lparr>hm_header = header, hm_buffer = msg, hm_size = sz\<rparr>]"
  using push_queue_msg_keeps assms unfolding push_queue_def by blast+

lemma walk_push:
  "hq_ok q \<Longrightarrow> walk push_queue_msg ms q = Some q' \<Longrightarrow> hq_ok q' \<and> hq_contents q' = hq_contents q @ ms"
proof (induction ms arbitrary: q)
  case (Cons m ms)
  then obtain q1 where "push_queue_msg m q = Some q1" "walk push_queue_msg ms q1 = Some q'" by auto
  with Cons push_queue_msg_keeps show ?case by fastforce
qed simp

lemma drain_Some:
  assumes "hq_ok q" "drain f q s = Some (q', s')"
  shows "hq_ok q'" "hq_contents q' = []" "walk f (hq_contents q) s = Some s'"
proof -
  obtain q2 where "hq_ok q2" "hq_contents q2 = []" "drain f q s = map_option (Pair q2) (walk f (hq_contents q) s)"
    using drain_walk [OF assms(1), of f s] by (elim exE conjE)
  with assms(2) show "hq_ok q'" "hq_contents q' = []" "walk f (hq_contents q) s = Some s'" by auto
qed

lemma release_empty: "hq_ok q \<Longrightarrow> hq_contents q = [] \<Longrightarrow> release_queue v q w = Some w"
  using drain_walk [of q "\<lambda>m. sv_free v (hm_buffer m)" w] by (auto simp: release_queue_def)

text \<open>A loop over a queue that is thrown away afterwards is a walk through its contents.\<close>

lemma drain_release:
  assumes "hq_ok q"
  shows "Option.bind (drain f q w) (\<lambda>(q1, w1). Option.bind (release_queue v q1 w1) g) = Option.bind (walk f (hq_contents q) w) g"
proof -
  obtain q2 where "hq_ok q2" "hq_contents q2 = []" "drain f q w = map_option (Pair q2) (walk f (hq_contents q) w)"
    using drain_walk [OF assms, of f w] by (elim exE conjE)
  then show ?thesis by (cases "walk f (hq_contents q) w") (auto simp: release_empty)
qed

section \<open>The invariant\<close>

text \<open>
  A slave that has never been connected has no socket and no other status; messages wait only before the
  handshake is done. A name whose handle is known has no messages that wait.
\<close>

definition slave_ok :: "slave \<Rightarrow> bool" where
  "slave_ok s \<longleftrightarrow> (sl_fd s = 0 \<longrightarrow> sl_status s = Wait) \<and> length (sl_size s) = 4 \<and>
     (\<forall>q. sl_queue s = Some q \<longrightarrow> hq_ok q \<and> sl_status s \<in> {Wait, Handshake})"

definition hnames_ok :: "hashmap \<Rightarrow> bool" where
  "hnames_ok m \<longleftrightarrow> map_ok m \<and>
     (\<forall>a node q. hm_kv m a = Some node \<longrightarrow> kv_queue node = Some q \<longrightarrow> hq_ok q \<and> kv_value node = 0)"

definition harbor_ok :: "harbor \<Rightarrow> bool" where
  "harbor_ok h \<longleftrightarrow> length (hb_s h) = REMOTE_MAX \<and> list_all slave_ok (hb_s h) \<and> hnames_ok (hb_map h)"

lemma slave_put_ok: "harbor_ok h \<Longrightarrow> slave_ok s \<Longrightarrow> harbor_ok (slave_put k s h)"
  by (auto simp: harbor_ok_def slave_put_def list_all_iff dest!: set_update_subset_insert [THEN subsetD])

lemma slave_get_ok: "harbor_ok h \<Longrightarrow> k < length (hb_s h) \<Longrightarrow> hb_s h ! k = s \<Longrightarrow> slave_ok s"
  by (auto simp: harbor_ok_def list_all_iff)

lemma names_put_ok:
  assumes "hnames_ok m" "hm_kv m a = Some node" "kv_key node' = kv_key node" "kv_hash node' = kv_hash node"
    and "\<And>q. kv_queue node' = Some q \<Longrightarrow> hq_ok q \<and> kv_value node' = 0"
  shows "hnames_ok (kv_put a node' m)"
  using assms kv_put_ok [OF _ assms(2-4)] by (auto simp: hnames_ok_def kv_put_def)

lemma names_new_ok: "hnames_ok hash_new"
  by (simp add: hnames_ok_def map_ok_def hash_new_def)

lemma harbor_create_ok: "harbor_ok harbor_create"
  by (simp add: harbor_ok_def harbor_create_def names_new_ok slave_new_def slave_ok_def list_all_iff)

lemma harbor_init_ok:
  assumes "harbor_ok h" "harbor_init v h args w = Some (r, h', w')"
  shows "harbor_ok h'"
  using assms by (auto simp: harbor_init_def harbor_ok_def split: if_splits)

lemma close_harbor_ok:
  assumes "slave_ok s" "sl_fd s \<noteq> 0" "close_harbor v s w = Some (s', w')"
  shows "slave_ok s'" "sl_queue s' = None" "sl_status s' = Down" "sl_fd s' = sl_fd s"
  using assms by (auto simp: close_harbor_def slave_ok_def Let_def split: option.splits)

section \<open>The rounds of the receiving loop\<close>

text \<open>The length is complete: the rest of the round.\<close>

definition header_done :: "'w services \<Rightarrow> harbor \<Rightarrow> nat \<Rightarrow> byte list \<Rightarrow> byte list \<Rightarrow> slave \<Rightarrow> 'w \<Rightarrow> (slave \<times> 'w) option" where
  "header_done v h k sz rest s w =
     (if sz ! 0 \<noteq> 0
      then do { w1 \<leftarrow> sv_error v (''Message is too long from harbor '' @ fmt_d (int k)) w;
                close_harbor v (s\<lparr>sl_size := sz\<rparr>) w1 }
      else let (p, w1) = sv_alloc v (Bytes []) w;
               s1 = s\<lparr>sl_size := sz, sl_length := frame_length sz, sl_read := 0, sl_recv_buffer := p, sl_status := Content\<rparr>
           in if rest = [] then Some (s1, w1) else receive v h k rest s1 w1)"

text \<open>The message is complete.\<close>

definition content_done :: "'w services \<Rightarrow> harbor \<Rightarrow> nat \<Rightarrow> byte list \<Rightarrow> slave \<Rightarrow> 'w \<Rightarrow> (slave \<times> 'w) option" where
  "content_done v h k rest s w =
     do { w2 \<leftarrow> forward_local_messsage v h (sl_recv_buffer s) (sl_length s) w;
          let s1 = s\<lparr>sl_length := 0, sl_read := 0, sl_recv_buffer := None, sl_status := Header\<rparr>;
          if rest = [] then Some (s1, w2) else receive v h k rest s1 w2 }"

lemma forward_needs_header: "forward_local_messsage v h p n w = do { assert_c (HEADER_COOKIE_LENGTH \<le> n); forward_local_messsage v h p n w }"
  by (auto simp: forward_local_messsage_def assert_c_def)

lemma receive_idle: "sl_status s \<in> {Wait, Down} \<Longrightarrow> receive v h k buffer s w = Some (s, w)"
  by (subst receive.simps) auto

lemma receive_handshake:
  assumes "sl_status s = Handshake"
  shows "receive v h k [] s w = None"
    "receive v h k (b # rest) s w =
      (if unat b \<noteq> k
       then do { w1 \<leftarrow> sv_error v (''Invalid shakehand id ('' @ fmt_d (int k) @ '') from fd = '' @ fmt_d (sl_fd s) @
                                          '' , harbor = '' @ fmt_d (int (unat b))) w;
                 close_harbor v s w1 }
       else do { (s1, w1) \<leftarrow> dispatch_queue v (s\<lparr>sl_status := Header\<rparr>) w; receive v h k rest s1 w1 })"
  using assms by (subst receive.simps, simp)+

lemma receive_header:
  assumes "sl_status s = Header"
  shows "sl_read s + length buffer < 4 \<Longrightarrow> receive v h k buffer s w =
      Some (s\<lparr>sl_size := take (sl_read s) (sl_size s) @ buffer @ drop (sl_read s + length buffer) (sl_size s),
              sl_read := sl_read s + length buffer\<rparr>, w)"
    "4 < sl_read s \<Longrightarrow> receive v h k buffer s w = None"
    "4 \<le> sl_read s + length buffer \<Longrightarrow> sl_read s \<le> 4 \<Longrightarrow> receive v h k buffer s w =
      header_done v h k (take (sl_read s) (sl_size s) @ take (4 - sl_read s) buffer) (drop (4 - sl_read s) buffer) s w"
proof -
  assume "sl_read s + length buffer < 4"
  then have "int (length buffer) < 4 - int (sl_read s)" by linarith
  then show "receive v h k buffer s w =
      Some (s\<lparr>sl_size := take (sl_read s) (sl_size s) @ buffer @ drop (sl_read s + length buffer) (sl_size s),
              sl_read := sl_read s + length buffer\<rparr>, w)"
    using assms by (subst receive.simps) simp
next
  assume "4 < sl_read s"
  then show "receive v h k buffer s w = None" using assms by (subst receive.simps) simp
next
  assume "4 \<le> sl_read s + length buffer" "sl_read s \<le> 4"
  then have "\<not> int (length buffer) < 4 - int (sl_read s)" "\<not> 4 < sl_read s" by linarith+
  then show "receive v h k buffer s w =
      header_done v h k (take (sl_read s) (sl_size s) @ take (4 - sl_read s) buffer) (drop (4 - sl_read s) buffer) s w"
    using assms unfolding header_done_def by (subst receive.simps) (simp only: link_status.case if_False Let_def)
qed

lemma receive_content:
  assumes "sl_status s = Content"
  shows "sl_read s + length buffer < sl_length s \<Longrightarrow> receive v h k buffer s w =
      do { w1 \<leftarrow> store_bytes v (sl_recv_buffer s) (sl_read s) buffer w; Some (s\<lparr>sl_read := sl_read s + length buffer\<rparr>, w1) }"
    "sl_length s < sl_read s \<Longrightarrow> receive v h k buffer s w = None"
    "sl_length s \<le> sl_read s + length buffer \<Longrightarrow> sl_read s \<le> sl_length s \<Longrightarrow> receive v h k buffer s w =
      do { w1 \<leftarrow> store_bytes v (sl_recv_buffer s) (sl_read s) (take (sl_length s - sl_read s) buffer) w;
           content_done v h k (drop (sl_length s - sl_read s) buffer) s w1 }"
proof -
  assume "sl_read s + length buffer < sl_length s"
  then have "int (length buffer) < int (sl_length s) - int (sl_read s)" by linarith
  then show "receive v h k buffer s w =
      do { w1 \<leftarrow> store_bytes v (sl_recv_buffer s) (sl_read s) buffer w; Some (s\<lparr>sl_read := sl_read s + length buffer\<rparr>, w1) }"
    using assms by (subst receive.simps) simp
next
  assume "sl_length s < sl_read s"
  then show "receive v h k buffer s w = None" using assms by (subst receive.simps) simp
next
  assume "sl_length s \<le> sl_read s + length buffer" "sl_read s \<le> sl_length s"
  then have "\<not> int (length buffer) < int (sl_length s) - int (sl_read s)" "\<not> sl_length s < sl_read s" by linarith+
  then show "receive v h k buffer s w =
      do { w1 \<leftarrow> store_bytes v (sl_recv_buffer s) (sl_read s) (take (sl_length s - sl_read s) buffer) w;
           content_done v h k (drop (sl_length s - sl_read s) buffer) s w1 }"
    using assms unfolding content_done_def
    apply (subst receive.simps) apply (simp only: link_status.case if_False Let_def)
    apply (subst (2) forward_needs_header) apply simp done
qed

text \<open>What a round leads to, for induction on the number of rounds that are left.\<close>

definition rounds :: "byte list \<Rightarrow> slave \<Rightarrow> nat" where
  "rounds buffer s = length buffer + (if sl_read s = 0 then 0 else 1)"

lemma receive_cases:
  assumes "receive v h k buffer s w = Some (s', w')"
  obtains (idle) "sl_status s \<in> {Wait, Down}" "s' = s"
  | (bad_id) w1 where "sl_status s = Handshake" "close_harbor v s w1 = Some (s', w')"
  | (good_id) rest s1 w1 where "sl_status s = Handshake" "dispatch_queue v (s\<lparr>sl_status := Header\<rparr>) w = Some (s1, w1)"
      "receive v h k rest s1 w1 = Some (s', w')" "rounds rest s1 < rounds buffer s"
  | (more) sz r where "sl_status s = Header" "s' = s\<lparr>sl_size := sz, sl_read := r\<rparr>" "length (sl_size s) = 4 \<longrightarrow> length sz = 4"
  | (too_long) sz w1 where "sl_status s = Header" "length (sl_size s) = 4 \<longrightarrow> length sz = 4" "close_harbor v (s\<lparr>sl_size := sz\<rparr>) w1 = Some (s', w')"
  | (content) s1 sz n p w1 rest where "sl_status s = Header"
      "s1 = s\<lparr>sl_size := sz, sl_length := n, sl_read := 0, sl_recv_buffer := p, sl_status := Content\<rparr>"
      "s' = s1 \<or> receive v h k rest s1 w1 = Some (s', w')" "rounds rest s1 < rounds buffer s"
      "length (sl_size s) = 4 \<longrightarrow> length sz = 4"
  | (part) r where "sl_status s = Content" "s' = s\<lparr>sl_read := r\<rparr>"
  | (next_header) s1 w1 rest where "sl_status s = Content"
      "s1 = s\<lparr>sl_length := 0, sl_read := 0, sl_recv_buffer := None, sl_status := Header\<rparr>"
      "s' = s1 \<or> receive v h k rest s1 w1 = Some (s', w')" "rounds rest s1 < rounds buffer s"
proof (cases "sl_status s")
  case Handshake
  then obtain b rest where b: "buffer = b # rest" using assms by (cases buffer) (auto simp: receive_handshake(1) [OF Handshake])
  show thesis
  proof (cases "unat b = k")
    case True
    then obtain s1 w1 where d: "dispatch_queue v (s\<lparr>sl_status := Header\<rparr>) w = Some (s1, w1)" "receive v h k rest s1 w1 = Some (s', w')"
      using assms unfolding b receive_handshake(2) [OF Handshake] by auto
    show thesis using good_id [OF Handshake d] dispatch_queue_fields [OF d(1)] b by (simp add: rounds_def)
  next
    case False
    then show thesis using assms bad_id [OF Handshake] unfolding b receive_handshake(2) [OF Handshake] by auto
  qed
next
  case Header
  consider "sl_read s + length buffer < 4" | "4 < sl_read s" | "4 \<le> sl_read s + length buffer" "sl_read s \<le> 4" by linarith
  then show thesis
  proof cases
    case 1
    then have "s' = s\<lparr>sl_size := take (sl_read s) (sl_size s) @ buffer @ drop (sl_read s + length buffer) (sl_size s),
              sl_read := sl_read s + length buffer\<rparr>" using assms by (simp add: receive_header(1) [OF Header 1])
    then show thesis by (rule more [OF Header]) (use 1 in simp)
  next
    case 2
    then show thesis using assms by (simp add: receive_header(2) [OF Header 2])
  next
    case 3
    let ?sz = "take (sl_read s) (sl_size s) @ take (4 - sl_read s) buffer" and ?rest = "drop (4 - sl_read s) buffer"
    have r: "header_done v h k ?sz ?rest s w = Some (s', w')" using assms by (simp add: receive_header(3) [OF Header 3])
    have sz: "length (sl_size s) = 4 \<longrightarrow> length ?sz = 4" using 3 by simp
    show thesis
    proof (cases "?sz ! 0 = 0")
      case False
      then show thesis using r too_long [OF Header sz] by (auto simp: header_done_def)
    next
      case True
      obtain p w1 where p: "sv_alloc v (Bytes []) w = (p, w1)" by fastforce
      let ?s = "s\<lparr>sl_size := ?sz, sl_length := frame_length ?sz, sl_read := 0, sl_recv_buffer := p, sl_status := Content\<rparr>"
      have "s' = ?s \<or> receive v h k ?rest ?s w1 = Some (s', w')"
        using r True p by (auto simp: header_done_def Let_def split: if_splits)
      moreover have "rounds ?rest ?s < rounds buffer s" using 3 by (auto simp: rounds_def)
      ultimately show thesis using content [OF Header refl _ _ sz] by blast
    qed
  qed
next
  case Content
  consider "sl_read s + length buffer < sl_length s" | "sl_length s < sl_read s"
    | "sl_length s \<le> sl_read s + length buffer" "sl_read s \<le> sl_length s" by linarith
  then show thesis
  proof cases
    case 1
    then have "s' = s\<lparr>sl_read := sl_read s + length buffer\<rparr>" using assms by (auto simp: receive_content(1) [OF Content 1])
    then show thesis by (rule part [OF Content])
  next
    case 2
    then show thesis using assms by (simp add: receive_content(2) [OF Content 2])
  next
    case 3
    let ?rest = "drop (sl_length s - sl_read s) buffer"
    obtain w1 where r: "content_done v h k ?rest s w1 = Some (s', w')" using assms by (auto simp: receive_content(3) [OF Content 3])
    let ?s = "s\<lparr>sl_length := 0, sl_read := 0, sl_recv_buffer := None, sl_status := Header\<rparr>"
    obtain w2 where w2: "forward_local_messsage v h (sl_recv_buffer s) (sl_length s) w1 = Some w2"
      "s' = ?s \<or> receive v h k ?rest ?s w2 = Some (s', w')"
      using r by (auto simp: content_done_def Let_def split: if_splits)
    have "12 \<le> sl_length s" using w2(1) by (auto simp: forward_local_messsage_def HEADER_COOKIE_LENGTH_def)
    then have "rounds ?rest ?s < rounds buffer s" using 3 by (auto simp: rounds_def)
    then show thesis using next_header [OF Content refl w2(2)] by blast
  qed
next
  case Wait
  then have "s' = s" using assms by (simp add: receive_idle)
  then show thesis using idle Wait by simp
next
  case Down
  then have "s' = s" using assms by (simp add: receive_idle)
  then show thesis using idle Down by simp
qed

lemma receive_ok:
  "slave_ok s \<Longrightarrow> receive v h k buffer s w = Some (s', w') \<Longrightarrow> slave_ok s'"
proof (induction "rounds buffer s" arbitrary: buffer s w s' w' rule: less_induct)
  case less
  note IH = less.hyps
  from less.prems(2) show ?case
  proof (cases rule: receive_cases)
    case (bad_id w1)
    then have "sl_fd s \<noteq> 0" using less.prems(1) by (auto simp: slave_ok_def)
    then show ?thesis by (rule close_harbor_ok(1) [OF less.prems(1) _ bad_id(2)])
  next
    case (good_id rest s1 w1)
    have "slave_ok s1" using less.prems(1) good_id(1) dispatch_queue_fields [OF good_id(2)] by (auto simp: slave_ok_def)
    then show ?thesis using IH good_id by blast
  next
    case (too_long sz w1)
    have "slave_ok (s\<lparr>sl_size := sz\<rparr>)" "sl_fd (s\<lparr>sl_size := sz\<rparr>) \<noteq> 0" using less.prems(1) too_long(1,2) by (auto simp: slave_ok_def)
    then show ?thesis by (rule close_harbor_ok(1) [OF _ _ too_long(3)])
  next
    case (content s1 sz n p w1 rest)
    have "slave_ok s1" using less.prems(1) content(1,2,5) by (auto simp: slave_ok_def)
    then show ?thesis using IH content by blast
  next
    case (next_header s1 w1 rest)
    have "slave_ok s1" using less.prems(1) next_header(1,2) by (auto simp: slave_ok_def)
    then show ?thesis using IH next_header by blast
  qed (use less.prems(1) in \<open>auto simp: slave_ok_def\<close>)
qed

section \<open>Every operation keeps the invariant\<close>

lemma push_socket_data_ok:
  assumes "harbor_ok h" "push_socket_data v h m w = Some (h', w')"
  shows "harbor_ok h'"
proof (cases "harbor_id_of h (sm_id m) = 0")
  case True
  then show ?thesis using assms by (auto simp: push_socket_data_def)
next
  case False
  let ?k = "harbor_id_of h (sm_id m)"
  obtain buffer s1 w1 where r: "receive v h ?k buffer (hb_s h ! ?k) w = Some (s1, w1)" "h' = slave_put ?k s1 h" "?k < length (hb_s h)"
    using assms(2) False by (auto simp: push_socket_data_def Let_def)
  have "slave_ok s1" using receive_ok [OF slave_get_ok [OF assms(1) r(3) refl] r(1)] .
  then show ?thesis using slave_put_ok [OF assms(1)] r(2) by simp
qed

lemma report_harbor_down_ok: "harbor_ok h \<Longrightarrow> report_harbor_down v h k w = Some (h', w') \<Longrightarrow> harbor_ok h'"
proof -
  assume a: "harbor_ok h" "report_harbor_down v h k w = Some (h', w')"
  then have k: "k < length (hb_s h)" and h': "h' = slave_put k ((hb_s h ! k)\<lparr>sl_fd := -1\<rparr>) h"
    by (auto simp: report_harbor_down_def)
  have "slave_ok ((hb_s h ! k)\<lparr>sl_fd := -1\<rparr>)" using slave_get_ok [OF a(1) k refl] by (simp add: slave_ok_def)
  then show ?thesis unfolding h' by (rule slave_put_ok [OF a(1)])
qed

lemma find_or_insert_ok:
  assumes "harbor_ok h" "find_or_insert h key = Some (a, h1)"
  shows "harbor_ok h1" "\<exists>node. hm_kv (hb_map h1) a = Some node" "hb_s h1 = hb_s h" "hb_id h1 = hb_id h" "hb_slave h1 = hb_slave h"
    "hash_search (hb_map h1) key = Some (Some a)"
proof -
  have m: "map_ok (hb_map h)" "hnames_ok (hb_map h)" using assms(1) by (simp_all add: harbor_ok_def hnames_ok_def)
  have "harbor_ok h1 \<and> (\<exists>node. hm_kv (hb_map h1) a = Some node) \<and> hb_s h1 = hb_s h \<and> hb_id h1 = hb_id h \<and> hb_slave h1 = hb_slave h \<and>
    hash_search (hb_map h1) key = Some (Some a)"
  proof (cases rule: hash_search_cases [OF m(1), of key])
    case 1
    obtain a' m' where i: "hash_insert key (hb_map h) = (a', m')" by fastforce
    then have e: "a = a'" "h1 = h\<lparr>hb_map := m'\<rparr>" using assms(2) 1 by (auto simp: find_or_insert_def)
    note n = hash_insert_ok [OF m(1) i]
    have "hnames_ok m'" unfolding hnames_ok_def
    proof (intro conjI allI impI)
      fix b node q assume "hm_kv m' b = Some node" "kv_queue node = Some q"
      then have "b \<noteq> a'" using n(3) by auto
      then have "hm_kv (hb_map h) b = Some node" using n(5) [of b] \<open>hm_kv m' b = Some node\<close> by simp
      then show "hq_ok q" "kv_value node = 0" using m(2) \<open>kv_queue node = Some q\<close> unfolding hnames_ok_def by blast+
    qed (rule n(1))
    then show ?thesis using assms(1) n(2,3) e by (simp add: harbor_ok_def)
  next
    case (2 b node)
    then show ?thesis using assms by (auto simp: find_or_insert_def)
  qed
  then show "harbor_ok h1" "\<exists>node. hm_kv (hb_map h1) a = Some node" "hb_s h1 = hb_s h" "hb_id h1 = hb_id h" "hb_slave h1 = hb_slave h"
    "hash_search (hb_map h1) key = Some (Some a)" by auto
qed

text \<open>The walk that moves the messages of a name to the queue of a slave keeps both queues well formed.\<close>

definition queue_moved :: "harbor_msg_queue \<Rightarrow> keyvalue \<Rightarrow> slave \<Rightarrow> (harbor_msg_queue \<times> keyvalue) option" where
  "queue_moved hq node s =
     (case sl_queue s of
        None \<Rightarrow> Some (hq, node\<lparr>kv_queue := None\<rparr>)
      | Some sq \<Rightarrow> do { (queue1, sq1) \<leftarrow> drain push_queue_msg hq sq; Some (sq1, node\<lparr>kv_queue := Some queue1\<rparr>) })"

lemma queue_moved_ok:
  assumes "queue_moved hq node s = Some (sq, node')" "hq_ok hq" "slave_ok s"
  shows "hq_ok sq" "hq_contents sq = (case sl_queue s of None \<Rightarrow> [] | Some q \<Rightarrow> hq_contents q) @ hq_contents hq"
    "\<exists>q. node' = node\<lparr>kv_queue := q\<rparr> \<and> (\<forall>q1. q = Some q1 \<longrightarrow> hq_ok q1 \<and> hq_contents q1 = [])"
proof -
  have "hq_ok sq \<and> hq_contents sq = (case sl_queue s of None \<Rightarrow> [] | Some q \<Rightarrow> hq_contents q) @ hq_contents hq \<and>
    (\<exists>q. node' = node\<lparr>kv_queue := q\<rparr> \<and> (\<forall>q1. q = Some q1 \<longrightarrow> hq_ok q1 \<and> hq_contents q1 = []))"
  proof (cases "sl_queue s")
    case None
    then have "sq = hq" "node' = node\<lparr>kv_queue := None\<rparr>" using assms(1) by (auto simp: queue_moved_def)
    then show ?thesis using None assms(2) by (auto intro: exI [of _ None])
  next
    case (Some q)
    then obtain hq1 where d: "drain push_queue_msg hq q = Some (hq1, sq)" "node' = node\<lparr>kv_queue := Some hq1\<rparr>"
      using assms(1) by (auto simp: queue_moved_def)
    have "hq_ok q" using assms(3) Some by (simp add: slave_ok_def)
    from walk_push [OF this drain_Some(3) [OF assms(2) d(1)]] drain_Some(1,2) [OF assms(2) d(1)] d(2) Some
    show ?thesis by (intro conjI exI [of _ "Some hq1"]) auto
  qed
  then show "hq_ok sq" "hq_contents sq = (case sl_queue s of None \<Rightarrow> [] | Some q \<Rightarrow> hq_contents q) @ hq_contents hq"
    "\<exists>q. node' = node\<lparr>kv_queue := q\<rparr> \<and> (\<forall>q1. q = Some q1 \<longrightarrow> hq_ok q1 \<and> hq_contents q1 = [])" by simp_all
qed

text \<open>The branches of \<^verbatim>\<open>dispatch_name_queue\<close> for the queue \<open>hq\<close> of the node at \<open>a\<close>, whose handle is on harbor
  \<open>k\<close>.\<close>

lemma dispatch_name_queue_branches:
  assumes node: "hm_kv (hb_map h) a = Some node" "kv_queue node = Some hq"
    and k: "k = unat (drop_bit HANDLE_REMOTE_SHIFT (kv_value node))" "k < length (hb_s h)" "hb_s h ! k = s"
  shows "sl_fd s \<noteq> 0 \<Longrightarrow> dispatch_name_queue v h a w =
      do { (hq1, w1) \<leftarrow> drain (send_queued v (sl_fd s) \<circ> set_handle (kv_value node)) hq w;
           Some (h\<lparr>hb_map := kv_put a (node\<lparr>kv_queue := Some hq1\<rparr>) (hb_map h)\<rparr>, w1) }"
    "sl_fd s = 0 \<Longrightarrow> sl_status s = Wait \<Longrightarrow> k \<noteq> unat (drop_bit HANDLE_REMOTE_SHIFT (hb_slave h)) \<Longrightarrow>
      dispatch_name_queue v h a w =
      do { (sq, node1) \<leftarrow> queue_moved hq node s;
           Some (slave_put k (s\<lparr>sl_queue := Some sq\<rparr>) (h\<lparr>hb_map := kv_put a node1 (hb_map h)\<rparr>), w) }"
    "sl_fd s = 0 \<Longrightarrow> sl_status s = Wait \<Longrightarrow> k = unat (drop_bit HANDLE_REMOTE_SHIFT (hb_slave h)) \<Longrightarrow>
      dispatch_name_queue v h a w =
      do { (sq, node1) \<leftarrow> queue_moved hq node s;
           (sq1, w1) \<leftarrow> drain (send_here v (kv_value node)) sq w;
           w2 \<leftarrow> release_queue v sq1 w1;
           Some (slave_put k (s\<lparr>sl_queue := None\<rparr>) (h\<lparr>hb_map := kv_put a node1 (hb_map h)\<rparr>), w2) }"
  using assms by (simp_all add: dispatch_name_queue_def queue_moved_def Let_def)

lemma names_queue_ok:
  assumes "hnames_ok m" "hm_kv m a = Some node" "kv_queue node = Some q"
  shows "hq_ok q" "kv_value node = 0"
  using assms unfolding hnames_ok_def by blast+

text \<open>While the queue of a name is dispatched its handle is known already: the invariant holds but for that
  name.\<close>

lemma dispatch_name_queue_ok:
  assumes ok: "harbor_ok h" and node: "hm_kv (hb_map h) a = Some node" "kv_queue node = Some hq"
    and d: "dispatch_name_queue v (h\<lparr>hb_map := kv_put a (node\<lparr>kv_value := handle\<rparr>) (hb_map h)\<rparr>) a w = Some (h', w')"
  shows "length (hb_s h') = REMOTE_MAX \<and> list_all slave_ok (hb_s h') \<and>
    (\<exists>q. hb_map h' = kv_put a (node\<lparr>kv_value := handle, kv_queue := q\<rparr>) (kv_put a (node\<lparr>kv_value := handle\<rparr>) (hb_map h)))"
proof -
  let ?h = "h\<lparr>hb_map := kv_put a (node\<lparr>kv_value := handle\<rparr>) (hb_map h)\<rparr>" and ?node = "node\<lparr>kv_value := handle\<rparr>"
  let ?k = "unat (drop_bit HANDLE_REMOTE_SHIFT handle)"
  let ?s = "hb_s h ! ?k"
  have k: "?k < length (hb_s h)" using d by (auto simp: dispatch_name_queue_def kv_put_def node Let_def)
  have s: "slave_ok ?s" using slave_get_ok [OF ok k refl] .
  have q: "hq_ok hq" using names_queue_ok(1) [OF _ node] ok by (simp add: harbor_ok_def)
  have n: "hm_kv (hb_map ?h) a = Some ?node" "kv_queue ?node = Some hq" using node by (simp_all add: kv_put_def)
  have kk: "?k = unat (drop_bit HANDLE_REMOTE_SHIFT (kv_value ?node))" "?k < length (hb_s ?h)" "hb_s ?h ! ?k = ?s" using k by simp_all
  note b = dispatch_name_queue_branches [OF n kk, of v w]
  have put: "length (hb_s (slave_put ?k x h)) = REMOTE_MAX \<and> list_all slave_ok (hb_s (slave_put ?k x h))" if "slave_ok x" for x
    using slave_put_ok [OF ok that] by (simp add: harbor_ok_def)
  show ?thesis
  proof (cases "sl_fd ?s = 0")
    case False
    then show ?thesis using d [unfolded b(1) [OF False]] ok by (auto simp: harbor_ok_def)
  next
    case True
    then have w: "sl_status ?s = Wait" using s by (simp add: slave_ok_def)
    show ?thesis
    proof (cases "?k = unat (drop_bit HANDLE_REMOTE_SHIFT (hb_slave h))")
      case False
      then obtain sq node1 where m: "queue_moved hq ?node ?s = Some (sq, node1)"
        "h' = slave_put ?k (?s\<lparr>sl_queue := Some sq\<rparr>) (?h\<lparr>hb_map := kv_put a node1 (hb_map ?h)\<rparr>)"
        using d [unfolded b(2) [OF True w, simplified, OF False]] by auto
      have "slave_ok (?s\<lparr>sl_queue := Some sq\<rparr>)" using queue_moved_ok(1) [OF m(1) q s] w s by (simp add: slave_ok_def)
      then show ?thesis using put queue_moved_ok(3) [OF m(1) q s] m(2) by (auto simp: slave_put_def)
    next
      case here: True
      then obtain sq node1 where m: "queue_moved hq ?node ?s = Some (sq, node1)"
        "h' = slave_put ?k (?s\<lparr>sl_queue := None\<rparr>) (?h\<lparr>hb_map := kv_put a node1 (hb_map ?h)\<rparr>)"
        using d [unfolded b(3) [OF True w, simplified, OF here]] by auto
      have "slave_ok (?s\<lparr>sl_queue := None\<rparr>)" using w s by (simp add: slave_ok_def)
      then show ?thesis using put queue_moved_ok(3) [OF m(1) q s] m(2) by (auto simp: slave_put_def)
    qed
  qed
qed

lemma update_name_ok:
  assumes ok: "harbor_ok h" and u: "update_name v h key handle w = Some (h', w')"
  shows "harbor_ok h'"
proof -
  obtain a h1 where f: "find_or_insert h key = Some (a, h1)" using u by (auto simp: update_name_def)
  note i = find_or_insert_ok [OF ok f]
  obtain node where node: "hm_kv (hb_map h1) a = Some node" using i(2) by blast
  have m: "hnames_ok (hb_map h1)" using i(1) by (simp add: harbor_ok_def)
  have put: "hnames_ok (kv_put a (node\<lparr>kv_value := handle, kv_queue := None\<rparr>) (hb_map h1))"
    by (rule names_put_ok [OF m node]) simp_all
  let ?h2 = "h1\<lparr>hb_map := kv_put a (node\<lparr>kv_value := handle\<rparr>) (hb_map h1)\<rparr>"
  show ?thesis
  proof (cases "kv_queue node")
    case None
    then have "node\<lparr>kv_value := handle, kv_queue := None\<rparr> = node\<lparr>kv_value := handle\<rparr>" by simp
    moreover have "h' = ?h2" using u f node None by (simp add: update_name_def)
    ultimately show ?thesis using put i(1) by (simp add: harbor_ok_def)
  next
    case (Some hq)
    obtain h3 w1 where d: "dispatch_name_queue v ?h2 a w = Some (h3, w1)"
      "\<exists>node3. hm_kv (hb_map h3) a = Some node3 \<and> h' = h3\<lparr>hb_map := kv_put a (node3\<lparr>kv_queue := None\<rparr>) (hb_map h3)\<rparr>"
      using u f node Some by (auto simp: update_name_def)
    from dispatch_name_queue_ok [OF i(1) node Some d(1)] obtain q where
      h3: "length (hb_s h3) = REMOTE_MAX" "list_all slave_ok (hb_s h3)"
      "hb_map h3 = kv_put a (node\<lparr>kv_value := handle, kv_queue := q\<rparr>) (hb_map ?h2)" by auto
    have "hb_map h' = kv_put a (node\<lparr>kv_value := handle, kv_queue := None\<rparr>) (hb_map h1)" "hb_s h' = hb_s h3"
      using d(2) h3(3) by (auto simp: kv_put_def)
    then show ?thesis using h3 put by (simp add: harbor_ok_def)
  qed
qed

lemma remote_send_handle_ok:
  assumes ok: "harbor_ok h" and r: "remote_send_handle v h source destination typ session msg n w = Some (kept, h', w')"
  shows "harbor_ok h'"
proof -
  let ?k = "unat (drop_bit HANDLE_REMOTE_SHIFT destination)"
  let ?s = "hb_s h ! ?k"
  consider "h' = h" | q where "?k < length (hb_s h)" "sl_fd ?s = 0 \<or> sl_status ?s = Handshake" "sl_status ?s \<noteq> Down"
      "push_queue msg n (remote_header source destination typ session) (case sl_queue ?s of None \<Rightarrow> new_queue | Some q \<Rightarrow> q) = Some q"
      "h' = slave_put ?k (?s\<lparr>sl_queue := Some q\<rparr>) h"
  proof (cases "drop_bit HANDLE_REMOTE_SHIFT destination = hb_id h")
    case True
    then show thesis using r that(1) by (auto simp: remote_send_handle_def)
  next
    case False
    note d = r [unfolded remote_send_handle_def Let_def, simplified False, simplified]
    show thesis
    proof (cases "(sl_fd ?s = 0 \<or> sl_status ?s = Handshake) \<and> sl_status ?s \<noteq> Down")
      case True
      then show thesis using d that(2) by auto
    next
      case False
      then show thesis using d that(1) by (cases "sl_status ?s = Down"; cases "sl_fd ?s = 0") auto
    qed
  qed
  then show ?thesis
  proof cases
    case (2 q)
    have s: "slave_ok ?s" using slave_get_ok [OF ok 2(1) refl] .
    then have "hq_ok (case sl_queue ?s of None \<Rightarrow> new_queue | Some q \<Rightarrow> q)"
      by (auto simp: slave_ok_def new_queue_ok split: option.split)
    then have "slave_ok (?s\<lparr>sl_queue := Some q\<rparr>)" using push_queue_keeps(1) [OF _ 2(4)] s 2(2) by (auto simp: slave_ok_def)
    then show ?thesis unfolding 2(5) by (rule slave_put_ok [OF ok])
  qed (use ok in simp)
qed

lemma remote_send_name_ok:
  assumes ok: "harbor_ok h" and r: "remote_send_name v h source key typ session msg n w = Some (kept, h', w')"
  shows "harbor_ok h'"
proof -
  obtain a h1 where f: "find_or_insert h key = Some (a, h1)" using r by (auto simp: remote_send_name_def)
  note i = find_or_insert_ok [OF ok f]
  obtain node where node: "hm_kv (hb_map h1) a = Some node" using i(2) by blast
  show ?thesis
  proof (cases "kv_value node = 0")
    case False
    then show ?thesis using r f node remote_send_handle_ok [OF i(1)] by (auto simp: remote_send_name_def)
  next
    case True
    then obtain q where q: "push_queue msg n (remote_header source 0 typ session) (case kv_queue node of None \<Rightarrow> new_queue | Some q \<Rightarrow> q) = Some q"
      "h' = h1\<lparr>hb_map := kv_put a (node\<lparr>kv_queue := Some q\<rparr>) (hb_map h1)\<rparr>"
      using r f node by (auto simp: remote_send_name_def)
    have m: "hnames_ok (hb_map h1)" using i(1) by (simp add: harbor_ok_def)
    have "hq_ok (case kv_queue node of None \<Rightarrow> new_queue | Some q \<Rightarrow> q)"
      using names_queue_ok(1) [OF m node] by (auto simp: new_queue_ok split: option.split)
    then have "hnames_ok (kv_put a (node\<lparr>kv_queue := Some q\<rparr>) (hb_map h1))"
      using push_queue_keeps(1) [OF _ q(1)] True by (intro names_put_ok [OF m node]) auto
    then show ?thesis using i(1) q(2) by (simp add: harbor_ok_def)
  qed
qed

lemma connect_slave_ok:
  assumes ok: "harbor_ok h" and fd: "fd \<noteq> 0" and c: "connect_slave v h accepted fd k w = Some (h', w')"
  shows "harbor_ok h'"
proof -
  let ?s = "(hb_s h ! k)\<lparr>sl_fd := fd\<rparr>"
  consider "h' = h" | "k < length (hb_s h)" "h' = slave_put k (?s\<lparr>sl_status := Handshake\<rparr>) h"
    | s2 w1 where "k < length (hb_s h)" "dispatch_queue v (?s\<lparr>sl_status := Header\<rparr>) w1 = Some (s2, w')" "h' = slave_put k s2 h"
  proof (cases "0 < sl_fd (hb_s h ! k)")
    case True
    then show thesis using c that(1) by (auto simp: connect_slave_def)
  next
    case False
    then show thesis using c that(2,3) by (cases accepted) (auto simp: connect_slave_def Let_def)
  qed
  then show ?thesis
  proof cases
    case 2
    then have "slave_ok (?s\<lparr>sl_status := Handshake\<rparr>)" using slave_get_ok [OF ok 2(1) refl] fd by (auto simp: slave_ok_def)
    then show ?thesis unfolding 2(2) by (rule slave_put_ok [OF ok])
  next
    case 3
    have "slave_ok s2" using dispatch_queue_fields [OF 3(2)] fd slave_get_ok [OF ok 3(1) refl] by (simp add: slave_ok_def)
    then show ?thesis unfolding 3(3) by (rule slave_put_ok [OF ok])
  qed (use ok in simp)
qed

lemma harbor_command_ok:
  assumes "harbor_ok h" "harbor_command v h msg source w = Some (h', w')"
  shows "harbor_ok h'"
  using assms update_name_ok [OF assms(1)] connect_slave_ok [OF assms(1)]
  by (auto simp: harbor_command_def Let_def split: if_splits)

lemma mainloop_ok:
  assumes ok: "harbor_ok h" and m: "mainloop v h typ session source msg n w = Some (h', w')"
  shows "harbor_ok h'"
proof -
  consider "h' = h" | m where "socket_event v h typ m w = Some (h', w')" | bs where "harbor_command v h bs source w = Some (h', w')"
    | rmsg where "message_out v h session source rmsg w = Some (h', w')"
    using m by (auto simp: mainloop_def split: if_splits option.splits payload.splits)
  then show ?thesis
  proof cases
    case (2 m)
    then show ?thesis
      using ok push_socket_data_ok [OF ok] report_harbor_down_ok [OF ok] by (auto simp: socket_event_def Let_def split: if_splits)
  next
    case (4 rmsg)
    then show ?thesis
      using remote_send_name_ok [OF ok] remote_send_handle_ok [OF ok] by (auto simp: message_out_def split: if_splits)
  qed (use ok harbor_command_ok in auto)
qed

lemma harbor_run_ok: "harbor_run v h \<Longrightarrow> harbor_ok h"
  by (induction rule: harbor_run.induct) (erule harbor_init_ok [OF harbor_create_ok], erule (1) mainloop_ok)

section \<open>Connecting late is connecting early\<close>

text \<open>The messages that wait for a slave, and the walk that sends them.\<close>

definition waiting :: "slave \<Rightarrow> harbor_msg list" where
  "waiting s = (case sl_queue s of None \<Rightarrow> [] | Some q \<Rightarrow> hq_contents q)"

lemma dispatch_queue_walk:
  assumes "slave_ok s" "fd \<noteq> 0"
  shows "dispatch_queue v (s\<lparr>sl_fd := fd, sl_status := st\<rparr>) w =
    map_option (Pair (s\<lparr>sl_fd := fd, sl_status := st, sl_queue := None\<rparr>)) (walk (send_queued v fd) (waiting s) w)"
proof (cases "sl_queue s")
  case None
  then show ?thesis using assms(2) by (simp add: dispatch_queue_def waiting_def)
next
  case (Some q)
  then have q: "hq_ok q" using assms(1) by (simp add: slave_ok_def)
  from drain_release [OF q, of "send_queued v fd" w v "\<lambda>w2. Some (s\<lparr>sl_fd := fd, sl_status := st, sl_queue := None\<rparr>, w2)"]
  show ?thesis using assms(2) Some
    by (simp add: dispatch_queue_def waiting_def map_conv_bind_option comp_def)
qed

lemma connect_slave_accepted:
  assumes "harbor_ok h" "k < length (hb_s h)" "hb_s h ! k = s" "sl_fd s \<le> 0" "fd \<noteq> 0"
  shows "connect_slave v h True fd k w =
    map_option (Pair (slave_put k (s\<lparr>sl_fd := fd, sl_status := Header, sl_queue := None\<rparr>) h))
      (walk (send_queued v fd) (waiting s) (handshake v h (s\<lparr>sl_fd := fd\<rparr>) (sv_socket_start v 0 fd w)))"
  using assms dispatch_queue_walk [OF slave_get_ok [OF assms(1-3)] assms(5), of v Header]
  by (simp add: connect_slave_def Let_def map_conv_bind_option comp_def)

text \<open>The message as it waits in a queue.\<close>

definition queued_msg :: "u32 \<Rightarrow> cint \<Rightarrow> remote_message \<Rightarrow> harbor_msg" where
  "queued_msg source session rmsg =
     \<lparr>hm_header = remote_header source (rn_handle (rm_destination rmsg)) (rm_type rmsg) session,
      hm_buffer = rm_message rmsg, hm_size = rm_sz rmsg\<rparr>"

text \<open>A message for the slave \<open>k\<close>, not for a local service.\<close>

definition for_slave :: "harbor \<Rightarrow> nat \<Rightarrow> remote_message \<Rightarrow> bool" where
  "for_slave h k rmsg \<longleftrightarrow> rn_handle (rm_destination rmsg) \<noteq> 0 \<and>
     unat (drop_bit HANDLE_REMOTE_SHIFT (rn_handle (rm_destination rmsg))) = k \<and>
     drop_bit HANDLE_REMOTE_SHIFT (rn_handle (rm_destination rmsg)) \<noteq> hb_id h"

lemma message_out_waits:
  assumes ok: "harbor_ok h" and k: "k < length (hb_s h)" "hb_s h ! k = s" and m: "for_slave h k rmsg"
    and s: "sl_status s \<in> {Wait, Handshake}" "sl_fd s = 0 \<or> sl_status s = Handshake" and room: "length (waiting s) < HARBOR_QUEUE_LIMIT"
  shows "\<exists>q. message_out v h session source rmsg w = Some (slave_put k (s\<lparr>sl_queue := Some q\<rparr>) h, w) \<and>
    hq_ok q \<and> hq_contents q = waiting s @ [queued_msg source session rmsg]"
proof -
  let ?q = "case sl_queue s of None \<Rightarrow> new_queue | Some q \<Rightarrow> q"
  have "hq_ok ?q" "hq_contents ?q = waiting s"
    using slave_get_ok [OF ok k] by (auto simp: slave_ok_def new_queue_ok waiting_def split: option.split)
  then obtain q where q: "push_queue_msg (queued_msg source session rmsg) ?q = Some q" "hq_ok q"
      "hq_contents q = waiting s @ [queued_msg source session rmsg]"
    using hq.enq_ok [of ?q "queued_msg source session rmsg"] room by auto
  have "push_queue (rm_message rmsg) (rm_sz rmsg) (remote_header source (rn_handle (rm_destination rmsg)) (rm_type rmsg) session) ?q = Some q"
    using q(1) by (simp add: push_queue_def queued_msg_def)
  then have "message_out v h session source rmsg w = Some (slave_put k (s\<lparr>sl_queue := Some q\<rparr>) h, w)"
    using m k s by (auto simp: message_out_def remote_send_handle_def for_slave_def Let_def)
  then show ?thesis using q by blast
qed

lemma message_out_connected:
  assumes k: "k < length (hb_s h)" "hb_s h ! k = s" and m: "for_slave h k rmsg"
    and s: "sl_fd s \<noteq> 0" "sl_status s \<noteq> Handshake"
  shows "message_out v h session source rmsg w = map_option (Pair h) (send_queued v (sl_fd s) (queued_msg source session rmsg) w)"
  using assms
  by (simp add: message_out_def remote_send_handle_def for_slave_def send_queued_def queued_msg_def Let_def map_conv_bind_option comp_def
      bind_assoc)

text \<open>Messages one after the other, each with its source and session.\<close>

primrec messages_out :: "'w services \<Rightarrow> (u32 \<times> cint \<times> remote_message) list \<Rightarrow> harbor \<Rightarrow> 'w \<Rightarrow> (harbor \<times> 'w) option" where
  "messages_out v [] h w = Some (h, w)"
| "messages_out v (m # ms) h w =
     do { (h1, w1) \<leftarrow> message_out v h (fst (snd m)) (fst m) (snd (snd m)) w; messages_out v ms h1 w1 }"

lemma late_connect_one:
  assumes ok: "harbor_ok h" and k: "k < length (hb_s h)" "hb_s h ! k = s" and m: "for_slave h k rmsg"
    and s: "sl_fd s = 0" and fd: "fd \<noteq> 0" and room: "length (waiting s) < HARBOR_QUEUE_LIMIT"
  shows "Option.bind (message_out v h session source rmsg w) (\<lambda>(h1, w1). connect_slave v h1 True fd k w1) =
    Option.bind (connect_slave v h True fd k w) (\<lambda>(h1, w1). message_out v h1 session source rmsg w1)"
proof -
  have st: "sl_status s = Wait" using slave_get_ok [OF ok k] s by (simp add: slave_ok_def)
  obtain q where q: "message_out v h session source rmsg w = Some (slave_put k (s\<lparr>sl_queue := Some q\<rparr>) h, w)"
      "hq_ok q" "hq_contents q = waiting s @ [queued_msg source session rmsg]"
    using message_out_waits [OF ok k m _ _ room, of v session source w] s st by auto
  let ?h = "slave_put k (s\<lparr>sl_queue := Some q\<rparr>) h" and ?s = "s\<lparr>sl_queue := Some q\<rparr>"
    and ?s2 = "s\<lparr>sl_fd := fd, sl_status := Header, sl_queue := None\<rparr>"
  have ok1: "harbor_ok ?h" using slave_get_ok [OF ok k] st q(2) by (intro slave_put_ok [OF ok]) (simp add: slave_ok_def)
  have k1: "k < length (hb_s ?h)" "hb_s ?h ! k = ?s" using k by (simp_all add: slave_put_def)
  have c1: "connect_slave v ?h True fd k w = map_option (Pair (slave_put k ?s2 h))
      (walk (send_queued v fd) (waiting s @ [queued_msg source session rmsg])
        (handshake v h (s\<lparr>sl_fd := fd\<rparr>) (sv_socket_start v 0 fd w)))"
    using connect_slave_accepted [OF ok1 k1 _ fd, of v w] s q(3) by (simp add: waiting_def handshake_def slave_put_def)
  have c2: "message_out v (slave_put k ?s2 h) session source rmsg w1 =
      map_option (Pair (slave_put k ?s2 h)) (send_queued v fd (queued_msg source session rmsg) w1)" for w1
    using message_out_connected [of k "slave_put k ?s2 h" ?s2] k m fd by (simp add: slave_put_def for_slave_def)
  show ?thesis
    using connect_slave_accepted [OF ok k _ fd, of v w] s
    by (simp add: q(1) c1 c2 walk_append map_conv_bind_option bind_assoc comp_def)
qed

lemma late_connect:
  assumes "harbor_ok h" "k < length (hb_s h)" "hb_s h ! k = s" "\<forall>m \<in> set ms. for_slave h k (snd (snd m))"
    "sl_fd s = 0" "fd \<noteq> 0" "length (waiting s) + length ms \<le> HARBOR_QUEUE_LIMIT"
  shows "Option.bind (messages_out v ms h w) (\<lambda>(h1, w1). connect_slave v h1 True fd k w1) =
    Option.bind (connect_slave v h True fd k w) (\<lambda>(h1, w1). messages_out v ms h1 w1)"
  using assms
proof (induction ms arbitrary: h s)
  case Nil
  then show ?case by (cases "connect_slave v h True fd k w") auto
next
  case (Cons m ms)
  let ?m = "queued_msg (fst m) (fst (snd m)) (snd (snd m))"
  have st: "sl_status s = Wait" using slave_get_ok [OF Cons.prems(1-3)] Cons.prems(5) by (simp add: slave_ok_def)
  have m: "for_slave h k (snd (snd m))" and room: "length (waiting s) < HARBOR_QUEUE_LIMIT" using Cons.prems(4,7) by auto
  obtain q where q: "message_out v h (fst (snd m)) (fst m) (snd (snd m)) w = Some (slave_put k (s\<lparr>sl_queue := Some q\<rparr>) h, w)"
      "hq_ok q" "hq_contents q = waiting s @ [?m]"
    using message_out_waits [OF Cons.prems(1-3) m _ _ room, of v "fst (snd m)" "fst m" w] Cons.prems(5) st by auto
  let ?h = "slave_put k (s\<lparr>sl_queue := Some q\<rparr>) h"
  have "harbor_ok ?h"
    using slave_get_ok [OF Cons.prems(1-3)] st q(2) by (intro slave_put_ok [OF Cons.prems(1)]) (simp add: slave_ok_def)
  then have IH: "Option.bind (messages_out v ms ?h w) (\<lambda>(h1, w1). connect_slave v h1 True fd k w1) =
      Option.bind (connect_slave v ?h True fd k w) (\<lambda>(h1, w1). messages_out v ms h1 w1)"
    using Cons.prems q(3) by (intro Cons.IH [of ?h "s\<lparr>sl_queue := Some q\<rparr>"]) (auto simp: slave_put_def for_slave_def waiting_def)
  have one: "connect_slave v ?h True fd k w =
      Option.bind (connect_slave v h True fd k w) (\<lambda>(h1, w1). message_out v h1 (fst (snd m)) (fst m) (snd (snd m)) w1)"
    using late_connect_one [OF Cons.prems(1-3) m Cons.prems(5,6) room, of v "fst (snd m)" "fst m" w] q(1) by simp
  show ?case using IH q(1) by (simp add: one bind_assoc split_def)
qed

section \<open>Names\<close>

lemma kv_put_simps [simp]:
  "hm_kv (kv_put a x m) a = Some x"
  "kv_put a x (kv_put a y m) = kv_put a x m"
  by (simp_all add: kv_put_def)

lemma find_or_insert_again:
  assumes "harbor_ok h" "find_or_insert h key = Some (a, h0)" "hm_kv (hb_map h0) a = Some node"
    "kv_key node' = kv_key node" "kv_hash node' = kv_hash node"
  shows "find_or_insert (h0\<lparr>hb_map := kv_put a node' (hb_map h0)\<rparr>) key = Some (a, h0\<lparr>hb_map := kv_put a node' (hb_map h0)\<rparr>)"
  using find_or_insert_ok(6) [OF assms(1,2)] hash_search_put [OF assms(3-5)] by (simp add: find_or_insert_def)

text \<open>The messages that wait for a name.\<close>

definition name_waiting :: "keyvalue \<Rightarrow> harbor_msg list" where
  "name_waiting node = (case kv_queue node of None \<Rightarrow> [] | Some q \<Rightarrow> hq_contents q)"

lemma send_named_unknown:
  assumes ok: "harbor_ok h" and f: "find_or_insert h key = Some (a, h0)" "hm_kv (hb_map h0) a = Some node" "kv_value node = 0"
    and rmsg: "rn_handle (rm_destination rmsg) = 0" "rn_name (rm_destination rmsg) = key"
    and room: "length (name_waiting node) < HARBOR_QUEUE_LIMIT"
  shows "\<exists>q. hq_ok q \<and> hq_contents q = name_waiting node @ [queued_msg source session rmsg] \<and>
    message_out v h session source rmsg w =
      map_option (Pair (h0\<lparr>hb_map := kv_put a (node\<lparr>kv_queue := Some q\<rparr>) (hb_map h0)\<rparr>)) (send_text v 0 (hb_slave h) (''Q '' @ c_prefix key) w)"
proof -
  let ?q = "case kv_queue node of None \<Rightarrow> new_queue | Some q \<Rightarrow> q"
  note i = find_or_insert_ok [OF ok f(1)]
  have m: "hnames_ok (hb_map h0)" using i(1) by (simp add: harbor_ok_def)
  have "hq_ok ?q" "hq_contents ?q = name_waiting node"
    using names_queue_ok(1) [OF m f(2)] by (auto simp: new_queue_ok name_waiting_def split: option.split)
  then obtain q where q: "push_queue_msg (queued_msg source session rmsg) ?q = Some q" "hq_ok q"
      "hq_contents q = name_waiting node @ [queued_msg source session rmsg]"
    using hq.enq_ok [of ?q "queued_msg source session rmsg"] room by auto
  have "push_queue (rm_message rmsg) (rm_sz rmsg) (remote_header source 0 (rm_type rmsg) session) ?q = Some q"
    using q(1) rmsg(1) by (simp add: push_queue_def queued_msg_def)
  then show ?thesis
    using q f rmsg i(5)
    by (intro exI [of _ q]) (simp add: message_out_def remote_send_name_def map_conv_bind_option comp_def bind_assoc)
qed

lemma update_name_connected:
  assumes ok: "harbor_ok h" and f: "find_or_insert h key = Some (a, h0)" "hm_kv (hb_map h0) a = Some node"
    and k: "k = unat (drop_bit HANDLE_REMOTE_SHIFT handle)" "k < length (hb_s h)" "hb_s h ! k = s" and fd: "sl_fd s \<noteq> 0"
  shows "update_name v h key handle w =
    map_option (Pair (h0\<lparr>hb_map := kv_put a (node\<lparr>kv_value := handle, kv_queue := None\<rparr>) (hb_map h0)\<rparr>))
      (walk (send_queued v (sl_fd s) \<circ> set_handle handle) (name_waiting node) w)"
proof (cases "kv_queue node")
  case None
  then have e: "node\<lparr>kv_value := handle, kv_queue := None\<rparr> = node\<lparr>kv_value := handle\<rparr>" by simp
  show ?thesis unfolding e using None f by (simp add: update_name_def name_waiting_def)
next
  case (Some hq)
  note i = find_or_insert_ok [OF ok f(1)]
  have q: "hq_ok hq" using names_queue_ok(1) [OF _ f(2) Some] i(1) by (simp add: harbor_ok_def)
  let ?h2 = "h0\<lparr>hb_map := kv_put a (node\<lparr>kv_value := handle\<rparr>) (hb_map h0)\<rparr>" and ?node = "node\<lparr>kv_value := handle\<rparr>"
    and ?f = "send_queued v (sl_fd s) \<circ> set_handle handle"
  obtain q2 where q2: "hq_ok q2" "hq_contents q2 = []" "drain ?f hq w = map_option (Pair q2) (walk ?f (hq_contents hq) w)"
    using drain_walk [OF q, of ?f w] by (elim exE conjE)
  have n: "hm_kv (hb_map ?h2) a = Some ?node" "kv_queue ?node = Some hq" using Some by simp_all
  have kk: "k = unat (drop_bit HANDLE_REMOTE_SHIFT (kv_value ?node))" "k < length (hb_s ?h2)" "hb_s ?h2 ! k = s"
    using k i(3) by simp_all
  have d: "dispatch_name_queue v ?h2 a w =
      map_option (Pair (h0\<lparr>hb_map := kv_put a (?node\<lparr>kv_queue := Some q2\<rparr>) (hb_map h0)\<rparr>)) (walk ?f (hq_contents hq) w)"
    unfolding dispatch_name_queue_branches(1) [OF n kk fd]
    using q2(3) by (simp add: map_conv_bind_option comp_def bind_assoc)
  show ?thesis
    using f Some
    by (simp add: release_empty [OF q2(1,2)] update_name_def d name_waiting_def map_conv_bind_option comp_def bind_assoc)
qed

lemma set_handle_queued:
  assumes "rn_handle (rm_destination rmsg) = 0"
  shows "set_handle handle (queued_msg source session rmsg) =
    queued_msg source session (rmsg\<lparr>rm_destination := (rm_destination rmsg)\<lparr>rn_handle := handle\<rparr>\<rparr>)"
  using assms by (simp add: set_handle_def queued_msg_def remote_header_def)

text \<open>A message to a name before the answer of the slave is the message after it, when the harbor of the
  handle is connected: only the query is asked in addition.\<close>

lemma late_name:
  assumes ok: "harbor_ok h" and f: "find_or_insert h key = Some (a, h0)" "hm_kv (hb_map h0) a = Some node" "kv_value node = 0"
    and rmsg: "rn_handle (rm_destination rmsg) = 0" "rn_name (rm_destination rmsg) = key"
    and room: "length (name_waiting node) < HARBOR_QUEUE_LIMIT"
    and k: "k = unat (drop_bit HANDLE_REMOTE_SHIFT handle)" "k < length (hb_s h)" "hb_s h ! k = s"
      "drop_bit HANDLE_REMOTE_SHIFT handle \<noteq> hb_id h"
    and s: "sl_fd s \<noteq> 0" "sl_status s \<noteq> Handshake" and handle: "handle \<noteq> 0"
  shows "Option.bind (message_out v h session source rmsg w) (\<lambda>(h1, w1). update_name v h1 key handle w1) =
    Option.bind (send_text v 0 (hb_slave h) (''Q '' @ c_prefix key) w) (\<lambda>w1.
      Option.bind (update_name v h key handle w1) (\<lambda>(h2, w2). message_out v h2 session source rmsg w2))"
proof -
  obtain q where q: "hq_ok q" "hq_contents q = name_waiting node @ [queued_msg source session rmsg]"
    "message_out v h session source rmsg w =
      map_option (Pair (h0\<lparr>hb_map := kv_put a (node\<lparr>kv_queue := Some q\<rparr>) (hb_map h0)\<rparr>)) (send_text v 0 (hb_slave h) (''Q '' @ c_prefix key) w)"
    using send_named_unknown [OF ok f rmsg room, of source session v w] by (elim exE conjE)
  note i = find_or_insert_ok [OF ok f(1)]
  let ?h1 = "h0\<lparr>hb_map := kv_put a (node\<lparr>kv_queue := Some q\<rparr>) (hb_map h0)\<rparr>"
    and ?h2 = "h0\<lparr>hb_map := kv_put a (node\<lparr>kv_value := handle, kv_queue := None\<rparr>) (hb_map h0)\<rparr>"
  have m: "hnames_ok (hb_map h0)" using i(1) by (simp add: harbor_ok_def)
  have ok1: "harbor_ok ?h1" using i(1) names_put_ok [OF m f(2), of "node\<lparr>kv_queue := Some q\<rparr>"] q(1) f(3) by (simp add: harbor_ok_def)
  have f1: "find_or_insert ?h1 key = Some (a, ?h1)" by (rule find_or_insert_again [OF ok f(1,2)]) simp_all
  have f2: "find_or_insert ?h2 key = Some (a, ?h2)" by (rule find_or_insert_again [OF ok f(1,2)]) simp_all
  have u1: "update_name v ?h1 key handle w1 = map_option (Pair ?h2)
      (walk (send_queued v (sl_fd s) \<circ> set_handle handle) (name_waiting node @ [queued_msg source session rmsg]) w1)" for w1
    using update_name_connected [OF ok1 f1 _ k(1) _ _ s(1), of "node\<lparr>kv_queue := Some q\<rparr>"] k(2,3) i(3) q(2)
    by (simp add: name_waiting_def)
  have out2: "message_out v ?h2 session source rmsg w2 =
      map_option (Pair ?h2) (send_queued v (sl_fd s) (set_handle handle (queued_msg source session rmsg)) w2)" for w2
    using k s rmsg i(3,4) handle f2 unfolding set_handle_queued [OF rmsg(1)]
    by (simp add: message_out_def remote_send_name_def remote_send_handle_def send_queued_def queued_msg_def Let_def
        map_conv_bind_option comp_def bind_assoc)
  show ?thesis
    unfolding q(3) update_name_connected [OF ok f(1,2) k(1-3) s(1)]
    by (simp add: u1 out2 walk_append map_conv_bind_option bind_assoc comp_def)
qed

text \<open>When the harbor of the handle has not been connected, the message moves to the queue of that harbor
  as it is, without the handle.\<close>

lemma update_name_waits:
  assumes ok: "harbor_ok h" and f: "find_or_insert h key = Some (a, h0)" "hm_kv (hb_map h0) a = Some node" "kv_queue node = Some hq"
    and k: "k = unat (drop_bit HANDLE_REMOTE_SHIFT handle)" "k < length (hb_s h)" "hb_s h ! k = s"
      "k \<noteq> unat (drop_bit HANDLE_REMOTE_SHIFT (hb_slave h))"
    and s: "sl_fd s = 0" and u: "update_name v h key handle w = Some (h', w')"
  shows "waiting (hb_s h' ! k) = waiting s @ hq_contents hq"
proof -
  note i = find_or_insert_ok [OF ok f(1)]
  have so: "slave_ok s" using slave_get_ok [OF ok k(2,3)] .
  have q: "hq_ok hq" using names_queue_ok(1) [OF _ f(2,3)] i(1) by (simp add: harbor_ok_def)
  have st: "sl_status s = Wait" using so s by (simp add: slave_ok_def)
  let ?h2 = "h0\<lparr>hb_map := kv_put a (node\<lparr>kv_value := handle\<rparr>) (hb_map h0)\<rparr>" and ?node = "node\<lparr>kv_value := handle\<rparr>"
  have n: "hm_kv (hb_map ?h2) a = Some ?node" "kv_queue ?node = Some hq" using f(3) by simp_all
  have kk: "k = unat (drop_bit HANDLE_REMOTE_SHIFT (kv_value ?node))" "k < length (hb_s ?h2)" "hb_s ?h2 ! k = s"
    using k i(3) by simp_all
  have "k \<noteq> unat (drop_bit HANDLE_REMOTE_SHIFT (hb_slave ?h2))" using k(4) i(5) by simp
  note d = dispatch_name_queue_branches(2) [OF n kk s st this, of v w]
  obtain h3 w1 where h3: "dispatch_name_queue v ?h2 a w = Some (h3, w1)" "hb_s h' = hb_s h3"
    using u f by (auto simp: update_name_def)
  then obtain sq node1 where m: "queue_moved hq ?node s = Some (sq, node1)" "hb_s h3 ! k = s\<lparr>sl_queue := Some sq\<rparr>"
    using d k(2) i(3) by (auto simp: slave_put_def)
  show ?thesis using queue_moved_ok(2) [OF m(1) q so] m(2) h3(2) by (simp add: waiting_def)
qed

end
