(* ===== verification/Harbor_Frames.thy ===== *)
theory Harbor_Frames
  imports Harbor_Link
begin

text \<open>
  The byte stream between two harbors: what the receiving loop of theory Harbor makes of a stream does not
  depend on how the socket cuts it, and a frame that one harbor writes is the message that the other one
  hands to its services. The node is used only as memory here, through the laws of the locale
  \<open>block_store\<close>.
\<close>

section \<open>The state of a link\<close>

text \<open>Of a link that has been shut down only the number of header bytes that were read depends on the cuts:
  it is not used any more.\<close>

definition settled :: "slave \<Rightarrow> slave" where
  "settled s = (if sl_status s = Down then s\<lparr>sl_read := 0\<rparr> else s)"

abbreviation outcome_of :: "(slave \<times> 'w) option \<Rightarrow> (slave \<times> 'w) option" where
  "outcome_of \<equiv> map_option (apfst settled)"

lemma outcome_bind: "(\<And>x. m = Some x \<Longrightarrow> outcome_of (f x) = outcome_of (g x)) \<Longrightarrow> outcome_of (Option.bind m f) = outcome_of (Option.bind m g)"
  by (cases m) auto

lemma close_harbor_read:
  "outcome_of (close_harbor v (s\<lparr>sl_read := r\<rparr>) w) = outcome_of (close_harbor v s w)"
  by (cases "sl_queue s") (auto simp: close_harbor_def settled_def Let_def map_conv_bind_option bind_assoc)

lemma close_harbor_down: "close_harbor v s w = Some (s', w') \<Longrightarrow> sl_status s' = Down"
  by (auto simp: close_harbor_def Let_def split: option.splits)

lemma header_done_read:
  "outcome_of (header_done v h k sz rest (s\<lparr>sl_size := x, sl_read := r\<rparr>) w) = outcome_of (header_done v h k sz rest s w)"
proof -
  have "s\<lparr>sl_size := x, sl_read := r, sl_size := sz\<rparr> = (s\<lparr>sl_size := sz\<rparr>)\<lparr>sl_read := r\<rparr>" by simp
  then have "outcome_of (close_harbor v (s\<lparr>sl_size := x, sl_read := r, sl_size := sz\<rparr>) w1) = outcome_of (close_harbor v (s\<lparr>sl_size := sz\<rparr>) w1)" for w1
    using close_harbor_read [of v r "s\<lparr>sl_size := sz\<rparr>" w1] by metis
  then show ?thesis by (auto simp: header_done_def Let_def split_def intro!: outcome_bind)
qed

lemma content_done_read: "content_done v h k rest (s\<lparr>sl_read := r\<rparr>) = content_done v h k rest s"
  by (rule ext) (simp add: content_done_def)

text \<open>Going on with more bytes after a header or a message is complete.\<close>

lemma closed_then_idle:
  "Option.bind (close_harbor v s w) (\<lambda>(s1, w1). receive v h k b2 s1 w1) = close_harbor v s w"
proof (cases "close_harbor v s w")
  case (Some x)
  obtain s1 w1 where x: "x = (s1, w1)" by fastforce
  then have "sl_status s1 = Down" using Some close_harbor_down [of v s w s1 w1] by simp
  then show ?thesis using Some x by (simp add: receive_idle)
qed simp

lemma header_done_append:
  assumes b2: "b2 \<noteq> []"
    and IH: "\<And>s1 w1. rest \<noteq> [] \<Longrightarrow> sl_status s1 = Content \<Longrightarrow> sl_read s1 = 0 \<Longrightarrow> length (sl_size s1) = length sz \<Longrightarrow>
      outcome_of (receive v h k (rest @ b2) s1 w1) =
      outcome_of (Option.bind (receive v h k rest s1 w1) (\<lambda>(s1, w1). receive v h k b2 s1 w1))"
  shows "outcome_of (header_done v h k sz (rest @ b2) s w) =
    outcome_of (Option.bind (header_done v h k sz rest s w) (\<lambda>(s1, w1). receive v h k b2 s1 w1))"
proof (cases "sz ! 0 = 0")
  case False
  then show ?thesis by (simp add: header_done_def bind_assoc closed_then_idle)
next
  case True
  obtain p w1 where p: "sv_alloc v (Bytes []) w = (p, w1)" by fastforce
  show ?thesis using True p b2 IH by (cases "rest = []") (simp_all add: header_done_def)
qed

lemma content_done_append:
  assumes b2: "b2 \<noteq> []"
    and IH: "\<And>s1 w1. rest \<noteq> [] \<Longrightarrow> sl_status s1 = Header \<Longrightarrow> sl_read s1 = 0 \<Longrightarrow> sl_size s1 = sl_size s \<Longrightarrow>
      outcome_of (receive v h k (rest @ b2) s1 w1) =
      outcome_of (Option.bind (receive v h k rest s1 w1) (\<lambda>(s1, w1). receive v h k b2 s1 w1))"
  shows "outcome_of (content_done v h k (rest @ b2) s w) =
    outcome_of (Option.bind (content_done v h k rest s w) (\<lambda>(s1, w1). receive v h k b2 s1 w1))"
  unfolding content_done_def bind_assoc
proof (rule outcome_bind)
  fix w2
  show "outcome_of (let s1 = s\<lparr>sl_length := 0, sl_read := 0, sl_recv_buffer := None, sl_status := Header\<rparr>
      in if rest @ b2 = [] then Some (s1, w2) else receive v h k (rest @ b2) s1 w2) =
    outcome_of (Option.bind (let s1 = s\<lparr>sl_length := 0, sl_read := 0, sl_recv_buffer := None, sl_status := Header\<rparr>
      in if rest = [] then Some (s1, w2) else receive v h k rest s1 w2) (\<lambda>(s1, w1). receive v h k b2 s1 w1))"
    using b2 IH by (cases "rest = []") (simp_all add: Let_def)
qed

section \<open>Memory\<close>

locale block_store =
  fixes v :: "'w services"
  assumes store_load: "sv_store v p x w = Some w' \<Longrightarrow> sv_load v p w' = Some x"
    and store_store: "sv_store v p x w = Some w' \<Longrightarrow> sv_store v p y w' = sv_store v p y w"
    and store_defined: "sv_load v p w = Some y \<Longrightarrow> \<exists>w'. sv_store v p x w = Some w'"
    and alloc_load: "sv_alloc v x w = (p, w') \<Longrightarrow> sv_load v p w' = Some x"
begin

lemma store_bytes_append:
  "store_bytes v p off (xs @ ys) w =
   Option.bind (store_bytes v p off xs w) (store_bytes v p (off + length xs) ys)"
proof (cases "sv_load v p w")
  case None
  then show ?thesis by (simp add: store_bytes_def)
next
  case (Some x)
  show ?thesis
  proof (cases "\<exists>old. x = Bytes old \<and> off \<le> length old")
    case False
    then show ?thesis using Some by (auto simp: store_bytes_def split: payload.split)
  next
    case True
    then obtain old where old: "x = Bytes old" "off \<le> length old" by blast
    let ?new = "take off old @ xs @ drop (off + length xs) old"
    obtain w1 where w1: "sv_store v p (Bytes ?new) w = Some w1" using store_defined [OF Some] by blast
    have "take (off + length xs) ?new = take off old @ xs" "drop (off + length xs + length ys) ?new = drop (off + length xs + length ys) old"
      using old(2) by (simp_all add: add.commute)
    then show ?thesis
      using Some old store_load [OF w1] store_store [OF w1] by (simp add: store_bytes_def w1 add.assoc)
  qed
qed

lemma store_nothing:
  "store_bytes v p off [] w = Some w1 \<Longrightarrow> store_bytes v p off xs w1 = store_bytes v p off xs w"
  using store_bytes_append [of p off "[]" xs w] by simp

lemma store_at_end:
  assumes "sv_load v p w = Some (Bytes old)"
  shows "\<exists>w'. store_bytes v p (length old) xs w = Some w' \<and> sv_load v p w' = Some (Bytes (old @ xs))"
proof -
  obtain w' where w': "sv_store v p (Bytes (old @ xs)) w = Some w'" using store_defined [OF assms] by blast
  then show ?thesis using assms store_load [OF w'] by (simp add: store_bytes_def)
qed

section \<open>The cuts of the stream\<close>

lemma receive_append:
  assumes "length (sl_size s) = 4" "b2 \<noteq> []" "sl_status s = Handshake \<longrightarrow> b1 \<noteq> []"
  shows "outcome_of (receive v h k (b1 @ b2) s w) =
    outcome_of (Option.bind (receive v h k b1 s w) (\<lambda>(s1, w1). receive v h k b2 s1 w1))"
  using assms
proof (induction "rounds b1 s" arbitrary: b1 s w rule: less_induct)
  case less
  show ?case
  proof (cases "sl_status s")
    case Wait
    then show ?thesis by (simp add: receive_idle)
  next
    case Down
    then show ?thesis by (simp add: receive_idle)
  next
    case Handshake
    then obtain b rest where b1: "b1 = b # rest" using less.prems(3) by (cases b1) auto
    show ?thesis
    proof (cases "unat b = k")
      case False
      then show ?thesis by (simp add: b1 receive_handshake(2) [OF Handshake] bind_assoc closed_then_idle)
    next
      case True
      have "outcome_of (receive v h k (rest @ b2) s1 w1) =
          outcome_of (Option.bind (receive v h k rest s1 w1) (\<lambda>(s1, w1). receive v h k b2 s1 w1))"
        if "dispatch_queue v (s\<lparr>sl_status := Header\<rparr>) w = Some (s1, w1)" for s1 w1
        using dispatch_queue_fields [OF that] less.prems(1,2) b1 by (intro less.hyps) (auto simp: rounds_def)
      then show ?thesis using True
        by (auto simp: b1 receive_handshake(2) [OF Handshake] bind_assoc split_def intro!: outcome_bind)
    qed
  next
    case Header
    let ?r = "sl_read s" and ?n = "length b1"
    consider "4 < ?r" | "?r + ?n < 4" "?r + ?n + length b2 < 4" | "?r + ?n < 4" "4 \<le> ?r + ?n + length b2" | "?r \<le> 4" "4 \<le> ?r + ?n"
      by linarith
    then show ?thesis
    proof cases
      case 1
      then show ?thesis by (simp add: receive_header(2) [OF Header])
    next
      case 2
      then show ?thesis using less.prems(1) by (simp add: receive_header(1) [OF Header] receive_header(1) Header ac_simps)
    next
      case 3
      let ?s = "s\<lparr>sl_size := take ?r (sl_size s) @ b1 @ drop (?r + ?n) (sl_size s), sl_read := ?r + ?n\<rparr>"
      have sz: "take (sl_read ?s) (sl_size ?s) @ take (4 - sl_read ?s) b2 = take ?r (sl_size s) @ take (4 - ?r) (b1 @ b2)"
        "drop (4 - sl_read ?s) b2 = drop (4 - ?r) (b1 @ b2)"
        using 3 less.prems(1) by (simp_all add: add.commute)
      have hs: "sl_status ?s = Header" using Header by simp
      have "receive v h k b2 ?s w = header_done v h k (take ?r (sl_size s) @ take (4 - ?r) (b1 @ b2)) (drop (4 - ?r) (b1 @ b2)) ?s w"
        using 3 receive_header(3) [OF hs, of b2 v h k w] unfolding sz by simp
      then show ?thesis
        using 3 by (simp add: receive_header(3) [OF Header] receive_header(1) [OF Header] header_done_read del: take_append drop_append)
    next
      case 4
      let ?rest = "drop (4 - ?r) b1"
      have e: "take (4 - ?r) (b1 @ b2) = take (4 - ?r) b1" "drop (4 - ?r) (b1 @ b2) = ?rest @ b2" using 4 by simp_all
      have "outcome_of (receive v h k (?rest @ b2) s1 w1) =
          outcome_of (Option.bind (receive v h k ?rest s1 w1) (\<lambda>(s1, w1). receive v h k b2 s1 w1))"
        if "?rest \<noteq> []" "sl_status s1 = Content" "sl_read s1 = 0" "length (sl_size s1) = length (take ?r (sl_size s) @ take (4 - ?r) b1)" for s1 w1
        using that less.prems(1,2) 4 by (intro less.hyps) (auto simp: rounds_def)
      note app = header_done_append [where s = s and w = w and sz = "take ?r (sl_size s) @ take (4 - ?r) b1" and rest = ?rest, OF less.prems(2) this]
      have "4 \<le> ?r + length (b1 @ b2)" using 4 by simp
      note r2 = receive_header(3) [OF Header this 4(1), of v h k w, unfolded e]
      show ?thesis unfolding r2 receive_header(3) [OF Header 4(2,1)] by (rule app)
    qed
  next
    case Content
    let ?r = "sl_read s" and ?n = "length b1" and ?p = "sl_recv_buffer s"
    consider "sl_length s < ?r" | "?r + ?n < sl_length s" "?r + ?n + length b2 < sl_length s"
      | "?r + ?n < sl_length s" "sl_length s \<le> ?r + ?n + length b2" | "?r \<le> sl_length s" "sl_length s \<le> ?r + ?n"
      by linarith
    then show ?thesis
    proof cases
      case 1
      then show ?thesis by (simp add: receive_content(2) [OF Content])
    next
      case 2
      then show ?thesis
        by (simp add: receive_content(1) [OF Content] receive_content(1) Content store_bytes_append bind_assoc add.assoc)
    next
      case 3
      let ?s = "s\<lparr>sl_read := ?r + ?n\<rparr>"
      have e: "take (sl_length s - ?r) (b1 @ b2) = b1 @ take (sl_length s - (?r + ?n)) b2"
        "drop (sl_length s - ?r) (b1 @ b2) = drop (sl_length s - (?r + ?n)) b2" using 3 by simp_all
      have hs: "sl_status ?s = Content" using Content by simp
      have "receive v h k b2 ?s w1 = Option.bind (store_bytes v ?p (?r + ?n) (take (sl_length s - (?r + ?n)) b2) w1)
          (content_done v h k (drop (sl_length s - (?r + ?n)) b2) s)" for w1
        using 3 receive_content(3) [OF hs, of b2 v h k w1] by (simp add: content_done_read)
      then show ?thesis
        using 3 receive_content(3) [OF Content, of "b1 @ b2" v h k w] e
        by (simp add: receive_content(1) [OF Content] store_bytes_append bind_assoc)
    next
      case 4
      let ?rest = "drop (sl_length s - ?r) b1"
      have e: "take (sl_length s - ?r) (b1 @ b2) = take (sl_length s - ?r) b1" "drop (sl_length s - ?r) (b1 @ b2) = ?rest @ b2"
        using 4 by simp_all
      show ?thesis
      proof (cases "12 \<le> sl_length s")
        case False
        then have "content_done v h k b s w1 = None" for b w1
          by (simp add: content_done_def forward_local_messsage_def HEADER_COOKIE_LENGTH_def)
        then show ?thesis
          using 4 receive_content(3) [OF Content, of b1 v h k w] receive_content(3) [OF Content, of "b1 @ b2" v h k w] e by simp
      next
        case True
        have "outcome_of (receive v h k (?rest @ b2) s1 w1) =
            outcome_of (Option.bind (receive v h k ?rest s1 w1) (\<lambda>(s1, w1). receive v h k b2 s1 w1))"
          if "?rest \<noteq> []" "sl_status s1 = Header" "sl_read s1 = 0" "sl_size s1 = sl_size s" for s1 w1
          using that less.prems(1,2) 4 True by (intro less.hyps) (auto simp: rounds_def)
        note app = content_done_append [where s = s and rest = ?rest, OF less.prems(2) this]
        have "sl_length s \<le> ?r + length (b1 @ b2)" using 4 by simp
        note r2 = receive_content(3) [OF Content this 4(1), of v h k w, unfolded e]
        show ?thesis unfolding r2 receive_content(3) [OF Content 4(2,1)] bind_assoc by (rule outcome_bind) (rule app)
      qed
    qed
  qed
qed

end

section \<open>Frames\<close>

lemma be_byte: "unat (ucast (drop_bit i n AND 0xff) :: byte) = unat n div 2 ^ i mod 256" for n :: u32
proof -
  have m: "drop_bit i n AND 0xff = take_bit 8 (drop_bit i n)" by (simp add: take_bit_eq_mask byte_mask)
  have "unat (take_bit 8 (drop_bit i n)) = unat n div 2 ^ i mod 2 ^ 8"
    by (simp only: unsigned_take_bit_eq unat_drop_bit take_bit_eq_mod [of 8 "unat n div 2 ^ i"])
  then have "take_bit 8 (unat (take_bit 8 (drop_bit i n))) = unat n div 2 ^ i mod 2 ^ 8"
    by (simp only: take_bit_eq_mod mod_mod_trivial)
  then show ?thesis unfolding m by (simp add: unsigned_ucast_eq)
qed

lemma to_bigendian_nth:
  "to_bigendian n ! 1 = ucast (drop_bit 16 n AND 0xff)" "to_bigendian n ! 2 = ucast (drop_bit 8 n AND 0xff)"
  "to_bigendian n ! 3 = ucast (drop_bit 0 n AND 0xff)"
  by (simp_all add: to_bigendian_def eval_nat_numeral)

lemma length_to_bigendian [simp]: "length (to_bigendian n) = 4"
  by (simp add: to_bigendian_def)

lemma length_header_to_message [simp]: "length (header_to_message header) = 12"
  by (simp add: header_to_message_def)

lemma header_to_message_nonempty [simp]: "header_to_message header \<noteq> []"
  using length_header_to_message [of header] by fastforce

lemma length_frame [simp]: "length (frame bs header) = length bs + 16"
  by (simp add: frame_def)

lemma three_bytes:
  fixes n :: nat
  assumes "n < 2 ^ 24"
  shows "n div 2 ^ 16 mod 256 * 2 ^ 16 + n div 2 ^ 8 mod 256 * 2 ^ 8 + n mod 256 = n"
proof -
  define m where "m = n div 256"
  have d: "n div 65536 = m div 256" using div_mult2_eq [of n 256 256] by (simp add: m_def)
  have "m div 256 < 256" using assms by (simp add: m_def less_mult_imp_div_less)
  then have "m div 256 mod 256 * 256 + m mod 256 = m" using div_mult_mod_eq [of m 256] by simp
  then have "m div 256 mod 256 * 65536 + m mod 256 * 256 = m * 256" by linarith
  moreover have "m * 256 + n mod 256 = n" using div_mult_mod_eq [of n 256] by (simp only: m_def)
  moreover have p: "(2::nat) ^ 16 = 65536" "(2::nat) ^ 8 = 256" by simp_all
  ultimately show ?thesis unfolding p d m_def [symmetric] by linarith
qed

lemma from_to_bigendian:
  assumes "length xs = 4 * i"
  shows "from_bigendian (xs @ to_bigendian n @ ys) i = n"
proof -
  have nth: "(xs @ to_bigendian n @ ys) ! (4 * i + k) = to_bigendian n ! k" if "k < 4" for k
    using that assms by (simp add: nth_append)
  have "(xs @ to_bigendian n @ ys) ! (4 * i) = to_bigendian n ! 0" using nth [of 0] by simp
  then show ?thesis using nth [of 1] nth [of 2] nth [of 3] uint32_bytes [of n]
    by (simp add: from_bigendian_def to_bigendian_def eval_nat_numeral ac_simps)
qed

lemma message_header_roundtrip: "message_to_header (header_to_message header) = header"
proof -
  have "from_bigendian (header_to_message header) 0 = hdr_source header"
    using from_to_bigendian [of "[]" 0] by (simp add: header_to_message_def)
  moreover have "from_bigendian (header_to_message header) 1 = hdr_destination header"
    using from_to_bigendian [of "to_bigendian (hdr_source header)" 1] by (simp add: header_to_message_def)
  moreover have "from_bigendian (header_to_message header) 2 = hdr_session header"
    using from_to_bigendian [of "to_bigendian (hdr_source header) @ to_bigendian (hdr_destination header)" 2 _ "[]"]
    by (simp add: header_to_message_def)
  ultimately show ?thesis by (simp add: message_to_header_def)
qed

lemma frame_length_value:
  assumes "n < 2 ^ 32"
  shows "to_bigendian (of_nat n) ! 0 = 0 \<longleftrightarrow> n < 2 ^ 24" "n < 2 ^ 24 \<Longrightarrow> frame_length (to_bigendian (of_nat n)) = n"
proof -
  have n: "unat (of_nat n :: u32) = n" using assms by (simp add: unat_of_nat)
  have "unat (to_bigendian (of_nat n) ! 0) = n div 2 ^ 24 mod 256"
    using be_byte [of 24 "of_nat n"] n by (simp add: to_bigendian_def)
  moreover have "n div 2 ^ 24 mod 256 = n div 2 ^ 24" using assms by (intro mod_less) (simp add: less_mult_imp_div_less)
  ultimately show "to_bigendian (of_nat n) ! 0 = 0 \<longleftrightarrow> n < 2 ^ 24"
    by (metis div_eq_0_iff unsigned_eq_0_iff zero_neq_numeral power_eq_0_iff)
  show "frame_length (to_bigendian (of_nat n)) = n" if "n < 2 ^ 24"
  proof -
    have "unat (to_bigendian (of_nat n) ! 1) = n div 2 ^ 16 mod 256" "unat (to_bigendian (of_nat n) ! 2) = n div 2 ^ 8 mod 256"
      "unat (to_bigendian (of_nat n) ! 3) = n mod 256"
      unfolding to_bigendian_nth be_byte n by simp_all
    then show ?thesis using three_bytes [OF that] by (simp only: frame_length_def)
  qed
qed

lemma header_of_frame:
  assumes "length bs + 12 < 2 ^ 32"
  shows "take 4 (frame bs header) = to_bigendian (of_nat (length bs + 12))"
    "drop 4 (frame bs header) = bs @ header_to_message header"
  by (simp_all add: frame_def HEADER_COOKIE_LENGTH_def)

text \<open>A frame that is longer than the three bytes can say is written all the same, and ends the connection at
  the other side.\<close>

lemma receive_long_frame:
  assumes "sl_status s = Header" "sl_read s = 0" "2 ^ 24 \<le> length bs + 12" "length bs + 12 < 2 ^ 32"
  shows "receive v h k (frame bs header) s w =
    do { w1 \<leftarrow> sv_error v (''Message is too long from harbor '' @ fmt_d (int k)) w;
         close_harbor v (s\<lparr>sl_size := take 4 (frame bs header)\<rparr>) w1 }"
proof -
  have "to_bigendian (of_nat (length bs + 12)) ! 0 \<noteq> 0" using frame_length_value(1) [OF assms(4)] assms(3) by simp
  then show ?thesis
    using receive_header(3) [OF assms(1), of "frame bs header" v h k w] assms(2)
    by (simp only: header_of_frame [OF assms(4)] length_frame) (simp add: header_done_def header_of_frame [OF assms(4)])
qed

text \<open>A length below the size of a header makes the service read in front of its buffer.\<close>

lemma receive_short_frame:
  assumes "sl_status s = Header" "sl_read s = 0" "n < 12" "n \<le> length bs" "bs \<noteq> []"
  shows "receive v h k (to_bigendian (of_nat n) @ bs) s w = None"
proof -
  have n: "n < 2 ^ 32" "n < 2 ^ 24" using assms(3) by simp_all
  let ?sz = "to_bigendian (of_nat n)"
  obtain p w1 where p: "sv_alloc v (Bytes []) w = (p, w1)" by fastforce
  let ?s = "s\<lparr>sl_size := ?sz, sl_length := n, sl_read := 0, sl_recv_buffer := p, sl_status := Content\<rparr>"
  have "receive v h k (?sz @ bs) s w = header_done v h k ?sz bs s w"
    using receive_header(3) [OF assms(1), of "?sz @ bs" v h k w] assms(2) by simp
  also have "\<dots> = receive v h k bs ?s w1"
    using frame_length_value [OF n(1)] n(2) p assms(5) by (simp add: header_done_def)
  also have "\<dots> = None"
  proof -
    have st: "sl_status ?s = Content" "sl_length ?s \<le> sl_read ?s + length bs" "sl_read ?s \<le> sl_length ?s" using assms(4) by simp_all
    have "content_done v h k r ?s w2 = None" for r w2
      using assms(3) by (simp add: content_done_def forward_local_messsage_def HEADER_COOKIE_LENGTH_def)
    then show ?thesis unfolding receive_content(3) [OF st] by (cases "store_bytes v (sl_recv_buffer ?s) (sl_read ?s) (take (sl_length ?s - sl_read ?s) bs) w1") simp_all
  qed
  finally show ?thesis .
qed

text \<open>A frame on an idle connection: one message to a service of this node.\<close>

context block_store
begin

lemma forward_loaded:
  assumes "sv_load v p w = Some (Bytes (bs @ header_to_message header))"
  shows "forward_local_messsage v h p (length bs + 12) w = deliver v h header p (length bs) w"
  using assms
  by (simp add: forward_local_messsage_def load_bytes_def HEADER_COOKIE_LENGTH_def message_header_roundtrip)

lemma receive_frame:
  assumes s: "sl_status s = Header" "sl_read s = 0" and n: "length bs + 12 < 2 ^ 24" and p: "sv_alloc v (Bytes []) w = (p, w1)"
  shows "\<exists>w2. store_bytes v p 0 (bs @ header_to_message header) w1 = Some w2 \<and>
    sv_load v p w2 = Some (Bytes (bs @ header_to_message header)) \<and>
    receive v h k (frame bs header) s w =
      map_option (Pair (s\<lparr>sl_size := take 4 (frame bs header), sl_length := 0, sl_read := 0, sl_recv_buffer := None, sl_status := Header\<rparr>)) (deliver v h header p (length bs) w2)"
proof -
  let ?n = "length bs + 12" and ?m = "bs @ header_to_message header"
  have n2: "?n < 2 ^ 32" using n by simp
  let ?sz = "to_bigendian (of_nat ?n)"
  obtain w2 where w2: "store_bytes v p 0 ?m w1 = Some w2" "sv_load v p w2 = Some (Bytes ?m)"
    using store_at_end [OF alloc_load [OF p], of ?m] by auto
  let ?s = "s\<lparr>sl_size := ?sz, sl_length := ?n, sl_read := 0, sl_recv_buffer := p, sl_status := Content\<rparr>"
  have "receive v h k (frame bs header) s w = header_done v h k ?sz ?m s w"
    using receive_header(3) [OF s(1), of "frame bs header" v h k w] s(2) header_of_frame [OF n2, of header] by simp
  also have "\<dots> = receive v h k ?m ?s w1"
    using frame_length_value [OF n2] n p by (simp add: header_done_def Let_def)
  also have "\<dots> = content_done v h k [] ?s w2"
    using receive_content(3) [of ?s ?m v h k w1] w2(1) by simp
  also have "\<dots> = map_option (Pair (s\<lparr>sl_size := ?sz, sl_length := 0, sl_read := 0, sl_recv_buffer := None, sl_status := Header\<rparr>)) (deliver v h header p (length bs) w2)"
    using forward_loaded [OF w2(2), of h] s by (simp add: content_done_def map_conv_bind_option comp_def Let_def)
  finally show ?thesis using w2 header_of_frame(1) [OF n2, of header] by simp
qed

end

end
