(* ===== verification/Harbor_Node.thy ===== *)
theory Harbor_Node
  imports Harbor_Frames Command
begin

text \<open>
  The harbor service on the node that runs it: the functions it calls are those of theories Node and
  Command, run for the context \<open>c\<close> of the service. The calls of the socket functions, which are not
  modelled, are kept in the order in which they are made. The theorems on the service are stated here.
\<close>

section \<open>The node as the services of the harbor\<close>

datatype socket_call = Socket_send int "byte list" int | Socket_start cint int | Socket_close int

type_synonym harbor_world = "node \<times> socket_call list"

definition on_node :: "(node \<Rightarrow> node option) \<Rightarrow> harbor_world \<Rightarrow> harbor_world option" where
  "on_node f hw = map_option (\<lambda>n. (n, snd hw)) (f (fst hw))"

definition call_socket :: "socket_call \<Rightarrow> harbor_world \<Rightarrow> harbor_world" where
  "call_socket x hw = (fst hw, snd hw @ [x])"

definition load_block :: "ptr \<Rightarrow> node \<Rightarrow> payload option" where
  "load_block p n = do { a \<leftarrow> p; heap n a }"

definition store_block :: "ptr \<Rightarrow> payload \<Rightarrow> node \<Rightarrow> node option" where
  "store_block p x n = do { a \<leftarrow> p; assert_c (heap n a \<noteq> None); Some (n\<lparr>heap := (heap n)(a \<mapsto> x)\<rparr>) }"

text \<open>\<open>ud\<close> and \<open>f\<close> are the addresses of the harbor and of its callback.\<close>

definition node_services :: "world \<Rightarrow> ctxref \<Rightarrow> nat \<Rightarrow> nat \<Rightarrow> harbor_world services" where
  "node_services W c ud f =
     \<lparr>sv_send = (\<lambda>source destination typ session p sz hw.
        map_option (\<lambda>(r, n). (r, n, snd hw)) (ztask_send W (Some c) source destination typ session p sz (fst hw))),
      sv_error = (\<lambda>txt. on_node (ztask_error W (Some c) txt)),
      sv_alloc = (\<lambda>x hw. let (p, n) = node_malloc x (fst hw) in (p, n, snd hw)),
      sv_free = (\<lambda>p. on_node (node_free p)),
      sv_load = (\<lambda>p hw. load_block p (fst hw)),
      sv_store = (\<lambda>p x. on_node (store_block p x)),
      sv_socket_send = (\<lambda>fd bs n. call_socket (Socket_send fd bs n)),
      sv_socket_start = (\<lambda>session fd. call_socket (Socket_start session fd)),
      sv_socket_close = (\<lambda>fd. call_socket (Socket_close fd)),
      sv_callback = on_node (ztask_callback c (Some ud) (Some f)),
      sv_harbor_start = on_node (ztask_harbor_start c),
      sv_alias = (\<lambda>alias. on_node (\<lambda>n. map_option snd (ztask_alias c (Some alias) n)))\<rparr>"

interpretation blocks: block_store "node_services W c ud f" for W c ud f
  by unfold_locales
    (auto simp: node_services_def on_node_def store_block_def load_block_def node_malloc_def Let_def)

section \<open>Pieces of a stream\<close>

primrec receive_pieces :: "'w services \<Rightarrow> harbor \<Rightarrow> nat \<Rightarrow> byte list list \<Rightarrow> slave \<Rightarrow> 'w \<Rightarrow> (slave \<times> 'w) option" where
  "receive_pieces v h k [] s w = Some (s, w)"
| "receive_pieces v h k (b # bs) s w = do { (s1, w1) \<leftarrow> receive v h k b s w; receive_pieces v h k bs s1 w1 }"

lemma receive_pieces_concat:
  assumes "slave_ok s" "[] \<notin> set pieces" "pieces \<noteq> []"
  shows "outcome_of (receive_pieces (node_services W c ud f) h k pieces s w) =
    outcome_of (receive (node_services W c ud f) h k (concat pieces) s w)"
  using assms
proof (induction pieces arbitrary: s w)
  case (Cons b bs)
  let ?v = "node_services W c ud f"
  show ?case
  proof (cases "bs = []")
    case True
    then show ?thesis by (cases "receive ?v h k b s w") auto
  next
    case False
    have "outcome_of (receive_pieces ?v h k (b # bs) s w) =
        outcome_of (Option.bind (receive ?v h k b s w) (\<lambda>(s1, w1). receive ?v h k (concat bs) s1 w1))"
      unfolding receive_pieces.simps
    proof (rule outcome_bind)
      fix x assume x: "receive ?v h k b s w = Some x"
      obtain s1 w1 where e: "x = (s1, w1)" by (cases x)
      have "slave_ok s1" using receive_ok [OF Cons.prems(1) x [unfolded e]] .
      then show "outcome_of (case x of (s1, w1) \<Rightarrow> receive_pieces ?v h k bs s1 w1) =
          outcome_of (case x of (s1, w1) \<Rightarrow> receive ?v h k (concat bs) s1 w1)"
        using Cons.IH [of s1 w1] Cons.prems(2) False e by simp
    qed
    also have "\<dots> = outcome_of (receive ?v h k (b @ concat bs) s w)"
      using blocks.receive_append [of s "concat bs" b W c ud f h k w] Cons.prems False
      by (cases bs) (auto simp: slave_ok_def)
    finally show ?thesis by simp
  qed
qed simp

section \<open>Handles and headers\<close>

lemma byte_bits:
  fixes ty :: u32
  assumes "unat ty < 256" "8 \<le> i"
  shows "\<not> bit ty i"
proof -
  have "take_bit 8 ty = ty" using assms(1) by (simp add: word_unat_eq_iff unsigned_take_bit_eq take_bit_nat_eq_self)
  then show ?thesis using assms(2) by (metis bit_take_bit_iff not_le)
qed

lemma header_type:
  assumes "unat typ < 256"
  shows "drop_bit HANDLE_REMOTE_SHIFT (push_bit HANDLE_REMOTE_SHIFT typ OR (d AND HANDLE_MASK)) = typ"
    "(push_bit HANDLE_REMOTE_SHIFT typ OR (d AND HANDLE_MASK)) AND HANDLE_MASK = d AND HANDLE_MASK"
proof -
  show "drop_bit HANDLE_REMOTE_SHIFT (push_bit HANDLE_REMOTE_SHIFT typ OR (d AND HANDLE_MASK)) = typ"
  proof (rule bit_word_eqI)
    fix i assume "i < LENGTH(32)"
    show "bit (drop_bit HANDLE_REMOTE_SHIFT (push_bit HANDLE_REMOTE_SHIFT typ OR (d AND HANDLE_MASK))) i = bit typ i"
      using byte_bits [OF assms, of i] by (cases "i < 8") (auto simp: HANDLE_REMOTE_SHIFT_def HANDLE_MASK_mask bit_simps)
  qed
  show "(push_bit HANDLE_REMOTE_SHIFT typ OR (d AND HANDLE_MASK)) AND HANDLE_MASK = d AND HANDLE_MASK"
    by (rule bit_word_eqI) (auto simp: HANDLE_REMOTE_SHIFT_def HANDLE_MASK_mask bit_simps)
qed

lemma local_handle_same:
  assumes "d AND NOT HANDLE_MASK = push_bit HANDLE_REMOTE_SHIFT (hb_id h)" "e AND HANDLE_MASK = d AND HANDLE_MASK"
  shows "local_handle h e = d"
proof -
  have "(d AND HANDLE_MASK) OR (d AND NOT HANDLE_MASK) = d"
    by (rule bit_word_eqI) (auto simp: bit_simps)
  then show ?thesis unfolding local_handle_def assms(2) assms(1) [symmetric] .
qed

lemma type_flags:
  assumes "unat typ < 256"
  shows "(typ OR PTYPE_TAG_DONTCOPY) AND 0xff = typ" "(typ OR PTYPE_TAG_DONTCOPY) AND PTYPE_TAG_DONTCOPY \<noteq> 0"
    "(typ OR PTYPE_TAG_DONTCOPY) AND PTYPE_TAG_ALLOCSESSION = 0"
proof -
  have d: "bit PTYPE_TAG_DONTCOPY i \<longleftrightarrow> i = 16" for i
    using bit_push_bit_iff [of 16 "1 :: u32" i] by (auto simp: PTYPE_TAG_DONTCOPY_def bit_1_iff)
  have a: "bit PTYPE_TAG_ALLOCSESSION i \<longleftrightarrow> i = 17" for i
    using bit_push_bit_iff [of 17 "1 :: u32" i] by (auto simp: PTYPE_TAG_ALLOCSESSION_def bit_1_iff)
  have b: "bit typ i \<Longrightarrow> i < 8" for i using byte_bits [OF assms, of i] by linarith
  show "(typ OR PTYPE_TAG_DONTCOPY) AND 0xff = typ"
    unfolding byte_mask by (rule bit_word_eqI) (auto simp: bit_and_iff bit_or_iff bit_mask_iff d dest: b)
  have "bit ((typ OR PTYPE_TAG_DONTCOPY) AND PTYPE_TAG_DONTCOPY) 16" by (simp add: bit_and_iff bit_or_iff d)
  then show "(typ OR PTYPE_TAG_DONTCOPY) AND PTYPE_TAG_DONTCOPY \<noteq> 0" by (metis bit_0_eq bot_apply bot_bool_def)
  show "(typ OR PTYPE_TAG_DONTCOPY) AND PTYPE_TAG_ALLOCSESSION = 0"
    by (rule bit_word_eqI) (auto simp: bit_and_iff bit_or_iff a d dest: b)
qed

section \<open>Delivery to a service of the node\<close>

text \<open>The block that the bytes of a frame have been written to.\<close>

lemma store_fresh:
  "sv_alloc (node_services W c ud f) (Bytes []) (n, t) = (Some (heap_brk n), snd (node_malloc (Bytes []) n), t)"
  "store_bytes (node_services W c ud f) (Some (heap_brk n)) 0 m (snd (node_malloc (Bytes []) n), t) =
    Some (snd (node_malloc (Bytes m) n), t)"
  by (simp_all add: node_services_def store_bytes_def store_block_def load_block_def on_node_def node_malloc_def Let_def)

lemma deliver_local:
  assumes ok: "node_ok n qs" and c: "ctxs n c = Some x" and p: "heap n a = Some (Bytes pl)"
    and header: "header = remote_header source d typ session"
    and ty: "unat typ < 256" and source: "source \<noteq> 0" and session: "0 \<le> sint session" and len: "len < 2 ^ 24"
    and d: "d \<noteq> 0" "d AND NOT HANDLE_MASK = push_bit HANDLE_REMOTE_SHIFT (hb_id h)" "harbor_id n = push_bit HANDLE_REMOTE_SHIFT (hb_id h)"
    and e: "lookup n d = Some e" "ctxs n e = Some y" "mq_view n (cqueue y) = Some mq" "length (mq_contents mq) < MQ_LIMIT"
  shows "\<exists>n' mq' qs'. deliver (node_services W c ud f) h header (Some a) len (n, t) = Some (n', t) \<and> node_ok n' qs' \<and>
    mq_view n' (cqueue y) = Some mq' \<and>
    mq_contents mq' = mq_contents mq @ [\<lparr>msg_source = source, msg_session = session, msg_data = Some a,
        msg_sz = of_nat len OR push_bit MESSAGE_TYPE_SHIFT (ucast typ)\<rparr>] \<and>
    heap n' = heap n"
proof -
  let ?t = "typ OR PTYPE_TAG_DONTCOPY" and ?sz = "of_nat len :: u64"
  note fl = type_flags [OF ty]
  have sz: "?sz AND MESSAGE_TYPE_MASK = ?sz"
  proof -
    have "unat ?sz = len" using len by (simp add: unat_of_nat)
    then have "take_bit 56 ?sz = ?sz" using len by (simp add: word_unat_eq_iff unsigned_take_bit_eq take_bit_nat_eq_self)
    then show ?thesis by (simp add: MESSAGE_TYPE_MASK_mask take_bit_eq_mask)
  qed
  have args: "args_ok ?t session (Some a) ?sz n" using fl p by (simp add: args_ok_def)
  have dest: "local_dest n d" using d by (simp add: local_dest_def)
  have hd: "hdr_source header = source" "hdr_session header = session"
    "drop_bit HANDLE_REMOTE_SHIFT (hdr_destination header) = typ" "local_handle h (hdr_destination header) = d"
    using header_type [OF ty, of d] local_handle_same [OF d(2)] by (simp_all add: header remote_header_def)
  obtain n' qs' mq' where n': "ztask_send W (Some c) source d ?t session (Some a) ?sz n = Some (sent_session ?t session x, n')"
    "node_ok n' qs'" "mq_view n' = (mq_view n)(cqueue y \<mapsto> mq')"
    "mq_contents mq' = mq_contents mq @ [sent_message source ?t session (Some a) ?sz x n]"
    "mq_state.more n' = mq_state.more (filtered_node c x ?t (Some a) ?sz n)"
    using ztask_send_delivered [OF ok c sz args dest e, of W source] by blast
  have ss: "sent_session ?t session x = session" using fl by (simp add: sent_session_def)
  have m: "sent_message source ?t session (Some a) ?sz x n =
      \<lparr>msg_source = source, msg_session = session, msg_data = Some a, msg_sz = ?sz OR push_bit MESSAGE_TYPE_SHIFT (ucast typ)\<rparr>"
    using source fl ss by (simp add: sent_message_def sent_data_def)
  have "heap n' = heap n" using node_more_fields(3) [OF n'(5)] filtered_node_heap [of c x ?t "Some a" ?sz n] fl by simp
  moreover have "deliver (node_services W c ud f) h header (Some a) len (n, t) = Some (n', t)"
    using n'(1) ss session by (simp add: deliver_def hd node_services_def Let_def)
  ultimately show ?thesis using n'(2-4) m by auto
qed

text \<open>What is sent from a connected link.\<close>

lemma message_out_frame:
  assumes k: "k < length (hb_s h)" "hb_s h ! k = s" and m: "for_slave h k rmsg" and s: "sl_fd s \<noteq> 0" "sl_status s \<noteq> Handshake"
    and p: "rm_message rmsg = Some a" "heap n a = Some (Bytes pl)" "unat (rm_sz rmsg) \<le> length pl" and len: "unat (rm_sz rmsg) + 16 < 2 ^ 31"
    and fr_def: "fr = frame (take (unat (rm_sz rmsg)) pl) (remote_header source (rn_handle (rm_destination rmsg)) (rm_type rmsg) session)"
  shows "message_out (node_services W c ud f) h session source rmsg (n, t) =
    Some (h, n\<lparr>heap := (heap n)(a := None)\<rparr>, t @ [Socket_send (sl_fd s) fr (int (length fr))])"
proof -
  have u: "unat (rm_sz rmsg + 12) = unat (rm_sz rmsg) + 12" using len by (subst unat_add_lem [THEN iffD1]) simp_all
  have l: "load_bytes (node_services W c ud f) (Some a) (unat (rm_sz rmsg)) (n, t) = Some (take (unat (rm_sz rmsg)) pl)"
    using p by (auto simp: load_bytes_def node_services_def load_block_def)
  have "int_of_size (length fr) = int (length fr)" using p(3) len by (intro int_of_size_small) (simp add: fr_def)
  then have "send_remote (node_services W c ud f) (sl_fd s) (Some a) (rm_sz rmsg)
      (remote_header source (rn_handle (rm_destination rmsg)) (rm_type rmsg) session) (n, t) =
      Some (n, t @ [Socket_send (sl_fd s) fr (int (length fr))])"
    using l u len by (simp add: send_remote_def HEADER_COOKIE_LENGTH_def fr_def) (simp add: node_services_def call_socket_def)
  then show ?thesis
    using p by (simp add: message_out_connected [OF k m s] send_queued_def queued_msg_def)
      (simp add: node_services_def on_node_def node_free_def)
qed

section \<open>From one node to another\<close>

lemma harbor_of_handle: "unat (drop_bit HANDLE_REMOTE_SHIFT handle) < REMOTE_MAX" for handle :: u32
proof -
  have "unat handle < 2 ^ 32" using unsigned_less [where ?'b = 32 and ?'a = nat and w = handle] by simp
  then have "unat handle div 2 ^ 24 < 256" by (simp add: less_mult_imp_div_less)
  then show ?thesis unfolding HANDLE_REMOTE_SHIFT_def REMOTE_MAX_def unat_drop_bit .
qed

lemma settled_eq: "outcome_of r = Some (s, w) \<Longrightarrow> sl_status s \<noteq> Down \<Longrightarrow> r = Some (s, w)"
  by (auto simp: settled_def split: if_splits)

text \<open>(C29)
  A message of node A for a service \<open>d\<close> of node B reaches the queue of that service. On A, whose link to
  B is connected, the harbor writes one frame to the socket and frees the payload. However the network cuts the
  bytes of the frame, the harbor of B, whose link is idle, hands exactly one message to the service: with
  the source, the session and the type of the sender and its payload; the queue of the service is to hold fewer
  than \<open>2 ^ 30 - 1\<close> messages.\<close>

theorem harbor_message_crosses:
  assumes a: "k < length (hb_s ha)" "hb_s ha ! k = sa" "for_slave ha k rmsg" "sl_fd sa \<noteq> 0" "sl_status sa \<noteq> Handshake"
    and p: "rm_message rmsg = Some p" "heap na p = Some (Bytes pl)" "unat (rm_sz rmsg) \<le> length pl"
    and m: "unat (rm_sz rmsg) + 12 < 2 ^ 24" "unat (rm_type rmsg) < 256" "source \<noteq> 0" "0 \<le> sint session"
      "rn_handle (rm_destination rmsg) = d"
    and b: "slave_ok sb" "sl_status sb = Header" "sl_read sb = 0" "node_ok nb qs" "ctxs nb xb = Some x"
    and d: "d \<noteq> 0" "d AND NOT HANDLE_MASK = push_bit HANDLE_REMOTE_SHIFT (hb_id hb)" "harbor_id nb = push_bit HANDLE_REMOTE_SHIFT (hb_id hb)"
    and e: "lookup nb d = Some e" "ctxs nb e = Some y" "mq_view nb (cqueue y) = Some mq"
      "length (mq_contents mq) < MQ_LIMIT"
  shows "\<exists>fr. message_out (node_services WA xa ua fa) ha session source rmsg (na, ta) =
      Some (ha, na\<lparr>heap := (heap na)(p := None)\<rparr>, ta @ [Socket_send (sl_fd sa) fr (int (length fr))]) \<and>
    (\<forall>pieces. concat pieces = fr \<and> [] \<notin> set pieces \<longrightarrow>
      (\<exists>sb' nb' mq' a. receive_pieces (node_services WB xb ub fb) hb j pieces sb (nb, tb) = Some (sb', nb', tb) \<and>
         sl_status sb' = Header \<and> sl_read sb' = 0 \<and> mq_view nb' (cqueue y) = Some mq' \<and>
         mq_contents mq' = mq_contents mq @ [\<lparr>msg_source = source, msg_session = session, msg_data = Some a,
           msg_sz = rm_sz rmsg OR push_bit MESSAGE_TYPE_SHIFT (ucast (rm_type rmsg))\<rparr>] \<and>
         payload_bytes (Some a) (unat (rm_sz rmsg)) nb' = Some (take (unat (rm_sz rmsg)) pl)))"
proof -
  let ?bs = "take (unat (rm_sz rmsg)) pl" and ?hd = "remote_header source d (rm_type rmsg) session"
  let ?fr = "frame ?bs ?hd" and ?m = "?bs @ header_to_message ?hd"
  have len: "length ?bs = unat (rm_sz rmsg)" using p(3) by simp
  have out: "message_out (node_services WA xa ua fa) ha session source rmsg (na, ta) =
      Some (ha, na\<lparr>heap := (heap na)(p := None)\<rparr>, ta @ [Socket_send (sl_fd sa) ?fr (int (length ?fr))])"
    using message_out_frame [where source = source and session = session and W = WA and c = xa and ud = ua and f = fa and t = ta, OF a p _ refl] m(1,5) by simp
  let ?n2 = "snd (node_malloc (Bytes ?m) nb)" and ?a = "heap_brk nb"
  have core: "same_core nb ?n2" by (rule same_core_malloc)
  have ok2: "node_ok ?n2 qs" by (rule same_core_ok [OF b(4) core])
  have n2: "ctxs ?n2 = ctxs nb" "harbor_id ?n2 = harbor_id nb" "heap ?n2 ?a = Some (Bytes ?m)"
    by (simp_all add: node_malloc_def Let_def)
  have e2: "lookup ?n2 d = Some e" "ctxs ?n2 e = Some y" "mq_view ?n2 (cqueue y) = Some mq" "length (mq_contents mq) < MQ_LIMIT"
    using e n2(1) by (simp_all add: same_core_lookup [OF core])
  have "unat (rm_sz rmsg) < 2 ^ 24" using m(1) by simp
  from deliver_local [where c = xb and W = WB and ud = ub and f = fb and t = tb and x = x, OF ok2 _ n2(3) refl m(2-4) this d(1,2) _ e2] n2(1,2) b(5) d(3) obtain nb' mq' where
    del: "deliver (node_services WB xb ub fb) hb ?hd (Some ?a) (unat (rm_sz rmsg)) (?n2, tb) = Some (nb', tb)" "mq_view nb' (cqueue y) = Some mq'"
      "mq_contents mq' = mq_contents mq @ [\<lparr>msg_source = source, msg_session = session, msg_data = Some ?a,
        msg_sz = rm_sz rmsg OR push_bit MESSAGE_TYPE_SHIFT (ucast (rm_type rmsg))\<rparr>]" "heap nb' = heap ?n2"
    by auto
  let ?s = "sb\<lparr>sl_size := take 4 ?fr, sl_length := 0, sl_read := 0, sl_recv_buffer := None, sl_status := Header\<rparr>"
  have "length ?bs + 12 < 2 ^ 24" using len m(1) by simp
  from blocks.receive_frame [where header = ?hd and h = hb and k = j, OF b(2,3) this store_fresh(1) [of WB xb ub fb nb tb]] store_fresh(2) del(1) len
  have r: "receive (node_services WB xb ub fb) hb j ?fr sb (nb, tb) = Some (?s, nb', tb)" by auto
  have "receive_pieces (node_services WB xb ub fb) hb j pieces sb (nb, tb) = Some (?s, nb', tb)" if "concat pieces = ?fr" "[] \<notin> set pieces" for pieces
  proof -
    have "pieces \<noteq> []" using that(1) by (auto simp: frame_def to_bigendian_def)
    from receive_pieces_concat [OF b(1) that(2) this, of WB xb ub fb hb j "(nb, tb)"] that(1) r
    have "outcome_of (receive_pieces (node_services WB xb ub fb) hb j pieces sb (nb, tb)) = Some (?s, nb', tb)" by (simp add: settled_def)
    then show ?thesis by (rule settled_eq) simp
  qed
  moreover have "payload_bytes (Some ?a) (unat (rm_sz rmsg)) nb' = Some ?bs" using del(4) n2(3) len by (auto simp: payload_bytes_def)
  ultimately show ?thesis using out del(2,3) by (intro exI [of _ ?fr]) force
qed

text \<open>(C30)
  What the harbor makes of the bytes that arrive on a connection does not depend on how the socket cuts
  them, also when a cut falls into a length or a message, when the data ends the connection and when it is
  undefined. (Of a closed link the count of header bytes is not compared.)\<close>

theorem harbor_stream_cuts:
  assumes "slave_ok s" "[] \<notin> set pieces" "[] \<notin> set pieces'" "pieces \<noteq> []" "concat pieces = concat pieces'"
  shows "outcome_of (receive_pieces (node_services W c ud f) h k pieces s w) =
    outcome_of (receive_pieces (node_services W c ud f) h k pieces' s w)"
proof -
  have "pieces' \<noteq> []" using assms by (cases pieces) auto
  then show ?thesis using receive_pieces_concat assms by metis
qed

text \<open>(C31)
  In every run of the harbor service: a slave that has no socket has never been connected; messages wait
  for a slave only before its handshake is done; for a name whose handle is known no message waits.
  Therefore the branches that drop a message to a harbor that is down are never taken.\<close>

theorem harbor_invariant:
  assumes "harbor_run v h" "k < REMOTE_MAX" "hb_s h ! k = s"
  shows "(sl_fd s = 0 \<longrightarrow> sl_status s = Wait) \<and> (waiting s \<noteq> [] \<longrightarrow> sl_status s \<in> {Wait, Handshake}) \<and>
    (\<forall>a node. hm_kv (hb_map h) a = Some node \<and> kv_value node \<noteq> 0 \<longrightarrow> kv_queue node = None) \<and>
    \<not> (sl_fd s = 0 \<and> sl_status s = Down)"
proof -
  have ok: "harbor_ok h" using harbor_run_ok [OF assms(1)] .
  then have "slave_ok s" using slave_get_ok [OF ok _ assms(3)] assms(2) by (simp add: harbor_ok_def)
  moreover have "kv_queue node = None" if "hm_kv (hb_map h) a = Some node" "kv_value node \<noteq> 0" for a node
    using ok that by (cases "kv_queue node") (auto simp: harbor_ok_def hnames_ok_def)
  ultimately show ?thesis by (auto simp: slave_ok_def waiting_def split: option.splits)
qed

section \<open>Messages that wait\<close>

text \<open>(C32)
  Messages that are sent to a harbor before a connection from it is accepted (the command \<open>A\<close>; the other
  command, \<open>S\<close>, starts a connection and waits for a handshake first) wait in order and are written when
  it is, as long as the queue of the harbor can hold them: sending them first and connecting then does to the
  node exactly what connecting first and sending then does, call for call.\<close>

theorem harbor_late_connect:
  assumes "harbor_run v h" "k < REMOTE_MAX" "\<forall>m \<in> set ms. for_slave h k (snd (snd m))"
    "sl_fd (hb_s h ! k) = 0" "fd \<noteq> 0" "length (waiting (hb_s h ! k)) + length ms \<le> HARBOR_QUEUE_LIMIT"
  shows "Option.bind (messages_out v ms h w) (\<lambda>(h1, w1). connect_slave v h1 True fd k w1) =
    Option.bind (connect_slave v h True fd k w) (\<lambda>(h1, w1). messages_out v ms h1 w1)"
  using late_connect [OF harbor_run_ok [OF assms(1)] _ refl assms(3-6)] harbor_run_ok [OF assms(1)] assms(2)
  by (simp add: harbor_ok_def)

text \<open>(C33)
  A message to a global name that is not known yet waits until the handle of the name arrives. When the handle
  is that of another node, and that node is connected (there is a socket, past the handshake), it is then written
  as if the handle had been known: apart from the query to the slave service the node sees the same calls as when
  the name is registered first. What happens when the node is not connected is the theorem after this one.\<close>

theorem harbor_late_name:
  assumes "harbor_run v h" "find_or_insert h key = Some (a, h0)" "hm_kv (hb_map h0) a = Some node" "kv_value node = 0"
    "rn_handle (rm_destination rmsg) = 0" "rn_name (rm_destination rmsg) = key" "length (name_waiting node) < HARBOR_QUEUE_LIMIT"
    "handle \<noteq> 0" "drop_bit HANDLE_REMOTE_SHIFT handle \<noteq> hb_id h"
    "hb_s h ! unat (drop_bit HANDLE_REMOTE_SHIFT handle) = s" "sl_fd s \<noteq> 0" "sl_status s \<noteq> Handshake"
  shows "Option.bind (message_out v h session source rmsg w) (\<lambda>(h1, w1). update_name v h1 key handle w1) =
    Option.bind (send_text v 0 (hb_slave h) (''Q '' @ c_prefix key) w) (\<lambda>w1.
      Option.bind (update_name v h key handle w1) (\<lambda>(h2, w2). message_out v h2 session source rmsg w2))"
proof -
  have ok: "harbor_ok h" using harbor_run_ok [OF assms(1)] .
  have k: "unat (drop_bit HANDLE_REMOTE_SHIFT handle) < length (hb_s h)" using ok harbor_of_handle by (simp add: harbor_ok_def)
  show ?thesis by (rule late_name [OF ok assms(2-7) refl k assms(10,9,11,12,8)])
qed

text \<open>(C34)
  A message to a global name whose handle turns out to be on a harbor that is not connected yet moves to the
  queue of that harbor without the handle: the destination in its header is 0, whatever the handle is, and
  the other node will not find the service.\<close>

theorem harbor_name_without_handle:
  assumes "harbor_run v h" "find_or_insert h key = Some (a, h0)" "hm_kv (hb_map h0) a = Some node" "kv_value node = 0"
    "rn_handle (rm_destination rmsg) = 0" "rn_name (rm_destination rmsg) = key" "length (name_waiting node) < HARBOR_QUEUE_LIMIT"
    "k = unat (drop_bit HANDLE_REMOTE_SHIFT handle)" "k \<noteq> unat (drop_bit HANDLE_REMOTE_SHIFT (hb_slave h))" "sl_fd (hb_s h ! k) = 0"
    "message_out v h session source rmsg w = Some (h1, w1)" "update_name v h1 key handle w2 = Some (h2, w3)"
  shows "\<exists>m. waiting (hb_s h2 ! k) = waiting (hb_s h ! k) @ name_waiting node @ [m] \<and>
    hdr_destination (hm_header m) AND HANDLE_MASK = 0"
proof -
  have ok: "harbor_ok h" using harbor_run_ok [OF assms(1)] .
  note i = find_or_insert_ok [OF ok assms(2)]
  obtain q where q: "hq_ok q" "hq_contents q = name_waiting node @ [queued_msg source session rmsg]"
    "message_out v h session source rmsg w = map_option (Pair (h0\<lparr>hb_map := kv_put a (node\<lparr>kv_queue := Some q\<rparr>) (hb_map h0)\<rparr>))
      (send_text v 0 (hb_slave h) (''Q '' @ c_prefix key) w)"
    using send_named_unknown [OF ok assms(2-7), of source session v w] by (elim exE conjE)
  have h1: "h1 = h0\<lparr>hb_map := kv_put a (node\<lparr>kv_queue := Some q\<rparr>) (hb_map h0)\<rparr>" using assms(11) q(3) by auto
  have "hnames_ok (hb_map h0)" using i(1) by (simp add: harbor_ok_def)
  then have "hnames_ok (kv_put a (node\<lparr>kv_queue := Some q\<rparr>) (hb_map h0))"
    by (rule names_put_ok [OF _ assms(3)]) (use q(1) assms(4) in simp_all)
  then have ok1: "harbor_ok h1" using i(1) h1 by (simp add: harbor_ok_def)
  have f1: "find_or_insert h1 key = Some (a, h1)" unfolding h1 by (rule find_or_insert_again [OF ok assms(2,3)]) simp_all
  have k: "k < length (hb_s h1)" using ok1 assms(8) harbor_of_handle by (simp add: harbor_ok_def)
  have "waiting (hb_s h2 ! k) = waiting (hb_s h1 ! k) @ hq_contents q"
    by (rule update_name_waits [where node = "node\<lparr>kv_queue := Some q\<rparr>", OF ok1 f1 _ _ assms(8) k refl _ _ assms(12)]) (use h1 i(3,5) assms(9,10) in simp_all)
  moreover have "hdr_destination (hm_header (queued_msg source session rmsg)) AND HANDLE_MASK = 0"
    using assms(5) by (simp add: queued_msg_def remote_header_def) (rule bit_word_eqI, auto simp: HANDLE_REMOTE_SHIFT_def HANDLE_MASK_mask bit_simps)
  ultimately show ?thesis using q(2) h1 i(3) by auto
qed

section \<open>What can go wrong on a connection\<close>

text \<open>(C35)
  A peer that announces a message of less than 12 bytes, the size of the header, makes the service read in
  front of its buffer: as soon as those bytes have arrived the behaviour is undefined.\<close>

theorem harbor_short_frame:
  assumes "sl_status s = Header" "sl_read s = 0" "n < HEADER_COOKIE_LENGTH" "n \<le> length bs" "bs \<noteq> []"
  shows "receive v h k (to_bigendian (of_nat n) @ bs) s w = None"
  using receive_short_frame [OF assms(1,2) _ assms(4,5)] assms(3) by (simp add: HEADER_COOKIE_LENGTH_def)

text \<open>A message whose frame is longer than 16 MB is written by the sending harbor without an error, and the
  harbor that receives it shuts the connection down: nothing that follows on that connection arrives.\<close>

theorem harbor_long_frame:
  assumes "2 ^ 24 \<le> length bs + 12" "length bs + 12 < 2 ^ 32" "load_bytes va p (length bs) wa = Some bs"
    "sl_status s = Header" "sl_read s = 0"
    "receive v h k (frame bs header) s w = Some (s', w')"
  shows "send_remote va fd p (of_nat (length bs)) header wa =
      Some (sv_socket_send va fd (frame bs header) (int_of_size (length (frame bs header))) wa) \<and>
    (\<forall>more w2. receive v h k more s' w2 = Some (s', w2))"
proof -
  have l: "length bs < 2 ^ 64" using assms(2) by simp
  have "unat (of_nat (length bs) + 12 :: u64) = length bs + 12"
    using assms(2) unat_of_nat [where ?'a = 64, of "length bs + 12"] by simp
  moreover have "unat (of_nat (length bs) :: u64) = length bs" using l by (simp add: unat_of_nat)
  ultimately have "send_remote va fd p (of_nat (length bs)) header wa =
      Some (sv_socket_send va fd (frame bs header) (int_of_size (length (frame bs header))) wa)"
    using assms(2,3) by (simp add: send_remote_def HEADER_COOKIE_LENGTH_def)
  moreover have "sl_status s' = Down"
    using assms(6) receive_long_frame [OF assms(4,5,1,2), of v h k header w] by (auto dest: close_harbor_down)
  ultimately show ?thesis by (simp add: receive_idle)
qed

text \<open>(C36)
  A connection that is lost in the middle of a length or of a message leaves its byte count behind. When the
  harbor is connected again, the length of the first frame is put together from the bytes of the old
  connection and the first bytes of the new one, and after a loss with more than four bytes of a message read the first
  bytes of the new connection are undefined behaviour.\<close>

theorem harbor_stale_header:
  assumes "harbor_run v h" "k < REMOTE_MAX" "hb_s h ! k = s" "fd \<noteq> 0"
    "report_harbor_down v h k w = Some (h1, w1)" "connect_slave v h1 True fd k w2 = Some (h2, w3)"
  shows "(0 < sl_read s \<and> sl_read s < 4 \<longrightarrow>
      receive v h2 k (frame bs header) (hb_s h2 ! k) w4 =
      header_done v h2 k (take (sl_read s) (sl_size s) @ take (4 - sl_read s) (frame bs header))
        (drop (4 - sl_read s) (frame bs header)) (hb_s h2 ! k) w4) \<and>
    (4 < sl_read s \<longrightarrow> receive v h2 k buffer (hb_s h2 ! k) w4 = None)"
proof -
  have ok: "harbor_ok h" using harbor_run_ok [OF assms(1)] .
  then have k: "k < length (hb_s h)" using assms(2) by (simp add: harbor_ok_def)
  have h1: "h1 = slave_put k (s\<lparr>sl_fd := -1\<rparr>) h" using assms(3,5) by (auto simp: report_harbor_down_def)
  have ok1: "harbor_ok h1" using report_harbor_down_ok [OF ok assms(5)] .
  have k1: "k < length (hb_s h1)" "hb_s h1 ! k = s\<lparr>sl_fd := -1\<rparr>" using k by (simp_all add: h1 slave_put_def)
  then have s2: "hb_s h2 ! k = s\<lparr>sl_fd := fd, sl_status := Header, sl_queue := None\<rparr>"
    using assms(6) by (auto simp: connect_slave_accepted [OF ok1 k1 _ assms(4)] slave_put_def)
  let ?s = "s\<lparr>sl_fd := fd, sl_status := Header, sl_queue := None\<rparr>"
  have st: "sl_status ?s = Header" by simp
  show ?thesis unfolding s2
  proof (intro conjI impI)
    assume "0 < sl_read s \<and> sl_read s < 4"
    then show "receive v h2 k (frame bs header) ?s w4 = header_done v h2 k (take (sl_read s) (sl_size s) @ take (4 - sl_read s) (frame bs header))
        (drop (4 - sl_read s) (frame bs header)) ?s w4"
      by (subst receive_header(3) [OF st]) simp_all
  next
    assume "4 < sl_read s"
    then show "receive v h2 k buffer ?s w4 = None" by (subst receive_header(2) [OF st]) simp_all
  qed
qed

text \<open>Messages to a harbor whose connection was closed are written to the socket number -1 and freed; the
  sender is not told.\<close>

theorem harbor_closed_is_silent:
  assumes "k < length (hb_s h)" "sl_status (hb_s h ! k) \<noteq> Handshake" "report_harbor_down v h k w = Some (h1, w1)"
    "for_slave h k rmsg"
  shows "message_out v h1 session source rmsg w2 =
    do { w3 \<leftarrow> send_remote v (-1) (rm_message rmsg) (rm_sz rmsg)
                (remote_header source (rn_handle (rm_destination rmsg)) (rm_type rmsg) session) w2;
         w4 \<leftarrow> sv_free v (rm_message rmsg) w3;
         Some (h1, w4) }"
proof -
  have h1: "h1 = slave_put k ((hb_s h ! k)\<lparr>sl_fd := -1\<rparr>) h" using assms(3) by (auto simp: report_harbor_down_def)
  have "message_out v h1 session source rmsg w2 = map_option (Pair h1) (send_queued v (-1) (queued_msg source session rmsg) w2)"
    using message_out_connected [of k h1 "(hb_s h ! k)\<lparr>sl_fd := -1\<rparr>" rmsg v session source w2] assms(1,2,4)
    by (simp add: h1 slave_put_def for_slave_def)
  then show ?thesis by (simp add: send_queued_def queued_msg_def map_conv_bind_option comp_def bind_assoc)
qed

text \<open>The queue in which messages wait, a ring that doubles, gives every message back once and in order: after
  any number of messages up to the largest ring, the loop that empties it calls its body for them one
  after the other and ends.\<close>

theorem harbor_queue_order:
  assumes "length ms \<le> HARBOR_QUEUE_LIMIT"
  shows "\<exists>q q'. push_all push_queue_msg ms new_queue = Some q \<and> hq_contents q' = [] \<and>
    drain f q s = map_option (Pair q') (walk f ms s)"
proof -
  obtain q where q: "push_all push_queue_msg ms new_queue = Some q" "hq_ok q" "hq_contents q = ms"
    using hq.push_all_ok [of new_queue ms] new_queue_ok assms by auto
  from drain_walk [OF q(2), of f s] q(1,3) show ?thesis by auto
qed

section \<open>Examples\<close>

text \<open>A node that accepts every call, and a service of harbor 1 whose slave service has handle 2.\<close>

definition quiet_services :: "unit services" where
  "quiet_services =
     \<lparr>sv_send = (\<lambda>_ _ _ session _ _ _. Some (session, ())), sv_error = (\<lambda>_ _. Some ()), sv_alloc = (\<lambda>_ _. (Some 0, ())),
      sv_free = (\<lambda>_ _. Some ()), sv_load = (\<lambda>_ _. None), sv_store = (\<lambda>_ _ _. None), sv_socket_send = (\<lambda>_ _ _ _. ()),
      sv_socket_start = (\<lambda>_ _ _. ()), sv_socket_close = (\<lambda>_ _. ()), sv_callback = Some, sv_harbor_start = Some,
      sv_alias = (\<lambda>_. Some)\<rparr>"

definition sample_harbor :: harbor where
  "sample_harbor = harbor_create\<lparr>hb_id := 1, hb_slave := 2\<rparr>"

lemma sample_harbor_run: "harbor_run quiet_services sample_harbor"
proof (rule harbor_run.start)
  have "scan_two P ''1 2'' = (if P 2 then Some (1, 2) else None)" for P
    by (simp add: scan_two_def scan_int_def decimal_def digit_value_def code_of_def isspace_c_def)
  then show "harbor_init quiet_services harbor_create ''1 2'' () = Some (0, sample_harbor, ())"
    by (simp add: harbor_init_def quiet_services_def sample_harbor_def)
qed

text \<open>A run of it: the command \<^verbatim>\<open>A 7 3\<close> connects the slave 3 to the socket 7, then two bytes of a length arrive.\<close>

definition linked_services :: "unit services" where
  "linked_services = quiet_services\<lparr>sv_load := (\<lambda>p _.
     if p = Some 1 then Some (Bytes (bytes_of ''A 7 3''))
     else if p = Some 2 then Some (Socket \<lparr>sm_type = 1, sm_id = 7, sm_ud = 2, sm_buffer = Some 3, sm_rest = []\<rparr>)
     else Some (Bytes [0, 0]))\<rparr>"

definition sample_linked :: harbor where
  "sample_linked = slave_put 3 (slave_new\<lparr>sl_fd := 7, sl_status := Header, sl_read := 2\<rparr>) sample_harbor"

lemma sample_slaves: "length (hb_s sample_harbor) = 256" "k < 256 \<Longrightarrow> hb_s sample_harbor ! k = slave_new"
  "tl (hb_s sample_harbor) = slave_new # slave_new # slave_new # replicate 252 slave_new"
proof -
  have "replicate 256 slave_new = replicate 4 slave_new @ replicate 252 slave_new" by (simp flip: replicate_add)
  moreover have "replicate 4 slave_new = [slave_new, slave_new, slave_new, slave_new]" by (simp add: eval_nat_numeral)
  ultimately show "tl (hb_s sample_harbor) = slave_new # slave_new # slave_new # replicate 252 slave_new"
    by (simp add: sample_harbor_def harbor_create_def REMOTE_MAX_def)
qed (simp_all add: sample_harbor_def harbor_create_def REMOTE_MAX_def)

lemma sample_linked_slaves: "length (hb_s sample_linked) = 256" "hb_s sample_linked ! 3 = slave_new\<lparr>sl_fd := 7, sl_status := Header, sl_read := 2\<rparr>"
  using sample_slaves(1) by (simp_all add: sample_linked_def slave_put_def)

lemma sample_linked_run: "harbor_run linked_services sample_linked"
proof -
  let ?s1 = "slave_new\<lparr>sl_fd := 7, sl_status := Header, sl_queue := None\<rparr>"
  let ?h1 = "slave_put 3 ?s1 sample_harbor"
  have scan: "scan_two P ''1 2'' = (if P 2 then Some (1, 2) else None)" for P
    by (simp add: scan_two_def scan_int_def decimal_def digit_value_def code_of_def isspace_c_def)
  have "harbor_init linked_services harbor_create ''1 2'' () = Some (0, sample_harbor, ())"
    by (simp add: scan harbor_init_def linked_services_def quiet_services_def sample_harbor_def)
  then have r0: "harbor_run linked_services sample_harbor" by (rule harbor_run.start)
  have b: "bytes_of ''A 7 3'' = [65, 32, 55, 32, 51]" "scan_two is_int (c_string [55, 32, 51]) = Some (7, 3)" by code_simp+
  have "(char_of (65 :: nat) :: char) = CHR ''A''" by code_simp
  then have "harbor_command linked_services sample_harbor (bytes_of ''A 7 3'') 2 () = connect_slave linked_services sample_harbor True 7 3 ()"
    by (simp add: harbor_command_def b REMOTE_MAX_def Let_def)
  moreover have "connect_slave linked_services sample_harbor True 7 3 () = Some (?h1, ())"
    using connect_slave_accepted [OF harbor_run_ok [OF r0] _ refl, of 3 7 linked_services "()"] sample_slaves(1,2)
    by (simp add: waiting_def slave_new_def)
  moreover have "load_bytes linked_services (Some 1) 5 () = Some (bytes_of ''A 7 3'')"
    by (simp add: load_bytes_def linked_services_def b)
  ultimately have "mainloop linked_services sample_harbor PTYPE_HARBOR 0 2 (Some 1) 5 () = Some (?h1, ())"
    by (simp add: mainloop_def PTYPE_HARBOR_def PTYPE_SOCKET_def)
  with r0 have r1: "harbor_run linked_services ?h1" by (rule harbor_run.step)
  have "tl (hb_s ?h1) = slave_new # slave_new # ?s1 # replicate 252 slave_new"
    using sample_slaves(3) by (cases "hb_s sample_harbor") (auto simp: slave_put_def eval_nat_numeral)
  then have id3: "harbor_id_of ?h1 7 = 3" by (simp add: harbor_id_of_def slave_new_def eval_nat_numeral)
  have s3: "hb_s ?h1 ! 3 = ?s1" "3 < length (hb_s ?h1)" using sample_slaves(1) by (simp_all add: slave_put_def)
  have "receive linked_services ?h1 3 [0, 0] ?s1 () = Some (slave_new\<lparr>sl_fd := 7, sl_status := Header, sl_read := 2\<rparr>, ())"
    by (subst receive_header(1)) (simp_all add: slave_new_def)
  moreover have "slave_put 3 (slave_new\<lparr>sl_fd := 7, sl_status := Header, sl_read := 2\<rparr>) ?h1 = sample_linked"
    by (simp add: sample_linked_def slave_put_def)
  moreover have "load_bytes linked_services (Some 3) 2 () = Some [0, 0]" by (simp add: load_bytes_def linked_services_def)
  moreover have io: "sv_load linked_services (Some 2) () = Some (Socket \<lparr>sm_type = 1, sm_id = 7, sm_ud = 2, sm_buffer = Some 3, sm_rest = []\<rparr>)"
    "sv_free linked_services (Some 3) () = Some ()" by (simp_all add: linked_services_def quiet_services_def)
  ultimately have "push_socket_data linked_services ?h1 \<lparr>sm_type = 1, sm_id = 7, sm_ud = 2, sm_buffer = Some 3, sm_rest = []\<rparr> () =
      Some (sample_linked, ())"
    using s3 by (simp add: push_socket_data_def id3)
  then have "mainloop linked_services ?h1 PTYPE_SOCKET 0 2 (Some 2) 0 () = Some (sample_linked, ())"
    by (simp add: mainloop_def socket_event_def ZTASK_SOCKET_TYPE_DATA_def io Let_def)
  with r1 show ?thesis by (rule harbor_run.step)
qed

text \<open>A message of type 10 for the service 2 of harbor 0, with two of the three bytes at address 5.\<close>

definition sample_remote :: remote_message where
  "sample_remote = \<lparr>rm_destination = \<lparr>rn_name = [], rn_handle = 2\<rparr>, rm_message = Some 5, rm_sz = 2, rm_type = 10\<rparr>"

theorem harbor_message_crosses_witness:
  "\<exists>fr n. message_out (node_services sample_world 7 0 0) (slave_put 0 (slave_new\<lparr>sl_fd := 9, sl_status := Header\<rparr>) sample_harbor) 4 3
       sample_remote (sample_net, []) = Some (slave_put 0 (slave_new\<lparr>sl_fd := 9, sl_status := Header\<rparr>) sample_harbor, n, [Socket_send 9 fr (int (length fr))]) \<and>
     (\<exists>sb nb mq a. receive_pieces (node_services sample_world 7 0 0) (sample_harbor\<lparr>hb_id := 0\<rparr>) 1 (map (\<lambda>b. [b]) fr)
         (slave_new\<lparr>sl_fd := 9, sl_status := Header\<rparr>) (sample_net, []) = Some (sb, nb, []) \<and>
       mq_view nb 2 = Some mq \<and> map msg_session (mq_contents mq) = [4] \<and> payload_bytes (Some a) 2 nb = Some [1, 2])"
proof -
  let ?s = "slave_new\<lparr>sl_fd := 9, sl_status := Header\<rparr>"
  let ?ha = "slave_put 0 ?s sample_harbor" and ?hb = "sample_harbor\<lparr>hb_id := 0\<rparr>" and ?mq = "(mq_new 2)\<lparr>in_global := False\<rparr>"
  have s: "0 < length (hb_s ?ha)" "hb_s ?ha ! 0 = ?s" using sample_slaves(1) by (simp_all add: slave_put_def)
  have f: "for_slave ?ha 0 sample_remote"
    by (simp add: for_slave_def sample_remote_def slave_put_def sample_harbor_def HANDLE_REMOTE_SHIFT_def)
  have y: "ctxs sample_net 8 = Some (sample_context 2 2)" "mq_view sample_net (cqueue (sample_context 2 2)) = Some ?mq"
    by (simp_all add: sample_net_def sample_context_def mq_view_def mq_new_def)
  have room: "length (mq_contents ?mq) < MQ_LIMIT" by (simp add: mq_new_ok MQ_LIMIT_def del: mq_length_contents)
  have ok: "slave_ok ?s" by (simp add: slave_ok_def slave_new_def)
  have d: "(2 :: u32) AND NOT HANDLE_MASK = push_bit HANDLE_REMOTE_SHIFT (hb_id ?hb)" "harbor_id sample_net = push_bit HANDLE_REMOTE_SHIFT (hb_id ?hb)"
    by (simp_all add: HANDLE_MASK_def sample_net_def)
  have p: "rm_message sample_remote = Some 5" "heap sample_net 5 = Some (Bytes [1, 2, 3])" "unat (rm_sz sample_remote) \<le> length [1 :: byte, 2, 3]"
    "unat (rm_sz sample_remote) + 12 < 2 ^ 24" "unat (rm_type sample_remote) < 256" "(3 :: u32) \<noteq> 0" "0 \<le> sint (4 :: cint)"
    "rn_handle (rm_destination sample_remote) = 2" "unat (rm_sz sample_remote) = 2"
    by (simp_all add: sample_remote_def sample_net_def)
  have "\<exists>fr. message_out (node_services sample_world 7 0 0) ?ha 4 3 sample_remote (sample_net, []) =
      Some (?ha, sample_net\<lparr>heap := (heap sample_net)(5 := None)\<rparr>, [] @ [Socket_send (sl_fd ?s) fr (int (length fr))]) \<and>
    (\<forall>pieces. concat pieces = fr \<and> [] \<notin> set pieces \<longrightarrow>
      (\<exists>sb' nb' mq' a. receive_pieces (node_services sample_world 7 0 0) ?hb 1 pieces ?s (sample_net, []) = Some (sb', nb', []) \<and>
         sl_status sb' = Header \<and> sl_read sb' = 0 \<and> mq_view nb' (cqueue (sample_context 2 2)) = Some mq' \<and>
         mq_contents mq' = mq_contents ?mq @ [\<lparr>msg_source = 3, msg_session = 4, msg_data = Some a,
           msg_sz = rm_sz sample_remote OR push_bit MESSAGE_TYPE_SHIFT (ucast (rm_type sample_remote))\<rparr>] \<and>
         payload_bytes (Some a) (unat (rm_sz sample_remote)) nb' = Some (take (unat (rm_sz sample_remote)) [1, 2, 3])))"
    by (rule harbor_message_crosses [OF s f _ _ p(1-8) ok _ _ sample_net_ok sample_send_args(1) _ d sample_net_lookup(2) y room])
      (simp_all add: slave_new_def)
  then obtain fr where fr: "message_out (node_services sample_world 7 0 0) ?ha 4 3 sample_remote (sample_net, []) =
      Some (?ha, sample_net\<lparr>heap := (heap sample_net)(5 := None)\<rparr>, [] @ [Socket_send (sl_fd ?s) fr (int (length fr))])"
    "\<And>pieces. concat pieces = fr \<Longrightarrow> [] \<notin> set pieces \<Longrightarrow>
      \<exists>sb' nb' mq' a. receive_pieces (node_services sample_world 7 0 0) ?hb 1 pieces ?s (sample_net, []) = Some (sb', nb', []) \<and>
         mq_view nb' 2 = Some mq' \<and> map msg_session (mq_contents mq') = [4] \<and> payload_bytes (Some a) 2 nb' = Some [1, 2]"
    by (fastforce simp: mq_new_ok p(9) sample_context_def)
  have "concat (map (\<lambda>b. [b]) fr) = fr" by (induction fr) simp_all
  from fr(1) fr(2) [OF this] show ?thesis by (intro exI [of _ fr]) auto
qed

theorem harbor_stream_cuts_witness:
  "outcome_of (receive_pieces (node_services sample_world 7 0 0) sample_harbor 3 [[3, 0], [0]] (slave_new\<lparr>sl_fd := 9, sl_status := Handshake\<rparr>) (sample_net, [])) =
   outcome_of (receive_pieces (node_services sample_world 7 0 0) sample_harbor 3 [[3], [0, 0]] (slave_new\<lparr>sl_fd := 9, sl_status := Handshake\<rparr>) (sample_net, []))"
  by (rule harbor_stream_cuts) (simp_all add: slave_ok_def slave_new_def)

theorem harbor_invariant_witness: "\<not> (sl_fd (hb_s sample_linked ! 3) = 0 \<and> sl_status (hb_s sample_linked ! 3) = Down)"
  using harbor_invariant [OF sample_linked_run _ refl, of 3] by (simp add: REMOTE_MAX_def)

lemma sample_remote_for: "for_slave sample_harbor 0 sample_remote"
  by (simp add: for_slave_def sample_remote_def sample_harbor_def HANDLE_REMOTE_SHIFT_def)

theorem harbor_late_connect_witness:
  "Option.bind (messages_out quiet_services [(3, 4, sample_remote), (5, 6, sample_remote)] sample_harbor ()) (\<lambda>(h1, w1). connect_slave quiet_services h1 True 9 0 w1) =
   Option.bind (connect_slave quiet_services sample_harbor True 9 0 ()) (\<lambda>(h1, w1). messages_out quiet_services [(3, 4, sample_remote), (5, 6, sample_remote)] h1 w1)"
  by (rule harbor_late_connect [OF sample_harbor_run])
    (simp_all add: REMOTE_MAX_def sample_remote_for sample_slaves(2), simp_all add: slave_new_def waiting_def HARBOR_QUEUE_LIMIT_def)

text \<open>A message for the name \<open>abc\<close>.\<close>

definition sample_name :: string where "sample_name = copy_name ''abc''"

definition sample_named :: remote_message where
  "sample_named = sample_remote\<lparr>rm_destination := \<lparr>rn_name = sample_name, rn_handle = 0\<rparr>\<rparr>"

lemma sample_find:
  assumes "hb_map h = hash_new"
  shows "\<exists>h0. find_or_insert h key = Some (0, h0) \<and>
    hm_kv (hb_map h0) 0 = Some \<lparr>kv_key = key, kv_hash = name_hash key, kv_value = 0, kv_queue = None\<rparr>"
  using assms by (simp add: find_or_insert_def hash_search_def hash_insert_def hash_new_def Let_def)

lemma sample_maps: "hb_map sample_harbor = hash_new" "hb_map sample_linked = hash_new"
  by (simp_all add: sample_linked_def slave_put_def sample_harbor_def harbor_create_def)

lemma sample_named_fields: "rn_handle (rm_destination sample_named) = 0" "rn_name (rm_destination sample_named) = sample_name"
  by (simp_all add: sample_named_def)

theorem harbor_late_name_witness:
  "Option.bind (message_out linked_services sample_linked 4 3 sample_named ()) (\<lambda>(h1, w1). update_name linked_services h1 sample_name 0x3000001 w1) =
   Option.bind (send_text linked_services 0 (hb_slave sample_linked) (''Q '' @ c_prefix sample_name) ()) (\<lambda>w1.
     Option.bind (update_name linked_services sample_linked sample_name 0x3000001 w1) (\<lambda>(h2, w2). message_out linked_services h2 4 3 sample_named w2))"
proof -
  obtain h0 where h0: "find_or_insert sample_linked sample_name = Some (0, h0)"
    "hm_kv (hb_map h0) 0 = Some \<lparr>kv_key = sample_name, kv_hash = name_hash sample_name, kv_value = 0, kv_queue = None\<rparr>"
    using sample_find [OF sample_maps(2), of sample_name] by (elim exE conjE)
  show ?thesis
    by (rule harbor_late_name [OF sample_linked_run h0 _ sample_named_fields _ _ _ refl])
      (simp_all add: HANDLE_REMOTE_SHIFT_def sample_linked_slaves name_waiting_def HARBOR_QUEUE_LIMIT_def,
       simp add: sample_linked_def slave_put_def sample_harbor_def)
qed

lemma update_name_moves:
  assumes f: "find_or_insert h key = Some (a, h)" "hm_kv (hb_map h) a = Some node" "kv_queue node = Some hq"
    and k: "k = unat (drop_bit HANDLE_REMOTE_SHIFT handle)" "k < length (hb_s h)" "k \<noteq> unat (drop_bit HANDLE_REMOTE_SHIFT (hb_slave h))"
    and s: "sl_fd (hb_s h ! k) = 0" "sl_status (hb_s h ! k) = Wait" "sl_queue (hb_s h ! k) = None"
  shows "\<exists>h'. update_name v h key handle w = Some (h', w)"
proof -
  let ?h2 = "h\<lparr>hb_map := kv_put a (node\<lparr>kv_value := handle\<rparr>) (hb_map h)\<rparr>" and ?node = "node\<lparr>kv_value := handle\<rparr>"
  have n: "hm_kv (hb_map ?h2) a = Some ?node" "kv_queue ?node = Some hq" using f(3) by simp_all
  have kk: "k = unat (drop_bit HANDLE_REMOTE_SHIFT (kv_value ?node))" "k < length (hb_s ?h2)" "hb_s ?h2 ! k = hb_s h ! k"
    "k \<noteq> unat (drop_bit HANDLE_REMOTE_SHIFT (hb_slave ?h2))"
    using k by simp_all
  have "queue_moved hq ?node (hb_s h ! k) = Some (hq, ?node\<lparr>kv_queue := None\<rparr>)" using s(3) by (simp add: queue_moved_def)
  then have "dispatch_name_queue v ?h2 a w = Some (slave_put k ((hb_s h ! k)\<lparr>sl_queue := Some hq\<rparr>)
      (?h2\<lparr>hb_map := kv_put a (?node\<lparr>kv_queue := None\<rparr>) (hb_map ?h2)\<rparr>), w)"
    using dispatch_name_queue_branches(2) [OF n kk(1-3) s(1,2) kk(4), of v w] by simp
  then show ?thesis using f by (simp add: update_name_def slave_put_def)
qed

theorem harbor_name_without_handle_witness:
  "\<exists>h1 h2 m. message_out quiet_services sample_harbor 4 3 sample_named () = Some (h1, ()) \<and>
     update_name quiet_services h1 sample_name 0x5000001 () = Some (h2, ()) \<and>
     waiting (hb_s h2 ! 5) = [m] \<and> hdr_destination (hm_header m) AND HANDLE_MASK = 0"
proof -
  obtain h0 where h0: "find_or_insert sample_harbor sample_name = Some (0, h0)"
    "hm_kv (hb_map h0) 0 = Some \<lparr>kv_key = sample_name, kv_hash = name_hash sample_name, kv_value = 0, kv_queue = None\<rparr>"
    using sample_find [OF sample_maps(1), of sample_name] by (elim exE conjE)
  let ?node = "\<lparr>kv_key = sample_name, kv_hash = name_hash sample_name, kv_value = 0, kv_queue = None\<rparr>"
  have ok: "harbor_ok sample_harbor" using harbor_run_ok [OF sample_harbor_run] .
  note i = find_or_insert_ok [OF ok h0(1)]
  obtain q where q: "message_out quiet_services sample_harbor 4 3 sample_named () =
      map_option (Pair (h0\<lparr>hb_map := kv_put 0 (?node\<lparr>kv_queue := Some q\<rparr>) (hb_map h0)\<rparr>))
        (send_text quiet_services 0 (hb_slave sample_harbor) (''Q '' @ c_prefix sample_name) ())"
    using send_named_unknown [OF ok h0 _ sample_named_fields, of 3 4 quiet_services "()"] by (auto simp: name_waiting_def HARBOR_QUEUE_LIMIT_def)
  let ?h1 = "h0\<lparr>hb_map := kv_put 0 (?node\<lparr>kv_queue := Some q\<rparr>) (hb_map h0)\<rparr>"
  have q1: "message_out quiet_services sample_harbor 4 3 sample_named () = Some (?h1, ())"
    using q by (simp add: send_text_def quiet_services_def)
  have f1: "find_or_insert ?h1 sample_name = Some (0, ?h1)" by (rule find_or_insert_again [OF ok h0]) simp_all
  have "\<exists>h2. update_name quiet_services ?h1 sample_name 0x5000001 () = Some (h2, ())"
    by (rule update_name_moves [where k = 5 and node = "?node\<lparr>kv_queue := Some q\<rparr>", OF f1])
      (simp_all add: i(3,5) sample_slaves(1,2) HANDLE_REMOTE_SHIFT_def, simp_all add: slave_new_def sample_harbor_def)
  with q1 obtain h1 h2 where r: "message_out quiet_services sample_harbor 4 3 sample_named () = Some (h1, ())"
    "update_name quiet_services h1 sample_name 0x5000001 () = Some (h2, ())" by blast
  have "\<exists>m. waiting (hb_s h2 ! 5) = waiting (hb_s sample_harbor ! 5) @
      name_waiting \<lparr>kv_key = sample_name, kv_hash = name_hash sample_name, kv_value = 0, kv_queue = None\<rparr> @ [m] \<and>
    hdr_destination (hm_header m) AND HANDLE_MASK = 0"
    by (rule harbor_name_without_handle [OF sample_harbor_run h0 _ sample_named_fields _ _ _ _ r])
      (simp_all add: HANDLE_REMOTE_SHIFT_def sample_slaves(2) name_waiting_def HARBOR_QUEUE_LIMIT_def,
       simp_all add: sample_harbor_def slave_new_def)
  then show ?thesis using r by (auto simp: sample_slaves(2) slave_new_def waiting_def name_waiting_def)
qed

theorem harbor_short_frame_witness:
  "receive quiet_services sample_harbor 3 [0, 0, 0, 1, 0xff] (slave_new\<lparr>sl_fd := 9, sl_status := Header\<rparr>) () = None"
proof -
  have "to_bigendian (of_nat 1) = [0, 0, 0, 1]" by (simp add: to_bigendian_def)
  then show ?thesis using harbor_short_frame [of "slave_new\<lparr>sl_fd := 9, sl_status := Header\<rparr>" 1 "[0xff]" quiet_services sample_harbor 3 "()"]
    by (simp add: slave_new_def HEADER_COOKIE_LENGTH_def)
qed

theorem harbor_stale_header_witness:
  "\<exists>h1 h2. report_harbor_down linked_services sample_linked 3 () = Some (h1, ()) \<and> connect_slave linked_services h1 True 8 3 () = Some (h2, ()) \<and>
     receive linked_services h2 3 (frame [1, 2] (remote_header 1 2 3 4)) (hb_s h2 ! 3) () =
     header_done linked_services h2 3 [0, 0, 0, 0] (drop 2 (frame [1, 2] (remote_header 1 2 3 4))) (hb_s h2 ! 3) ()"
proof -
  let ?s = "slave_new\<lparr>sl_fd := 7, sl_status := Header, sl_read := 2\<rparr>"
  have ok: "harbor_ok sample_linked" using harbor_run_ok [OF sample_linked_run] .
  let ?h1 = "slave_put 3 (?s\<lparr>sl_fd := -1\<rparr>) sample_linked"
  have r: "report_harbor_down linked_services sample_linked 3 () = Some (?h1, ())"
    using sample_linked_slaves by (simp add: report_harbor_down_def send_text_def linked_services_def quiet_services_def)
  have ok1: "harbor_ok ?h1" using report_harbor_down_ok [OF ok r] .
  have k1: "3 < length (hb_s ?h1)" "hb_s ?h1 ! 3 = ?s\<lparr>sl_fd := -1\<rparr>" using sample_linked_slaves by (simp_all add: slave_put_def)
  obtain h2 where c: "connect_slave linked_services ?h1 True 8 3 () = Some (h2, ())"
    using connect_slave_accepted [OF ok1 k1, of 8 linked_services "()"] by (auto simp: waiting_def slave_new_def)
  have "take 2 (frame [1, 2] (remote_header 1 2 3 4)) = [0, 0]" by (simp add: frame_def HEADER_COOKIE_LENGTH_def to_bigendian_def)
  moreover have "sl_read ?s = 2" "take 2 (sl_size ?s) = [0, 0]" by (simp_all add: slave_new_def)
  ultimately show ?thesis
    using harbor_stale_header [where bs = "[1, 2]" and header = "remote_header 1 2 3 4" and ?w4.0 = "()", OF sample_linked_run _ sample_linked_slaves(2) _ r c] r c by (auto simp: REMOTE_MAX_def)
qed

theorem harbor_closed_is_silent_witness:
  "\<exists>h1. report_harbor_down linked_services (slave_put 0 (slave_new\<lparr>sl_fd := 9, sl_status := Header\<rparr>) sample_harbor) 0 () = Some (h1, ()) \<and>
     message_out linked_services h1 4 3 sample_remote () = Some (h1, ())"
proof -
  let ?h = "slave_put 0 (slave_new\<lparr>sl_fd := 9, sl_status := Header\<rparr>) sample_harbor"
  let ?h1 = "slave_put 0 (slave_new\<lparr>sl_status := Header, sl_fd := -1\<rparr>) ?h"
  have k: "0 < length (hb_s ?h)" "hb_s ?h ! 0 = slave_new\<lparr>sl_fd := 9, sl_status := Header\<rparr>" using sample_slaves(1) by (simp_all add: slave_put_def)
  have r: "report_harbor_down linked_services ?h 0 () = Some (?h1, ())"
    using k by (simp add: report_harbor_down_def send_text_def linked_services_def quiet_services_def)
  have f: "for_slave ?h 0 sample_remote" using sample_remote_for by (simp add: for_slave_def slave_put_def)
  have "load_bytes linked_services (Some 5) 2 () = Some [0, 0]" "sv_free linked_services (Some 5) () = Some ()"
    by (simp_all add: load_bytes_def linked_services_def quiet_services_def)
  then show ?thesis
    using harbor_closed_is_silent [OF k(1) _ r f, of 4 3 "()"] r k(2)
    by (simp add: send_remote_def sample_remote_def HEADER_COOKIE_LENGTH_def)
qed

definition sample_queued :: harbor_msg where "sample_queued = queued_msg 3 4 sample_remote"

theorem harbor_queue_order_witness:
  "\<exists>q q'. push_all push_queue_msg [set_handle 5 sample_queued, sample_queued] new_queue = Some q \<and> hq_contents q' = [] \<and>
     drain (\<lambda>m ms. Some (ms @ [m])) q [] = Some (q', [set_handle 5 sample_queued, sample_queued])"
  using harbor_queue_order [of "[set_handle 5 sample_queued, sample_queued]" "\<lambda>m ms. Some (ms @ [m])" "[]"] by (auto simp: HARBOR_QUEUE_LIMIT_def)

theorem harbor_long_frame_witness:
  "\<exists>s'. receive quiet_services sample_harbor 3 (frame (replicate 0x1000000 0) (remote_header 1 2 3 4)) (slave_new\<lparr>sl_fd := 9, sl_status := Header\<rparr>) () = Some (s', ()) \<and>
     receive quiet_services sample_harbor 3 [1] s' () = Some (s', ())"
proof -
  let ?bs = "replicate 0x1000000 0 :: byte list" and ?s = "slave_new\<lparr>sl_fd := 9, sl_status := Header\<rparr>" and ?hd = "remote_header 1 2 3 4"
  let ?va = "quiet_services\<lparr>sv_load := (\<lambda>_ _. Some (Bytes ?bs))\<rparr>"
  have s: "sl_status ?s = Header" "sl_read ?s = 0" by (simp_all add: slave_new_def)
  have n: "2 ^ 24 \<le> length ?bs + 12" "length ?bs + 12 < 2 ^ 32" by simp_all
  have l: "load_bytes ?va None (length ?bs) () = Some ?bs" by (simp add: load_bytes_def)
  have e: "sv_error quiet_services x () = Some ()" "sv_socket_close quiet_services x2 () = ()" for x x2 by (simp_all add: quiet_services_def)
  obtain s' where r: "receive quiet_services sample_harbor 3 (frame ?bs ?hd) ?s () = Some (s', ())"
    using receive_long_frame [OF s(1,2) n, of quiet_services sample_harbor 3 ?hd "()"] by (simp add: close_harbor_def slave_new_def e)
  show ?thesis using harbor_long_frame [OF n l s r] r by auto
qed

end
