(* ===== verification/Sharedata.thy ===== *)
theory Sharedata
  imports Outcome
begin

text \<open>
  \<^verbatim>\<open>src/ztask/lualib/lua-sharedata.c\<close>: a Lua table is copied into C memory once, where the services of the
  node read it without copying it again. An array part holds the keys \<open>1 ... n\<close>; the other keys are in a
  scattered table: the collisions are linked in slots that are left over when every main position has its
  first key. Strings are numbered and live in a Lua state of their own.

  A Lua table is seen through the Lua API: \<open>CTable n ps\<close> has \<open>n\<close> as its length (\<^verbatim>\<open>lua_rawlen\<close>) and \<open>ps\<close> as
  its pairs in the order of \<^verbatim>\<open>lua_next\<close>. A floating point number is only copied and stands here as its bits;
  as a key it is not an integer, since Lua makes such keys integers. The text of a number in an error message
  is left out.
\<close>

section \<open>Data\<close>

datatype conf =
    CInteger u64
  | CReal u64
  | CString "byte list"
  | CBoolean bool
  | CTable nat "(conf \<times> conf) list"
  | COther string

definition KEYTYPE_INTEGER :: nat where "KEYTYPE_INTEGER = 0"
definition KEYTYPE_STRING :: nat where "KEYTYPE_STRING = 1"

text \<open>\<^verbatim>\<open>union value\<close> with its type: a string is its number, a table its address.\<close>

datatype cval = VNil | VReal u64 | VString nat | VBoolean bool | VTable nat | VInteger u64

record conf_node =
  cn_v :: cval
  cn_key :: int
  cn_next :: int
  cn_keyhash :: u32
  cn_keytype :: nat
  cn_nocolliding :: bool

text \<open>
  A slot of the hash part whose type is \<^verbatim>\<open>VALUETYPE_NIL\<close> is \<open>None\<close>: its other fields are not initialised,
  and reading them is undefined.
\<close>

record conf_table =
  ct_array :: "cval list"
  ct_hash :: "conf_node option list"
  ct_L :: "nat option"

text \<open>\<^verbatim>\<open>struct state\<close>, and the Lua state in which it lives together with the strings; string \<open>i\<close> has number
  \<open>i + 2\<close>.\<close>

record conf_refs =
  cr_dirty :: bool
  cr_ref :: int
  cr_root :: nat

record lua_state =
  ls_strings :: "byte list list"
  ls_state :: "conf_refs option"

record share =
  sh_tables :: "nat \<rightharpoonup> conf_table"
  sh_top :: nat
  sh_luas :: "nat \<rightharpoonup> lua_state"
  sh_lua_top :: nat

record ctrl =
  cc_root :: ptr
  cc_update :: ptr
  cc_uservalue :: "nat option"

definition table_put :: "nat \<Rightarrow> conf_table \<Rightarrow> share \<Rightarrow> share" where
  "table_put a t st = st\<lparr>sh_tables := (sh_tables st)(a \<mapsto> t)\<rparr>"

definition lua_put :: "nat \<Rightarrow> lua_state \<Rightarrow> share \<Rightarrow> share" where
  "lua_put L l st = st\<lparr>sh_luas := (sh_luas st)(L \<mapsto> l)\<rparr>"

section \<open>Conversion\<close>

text \<open>A Lua error leaves the conversion and keeps the state it has reached.\<close>

datatype 'a conv = Done 'a share | Raised string share | Undefined

primrec conv_bind :: "'a conv \<Rightarrow> ('a \<Rightarrow> share \<Rightarrow> 'b conv) \<Rightarrow> 'b conv" where
  "conv_bind (Done x st) f = f x st"
| "conv_bind (Raised e st) f = Raised e st"
| "conv_bind Undefined f = Undefined"

primrec each :: "('x \<Rightarrow> share \<Rightarrow> unit conv) \<Rightarrow> 'x list \<Rightarrow> share \<Rightarrow> unit conv" where
  "each f [] st = Done () st"
| "each f (x # xs) st = conv_bind (f x st) (\<lambda>_. each f xs)"

lemma conv_bind_cong [fundef_cong]:
  "m = m' \<Longrightarrow> (\<And>x st. m' = Done x st \<Longrightarrow> f x st = g x st) \<Longrightarrow> conv_bind m f = conv_bind m' g"
  by (cases m') auto

lemma each_cong [fundef_cong]:
  "xs = ys \<Longrightarrow> st = st' \<Longrightarrow> (\<And>x s. x \<in> set ys \<Longrightarrow> f x s = g x s) \<Longrightarrow> each f xs st = each g ys st'"
proof (induction xs arbitrary: st st' ys)
  case (Cons x xs)
  then show ?case by (auto intro!: conv_bind_cong)
qed simp

definition key_number :: "conf \<Rightarrow> u64" where
  "key_number k = (case k of CInteger i \<Rightarrow> i | _ \<Rightarrow> 0)"

definition key_error :: "conf \<Rightarrow> string option" where
  "key_error k =
     (case k of
        CReal _ \<Rightarrow> Some ''Invalid key''
      | CBoolean _ \<Rightarrow> Some ''Invalid key type boolean''
      | COther name \<Rightarrow> Some (''Invalid key type '' @ name)
      | _ \<Rightarrow> None)"

fun countsize :: "nat \<Rightarrow> (conf \<times> conf) list \<Rightarrow> string + nat" where
  "countsize sizearray [] = Inr 0"
| "countsize sizearray ((k, v) # ps) =
     (case key_error k of
        Some e \<Rightarrow> Inl e
      | None \<Rightarrow>
          (case countsize sizearray ps of
             Inl e \<Rightarrow> Inl e
           | Inr n \<Rightarrow> Inr (case k of
               CInteger nkey \<Rightarrow> if 0 < sint nkey \<and> sint nkey \<le> int sizearray then n else n + 1
             | _ \<Rightarrow> n + 1)))"

text \<open>\<open>d\<close> is the step less one.\<close>

function hash_loop :: "byte list \<Rightarrow> nat \<Rightarrow> nat \<Rightarrow> u32 \<Rightarrow> u32" where
  "hash_loop str d l1 h =
     (if l1 < d + 1 then h
      else hash_loop str d (l1 - (d + 1)) (h XOR (push_bit 5 h + drop_bit 2 h + ucast (str ! (l1 - 1)))))"
  by pat_completeness auto
termination by (relation "measure (\<lambda>(str, d, l1, h). l1)") auto

declare hash_loop.simps [simp del]

definition calchash :: "byte list \<Rightarrow> u32" where
  "calchash str = hash_loop str (length str div 2 ^ 5) (length str) (of_nat (length str))"

text \<open>The number of a string: a new one is put behind the others.\<close>

definition string_place :: "byte list \<Rightarrow> byte list list \<Rightarrow> nat" where
  "string_place str strs = length (takeWhile (\<lambda>s. s \<noteq> str) strs)"

definition stringindex :: "nat \<Rightarrow> byte list \<Rightarrow> share \<Rightarrow> nat conv" where
  "stringindex L str st =
     (case sh_luas st L of
        None \<Rightarrow> Undefined
      | Some l \<Rightarrow> Done (string_place str (ls_strings l) + 2)
                   (if str \<in> set (ls_strings l) then st else lua_put L (l\<lparr>ls_strings := ls_strings l @ [str]\<rparr>) st))"

text \<open>\<open>Inl\<close> a place in the array part, or \<open>Inr\<close> the type, the value and the hash of a key.\<close>

definition ishashkey :: "nat \<Rightarrow> nat \<Rightarrow> conf \<Rightarrow> share \<Rightarrow> (nat + nat \<times> int \<times> u32) conv" where
  "ishashkey L sizearray k st =
     (case k of
        CString s \<Rightarrow> conv_bind (stringindex L s st) (\<lambda>i. Done (Inr (KEYTYPE_STRING, int i, calchash s)))
      | CTable _ _ \<Rightarrow> conv_bind (stringindex L [] st) (\<lambda>i. Done (Inr (KEYTYPE_STRING, int i, calchash [])))
      | _ \<Rightarrow> (let key = sint (ucast (key_number k) :: cint)
             in Done (if 0 < key \<and> key \<le> int sizearray then Inl (nat key) else Inr (KEYTYPE_INTEGER, key, of_int key)) st))"

definition array_put :: "nat \<Rightarrow> nat \<Rightarrow> cval \<Rightarrow> share \<Rightarrow> unit conv" where
  "array_put a i c st =
     (case sh_tables st a of
        None \<Rightarrow> Undefined
      | Some t \<Rightarrow> if i < length (ct_array t) then Done () (table_put a (t\<lparr>ct_array := (ct_array t)[i := c]\<rparr>) st) else Undefined)"

definition node_put :: "nat \<Rightarrow> nat \<Rightarrow> conf_node \<Rightarrow> share \<Rightarrow> unit conv" where
  "node_put a i n st =
     (case sh_tables st a of
        None \<Rightarrow> Undefined
      | Some t \<Rightarrow> if i < length (ct_hash t) then Done () (table_put a (t\<lparr>ct_hash := (ct_hash t)[i := Some n]\<rparr>) st) else Undefined)"

text \<open>
  The functions that fill a table call \<^verbatim>\<open>setvalue\<close>, which calls \<^verbatim>\<open>convtable\<close> for a table inside; here they
  take it as the argument \<open>setv\<close>.
\<close>

definition setarray :: "(conf \<Rightarrow> share \<Rightarrow> cval conv) \<Rightarrow> nat \<Rightarrow> conf option \<Rightarrow> nat \<Rightarrow> share \<Rightarrow> unit conv" where
  "setarray setv a v key st =
     conv_bind (case v of None \<Rightarrow> Done VNil st | Some x \<Rightarrow> setv x st) (\<lambda>c. array_put a (key - 1) c)"

definition nocolliding_pair ::
  "(conf \<Rightarrow> share \<Rightarrow> cval conv) \<Rightarrow> nat \<Rightarrow> nat \<Rightarrow> conf \<times> conf \<Rightarrow> share \<Rightarrow> unit conv" where
  "nocolliding_pair setv L a p st =
     (case sh_tables st a of
        None \<Rightarrow> Undefined
      | Some t \<Rightarrow>
          conv_bind (ishashkey L (length (ct_array t)) (fst p) st) (\<lambda>r st1.
            case r of
              Inl key \<Rightarrow> setarray setv a (Some (snd p)) key st1
            | Inr (keytype, key, keyhash) \<Rightarrow>
                (let i = unat keyhash mod length (ct_hash t)
                 in if ct_hash t ! i = None
                    then conv_bind (setv (snd p) st1) (\<lambda>c.
                           node_put a i \<lparr>cn_v = c, cn_key = key, cn_next = -1, cn_keyhash = keyhash, cn_keytype = keytype,
                                         cn_nocolliding = True\<rparr>)
                    else Done () st1)))"

definition fillnocolliding ::
  "(conf \<Rightarrow> share \<Rightarrow> cval conv) \<Rightarrow> nat \<Rightarrow> nat \<Rightarrow> (conf \<times> conf) list \<Rightarrow> share \<Rightarrow> unit conv" where
  "fillnocolliding setv L a = each (nocolliding_pair setv L a)"

definition free_slot :: "conf_node option list \<Rightarrow> nat option" where
  "free_slot hs = find (\<lambda>i. hs ! i = None) [0..<length hs]"

definition colliding_pair ::
  "(conf \<Rightarrow> share \<Rightarrow> cval conv) \<Rightarrow> nat \<Rightarrow> nat \<Rightarrow> conf \<times> conf \<Rightarrow> share \<Rightarrow> unit conv" where
  "colliding_pair setv L a p st =
     (case sh_tables st a of
        None \<Rightarrow> Undefined
      | Some t \<Rightarrow>
          conv_bind (ishashkey L (length (ct_array t)) (fst p) st) (\<lambda>r st1.
            case r of
              Inl key \<Rightarrow> Done () st1
            | Inr (keytype, key, keyhash) \<Rightarrow>
                (let i = unat keyhash mod length (ct_hash t)
                 in case ct_hash t ! i of
                      None \<Rightarrow> Undefined
                    | Some mainpos \<Rightarrow>
                        if cn_keytype mainpos = keytype \<and> cn_key mainpos = key then Done () st1
                        else case free_slot (ct_hash t) of
                               None \<Rightarrow> Undefined
                             | Some j \<Rightarrow>
                                 conv_bind (node_put a i (mainpos\<lparr>cn_next := int j, cn_nocolliding := False\<rparr>) st1) (\<lambda>_ st2.
                                   conv_bind (setv (snd p) st2) (\<lambda>c.
                                     node_put a j \<lparr>cn_v = c, cn_key = key, cn_next = cn_next mainpos, cn_keyhash = keyhash,
                                                   cn_keytype = keytype, cn_nocolliding = False\<rparr>)))))"

definition fillcolliding ::
  "(conf \<Rightarrow> share \<Rightarrow> cval conv) \<Rightarrow> nat \<Rightarrow> nat \<Rightarrow> (conf \<times> conf) list \<Rightarrow> share \<Rightarrow> unit conv" where
  "fillcolliding setv L a = each (colliding_pair setv L a)"

definition convtable ::
  "(conf \<Rightarrow> share \<Rightarrow> cval conv) \<Rightarrow> nat \<Rightarrow> nat \<Rightarrow> nat \<Rightarrow> (conf \<times> conf) list \<Rightarrow> share \<Rightarrow> unit conv" where
  "convtable setv L a sizearray ps st =
     (let t = \<lparr>ct_array = replicate sizearray VNil, ct_hash = [], ct_L = Some L\<rparr>; st1 = table_put a t st
      in case countsize sizearray ps of
           Inl e \<Rightarrow> Raised e st1
         | Inr sizehash \<Rightarrow>
             if sizehash = 0
             then each (\<lambda>i. setarray setv a (map_of ps (CInteger (of_nat i))) i) [1..<sizearray + 1] st1
             else conv_bind (fillnocolliding setv L a ps (table_put a (t\<lparr>ct_hash := replicate sizehash None\<rparr>) st))
                    (\<lambda>_. fillcolliding setv L a ps))"

lemma convtable_cong [fundef_cong]:
  assumes "ps = qs" "n = n'" "L = L'" "a = a'" "st = st'"
    "\<And>k v s. (k, v) \<in> set qs \<Longrightarrow> f v s = g v s"
  shows "convtable f L a n ps st = convtable g L' a' n' qs st'"
proof -
  have f: "f v s = g v s" if "(k, v) \<in> set ps" for k v s using that assms by blast
  have array: "(\<lambda>i. setarray f a (map_of ps (CInteger (of_nat i))) i) = (\<lambda>i. setarray g a (map_of ps (CInteger (of_nat i))) i)"
    using f by (intro ext) (auto simp: setarray_def dest: map_of_SomeD split: option.split)
  have "nocolliding_pair f L a p s = nocolliding_pair g L a p s" if "p \<in> set ps" for p s
    using f [of "fst p" "snd p"] that
    by (auto simp: nocolliding_pair_def setarray_def Let_def split: option.split sum.split intro!: conv_bind_cong)
  moreover have "colliding_pair f L a p s = colliding_pair g L a p s" if "p \<in> set ps" for p s
    using f [of "fst p" "snd p"] that
    by (auto simp: colliding_pair_def Let_def split: option.split sum.split intro!: conv_bind_cong)
  ultimately have fill: "fillnocolliding f L a ps = fillnocolliding g L a ps" "fillcolliding f L a ps = fillcolliding g L a ps"
    unfolding fillnocolliding_def fillcolliding_def by (auto intro!: ext each_cong [OF refl refl])
  show ?thesis unfolding convtable_def assms(1-5) [symmetric] array fill ..
qed

lemma conf_size: "(k, v) \<in> set ps \<Longrightarrow> size v < size (CTable n ps)"
  by (induction ps) fastforce+

text \<open>
  A table inside is converted by a \<^verbatim>\<open>lua_call\<close> of \<^verbatim>\<open>convtable\<close>. Lua nests at most \<^verbatim>\<open>LUAI_MAXCCALLS\<close> calls of C
  functions; \<open>calls\<close> is how many more it still allows. The table has been allocated when the call is refused.
\<close>

definition lua_call :: "nat \<Rightarrow> (share \<Rightarrow> unit conv) \<Rightarrow> share \<Rightarrow> unit conv" where
  "lua_call calls f st = (if calls = 0 then Raised ''C stack overflow'' st else f st)"

lemma lua_call_cong [fundef_cong]:
  "calls = calls' \<Longrightarrow> st = st' \<Longrightarrow> (calls' \<noteq> 0 \<Longrightarrow> f st' = g st') \<Longrightarrow> lua_call calls f st = lua_call calls' g st'"
  by (simp add: lua_call_def)

function setvalue :: "nat \<Rightarrow> nat \<Rightarrow> conf \<Rightarrow> share \<Rightarrow> cval conv" where
  "setvalue calls L (CInteger i) st = Done (VInteger i) st"
| "setvalue calls L (CReal x) st = Done (VReal x) st"
| "setvalue calls L (CString s) st = conv_bind (stringindex L s st) (\<lambda>i. Done (VString i))"
| "setvalue calls L (CBoolean b) st = Done (VBoolean b) st"
| "setvalue calls L (CTable n ps) st =
     (let a = sh_top st; t = \<lparr>ct_array = [], ct_hash = [], ct_L = None\<rparr>
      in conv_bind (lua_call calls (convtable (setvalue (calls - 1) L) L a n ps) (table_put a t (st\<lparr>sh_top := a + 1\<rparr>)))
           (\<lambda>_. Done (VTable a)))"
| "setvalue calls L (COther name) st = Raised (''Unsupport value type '' @ name) st"
  by pat_completeness auto
termination by (relation "measure (\<lambda>(calls, L, v, st). size v)") (auto dest: conf_size)

section \<open>Creation and deletion\<close>

definition cval_table :: "cval \<Rightarrow> nat list" where
  "cval_table c = (case c of VTable a \<Rightarrow> [a] | _ \<Rightarrow> [])"

definition node_value :: "conf_node option \<Rightarrow> cval" where
  "node_value cell = (case cell of None \<Rightarrow> VNil | Some n \<Rightarrow> cn_v n)"

definition table_values :: "conf_table \<Rightarrow> cval list" where
  "table_values t = ct_array t @ map node_value (ct_hash t)"

text \<open>\<^verbatim>\<open>delete_tbl\<close> of one table after the other: the tables in a table are deleted before it.\<close>

partial_function (option) delete_tables :: "nat list \<Rightarrow> (nat \<rightharpoonup> conf_table) \<Rightarrow> (nat \<rightharpoonup> conf_table) option" where
  "delete_tables as h =
     (case as of
        [] \<Rightarrow> Some h
      | a # rest \<Rightarrow>
          do { t \<leftarrow> h a;
               h1 \<leftarrow> delete_tables (concat (map cval_table (table_values t))) h;
               delete_tables rest (h1(a := None)) })"

declare delete_tables.simps [code]

definition delete_tbl :: "nat \<Rightarrow> share \<Rightarrow> share option" where
  "delete_tbl a st = do { h \<leftarrow> delete_tables [a] (sh_tables st); Some (st\<lparr>sh_tables := h\<rparr>) }"

definition lua_close :: "nat \<Rightarrow> share \<Rightarrow> share" where
  "lua_close L st = st\<lparr>sh_luas := (sh_luas st)(L := None)\<rparr>"

text \<open>The stack of the Lua state of the strings can grow by \<open>room\<close> values (Lua limits a stack to \<^verbatim>\<open>LUAI_MAXSTACK\<close>).\<close>

definition pconv :: "nat \<Rightarrow> nat \<Rightarrow> nat \<Rightarrow> nat \<Rightarrow> nat \<Rightarrow> (conf \<times> conf) list \<Rightarrow> share \<Rightarrow> unit conv" where
  "pconv room calls L a n ps st =
     conv_bind (lua_call calls (convtable (setvalue (calls - 1) L) L a n ps) st) (\<lambda>_ st1.
       case sh_luas st1 L of
         None \<Rightarrow> Undefined
       | Some l \<Rightarrow> if length (ls_strings l) + 1 + 3 \<le> room then Done () st1 else Raised ''stack overflow'' st1)"

definition convert_stringmap :: "nat \<Rightarrow> nat \<Rightarrow> share \<Rightarrow> share" where
  "convert_stringmap L a st =
     (case sh_luas st L of
        None \<Rightarrow> st
      | Some l \<Rightarrow> lua_put L (l\<lparr>ls_state := Some \<lparr>cr_dirty = False, cr_ref = 0, cr_root = a\<rparr>\<rparr>) st)"

definition lnewconf :: "nat \<Rightarrow> nat \<Rightarrow> conf \<Rightarrow> share \<Rightarrow> nat conv" where
  "lnewconf room calls x st =
     (case x of
        CTable n ps \<Rightarrow>
          (let L = sh_lua_top st; a = sh_top st;
               st1 = table_put a \<lparr>ct_array = [], ct_hash = [], ct_L = None\<rparr>
                       (lua_put L \<lparr>ls_strings = [], ls_state = None\<rparr> (st\<lparr>sh_lua_top := L + 1, sh_top := a + 1\<rparr>))
           in case pconv room calls L a n ps st1 of
                Done _ st2 \<Rightarrow> Done a (convert_stringmap L a st2)
              | Raised e st2 \<Rightarrow> (case delete_tbl a (lua_close L st2) of None \<Rightarrow> Undefined | Some st3 \<Rightarrow> Raised e st3)
              | Undefined \<Rightarrow> Undefined)
      | _ \<Rightarrow> Raised ''bad argument #1 to new (table expected)'' st)"

section \<open>Operations of the users\<close>

text \<open>\<^verbatim>\<open>get_table\<close>; a pointer to anything but a table is undefined behaviour.\<close>

definition get_table :: "ptr \<Rightarrow> share \<Rightarrow> (nat \<times> conf_table) outcome" where
  "get_table p st =
     (case p of
        None \<Rightarrow> Err ''Need a conf object''
      | Some a \<Rightarrow> (case sh_tables st a of None \<Rightarrow> Crash | Some t \<Rightarrow> Ok (a, t)))"

definition table_lua :: "conf_table \<Rightarrow> share \<Rightarrow> (nat \<times> lua_state) outcome" where
  "table_lua t st =
     (case ct_L t of None \<Rightarrow> Crash | Some L \<Rightarrow> (case sh_luas st L of None \<Rightarrow> Crash | Some l \<Rightarrow> Ok (L, l)))"

definition ldeleteconf :: "ptr \<Rightarrow> share \<Rightarrow> share outcome" where
  "ldeleteconf p st =
     and_then (get_table p st) (\<lambda>(a, t). and_then (table_lua t st) (\<lambda>(L, l).
       case delete_tbl a (lua_close L st) of None \<Rightarrow> Crash | Some st1 \<Rightarrow> Ok st1))"

text \<open>What a function pushes on the stack of its caller.\<close>

datatype pushed = Nothing | Scalar conf | Pointer nat

definition string_at :: "byte list list \<Rightarrow> int \<Rightarrow> byte list option" where
  "string_at strs i = (if 2 \<le> i \<and> nat i - 2 < length strs then Some (strs ! (nat i - 2)) else None)"

definition pushvalue :: "byte list list \<Rightarrow> cval \<Rightarrow> pushed outcome" where
  "pushvalue strs c =
     (case c of
        VNil \<Rightarrow> Ok Nothing
      | VReal x \<Rightarrow> Ok (Scalar (CReal x))
      | VInteger i \<Rightarrow> Ok (Scalar (CInteger i))
      | VString i \<Rightarrow> (case string_at strs (int i) of None \<Rightarrow> Crash | Some s \<Rightarrow> Ok (Scalar (CString s)))
      | VBoolean b \<Rightarrow> Ok (Scalar (CBoolean b))
      | VTable a \<Rightarrow> Ok (Pointer a))"

text \<open>\<^verbatim>\<open>lookup_key\<close>: \<open>None\<close> when it reads outside the table or a slot that is not initialised, or follows the
  links without an end.\<close>

definition node_hit :: "byte list list \<Rightarrow> conf_node \<Rightarrow> u32 \<Rightarrow> int \<Rightarrow> nat \<Rightarrow> byte list \<Rightarrow> bool option" where
  "node_hit strs n keyhash key keytype str =
     (if keyhash \<noteq> cn_keyhash n then Some False
      else if cn_keytype n = KEYTYPE_INTEGER then Some (keytype = KEYTYPE_INTEGER \<and> cn_key n = key)
      else if keytype = KEYTYPE_STRING then map_option (\<lambda>s. str = s) (string_at strs (cn_key n))
      else Some False)"

partial_function (option) chain_find ::
  "byte list list \<Rightarrow> conf_node option list \<Rightarrow> u32 \<Rightarrow> int \<Rightarrow> nat \<Rightarrow> byte list \<Rightarrow> nat \<Rightarrow> nat option option" where
  "chain_find strs hs keyhash key keytype str i =
     do { cell \<leftarrow> array_get hs i;
          n \<leftarrow> cell;
          hit \<leftarrow> node_hit strs n keyhash key keytype str;
          if hit then Some (Some i)
          else if cn_next n < 0 then Some None
          else chain_find strs hs keyhash key keytype str (nat (cn_next n)) }"

declare chain_find.simps [code]

definition lookup_key :: "byte list list \<Rightarrow> conf_table \<Rightarrow> u32 \<Rightarrow> int \<Rightarrow> nat \<Rightarrow> byte list \<Rightarrow> nat option option" where
  "lookup_key strs t keyhash key keytype str =
     (if ct_hash t = [] then Some None
      else do { let i = unat keyhash mod length (ct_hash t);
                cell \<leftarrow> array_get (ct_hash t) i;
                n \<leftarrow> cell;
                if keyhash \<noteq> cn_keyhash n \<and> cn_nocolliding n then Some None
                else chain_find strs (ct_hash t) keyhash key keytype str i })"

text \<open>The arguments of \<^verbatim>\<open>lookup_key\<close> for a key of the caller.\<close>

definition hashed_key :: "conf \<Rightarrow> (u32 \<times> int \<times> nat \<times> byte list) outcome" where
  "hashed_key k =
     (case k of
        CInteger i \<Rightarrow> Ok (ucast i, sint (ucast i :: cint), KEYTYPE_INTEGER, [])
      | CString s \<Rightarrow> Ok (calchash s, 0, KEYTYPE_STRING, s)
      | CReal _ \<Rightarrow> Err ''Invalid key''
      | _ \<Rightarrow> Err ''bad argument #2 (string expected)'')"

definition array_index :: "conf_table \<Rightarrow> conf \<Rightarrow> nat option" where
  "array_index t k =
     (case k of
        CInteger i \<Rightarrow> (let key = sint (ucast i :: cint) in if 0 < key \<and> key \<le> int (length (ct_array t)) then Some (nat key) else None)
      | _ \<Rightarrow> None)"

definition lindexconf :: "ptr \<Rightarrow> conf \<Rightarrow> share \<Rightarrow> pushed list outcome" where
  "lindexconf p k st =
     and_then (get_table p st) (\<lambda>(a, t). and_then (table_lua t st) (\<lambda>(L, l).
       case array_index t k of
         Some key \<Rightarrow> and_then (pushvalue (ls_strings l) (ct_array t ! (key - 1))) (\<lambda>x. Ok [x])
       | None \<Rightarrow>
           and_then (hashed_key k) (\<lambda>(keyhash, key, keytype, str).
             case lookup_key (ls_strings l) t keyhash key keytype str of
               None \<Rightarrow> Crash
             | Some None \<Rightarrow> Ok []
             | Some (Some i) \<Rightarrow> and_then (pushvalue (ls_strings l) (node_value (ct_hash t ! i))) (\<lambda>x. Ok [x]))))"

definition pushkey :: "byte list list \<Rightarrow> conf_node option \<Rightarrow> conf list outcome" where
  "pushkey strs cell =
     (case cell of
        None \<Rightarrow> Crash
      | Some n \<Rightarrow>
          if cn_keytype n = KEYTYPE_INTEGER then Ok [CInteger (of_int (cn_key n))]
          else (case string_at strs (cn_key n) of None \<Rightarrow> Crash | Some s \<Rightarrow> Ok [CString s]))"

definition pushfirsthash :: "byte list list \<Rightarrow> conf_table \<Rightarrow> conf list outcome" where
  "pushfirsthash strs t = (if ct_hash t = [] then Ok [] else pushkey strs (ct_hash t ! 0))"

text \<open>The first entry of the array part from place \<open>i\<close> on, or the first slot.\<close>

definition array_from :: "byte list list \<Rightarrow> conf_table \<Rightarrow> nat \<Rightarrow> conf list outcome" where
  "array_from strs t i =
     (case find (\<lambda>j. ct_array t ! j \<noteq> VNil) [i..<length (ct_array t)] of
        Some j \<Rightarrow> Ok [CInteger (of_nat (j + 1))]
      | None \<Rightarrow> pushfirsthash strs t)"

text \<open>A key that is no integer is given up without an error.\<close>

definition lnextkey :: "ptr \<Rightarrow> conf option \<Rightarrow> share \<Rightarrow> conf list outcome" where
  "lnextkey p k st =
     and_then (get_table p st) (\<lambda>(a, t). and_then (table_lua t st) (\<lambda>(L, l).
       let strs = ls_strings l in
       case k of
         None \<Rightarrow> array_from strs t 0
       | Some (CReal _) \<Rightarrow> Ok []
       | Some x \<Rightarrow>
           (case array_index t x of
              Some key \<Rightarrow> array_from strs t key
            | None \<Rightarrow>
                and_then (hashed_key x) (\<lambda>(keyhash, key, keytype, str).
                  case lookup_key strs t keyhash key keytype str of
                    None \<Rightarrow> Crash
                  | Some None \<Rightarrow> Ok []
                  | Some (Some i) \<Rightarrow> if i + 1 = length (ct_hash t) then Ok [] else pushkey strs (ct_hash t ! (i + 1))))))"

definition llen :: "ptr \<Rightarrow> share \<Rightarrow> nat outcome" where
  "llen p st = and_then (get_table p st) (\<lambda>(a, t). Ok (length (ct_array t)))"

definition lhashlen :: "ptr \<Rightarrow> share \<Rightarrow> nat outcome" where
  "lhashlen p st = and_then (get_table p st) (\<lambda>(a, t). Ok (length (ct_hash t)))"

section \<open>References and updates\<close>

text \<open>The state of a table, and a change of it.\<close>

definition get_refs :: "ptr \<Rightarrow> share \<Rightarrow> conf_refs outcome" where
  "get_refs p st =
     and_then (get_table p st) (\<lambda>(a, t). and_then (table_lua t st) (\<lambda>(L, l).
       case ls_state l of None \<Rightarrow> Crash | Some r \<Rightarrow> Ok r))"

definition change_refs :: "(conf_refs \<Rightarrow> conf_refs) \<Rightarrow> ptr \<Rightarrow> share \<Rightarrow> (conf_refs \<times> share) outcome" where
  "change_refs f p st =
     and_then (get_table p st) (\<lambda>(a, t). and_then (table_lua t st) (\<lambda>(L, l).
       case ls_state l of None \<Rightarrow> Crash | Some r \<Rightarrow> Ok (f r, lua_put L (l\<lparr>ls_state := Some (f r)\<rparr>) st)))"

definition add_ref :: "int \<Rightarrow> conf_refs \<Rightarrow> conf_refs" where
  "add_ref i r = r\<lparr>cr_ref := cr_ref r + i\<rparr>"

definition releaseobj :: "ctrl \<Rightarrow> share \<Rightarrow> (ctrl \<times> share) outcome" where
  "releaseobj c st =
     (case cc_root c of
        None \<Rightarrow> Crash
      | Some a \<Rightarrow> and_then (change_refs (add_ref (-1)) (Some a) st) (\<lambda>(r, st1). Ok (c\<lparr>cc_root := None, cc_update := None\<rparr>, st1)))"

definition lboxconf :: "ptr \<Rightarrow> share \<Rightarrow> (ctrl \<times> share) outcome" where
  "lboxconf p st =
     and_then (change_refs (add_ref 1) p st) (\<lambda>(r, st1). Ok (\<lparr>cc_root = p, cc_update = None, cc_uservalue = None\<rparr>, st1))"

definition lmarkdirty :: "ptr \<Rightarrow> share \<Rightarrow> share outcome" where
  "lmarkdirty p st = and_then (change_refs (cr_dirty_update (\<lambda>_. True)) p st) (\<lambda>(r, st1). Ok st1)"

definition lisdirty :: "ptr \<Rightarrow> share \<Rightarrow> bool outcome" where
  "lisdirty p st = and_then (get_refs p st) (\<lambda>r. Ok (cr_dirty r))"

definition lgetref :: "ptr \<Rightarrow> share \<Rightarrow> int outcome" where
  "lgetref p st = and_then (get_refs p st) (\<lambda>r. Ok (cr_ref r))"

definition lincref :: "ptr \<Rightarrow> share \<Rightarrow> (int \<times> share) outcome" where
  "lincref p st = and_then (change_refs (add_ref 1) p st) (\<lambda>(r, st1). Ok (cr_ref r, st1))"

definition ldecref :: "ptr \<Rightarrow> share \<Rightarrow> (int \<times> share) outcome" where
  "ldecref p st = and_then (change_refs (add_ref (-1)) p st) (\<lambda>(r, st1). Ok (cr_ref r, st1))"

definition lneedupdate :: "ctrl \<Rightarrow> (nat \<times> nat option) option" where
  "lneedupdate c = map_option (\<lambda>a. (a, cc_uservalue c)) (cc_update c)"

definition lupdate :: "ctrl \<Rightarrow> ptr \<Rightarrow> nat \<Rightarrow> ctrl outcome" where
  "lupdate c n uservalue =
     (if cc_root c = n then Err ''You should update a new object''
      else Ok (c\<lparr>cc_update := n, cc_uservalue := Some uservalue\<rparr>))"

end
