(* ===== verification/Sharedata_Hash.thy ===== *)
theory Sharedata_Hash
  imports Sharedata
begin

text \<open>
  The hash part of a table: the slots that belong to a main position form a chain from that slot, so that
  looking a key up finds its slot, or that there is none. What fills a slot keeps that.
\<close>

section \<open>Keys\<close>

text \<open>Keys that the table can tell apart: strings, and integers of 32 bits.\<close>

definition small_key :: "conf \<Rightarrow> bool" where
  "small_key k = (case k of CInteger i \<Rightarrow> - (2 ^ 31) \<le> sint i \<and> sint i < 2 ^ 31 | CString _ \<Rightarrow> True | _ \<Rightarrow> False)"

definition node_key :: "byte list list \<Rightarrow> conf_node \<Rightarrow> conf" where
  "node_key strs n =
     (if cn_keytype n = KEYTYPE_INTEGER then CInteger (of_int (cn_key n)) else CString (strs ! (nat (cn_key n) - 2)))"

definition slot_ok :: "byte list list \<Rightarrow> conf_node \<Rightarrow> bool" where
  "slot_ok strs n \<longleftrightarrow>
     (if cn_keytype n = KEYTYPE_INTEGER
      then - (2 ^ 31) \<le> cn_key n \<and> cn_key n < 2 ^ 31 \<and> cn_keyhash n = of_int (cn_key n)
      else cn_keytype n = KEYTYPE_STRING \<and> 2 \<le> cn_key n \<and> nat (cn_key n) - 2 < length strs \<and>
           cn_keyhash n = calchash (strs ! (nat (cn_key n) - 2)))"

definition key_hash :: "conf \<Rightarrow> u32" where
  "key_hash k = (case k of CInteger i \<Rightarrow> ucast i | CString s \<Rightarrow> calchash s | _ \<Rightarrow> 0)"

lemma low_word: "- (2 ^ 31) \<le> sint i \<Longrightarrow> sint i < 2 ^ 31 \<Longrightarrow> sint (ucast i :: cint) = sint i" for i :: u64
proof -
  assume i: "- (2 ^ 31) \<le> sint i" "sint i < 2 ^ 31"
  have "signed_take_bit 31 (uint i) = signed_take_bit 31 (sint i)" by (simp add: sint_uint)
  then show ?thesis using i by (simp add: signed_ucast_eq signed_take_bit_int_eq_self)
qed

lemma wide_word: "- (2 ^ 31) \<le> x \<Longrightarrow> x < 2 ^ 31 \<Longrightarrow> sint (of_int x :: u64) = x"
  by (simp add: signed_of_int signed_take_bit_int_eq_self)

lemma ucast_wide: "(ucast (of_int x :: u64) :: u32) = of_int x"
  by (rule bit_word_eqI) (auto simp: bit_simps)

lemma node_hash: "slot_ok strs n \<Longrightarrow> cn_keyhash n = key_hash (node_key strs n)"
  by (auto simp: slot_ok_def node_key_def key_hash_def ucast_wide)

lemma node_small: "slot_ok strs n \<Longrightarrow> small_key (node_key strs n)"
  by (auto simp: slot_ok_def node_key_def small_key_def wide_word)

lemma node_extend:
  assumes "slot_ok strs n"
  shows "slot_ok (strs @ ext) n" "node_key (strs @ ext) n = node_key strs n"
  using assms by (auto simp: slot_ok_def node_key_def nth_append)

lemma hashed_key_small: "small_key k \<Longrightarrow> \<exists>key keytype str. hashed_key k = Ok (key_hash k, key, keytype, str)"
  by (cases k) (auto simp: small_key_def hashed_key_def key_hash_def)

lemma node_hit_key:
  assumes "slot_ok strs n" "small_key k" "hashed_key k = Ok (keyhash, key, keytype, str)"
  shows "node_hit strs n keyhash key keytype str = Some (node_key strs n = k)"
proof -
  have h: "keyhash = key_hash k" using assms(2,3) hashed_key_small by fastforce
  show ?thesis
  proof (cases "keyhash = cn_keyhash n")
    case False
    then have "node_key strs n \<noteq> k" using node_hash [OF assms(1)] h by auto
    with False show ?thesis by (simp add: node_hit_def)
  next
    case True
    show ?thesis
    proof (cases k)
      case (CInteger i)
      then have i: "- (2 ^ 31) \<le> sint i" "sint i < 2 ^ 31" using assms(2) by (auto simp: small_key_def)
      have "cn_key n = sint i \<longleftrightarrow> of_int (cn_key n) = i" if "cn_keytype n = KEYTYPE_INTEGER"
        using assms(1) that wide_word [of "cn_key n"] by (auto simp: slot_ok_def)
      then show ?thesis using CInteger True assms(1,3) low_word [OF i]
        by (auto simp: node_hit_def hashed_key_def node_key_def slot_ok_def KEYTYPE_INTEGER_def KEYTYPE_STRING_def)
    next
      case (CString s)
      then show ?thesis using True assms(1,3)
        by (auto simp: node_hit_def hashed_key_def node_key_def slot_ok_def KEYTYPE_INTEGER_def KEYTYPE_STRING_def string_at_def)
    qed (use assms(2) in \<open>auto simp: small_key_def\<close>)
  qed
qed

section \<open>Chains\<close>

primrec linked :: "conf_node option list \<Rightarrow> int \<Rightarrow> nat list \<Rightarrow> bool" where
  "linked hs i [] \<longleftrightarrow> i = -1"
| "linked hs i (x # xs) \<longleftrightarrow> i = int x \<and> x < length hs \<and> (\<exists>n. hs ! x = Some n \<and> linked hs (cn_next n) xs)"

definition main_place :: "conf_node option list \<Rightarrow> conf_node \<Rightarrow> nat" where
  "main_place hs n = unat (cn_keyhash n) mod length hs"

text \<open>\<open>C p\<close> are the slots of the keys whose main position is \<open>p\<close>.\<close>

definition chains :: "conf_node option list \<Rightarrow> (nat \<Rightarrow> nat list) \<Rightarrow> bool" where
  "chains hs C \<longleftrightarrow>
     (\<forall>p < length hs.
        (C p \<noteq> [] \<longrightarrow> hd (C p) = p \<and> linked hs (int p) (C p)) \<and> distinct (C p) \<and>
        (\<forall>x. x \<in> set (C p) \<longleftrightarrow> x < length hs \<and> (\<exists>n. hs ! x = Some n \<and> main_place hs n = p)) \<and>
        (\<forall>x \<in> set (C p). \<forall>n. hs ! x = Some n \<and> cn_nocolliding n \<longrightarrow> C p = [x]))"

lemma chainsD:
  assumes "chains hs C" "p < length hs"
  shows "C p \<noteq> [] \<Longrightarrow> hd (C p) = p" "C p \<noteq> [] \<Longrightarrow> linked hs (int p) (C p)" "distinct (C p)"
    "x \<in> set (C p) \<longleftrightarrow> x < length hs \<and> (\<exists>n. hs ! x = Some n \<and> main_place hs n = p)"
    "x \<in> set (C p) \<Longrightarrow> hs ! x = Some n \<Longrightarrow> cn_nocolliding n \<Longrightarrow> C p = [x]"
  using assms unfolding chains_def by blast+

lemma linked_frame: "linked hs i xs \<Longrightarrow> p \<notin> set xs \<Longrightarrow> linked (hs[p := v]) i xs"
  by (induction xs arbitrary: i) auto

lemma linked_drop:
  assumes "linked hs i (xs @ y # ys)"
  shows "linked hs (int y) (y # ys)"
  using assms by (induction xs arbitrary: i) auto

lemma chain_find_linked:
  assumes "linked hs (int x) (x # xs)" "\<forall>y \<in> set (x # xs). \<forall>n. hs ! y = Some n \<longrightarrow> slot_ok strs n"
    "small_key k" "hashed_key k = Ok (keyhash, key, keytype, str)"
  shows "chain_find strs hs keyhash key keytype str x =
    Some (find (\<lambda>y. \<exists>n. hs ! y = Some n \<and> node_key strs n = k) (x # xs))"
  using assms(1,2)
proof (induction xs arbitrary: x)
  case Nil
  then obtain n where n: "hs ! x = Some n" "cn_next n = -1" "x < length hs" by auto
  then show ?case using node_hit_key [of strs n k keyhash key keytype str] Nil assms(3,4)
    by (subst chain_find.simps) auto
next
  case (Cons y ys)
  then obtain n where n: "hs ! x = Some n" "linked hs (cn_next n) (y # ys)" "x < length hs" by auto
  then have y: "cn_next n = int y" "linked hs (int y) (y # ys)" by auto
  have "node_hit strs n keyhash key keytype str = Some (node_key strs n = k)"
    using node_hit_key [of strs n k keyhash key keytype str] Cons.prems(2) n(1) assms(3,4) by auto
  then show ?case using Cons.IH [OF y(2)] Cons.prems(2) n y(1) by (subst chain_find.simps) simp
qed

section \<open>Looking a key up\<close>

lemma find_only:
  assumes "y \<in> set xs" "P y" "\<And>z. z \<in> set xs \<Longrightarrow> P z \<Longrightarrow> z = y"
  shows "find P xs = Some y"
proof (cases "find P xs")
  case None
  then show ?thesis using assms(1,2) by (auto simp: find_None_iff)
next
  case (Some z)
  then have "z \<in> set xs" "P z" by (auto simp: find_Some_iff)
  then show ?thesis using assms(3) [of z] Some by simp
qed

definition slots_ok :: "byte list list \<Rightarrow> conf_node option list \<Rightarrow> bool" where
  "slots_ok strs hs \<longleftrightarrow>
     (\<forall>n. Some n \<in> set hs \<longrightarrow> slot_ok strs n) \<and>
     (\<forall>i j m n. i < length hs \<and> j < length hs \<and> hs ! i = Some m \<and> hs ! j = Some n \<and> node_key strs m = node_key strs n \<longrightarrow> i = j) \<and>
     (\<exists>C. chains hs C)"

lemma slots_okD:
  assumes "slots_ok strs hs"
  shows "i < length hs \<Longrightarrow> hs ! i = Some n \<Longrightarrow> slot_ok strs n"
    "i < length hs \<Longrightarrow> j < length hs \<Longrightarrow> hs ! i = Some m \<Longrightarrow> hs ! j = Some n \<Longrightarrow> node_key strs m = node_key strs n \<Longrightarrow> i = j"
proof -
  show "slot_ok strs n" if "i < length hs" "hs ! i = Some n"
    using assms that unfolding slots_ok_def by (metis nth_mem)
  have "\<forall>i j m n. i < length hs \<and> j < length hs \<and> hs ! i = Some m \<and> hs ! j = Some n \<and> node_key strs m = node_key strs n \<longrightarrow> i = j"
    using assms unfolding slots_ok_def by (rule conjunct1 [OF conjunct2])
  then show "i = j" if "i < length hs" "j < length hs" "hs ! i = Some m" "hs ! j = Some n" "node_key strs m = node_key strs n"
    using that by blast
qed

lemma lookup_key_ok:
  assumes ok: "slots_ok strs (ct_hash t)" and full: "None \<notin> set (ct_hash t)"
    and k: "small_key k" "hashed_key k = Ok (keyhash, key, keytype, str)"
  shows "lookup_key strs t keyhash key keytype str =
    Some (find (\<lambda>y. \<exists>n. ct_hash t ! y = Some n \<and> node_key strs n = k) [0..<length (ct_hash t)])"
proof (cases "ct_hash t = []")
  case True
  then show ?thesis by (simp add: lookup_key_def)
next
  case False
  let ?hs = "ct_hash t" and ?P = "\<lambda>y. \<exists>n. ct_hash t ! y = Some n \<and> node_key strs n = k"
  define p where "p = unat keyhash mod length ?hs"
  have p: "p < length ?hs" using False by (simp add: p_def)
  obtain C where C: "chains ?hs C" using ok by (auto simp: slots_ok_def)
  obtain n where n: "?hs ! p = Some n" using full p by (metis nth_mem not_None_eq)
  have h: "keyhash = key_hash k" using k hashed_key_small by fastforce
  have mem: "y \<in> set (C p)" if "y < length ?hs" "?P y" for y
  proof -
    obtain m where m: "?hs ! y = Some m" "node_key strs m = k" using \<open>?P y\<close> by blast
    then have "main_place ?hs m = p" using node_hash [OF slots_okD(1) [OF ok that(1) m(1)]] h by (simp add: main_place_def p_def)
    then show ?thesis using chainsD(4) [OF C p] that(1) m(1) by blast
  qed
  have unique: "find ?P [0..<length ?hs] = Some y" if "y < length ?hs" "?P y" for y
  proof -
    have same: "z = y" if z: "z < length ?hs" "?P z" for z
    proof -
      obtain m m' where "?hs ! z = Some m" "?hs ! y = Some m'" "node_key strs m = k" "node_key strs m' = k"
        using z(2) \<open>?P y\<close> by (elim exE conjE)
      then show ?thesis using slots_okD(2) [OF ok z(1) \<open>y < length ?hs\<close>] by simp
    qed
    show ?thesis
    proof (rule find_only)
      show "y \<in> set [0..<length ?hs]" using that(1) by simp
      show "?P y" using that(2) .
      show "z = y" if "z \<in> set [0..<length ?hs]" "?P z" for z using same [of z] that by simp
    qed
  qed
  define r where "r = find ?P (if C p = [] then [] else C p)"
  have good: "slot_ok strs m" if "y < length ?hs" "?hs ! y = Some m" for y m using slots_okD(1) [OF ok that] .
  show ?thesis
  proof (cases "keyhash \<noteq> cn_keyhash n \<and> cn_nocolliding n")
    case True
    have "\<not> ?P y" if "y < length ?hs" for y
    proof
      assume y: "?P y"
      have "C p \<noteq> []" using mem [OF that y] by auto
      then have "p \<in> set (C p)" using chainsD(1) [OF C p] hd_in_set by fastforce
      then have "C p = [p]" using chainsD(5) [OF C p] n True by blast
      then have "y = p" using mem [OF that y] by simp
      then have "cn_keyhash n = key_hash k" using y n node_hash [OF good [OF p n]] by auto
      then show False using True h by simp
    qed
    then have "find ?P [0..<length ?hs] = None" unfolding find_None_iff by auto
    then show ?thesis using True p n by (auto simp: lookup_key_def Let_def simp flip: p_def)
  next
    case False
    define q where "q = main_place ?hs n"
    have q: "q < length ?hs" using p by (cases ?hs) (simp_all add: q_def main_place_def)
    have "p \<in> set (C q)" using chainsD(4) [OF C q] p n q_def by blast
    then obtain xs ys where xs: "C q = xs @ p # ys" by (meson split_list)
    have link: "linked ?hs (int p) (p # ys)"
      using chainsD(2) [OF C q] xs by (intro linked_drop [of ?hs "int q" xs p ys]) simp
    have sub: "set (p # ys) \<subseteq> {..<length ?hs}"
      using chainsD(4) [OF C q] xs by auto
    have "\<forall>y \<in> set (p # ys). \<forall>n. ?hs ! y = Some n \<longrightarrow> slot_ok strs n"
      using good sub by (auto simp del: set_simps)
    then have "lookup_key strs t keyhash key keytype str = Some (find ?P (p # ys))"
      using chain_find_linked [OF link _ k, of strs] False p n \<open>ct_hash t \<noteq> []\<close>
      by (simp only: lookup_key_def Let_def if_False array_get_in_range bind.bind_lunit flip: p_def)
    moreover have "find ?P (p # ys) = find ?P [0..<length ?hs]"
    proof (cases "\<exists>y < length ?hs. ?P y")
      case True
      then obtain y where y: "y < length ?hs" "?P y" by blast
      have "y \<in> set (p # ys)"
      proof -
        have "p \<in> set (C p)" using mem [OF y] chainsD(1) [OF C p] hd_in_set by (metis length_pos_if_in_set length_greater_0_conv)
        then have "q = p" using chainsD(4) [OF C p] n q_def by auto
        then have "xs = []" using chainsD(1,3) [OF C p] xs by (cases xs) auto
        then show ?thesis using mem [OF y] \<open>q = p\<close> xs by simp
      qed
      moreover have "z = y" if z: "z \<in> set (p # ys)" "?P z" for z
      proof -
        have "z < length ?hs" using z(1) sub by auto
        from unique [OF this z(2)] unique [OF y] show ?thesis by simp
      qed
      ultimately have "find ?P (p # ys) = Some y"
        using y(2) by (intro find_only) blast+
      then show ?thesis using unique [OF y] by simp
    next
      case False
      then have "find ?P (p # ys) = None" "find ?P [0..<length ?hs] = None" using sub by (auto simp: find_None_iff)
      then show ?thesis by simp
    qed
    ultimately show ?thesis by simp
  qed
qed

section \<open>Filling a slot\<close>

text \<open>The first key of a main position.\<close>

lemma chains_first:
  assumes C: "chains hs C" and p: "p < length hs" "hs ! p = None" and n: "main_place hs n = p" "cn_next n = -1"
  shows "chains (hs[p := Some n]) (C(p := [p]))"
proof -
  let ?hs = "hs[p := Some n]"
  have empty: "C p = []"
  proof (rule ccontr)
    assume ne: "C p \<noteq> []"
    then have "p \<in> set (C p)" using chainsD(1) [OF C p(1) ne] hd_in_set [OF ne] by simp
    then show False using chainsD(4) [OF C p(1)] p(2) by simp
  qed
  have place: "main_place ?hs m = main_place hs m" for m by (simp add: main_place_def)
  have no: "\<not> (x < length hs \<and> (\<exists>m. hs ! x = Some m \<and> main_place hs m = p))" for x
    using chainsD(4) [OF C p(1), of x] empty by simp
  show ?thesis
    unfolding chains_def
  proof (intro allI impI)
    fix q assume q: "q < length ?hs"
    let ?D = "(C(p := [p])) q"
    show "(?D \<noteq> [] \<longrightarrow> hd ?D = q \<and> linked ?hs (int q) ?D) \<and> distinct ?D \<and>
        (\<forall>x. x \<in> set ?D \<longleftrightarrow> x < length ?hs \<and> (\<exists>m. ?hs ! x = Some m \<and> main_place ?hs m = q)) \<and>
        (\<forall>x \<in> set ?D. \<forall>m. ?hs ! x = Some m \<and> cn_nocolliding m \<longrightarrow> ?D = [x])"
    proof (cases "q = p")
      case True
      have "x = p \<longleftrightarrow> x < length hs \<and> (\<exists>m. ?hs ! x = Some m \<and> main_place hs m = p)" for x
        using no [of x] p(1) n(1) by (cases "x = p") auto
      then have "x \<in> set [p] \<longleftrightarrow> x < length hs \<and> (\<exists>m. ?hs ! x = Some m \<and> main_place hs m = q)" for x
        unfolding True by (metis empty_iff insert_iff list.set)
      moreover have "linked ?hs (int p) [p]" using p n by simp
      moreover have D: "?D = [p]" using True by simp
      ultimately show ?thesis
        unfolding D place length_list_update using True by (metis distinct_singleton empty_iff insert_iff list.sel(1) list.set)
    next
      case False
      have q': "q < length hs" using q by simp
      have notin: "p \<notin> set (C q)" using chainsD(4) [OF C q'] p(2) by simp
      have "x \<in> set (C q) \<longleftrightarrow> x < length hs \<and> (\<exists>m. ?hs ! x = Some m \<and> main_place hs m = q)" for x
        using chainsD(4) [OF C q', of x] False n(1) notin p(1) by (cases "x = p") auto
      moreover have "?hs ! x = hs ! x" if "x \<in> set (C q)" for x using that notin by (cases "x = p") auto
      moreover have "?D = C q" using False by simp
      moreover have "linked hs i (C q) \<Longrightarrow> linked ?hs i (C q)" for i using linked_frame [OF _ notin] .
      ultimately show ?thesis
        unfolding place length_list_update using chainsD(1,2,3,5) [OF C q'] by metis
    qed
  qed
qed

text \<open>A further key, in any free slot.\<close>

lemma chains_link:
  assumes C: "chains hs C" and p: "p < length hs" "hs ! p = Some mp" "main_place hs mp = p"
    and j: "j < length hs" "hs ! j = None"
    and n: "main_place hs n = p" "cn_next n = cn_next mp" "\<not> cn_nocolliding n"
  shows "chains (hs[p := Some (mp\<lparr>cn_next := int j, cn_nocolliding := False\<rparr>), j := Some n]) (C(p := p # j # tl (C p)))"
proof -
  let ?mp = "mp\<lparr>cn_next := int j, cn_nocolliding := False\<rparr>"
  let ?hs = "hs[p := Some ?mp, j := Some n]"
  have "p \<in> set (C p)" using chainsD(4) [OF C p(1), of p] p by simp
  then obtain l where l: "C p = p # l" using chainsD(1) [OF C p(1)] by (cases "C p") auto
  have jp: "j \<noteq> p" using j(2) p(2) by auto
  have place: "main_place ?hs m = main_place hs m" for m by (simp add: main_place_def)
  have mp: "main_place hs ?mp = p" using p(3) by (simp add: main_place_def)
  have jl: "j \<notin> set (C q)" if "q < length hs" for q using chainsD(4) [OF C that] j(2) by simp
  have at: "?hs ! x = (if x = j then Some n else if x = p then Some ?mp else hs ! x)" if "x < length hs" for x
    using that p(1) j(1) by (simp add: nth_list_update)
  have member: "(\<exists>m. ?hs ! x = Some m \<and> main_place hs m = q) \<longleftrightarrow>
      (if x = j then q = p else \<exists>m. hs ! x = Some m \<and> main_place hs m = q)" if "x < length hs" for x q
    using at [OF that] p(2,3) n(1) mp by auto
  show ?thesis
    unfolding chains_def
  proof (intro allI impI)
    fix q assume "q < length ?hs"
    then have q: "q < length hs" by simp
    let ?D = "(C(p := p # j # tl (C p))) q"
    have sets: "x \<in> set ?D \<longleftrightarrow> x < length hs \<and> (\<exists>m. ?hs ! x = Some m \<and> main_place hs m = q)" for x
      using member [of x q] chainsD(4) [OF C q, of x] jl [OF q] j(1) l by (cases "x < length hs") auto
    show "(?D \<noteq> [] \<longrightarrow> hd ?D = q \<and> linked ?hs (int q) ?D) \<and> distinct ?D \<and>
        (\<forall>x. x \<in> set ?D \<longleftrightarrow> x < length ?hs \<and> (\<exists>m. ?hs ! x = Some m \<and> main_place ?hs m = q)) \<and>
        (\<forall>x \<in> set ?D. \<forall>m. ?hs ! x = Some m \<and> cn_nocolliding m \<longrightarrow> ?D = [x])"
    proof (cases "q = p")
      case True
      have d: "p \<notin> set l" "j \<notin> set l" "distinct l" using chainsD(3) [OF C p(1)] jl [OF p(1)] l by auto
      have "linked hs (cn_next mp) l" using chainsD(2) [OF C p(1)] l p(2) by simp
      then have "linked ?hs (cn_next mp) l" using linked_frame d(1,2) by metis
      then have link: "linked ?hs (int p) (p # j # l)" using at [OF p(1)] at [OF j(1)] jp p(1) j(1) n(2) by simp
      have "\<not> cn_nocolliding m" if "x \<in> set (p # j # l)" "?hs ! x = Some m" for x m
      proof (cases "x = p \<or> x = j")
        case True
        then have "m = n \<or> m = ?mp" using that(2) at [OF p(1)] at [OF j(1)] jp by fastforce
        then show ?thesis using n(3) by auto
      next
        case False
        then have x: "x \<in> set (C p)" using that(1) l by simp
        then have "x < length hs" using chainsD(4) [OF C p(1)] by blast
        then have "hs ! x = Some m" using that(2) at False by simp
        then show ?thesis using chainsD(5) [OF C p(1) x] l False by auto
      qed
      then have "\<forall>x \<in> set (p # j # l). \<forall>m. ?hs ! x = Some m \<and> cn_nocolliding m \<longrightarrow> p # j # l = [x]" by blast
      moreover have D: "?D = p # j # l" using True l by simp
      moreover have "distinct (p # j # l)" using d jp by simp
      ultimately show ?thesis
        unfolding D place length_list_update using link True sets [unfolded D] by (metis list.sel(1))
    next
      case False
      then have D: "?D = C q" by simp
      have notin: "p \<notin> set (C q)" using chainsD(4) [OF C q, of p] p False by auto
      have same: "?hs ! x = hs ! x" if "x \<in> set (C q)" for x
        using that notin jl [OF q] at [of x] chainsD(4) [OF C q, of x] by auto
      have "linked hs i (C q) \<Longrightarrow> linked ?hs i (C q)" for i
        using linked_frame [OF linked_frame [OF _ notin] jl [OF q]] .
      then show ?thesis unfolding D place length_list_update using sets [unfolded D] chainsD(1,2,3,5) [OF C q] same by metis
    qed
  qed
qed

lemma slots_okI:
  assumes "\<And>i n. i < length hs \<Longrightarrow> hs ! i = Some n \<Longrightarrow> slot_ok strs n" "chains hs C"
    "\<And>i j m n. i < length hs \<Longrightarrow> j < length hs \<Longrightarrow> hs ! i = Some m \<Longrightarrow> hs ! j = Some n \<Longrightarrow>
       node_key strs m = node_key strs n \<Longrightarrow> i = j"
  shows "slots_ok strs hs"
  unfolding slots_ok_def
proof (intro conjI allI impI exI)
  show "slot_ok strs n" if "Some n \<in> set hs" for n using that assms(1) by (auto simp: in_set_conv_nth)
  show "i = j" if "i < length hs \<and> j < length hs \<and> hs ! i = Some m \<and> hs ! j = Some n \<and> node_key strs m = node_key strs n" for i j m n
    using that assms(3) [of i j m n] by simp
  show "chains hs C" using assms(2) .
qed

lemma slots_ok_chains: "slots_ok strs hs \<Longrightarrow> \<exists>C. chains hs C"
  unfolding slots_ok_def by blast

lemma slots_empty: "slots_ok strs (replicate m None)"
  by (rule slots_okI [where C = "\<lambda>_. []"]) (auto simp: chains_def)

lemma slots_extend:
  assumes "slots_ok strs hs"
  shows "slots_ok (strs @ ext) hs"
proof -
  obtain C where "chains hs C" using slots_ok_chains [OF assms] by blast
  then show ?thesis
    using slots_okD [OF assms] node_extend by (intro slots_okI) (metis, assumption, metis)
qed

text \<open>Slots that are like those before, with one key more at place \<open>p\<close>.\<close>

lemma slots_add:
  assumes ok: "slots_ok strs hs" and len: "length hs' = length hs"
    and p: "p < length hs" "hs' ! p = Some n" "slot_ok strs n"
    and others: "\<And>i m. i < length hs \<Longrightarrow> i \<noteq> p \<Longrightarrow> hs' ! i = Some m \<Longrightarrow>
      \<exists>m'. hs ! i = Some m' \<and> node_key strs m = node_key strs m' \<and> slot_ok strs m"
    and fresh: "\<And>i m. i < length hs \<Longrightarrow> hs ! i = Some m \<Longrightarrow> node_key strs m \<noteq> node_key strs n"
    and C: "chains hs' C"
  shows "slots_ok strs hs'"
proof (rule slots_okI [OF _ C])
  show "slot_ok strs m" if "i < length hs'" "hs' ! i = Some m" for i m
  proof (cases "i = p")
    case True
    then show ?thesis using that p by simp
  next
    case False
    then show ?thesis using others [of i m] that len by auto
  qed
  have new: "i = p" if "i < length hs" "hs' ! i = Some m" "node_key strs m = node_key strs n" for i m
    using others [of i m] fresh [of i] that by metis
  show "i = j" if ij: "i < length hs'" "j < length hs'" "hs' ! i = Some m" "hs' ! j = Some m2" "node_key strs m = node_key strs m2"
    for i j m m2
  proof (cases "i = p \<or> j = p")
    case True
    then show ?thesis using new [of i m] new [of j m2] ij p(2) len by auto
  next
    case False
    obtain a b where "hs ! i = Some a" "node_key strs m = node_key strs a" "hs ! j = Some b" "node_key strs m2 = node_key strs b"
      using others [of i m] others [of j m2] ij False len by auto
    then show ?thesis using slots_okD(2) [OF ok, of i j a b] ij len by simp
  qed
qed

lemma slots_first:
  assumes ok: "slots_ok strs hs" and p: "p < length hs" "hs ! p = None"
    and n: "slot_ok strs n" "main_place hs n = p" "cn_next n = -1"
    and fresh: "\<And>i m. i < length hs \<Longrightarrow> hs ! i = Some m \<Longrightarrow> node_key strs m \<noteq> node_key strs n"
  shows "slots_ok strs (hs[p := Some n])"
proof -
  obtain C where "chains hs C" using slots_ok_chains [OF ok] by blast
  then have C: "chains (hs[p := Some n]) (C(p := [p]))" using chains_first p n(2,3) by blast
  show ?thesis using slots_okD(1) [OF ok] p n by (intro slots_add [OF ok _ p(1) _ n(1) _ fresh C]) auto
qed

lemma slots_link:
  assumes ok: "slots_ok strs hs" and p: "p < length hs" "hs ! p = Some mp" "main_place hs mp = p"
    and j: "j < length hs" "hs ! j = None"
    and n: "slot_ok strs n" "main_place hs n = p" "cn_next n = cn_next mp" "\<not> cn_nocolliding n"
    and fresh: "\<And>i m. i < length hs \<Longrightarrow> hs ! i = Some m \<Longrightarrow> node_key strs m \<noteq> node_key strs n"
  shows "slots_ok strs (hs[p := Some (mp\<lparr>cn_next := int j, cn_nocolliding := False\<rparr>), j := Some n])"
proof -
  obtain C where "chains hs C" using slots_ok_chains [OF ok] by blast
  note C = chains_link [OF this p j n(2-4)]
  have same: "node_key strs (mp\<lparr>cn_next := int j, cn_nocolliding := False\<rparr>) = node_key strs mp"
    "slot_ok strs (mp\<lparr>cn_next := int j, cn_nocolliding := False\<rparr>) = slot_ok strs mp"
    by (simp_all add: node_key_def slot_ok_def)
  show ?thesis
    using slots_okD(1) [OF ok] p(1,2) j n(1) same
    by (intro slots_add [OF ok _ j(1) _ n(1) _ fresh C]) (auto simp: nth_list_update split: if_splits)
qed

end
