(* ===== verification/Sharedata_Conv.thy ===== *)
theory Sharedata_Conv
  imports Sharedata_Hash
begin

text \<open>
  What the conversion makes of a Lua table: a value in C memory that holds every pair of the table once, and
  whose tables are exactly the ones the conversion has allocated.
\<close>

section \<open>Values and what they stand for\<close>

definition strs_of :: "nat \<Rightarrow> share \<Rightarrow> byte list list" where
  "strs_of L st = (case sh_luas st L of None \<Rightarrow> [] | Some l \<Rightarrow> ls_strings l)"

text \<open>The key of the value at place \<open>i\<close> of a table: the array part comes first, then the slots.\<close>

definition slot_key :: "byte list list \<Rightarrow> conf_table \<Rightarrow> nat \<Rightarrow> conf" where
  "slot_key strs t i =
     (if i < length (ct_array t) then CInteger (of_nat (i + 1)) else node_key strs (the (ct_hash t ! (i - length (ct_array t)))))"

text \<open>\<open>shows_value h strs L v c A\<close>: the value \<open>c\<close> stands for the Lua value \<open>v\<close>, in the tables at the addresses \<open>A\<close>.\<close>

inductive shows_value :: "(nat \<rightharpoonup> conf_table) \<Rightarrow> byte list list \<Rightarrow> nat \<Rightarrow> conf \<Rightarrow> cval \<Rightarrow> nat set \<Rightarrow> bool" for h strs L where
  integer: "shows_value h strs L (CInteger i) (VInteger i) {}"
| real: "shows_value h strs L (CReal x) (VReal x) {}"
| str: "string_at strs (int i) = Some s \<Longrightarrow> shows_value h strs L (CString s) (VString i) {}"
| boolean: "shows_value h strs L (CBoolean b) (VBoolean b) {}"
| table: "h a = Some t \<Longrightarrow> ct_L t = Some L \<Longrightarrow> length (ct_array t) = n \<Longrightarrow> n < 2 ^ 31 \<Longrightarrow>
    slots_ok strs (ct_hash t) \<Longrightarrow> None \<notin> set (ct_hash t) \<Longrightarrow>
    \<forall>nd. Some nd \<in> set (ct_hash t) \<longrightarrow> array_index t (node_key strs nd) = None \<and> cn_v nd \<noteq> VNil \<Longrightarrow>
    \<forall>i < length (table_values t). table_values t ! i = VNil \<and> As i = {} \<or>
      (\<exists>v. map_of ps (slot_key strs t i) = Some v \<and> shows_value h strs L v (table_values t ! i) (As i)) \<Longrightarrow>
    \<forall>k v. (k, v) \<in> set ps \<longrightarrow> (\<exists>i < length (table_values t). slot_key strs t i = k \<and> table_values t ! i \<noteq> VNil) \<Longrightarrow>
    \<forall>i j. i < length (table_values t) \<and> j < length (table_values t) \<and> i \<noteq> j \<longrightarrow> As i \<inter> As j = {} \<Longrightarrow>
    a \<notin> (\<Union>i < length (table_values t). As i) \<Longrightarrow>
    shows_value h strs L (CTable n ps) (VTable a) (insert a (\<Union>i < length (table_values t). As i))"

inductive_cases reads_tableE: "shows_value h strs L (CTable n ps) c A"
inductive_cases reads_integerE: "shows_value h strs L (CInteger i) c A"
inductive_cases reads_realE: "shows_value h strs L (CReal x) c A"
inductive_cases reads_stringE: "shows_value h strs L (CString s) c A"
inductive_cases reads_booleanE: "shows_value h strs L (CBoolean b) c A"
inductive_cases reads_otherE: "shows_value h strs L (COther s) c A"

lemma reads_nonnil: "shows_value h strs L v c A \<Longrightarrow> c \<noteq> VNil"
  by (cases rule: shows_value.cases) auto

lemma string_at_extend: "string_at strs i = Some s \<Longrightarrow> string_at (strs @ ext) i = Some s"
  by (auto simp: string_at_def nth_append split: if_splits)

lemma slot_key_extend:
  assumes "slots_ok strs (ct_hash t)" "i < length (table_values t)" "table_values t ! i \<noteq> VNil"
  shows "slot_key (strs @ ext) t i = slot_key strs t i"
proof (cases "i < length (ct_array t)")
  case False
  let ?j = "i - length (ct_array t)"
  have j: "?j < length (ct_hash t)" using assms(2) False by (simp add: table_values_def)
  then obtain n where n: "ct_hash t ! ?j = Some n"
    using assms(3) False by (cases "ct_hash t ! ?j") (auto simp: table_values_def nth_append node_value_def)
  then show ?thesis using node_extend(2) [OF slots_okD(1) [OF assms(1) j n]] False by (simp add: slot_key_def)
qed (simp add: slot_key_def)

lemma reads_frame:
  assumes "shows_value h strs L v c A" "\<forall>x \<in> A. h' x = h x"
  shows "shows_value h' (strs @ ext) L v c A"
  using assms
proof (induction rule: shows_value.induct)
  case (str i s)
  then show ?case using string_at_extend by (auto intro: shows_value.str)
next
  case (table a t n As ps)
  let ?len = "length (table_values t)"
  have "table_values t ! i = VNil \<and> As i = {} \<or>
      (\<exists>v. map_of ps (slot_key (strs @ ext) t i) = Some v \<and> shows_value h' (strs @ ext) L v (table_values t ! i) (As i))" if i: "i < ?len" for i
  proof (cases "table_values t ! i = VNil")
    case True
    then show ?thesis using table.IH i reads_nonnil by blast
  next
    case False
    have "\<forall>x \<in> As i. h' x = h x" using table.prems i by auto
    then show ?thesis using table.IH i False slot_key_extend [OF table.hyps(5) i False] by auto
  qed
  moreover have "\<exists>i < ?len. slot_key (strs @ ext) t i = k \<and> table_values t ! i \<noteq> VNil" if kv: "(k, v) \<in> set ps" for k v
    using table.hyps(8) kv slot_key_extend [OF table.hyps(5)] by metis
  moreover have "array_index t (node_key (strs @ ext) nd) = None \<and> cn_v nd \<noteq> VNil" if nd: "Some nd \<in> set (ct_hash t)" for nd
  proof -
    have "slot_ok strs nd" using slots_okD(1) [OF table.hyps(5)] nd by (auto simp: in_set_conv_nth)
    then show ?thesis using table.hyps(7) nd node_extend(2) by metis
  qed
  ultimately show ?case
    using table.hyps table.prems slots_extend [OF table.hyps(5), of ext] by (intro shows_value.table) auto
qed (auto intro: shows_value.intros)

section \<open>States of the conversion\<close>

definition heap_ok :: "nat \<Rightarrow> share \<Rightarrow> bool" where
  "heap_ok L st \<longleftrightarrow> (\<exists>l. sh_luas st L = Some l \<and> distinct (ls_strings l)) \<and> (\<forall>x \<ge> sh_top st. sh_tables st x = None)"

text \<open>From \<open>st\<close> to \<open>st'\<close> tables below \<open>b\<close> and everything of other Lua states are unchanged, and strings are only
  added.\<close>

definition grows :: "nat \<Rightarrow> nat \<Rightarrow> share \<Rightarrow> share \<Rightarrow> bool" where
  "grows L b st st' \<longleftrightarrow>
     heap_ok L st' \<and> sh_top st \<le> sh_top st' \<and> (\<forall>x < b. sh_tables st' x = sh_tables st x) \<and>
     (\<exists>ext. strs_of L st' = strs_of L st @ ext) \<and> (\<forall>M. M \<noteq> L \<longrightarrow> sh_luas st' M = sh_luas st M) \<and>
     map_option ls_state (sh_luas st' L) = map_option ls_state (sh_luas st L) \<and> sh_lua_top st' = sh_lua_top st"

lemma grows_refl: "heap_ok L st \<Longrightarrow> grows L b st st"
  by (simp add: grows_def)

lemma grows_trans: "grows L b st st' \<Longrightarrow> grows L b' st' st'' \<Longrightarrow> b \<le> b' \<Longrightarrow> grows L b st st''"
  unfolding grows_def by (auto dest: order.trans)

lemma grows_weaken: "grows L b st st' \<Longrightarrow> b' \<le> b \<Longrightarrow> grows L b' st st'"
  unfolding grows_def by auto

lemma grows_topD: "grows L b st st' \<Longrightarrow> sh_top st \<le> sh_top st'"
  by (simp add: grows_def)

lemma grows_extD: "grows L b st st' \<Longrightarrow> \<exists>ext. strs_of L st' = strs_of L st @ ext"
  by (simp add: grows_def)

lemma grows_ok: "grows L b st st' \<Longrightarrow> heap_ok L st'"
  by (simp add: grows_def)

lemma table_put_simps [simp]:
  "sh_tables (table_put a t st) = (sh_tables st)(a \<mapsto> t)" "sh_top (table_put a t st) = sh_top st"
  "strs_of L (table_put a t st) = strs_of L st" "sh_luas (table_put a t st) = sh_luas st"
  "sh_lua_top (table_put a t st) = sh_lua_top st"
  by (simp_all add: table_put_def strs_of_def)

lemma grows_put: "heap_ok L st \<Longrightarrow> a < sh_top st \<Longrightarrow> b \<le> a \<Longrightarrow> grows L b st (table_put a t st)"
  by (auto simp: grows_def heap_ok_def)

lemma string_place_less: "str \<in> set strs \<Longrightarrow> string_place str strs < length strs \<and> strs ! string_place str strs = str"
proof (induction strs)
  case (Cons s strs)
  then show ?case by (cases "s = str") (auto simp: string_place_def)
qed simp

lemma string_place_new: "str \<notin> set strs \<Longrightarrow> string_place str strs = length strs"
  unfolding string_place_def by (metis (mono_tags, lifting) takeWhile_eq_all_conv)

lemma string_at_plus: "string_at strs (int (p + 2)) = (if p < length strs then Some (strs ! p) else None)"
proof -
  have "nat (int (p + 2)) - 2 = p" by (simp only: nat_int)
  then show ?thesis by (simp only: string_at_def) simp
qed

lemma stringindex_ok:
  assumes "heap_ok L st"
  shows "\<exists>st'. stringindex L str st = Done (string_place str (strs_of L st) + 2) st' \<and> grows L b st st' \<and>
    sh_tables st' = sh_tables st \<and> sh_top st' = sh_top st \<and>
    string_at (strs_of L st') (int (string_place str (strs_of L st) + 2)) = Some str"
proof -
  obtain l where l: "sh_luas st L = Some l" "distinct (ls_strings l)" using assms by (auto simp: heap_ok_def)
  have s: "strs_of L st = ls_strings l" using l by (simp add: strs_of_def)
  show ?thesis
  proof (cases "str \<in> set (ls_strings l)")
    case True
    then show ?thesis using l string_place_less [OF True] grows_refl [OF assms]
      by (simp add: stringindex_def s string_at_plus del: of_nat_add add_2_eq_Suc add_2_eq_Suc')
  next
    case False
    then show ?thesis using l assms string_place_new [OF False]
      by (simp add: stringindex_def s string_at_plus grows_def heap_ok_def lua_put_def strs_of_def del: of_nat_add add_2_eq_Suc add_2_eq_Suc')
  qed
qed

lemma string_at_inj:
  assumes "heap_ok L st" "string_at (strs_of L st) i = Some s" "string_at (strs_of L st) j = Some s"
  shows "i = j"
proof -
  have "distinct (strs_of L st)" using assms(1) by (auto simp: heap_ok_def strs_of_def)
  then show ?thesis using assms(2,3) by (auto simp: string_at_def nth_eq_iff_index_eq split: if_splits)
qed

text \<open>What \<^verbatim>\<open>ishashkey\<close> says about a key that the table can tell from the others.\<close>

lemma ishashkey_ok:
  assumes ok: "heap_ok L st" and k: "small_key k"
  shows "\<exists>r st'. ishashkey L (length (ct_array t)) k st = Done r st' \<and> grows L b st st' \<and> sh_tables st' = sh_tables st \<and>
    sh_top st' = sh_top st \<and>
    (case array_index t k of
       Some j \<Rightarrow> r = Inl j
     | None \<Rightarrow> \<exists>kt key. r = Inr (kt, key, key_hash k) \<and>
         (\<forall>c nx nc. let n = \<lparr>cn_v = c, cn_key = key, cn_next = nx, cn_keyhash = key_hash k, cn_keytype = kt, cn_nocolliding = nc\<rparr>
           in slot_ok (strs_of L st') n \<and> node_key (strs_of L st') n = k) \<and>
         (\<forall>n. slot_ok (strs_of L st') n \<longrightarrow> (cn_keytype n = kt \<and> cn_key n = key \<longleftrightarrow> node_key (strs_of L st') n = k)))"
proof (cases k)
  case (CInteger i)
  then have i: "- (2 ^ 31) \<le> sint i" "sint i < 2 ^ 31" using k by (auto simp: small_key_def)
  note low = low_word [OF i]
  have h: "(of_int (sint i) :: u32) = ucast i" by (rule bit_word_eqI) (auto simp: bit_simps)
  have "cn_key n = sint i \<longleftrightarrow> of_int (cn_key n) = i" if "slot_ok strs n" "cn_keytype n = KEYTYPE_INTEGER" for strs n
    using that wide_word [of "cn_key n"] by (auto simp: slot_ok_def)
  then show ?thesis
    using CInteger i low h grows_refl [OF ok]
    by (auto simp: ishashkey_def key_number_def Let_def array_index_def slot_ok_def node_key_def key_hash_def)
next
  case (CString s)
  obtain st' where st': "stringindex L s st = Done (string_place s (strs_of L st) + 2) st'" "grows L b st st'"
    "sh_tables st' = sh_tables st" "sh_top st' = sh_top st"
    "string_at (strs_of L st') (int (string_place s (strs_of L st) + 2)) = Some s"
    using stringindex_ok [OF ok, of s b] by blast
  let ?p = "string_place s (strs_of L st)"
  let ?i = "int (?p + 2)"
  have at: "?p < length (strs_of L st')" "strs_of L st' ! ?p = s"
    using st'(5) by (auto simp: string_at_plus split: if_splits simp del: of_nat_add add_2_eq_Suc add_2_eq_Suc')
  have i: "nat ?i - 2 = ?p" "2 \<le> ?i" by (simp_all only: nat_int)
  have match: "cn_key n = ?i \<longleftrightarrow> strs_of L st' ! (nat (cn_key n) - 2) = s"
    if n: "slot_ok (strs_of L st') n" "cn_keytype n = KEYTYPE_STRING" for n
  proof -
    have "2 \<le> cn_key n" "nat (cn_key n) - 2 < length (strs_of L st')"
      using n by (auto simp: slot_ok_def KEYTYPE_STRING_def KEYTYPE_INTEGER_def split: if_splits)
    then have "string_at (strs_of L st') (cn_key n) = Some (strs_of L st' ! (nat (cn_key n) - 2))" by (simp add: string_at_def)
    then show ?thesis using string_at_inj [OF grows_ok [OF st'(2)] st'(5), of "cn_key n"] at(2) i(1) by metis
  qed
  have types: "KEYTYPE_STRING \<noteq> KEYTYPE_INTEGER" by (simp add: KEYTYPE_STRING_def KEYTYPE_INTEGER_def)
  have "ishashkey L (length (ct_array t)) k st = Done (Inr (KEYTYPE_STRING, ?i, key_hash k)) st'"
    using CString st'(1) by (simp add: ishashkey_def key_hash_def)
  moreover have "array_index t k = None" using CString by (simp add: array_index_def)
  moreover have "slot_ok (strs_of L st') n \<and> node_key (strs_of L st') n = k"
    if "n = \<lparr>cn_v = c, cn_key = ?i, cn_next = nx, cn_keyhash = key_hash k, cn_keytype = KEYTYPE_STRING, cn_nocolliding = nc\<rparr>" for n c nx nc
    using that CString at i types by (simp add: slot_ok_def node_key_def key_hash_def del: of_nat_add)
  moreover have "cn_keytype n = KEYTYPE_STRING \<and> cn_key n = ?i \<longleftrightarrow> node_key (strs_of L st') n = k"
    if n: "slot_ok (strs_of L st') n" for n
    using match [OF n] n CString types by (auto simp: node_key_def slot_ok_def)
  ultimately show ?thesis using st'(2-4) by (simp add: Let_def)
qed (use k in \<open>auto simp: small_key_def\<close>)

end
