(* ===== verification/Sharedata_Fill.thy ===== *)
theory Sharedata_Fill
  imports Sharedata_Conv
begin

text \<open>
  The two passes that fill a table. The invariant of a table under conversion says what its values stand for
  and which addresses they take; each step adds one value. The conversion of a value inside is known by what
  it promises (\<open>writes_conf\<close>), which is proved of \<^verbatim>\<open>setvalue\<close> at the end by induction on the value.
\<close>

section \<open>A table under conversion\<close>

definition present :: "nat \<Rightarrow> share \<Rightarrow> conf_table \<Rightarrow> conf \<Rightarrow> bool" where
  "present L st t k \<longleftrightarrow> (\<exists>i < length (table_values t). table_values t ! i \<noteq> VNil \<and> slot_key (strs_of L st) t i = k)"

definition entries :: "nat \<Rightarrow> (conf \<times> conf) list \<Rightarrow> share \<Rightarrow> conf_table \<Rightarrow> (nat \<Rightarrow> nat set) \<Rightarrow> bool" where
  "entries L ps st t As \<longleftrightarrow>
     (\<forall>i < length (table_values t). table_values t ! i = VNil \<and> As i = {} \<or>
        (\<exists>v. map_of ps (slot_key (strs_of L st) t i) = Some v \<and>
             shows_value (sh_tables st) (strs_of L st) L v (table_values t ! i) (As i)))"

definition hashed :: "nat \<Rightarrow> share \<Rightarrow> conf_table \<Rightarrow> bool" where
  "hashed L st t \<longleftrightarrow> slots_ok (strs_of L st) (ct_hash t) \<and>
     (\<forall>n. Some n \<in> set (ct_hash t) \<longrightarrow> array_index t (node_key (strs_of L st) n) = None \<and> cn_v n \<noteq> VNil)"

definition apart :: "nat \<Rightarrow> (nat \<Rightarrow> nat set) \<Rightarrow> bool" where
  "apart n As \<longleftrightarrow> (\<forall>i j. i < n \<and> j < n \<and> i \<noteq> j \<longrightarrow> As i \<inter> As j = {})"

definition progress :: "nat \<Rightarrow> nat \<Rightarrow> (conf \<times> conf) list \<Rightarrow> share \<Rightarrow> conf_table \<Rightarrow> (nat \<Rightarrow> nat set) \<Rightarrow> nat set \<Rightarrow> bool" where
  "progress L a ps st t As U \<longleftrightarrow>
     heap_ok L st \<and> a < sh_top st \<and> sh_tables st a = Some t \<and> ct_L t = Some L \<and> hashed L st t \<and>
     entries L ps st t As \<and> apart (length (table_values t)) As \<and> (\<Union>i < length (table_values t). As i) = U \<and> U \<subseteq> {a<..<sh_top st}"

lemma progressD:
  assumes "progress L a ps st t As U"
  shows "heap_ok L st" "a < sh_top st" "sh_tables st a = Some t" "ct_L t = Some L" "hashed L st t"
    "entries L ps st t As" "apart (length (table_values t)) As" "(\<Union>i < length (table_values t). As i) = U" "U \<subseteq> {a<..<sh_top st}"
  using assms by (simp_all add: progress_def)

lemma length_table_values [simp]: "length (table_values t) = length (ct_array t) + length (ct_hash t)"
  by (simp add: table_values_def)

lemma array_index_cong: "length (ct_array t') = length (ct_array t) \<Longrightarrow> array_index t' k = array_index t k"
  by (cases k) (simp_all add: array_index_def Let_def)

lemma table_values_array: "i < length (ct_array t) \<Longrightarrow> table_values (t\<lparr>ct_array := (ct_array t)[i := c]\<rparr>) = (table_values t)[i := c]"
  by (simp add: table_values_def list_update_append)

lemma table_values_hash:
  "p < length (ct_hash t) \<Longrightarrow>
   table_values (t\<lparr>ct_hash := (ct_hash t)[p := Some n]\<rparr>) = (table_values t)[length (ct_array t) + p := cn_v n]"
  by (simp add: table_values_def list_update_append map_update node_value_def)

lemma value_slot:
  "p < length (ct_hash t) \<Longrightarrow> table_values t ! (length (ct_array t) + p) = node_value (ct_hash t ! p)"
  by (simp add: table_values_def nth_append)

text \<open>When strings and tables above are added, the table stays as it is.\<close>

lemma slot_key_grows:
  assumes "hashed L st t" "grows L b st st'" "i < length (table_values t)" "table_values t ! i \<noteq> VNil"
  shows "slot_key (strs_of L st') t i = slot_key (strs_of L st) t i"
proof -
  obtain ext where "strs_of L st' = strs_of L st @ ext" using grows_extD [OF assms(2)] by blast
  then show ?thesis using slot_key_extend [OF _ assms(3,4)] assms(1) by (simp add: hashed_def)
qed

lemma present_grows:
  assumes "hashed L st t" "grows L b st st'"
  shows "present L st' t k \<longleftrightarrow> present L st t k"
  unfolding present_def using slot_key_grows [OF assms] by metis

lemma node_key_grows:
  assumes "hashed L st t" "grows L b st st'" "p < length (ct_hash t)" "ct_hash t ! p = Some n"
  shows "node_key (strs_of L st') n = node_key (strs_of L st) n"
proof -
  obtain ext where "strs_of L st' = strs_of L st @ ext" using grows_extD [OF assms(2)] by blast
  moreover have "slot_ok (strs_of L st) n" using assms(1,3,4) slots_okD(1) by (auto simp: hashed_def)
  ultimately show ?thesis using node_extend(2) by metis
qed

lemma hashed_grows:
  assumes "hashed L st t" "grows L b st st'"
  shows "hashed L st' t"
proof -
  obtain ext where ext: "strs_of L st' = strs_of L st @ ext" using grows_extD [OF assms(2)] by blast
  show ?thesis
    unfolding hashed_def
  proof (intro conjI allI impI)
    show "slots_ok (strs_of L st') (ct_hash t)" using slots_extend assms(1) ext by (simp add: hashed_def)
    fix n assume n: "Some n \<in> set (ct_hash t)"
    then obtain p where "p < length (ct_hash t)" "ct_hash t ! p = Some n" by (auto simp: in_set_conv_nth)
    then show "array_index t (node_key (strs_of L st') n) = None" "cn_v n \<noteq> VNil"
      using node_key_grows [OF assms] assms(1) n by (simp_all add: hashed_def)
  qed
qed

lemma progress_grows:
  assumes P: "progress L a ps st t As U" and G: "grows L (sh_top st) st st'"
  shows "progress L a ps st' t As U"
proof -
  note D = progressD [OF P]
  obtain ext where ext: "strs_of L st' = strs_of L st @ ext" using grows_extD [OF G] by blast
  have same: "sh_tables st' x = sh_tables st x" if "x < sh_top st" for x using G that by (simp add: grows_def)
  have top: "sh_top st \<le> sh_top st'" using G by (simp add: grows_def)
  have "table_values t ! i = VNil \<and> As i = {} \<or>
      (\<exists>v. map_of ps (slot_key (strs_of L st') t i) = Some v \<and>
           shows_value (sh_tables st') (strs_of L st') L v (table_values t ! i) (As i))" if i: "i < length (table_values t)" for i
  proof (cases "table_values t ! i = VNil")
    case True
    then show ?thesis using D(6) i reads_nonnil unfolding entries_def by blast
  next
    case False
    then obtain v where v: "map_of ps (slot_key (strs_of L st) t i) = Some v"
      "shows_value (sh_tables st) (strs_of L st) L v (table_values t ! i) (As i)"
      using D(6) i unfolding entries_def by blast
    have "As i \<subseteq> U" using D(8) i by blast
    then have "\<forall>x \<in> As i. sh_tables st' x = sh_tables st x" using D(9) same by fastforce
    then show ?thesis using reads_frame [OF v(2), of "sh_tables st'" ext] v(1) slot_key_grows [OF D(5) G i False] ext by auto
  qed
  then have "entries L ps st' t As" by (simp add: entries_def)
  moreover have "hashed L st' t" using hashed_grows [OF D(5) G] .
  ultimately show ?thesis
    using D top same [OF D(2)] grows_ok [OF G] by (auto simp: progress_def)
qed

text \<open>One value more.\<close>

lemma progress_write:
  assumes P: "progress L a ps st t As U"
    and t': "ct_L t' = Some L" "length (ct_array t') = length (ct_array t)" "length (ct_hash t') = length (ct_hash t)" "hashed L st t'"
    and i: "i < length (table_values t)" "table_values t ! i = VNil"
    and others: "\<And>j. j < length (table_values t) \<Longrightarrow> j \<noteq> i \<Longrightarrow>
      table_values t' ! j = table_values t ! j \<and>
      (table_values t ! j \<noteq> VNil \<longrightarrow> slot_key (strs_of L st) t' j = slot_key (strs_of L st) t j)"
    and v: "map_of ps (slot_key (strs_of L st) t' i) = Some v" "shows_value (sh_tables st) (strs_of L st) L v (table_values t' ! i) B"
    and B: "B \<inter> U = {}" "B \<subseteq> {a<..<sh_top st}"
  shows "progress L a ps (table_put a t' st) t' (As(i := B)) (U \<union> B)"
    "present L (table_put a t' st) t' k \<longleftrightarrow> present L st t k \<or> k = slot_key (strs_of L st) t' i"
proof -
  note D = progressD [OF P]
  have len: "length (table_values t') = length (table_values t)" using t'(2,3) by simp
  let ?st = "table_put a t' st"
  have empty: "As i = {}" using D(6) i reads_nonnil unfolding entries_def by blast
  have frame: "shows_value (sh_tables ?st) (strs_of L ?st) L w c A" if "shows_value (sh_tables st) (strs_of L st) L w c A" "A \<subseteq> {a<..<sh_top st}" for w c A
  proof -
    have "\<forall>x \<in> A. sh_tables ?st x = sh_tables st x" using that(2) by auto
    then show ?thesis using reads_frame [OF that(1), of "sh_tables ?st" "[]"] by simp
  qed
  have "entries L ps ?st t' (As(i := B))"
    unfolding entries_def
  proof (intro allI impI)
    fix j assume "j < length (table_values t')"
    then have j: "j < length (table_values t)" using len by simp
    show "table_values t' ! j = VNil \<and> (As(i := B)) j = {} \<or>
      (\<exists>w. map_of ps (slot_key (strs_of L ?st) t' j) = Some w \<and>
           shows_value (sh_tables ?st) (strs_of L ?st) L w (table_values t' ! j) ((As(i := B)) j))"
    proof (cases "j = i")
      case True
      then show ?thesis using v frame [OF v(2) B(2)] by auto
    next
      case False
      have "As j \<subseteq> {a<..<sh_top st}" using D(8,9) j by blast
      then show ?thesis using D(6) others [OF j False] j False frame reads_nonnil unfolding entries_def
        by (metis fun_upd_apply table_put_simps(3))
    qed
  qed
  moreover have "apart (length (table_values t')) (As(i := B))"
    unfolding apart_def
  proof (intro allI impI)
    fix j l assume jl: "j < length (table_values t') \<and> l < length (table_values t') \<and> j \<noteq> l"
    have inU: "As x \<subseteq> U" if "x < length (table_values t)" for x using D(8) that by blast
    show "(As(i := B)) j \<inter> (As(i := B)) l = {}"
      using D(7) jl len B(1) inU [of j] inU [of l] unfolding apart_def by (cases "j = i"; cases "l = i") auto
  qed
  moreover have "(\<Union>j < length (table_values t'). (As(i := B)) j) = U \<union> B"
    unfolding len D(8) [symmetric] using i(1) empty by (auto split: if_splits)
  moreover have "heap_ok L ?st" using D(1,2) by (simp add: heap_ok_def)
  moreover have "hashed L ?st t'" using t'(4) by (simp add: hashed_def)
  ultimately show "progress L a ps ?st t' (As(i := B)) (U \<union> B)"
    using D(2,9) t'(1) B(2) by (simp add: progress_def)
  have c: "table_values t' ! i \<noteq> VNil" using reads_nonnil [OF v(2)] .
  have st: "strs_of L ?st = strs_of L st" by simp
  have "k = slot_key (strs_of L st) t' i \<Longrightarrow> present L ?st t' k"
    unfolding present_def st len using i(1) c by blast
  moreover have "present L st t k \<Longrightarrow> present L ?st t' k"
    unfolding present_def st len using others i(2) by metis
  moreover have "present L ?st t' k \<Longrightarrow> present L st t k \<or> k = slot_key (strs_of L st) t' i"
    unfolding present_def st len using others by metis
  ultimately show "present L ?st t' k \<longleftrightarrow> present L st t k \<or> k = slot_key (strs_of L st) t' i" by blast
qed

section \<open>Keys of the array part\<close>

lemma array_index_place:
  assumes "i < length (ct_array t)" "length (ct_array t) < 2 ^ 31"
  shows "array_index t (CInteger (of_nat (i + 1))) = Some (i + 1)"
proof -
  have "sint (ucast (of_nat (i + 1) :: u64) :: cint) = int (i + 1)"
  proof -
    have "sint (of_nat (i + 1) :: u64) = int (i + 1)"
      using assms by (simp add: signed_of_nat signed_take_bit_int_eq_self del: of_nat_add of_nat_Suc)
    then show ?thesis using low_word [of "of_nat (i + 1) :: u64"] assms by (simp del: of_nat_add of_nat_Suc)
  qed
  then show ?thesis using assms by (simp add: array_index_def Let_def del: of_nat_add of_nat_Suc)
qed

lemma array_indexD:
  assumes "array_index t k = Some j" "small_key k"
  shows "0 < j" "j \<le> length (ct_array t)" "k = CInteger (of_nat j)"
proof -
  obtain i where i: "k = CInteger i" using assms(1) by (auto simp: array_index_def split: conf.splits)
  then have s: "sint (ucast i :: cint) = sint i" using assms(2) low_word by (simp add: small_key_def)
  then have j: "0 < sint i" "sint i \<le> int (length (ct_array t))" "j = nat (sint i)"
    using assms(1) i by (auto simp: array_index_def Let_def split: if_splits)
  then show "0 < j" "j \<le> length (ct_array t)" by auto
  have "(of_nat j :: u64) = of_int (sint i)" using j by (simp add: of_nat_nat)
  then show "k = CInteger (of_nat j)" using i by simp
qed

section \<open>Single steps\<close>

definition writes_conf :: "nat \<Rightarrow> (conf \<Rightarrow> share \<Rightarrow> cval conv) \<Rightarrow> conf \<Rightarrow> bool" where
  "writes_conf L setv v \<longleftrightarrow>
     (\<forall>st. heap_ok L st \<longrightarrow>
        (\<exists>c st'. setv v st = Done c st' \<and> grows L (sh_top st) st st' \<and>
                 shows_value (sh_tables st') (strs_of L st') L v c {sh_top st..<sh_top st'}))"

definition filling :: "nat \<Rightarrow> nat \<Rightarrow> (conf \<times> conf) list \<Rightarrow> nat \<Rightarrow> nat \<Rightarrow> share \<Rightarrow> share \<Rightarrow> conf_table \<Rightarrow> (nat \<Rightarrow> nat set) \<Rightarrow> bool" where
  "filling L a ps n m st0 st t As \<longleftrightarrow>
     progress L a ps st t As {a<..<sh_top st} \<and> length (ct_array t) = n \<and> length (ct_hash t) = m \<and> grows L a st0 st"

lemma filling_grows:
  assumes F: "filling L a ps n m st0 st t As" and G: "grows L (sh_top st) st st'" "sh_top st' = sh_top st"
  shows "filling L a ps n m st0 st' t As"
proof -
  have P: "progress L a ps st t As {a<..<sh_top st}" using F by (simp add: filling_def)
  show ?thesis
    using F progress_grows [OF P G(1)] G grows_trans [OF _ G(1), of a st0] progressD(2) [OF P] by (simp add: filling_def)
qed

text \<open>The value of a new pair has been converted and is stored at place \<open>i\<close> of the table.\<close>

lemma filling_store:
  assumes F: "filling L a ps n m st0 st t As" and G: "grows L (sh_top st) st st1"
    and c: "map_of ps k = Some v" "shows_value (sh_tables st1) (strs_of L st1) L v c {sh_top st..<sh_top st1}"
    and t': "ct_L t' = Some L" "length (ct_array t') = n" "length (ct_hash t') = m" "hashed L st1 t'"
    and i: "i < n + m" "table_values t ! i = VNil" "table_values t' ! i = c" "slot_key (strs_of L st1) t' i = k"
    and others: "\<And>j. j < n + m \<Longrightarrow> j \<noteq> i \<Longrightarrow>
      table_values t' ! j = table_values t ! j \<and>
      (table_values t ! j \<noteq> VNil \<longrightarrow> slot_key (strs_of L st1) t' j = slot_key (strs_of L st1) t j)"
  shows "\<exists>As'. filling L a ps n m st0 (table_put a t' st1) t' As'"
    "present L (table_put a t' st1) t' k' \<longleftrightarrow> present L st t k' \<or> k' = k"
proof -
  let ?B = "{sh_top st..<sh_top st1}"
  have P: "progress L a ps st t As {a<..<sh_top st}" and len: "length (ct_array t) = n" "length (ct_hash t) = m" and g: "grows L a st0 st"
    using F by (simp_all add: filling_def)
  note D = progressD [OF P]
  have P1: "progress L a ps st1 t As {a<..<sh_top st}" using progress_grows [OF P G] .
  have top: "a < sh_top st" "sh_top st \<le> sh_top st1" using D(2) G by (simp_all add: grows_def)
  have B: "?B \<inter> {a<..<sh_top st} = {}" "?B \<subseteq> {a<..<sh_top st1}" "{a<..<sh_top st} \<union> ?B = {a<..<sh_top st1}" using top by auto
  note W = progress_write [OF P1 t'(1) _ _ t'(4), of i v ?B]
  have "progress L a ps (table_put a t' st1) t' (As(i := ?B)) ({a<..<sh_top st} \<union> ?B)"
    using W(1) len t'(2,3) i others c B(1,2) by simp
  moreover have "grows L a st0 (table_put a t' st1)"
    using grows_trans [OF grows_trans [OF g G] grows_put [OF grows_ok [OF G], of a a t']] top by simp
  ultimately have "filling L a ps n m st0 (table_put a t' st1) t' (As(i := ?B))" using t'(2,3) B(3) by (simp add: filling_def)
  then show "\<exists>As'. filling L a ps n m st0 (table_put a t' st1) t' As'" by blast
  show "present L (table_put a t' st1) t' k' \<longleftrightarrow> present L st t k' \<or> k' = k"
    using W(2) [of k'] len t'(2,3) i others c B(1,2) present_grows [OF D(5) G] by simp
qed

lemma absent_place:
  assumes "\<not> present L st t k" "i < length (table_values t)" "slot_key (strs_of L st) t i = k"
  shows "table_values t ! i = VNil"
  using assms by (auto simp: present_def)

lemma setarray_step:
  assumes F: "filling L a ps n m st0 st t As" and W: "writes_conf L setv v" and k: "map_of ps k = Some v" "small_key k"
    and j: "array_index t k = Some j" and n: "n < 2 ^ 31" and new: "\<not> present L st t k"
  shows "\<exists>st' t' As'. setarray setv a (Some v) j st = Done () st' \<and> filling L a ps n m st0 st' t' As' \<and> ct_hash t' = ct_hash t \<and>
    grows L a st st' \<and> (\<forall>k'. present L st' t' k' \<longleftrightarrow> present L st t k' \<or> k' = k)"
proof -
  have P: "progress L a ps st t As {a<..<sh_top st}" and len: "length (ct_array t) = n" "length (ct_hash t) = m"
    using F by (simp_all add: filling_def)
  note D = progressD [OF P]
  obtain c st1 where c: "setv v st = Done c st1" "grows L (sh_top st) st st1"
    "shows_value (sh_tables st1) (strs_of L st1) L v c {sh_top st..<sh_top st1}"
    using W D(1) by (auto simp: writes_conf_def)
  have at: "sh_tables st1 a = Some t" using D(2,3) c(2) by (simp add: grows_def)
  note key = array_indexD [OF j k(2)]
  define i where "i = j - 1"
  have i: "i < n" "j = i + 1" using key len by (auto simp: i_def)
  let ?t = "t\<lparr>ct_array := (ct_array t)[i := c]\<rparr>"
  have slot: "slot_key strs ?t x = slot_key strs t x" for strs x by (simp add: slot_key_def)
  have sk: "slot_key strs t i = k" for strs using i key(3) len by (simp add: slot_key_def)
  have vals: "table_values ?t = (table_values t)[i := c]" using table_values_array i len by metis
  have h: "hashed L st1 ?t"
    using hashed_grows [OF D(5) c(2)] array_index_cong [of ?t t] by (simp add: hashed_def)
  have nil: "table_values t ! i = VNil" using absent_place [OF new _ sk] i len by simp
  note S = filling_store [OF F c(2) k(1) c(3), of ?t i]
  have "\<exists>As'. filling L a ps n m st0 (table_put a ?t st1) ?t As'"
    using S(1) D(4) len h i nil vals slot sk by simp
  moreover have "present L (table_put a ?t st1) ?t k' \<longleftrightarrow> present L st t k' \<or> k' = k" for k'
    using S(2) [of k'] D(4) len h i nil vals slot sk by simp
  moreover have "setarray setv a (Some v) j st = Done () (table_put a ?t st1)"
    using c(1) at i len by (simp add: setarray_def array_put_def)
  moreover have "grows L a st (table_put a ?t st1)"
    using grows_trans [OF grows_weaken [OF c(2)] grows_put [OF grows_ok [OF c(2)], of a a ?t]] grows_topD [OF c(2)] D(2) by simp
  ultimately show ?thesis by (intro exI [of _ "table_put a ?t st1"] exI [of _ ?t]) auto
qed

text \<open>The data of a key as \<^verbatim>\<open>ishashkey\<close> gives them.\<close>

definition key_data :: "byte list list \<Rightarrow> conf \<Rightarrow> nat \<Rightarrow> int \<Rightarrow> bool" where
  "key_data strs k kt key \<longleftrightarrow>
     (\<forall>c nx nc. let n = \<lparr>cn_v = c, cn_key = key, cn_next = nx, cn_keyhash = key_hash k, cn_keytype = kt, cn_nocolliding = nc\<rparr>
        in slot_ok strs n \<and> node_key strs n = k) \<and>
     (\<forall>n. slot_ok strs n \<longrightarrow> (cn_keytype n = kt \<and> cn_key n = key \<longleftrightarrow> node_key strs n = k))"

lemma key_dataD:
  assumes "key_data strs k kt key"
    "n = \<lparr>cn_v = c, cn_key = key, cn_next = nx, cn_keyhash = key_hash k, cn_keytype = kt, cn_nocolliding = nc\<rparr>"
  shows "slot_ok (strs @ ext) n" "node_key (strs @ ext) n = k"
  using assms node_extend [of strs n ext] by (simp_all add: key_data_def Let_def)

lemma ishashkey_data:
  assumes "heap_ok L st" "small_key k"
  shows "\<exists>r st'. ishashkey L (length (ct_array t)) k st = Done r st' \<and> grows L b st st' \<and> sh_tables st' = sh_tables st \<and>
    sh_top st' = sh_top st \<and>
    (case array_index t k of
       Some j \<Rightarrow> r = Inl j
     | None \<Rightarrow> \<exists>kt key. r = Inr (kt, key, key_hash k) \<and> key_data (strs_of L st') k kt key)"
  using ishashkey_ok [OF assms] unfolding key_data_def .

lemma absent_node:
  assumes "hashed L st t" "\<not> present L st t k" "p < length (ct_hash t)" "ct_hash t ! p = Some n"
  shows "node_key (strs_of L st) n \<noteq> k"
proof
  assume k: "node_key (strs_of L st) n = k"
  have "cn_v n \<noteq> VNil" using assms(1,3,4) nth_mem [OF assms(3)] by (auto simp: hashed_def)
  then have "table_values t ! (length (ct_array t) + p) \<noteq> VNil" using value_slot [OF assms(3)] assms(4) by (simp add: node_value_def)
  moreover have "slot_key (strs_of L st) t (length (ct_array t) + p) = k" using assms(4) k by (simp add: slot_key_def)
  ultimately show False using absent_place [OF assms(2), of "length (ct_array t) + p"] assms(3) by simp
qed

lemma hashedI:
  assumes "slots_ok (strs_of L st) (ct_hash t)"
    "\<And>p n. p < length (ct_hash t) \<Longrightarrow> ct_hash t ! p = Some n \<Longrightarrow> array_index t (node_key (strs_of L st) n) = None \<and> cn_v n \<noteq> VNil"
  shows "hashed L st t"
  using assms by (auto simp: hashed_def in_set_conv_nth)

lemma hashedD:
  assumes "hashed L st t" "p < length (ct_hash t)" "ct_hash t ! p = Some n"
  shows "array_index t (node_key (strs_of L st) n) = None" "cn_v n \<noteq> VNil" "slot_ok (strs_of L st) n"
  using assms nth_mem [OF assms(2)] slots_okD(1) [of "strs_of L st" "ct_hash t" p n] by (auto simp: hashed_def)

lemma node_first_step:
  assumes F: "filling L a ps n m st0 st t As" and W: "writes_conf L setv v" and k: "map_of ps k = Some v"
    and j: "array_index t k = None" and new: "\<not> present L st t k"
    and p: "p = unat (key_hash k) mod m" "p < m" "ct_hash t ! p = None" and kd: "key_data (strs_of L st) k kt key"
  shows "\<exists>st' t' As' nd. conv_bind (setv v st) (\<lambda>c. node_put a p \<lparr>cn_v = c, cn_key = key, cn_next = -1, cn_keyhash = key_hash k,
      cn_keytype = kt, cn_nocolliding = True\<rparr>) = Done () st' \<and>
    filling L a ps n m st0 st' t' As' \<and> ct_hash t' = (ct_hash t)[p := Some nd] \<and> main_place (ct_hash t') nd = p \<and>
    grows L a st st' \<and> (\<forall>k'. present L st' t' k' \<longleftrightarrow> present L st t k' \<or> k' = k)"
proof -
  have P: "progress L a ps st t As {a<..<sh_top st}" and len: "length (ct_array t) = n" "length (ct_hash t) = m"
    using F by (simp_all add: filling_def)
  note D = progressD [OF P]
  obtain c st1 where c: "setv v st = Done c st1" "grows L (sh_top st) st st1"
    "shows_value (sh_tables st1) (strs_of L st1) L v c {sh_top st..<sh_top st1}"
    using W D(1) by (auto simp: writes_conf_def)
  have at: "sh_tables st1 a = Some t" using D(2,3) c(2) by (simp add: grows_def)
  obtain ext where ext: "strs_of L st1 = strs_of L st @ ext" using grows_extD [OF c(2)] by blast
  define nd where "nd = \<lparr>cn_v = c, cn_key = key, cn_next = -1, cn_keyhash = key_hash k, cn_keytype = kt, cn_nocolliding = True\<rparr>"
  note nk = key_dataD [OF kd nd_def, of ext, folded ext]
  have place: "main_place (ct_hash t) nd = p" using p(1) len by (simp add: main_place_def nd_def)
  let ?t = "t\<lparr>ct_hash := (ct_hash t)[p := Some nd]\<rparr>"
  have H: "hashed L st1 t" using hashed_grows [OF D(5) c(2)] .
  have absent: "\<not> present L st1 t k" using new present_grows [OF D(5) c(2)] by simp
  have slots: "slots_ok (strs_of L st1) (ct_hash ?t)"
    using slots_first [of "strs_of L st1" "ct_hash t" p nd] H p(2,3) len nk place absent_node [OF H absent]
    by (simp add: hashed_def nd_def)
  have h: "hashed L st1 ?t"
  proof (rule hashedI [OF slots])
    show "array_index ?t (node_key (strs_of L st1) x) = None \<and> cn_v x \<noteq> VNil"
      if "q < length (ct_hash ?t)" "ct_hash ?t ! q = Some x" for q x
      using that hashedD [OF H, of q x] j nk(2) reads_nonnil [OF c(3)] array_index_cong [of ?t t]
      by (cases "q = p") (auto simp: nd_def)
  qed
  have vals: "table_values ?t = (table_values t)[n + p := c]" using table_values_hash [of p t nd] p(2) len by (simp add: nd_def)
  have nil: "table_values t ! (n + p) = VNil" using value_slot [of p t] p len by (simp add: node_value_def)
  have sk: "slot_key (strs_of L st1) ?t (n + p) = k" using p(2) len nk(2) by (simp add: slot_key_def)
  have slot: "slot_key strs ?t x = slot_key strs t x" if "x \<noteq> n + p" "x < n + m" for strs x
    using that len by (auto simp: slot_key_def nth_list_update)
  note S = filling_store [OF F c(2) k c(3), of ?t "n + p"]
  have "\<exists>As'. filling L a ps n m st0 (table_put a ?t st1) ?t As'"
    using S(1) D(4) len h p(2) nil vals sk slot by simp
  moreover have "present L (table_put a ?t st1) ?t k' \<longleftrightarrow> present L st t k' \<or> k' = k" for k'
    using S(2) [of k'] D(4) len h p(2) nil vals sk slot by simp
  moreover have "conv_bind (setv v st) (\<lambda>c. node_put a p \<lparr>cn_v = c, cn_key = key, cn_next = -1, cn_keyhash = key_hash k,
      cn_keytype = kt, cn_nocolliding = True\<rparr>) = Done () (table_put a ?t st1)"
    using c(1) at p(2) len by (simp add: node_put_def nd_def)
  moreover have "grows L a st (table_put a ?t st1)"
    using grows_trans [OF grows_weaken [OF c(2)] grows_put [OF grows_ok [OF c(2)], of a a ?t]] grows_topD [OF c(2)] D(2) by simp
  moreover have "main_place (ct_hash ?t) nd = p" using place by (simp add: main_place_def)
  ultimately show ?thesis by (intro exI [of _ "table_put a ?t st1"] exI [of _ ?t]) auto
qed

lemma node_link_step:
  assumes F: "filling L a ps n m st0 st t As" and W: "writes_conf L setv v" and k: "map_of ps k = Some v"
    and j: "array_index t k = None" and new: "\<not> present L st t k"
    and p: "p = unat (key_hash k) mod m" "p < m" "ct_hash t ! p = Some mp" "main_place (ct_hash t) mp = p"
    and q: "q < m" "ct_hash t ! q = None" and kd: "key_data (strs_of L st) k kt key"
  shows "\<exists>st' t' As' nd. conv_bind (node_put a p (mp\<lparr>cn_next := int q, cn_nocolliding := False\<rparr>) st) (\<lambda>_ st2.
      conv_bind (setv v st2) (\<lambda>c. node_put a q \<lparr>cn_v = c, cn_key = key, cn_next = cn_next mp, cn_keyhash = key_hash k,
        cn_keytype = kt, cn_nocolliding = False\<rparr>)) = Done () st' \<and>
    filling L a ps n m st0 st' t' As' \<and>
    ct_hash t' = (ct_hash t)[p := Some (mp\<lparr>cn_next := int q, cn_nocolliding := False\<rparr>), q := Some nd] \<and>
    grows L a st st' \<and> (\<forall>k'. present L st' t' k' \<longleftrightarrow> present L st t k' \<or> k' = k)"
proof -
  have P: "progress L a ps st t As {a<..<sh_top st}" and len: "length (ct_array t) = n" "length (ct_hash t) = m"
    using F by (simp_all add: filling_def)
  note D = progressD [OF P]
  let ?mp = "mp\<lparr>cn_next := int q, cn_nocolliding := False\<rparr>"
  let ?t1 = "t\<lparr>ct_hash := (ct_hash t)[p := Some ?mp]\<rparr>"
  define st2 where "st2 = table_put a ?t1 st"
  have G2: "grows L a st st2" using grows_put [OF D(1,2)] by (simp add: st2_def)
  obtain c st3 where c: "setv v st2 = Done c st3" "grows L (sh_top st2) st2 st3"
    "shows_value (sh_tables st3) (strs_of L st3) L v c {sh_top st2..<sh_top st3}"
    using W grows_ok [OF G2] by (auto simp: writes_conf_def)
  have top: "sh_top st2 = sh_top st" "sh_top st \<le> sh_top st3" using grows_topD [OF c(2)] by (simp_all add: st2_def)
  have at3: "sh_tables st3 a = Some ?t1" using c(2) D(2) top by (simp add: grows_def st2_def)
  \<comment> \<open>The state as it would be if the main position had not been changed yet.\<close>
  define st1 where "st1 = table_put a t st3"
  have G: "grows L (sh_top st) st st1"
    using c(2) D(2,3) top grows_ok [OF c(2)] unfolding grows_def heap_ok_def st1_def st2_def by auto
  have reads1: "shows_value (sh_tables st1) (strs_of L st1) L v c {sh_top st..<sh_top st1}"
  proof -
    have "\<forall>x \<in> {sh_top st..<sh_top st3}. sh_tables st1 x = sh_tables st3 x" using D(2) by (simp add: st1_def)
    then show ?thesis using reads_frame [OF c(3), of "sh_tables st1" "[]"] top by (simp add: st1_def)
  qed
  obtain ext where ext: "strs_of L st1 = strs_of L st @ ext" using grows_extD [OF G] by blast
  define nd where "nd = \<lparr>cn_v = c, cn_key = key, cn_next = cn_next mp, cn_keyhash = key_hash k, cn_keytype = kt, cn_nocolliding = False\<rparr>"
  note nk = key_dataD [OF kd nd_def, of ext, folded ext]
  have place: "main_place (ct_hash t) nd = p" using p(1) len by (simp add: main_place_def nd_def)
  let ?t = "t\<lparr>ct_hash := (ct_hash t)[p := Some ?mp, q := Some nd]\<rparr>"
  have pq: "p \<noteq> q" using p(3) q(2) by auto
  have H: "hashed L st1 t" using hashed_grows [OF D(5) G] .
  have absent: "\<not> present L st1 t k" using new present_grows [OF D(5) G] by simp
  have slots: "slots_ok (strs_of L st1) (ct_hash ?t)"
    using slots_link [of "strs_of L st1" "ct_hash t" p mp q nd] H p(2-4) q len nk place absent_node [OF H absent]
    by (simp add: hashed_def nd_def)
  have same: "node_key strs ?mp = node_key strs mp" "cn_v ?mp = cn_v mp" for strs by (simp_all add: node_key_def)
  have h: "hashed L st1 ?t"
  proof (rule hashedI [OF slots])
    show "array_index ?t (node_key (strs_of L st1) x) = None \<and> cn_v x \<noteq> VNil"
      if x: "i < length (ct_hash ?t)" "ct_hash ?t ! i = Some x" for i x
    proof -
      consider "i = q" "x = nd" | "i = p" "x = ?mp" | "ct_hash t ! i = Some x"
        using x p(2) q(1) len pq by (cases "i = q"; cases "i = p") auto
      then show ?thesis
      proof cases
        case 1
        then show ?thesis using j nk(2) reads_nonnil [OF c(3)] array_index_cong [of ?t t] by (simp add: nd_def)
      next
        case 2
        then show ?thesis using hashedD [OF H, of p mp] p(2,3) len same array_index_cong [of ?t t] by simp
      next
        case 3
        then show ?thesis using hashedD [OF H, of i x] x(1) array_index_cong [of ?t t] by simp
      qed
    qed
  qed
  have vals: "table_values ?t = (table_values t)[n + q := c]"
  proof -
    have "table_values ?t1 = (table_values t)[n + p := cn_v mp]" using table_values_hash [of p t ?mp] p(2) len by simp
    also have "\<dots> = table_values t" using value_slot [of p t] p(2,3) len by (metis list_update_id node_value_def option.simps(5))
    finally show ?thesis using table_values_hash [of q ?t1 nd] q(1) len by (simp add: nd_def)
  qed
  have nil: "table_values t ! (n + q) = VNil" using value_slot [of q t] q len by (simp add: node_value_def)
  have sk: "slot_key (strs_of L st1) ?t (n + q) = k" using q(1) len nk(2) by (simp add: slot_key_def)
  have slot: "slot_key strs ?t x = slot_key strs t x" if "x \<noteq> n + q" "x < n + m" for strs x
    using that len same(1) [of strs] p(3) by (cases "x = n + p") (auto simp: slot_key_def nth_list_update)
  note S = filling_store [OF F G k reads1, of ?t "n + q"]
  have eq: "table_put a ?t st1 = table_put a ?t st3" by (simp add: st1_def table_put_def)
  have "\<exists>As'. filling L a ps n m st0 (table_put a ?t st3) ?t As'"
    using S(1) D(4) len h q(1) nil vals sk slot eq by simp
  moreover have "present L (table_put a ?t st3) ?t k' \<longleftrightarrow> present L st t k' \<or> k' = k" for k'
    using S(2) [of k'] D(4) len h q(1) nil vals sk slot eq by simp
  moreover have "conv_bind (node_put a p ?mp st) (\<lambda>_ st2. conv_bind (setv v st2) (\<lambda>c. node_put a q \<lparr>cn_v = c, cn_key = key,
      cn_next = cn_next mp, cn_keyhash = key_hash k, cn_keytype = kt, cn_nocolliding = False\<rparr>)) = Done () (table_put a ?t st3)"
    using c(1) at3 p(2) q(1) len D(3) by (simp add: node_put_def nd_def flip: st2_def)
  moreover have "grows L a st (table_put a ?t st3)"
    using grows_trans [OF grows_weaken [OF G] grows_put [OF grows_ok [OF G], of a a ?t]] grows_topD [OF G] D(2) eq by simp
  ultimately show ?thesis by (intro exI [of _ "table_put a ?t st3"] exI [of _ ?t]) auto
qed

end
