(* ===== verification/Sharedata_Table.thy ===== *)
theory Sharedata_Table
  imports Sharedata_Fill
begin

text \<open>
  The passes over the pairs of a table, their invariants, and the conversion as a whole.
\<close>

lemma each_inv:
  assumes "I [] st" "\<And>bs x cs s. xs = bs @ x # cs \<Longrightarrow> I bs s \<Longrightarrow> \<exists>s'. f x s = Done () s' \<and> I (bs @ [x]) s'"
  shows "\<exists>st'. each f xs st = Done () st' \<and> I xs st'"
proof -
  have "I bs s \<Longrightarrow> xs = bs @ cs \<Longrightarrow> \<exists>st'. each f cs s = Done () st' \<and> I xs st'" for bs cs s
  proof (induction cs arbitrary: bs s)
    case (Cons x cs)
    obtain s1 where s1: "f x s = Done () s1" "I (bs @ [x]) s1" using assms(2) [OF Cons.prems(2,1)] by blast
    then show ?case using Cons.IH [of "bs @ [x]" s1] Cons.prems(2) by simp
  qed simp
  then show ?thesis using assms(1) by blast
qed

section \<open>Pairs that the table can hold\<close>

definition pairs_ok :: "nat \<Rightarrow> (conf \<Rightarrow> share \<Rightarrow> cval conv) \<Rightarrow> nat \<Rightarrow> (conf \<times> conf) list \<Rightarrow> bool" where
  "pairs_ok L setv n ps \<longleftrightarrow>
     n < 2 ^ 31 \<and> distinct (map fst ps) \<and> (\<forall>k v. (k, v) \<in> set ps \<longrightarrow> small_key k \<and> writes_conf L setv v)"

lemma pairs_okD:
  assumes "pairs_ok L setv n ps" "ps = bs @ (k, v) # cs"
  shows "small_key k" "writes_conf L setv v" "map_of ps k = Some v" "k \<notin> fst ` set bs" "n < 2 ^ 31"
proof -
  have d: "distinct (map fst ps)" and w: "\<forall>k v. (k, v) \<in> set ps \<longrightarrow> small_key k \<and> writes_conf L setv v" "n < 2 ^ 31"
    using assms(1) unfolding pairs_ok_def by blast+
  have "(k, v) \<in> set ps" using assms(2) by simp
  then show "small_key k" "writes_conf L setv v" "map_of ps k = Some v" "n < 2 ^ 31"
    using w d by (simp_all add: map_of_is_SomeI)
  show "k \<notin> fst ` set bs" using d assms(2) by auto
qed

text \<open>The keys that go into the hash part.\<close>

definition hash_keys :: "conf_table \<Rightarrow> (conf \<times> conf) list \<Rightarrow> conf set" where
  "hash_keys t ps = {k \<in> fst ` set ps. array_index t k = None}"

lemma countsize_small:
  assumes "\<forall>k v. (k, v) \<in> set ps \<longrightarrow> small_key k" "distinct (map fst ps)" "length (ct_array t) = n"
  shows "countsize n ps = Inr (card (hash_keys t ps))"
  using assms(1,2)
proof (induction ps)
  case Nil
  then show ?case by (simp add: hash_keys_def)
next
  case (Cons p ps)
  obtain k v where p: "p = (k, v)" by (cases p)
  have k: "small_key k" using Cons.prems(1) p by auto
  have IH: "countsize n ps = Inr (card (hash_keys t ps))" using Cons by auto
  have new: "k \<notin> fst ` set ps" using Cons.prems(2) p by auto
  have split: "hash_keys t (p # ps) = (if array_index t k = None then insert k (hash_keys t ps) else hash_keys t ps)"
    using p by (auto simp: hash_keys_def)
  have fin: "finite (hash_keys t ps)" "k \<notin> hash_keys t ps" using new by (auto simp: hash_keys_def)
  show ?case
  proof (cases k)
    case (CInteger i)
    then have "sint (ucast i :: cint) = sint i" using k low_word by (simp add: small_key_def)
    then show ?thesis using CInteger p IH split fin assms(3) by (auto simp: key_error_def array_index_def Let_def)
  next
    case (CString s)
    then show ?thesis using p IH split fin by (simp add: key_error_def array_index_def)
  qed (use k in \<open>auto simp: small_key_def\<close>)
qed

lemma finite_hash_keys: "finite (hash_keys t ps)"
  by (simp add: hash_keys_def)

lemma hash_keys_cong: "length (ct_array t') = length (ct_array t) \<Longrightarrow> hash_keys t' ps = hash_keys t ps"
  using array_index_cong [of t' t] by (simp add: hash_keys_def)

text \<open>The keys in the slots are different keys of the hash part.\<close>

lemma slot_in_keys:
  assumes F: "filling L a ps n m st0 st t As" and p: "p < m" "ct_hash t ! p = Some nd"
  shows "node_key (strs_of L st) nd \<in> hash_keys t ps"
proof -
  have P: "progress L a ps st t As {a<..<sh_top st}" and len: "length (ct_array t) = n" "length (ct_hash t) = m"
    using F by (simp_all add: filling_def)
  note D = progressD [OF P]
  have "table_values t ! (n + p) = cn_v nd" using value_slot [of p t] p len by (simp add: node_value_def)
  moreover have h: "array_index t (node_key (strs_of L st) nd) = None" "cn_v nd \<noteq> VNil" using hashedD [OF D(5)] p len by auto
  moreover have "slot_key (strs_of L st) t (n + p) = node_key (strs_of L st) nd" using p len by (simp add: slot_key_def)
  ultimately obtain v where "map_of ps (node_key (strs_of L st) nd) = Some v"
    using D(6) p(1) len unfolding entries_def by (metis add_less_cancel_left length_table_values)
  then show ?thesis using h(1) by (force simp: hash_keys_def dest: map_of_SomeD)
qed

lemma slots_inj:
  assumes F: "filling L a ps n m st0 st t As"
  shows "inj_on (\<lambda>p. node_key (strs_of L st) (the (ct_hash t ! p))) {p. p < m \<and> ct_hash t ! p \<noteq> None}"
proof (rule inj_onI)
  have H: "slots_ok (strs_of L st) (ct_hash t)" "length (ct_hash t) = m"
    using F by (simp_all add: filling_def progress_def hashed_def)
  fix p q
  assume p: "p \<in> {p. p < m \<and> ct_hash t ! p \<noteq> None}" and q: "q \<in> {p. p < m \<and> ct_hash t ! p \<noteq> None}"
    and same: "node_key (strs_of L st) (the (ct_hash t ! p)) = node_key (strs_of L st) (the (ct_hash t ! q))"
  obtain x y where xy: "ct_hash t ! p = Some x" "ct_hash t ! q = Some y" using p q by blast
  have "node_key (strs_of L st) x = node_key (strs_of L st) y" using same unfolding xy option.sel .
  moreover have "p < length (ct_hash t)" "q < length (ct_hash t)" using p q unfolding H(2) by blast+
  ultimately show "p = q" using slots_okD(2) [OF H(1) _ _ xy] by blast
qed

lemma free_slot_exists:
  assumes F: "filling L a ps n m st0 st t As" and m: "card (hash_keys t ps) = m"
    and k: "k \<in> hash_keys t ps" "\<not> present L st t k"
  shows "\<exists>q. free_slot (ct_hash t) = Some q \<and> q < m \<and> ct_hash t ! q = None"
proof -
  have len: "length (ct_hash t) = m" and H: "hashed L st t" using F by (simp_all add: filling_def progress_def)
  have "\<exists>q < m. ct_hash t ! q = None"
  proof (rule ccontr)
    assume "\<not> ?thesis"
    then have full: "{p. p < m \<and> ct_hash t ! p \<noteq> None} = {..<m}" by auto
    let ?f = "\<lambda>p. node_key (strs_of L st) (the (ct_hash t ! p))"
    have "?f ` {..<m} \<subseteq> hash_keys t ps - {k}"
    proof
      fix x assume "x \<in> ?f ` {..<m}"
      then obtain p where p0: "p < m" "x = ?f p" by blast
      then obtain nd where nd: "ct_hash t ! p = Some nd" using full by blast
      note p = p0(1) nd
      have "x = node_key (strs_of L st) nd" using p0(2) nd by simp
      then show "x \<in> hash_keys t ps - {k}" using slot_in_keys [OF F p] absent_node [OF H k(2), of p nd] len p by simp
    qed
    then have "card (?f ` {..<m}) \<le> card (hash_keys t ps - {k})" by (intro card_mono) (simp_all add: finite_hash_keys)
    moreover have "card (?f ` {..<m}) = m" using card_image [OF slots_inj [OF F, unfolded full]] by simp
    ultimately show False using k(1) m finite_hash_keys [of t ps] by (metis card_Diff1_less leD)
  qed
  then have "free_slot (ct_hash t) \<noteq> None" using len by (auto simp: free_slot_def find_None_iff)
  then show ?thesis using len by (auto simp: free_slot_def find_Some_iff)
qed

lemma slots_full:
  assumes F: "filling L a ps n m st0 st t As" and m: "card (hash_keys t ps) = m" and n: "n < 2 ^ 31"
    and all: "\<forall>k \<in> hash_keys t ps. present L st t k"
  shows "None \<notin> set (ct_hash t)"
proof -
  have len: "length (ct_array t) = n" "length (ct_hash t) = m" using F by (simp_all add: filling_def)
  let ?f = "\<lambda>p. node_key (strs_of L st) (the (ct_hash t ! p))" and ?F = "{p. p < m \<and> ct_hash t ! p \<noteq> None}"
  have "hash_keys t ps \<subseteq> ?f ` ?F"
  proof
    fix k assume k: "k \<in> hash_keys t ps"
    then obtain i where i: "i < n + m" "table_values t ! i \<noteq> VNil" "slot_key (strs_of L st) t i = k"
      using all len by (auto simp: present_def)
    have "\<not> i < n"
    proof
      assume less: "i < n"
      then have "k = CInteger (of_nat (i + 1))" using i(3) len by (simp add: slot_key_def)
      then have "array_index t k \<noteq> None" using array_index_place [of i t] len less n by simp
      then show False using k by (simp add: hash_keys_def)
    qed
    then obtain p where p: "i = n + p" "p < m" using i(1) by (metis add_less_cancel_left le_Suc_ex not_less)
    then have "ct_hash t ! p \<noteq> None" using value_slot [of p t] i(2) len by (auto simp: node_value_def split: option.splits)
    moreover have "?f p = k" using i(3) p len by (simp add: slot_key_def)
    ultimately show "k \<in> ?f ` ?F" using p(2) by blast
  qed
  then have "m \<le> card (?f ` ?F)" unfolding m [symmetric] by (intro card_mono) simp_all
  also have "\<dots> \<le> card ?F" by (rule card_image_le) simp
  finally have "m \<le> card ?F" .
  moreover have "?F \<subseteq> {..<m}" by blast
  ultimately have "?F = {..<m}" using card_mono [of "{..<m}" ?F] by (intro card_subset_eq) simp_all
  then have "ct_hash t ! p \<noteq> None" if "p < m" for p using that by blast
  then show ?thesis using len by (auto simp: in_set_conv_nth)
qed

section \<open>The first pass\<close>

definition main_slot :: "nat \<Rightarrow> conf \<Rightarrow> nat" where
  "main_slot m k = unat (key_hash k) mod m"

definition first_done :: "nat \<Rightarrow> nat \<Rightarrow> (conf \<times> conf) list \<Rightarrow> nat \<Rightarrow> nat \<Rightarrow> share \<Rightarrow> (conf \<times> conf) list \<Rightarrow> share \<Rightarrow> bool" where
  "first_done L a ps n m st0 bs st \<longleftrightarrow>
     (\<exists>t As. filling L a ps n m st0 st t As \<and> (\<forall>k. present L st t k \<longrightarrow> k \<in> fst ` set bs) \<and>
        (\<forall>k \<in> fst ` set bs. if array_index t k = None then ct_hash t ! main_slot m k \<noteq> None else present L st t k) \<and>
        (\<forall>i nd. i < m \<and> ct_hash t ! i = Some nd \<longrightarrow> main_place (ct_hash t) nd = i))"

lemma main_place_node:
  assumes "filling L a ps n m st0 st t As" "p < m" "ct_hash t ! p = Some nd"
  shows "main_place (ct_hash t) nd = main_slot m (node_key (strs_of L st) nd)"
proof -
  have "hashed L st t" "length (ct_hash t) = m" using assms(1) by (simp_all add: filling_def progress_def)
  then show ?thesis using node_hash hashedD(3) [of L st t p nd] assms(2,3) by (simp add: main_place_def main_slot_def)
qed

lemma main_place_cong: "length hs' = length hs \<Longrightarrow> main_place hs' nd = main_place hs nd"
  by (simp add: main_place_def)

lemma fillingD:
  assumes "filling L a ps n m st0 st t As"
  shows "heap_ok L st" "sh_tables st a = Some t" "a < sh_top st" "length (ct_array t) = n" "length (ct_hash t) = m" "hashed L st t"
  using assms by (simp_all add: filling_def progress_def)

lemma first_pair:
  assumes ok: "pairs_ok L setv n ps" and ps: "ps = bs @ p # cs" and m: "0 < m" and I: "first_done L a ps n m st0 bs st"
  shows "\<exists>st'. nocolliding_pair setv L a p st = Done () st' \<and> first_done L a ps n m st0 (bs @ [p]) st'"
proof -
  obtain k v where p: "p = (k, v)" by (cases p)
  note K = pairs_okD [OF ok ps [unfolded p]]
  obtain t As where F: "filling L a ps n m st0 st t As" and pres: "\<forall>k. present L st t k \<longrightarrow> k \<in> fst ` set bs"
    and old: "\<forall>k \<in> fst ` set bs. if array_index t k = None then ct_hash t ! main_slot m k \<noteq> None else present L st t k"
    and place: "\<forall>i nd. i < m \<and> ct_hash t ! i = Some nd \<longrightarrow> main_place (ct_hash t) nd = i"
    using I unfolding first_done_def by blast
  note D = fillingD [OF F]
  obtain r st1 where r: "ishashkey L (length (ct_array t)) k st = Done r st1" "grows L (sh_top st) st st1"
    "sh_top st1 = sh_top st"
    "case array_index t k of Some j \<Rightarrow> r = Inl j
     | None \<Rightarrow> \<exists>kt key. r = Inr (kt, key, key_hash k) \<and> key_data (strs_of L st1) k kt key"
    using ishashkey_data [OF D(1) K(1), of t "sh_top st"] by blast
  have F1: "filling L a ps n m st0 st1 t As" using filling_grows [OF F r(2,3)] .
  have same: "present L st1 t x \<longleftrightarrow> present L st t x" for x using present_grows [OF D(6) r(2)] .
  have new: "\<not> present L st1 t k" using pres K(4) same by blast
  let ?q = "main_slot m k"
  have q: "?q < m" using m by (simp add: main_slot_def)
  have old1: "if array_index t x = None then ct_hash t ! main_slot m x \<noteq> None else present L st1 t x" if "x \<in> fst ` set bs" for x
    using old that same by auto
  show ?thesis
  proof (cases "array_index t k")
    case (Some j)
    obtain st' t' As' where s: "setarray setv a (Some v) j st1 = Done () st'" "filling L a ps n m st0 st' t' As'"
      "ct_hash t' = ct_hash t" "\<forall>x. present L st' t' x \<longleftrightarrow> present L st1 t x \<or> x = k"
      using setarray_step [OF F1 K(2,3,1) Some K(5) new] by blast
    have ai: "array_index t' x = array_index t x" for x using array_index_cong D(4) fillingD(4) [OF s(2)] by metis
    have "first_done L a ps n m st0 (bs @ [p]) st'"
      unfolding first_done_def
    proof (intro exI conjI allI impI ballI)
      show "filling L a ps n m st0 st' t' As'" using s(2) .
      show "x \<in> fst ` set (bs @ [p])" if "present L st' t' x" for x using that s(4) pres same p by auto
      show "if array_index t' x = None then ct_hash t' ! main_slot m x \<noteq> None else present L st' t' x" if "x \<in> fst ` set (bs @ [p])" for x
        using that old1 [of x] s(3,4) Some p ai [of x] by (cases "x = k") auto
      show "main_place (ct_hash t') nd = i" if "i < m \<and> ct_hash t' ! i = Some nd" for i nd using that place s(3) by simp
    qed
    then show ?thesis using s(1) r(1,4) D(2) Some by (auto simp: nocolliding_pair_def p)
  next
    case None
    then obtain kt key where kd: "r = Inr (kt, key, key_hash k)" "key_data (strs_of L st1) k kt key" using r(4) by auto
    show ?thesis
    proof (cases "ct_hash t ! ?q = None")
      case True
      obtain st' t' As' nd where s: "conv_bind (setv v st1) (\<lambda>c. node_put a ?q \<lparr>cn_v = c, cn_key = key, cn_next = -1,
          cn_keyhash = key_hash k, cn_keytype = kt, cn_nocolliding = True\<rparr>) = Done () st'" "filling L a ps n m st0 st' t' As'"
        "ct_hash t' = (ct_hash t)[?q := Some nd]" "main_place (ct_hash t') nd = ?q"
        "\<forall>x. present L st' t' x \<longleftrightarrow> present L st1 t x \<or> x = k"
        using node_first_step [OF F1 K(2,3) None new main_slot_def q True kd(2)] by blast
      have ai: "array_index t' x = array_index t x" for x using array_index_cong D(4) fillingD(4) [OF s(2)] by metis
      have "first_done L a ps n m st0 (bs @ [p]) st'"
        unfolding first_done_def
      proof (intro exI conjI allI impI ballI)
        show "filling L a ps n m st0 st' t' As'" using s(2) .
        show "x \<in> fst ` set (bs @ [p])" if "present L st' t' x" for x using that s(5) pres same p by auto
        show "if array_index t' x = None then ct_hash t' ! main_slot m x \<noteq> None else present L st' t' x" if "x \<in> fst ` set (bs @ [p])" for x
          using that old1 [of x] s(3,5) None p ai [of x] D(5) q by (cases "x = k"; cases "main_slot m x = ?q") auto
        show "main_place (ct_hash t') x = i" if "i < m \<and> ct_hash t' ! i = Some x" for i x
          using that place s(3,4) D(5) main_place_cong [of "ct_hash t'" "ct_hash t" x] by (cases "i = ?q") auto
      qed
      then show ?thesis using s(1) r(1) kd(1) D(2,5) True by (auto simp: nocolliding_pair_def p main_slot_def Let_def)
    next
      case False
      have "first_done L a ps n m st0 (bs @ [p]) st1"
        unfolding first_done_def
      proof (intro exI conjI allI impI ballI)
        show "filling L a ps n m st0 st1 t As" using F1 .
        show "x \<in> fst ` set (bs @ [p])" if "present L st1 t x" for x using that pres same p by auto
        show "if array_index t x = None then ct_hash t ! main_slot m x \<noteq> None else present L st1 t x" if "x \<in> fst ` set (bs @ [p])" for x
          using that old1 [of x] None False p by (cases "x = k") auto
        show "main_place (ct_hash t) x = i" if "i < m \<and> ct_hash t ! i = Some x" for i x using that place by simp
      qed
      then show ?thesis using r(1) kd(1) D(2,5) False by (auto simp: nocolliding_pair_def p main_slot_def Let_def)
    qed
  qed
qed

section \<open>The second pass\<close>

definition second_done :: "nat \<Rightarrow> nat \<Rightarrow> (conf \<times> conf) list \<Rightarrow> nat \<Rightarrow> nat \<Rightarrow> share \<Rightarrow> (conf \<times> conf) list \<Rightarrow> share \<Rightarrow> bool" where
  "second_done L a ps n m st0 bs st \<longleftrightarrow>
     (\<exists>t As. filling L a ps n m st0 st t As \<and>
        (\<forall>k \<in> fst ` set ps. array_index t k \<noteq> None \<longrightarrow> present L st t k) \<and>
        (\<forall>k \<in> hash_keys t ps. \<exists>nd. ct_hash t ! main_slot m k = Some nd \<and> main_place (ct_hash t) nd = main_slot m k) \<and>
        (\<forall>k \<in> fst ` set bs. present L st t k) \<and>
        (\<forall>k. present L st t k \<and> array_index t k = None \<and> k \<notin> fst ` set bs \<longrightarrow>
           (\<exists>nd. ct_hash t ! main_slot m k = Some nd \<and> node_key (strs_of L st) nd = k)))"

lemma present_slot:
  assumes F: "filling L a ps n m st0 st t As" and n: "n < 2 ^ 31" and k: "present L st t k" "array_index t k = None"
  shows "\<exists>p nd. p < m \<and> ct_hash t ! p = Some nd \<and> node_key (strs_of L st) nd = k"
proof -
  note D = fillingD [OF F]
  obtain i where i: "i < n + m" "table_values t ! i \<noteq> VNil" "slot_key (strs_of L st) t i = k"
    using k(1) D(4,5) by (auto simp: present_def)
  have "\<not> i < n"
  proof
    assume less: "i < n"
    then have "k = CInteger (of_nat (i + 1))" using i(3) D(4) by (simp add: slot_key_def)
    then show False using array_index_place [of i t] D(4) less n k(2) by simp
  qed
  then obtain p where p: "i = n + p" "p < m" using i(1) by (metis add_less_cancel_left le_Suc_ex not_less)
  then obtain nd where "ct_hash t ! p = Some nd" using value_slot [of p t] i(2) D(4,5) by (auto simp: node_value_def split: option.splits)
  then show ?thesis using i(3) p D(4) by (auto simp: slot_key_def)
qed

lemma first_second:
  assumes "first_done L a ps n m st0 ps st" "n < 2 ^ 31" "0 < m"
  shows "second_done L a ps n m st0 [] st"
proof -
  obtain t As where F: "filling L a ps n m st0 st t As"
    and old: "\<forall>k \<in> fst ` set ps. if array_index t k = None then ct_hash t ! main_slot m k \<noteq> None else present L st t k"
    and place: "\<forall>i nd. i < m \<and> ct_hash t ! i = Some nd \<longrightarrow> main_place (ct_hash t) nd = i"
    using assms(1) unfolding first_done_def by blast
  show ?thesis
    unfolding second_done_def
  proof (rule exI [of _ t], rule exI [of _ As], intro conjI allI impI ballI)
    show "filling L a ps n m st0 st t As" using F .
    show "present L st t k" if "k \<in> fst ` set ps" "array_index t k \<noteq> None" for k using old that by auto
    show "\<exists>nd. ct_hash t ! main_slot m k = Some nd \<and> main_place (ct_hash t) nd = main_slot m k" if k: "k \<in> hash_keys t ps" for k
    proof -
      have k': "k \<in> fst ` set ps" "array_index t k = None" using k by (simp_all add: hash_keys_def)
      then obtain nd where nd: "ct_hash t ! main_slot m k = Some nd" using bspec [OF old k'(1)] by auto
      have "main_slot m k < m" using assms(3) by (simp add: main_slot_def)
      then show ?thesis using place nd by blast
    qed
    show "\<exists>nd. ct_hash t ! main_slot m k = Some nd \<and> node_key (strs_of L st) nd = k"
      if k: "present L st t k \<and> array_index t k = None \<and> k \<notin> fst ` set []" for k
    proof -
      obtain p nd where p: "p < m" "ct_hash t ! p = Some nd" "node_key (strs_of L st) nd = k"
        using present_slot [OF F assms(2)] k by blast
      then have "main_slot m k = p" using main_place_node [OF F p(1,2)] place by simp
      then show ?thesis using p by auto
    qed
  qed simp
qed

lemma second_pair:
  assumes ok: "pairs_ok L setv n ps" and ps: "ps = bs @ p # cs" and m: "0 < m" and I: "second_done L a ps n m st0 bs st"
    and count: "\<And>t. length (ct_array t) = n \<Longrightarrow> card (hash_keys t ps) = m"
  shows "\<exists>st'. colliding_pair setv L a p st = Done () st' \<and> second_done L a ps n m st0 (bs @ [p]) st'"
proof -
  obtain k v where p: "p = (k, v)" by (cases p)
  note K = pairs_okD [OF ok ps [unfolded p]]
  have kin: "k \<in> fst ` set ps" using ps p by simp
  obtain t As where F: "filling L a ps n m st0 st t As"
    and arr: "\<forall>k \<in> fst ` set ps. array_index t k \<noteq> None \<longrightarrow> present L st t k"
    and owner: "\<forall>k \<in> hash_keys t ps. \<exists>nd. ct_hash t ! main_slot m k = Some nd \<and> main_place (ct_hash t) nd = main_slot m k"
    and old: "\<forall>k \<in> fst ` set bs. present L st t k"
    and main: "\<forall>k. present L st t k \<and> array_index t k = None \<and> k \<notin> fst ` set bs \<longrightarrow>
      (\<exists>nd. ct_hash t ! main_slot m k = Some nd \<and> node_key (strs_of L st) nd = k)"
    using I unfolding second_done_def by blast
  note D = fillingD [OF F]
  obtain r st1 where r: "ishashkey L (length (ct_array t)) k st = Done r st1" "grows L (sh_top st) st st1"
    "sh_top st1 = sh_top st"
    "case array_index t k of Some j \<Rightarrow> r = Inl j
     | None \<Rightarrow> \<exists>kt key. r = Inr (kt, key, key_hash k) \<and> key_data (strs_of L st1) k kt key"
    using ishashkey_data [OF D(1) K(1), of t "sh_top st"] by blast
  have F1: "filling L a ps n m st0 st1 t As" using filling_grows [OF F r(2,3)] .
  have same: "present L st1 t x \<longleftrightarrow> present L st t x" for x using present_grows [OF D(6) r(2)] .
  have key1: "node_key (strs_of L st1) nd = node_key (strs_of L st) nd" if "i < m" "ct_hash t ! i = Some nd" for i nd
    using node_key_grows [OF D(6) r(2)] that D(5) by simp
  let ?q = "main_slot m k"
  have slot: "main_slot m x < m" for x using m by (simp add: main_slot_def)
  have keep: "second_done L a ps n m st0 (bs @ [p]) st1" if "present L st t k"
    unfolding second_done_def
  proof (rule exI [of _ t], rule exI [of _ As], intro conjI allI impI ballI)
    show "filling L a ps n m st0 st1 t As" using F1 .
    show "present L st1 t x" if "x \<in> fst ` set ps" "array_index t x \<noteq> None" for x using arr same that by auto
    show "\<exists>nd. ct_hash t ! main_slot m x = Some nd \<and> main_place (ct_hash t) nd = main_slot m x" if "x \<in> hash_keys t ps" for x
      using owner that by blast
    show "present L st1 t x" if "x \<in> fst ` set (bs @ [p])" for x using that old same p \<open>present L st t k\<close> by auto
    show "\<exists>nd. ct_hash t ! main_slot m x = Some nd \<and> node_key (strs_of L st1) nd = x"
      if x: "present L st1 t x \<and> array_index t x = None \<and> x \<notin> fst ` set (bs @ [p])" for x
    proof -
      obtain nd where "ct_hash t ! main_slot m x = Some nd" "node_key (strs_of L st) nd = x" using x main same by auto
      then show ?thesis using key1 [OF slot] by auto
    qed
  qed
  show ?thesis
  proof (cases "array_index t k")
    case (Some j)
    then have "present L st t k" using bspec [OF arr kin] by simp
    then show ?thesis using keep r(1,4) D(2) Some by (auto simp: colliding_pair_def p)
  next
    case None
    then obtain kt key where kd: "r = Inr (kt, key, key_hash k)" "key_data (strs_of L st1) k kt key" using r(4) by auto
    have hk: "k \<in> hash_keys t ps" using None kin by (simp add: hash_keys_def)
    then obtain mp where mp: "ct_hash t ! ?q = Some mp" "main_place (ct_hash t) mp = ?q" using owner by blast
    have "slot_ok (strs_of L st1) mp" using hashedD(3) [of L st1 t ?q mp] fillingD(5,6) [OF F1] mp(1) slot by simp
    then have hit: "cn_keytype mp = kt \<and> cn_key mp = key \<longleftrightarrow> node_key (strs_of L st) mp = k"
      using kd(2) key1 [OF slot mp(1)] by (simp add: key_data_def)
    show ?thesis
    proof (cases "present L st t k")
      case True
      then have "node_key (strs_of L st) mp = k" using main None K(4) mp(1) by fastforce
      then show ?thesis using keep [OF True] r(1) kd(1) D(2,5) mp(1) hit by (auto simp: colliding_pair_def p main_slot_def Let_def)
    next
      case False
      then have miss: "\<not> (cn_keytype mp = kt \<and> cn_key mp = key)"
        using absent_node [OF D(6) False, of ?q mp] mp(1) D(5) slot hit by simp
      have new: "\<not> present L st1 t k" using False same by simp
      obtain j where j: "free_slot (ct_hash t) = Some j" "j < m" "ct_hash t ! j = None"
        using free_slot_exists [OF F count [OF D(4)] hk False] by blast
      obtain st' t' As' nd where s: "conv_bind (node_put a ?q (mp\<lparr>cn_next := int j, cn_nocolliding := False\<rparr>) st1) (\<lambda>_ st2.
          conv_bind (setv v st2) (\<lambda>c. node_put a j \<lparr>cn_v = c, cn_key = key, cn_next = cn_next mp, cn_keyhash = key_hash k,
            cn_keytype = kt, cn_nocolliding = False\<rparr>)) = Done () st'"
        "filling L a ps n m st0 st' t' As'"
        "ct_hash t' = (ct_hash t)[?q := Some (mp\<lparr>cn_next := int j, cn_nocolliding := False\<rparr>), j := Some nd]"
        "grows L a st1 st'" "\<forall>x. present L st' t' x \<longleftrightarrow> present L st1 t x \<or> x = k"
        using node_link_step [OF F1 K(2,3) None new main_slot_def slot mp j(2,3) kd(2)] by blast
      have ai: "array_index t' x = array_index t x" for x using array_index_cong D(4) fillingD(4) [OF s(2)] by metis
      have hks: "hash_keys t' ps = hash_keys t ps" using hash_keys_cong D(4) fillingD(4) [OF s(2)] by metis
      have len: "length (ct_hash t') = length (ct_hash t)" using s(3) by simp
      have kept: "\<exists>nd'. ct_hash t' ! i = Some nd' \<and> main_place (ct_hash t') nd' = main_place (ct_hash t) x \<and>
          node_key (strs_of L st') nd' = node_key (strs_of L st) x" if i: "i < m" "ct_hash t ! i = Some x" for i x
      proof -
        have "i \<noteq> j" using i j(3) by auto
        have key: "node_key (strs_of L st') x = node_key (strs_of L st) x"
          using node_key_grows [OF fillingD(6) [OF F1] s(4), of i x] key1 [OF i] i D(5) by simp
        show ?thesis
        proof (cases "i = ?q")
          case True
          then have "ct_hash t' ! i = Some (mp\<lparr>cn_next := int j, cn_nocolliding := False\<rparr>)" "x = mp"
            using s(3) i mp(1) \<open>i \<noteq> j\<close> D(5) by simp_all
          moreover have "node_key strs (mp\<lparr>cn_next := int j, cn_nocolliding := False\<rparr>) = node_key strs mp" for strs
            by (simp add: node_key_def)
          ultimately show ?thesis using key by (simp add: main_place_def len)
        next
          case False
          then show ?thesis using s(3) i(2) \<open>i \<noteq> j\<close> key by (simp add: main_place_def len)
        qed
      qed
      have "second_done L a ps n m st0 (bs @ [p]) st'"
        unfolding second_done_def
      proof (rule exI [of _ t'], rule exI [of _ As'], intro conjI allI impI ballI)
        show "filling L a ps n m st0 st' t' As'" using s(2) .
        show "present L st' t' x" if "x \<in> fst ` set ps" "array_index t' x \<noteq> None" for x
          using that arr same s(5) ai by auto
        show "\<exists>nd. ct_hash t' ! main_slot m x = Some nd \<and> main_place (ct_hash t') nd = main_slot m x" if x: "x \<in> hash_keys t' ps" for x
        proof -
          obtain y where "ct_hash t ! main_slot m x = Some y" "main_place (ct_hash t) y = main_slot m x" using owner x hks by blast
          then show ?thesis using kept [OF slot] by metis
        qed
        show "present L st' t' x" if "x \<in> fst ` set (bs @ [p])" for x using that old same s(5) p by auto
        show "\<exists>nd. ct_hash t' ! main_slot m x = Some nd \<and> node_key (strs_of L st') nd = x"
          if x: "present L st' t' x \<and> array_index t' x = None \<and> x \<notin> fst ` set (bs @ [p])" for x
        proof -
          have "present L st t x" "array_index t x = None" "x \<notin> fst ` set bs" using x s(5) same ai p by auto
          then obtain y where "ct_hash t ! main_slot m x = Some y" "node_key (strs_of L st) y = x" using main by blast
          then show ?thesis using kept [OF slot] by metis
        qed
      qed
      then show ?thesis using s(1) r(1) kd(1) D(2,5) mp(1) miss j(1) by (auto simp: colliding_pair_def p main_slot_def Let_def)
    qed
  qed
qed

section \<open>A table without a hash part\<close>

definition array_done :: "nat \<Rightarrow> nat \<Rightarrow> (conf \<times> conf) list \<Rightarrow> nat \<Rightarrow> share \<Rightarrow> nat list \<Rightarrow> share \<Rightarrow> bool" where
  "array_done L a ps n st0 bs st \<longleftrightarrow>
     (\<exists>t As. filling L a ps n 0 st0 st t As \<and>
        (\<forall>k. present L st t k \<longleftrightarrow> k \<in> fst ` set ps \<and> (\<exists>i \<in> set bs. k = CInteger (of_nat i))))"

lemma of_nat_u64: "i < 2 ^ 31 \<Longrightarrow> j < 2 ^ 31 \<Longrightarrow> (of_nat i :: u64) = of_nat j \<longleftrightarrow> i = j"
  by (simp add: word_unat_eq_iff unsigned_of_nat take_bit_nat_eq_self)

lemma array_pair:
  assumes ok: "pairs_ok L setv n ps" and i: "[1..<n + 1] = bs @ i # cs" and I: "array_done L a ps n st0 bs st"
  shows "\<exists>st'. setarray setv a (map_of ps (CInteger (of_nat i))) i st = Done () st' \<and> array_done L a ps n st0 (bs @ [i]) st'"
proof -
  let ?k = "CInteger (of_nat i)"
  have n: "n < 2 ^ 31" using ok unfolding pairs_ok_def by blast
  have "i \<in> set [1..<n + 1]" unfolding i by simp
  then have i1: "1 \<le> i" "i \<le> n" by auto
  have bs: "j < i" if "j \<in> set bs" for j
  proof -
    have "sorted_wrt (<) (bs @ i # cs)" using strict_sorted_iff sorted_wrt_upt i by metis
    then show ?thesis using that by (simp add: sorted_wrt_append)
  qed
  obtain t As where F: "filling L a ps n 0 st0 st t As"
    and pres: "\<forall>k. present L st t k \<longleftrightarrow> k \<in> fst ` set ps \<and> (\<exists>i \<in> set bs. k = CInteger (of_nat i))"
    using I unfolding array_done_def by blast
  note D = fillingD [OF F]
  have new: "\<not> present L st t ?k"
  proof
    assume "present L st t ?k"
    then obtain j where "j \<in> set bs" "(of_nat i :: u64) = of_nat j" using pres by auto
    then show False using of_nat_u64 [of i j] bs [of j] i1 n by simp
  qed
  show ?thesis
  proof (cases "map_of ps ?k")
    case None
    have i2: "i - 1 < n" "i - 1 + 1 = i" using i1 by simp_all
    then have sk: "slot_key (strs_of L st) t (i - 1) = ?k" using D(4) unfolding slot_key_def by (simp only: if_True)
    have "table_values t ! (i - 1) = VNil" using absent_place [OF new _ sk] i1 D(4,5) by simp
    then have nil: "ct_array t ! (i - 1) = VNil" using i2(1) D(4) by (simp add: table_values_def nth_append)
    have "t\<lparr>ct_array := (ct_array t)[i - 1 := VNil]\<rparr> = t" using nil by (metis conf_table.surjective conf_table.update_convs(1) list_update_id)
    then have "setarray setv a None i st = Done () st"
      using D(2,4) i1 by (simp add: setarray_def array_put_def table_put_def fun_upd_idem)
    moreover have "x \<noteq> ?k" if "x \<in> fst ` set ps" for x
      using None [unfolded map_of_eq_None_iff] that by blast
    then have "present L st t x \<longleftrightarrow> x \<in> fst ` set ps \<and> (\<exists>j \<in> set (bs @ [i]). x = CInteger (of_nat j))" for x
      using pres by auto
    then have "array_done L a ps n st0 (bs @ [i]) st"
      unfolding array_done_def using F by blast
    ultimately show ?thesis using None by simp
  next
    case (Some v)
    then have "(?k, v) \<in> set ps" by (rule map_of_SomeD)
    then have k: "small_key ?k" "writes_conf L setv v" "?k \<in> fst ` set ps" using ok unfolding pairs_ok_def by force+
    have "array_index t ?k = Some i" using array_index_place [of "i - 1" t] i1 n D(4) by simp
    then obtain st' t' As' where s: "setarray setv a (Some v) i st = Done () st'" "filling L a ps n 0 st0 st' t' As'"
      "\<forall>x. present L st' t' x \<longleftrightarrow> present L st t x \<or> x = ?k"
      using setarray_step [OF F k(2) Some k(1) _ n new] by blast
    have "array_done L a ps n st0 (bs @ [i]) st'"
      unfolding array_done_def using s(2,3) pres k(3) by (intro exI [of _ t'] exI [of _ As']) auto
    then show ?thesis using s(1) Some by auto
  qed
qed

section \<open>The conversion of a table and of a value\<close>

lemma filling_start:
  assumes "heap_ok L st" "sh_top st = a + 1"
  shows "\<exists>As. filling L a ps n m st (table_put a \<lparr>ct_array = replicate n VNil, ct_hash = replicate m None, ct_L = Some L\<rparr> st)
    \<lparr>ct_array = replicate n VNil, ct_hash = replicate m None, ct_L = Some L\<rparr> As \<and>
    \<not> present L (table_put a \<lparr>ct_array = replicate n VNil, ct_hash = replicate m None, ct_L = Some L\<rparr> st)
      \<lparr>ct_array = replicate n VNil, ct_hash = replicate m None, ct_L = Some L\<rparr> k"
proof -
  let ?t = "\<lparr>ct_array = replicate n VNil, ct_hash = replicate m None, ct_L = Some L\<rparr>"
  have v: "table_values ?t ! i = VNil" if "i < n + m" for i using that by (auto simp: table_values_def nth_append node_value_def)
  have "entries L ps (table_put a ?t st) ?t (\<lambda>_. {})" using v by (simp add: entries_def)
  moreover have "hashed L (table_put a ?t st) ?t" by (rule hashedI) (simp_all add: slots_empty)
  moreover have "heap_ok L (table_put a ?t st)" using assms by (simp add: heap_ok_def)
  moreover have "{a<..<sh_top st} = {}" using assms(2) by auto
  ultimately have "progress L a ps (table_put a ?t st) ?t (\<lambda>_. {}) {a<..<sh_top (table_put a ?t st)}"
    using assms(2) by (simp add: progress_def apart_def)
  moreover have "grows L a st (table_put a ?t st)" using grows_put [OF assms(1)] assms(2) by simp
  ultimately show ?thesis using v by (auto simp: filling_def present_def)
qed

lemma convtable_ok:
  assumes ok: "pairs_ok L setv n ps" and st: "heap_ok L st" "sh_top st = a + 1"
  shows "\<exists>st' t As m. convtable setv L a n ps st = Done () st' \<and> filling L a ps n m st st' t As \<and> None \<notin> set (ct_hash t) \<and>
    (\<forall>k \<in> fst ` set ps. present L st' t k)"
proof -
  let ?t = "\<lambda>m. \<lparr>ct_array = replicate n VNil, ct_hash = replicate m None, ct_L = Some L\<rparr>"
  have n: "n < 2 ^ 31" and small: "\<forall>k v. (k, v) \<in> set ps \<longrightarrow> small_key k" "distinct (map fst ps)"
    using ok unfolding pairs_ok_def by blast+
  define m where "m = card (hash_keys (?t 0) ps)"
  have count: "card (hash_keys t ps) = m" if "length (ct_array t) = n" for t
    using hash_keys_cong [of t "?t 0" ps] that by (simp add: m_def)
  have size: "countsize n ps = Inr m" using countsize_small [OF small, of "?t 0"] by (simp add: m_def)
  show ?thesis
  proof (cases "m = 0")
    case True
    obtain As where F0: "filling L a ps n 0 st (table_put a (?t 0) st) (?t 0) As"
      using filling_start [OF st] by blast
    have "\<not> present L (table_put a (?t 0) st) (?t 0) k" for k using filling_start [OF st] by blast
    then have "array_done L a ps n st [] (table_put a (?t 0) st)" using F0 by (auto simp: array_done_def)
    then obtain st' where st': "each (\<lambda>i. setarray setv a (map_of ps (CInteger (of_nat i))) i) [1..<n + 1] (table_put a (?t 0) st) = Done () st'"
      "array_done L a ps n st [1..<n + 1] st'"
      using each_inv [of "array_done L a ps n st" _ "[1..<n + 1]" "\<lambda>i. setarray setv a (map_of ps (CInteger (of_nat i))) i"]
        array_pair [OF ok] by blast
    obtain t As' where F: "filling L a ps n 0 st st' t As'"
      and pres: "\<forall>k. present L st' t k \<longleftrightarrow> k \<in> fst ` set ps \<and> (\<exists>i \<in> set [1..<n + 1]. k = CInteger (of_nat i))"
      using st'(2) unfolding array_done_def by blast
    note D = fillingD [OF F]
    have "present L st' t k" if k: "k \<in> fst ` set ps" for k
    proof -
      have "hash_keys t ps = {}" using count [OF D(4)] True finite_hash_keys [of t ps] by simp
      then obtain j where j: "array_index t k = Some j" using k by (auto simp: hash_keys_def)
      have "small_key k" using small(1) k by auto
      then have "j \<in> set [1..<n + 1]" "k = CInteger (of_nat j)" using array_indexD [OF j] D(4) by auto
      then show ?thesis using pres k by blast
    qed
    moreover have "convtable setv L a n ps st = Done () st'" using st'(1) size True by (simp add: convtable_def Let_def)
    moreover have "ct_hash t = []" using D(5) by simp
    ultimately show ?thesis using F by (intro exI [of _ st'] exI [of _ t] exI [of _ As'] exI [of _ 0]) simp
  next
    case False
    then have m: "0 < m" by simp
    obtain As where F0: "filling L a ps n m st (table_put a (?t m) st) (?t m) As"
      using filling_start [OF st] by blast
    have "\<not> present L (table_put a (?t m) st) (?t m) k" for k using filling_start [OF st] by blast
    then have "first_done L a ps n m st [] (table_put a (?t m) st)" using F0 by (fastforce simp: first_done_def)
    then obtain st1 where st1: "fillnocolliding setv L a ps (table_put a (?t m) st) = Done () st1" "first_done L a ps n m st ps st1"
      using each_inv [of "first_done L a ps n m st" _ ps "nocolliding_pair setv L a"] first_pair [OF ok _ m]
      unfolding fillnocolliding_def by blast
    have "second_done L a ps n m st [] st1" using first_second [OF st1(2) n m] .
    then obtain st' where st': "fillcolliding setv L a ps st1 = Done () st'" "second_done L a ps n m st ps st'"
      using each_inv [of "second_done L a ps n m st" _ ps "colliding_pair setv L a"] second_pair [OF ok _ m _ count]
      unfolding fillcolliding_def by blast
    obtain t As' where F: "filling L a ps n m st st' t As'" and pres: "\<forall>k \<in> fst ` set ps. present L st' t k"
      using st'(2) unfolding second_done_def by blast
    have "None \<notin> set (ct_hash t)"
      using slots_full [OF F count [OF fillingD(4) [OF F]] n] pres by (simp add: hash_keys_def)
    moreover have "convtable setv L a n ps st = Done () st'"
      using size False st1(1) st'(1) by (simp add: convtable_def Let_def)
    ultimately show ?thesis using F pres by (intro exI [of _ st'] exI [of _ t] exI [of _ As'] exI [of _ m]) simp
  qed
qed

text \<open>Values that can be shared: keys that are small and different, values of the five kinds.\<close>

fun conf_ok :: "conf \<Rightarrow> bool" where
  "conf_ok (CTable n ps) \<longleftrightarrow> n < 2 ^ 31 \<and> distinct (map fst ps) \<and> (\<forall>p \<in> set ps. small_key (fst p) \<and> conf_ok (snd p))"
| "conf_ok (COther _) \<longleftrightarrow> False"
| "conf_ok _ \<longleftrightarrow> True"

section \<open>Strings of a value\<close>

text \<open>The strings that a value has as keys or values. The Lua state of a shared table holds each of them once,
  and no others.\<close>

fun conf_strings :: "conf \<Rightarrow> byte list list" where
  "conf_strings (CString s) = [s]"
| "conf_strings (CTable n ps) =
     concat (map (\<lambda>p. (case fst p of CString s \<Rightarrow> [s] | CTable _ _ \<Rightarrow> [[]] | _ \<Rightarrow> []) @ conf_strings (snd p)) ps)"
| "conf_strings _ = []"

definition named :: "nat \<Rightarrow> byte list set \<Rightarrow> 'a conv \<Rightarrow> bool" where
  "named L S m \<longleftrightarrow> (\<forall>x st. m = Done x st \<longrightarrow> set (strs_of L st) \<subseteq> S)"

lemma named_Done [simp]: "named L S (Done x st) \<longleftrightarrow> set (strs_of L st) \<subseteq> S"
  and named_Raised [simp]: "named L S (Raised e st)"
  and named_Undefined [simp]: "named L S Undefined"
  by (auto simp: named_def)

lemma named_bind:
  "named L S m \<Longrightarrow> (\<And>x st. set (strs_of L st) \<subseteq> S \<Longrightarrow> named L S (f x st)) \<Longrightarrow> named L S (conv_bind m f)"
  by (cases m) simp_all

lemma named_each:
  "set (strs_of L st) \<subseteq> S \<Longrightarrow> (\<And>x st. x \<in> set xs \<Longrightarrow> set (strs_of L st) \<subseteq> S \<Longrightarrow> named L S (f x st)) \<Longrightarrow> named L S (each f xs st)"
proof (induction xs arbitrary: st)
  case (Cons x xs)
  show ?case unfolding each.simps by (rule named_bind) (use Cons in auto)
qed simp

lemma named_stringindex: "set (strs_of L st) \<subseteq> S \<Longrightarrow> s \<in> S \<Longrightarrow> named L S (stringindex L s st)"
  by (auto simp: stringindex_def strs_of_def lua_put_def split: option.splits)

lemma named_ishashkey:
  "set (strs_of L st) \<subseteq> S \<Longrightarrow> (\<And>s. k = CString s \<Longrightarrow> s \<in> S) \<Longrightarrow> (\<And>n ps. k = CTable n ps \<Longrightarrow> [] \<in> S) \<Longrightarrow> named L S (ishashkey L m k st)"
  by (cases k) (auto simp: ishashkey_def Let_def intro!: named_bind named_stringindex)

lemma named_put: "set (strs_of L st) \<subseteq> S \<Longrightarrow> named L S (array_put a i c st)" "set (strs_of L st) \<subseteq> S \<Longrightarrow> named L S (node_put a i n st)"
  by (auto simp: array_put_def node_put_def split: option.splits)

lemma named_setarray:
  assumes "set (strs_of L st) \<subseteq> S" "\<And>x st. v = Some x \<Longrightarrow> set (strs_of L st) \<subseteq> S \<Longrightarrow> named L S (setv x st)"
  shows "named L S (setarray setv a v i st)"
  unfolding setarray_def by (rule named_bind) (use assms in \<open>auto intro: named_put split: option.split\<close>)

lemma named_nocolliding:
  assumes st: "set (strs_of L st) \<subseteq> S" and k: "\<And>s. fst p = CString s \<Longrightarrow> s \<in> S" "\<And>n ps. fst p = CTable n ps \<Longrightarrow> [] \<in> S"
    and v: "\<And>st. set (strs_of L st) \<subseteq> S \<Longrightarrow> named L S (setv (snd p) st)"
  shows "named L S (nocolliding_pair setv L a p st)"
proof (cases "sh_tables st a")
  case (Some t)
  have "named L S (ishashkey L (length (ct_array t)) (fst p) st)" using st k by (rule named_ishashkey)
  then show ?thesis
    unfolding nocolliding_pair_def Some option.case
    by (rule named_bind) (auto simp: Let_def intro!: named_bind named_put named_setarray v split: sum.split)
qed (simp add: nocolliding_pair_def)

lemma named_colliding:
  assumes st: "set (strs_of L st) \<subseteq> S" and k: "\<And>s. fst p = CString s \<Longrightarrow> s \<in> S" "\<And>n ps. fst p = CTable n ps \<Longrightarrow> [] \<in> S"
    and v: "\<And>st. set (strs_of L st) \<subseteq> S \<Longrightarrow> named L S (setv (snd p) st)"
  shows "named L S (colliding_pair setv L a p st)"
proof (cases "sh_tables st a")
  case (Some t)
  have "named L S (ishashkey L (length (ct_array t)) (fst p) st)" using st k by (rule named_ishashkey)
  then show ?thesis
    unfolding colliding_pair_def Some option.case
    by (rule named_bind) (auto simp: Let_def intro!: named_bind named_put v split: sum.split option.split)
qed (simp add: colliding_pair_def)

lemma named_convtable:
  assumes st: "set (strs_of L st) \<subseteq> S" and names: "set (conf_strings (CTable n ps)) \<subseteq> S"
    and v: "\<And>k v st. (k, v) \<in> set ps \<Longrightarrow> set (strs_of L st) \<subseteq> S \<Longrightarrow> named L S (setv v st)"
  shows "named L S (convtable setv L a m ps st)"
proof -
  have val: "\<And>st. set (strs_of L st) \<subseteq> S \<Longrightarrow> named L S (setv (snd p) st)" if "p \<in> set ps" for p using v [of "fst p" "snd p"] that by simp
  have key: "\<And>s. fst p = CString s \<Longrightarrow> s \<in> S" "\<And>n qs. fst p = CTable n qs \<Longrightarrow> [] \<in> S" if "p \<in> set ps" for p
    using names that by (force split: conf.splits)+
  have array: "\<And>st. set (strs_of L st) \<subseteq> S \<Longrightarrow> named L S (each (\<lambda>i. setarray setv a (map_of ps (CInteger (of_nat i))) i) is st)" for "is"
    by (rule named_each) (use v in \<open>auto intro!: named_setarray dest: map_of_SomeD\<close>)
  have one: "\<And>st. set (strs_of L st) \<subseteq> S \<Longrightarrow> named L S (fillnocolliding setv L a ps st)"
    unfolding fillnocolliding_def by (rule named_each) (use key val in \<open>auto intro!: named_nocolliding\<close>)
  have two: "\<And>st. set (strs_of L st) \<subseteq> S \<Longrightarrow> named L S (fillcolliding setv L a ps st)"
    unfolding fillcolliding_def by (rule named_each) (use key val in \<open>auto intro!: named_colliding\<close>)
  show ?thesis
    using st unfolding convtable_def by (auto simp: Let_def intro!: named_bind array one two split: sum.split)
qed

lemma named_setvalue: "set (strs_of L st) \<subseteq> S \<Longrightarrow> set (conf_strings v) \<subseteq> S \<Longrightarrow> named L S (setvalue calls L v st)"
proof (induction v arbitrary: calls st rule: measure_induct_rule [of size])
  case (less v)
  show ?case
  proof (cases v)
    case (CTable n ps)
    have IH: "named L S (setvalue c L w s)" if "(k, w) \<in> set ps" "set (strs_of L s) \<subseteq> S" for k w c s
      using less.IH [of w s] conf_size [OF that(1), of n] less.prems(2) that CTable by force
    have "named L S (convtable (setvalue (calls - 1) L) L (sh_top st) n ps
        (table_put (sh_top st) \<lparr>ct_array = [], ct_hash = [], ct_L = None\<rparr> (st\<lparr>sh_top := sh_top st + 1\<rparr>)))"
      by (rule named_convtable) (use less.prems CTable IH in \<open>auto simp: strs_of_def\<close>)
    then show ?thesis unfolding CTable setvalue.simps Let_def lua_call_def by (auto intro!: named_bind)
  qed (use less.prems in \<open>auto intro!: named_bind named_stringindex\<close>)
qed

section \<open>The recursion\<close>

lemma filling_reads:
  assumes F: "filling L a ps n m st0 st t As" and n: "n < 2 ^ 31" and full: "None \<notin> set (ct_hash t)"
    and d: "distinct (map fst ps)" and pres: "\<forall>k \<in> fst ` set ps. present L st t k"
  shows "shows_value (sh_tables st) (strs_of L st) L (CTable n ps) (VTable a) {a..<sh_top st}"
proof -
  have P: "progress L a ps st t As {a<..<sh_top st}" and len: "length (ct_array t) = n" using F by (simp_all add: filling_def)
  note D = progressD [OF P]
  have cover: "\<forall>k v. (k, v) \<in> set ps \<longrightarrow> (\<exists>i < length (table_values t). slot_key (strs_of L st) t i = k \<and> table_values t ! i \<noteq> VNil)"
    using pres unfolding present_def by force
  have "a \<notin> (\<Union>i < length (table_values t). As i)" using D(8,9) by auto
  note table = shows_value.table [OF D(3,4) len n _ full _ D(6) [unfolded entries_def] cover D(7) [unfolded apart_def] this]
  have "shows_value (sh_tables st) (strs_of L st) L (CTable n ps) (VTable a) (insert a (\<Union>i < length (table_values t). As i))"
    using D(5) by (intro table) (simp_all add: hashed_def)
  moreover have "insert a {a<..<sh_top st} = {a..<sh_top st}" using D(2) by auto
  ultimately show ?thesis unfolding D(8) by simp
qed

text \<open>How deep tables are nested in a value: the nested calls of \<^verbatim>\<open>convtable\<close>.\<close>

fun conf_depth :: "conf \<Rightarrow> nat" where
  "conf_depth (CTable n ps) = Suc (foldr (\<lambda>p. max (conf_depth (snd p))) ps 0)"
| "conf_depth _ = 0"

lemma conf_depth_less: "(k, v) \<in> set ps \<Longrightarrow> conf_depth v < conf_depth (CTable n ps)"
proof (induction ps)
  case (Cons p ps)
  then show ?case by (cases "p = (k, v)") (auto simp: less_Suc_eq_le le_max_iff_disj)
qed simp

lemma setvalue_ok: "conf_ok v \<Longrightarrow> conf_depth v \<le> calls \<Longrightarrow> writes_conf L (setvalue calls L) v"
proof (induction v arbitrary: calls rule: measure_induct_rule [of size])
  case (less v)
  show ?case
    unfolding writes_conf_def
  proof (intro allI impI)
    fix st assume st: "heap_ok L st"
    show "\<exists>c st'. setvalue calls L v st = Done c st' \<and> grows L (sh_top st) st st' \<and>
        shows_value (sh_tables st') (strs_of L st') L v c {sh_top st..<sh_top st'}"
    proof (cases v)
      case (CString s)
      then show ?thesis using stringindex_ok [OF st, of s "sh_top st"] by (fastforce intro: shows_value.str)
    next
      case (CTable n ps)
      let ?a = "sh_top st" and ?t = "\<lparr>ct_array = [], ct_hash = [], ct_L = None\<rparr>"
      define st1 where "st1 = table_put ?a ?t (st\<lparr>sh_top := ?a + 1\<rparr>)"
      have g: "grows L ?a st st1" using st by (auto simp: grows_def heap_ok_def st1_def strs_of_def table_put_def)
      have top: "sh_top st1 = ?a + 1" by (simp add: st1_def)
      have ok: "n < 2 ^ 31" "distinct (map fst ps)" "\<And>k v. (k, v) \<in> set ps \<Longrightarrow> small_key k \<and> conf_ok v"
        using less.prems(1) CTable by fastforce+
      have calls: "calls \<noteq> 0" using less.prems(2) CTable by auto
      have "writes_conf L (setvalue (calls - 1) L) w" if "(k, w) \<in> set ps" for k w
        using less.IH [of w "calls - 1"] conf_size [OF that] conf_depth_less [OF that, of n] ok(3) [OF that] less.prems(2) CTable by simp
      then have "pairs_ok L (setvalue (calls - 1) L) n ps" using ok unfolding pairs_ok_def by blast
      then obtain st' t As m where s: "convtable (setvalue (calls - 1) L) L ?a n ps st1 = Done () st'" "filling L ?a ps n m st1 st' t As"
        "None \<notin> set (ct_hash t)" "\<forall>k \<in> fst ` set ps. present L st' t k"
        using convtable_ok [OF _ grows_ok [OF g] top] by blast
      have "grows L ?a st st'" using s(2) grows_trans [OF g, of ?a st'] by (simp add: filling_def)
      moreover have "setvalue calls L v st = Done (VTable ?a) st'"
        using calls unfolding CTable setvalue.simps Let_def st1_def [symmetric] lua_call_def s(1) by simp
      ultimately show ?thesis using filling_reads [OF s(2) ok(1) s(3) ok(2) s(4)] CTable by auto
    qed (use st less.prems in \<open>auto intro: shows_value.intros grows_refl\<close>)
  qed
qed

end
