(* ===== verification/Sharedata_Use.thy ===== *)
theory Sharedata_Use
  imports Sharedata_Table
begin

text \<open>
  What the services see of a shared table: its values by their keys, all its keys one after the other, and
  that deleting it gives back what its creation took. The inputs that break this are at the end.
\<close>

section \<open>Creation\<close>

definition share_ok :: "share \<Rightarrow> bool" where
  "share_ok st \<longleftrightarrow> (\<forall>x \<ge> sh_top st. sh_tables st x = None) \<and> (\<forall>x \<ge> sh_lua_top st. sh_luas st x = None)"

text \<open>The table at address \<open>a\<close> of state \<open>st\<close> stands for the Lua table \<open>x\<close>.\<close>

definition shares :: "share \<Rightarrow> nat \<Rightarrow> nat \<Rightarrow> conf \<Rightarrow> nat set \<Rightarrow> bool" where
  "shares st L a x A \<longleftrightarrow> (\<exists>l. sh_luas st L = Some l \<and> shows_value (sh_tables st) (ls_strings l) L x (VTable a) A)"

text \<open>
  What Lua must allow for the conversion: a stack with a place for each string, and as many nested calls as
  there are levels of tables.\<close>

definition lua_allows :: "nat \<Rightarrow> nat \<Rightarrow> conf \<Rightarrow> bool" where
  "lua_allows room calls x \<longleftrightarrow> length (remdups (conf_strings x)) + 4 \<le> room \<and> conf_depth x \<le> calls"

lemma lnewconf_ok:
  assumes ok: "conf_ok (CTable n ps)" and st: "share_ok st" and lua: "lua_allows room calls (CTable n ps)"
  shows "\<exists>st'. lnewconf room calls (CTable n ps) st = Done (sh_top st) st' \<and>
    shares st' (sh_lua_top st) (sh_top st) (CTable n ps) {sh_top st..<sh_top st'} \<and>
    sh_top st < sh_top st' \<and> (\<forall>x \<ge> sh_top st'. sh_tables st' x = None) \<and> (\<forall>x < sh_top st. sh_tables st' x = sh_tables st x) \<and>
    (\<forall>M. M \<noteq> sh_lua_top st \<longrightarrow> sh_luas st' M = sh_luas st M)"
proof -
  let ?L = "sh_lua_top st" and ?a = "sh_top st"
  define st1 where "st1 = table_put ?a \<lparr>ct_array = [], ct_hash = [], ct_L = None\<rparr>
    (lua_put ?L \<lparr>ls_strings = [], ls_state = None\<rparr> (st\<lparr>sh_lua_top := ?L + 1, sh_top := ?a + 1\<rparr>))"
  have st1: "heap_ok ?L st1" "sh_top st1 = ?a + 1"
    using st by (auto simp: heap_ok_def share_ok_def st1_def lua_put_def table_put_def)
  have n: "n < 2 ^ 31" "distinct (map fst ps)" using ok by simp_all
  have calls: "calls \<noteq> 0" "conf_depth (CTable n ps) \<le> calls" using lua by (auto simp: lua_allows_def)
  let ?set = "setvalue (calls - 1) ?L"
  have "writes_conf ?L ?set v" if "(k, v) \<in> set ps" for k v
    using setvalue_ok [of v "calls - 1"] ok that conf_depth_less [OF that, of n] calls by fastforce
  then have pairs: "pairs_ok ?L ?set n ps" using ok unfolding pairs_ok_def by fastforce
  obtain st2 t As m where s: "convtable ?set ?L ?a n ps st1 = Done () st2" "filling ?L ?a ps n m st1 st2 t As"
    "None \<notin> set (ct_hash t)" "\<forall>k \<in> fst ` set ps. present ?L st2 t k"
    using convtable_ok [OF pairs st1] by blast
  have g: "grows ?L ?a st1 st2" and top: "?a < sh_top st2" using s(2) fillingD(3) [OF s(2)] by (simp_all add: filling_def)
  obtain l where l: "sh_luas st2 ?L = Some l" "distinct (ls_strings l)" using grows_ok [OF g] by (auto simp: heap_ok_def)
  have "named ?L (set (conf_strings (CTable n ps))) (convtable ?set ?L ?a n ps st1)"
    by (rule named_convtable)
      (force simp: st1_def strs_of_def lua_put_def table_put_def, simp, rule named_setvalue, assumption, force)
  then have "set (ls_strings l) \<subseteq> set (conf_strings (CTable n ps))" using s(1) l(1) by (simp add: strs_of_def)
  then have "length (ls_strings l) \<le> length (remdups (conf_strings (CTable n ps)))"
    using card_mono [of "set (conf_strings (CTable n ps))" "set (ls_strings l)"] distinct_card [OF l(2)]
    by (simp add: length_remdups_card_conv del: conf_strings.simps)
  then have room: "length (ls_strings l) + 4 \<le> room" using lua by (simp add: lua_allows_def)
  let ?st = "convert_stringmap ?L ?a st2"
  have conv: "?st = lua_put ?L (l\<lparr>ls_state := Some \<lparr>cr_dirty = False, cr_ref = 0, cr_root = ?a\<rparr>\<rparr>) st2"
    using l(1) by (simp add: convert_stringmap_def)
  have "pconv room calls ?L ?a n ps st1 = Done () st2" using s(1) l room calls by (simp add: pconv_def lua_call_def)
  then have "lnewconf room calls (CTable n ps) st = Done ?a ?st"
    unfolding lnewconf_def conf.case Let_def st1_def [symmetric] by simp
  moreover have "shares ?st ?L ?a (CTable n ps) {?a..<sh_top ?st}"
    using filling_reads [OF s(2) n(1) s(3) n(2) s(4)] l(1) by (simp add: shares_def conv lua_put_def strs_of_def)
  moreover have "sh_tables ?st x = sh_tables st x" if "x < ?a" for x
    using g that by (simp add: grows_def conv lua_put_def st1_def)
  moreover have "sh_luas ?st M = sh_luas st M" if "M \<noteq> ?L" for M
    using g that by (simp add: grows_def conv lua_put_def st1_def table_put_def)
  moreover have "sh_tables ?st x = None" if "sh_top ?st \<le> x" for x
    using grows_ok [OF g] that by (simp add: heap_ok_def conv lua_put_def)
  ultimately show ?thesis using top by (simp add: conv lua_put_def)
qed

section \<open>Values by their keys\<close>

definition shown :: "conf \<Rightarrow> pushed \<Rightarrow> bool" where
  "shown v x \<longleftrightarrow> (case v of CTable _ _ \<Rightarrow> \<exists>b. x = Pointer b | _ \<Rightarrow> x = Scalar v)"

lemma reads_pushvalue:
  assumes "shows_value h strs L v c A"
  shows "\<exists>x. pushvalue strs c = Ok x \<and> shown v x \<and> (\<forall>b. x = Pointer b \<longrightarrow> c = VTable b)"
  using assms by (cases rule: shows_value.cases) (auto simp: pushvalue_def shown_def)

text \<open>What is known of a table that stands for \<open>CTable n ps\<close>.\<close>

definition tabled ::
  "share \<Rightarrow> nat \<Rightarrow> nat \<Rightarrow> nat \<Rightarrow> (conf \<times> conf) list \<Rightarrow> lua_state \<Rightarrow> conf_table \<Rightarrow> (nat \<Rightarrow> nat set) \<Rightarrow> bool" where
  "tabled st L a n ps l t As \<longleftrightarrow>
     sh_luas st L = Some l \<and> sh_tables st a = Some t \<and> ct_L t = Some L \<and> length (ct_array t) = n \<and> n < 2 ^ 31 \<and>
     slots_ok (ls_strings l) (ct_hash t) \<and> None \<notin> set (ct_hash t) \<and>
     (\<forall>nd. Some nd \<in> set (ct_hash t) \<longrightarrow> array_index t (node_key (ls_strings l) nd) = None \<and> cn_v nd \<noteq> VNil) \<and>
     (\<forall>i < length (table_values t). table_values t ! i = VNil \<and> As i = {} \<or>
        (\<exists>v. map_of ps (slot_key (ls_strings l) t i) = Some v \<and> shows_value (sh_tables st) (ls_strings l) L v (table_values t ! i) (As i))) \<and>
     (\<forall>k v. (k, v) \<in> set ps \<longrightarrow> (\<exists>i < length (table_values t). slot_key (ls_strings l) t i = k \<and> table_values t ! i \<noteq> VNil))"

lemma shares_tabled:
  assumes "shares st L a (CTable n ps) A"
  shows "\<exists>l t As. tabled st L a n ps l t As"
proof -
  obtain l where l: "sh_luas st L = Some l" "shows_value (sh_tables st) (ls_strings l) L (CTable n ps) (VTable a) A"
    using assms by (auto simp: shares_def)
  from l(2) show ?thesis
  proof (cases rule: shows_value.cases)
    case (table t As)
    then have "tabled st L a n ps l t As" unfolding tabled_def using l(1) by (intro conjI) assumption+
    then show ?thesis by blast
  qed
qed

lemma tabledD:
  assumes "tabled st L a n ps l t As"
  shows "sh_luas st L = Some l" "sh_tables st a = Some t" "ct_L t = Some L" "length (ct_array t) = n" "n < 2 ^ 31"
    "slots_ok (ls_strings l) (ct_hash t)" "None \<notin> set (ct_hash t)"
    "Some nd \<in> set (ct_hash t) \<Longrightarrow> array_index t (node_key (ls_strings l) nd) = None \<and> cn_v nd \<noteq> VNil"
    "i < length (table_values t) \<Longrightarrow> table_values t ! i = VNil \<and> As i = {} \<or>
      (\<exists>v. map_of ps (slot_key (ls_strings l) t i) = Some v \<and> shows_value (sh_tables st) (ls_strings l) L v (table_values t ! i) (As i))"
    "(k, v) \<in> set ps \<Longrightarrow> \<exists>i < length (table_values t). slot_key (ls_strings l) t i = k \<and> table_values t ! i \<noteq> VNil"
  using assms unfolding tabled_def by blast+

text \<open>The node in a slot.\<close>

lemma tabled_node:
  assumes "tabled st L a n ps l t As" "p < length (ct_hash t)"
  shows "\<exists>nd. ct_hash t ! p = Some nd \<and> slot_key (ls_strings l) t (n + p) = node_key (ls_strings l) nd \<and>
    table_values t ! (n + p) = cn_v nd \<and> cn_v nd \<noteq> VNil \<and> array_index t (node_key (ls_strings l) nd) = None"
proof -
  note T = tabledD [OF assms(1)]
  obtain nd where nd: "ct_hash t ! p = Some nd" using T(7) assms(2) by (metis nth_mem not_None_eq)
  then have "Some nd \<in> set (ct_hash t)" using nth_mem [OF assms(2)] by simp
  then show ?thesis using T(8) [of nd] nd T(4) value_slot [OF assms(2)] by (auto simp: slot_key_def node_value_def)
qed

lemma tabled_late:
  assumes "tabled st L a n ps l t As" "\<not> i < n" "i < n + length (ct_hash t)"
  shows "\<exists>nd. i - n < length (ct_hash t) \<and> ct_hash t ! (i - n) = Some nd \<and> slot_key (ls_strings l) t i = node_key (ls_strings l) nd \<and>
    table_values t ! i = cn_v nd \<and> cn_v nd \<noteq> VNil \<and> array_index t (slot_key (ls_strings l) t i) = None"
proof -
  have i: "i - n < length (ct_hash t)" "n + (i - n) = i" using assms(2,3) by simp_all
  show ?thesis using tabled_node [OF assms(1) i(1)] i by auto
qed

text \<open>Each key has one place.\<close>

lemma tabled_place:
  assumes T: "tabled st L a n ps l t As" and i: "i < n + length (ct_hash t)" "j < n + length (ct_hash t)"
    "slot_key (ls_strings l) t i = slot_key (ls_strings l) t j"
  shows "i = j"
proof -
  note D = tabledD [OF T]
  have arr: "array_index t (slot_key (ls_strings l) t x) = Some (x + 1)" if "x < n" for x
    using array_index_place [of x t] that D(4,5) by (simp add: slot_key_def)
  have hash: "array_index t (slot_key (ls_strings l) t x) = None" if "\<not> x < n" "x < n + length (ct_hash t)" for x
    using tabled_late [OF T that] by auto
  show ?thesis
  proof (cases "i < n")
    case True
    then have "j < n" using arr [of i] hash [of j] i by fastforce
    then have "Some (i + 1) = Some (j + 1)" using arr [OF True] arr [of j] unfolding i(3) by metis
    then show ?thesis by simp
  next
    case False
    then have "\<not> j < n" using arr [of j] hash [of i] i by fastforce
    then obtain x y where xy: "ct_hash t ! (i - n) = Some x" "i - n < length (ct_hash t)" "ct_hash t ! (j - n) = Some y" "j - n < length (ct_hash t)"
      "slot_key (ls_strings l) t i = node_key (ls_strings l) x" "slot_key (ls_strings l) t j = node_key (ls_strings l) y"
      using tabled_late [OF T False i(1)] tabled_late [OF T _ i(2)] by blast
    have "node_key (ls_strings l) x = node_key (ls_strings l) y" using xy(5,6) i(3) by metis
    then have "i - n = j - n" using slots_okD(2) [OF D(6) xy(2,4,1,3)] by blast
    then show ?thesis using False \<open>\<not> j < n\<close> by simp
  qed
qed

lemma lookup_slot:
  assumes "slots_ok strs (ct_hash t)" "None \<notin> set (ct_hash t)" "small_key k" "hashed_key k = Ok (h, key, kt, str)"
  shows "p < length (ct_hash t) \<Longrightarrow> ct_hash t ! p = Some nd \<Longrightarrow> node_key strs nd = k \<Longrightarrow> lookup_key strs t h key kt str = Some (Some p)"
    "(\<And>p nd. p < length (ct_hash t) \<Longrightarrow> ct_hash t ! p = Some nd \<Longrightarrow> node_key strs nd \<noteq> k) \<Longrightarrow>
      lookup_key strs t h key kt str = Some None"
proof -
  let ?P = "\<lambda>y. \<exists>n. ct_hash t ! y = Some n \<and> node_key strs n = k"
  note look = lookup_key_ok [OF assms]
  show "lookup_key strs t h key kt str = Some (Some p)"
    if p: "p < length (ct_hash t)" "ct_hash t ! p = Some nd" "node_key strs nd = k"
  proof -
    have "find ?P [0..<length (ct_hash t)] = Some p"
    proof (rule find_only)
      show "p \<in> set [0..<length (ct_hash t)]" using p(1) by simp
      show "?P p" using p(2,3) by blast
      fix z assume z: "z \<in> set [0..<length (ct_hash t)]" "?P z"
      obtain x where x: "ct_hash t ! z = Some x" "node_key strs x = k" using z(2) by (elim exE conjE)
      have "node_key strs x = node_key strs nd" using x(2) p(3) by (rule trans [OF _ sym])
      moreover have "z < length (ct_hash t)" using z(1) by simp
      ultimately show "z = p" using slots_okD(2) [OF assms(1) _ p(1) x(1) p(2)] by metis
    qed
    then show ?thesis using look by simp
  qed
  show "lookup_key strs t h key kt str = Some None"
    if "\<And>p nd. p < length (ct_hash t) \<Longrightarrow> ct_hash t ! p = Some nd \<Longrightarrow> node_key strs nd \<noteq> k"
  proof -
    have "find ?P [0..<length (ct_hash t)] = None" unfolding find_None_iff using that by auto
    then show ?thesis using look by simp
  qed
qed

lemma lindexconf_table:
  assumes S: "shares st L a (CTable n ps) A" and k: "small_key k"
  shows "case map_of ps k of
      None \<Rightarrow> lindexconf (Some a) k st = Ok [] \<or> lindexconf (Some a) k st = Ok [Nothing]
    | Some v \<Rightarrow> \<exists>x. lindexconf (Some a) k st = Ok [x] \<and> shown v x \<and> (\<forall>b. x = Pointer b \<longrightarrow> (\<exists>B. shares st L b v B))"
proof -
  obtain l t As where tab: "tabled st L a n ps l t As" using shares_tabled [OF S] by blast
  note T = tabledD [OF tab]
  let ?strs = "ls_strings l"
  have get: "get_table (Some a) st = Ok (a, t)" "table_lua t st = Ok (L, l)" using T(1-3) by (simp_all add: get_table_def table_lua_def)
  have val: "\<exists>x. pushvalue ?strs (table_values t ! i) = Ok x \<and> shown v x \<and> (\<forall>b. x = Pointer b \<longrightarrow> (\<exists>B. shares st L b v B))"
    if i: "i < length (table_values t)" "table_values t ! i \<noteq> VNil" "map_of ps (slot_key ?strs t i) = Some v" for i v
  proof -
    have "shows_value (sh_tables st) ?strs L v (table_values t ! i) (As i)" using T(9) [OF i(1)] i(2,3) by auto
    then show ?thesis using reads_pushvalue T(1) unfolding shares_def by metis
  qed
  have at: "\<exists>i. i < n + length (ct_hash t) \<and> slot_key ?strs t i = k \<and> table_values t ! i \<noteq> VNil" if "map_of ps k = Some v" for v
    using T(10) [OF map_of_SomeD [OF that]] T(4) by auto
  show ?thesis
  proof (cases "array_index t k")
    case (Some j)
    note j = array_indexD [OF Some k]
    have less: "j - 1 < n" and j1: "j - 1 + 1 = j" using j T(4) by simp_all
    have idx: "lindexconf (Some a) k st = and_then (pushvalue ?strs (table_values t ! (j - 1))) (\<lambda>x. Ok [x])"
      using Some get less T(4) by (simp add: lindexconf_def table_values_def nth_append)
    have sk: "slot_key ?strs t (j - 1) = k" using less T(4) j(3) j1 unfolding slot_key_def by (simp only: if_True)
    show ?thesis
    proof (cases "map_of ps k")
      case None
      then have "table_values t ! (j - 1) = VNil" using T(9) [of "j - 1"] less T(4) sk by auto
      then show ?thesis using None idx by (simp add: pushvalue_def)
    next
      case (Some v)
      then obtain i where i: "i < n + length (ct_hash t)" "slot_key ?strs t i = k" "table_values t ! i \<noteq> VNil" using at by blast
      then have "i = j - 1" using tabled_place [OF tab i(1), of "j - 1"] sk less by simp
      then show ?thesis using val [of i v] i Some idx T(4) by auto
    qed
  next
    case None
    obtain h key kt str where hk: "hashed_key k = Ok (h, key, kt, str)" using hashed_key_small [OF k] by blast
    note look = lookup_slot [OF T(6,7) k hk]
    have idx: "lindexconf (Some a) k st = (case lookup_key ?strs t h key kt str of None \<Rightarrow> Crash | Some None \<Rightarrow> Ok []
      | Some (Some i) \<Rightarrow> and_then (pushvalue ?strs (node_value (ct_hash t ! i))) (\<lambda>x. Ok [x]))"
      using None get hk by (simp add: lindexconf_def)
    have slot: "\<exists>p nd. i = n + p \<and> p < length (ct_hash t) \<and> ct_hash t ! p = Some nd \<and> node_key ?strs nd = k"
      if i: "i < n + length (ct_hash t)" "slot_key ?strs t i = k" for i
    proof -
      have "\<not> i < n" using array_index_place [of i t] i(2) T(4,5) None by (auto simp: slot_key_def)
      then show ?thesis using tabled_late [OF tab _ i(1)] i(2) by (intro exI [of _ "i - n"]) auto
    qed
    show ?thesis
    proof (cases "map_of ps k")
      case (Some v)
      obtain i where i: "i < n + length (ct_hash t)" "slot_key ?strs t i = k" "table_values t ! i \<noteq> VNil" using at [OF Some] by blast
      obtain p nd where p: "i = n + p" "p < length (ct_hash t)" "ct_hash t ! p = Some nd" "node_key ?strs nd = k"
        using slot [OF i(1,2)] by blast
      have "node_value (ct_hash t ! p) = table_values t ! i" using value_slot [OF p(2)] p(1) T(4) by simp
      then show ?thesis using val [of i v] i Some idx look(1) [OF p(2-4)] T(4) by auto
    next
      case None
      have "node_key ?strs nd \<noteq> k" if p: "p < length (ct_hash t)" "ct_hash t ! p = Some nd" for p nd
      proof
        assume "node_key ?strs nd = k"
        then have "slot_key ?strs t (n + p) = k" "table_values t ! (n + p) \<noteq> VNil" using tabled_node [OF tab p(1)] p(2) by auto
        then show False using T(9) [of "n + p"] p(1) T(4) None by auto
      qed
      then show ?thesis using None idx look(2) by simp
    qed
  qed
qed

section \<open>Paths\<close>

text \<open>What a client gets that follows a list of keys from a table; behind a value that is no table there is
  nothing.\<close>

primrec index_path :: "share \<Rightarrow> nat \<Rightarrow> conf list \<Rightarrow> pushed outcome" where
  "index_path st a [] = Ok (Pointer a)"
| "index_path st a (k # ks) =
     and_then (lindexconf (Some a) k st) (\<lambda>r.
       case r of
         [] \<Rightarrow> Ok Nothing
       | x # _ \<Rightarrow> (case x of Pointer b \<Rightarrow> index_path st b ks | _ \<Rightarrow> Ok (if ks = [] then x else Nothing)))"

primrec conf_path :: "conf \<Rightarrow> conf list \<Rightarrow> conf option" where
  "conf_path x [] = Some x"
| "conf_path x (k # ks) =
     (case x of CTable n ps \<Rightarrow> (case map_of ps k of None \<Rightarrow> None | Some v \<Rightarrow> conf_path v ks) | _ \<Rightarrow> None)"

lemma conf_path_scalar: "(\<forall>n ps. v \<noteq> CTable n ps) \<Longrightarrow> conf_path v ks = (if ks = [] then Some v else None)"
  by (cases ks; cases v) auto

lemma index_path_ok:
  assumes "shares st L a (CTable n ps) A" "list_all small_key ks"
  shows "case conf_path (CTable n ps) ks of
      None \<Rightarrow> index_path st a ks = Ok Nothing
    | Some v \<Rightarrow> \<exists>x. index_path st a ks = Ok x \<and> shown v x \<and> (\<forall>b. x = Pointer b \<longrightarrow> (\<exists>B. shares st L b v B))"
  using assms
proof (induction ks arbitrary: a n ps A)
  case Nil
  then show ?case by (auto simp: shown_def)
next
  case (Cons k ks)
  note I = lindexconf_table [OF Cons.prems(1), of k]
  show ?case
  proof (cases "map_of ps k")
    case None
    then show ?thesis using I Cons.prems(2) by auto
  next
    case (Some v)
    then obtain x where x: "lindexconf (Some a) k st = Ok [x]" "shown v x" "\<forall>b. x = Pointer b \<longrightarrow> (\<exists>B. shares st L b v B)"
      using I Cons.prems(2) by auto
    show ?thesis
    proof (cases "\<exists>n' ps'. v = CTable n' ps'")
      case True
      then obtain n' ps' where v: "v = CTable n' ps'" by blast
      then obtain b where b: "x = Pointer b" using x(2) by (auto simp: shown_def)
      then obtain B where "shares st L b (CTable n' ps') B" using x(3) v by blast
      note IH = Cons.IH [OF this]
      have i: "index_path st a (k # ks) = index_path st b ks" using x(1) b by simp
      have c: "conf_path (CTable n ps) (k # ks) = conf_path (CTable n' ps') ks" using Some v by simp
      show ?thesis unfolding i c using IH Cons.prems(2) by simp
    next
      case False
      then have "x = Scalar v" using x(2) by (cases v) (auto simp: shown_def)
      then show ?thesis using x(1,2) Some conf_path_scalar [of v ks] False by simp
    qed
  qed
qed

section \<open>All keys\<close>

text \<open>The keys that \<^verbatim>\<open>nextkey\<close> gives one after the other.\<close>

partial_function (option) all_keys :: "share \<Rightarrow> nat \<Rightarrow> conf option \<Rightarrow> conf list option" where
  "all_keys st a k =
     (case lnextkey (Some a) k st of
        Ok r \<Rightarrow> (case r of [] \<Rightarrow> Some [] | x # _ \<Rightarrow> do { rest \<leftarrow> all_keys st a (Some x); Some (x # rest) })
      | _ \<Rightarrow> None)"

declare all_keys.simps [code]

text \<open>The keys of the places from \<open>i\<close> on.\<close>

definition keys_from :: "byte list list \<Rightarrow> conf_table \<Rightarrow> nat \<Rightarrow> conf list" where
  "keys_from strs t i = map (slot_key strs t) (filter (\<lambda>j. table_values t ! j \<noteq> VNil) [i..<length (table_values t)])"

lemma find_filter: "find P xs = (case filter P xs of [] \<Rightarrow> None | x # _ \<Rightarrow> Some x)"
  by (induction xs) auto

lemma pushkey_node: "slot_ok strs nd \<Longrightarrow> pushkey strs (Some nd) = Ok [node_key strs nd]"
  by (auto simp: pushkey_def slot_ok_def node_key_def string_at_def KEYTYPE_STRING_def KEYTYPE_INTEGER_def)

lemma keys_from_slot:
  assumes T: "tabled st L a n ps l t As" and p: "p < length (ct_hash t)"
  shows "\<exists>nd. ct_hash t ! p = Some nd \<and> pushkey (ls_strings l) (ct_hash t ! p) = Ok (take 1 (keys_from (ls_strings l) t (n + p)))"
proof -
  note D = tabledD [OF T]
  obtain nd where nd: "ct_hash t ! p = Some nd" "slot_key (ls_strings l) t (n + p) = node_key (ls_strings l) nd"
    "table_values t ! (n + p) \<noteq> VNil" using tabled_node [OF T p] by auto
  have "[n + p..<length (table_values t)] = (n + p) # [n + p + 1..<length (table_values t)]" using p D(4) by (simp add: upt_conv_Cons)
  then have "take 1 (keys_from (ls_strings l) t (n + p)) = [node_key (ls_strings l) nd]" using nd by (simp add: keys_from_def)
  then show ?thesis using pushkey_node [OF slots_okD(1) [OF D(6) p nd(1)]] nd(1) by auto
qed

lemma keys_from_end: "length (table_values t) \<le> i \<Longrightarrow> keys_from strs t i = []"
  by (simp add: keys_from_def)

lemma array_from_keys:
  assumes T: "tabled st L a n ps l t As" and i: "i \<le> n"
  shows "array_from (ls_strings l) t i = Ok (take 1 (keys_from (ls_strings l) t i))"
proof -
  note D = tabledD [OF T]
  let ?P = "\<lambda>j. table_values t ! j \<noteq> VNil"
  have "filter (\<lambda>j. ct_array t ! j \<noteq> VNil) [i..<n] = filter ?P [i..<n]"
    using D(4) by (intro filter_cong) (simp_all add: table_values_def nth_append)
  then have find: "find (\<lambda>j. ct_array t ! j \<noteq> VNil) [i..<n] = (case filter ?P [i..<n] of [] \<Rightarrow> None | x # _ \<Rightarrow> Some x)"
    by (simp add: find_filter)
  have split: "keys_from (ls_strings l) t i = map (slot_key (ls_strings l) t) (filter ?P [i..<n]) @ keys_from (ls_strings l) t n"
  proof -
    have "[i..<length (table_values t)] = [i..<n] @ [n..<length (table_values t)]" using upt_add_eq_append [OF i] D(4) by simp
    then show ?thesis by (simp add: keys_from_def)
  qed
  show ?thesis
  proof (cases "filter ?P [i..<n]")
    case Nil
    have "pushfirsthash (ls_strings l) t = Ok (take 1 (keys_from (ls_strings l) t n))"
    proof (cases "ct_hash t = []")
      case True
      then show ?thesis using keys_from_end [of t n] D(4) by (simp add: pushfirsthash_def)
    next
      case False
      then show ?thesis using keys_from_slot [OF T, of 0] by (auto simp: pushfirsthash_def)
    qed
    then show ?thesis using Nil find split D(4) by (simp add: array_from_def)
  next
    case (Cons j js)
    then have "j \<in> set (filter ?P [i..<n])" by simp
    then have "slot_key (ls_strings l) t j = CInteger (of_nat (j + 1))" using D(4) by (simp add: slot_key_def)
    then show ?thesis using Cons find split D(4) by (simp add: array_from_def)
  qed
qed

lemma lnextkey_keys:
  assumes T: "tabled st L a n ps l t As" and small: "\<forall>k \<in> fst ` set ps. small_key k"
  shows "lnextkey (Some a) None st = Ok (take 1 (keys_from (ls_strings l) t 0))"
    "i < length (table_values t) \<Longrightarrow> table_values t ! i \<noteq> VNil \<Longrightarrow>
      lnextkey (Some a) (Some (slot_key (ls_strings l) t i)) st = Ok (take 1 (keys_from (ls_strings l) t (i + 1)))"
proof -
  note D = tabledD [OF T]
  let ?strs = "ls_strings l"
  have get: "get_table (Some a) st = Ok (a, t)" "table_lua t st = Ok (L, l)" using D(1-3) by (simp_all add: get_table_def table_lua_def)
  show "lnextkey (Some a) None st = Ok (take 1 (keys_from ?strs t 0))"
    using get array_from_keys [OF T, of 0] by (simp add: lnextkey_def Let_def)
  assume i: "i < length (table_values t)" "table_values t ! i \<noteq> VNil"
  let ?k = "slot_key ?strs t i"
  obtain v where "map_of ps ?k = Some v" using D(9) [OF i(1)] i(2) by blast
  then have k: "small_key ?k" using small map_of_SomeD by fastforce
  show "lnextkey (Some a) (Some ?k) st = Ok (take 1 (keys_from ?strs t (i + 1)))"
  proof (cases "i < n")
    case True
    then have key: "?k = CInteger (of_nat (i + 1))" using D(4) by (simp add: slot_key_def)
    then have "array_index t ?k = Some (i + 1)" using array_index_place [of i t] True D(4,5) by simp
    then show ?thesis using get key array_from_keys [OF T, of "i + 1"] True by (simp add: lnextkey_def Let_def)
  next
    case False
    have m: "i < n + length (ct_hash t)" using i(1) D(4) by simp
    obtain nd where nd: "i - n < length (ct_hash t)" "ct_hash t ! (i - n) = Some nd" "?k = node_key ?strs nd" "array_index t ?k = None"
      using tabled_late [OF T False m] by blast
    obtain h key kt str where hk: "hashed_key ?k = Ok (h, key, kt, str)" using hashed_key_small [OF k] by blast
    have look: "lookup_key ?strs t h key kt str = Some (Some (i - n))"
      using lookup_slot(1) [OF D(6,7) k hk nd(1,2)] nd(3) by simp
    have real: "\<forall>x. ?k \<noteq> CReal x" using k by (auto simp: small_key_def)
    have "lnextkey (Some a) (Some ?k) st = (if i - n + 1 = length (ct_hash t) then Ok [] else pushkey ?strs (ct_hash t ! (i - n + 1)))"
      using get nd(4) hk look real by (cases ?k) (simp_all add: lnextkey_def Let_def)
    also have "\<dots> = Ok (take 1 (keys_from ?strs t (i + 1)))"
    proof (cases "i - n + 1 = length (ct_hash t)")
      case True
      then have "length (table_values t) \<le> i + 1" using False D(4) by simp
      then show ?thesis using True keys_from_end by simp
    next
      case neq: False
      then have "i - n + 1 < length (ct_hash t)" using nd(1) by simp
      moreover have "n + (i - n + 1) = i + 1" using False by simp
      ultimately show ?thesis using keys_from_slot [OF T, of "i - n + 1"] neq by auto
    qed
    finally show ?thesis .
  qed
qed

lemma keys_from_step: "i < length (table_values t) \<Longrightarrow>
    keys_from strs t i = (if table_values t ! i \<noteq> VNil then slot_key strs t i # keys_from strs t (i + 1) else keys_from strs t (i + 1))"
  by (simp add: keys_from_def upt_conv_Cons)

lemma all_keys_from:
  assumes T: "tabled st L a n ps l t As" and small: "\<forall>k \<in> fst ` set ps. small_key k"
    and k: "lnextkey (Some a) k st = Ok (take 1 (keys_from (ls_strings l) t i))"
  shows "all_keys st a k = Some (keys_from (ls_strings l) t i)"
  using k
proof (induction "length (table_values t) - i" arbitrary: i k rule: less_induct)
  case less
  show ?case
  proof (cases "keys_from (ls_strings l) t i")
    case Nil
    then show ?thesis using less.prems by (subst all_keys.simps) simp
  next
    case (Cons x xs)
    obtain j where j: "i \<le> j" "j < length (table_values t)" "table_values t ! j \<noteq> VNil" "x = slot_key (ls_strings l) t j"
      "xs = keys_from (ls_strings l) t (j + 1)"
    proof -
      have "\<exists>j. i \<le> j \<and> j < length (table_values t) \<and> table_values t ! j \<noteq> VNil \<and> x = slot_key (ls_strings l) t j \<and>
          xs = keys_from (ls_strings l) t (j + 1)"
        using Cons
      proof (induction "length (table_values t) - i" arbitrary: i)
        case 0
        then show ?case using keys_from_end [of t i] by simp
      next
        case (Suc d)
        then have i: "i < length (table_values t)" "d = length (table_values t) - (i + 1)" by auto
        show ?case
        proof (cases "table_values t ! i = VNil")
          case True
          then have "keys_from (ls_strings l) t (i + 1) = x # xs" using Suc.prems keys_from_step [OF i(1)] by simp
          from Suc.hyps(1) [OF i(2) this] show ?thesis by (metis add_leD1)
        next
          case False
          then show ?thesis using Suc.prems keys_from_step [OF i(1), of "ls_strings l"] i(1) by (intro exI [of _ i]) simp
        qed
      qed
      then show ?thesis using that by blast
    qed
    have "all_keys st a (Some x) = Some xs"
      using less.hyps [of "j + 1" "Some x"] j lnextkey_keys(2) [OF T small j(2,3)] by simp
    then show ?thesis using less.prems Cons by (subst all_keys.simps) simp
  qed
qed

lemma all_keys_ok:
  assumes S: "shares st L a (CTable n ps) A" and small: "\<forall>k \<in> fst ` set ps. small_key k"
  shows "\<exists>ks. all_keys st a None = Some ks \<and> distinct ks \<and> set ks = fst ` set ps"
proof -
  obtain l t As where T: "tabled st L a n ps l t As" using shares_tabled [OF S] by blast
  note D = tabledD [OF T]
  let ?ks = "keys_from (ls_strings l) t 0"
  have "all_keys st a None = Some ?ks" using all_keys_from [OF T small lnextkey_keys(1) [OF T small]] .
  moreover have "distinct ?ks"
    unfolding keys_from_def distinct_map using tabled_place [OF T] D(4) by (auto simp: inj_on_def)
  moreover have "set ?ks = fst ` set ps"
  proof
    show "set ?ks \<subseteq> fst ` set ps"
    proof
      fix k assume "k \<in> set ?ks"
      then obtain i where i: "i < length (table_values t)" "table_values t ! i \<noteq> VNil" "k = slot_key (ls_strings l) t i"
        by (auto simp: keys_from_def)
      then obtain v where "map_of ps k = Some v" using D(9) [OF i(1)] by auto
      then show "k \<in> fst ` set ps" by (metis map_of_SomeD fst_conv image_eqI)
    qed
    show "fst ` set ps \<subseteq> set ?ks"
    proof
      fix k assume "k \<in> fst ` set ps"
      then obtain v where "(k, v) \<in> set ps" by auto
      from D(10) [OF this] show "k \<in> set ?ks" by (auto simp: keys_from_def)
    qed
  qed
  ultimately show ?thesis by blast
qed

section \<open>Deletion\<close>

lemma reads_delete:
  assumes "shows_value h strs L v c A" "\<forall>x \<in> A. h' x = h x"
  shows "delete_tables (cval_table c @ rest) h' = delete_tables rest (h' |` (- A))"
  using assms
proof (induction arbitrary: h' rest rule: shows_value.induct)
  case (table a t n As ps)
  let ?vs = "table_values t" and ?U = "\<lambda>i. \<Union>j \<in> {i..<length (table_values t)}. As j"
  have children: "delete_tables (concat (map cval_table (drop i ?vs)) @ r) g = delete_tables r (g |` (- ?U i))"
    if "i \<le> length ?vs" "\<forall>x \<in> ?U i. g x = h x" for i r g
    using that
  proof (induction "length ?vs - i" arbitrary: i g)
    case 0
    then show ?case by (simp add: restrict_map_def)
  next
    case (Suc d)
    then have i: "i < length ?vs" "d = length ?vs - (i + 1)" "i + 1 \<le> length ?vs" by auto
    have U: "?U i = As i \<union> ?U (i + 1)"
    proof -
      have "{i..<length ?vs} = insert i {i + 1..<length ?vs}" using i(1) by auto
      then show ?thesis by (simp only: UN_insert)
    qed
    have step: "delete_tables (cval_table (?vs ! i) @ r') g = delete_tables r' (g |` (- As i))" for r'
    proof (cases "?vs ! i = VNil")
      case True
      then have "As i = {}" using table.IH i(1) reads_nonnil by blast
      then show ?thesis using True by (simp add: cval_table_def restrict_map_def)
    next
      case False
      have "\<forall>x \<in> As i. g x = h x" using Suc.prems(2) unfolding U by blast
      then show ?thesis using spec [OF table.IH, of i] i(1) False by auto
    qed
    have "As i \<inter> As j = {}" if "j \<in> {i + 1..<length ?vs}" for j using table.hyps(9) i(1) that by auto
    then have disj: "As i \<inter> ?U (i + 1) = {}" by blast
    have "drop i ?vs = ?vs ! i # drop (i + 1) ?vs" using i(1) by (simp add: Cons_nth_drop_Suc)
    then have "delete_tables (concat (map cval_table (drop i ?vs)) @ r) g =
        delete_tables (concat (map cval_table (drop (i + 1) ?vs)) @ r) (g |` (- As i))" using step by simp
    also have "\<dots> = delete_tables r (g |` (- As i) |` (- ?U (i + 1)))"
    proof (rule Suc.hyps(1) [OF i(2,3)], intro ballI)
      fix x assume x: "x \<in> ?U (i + 1)"
      then have "x \<notin> As i" "x \<in> ?U i" using disj unfolding U by blast+
      then show "(g |` (- As i)) x = h x" using bspec [OF Suc.prems(2)] unfolding restrict_map_def by simp
    qed
    also have "g |` (- As i) |` (- ?U (i + 1)) = g |` (- ?U i)" unfolding U by (auto simp: restrict_map_def)
    finally show ?case .
  qed
  have U0: "?U 0 = (\<Union>i < length ?vs. As i)" by (simp add: atLeast0LessThan)
  have at: "h' a = Some t" using table.prems table.hyps(1) by simp
  have "delete_tables (concat (map cval_table (drop 0 ?vs)) @ []) h' = delete_tables [] (h' |` (- ?U 0))"
    by (rule children) (use table.prems U0 in auto)
  then have inner: "delete_tables (concat (map cval_table ?vs)) h' = Some (h' |` (- (\<Union>i < length ?vs. As i)))"
    unfolding U0 drop_0 append_Nil2 delete_tables.simps [of "[]"] list.case .
  have "delete_tables (cval_table (VTable a) @ rest) h' =
      delete_tables rest ((h' |` (- (\<Union>i < length ?vs. As i)))(a := None))"
    using at inner by (subst delete_tables.simps) (simp add: cval_table_def)
  also have "(h' |` (- (\<Union>i < length ?vs. As i)))(a := None) = h' |` (- insert a (\<Union>i < length ?vs. As i))"
    by (auto simp: restrict_map_def)
  finally show ?case .
qed (simp_all add: cval_table_def restrict_map_def)

section \<open>Theorems\<close>

text \<open>(C37)
  A Lua table whose keys, at every level, are strings and integers of 32 bits, and whose values are of the five
  kinds that can be shared, is copied into shared memory when Lua has the stack and the nested calls for it, and
  can then be read back: following any path of such keys from the new table gives the value that the path has
  in the Lua table, a pointer for a table, and nothing when the path leads nowhere. So every key finds its own
  value through the collisions of the hash part. Wider integer keys are the subject of the last theorem of
  this section and of the lemma after it.\<close>

theorem sharedata_index:
  assumes "conf_ok (CTable n ps)" "share_ok st" "lua_allows room calls (CTable n ps)" "list_all small_key ks"
  shows "\<exists>a st'. lnewconf room calls (CTable n ps) st = Done a st' \<and>
    (case conf_path (CTable n ps) ks of
       None \<Rightarrow> index_path st' a ks = Ok Nothing
     | Some v \<Rightarrow> \<exists>x. index_path st' a ks = Ok x \<and> shown v x)"
proof -
  obtain st' where s: "lnewconf room calls (CTable n ps) st = Done (sh_top st) st'"
    "shares st' (sh_lua_top st) (sh_top st) (CTable n ps) {sh_top st..<sh_top st'}"
    using lnewconf_ok [OF assms(1-3)] by blast
  from index_path_ok [OF s(2) assms(4)] s(1) show ?thesis by (auto split: option.splits)
qed

lemma conf_path_ok: "conf_ok v \<Longrightarrow> conf_path v ks = Some w \<Longrightarrow> conf_ok w"
proof (induction ks arbitrary: v)
  case (Cons k ks)
  from Cons.prems(2) obtain n ps x where v: "v = CTable n ps" "map_of ps k = Some x" "conf_path x ks = Some w"
    by (auto split: conf.splits option.splits)
  then have "conf_ok x" using Cons.prems(1) map_of_SomeD [OF v(2)] by force
  then show ?case using Cons.IH v(3) by blast
qed simp

text \<open>(C38)
  In a shared table whose keys, at every level, are strings and integers of 32 bits (and whose values can be
  shared, as in the theorem before), asking for the next key again and again, from the beginning, gives every
  key once and then ends. This holds for the tables inside a table, too.\<close>

theorem sharedata_nextkey:
  assumes "conf_ok (CTable n ps)" "share_ok st" "lua_allows room calls (CTable n ps)" "list_all small_key path"
    "conf_path (CTable n ps) path = Some (CTable n' ps')"
  shows "\<exists>a st' b ks. lnewconf room calls (CTable n ps) st = Done a st' \<and> index_path st' a path = Ok (Pointer b) \<and>
    all_keys st' b None = Some ks \<and> distinct ks \<and> set ks = fst ` set ps'"
proof -
  obtain st' where s: "lnewconf room calls (CTable n ps) st = Done (sh_top st) st'"
    "shares st' (sh_lua_top st) (sh_top st) (CTable n ps) {sh_top st..<sh_top st'}"
    using lnewconf_ok [OF assms(1-3)] by blast
  obtain b B where b: "index_path st' (sh_top st) path = Ok (Pointer b)" "shares st' (sh_lua_top st) b (CTable n' ps') B"
    using index_path_ok [OF s(2) assms(4)] assms(5) by (auto simp: shown_def)
  have "\<forall>k \<in> fst ` set ps'. small_key k" using conf_path_ok [OF assms(1,5)] by auto
  from all_keys_ok [OF b(2) this] s(1) b(1) show ?thesis by blast
qed

text \<open>(C39)
  Deleting a shared table (with keys and values as in the theorems before) gives back exactly what its creation took: no
  table is left, and no other table and no other Lua state is touched.\<close>

theorem sharedata_delete:
  assumes "conf_ok (CTable n ps)" "share_ok st" "lua_allows room calls (CTable n ps)"
  shows "\<exists>a st' st''. lnewconf room calls (CTable n ps) st = Done a st' \<and> ldeleteconf (Some a) st' = Ok st'' \<and>
    sh_tables st'' = sh_tables st \<and> sh_luas st'' = sh_luas st"
proof -
  let ?L = "sh_lua_top st" and ?a = "sh_top st"
  obtain st' where s: "lnewconf room calls (CTable n ps) st = Done ?a st'"
    "shares st' ?L ?a (CTable n ps) {?a..<sh_top st'}" "?a < sh_top st'" "\<forall>x \<ge> sh_top st'. sh_tables st' x = None"
    "\<forall>x < ?a. sh_tables st' x = sh_tables st x" "\<forall>M. M \<noteq> ?L \<longrightarrow> sh_luas st' M = sh_luas st M"
    using lnewconf_ok [OF assms] by blast
  obtain l t As where T: "tabled st' ?L ?a n ps l t As" using shares_tabled [OF s(2)] by blast
  note D = tabledD [OF T]
  have "delete_tables [?a] (sh_tables st') = Some (sh_tables st' |` (- {?a..<sh_top st'}))"
    using s(2) reads_delete [of "sh_tables st'" _ ?L "CTable n ps" "VTable ?a" _ "sh_tables st'" "[]"] delete_tables.simps [of "[]"]
    by (auto simp: shares_def cval_table_def)
  moreover have "sh_tables st' |` (- {?a..<sh_top st'}) = sh_tables st"
  proof
    fix x
    show "(sh_tables st' |` (- {?a..<sh_top st'})) x = sh_tables st x"
      using s(4,5) assms(2) by (cases "x < ?a"; cases "x < sh_top st'") (auto simp: restrict_map_def share_ok_def)
  qed
  moreover have "(sh_luas st')(?L := None) = sh_luas st" using s(6) assms(2) by (auto simp: share_ok_def)
  ultimately show ?thesis
    using s(1) D(1-3) by (auto simp: ldeleteconf_def get_table_def table_lua_def delete_tbl_def lua_close_def)
qed

definition empty_share :: share where
  "empty_share = \<lparr>sh_tables = Map.empty, sh_top = 0, sh_luas = Map.empty, sh_lua_top = 0\<rparr>"

lemmas conf_run_defs = empty_share_def lnewconf_def pconv_def lua_call_def convtable_def fillnocolliding_def fillcolliding_def nocolliding_pair_def
  colliding_pair_def setarray_def array_put_def node_put_def table_put_def lua_put_def convert_stringmap_def ishashkey_def key_number_def
  key_error_def Let_def

lemmas use_defs = lindexconf_def get_table_def table_lua_def array_index_def lnextkey_def array_from_def pushfirsthash_def
  pushkey_def pushvalue_def lookup_key_def hashed_key_def chain_find.simps node_hit_def node_value_def

lemma of_int_back: "of_int (sint w) = w" for w :: "32 word"
  by (rule bit_word_eqI) (auto simp: bit_simps)

text \<open>What is left of an integer key: its low 32 bits, with their sign.\<close>

definition low_key :: "u64 \<Rightarrow> u64" where
  "low_key j = of_int (sint (ucast j :: cint))"

lemma sint_low_key: "sint (low_key j) = sint (ucast j :: cint)"
  unfolding low_key_def by (rule wide_word) (use sint_greater_eq [of "ucast j :: cint"] sint_less [of "ucast j :: cint"] in simp_all)

lemma low_key_small: "small_key (CInteger (low_key j))"
  using sint_greater_eq [of "ucast j :: cint"] sint_less [of "ucast j :: cint"] by (simp add: small_key_def sint_low_key)

lemma lindexconf_low: "lindexconf p (CInteger (low_key j)) st = lindexconf p (CInteger j) st"
proof -
  have "(ucast (low_key j) :: u32) = ucast j" unfolding low_key_def ucast_wide by (rule of_int_back)
  then have "array_index t (CInteger (low_key j)) = array_index t (CInteger j)" "hashed_key (CInteger (low_key j)) = hashed_key (CInteger j)" for t
    by (simp_all add: array_index_def hashed_key_def)
  then show ?thesis by (simp only: lindexconf_def)
qed

text \<open>(C40)
  An integer key is cut to its low 32 bits when it is looked up, so a key that is wider is never reported as
  absent for its own sake: in every shared table whose own keys are strings and integers of 32 bits, each wider
  key finds the value of the key that its low half is, and nothing only when that one is not in the table.\<close>

theorem sharedata_wide_key:
  assumes "conf_ok (CTable n ps)" "share_ok st" "lua_allows room calls (CTable n ps)" "\<not> small_key (CInteger j)"
  shows "\<exists>a st'. lnewconf room calls (CTable n ps) st = Done a st' \<and> map_of ps (CInteger j) = None \<and>
    (case map_of ps (CInteger (low_key j)) of
       None \<Rightarrow> lindexconf (Some a) (CInteger j) st' = Ok [] \<or> lindexconf (Some a) (CInteger j) st' = Ok [Nothing]
     | Some v \<Rightarrow> \<exists>x. lindexconf (Some a) (CInteger j) st' = Ok [x] \<and> shown v x)"
proof -
  obtain st' where s: "lnewconf room calls (CTable n ps) st = Done (sh_top st) st'"
    "shares st' (sh_lua_top st) (sh_top st) (CTable n ps) {sh_top st..<sh_top st'}"
    using lnewconf_ok [OF assms(1-3)] by blast
  have "map_of ps (CInteger j) = None" using assms(1,4) by (force simp: map_of_eq_None_iff)
  then show ?thesis
    using lindexconf_table [OF s(2) low_key_small [of j]] s(1) unfolding lindexconf_low by (auto split: option.splits)
qed

text \<open>
  Two such keys in one table: without another key the second is dropped in the hash part, which leaves a slot
  that is never initialised, and going through the keys reads it. (Behind a third key at the same main position
  both would be linked, and the traversal could not tell them apart.)\<close>

lemma ishashkey_integer:
  "ishashkey L 0 (CInteger i) st = Done (Inr (KEYTYPE_INTEGER, sint (ucast i :: cint), ucast i)) st"
  using of_int_back [of "ucast i"] by (simp add: ishashkey_def key_number_def Let_def)

lemma dropped_steps:
  fixes i j :: u64
  assumes same: "(ucast j :: u32) = ucast i"
    and n: "n = \<lparr>cn_v = VInteger x, cn_key = sint (ucast i :: cint), cn_next = -1, cn_keyhash = ucast i, cn_keytype = KEYTYPE_INTEGER,
      cn_nocolliding = True\<rparr>"
    and p: "p = unat (ucast i :: u32) mod 2" and t: "t = \<lparr>ct_array = [], ct_hash = [None, None], ct_L = l\<rparr>"
    and t': "t' = t\<lparr>ct_hash := [None, None][p := Some n]\<rparr>"
  shows "sh_tables st a = Some t \<Longrightarrow> nocolliding_pair (setvalue c L) L a (CInteger i, CInteger x) st = Done () (table_put a t' st)"
    "sh_tables st a = Some t' \<Longrightarrow> nocolliding_pair (setvalue c L) L a (CInteger j, CInteger y) st = Done () st"
    "sh_tables st a = Some t' \<Longrightarrow> k \<in> {i, j} \<Longrightarrow> colliding_pair (setvalue c L) L a (CInteger k, CInteger z) st = Done () st"
proof -
  have p2: "p < 2" by (simp add: p)
  have at: "ct_array t = []" "length (ct_hash t) = 2" "ct_hash t ! p = None" "ct_array t' = []" "length (ct_hash t') = 2"
    "ct_hash t' ! p = Some n" using p2 by (auto simp: t t' less_2_cases_iff)
  have upd: "t' = t\<lparr>ct_hash := (ct_hash t)[p := Some n]\<rparr>" unfolding t' by (simp only: t conf_table.simps)
  show "sh_tables st a = Some t \<Longrightarrow> nocolliding_pair (setvalue c L) L a (CInteger i, CInteger x) st = Done () (table_put a t' st)"
    using at(1-3) p2 by (simp add: nocolliding_pair_def ishashkey_integer Let_def node_put_def upd flip: p n)
  show "sh_tables st a = Some t' \<Longrightarrow> nocolliding_pair (setvalue c L) L a (CInteger j, CInteger y) st = Done () st"
    using at(4-) by (simp add: nocolliding_pair_def ishashkey_integer Let_def same flip: p)
  show "sh_tables st a = Some t' \<Longrightarrow> k \<in> {i, j} \<Longrightarrow> colliding_pair (setvalue c L) L a (CInteger k, CInteger z) st = Done () st"
    using at(4-) same by (auto simp: colliding_pair_def ishashkey_integer Let_def n simp flip: p)
qed

lemma sharedata_dropped_key:
  fixes i j :: u64
  assumes "i \<noteq> j" "(ucast j :: u32) = ucast i" "0 < calls" "4 \<le> room"
  shows "\<exists>a st'. lnewconf room calls (CTable 0 [(CInteger i, CInteger x), (CInteger j, CInteger y)]) st = Done a st' \<and>
    lindexconf (Some a) (CInteger j) st' = Ok [Scalar (CInteger x)] \<and> all_keys st' a None = None"
proof -
  let ?a = "sh_top st" and ?L = "sh_lua_top st" and ?ps = "[(CInteger i, CInteger x), (CInteger j, CInteger y)]"
  define n where "n = \<lparr>cn_v = VInteger x, cn_key = sint (ucast i :: cint), cn_next = -1, cn_keyhash = ucast i,
    cn_keytype = KEYTYPE_INTEGER, cn_nocolliding = True\<rparr>"
  define p where "p = unat (ucast i :: u32) mod 2"
  define t where "t = \<lparr>ct_array = [], ct_hash = [None, None], ct_L = Some ?L\<rparr>"
  define t' where "t' = t\<lparr>ct_hash := [None, None][p := Some n]\<rparr>"
  define st1 where "st1 = table_put ?a \<lparr>ct_array = [], ct_hash = [], ct_L = None\<rparr>
    (lua_put ?L \<lparr>ls_strings = [], ls_state = None\<rparr> (st\<lparr>sh_lua_top := ?L + 1, sh_top := ?a + 1\<rparr>))"
  define st2 where "st2 = table_put ?a t' (table_put ?a t st1)"
  note steps = dropped_steps [OF assms(2) n_def p_def t_def t'_def]
  have s2: "sh_tables st2 ?a = Some t'" "sh_luas st2 ?L = Some \<lparr>ls_strings = [], ls_state = None\<rparr>"
    by (simp_all add: st2_def st1_def lua_put_def)
  have two: "replicate (Suc (Suc 0)) None = [None, None]" by simp
  have count: "countsize 0 ?ps = Inr (Suc (Suc 0))" by (simp add: key_error_def)
  have "convtable (setvalue (calls - 1) ?L) ?L ?a 0 ?ps st1 = Done () st2"
    unfolding convtable_def count sum.case Let_def two
    using steps(1) [of "table_put ?a t st1" ?a] steps(2) [OF s2(1)] steps(3) [OF s2(1)]
    by (simp add: fillnocolliding_def fillcolliding_def t_def [symmetric] st2_def [symmetric])
  then have "pconv room calls ?L ?a 0 ?ps st1 = Done () st2" using assms(3,4) s2(2) by (simp add: pconv_def lua_call_def)
  then have "lnewconf room calls (CTable 0 ?ps) st = Done ?a (convert_stringmap ?L ?a st2)"
    unfolding lnewconf_def conf.case Let_def st1_def [symmetric] by simp
  moreover define st' where "st' = convert_stringmap ?L ?a st2"
  have s: "sh_tables st' ?a = Some t'" "\<exists>l. sh_luas st' ?L = Some l" using s2 by (simp_all add: st'_def convert_stringmap_def lua_put_def)
  then obtain l where l: "sh_luas st' ?L = Some l" by blast
  have get: "get_table (Some ?a) st' = Ok (?a, t')" "table_lua t' st' = Ok (?L, l)"
    using s(1) l by (simp_all add: get_table_def table_lua_def t'_def t_def)
  have p2: "p = 0 \<or> p = 1" by (auto simp: p_def)
  have t'p: "ct_array t' = []" "length (ct_hash t') = 2" "ct_hash t' ! p = Some n" "ct_hash t' ! (1 - p) = None" using p2 by (auto simp: t'_def t_def)
  have arr: "array_index t' (CInteger k) = None" for k using t'p(1) by (auto simp: array_index_def Let_def)
  have look: "lookup_key strs t' (ucast i) (sint (ucast i :: cint)) KEYTYPE_INTEGER [] = Some (Some p)" for strs
    using t'p p2 by (auto simp: lookup_key_def Let_def array_get_def chain_find.simps node_hit_def n_def simp flip: p_def)
  have "lindexconf (Some ?a) (CInteger j) st' = Ok [Scalar (CInteger x)]"
    using t'p(1,3) by (simp add: lindexconf_def get arr hashed_key_def assms(2) look node_value_def n_def pushvalue_def)
  moreover have "all_keys st' ?a None = None"
  proof (cases "p = 0")
    case True
    have first: "lnextkey (Some ?a) None st' = Ok [CInteger (low_key i)]"
      using t'p True by (auto simp: lnextkey_def get array_from_def pushfirsthash_def pushkey_def n_def low_key_def)
    have "(ucast (low_key i) :: u32) = ucast i" unfolding low_key_def ucast_wide by (rule of_int_back)
    moreover have sint_low: "(ucast (low_key i) :: cint) = ucast i" using calculation by simp
    ultimately have "lnextkey (Some ?a) (Some (CInteger (low_key i))) st' = Crash"
      using t'p True look by (auto simp: lnextkey_def get arr hashed_key_def sint_low pushkey_def)
    then show ?thesis using first by (subst all_keys.simps, simp, subst all_keys.simps, simp)
  next
    case False
    then have "lnextkey (Some ?a) None st' = Crash"
      using t'p p2 by (auto simp: lnextkey_def get array_from_def pushfirsthash_def pushkey_def)
    then show ?thesis by (subst all_keys.simps) simp
  qed
  ultimately show ?thesis unfolding st'_def [symmetric] by blast
qed

text \<open>A table is let through as a key, and is then the same key as the empty string.\<close>

lemma sharedata_table_key:
  "\<exists>a st. lnewconf 5 1 (CTable 0 [(CTable 0 [], CInteger x)]) empty_share = Done a st \<and>
     lindexconf (Some a) (CString []) st = Ok [Scalar (CInteger x)]"
  by (simp add: conf_run_defs use_defs stringindex_def string_place_def string_at_def calchash_def hash_loop.simps KEYTYPE_STRING_def KEYTYPE_INTEGER_def)

text \<open>When a table inside another one cannot be converted, the error leaves its memory behind: the tables that
  are under conversion have not been linked to their parents yet, and only what is linked is deleted.\<close>

theorem sharedata_error_leaks:
  "\<exists>st. lnewconf room 2 (CTable 0 [(CInteger 5, CTable 0 [(CInteger 6, COther name)])]) empty_share =
     Raised (''Unsupport value type '' @ name) st \<and> sh_tables st 0 = None \<and> sh_tables st 1 \<noteq> None"
  by (simp add: conf_run_defs delete_tbl_def delete_tables.simps lua_close_def table_values_def node_value_def cval_table_def)

section \<open>Examples\<close>

text \<open>The keys 9 and 12 have the same main position, so 12 is linked behind 9.\<close>

definition sample_pairs :: "(conf \<times> conf) list" where
  "sample_pairs = [(CInteger 2, CBoolean True), (CInteger 9, CReal 7), (CInteger 12, CTable 0 [(CInteger 5, CInteger 6)]),
     (CInteger 1, CInteger 4), (CInteger 10, CBoolean False)]"

lemma sample_pairs_ok: "conf_ok (CTable 2 sample_pairs)" "share_ok empty_share"
  by (simp_all add: sample_pairs_def small_key_def share_ok_def empty_share_def)

lemma sample_path: "conf_path (CTable 2 sample_pairs) [CInteger 12, CInteger 5] = Some (CInteger 6)"
  by (simp add: sample_pairs_def)

lemma sample_keys: "fst ` set sample_pairs = {CInteger 1, CInteger 2, CInteger 9, CInteger 10, CInteger 12}"
  by (auto simp: sample_pairs_def)

lemma sample_allowed: "lua_allows 999990 195 (CTable 2 sample_pairs)"
  by (simp add: lua_allows_def sample_pairs_def)

theorem sharedata_index_witness:
  "\<exists>a st. lnewconf 999990 195 (CTable 2 sample_pairs) empty_share = Done a st \<and>
     index_path st a [CInteger 12, CInteger 5] = Ok (Scalar (CInteger 6))"
  using sharedata_index [OF sample_pairs_ok sample_allowed, of "[CInteger 12, CInteger 5]"]
  by (simp only: sample_path option.case) (simp add: small_key_def shown_def)

theorem sharedata_nextkey_witness:
  "\<exists>a st ks. lnewconf 999990 195 (CTable 2 sample_pairs) empty_share = Done a st \<and> all_keys st a None = Some ks \<and> distinct ks \<and>
     set ks = {CInteger 1, CInteger 2, CInteger 9, CInteger 10, CInteger 12}"
  using sharedata_nextkey [OF sample_pairs_ok sample_allowed, of "[]" 2 sample_pairs] unfolding sample_keys by simp

theorem sharedata_delete_witness:
  "\<exists>a st st'. lnewconf 999990 195 (CTable 2 sample_pairs) empty_share = Done a st \<and> ldeleteconf (Some a) st = Ok st' \<and>
     sh_tables st' = Map.empty \<and> sh_luas st' = Map.empty"
  using sharedata_delete [OF sample_pairs_ok sample_allowed] by (simp add: empty_share_def)

text \<open>The key \<open>2 ^ 32 + 9\<close> is not in the table and finds the value of 9.\<close>

theorem sharedata_wide_key_witness:
  "\<exists>a st. lnewconf 999990 195 (CTable 2 sample_pairs) empty_share = Done a st \<and> map_of sample_pairs (CInteger 0x100000009) = None \<and>
     lindexconf (Some a) (CInteger 0x100000009) st = Ok [Scalar (CReal 7)]"
proof -
  have wide: "\<not> small_key (CInteger 0x100000009)" by (simp add: small_key_def)
  have low: "map_of sample_pairs (CInteger (low_key 0x100000009)) = Some (CReal 7)" by (simp add: low_key_def sample_pairs_def)
  show ?thesis
    using sharedata_wide_key [OF sample_pairs_ok sample_allowed wide] unfolding low option.case
    by (auto simp: shown_def)
qed


end
