(* ===== verification/Spec2Isabelle.thy ===== *)
theory Spec2Isabelle
  imports Sched Handle Timer Node Command Delivery Seri Des Crypt Sha1 Netpack Zeropack Cluster Stm Harbor_Node Sharedata_Use
begin

text \<open>
  ZTask is an actor framework in C: services exchange messages through queues that a pool of
  worker threads serves, timers and sockets are sources of messages, and services written in Lua
  use C libraries for serialisation, packages and cryptography. This development models the core
  of \<^verbatim>\<open>src/ztask\<close> as Isabelle functions, states what each part promises and proves it.

  \<^bold>\<open>How the parts interact.\<close> A service is a context (\<^verbatim>\<open>struct ztask_context\<close>) with a reference count,
  a handle in the handle table and a message queue. \<^verbatim>\<open>ztask_send\<close> copies the payload, looks the
  destination up and pushes a message; a push makes an idle queue enter the global queue. A worker
  (\<^verbatim>\<open>ztask_context_message_dispatch\<close>) pops a queue from the global queue, grabs its context,
  dispatches some messages to the callback, and gives the queue back. A context that loses its last
  reference marks its queue; the worker that finds no context for a queue drops it and reports
  the pending messages to their senders. Timers push their response like any sender. Text
  commands (\<^verbatim>\<open>ztask_command\<close>) launch, name, query and kill services.

  \<^bold>\<open>Theories and the code they model.\<close>
  Prelude has the C scalar types, arrays with checked access, the arithmetic of ring buffers and the
  generic lemmas. Fifo is the contract of a queue (locale \<open>fifo\<close>), with what follows for any sequence
  of operations; Mq and Netpack interpret it. A queue may have a limit: \<open>bounded_fifo\<close> is the contract then. CString models \<^verbatim>\<open>strcmp\<close>, \<^verbatim>\<open>strtoul\<close>, \<^verbatim>\<open>strtol\<close> and the
  \<^verbatim>\<open>printf\<close> conversions the code uses, with the contract of a comparison (locale \<open>comparison\<close>) that the
  binary search of names relies on. Outcome has the results of functions exported to Lua.

  Mq is \<^verbatim>\<open>ztask_mq.c\<close>: record \<open>message_queue\<close> is \<^verbatim>\<open>struct message_queue\<close>, \<open>mq_state\<close> the heap of queues
  with the global queue. The capacity of a ring is a C \<^verbatim>\<open>int\<close> that doubles from 64, so a queue holds at most
  \<open>MQ_LIMIT = 2 ^ 30 - 1\<close> messages (the next one would make a doubling that overflows), and what is said about pushes
  needs room for them (\<open>roomy\<close> for all queues of a node). \<open>mq_ok\<close> is the invariant of a queue, \<open>mq_contents\<close> its abstraction to a list,
  \<open>gq_ok\<close> the invariant of the linked global queue; the locale \<open>drop_client\<close> states what
  \<^verbatim>\<open>ztask_mq_release\<close> needs of the callback it drops messages with.

  Sched is the protocol of the workers as a step relation, one step for every critical section of
  the C code, for any number of threads: no queue is dispatched by two workers, no message is left
  in a queue that nobody will look at, no assertion fails, no freed queue is used. \<open>worker_acts\<close> are the actions
  of a worker at its place. A launch registers its context before it creates the queue; the contexts in between
  are the list \<open>queueless\<close>, and a thread that sends to one of them uses a pointer that is not defined, for which
  there is no step.

  Handle is \<^verbatim>\<open>ztask_handle.c\<close>: the open hash table of contexts, the sorted array of names. Timer is
  \<^verbatim>\<open>ztask_timer.c\<close>: the hierarchical timing wheel, proved against the multiset of pending timers.

  Node is \<^verbatim>\<open>ztask_server.c\<close> without the commands, with \<^verbatim>\<open>ztask_module.c\<close>, \<^verbatim>\<open>ztask_harbor.c\<close>,
  \<^verbatim>\<open>ztask_env.c\<close>, \<^verbatim>\<open>ztask_error.c\<close>, \<^verbatim>\<open>ztask_log.c\<close> and \<^verbatim>\<open>ztask_monitor.c\<close>: record \<open>node\<close> extends the queue
  state by contexts, the heap of payloads and the state of these components; what is outside the
  program (loaded modules, service callbacks, the dynamic loader, clocks, files) is a field of the record
  \<open>world\<close>, an argument of the operations. Command is the command table of \<^verbatim>\<open>ztask_server.c\<close>. Delivery
  follows a message through a worker; the last section of this theory joins it with sending.

  Seri is \<^verbatim>\<open>lualib/lua-seri.c\<close>, Des and Crypt are \<^verbatim>\<open>lualib/lua-crypt.c\<close>, Sha1 is \<^verbatim>\<open>lualib/lsha1.c\<close>,
  Netpack is \<^verbatim>\<open>lualib/lua-netpack.c\<close>. Zeropack is the packing of \<^verbatim>\<open>lualib/sproto/sproto.c\<close> with the functions
  of \<^verbatim>\<open>lsproto.c\<close> that call it, against a recursive definition of the format. Cluster is
  \<^verbatim>\<open>lualib/lua-cluster.c\<close>, the messages between nodes.

  Rwlock is \<^verbatim>\<open>rwlock.h\<close> as a step relation, one step for every access to its two fields, refined to a lock
  with atomic operations. Stm is \<^verbatim>\<open>lualib/lua-stm.c\<close> over that lock: one step for every atomic operation
  and every locked section of a writer and any number of readers, with the reference counts of the object and
  of its versions. The counts are C integers: runs with up to \<open>READER_LIMIT\<close> (\<open>2 ^ 29\<close>) readers are considered, which
  keeps them below \<open>2 ^ 31\<close>. A reader is taken to be kept by its caller while its function runs.

  The harbor service, \<^verbatim>\<open>server/service_harbor.c\<close>, carries messages to other nodes. Harbor_Queue has its
  queues of waiting messages and the table of global names, Harbor its operations, from the frames on the
  wire up to \<^verbatim>\<open>mainloop\<close>; the functions it calls (sending, memory, sockets) are fields of the record
  \<open>services\<close>, an argument of the operations, and \<open>harbor_run\<close> is any run of the service. Harbor_Link has the
  invariant of the service and what waiting comes to, Harbor_Frames the loop that cuts a stream of bytes into
  frames. Harbor_Node takes the functions of Node and Command for the calls and states the theorems.

  Sharedata is \<^verbatim>\<open>lualib/lua-sharedata.c\<close>: Lua tables copied once into memory that all services read (\<open>share\<close>
  is that memory). Sharedata_Hash has the lookup in the chains of a hash part, Sharedata_Conv what it
  means that a tree of tables shows a Lua value, Sharedata_Fill the steps that fill one table and the invariant they
  keep, Sharedata_Table the passes over a whole table and the recursion, Sharedata_Use what the clients see. The
  arguments \<open>room\<close> and \<open>calls\<close> say how many values the stack of the Lua state of the strings can take and how many
  calls of C functions Lua nests; \<open>lua_allows\<close> is what a conversion needs of both.

  \<^bold>\<open>What the lemmas show.\<close> For every data structure: an invariant, that each operation preserves it,
  and a refinement to lists, maps or multisets (\<open>mq_contents\<close>, \<open>handle_map\<close>, the pending timers,
  \<open>pending\<close> and \<open>queued\<close> of Netpack). For the codecs: round trips and, where the input is untrusted,
  termination and the inputs on which the code leaves its buffer. The inputs on which the packing of sproto reads
  behind its source are characterised. For the shared objects of Stm: no access to freed memory in any
  interleaving but one, that no memory is left, and that a version is neither freed nor changed while a reader has it. For the harbor service: a message for another node reaches
  the queue of its destination however the stream is cut, and waiting for a connection or for a name makes no
  difference but in the cases that are stated. A shared table shows each client the Lua table it was made from and is
  freed completely. SHA-1 and HMAC are proved equal to
  the definitions of the standards, DES decoding inverts encoding, the exchange of keys agrees.

  \<^bold>\<open>Conventions.\<close> A C function that may abort (a failed \<^verbatim>\<open>assert\<close>, a null pointer, an access outside an
  array) has an option as its result, \<open>None\<close> being the abort; a Lua function has an \<open>outcome\<close>, which
  also has Lua errors. Machine integers are words where they can wrap; counters that the code
  keeps within an array are natural numbers. Loops that might not end are \<^theory_text>\<open>partial_function (option)\<close>,
  where \<open>None\<close> is also the value of a loop that does not end, and each property proves that the
  loop returns. (\<^verbatim>\<open>ztask_timeout_del\<close> alone can spin; it drops the lock in its loop, so that in the program another thread
  can end it, which the sequential model of the wheel does not show.) Seri's recursive reader takes fuel as an argument;
  twice the number of bytes and two is proved to be enough for any buffer, and that the reader stays inside it.
  The machine is little-endian with 64-bit pointers, as the program's targets are.

  \<^bold>\<open>Not modelled.\<close> The sockets, the resolver and the HTTP client (\<^verbatim>\<open>ztask_socket.c\<close>, \<^verbatim>\<open>ztask_dns.c\<close>,
  \<^verbatim>\<open>ztask_curl.c\<close>) are calls of the operating system around completion ports. Start-up, daemon, user interface
  and allocator hooks (\<^verbatim>\<open>ztask_start.c\<close>, \<^verbatim>\<open>ztask_main.c\<close>, \<^verbatim>\<open>ztask_daemon.c\<close>, \<^verbatim>\<open>ztask_ui.c\<close>, \<^verbatim>\<open>malloc_hook.c\<close>) and
  threads, atomics, locks and coroutines are the platform; Sched takes their atomicity for
  granted, and the steps of Sched, Rwlock and Stm are taken in a sequentially consistent memory, as on x86.
  Handle, Node and Timer are models of one thread at a time; what a registration does between the steps of another
  one is stated in Handle. Not modelled yet: the other services of \<^verbatim>\<open>server/\<close>, the schemas
  and the wire format of sproto, bson and multicast. Third-party code (Lua, lpeg, cjson, jemalloc, curl and others)
  and the Lua programs are outside. Exhaustion of memory is not modelled: \<^verbatim>\<open>malloc\<close> succeeds.
\<close>

section \<open>From the sender to the callback\<close>

lemma type_bits: "int (unat (ucast (t AND 0xff) :: u64)) = int (unat (t AND 0xff))" for t :: u32
proof -
  have "unat (t AND 0xff) < 2 ^ 32" using unsigned_less [where ?'b = 32 and ?'a = nat and w = "t AND 0xff"] by simp
  then show ?thesis by (simp add: unsigned_ucast_eq take_bit_nat_eq_self)
qed

text \<open>(C1)
  A message sent to an idle service of the node reaches the callback of that service: the call returns
  the session; the next worker without a queue picks the queue of the service and calls the callback
  with the type, the session, the source and the size of the message and a pointer to the payload.
  The callback is any function that for these arguments returns 0 and applies \<open>g\<close> to the environment of
  the node; that the environment ends as \<open>g (env n)\<close> says that it was called with them, once.
  After it the copy is freed, the queue is empty again and the heap is what it was before the send.\<close>

theorem sent_message_reaches_callback:
  assumes ok: "node_ok n []" and c: "ctxs n c = Some x" and sz: "sz AND MESSAGE_TYPE_MASK = sz"
    and args: "args_ok typ session data sz n" and dest: "local_dest n destination" "lookup n destination = Some d"
    and d: "c \<noteq> d" "ctxs n d = Some y" "callable y f"
    and mq: "mq_view n (cqueue y) = Some mq" "mq_contents mq = []" "\<not> in_global mq" "mq_handle mq = destination"
      "overload mq = 0"
    and call: "\<And>k p. (case p of None \<Rightarrow> data = None | Some a \<Rightarrow> heap k a = sent_payload typ data sz n \<and> data \<noteq> None) \<Longrightarrow>
      w_cb w f d (cb_ud y) (int (unat (typ AND 0xff))) (sent_session typ session x)
        (if source = 0 then chandle x else source) p sz k = Some (0, k\<lparr>env := g (env k)\<rparr>)"
  shows "\<exists>n1 n2 sm'. ztask_send w (Some c) source destination typ session data sz n = Some (sent_session typ session x, n1) \<and>
    ztask_context_message_dispatch w sm None (-1) n1 = Some (Some (cqueue y), sm', n2) \<and>
    env n2 = g (env n) \<and> map_option mq_contents (mq_view n2 (cqueue y)) = Some [] \<and>
    ctxs n2 d = Some (y\<lparr>message_count := message_count y + 1\<rparr>) \<and>
    (typ AND PTYPE_TAG_DONTCOPY = 0 \<longrightarrow> heap n2 = heap n)"
proof -
  let ?f = "filtered_node c x typ data sz n" and ?m = "sent_message source typ session data sz x n"
  have "ready n [] d" using ok dest(2) unfolding node_ok_def by blast
  then have th: "0 < overload_threshold mq" using d(2) mq(1) by (simp add: ready_def mq_ok_def)
  obtain n1 qs mq1 where n1: "ztask_send w (Some c) source destination typ session data sz n = Some (sent_session typ session x, n1)"
    "node_ok n1 qs" "qs = [cqueue y]" "mq_view n1 = (mq_view n)(cqueue y \<mapsto> mq1)" "in_global mq1" "mq_contents mq1 = [?m]"
    "mq_state.more n1 = mq_state.more ?f" "mq_ok mq1" "mq_handle mq1 = destination" "overload mq1 = 0" "0 < overload_threshold mq1"
    using ztask_send_delivered [OF ok c sz args dest d(2) mq(1), of w source] mq(2-5) th by (auto simp: MQ_LIMIT_def)
  note f1 = node_more_fields [OF n1(7)]
  have ctx1: "ctxs n1 d = Some y"
    using d f1(1) by (simp add: filtered_node_def Let_def node_malloc_def ctx_put_def)
  have lk1: "lookup n1 (mq_handle mq1) = Some d"
    using dest(2) n1(9) by (simp add: lookup_more [OF n1(7)] same_core_lookup [OF filtered_node_core [OF c]])
  have payload: "case msg_data ?m of None \<Rightarrow> data = None | Some a \<Rightarrow> heap n1 a = sent_payload typ data sz n \<and> data \<noteq> None"
    by (rule sent_message_payload [OF args f1(3)])
  have there: "case msg_data ?m of None \<Rightarrow> True | Some a \<Rightarrow> heap n1 a \<noteq> None"
    using sent_data_heap [OF args, of c x] f1(3) by (cases data) (auto simp: sent_message_def sent_data_def)
  have cb: "w_cb w f d (cb_ud y) (int (unat (drop_bit MESSAGE_TYPE_SHIFT (msg_sz ?m)))) (msg_session ?m) (msg_source ?m)
      (msg_data ?m) (msg_sz ?m AND MESSAGE_TYPE_MASK) k = Some (0, k\<lparr>env := g (env k)\<rparr>)" if "heap k = heap n1" for k
  proof -
    have "case msg_data ?m of None \<Rightarrow> data = None | Some a \<Rightarrow> heap k a = sent_payload typ data sz n \<and> data \<noteq> None"
      using payload unfolding that .
    note call [OF this]
    moreover have "msg_session ?m = sent_session typ session x" "msg_source ?m = (if source = 0 then chandle x else source)"
      by (simp_all add: sent_message_def)
    ultimately show ?thesis by (simp only: sent_message_fields [OF sz] type_bits)
  qed
  from worker_dispatches_one [OF n1(2) [unfolded n1(3)] _ n1(8,6,5,10) _ lk1 ctx1 refl d(3) cb there, of sm] n1(4,11)
  obtain n2 mq2 where n2: "ztask_context_message_dispatch w sm None (-1) n1 = Some (Some (cqueue y),
      ztask_monitor_trigger 0 0 (ztask_monitor_trigger (msg_source ?m) (mq_handle mq1) sm), n2)"
    "mq_view n2 = (mq_view n1)(cqueue y \<mapsto> mq2)" "mq_contents mq2 = []"
    "ctxs n2 = (ctxs n1)(d \<mapsto> y\<lparr>message_count := message_count y + 1\<rparr>)" "heap n2 = freed (msg_data ?m) (heap n1)"
    "env n2 = g (env n1)"
    by auto
  have "env ?f = env n" by (simp add: filtered_node_def Let_def node_malloc_def ctx_put_def)
  then have en: "env n2 = g (env n)" using n2(6) f1(9) by simp
  have "heap n2 = heap n" if "typ AND PTYPE_TAG_DONTCOPY = 0"
  proof -
    have "heap n (heap_brk n) = None" using ok by (simp add: node_ok_def)
    then have "(heap n)(heap_brk n := None) = heap n" by (simp add: fun_upd_idem_iff)
    then show ?thesis using that n2(5) f1(3)
      by (cases data) (simp_all add: sent_message_def sent_data_def freed_def filtered_node_heap)
  qed
  then show ?thesis using n1(1) n2 en by auto
qed

text \<open>Context 7 sends two bytes to context 8, whose callback is function 0; it sets a variable.\<close>

definition echo_world :: world where
  "echo_world = sample_world\<lparr>w_cb := (\<lambda>_ _ _ _ _ _ _ _ k. Some (0, k\<lparr>env := (env k)(''called'' \<mapsto> ''yes'')\<rparr>))\<rparr>"

definition echo_net :: node where
  "echo_net = ctx_put 8 ((sample_context 2 2)\<lparr>cb := Some 0\<rparr>) sample_net"

theorem sent_message_reaches_callback_witness:
  "\<exists>n1 n2 sm. ztask_send echo_world (Some 7) 0 2 0x2000A 0 (Some 5) 2 echo_net = Some (1, n1) \<and>
     ztask_context_message_dispatch echo_world ztask_monitor_new None (-1) n1 = Some (Some 2, sm, n2) \<and>
     env echo_net ''called'' = None \<and> env n2 ''called'' = Some ''yes'' \<and> heap n2 = heap echo_net"
proof -
  let ?y = "(sample_context 2 2)\<lparr>cb := Some 0\<rparr>"
  have core: "same_core sample_net echo_net" unfolding echo_net_def
    by (rule same_core_ctx [of _ _ "sample_context 2 2"]) (simp_all add: sample_net_def routing_def)
  have ok: "node_ok echo_net []" by (rule same_core_ok [OF sample_net_ok core])
  have c: "ctxs echo_net 7 = Some (sample_context 1 1)" "ctxs echo_net 8 = Some ?y"
    by (simp_all add: echo_net_def ctx_put_def sample_net_def)
  have args: "args_ok 0x2000A 0 (Some 5) 2 echo_net" "local_dest echo_net 2"
    by (simp_all add: args_ok_def local_dest_def echo_net_def ctx_put_def sample_net_def PTYPE_TAG_ALLOCSESSION_def
        PTYPE_TAG_DONTCOPY_def HANDLE_MASK_def)
  have lk: "lookup echo_net 2 = Some 8" using sample_net_lookup(2) by (simp add: same_core_lookup [OF core])
  have call: "callable ?y 0" by (simp add: callable_def sample_context_def)
  have mq: "mq_view echo_net (cqueue ?y) = Some ((mq_new 2)\<lparr>in_global := False\<rparr>)"
    by (simp add: echo_net_def ctx_put_def sample_net_def sample_context_def mq_view_def mq_new_def)
  have idle: "mq_contents ((mq_new 2)\<lparr>in_global := False\<rparr>) = []" "mq_handle ((mq_new 2)\<lparr>in_global := False\<rparr>) = 2"
    "overload ((mq_new 2)\<lparr>in_global := False\<rparr>) = 0" "\<not> in_global ((mq_new 2)\<lparr>in_global := False\<rparr>)"
    by (simp_all add: mq_new_ok) (simp_all add: mq_new_def)
  have s: "sent_session 0x2000A 0 (sample_context 1 1) = 1"
    by (simp add: sent_session_def PTYPE_TAG_ALLOCSESSION_def ztask_context_newsession_def sample_context_def)
  have w: "w_cb echo_world f d ud t ss src p z k = Some (0, k\<lparr>env := (\<lambda>e. e(''called'' \<mapsto> ''yes'')) (env k)\<rparr>)"
    for f d ud t ss src p z k by (simp add: echo_world_def)
  have e: "env echo_net ''called'' = None" by (simp add: echo_net_def ctx_put_def sample_net_def)
  have q: "cqueue ?y = 2" by (simp add: sample_context_def)
  have "(7 :: ctxref) \<noteq> 8" "(0x2000A :: u32) AND PTYPE_TAG_DONTCOPY = 0" by (simp_all add: PTYPE_TAG_DONTCOPY_def)
  with sent_message_reaches_callback [OF ok c(1) sample_send_args(2) args lk _ c(2) call mq idle(1,4,2,3) w,
    of 0 ztask_monitor_new] show ?thesis unfolding s q using e by auto
qed

end
